(* ===== verification/Prelude.thy ===== *)
theory Prelude
  imports Main "HOL-Library.List_Lexorder" "HOL-Library.Char_ord"
begin

section \<open>Shared notions of the development\<close>

text \<open>
  What every component theory uses: three-way comparisons in the convention of the Go sources
  (a negative number, zero or a positive number), the laws a total preorder gives them, the
  combinators out of which the version orders are composed, and the byte strings of Go with the
  parts of package \<^verbatim>\<open>strings\<close> the sources call. Go strings are byte sequences, and a HOL
  \<^typ>\<open>string\<close> is a list of 8-bit characters, so one is modelled by the other.
\<close>

named_theorems comparison_intros "rules that build a lawful comparison from lawful comparisons"
named_theorems scan_simps "equations that evaluate the byte scanners"

subsection \<open>Three-way comparisons\<close>

text \<open>
  The interface every comparison function of the program is held to: what it answers is one of
  the three signs, swapping the arguments negates it, and \<open>\<le>\<close> is transitive. The clients
  (version reachability, the choice of a newest candidate) rest on the lemmas proved here once.
\<close>

locale comparison =
  fixes cmp :: "'a \<Rightarrow> 'a \<Rightarrow> int"
  assumes signs: "cmp a b = -1 \<or> cmp a b = 0 \<or> cmp a b = 1"
    and swap: "cmp b a = - cmp a b"
    and le_trans: "cmp a b \<le> 0 \<Longrightarrow> cmp b c \<le> 0 \<Longrightarrow> cmp a c \<le> 0"
begin

lemma self: "cmp a a = 0"
  using swap [of a a] by simp

lemma zero_sym: "cmp a b = 0 \<Longrightarrow> cmp b a = 0"
  using swap [of a b] by simp

lemma zero_trans: "cmp a b = 0 \<Longrightarrow> cmp b c = 0 \<Longrightarrow> cmp a c = 0"
  using le_trans [of a b c] le_trans [of c b a] swap [of a b] swap [of b c] swap [of a c]
  by simp

lemma less_le_trans: "cmp a b < 0 \<Longrightarrow> cmp b c \<le> 0 \<Longrightarrow> cmp a c < 0"
  using le_trans [of a b c] le_trans [of b c a] swap [of a b] swap [of a c]
  by (cases "cmp a c = 0") auto

lemma le_less_trans: "cmp a b \<le> 0 \<Longrightarrow> cmp b c < 0 \<Longrightarrow> cmp a c < 0"
  using le_trans [of a b c] le_trans [of c a b] swap [of a c] swap [of b c]
  by (cases "cmp a c = 0") auto

lemma total: "cmp a b \<le> 0 \<or> cmp b a \<le> 0"
  using swap [of a b] by linarith

lemma zero_cong:
  assumes "cmp a b = 0"
  shows "cmp a c = cmp b c"
proof -
  have ba: "cmp b a = 0" using assms by (rule zero_sym)
  consider "cmp a c < 0" | "cmp a c = 0" | "cmp c a < 0"
    using swap [of a c] by linarith
  then show ?thesis
  proof cases
    case 1
    then have "cmp b c < 0" using le_less_trans [of b a c] ba by simp
    with 1 show ?thesis using signs [of a c] signs [of b c] by auto
  next
    case 2
    then show ?thesis using zero_trans [OF ba] by simp
  next
    case 3
    then have "cmp c b < 0" using less_le_trans [of c a b] assms by simp
    with 3 show ?thesis using signs [of c a] signs [of c b] swap [of a c] swap [of b c] by auto
  qed
qed

lemma zero_cong_right: "cmp a b = 0 \<Longrightarrow> cmp c a = cmp c b"
  using zero_cong [of a b c] swap [of c a] swap [of c b] by simp

end

text \<open>The comparison of a linear order, and Go's \<^verbatim>\<open>strings.Compare\<close> as its instance on bytes.\<close>

definition cmp_of :: "'a::linorder \<Rightarrow> 'a \<Rightarrow> int" where
  "cmp_of x y = (if x < y then -1 else if x = y then 0 else 1)"

lemma cmp_of_simps [simp]:
  "cmp_of x x = 0" "cmp_of x y = 0 \<longleftrightarrow> x = y" "cmp_of x y < 0 \<longleftrightarrow> x < y"
  "cmp_of x y \<le> 0 \<longleftrightarrow> x \<le> y" "0 < cmp_of x y \<longleftrightarrow> y < x"
  by (auto simp: cmp_of_def)

lemma comparison_cmp_of [comparison_intros]: "comparison (\<lambda>a b. cmp_of (f a) (f b))"
  by unfold_locales (auto simp: cmp_of_def split: if_splits)

lemma comparison_pull:
  assumes "comparison c"
  shows "comparison (\<lambda>a b. c (f a) (f b))"
  using assms unfolding comparison_def by blast

lemma comparison_trivial [comparison_intros]: "comparison (\<lambda>_ _. 0)"
  by unfold_locales simp_all

text \<open>Two comparisons in sequence: the second decides where the first sees no difference.\<close>

definition orelse :: "int \<Rightarrow> int \<Rightarrow> int" where
  "orelse c d = (if c \<noteq> 0 then c else d)"

lemma orelse_simps [simp]: "orelse 0 d = d" "c \<noteq> 0 \<Longrightarrow> orelse c d = c" "orelse c 0 = c"
  by (simp_all add: orelse_def)

lemma comparison_orelse [comparison_intros]:
  assumes "comparison c" and "comparison d"
  shows "comparison (\<lambda>a b. orelse (c a b) (d a b))"
proof (unfold_locales, goal_cases)
  case (1 a b)
  show ?case using comparison.signs [OF assms(1), of a b] comparison.signs [OF assms(2), of a b]
    by (auto simp: orelse_def)
next
  case (2 b a)
  show ?case using comparison.swap [OF assms(1), of b a] comparison.swap [OF assms(2), of b a]
    by (auto simp: orelse_def)
next
  case (3 a b e)
  consider "c a b < 0" "c b e \<le> 0" | "c a b = 0" "c b e < 0"
    | "c a b = 0" "c b e = 0" "d a b \<le> 0" "d b e \<le> 0"
    using 3 by (fastforce simp: orelse_def not_less dest: order_antisym split: if_splits)
  then show ?case
  proof cases
    case 1
    then show ?thesis using comparison.less_le_trans [OF assms(1), of a b e] by (simp add: orelse_def)
  next
    case 2
    then show ?thesis using comparison.le_less_trans [OF assms(1), of a b e] by (simp add: orelse_def)
  next
    case 3
    then show ?thesis
      using comparison.zero_trans [OF assms(1), of a b e] comparison.le_trans [OF assms(2), of a b e]
      by (simp add: orelse_def)
  qed
qed

text \<open>Items of several kinds: the kind decides first, and within one kind its own comparison.\<close>

lemma comparison_by_kind:
  fixes k :: "'a \<Rightarrow> 'k::linorder"
  assumes c: "\<And>i. comparison (c i)"
  shows "comparison (\<lambda>a b. orelse (cmp_of (k a) (k b)) (c (k a) a b))"
proof (unfold_locales, goal_cases)
  case (1 a b)
  show ?case using comparison.signs [OF c, of "k a" a b] by (auto simp: orelse_def cmp_of_def)
next
  case (2 b a)
  show ?case using comparison.swap [OF c, of "k a" b a] by (auto simp: orelse_def cmp_of_def)
next
  case (3 a b d)
  consider "k a < k b" "k b \<le> k d" | "k a \<le> k b" "k b < k d"
    | "k a = k b" "k b = k d" "c (k a) a b \<le> 0" "c (k a) b d \<le> 0"
    using 3 by (cases "k a" "k b" rule: linorder_cases; cases "k b" "k d" rule: linorder_cases)
      (auto simp: orelse_def cmp_of_def split: if_splits)
  then show ?case
    by cases (auto simp: orelse_def cmp_of_def intro: comparison.le_trans [OF c])
qed

text \<open>
  Lists item by item. \<open>lex_cmp\<close> lets the list that runs out first be the lesser;
  \<open>pad_cmp\<close> continues the shorter one with a default item, as a loop does that reads
  "zero" or "end" past the end of its input.
\<close>

fun lex_cmp :: "('a \<Rightarrow> 'a \<Rightarrow> int) \<Rightarrow> 'a list \<Rightarrow> 'a list \<Rightarrow> int" where
  "lex_cmp c [] [] = 0"
| "lex_cmp c [] (y # ys) = -1"
| "lex_cmp c (x # xs) [] = 1"
| "lex_cmp c (x # xs) (y # ys) = orelse (c x y) (lex_cmp c xs ys)"

fun pad_cmp :: "('a \<Rightarrow> 'a \<Rightarrow> int) \<Rightarrow> 'a \<Rightarrow> 'a list \<Rightarrow> 'a list \<Rightarrow> int" where
  "pad_cmp c z [] [] = 0"
| "pad_cmp c z [] (y # ys) = orelse (c z y) (pad_cmp c z [] ys)"
| "pad_cmp c z (x # xs) [] = orelse (c x z) (pad_cmp c z xs [])"
| "pad_cmp c z (x # xs) (y # ys) = orelse (c x y) (pad_cmp c z xs ys)"

definition hd_or :: "'a \<Rightarrow> 'a list \<Rightarrow> 'a" where
  "hd_or z xs = (case xs of [] \<Rightarrow> z | x # _ \<Rightarrow> x)"

lemma pad_cmp_step:
  assumes "comparison c"
  shows "pad_cmp c z xs ys = orelse (c (hd_or z xs) (hd_or z ys)) (pad_cmp c z (tl xs) (tl ys))"
  using comparison.self [OF assms] by (cases xs; cases ys) (simp_all add: hd_or_def)

text \<open>One step of the transitivity of every lexicographic order.\<close>

lemma orelse_le_trans:
  assumes c: "comparison c"
    and xy: "orelse (c x y) p \<le> 0" and yz: "orelse (c y z) q \<le> 0"
    and rest: "p \<le> 0 \<Longrightarrow> q \<le> 0 \<Longrightarrow> r \<le> 0"
  shows "orelse (c x z) r \<le> 0"
proof (cases "c x y = 0 \<and> c y z = 0")
  case True
  then show ?thesis using comparison.zero_trans [OF c, of x y z] xy yz rest by simp
next
  case False
  then have "c x z < 0"
    using xy yz comparison.less_le_trans [OF c, of x y z] comparison.le_less_trans [OF c, of x y z]
    by (auto simp: orelse_def split: if_splits)
  then show ?thesis by (simp add: orelse_def)
qed

lemma comparison_pad_cmp [comparison_intros]:
  assumes c: "comparison c"
  shows "comparison (pad_cmp c z)"
proof (unfold_locales, goal_cases)
  case (1 a b)
  show ?case
  proof (induction "length a + length b" arbitrary: a b rule: less_induct)
    case less
    show ?case
    proof (cases "a = [] \<and> b = []")
      case False
      then have "length (tl a) + length (tl b) < length a + length b" by (cases a; cases b) auto
      from less [OF this] show ?thesis
        using comparison.signs [OF c, of "hd_or z a" "hd_or z b"]
        by (auto simp: pad_cmp_step [OF c, of z a b] orelse_def)
    qed simp
  qed
next
  case (2 b a)
  show ?case
  proof (induction "length a + length b" arbitrary: a b rule: less_induct)
    case less
    show ?case
    proof (cases "a = [] \<and> b = []")
      case False
      then have "length (tl a) + length (tl b) < length a + length b" by (cases a; cases b) auto
      from less [OF this] show ?thesis
        using comparison.swap [OF c, of "hd_or z b" "hd_or z a"]
        by (auto simp: pad_cmp_step [OF c, of z a b] pad_cmp_step [OF c, of z b a] orelse_def)
    qed simp
  qed
next
  case (3 a b d)
  then show ?case
  proof (induction "length a + length b + length d" arbitrary: a b d rule: less_induct)
    case less
    show ?case
    proof (cases "a = [] \<and> b = [] \<and> d = []")
      case False
      then have shorter: "length (tl a) + length (tl b) + length (tl d)
          < length a + length b + length d"
        by (cases a; cases b; cases d) auto
      show ?thesis
        using less.prems
        unfolding pad_cmp_step [OF c, of z a b] pad_cmp_step [OF c, of z b d] pad_cmp_step [OF c, of z a d]
        by (rule orelse_le_trans [OF c]) (rule less.hyps [OF shorter])
    qed simp
  qed
qed

text \<open>The list that runs out first is the lesser: the padding is an item below every other.\<close>

fun option_cmp :: "('a \<Rightarrow> 'a \<Rightarrow> int) \<Rightarrow> 'a option \<Rightarrow> 'a option \<Rightarrow> int" where
  "option_cmp c None None = 0"
| "option_cmp c None (Some y) = -1"
| "option_cmp c (Some x) None = 1"
| "option_cmp c (Some x) (Some y) = c x y"

lemma comparison_option_cmp:
  assumes c: "comparison c"
  shows "comparison (option_cmp c)"
proof (unfold_locales, goal_cases)
  case (1 a b)
  show ?case by (cases a; cases b) (use comparison.signs [OF c] in simp_all)
next
  case (2 b a)
  show ?case
  proof (cases a; cases b)
    fix x y
    assume "a = Some x" and "b = Some y"
    then show ?thesis using comparison.swap [OF c, of y x] by simp
  qed simp_all
next
  case (3 a b d)
  then show ?case by (cases a; cases b; cases d) (use comparison.le_trans [OF c] in auto)
qed

lemma lex_cmp_as_pad: "lex_cmp c xs ys = pad_cmp (option_cmp c) None (map Some xs) (map Some ys)"
  by (induction c xs ys rule: lex_cmp.induct) simp_all

lemma comparison_lex_cmp [comparison_intros]:
  assumes "comparison c"
  shows "comparison (lex_cmp c)"
  unfolding lex_cmp_as_pad [abs_def]
  by (rule comparison_pull [of "pad_cmp (option_cmp c) None"])
     (rule comparison_pad_cmp [OF comparison_option_cmp [OF assms]])

subsection \<open>Fallible comparisons\<close>

text \<open>
  The Go functions that order two versions answer a comparison and whether it means anything. A
  refusal, \<^verbatim>\<open>(0, false)\<close>, is \<^const>\<open>None\<close>. What a scheme promises is stated as an interface: it
  answers exactly for the strings it accepts, and swapping the arguments negates the answer. An
  ordered scheme promises transitivity too, which one scheme of the program does not.
\<close>

locale version_scheme =
  fixes order :: "string \<Rightarrow> string \<Rightarrow> int option"
    and accepts :: "string \<Rightarrow> bool"
  assumes answers: "order a b \<noteq> None \<longleftrightarrow> accepts a \<and> accepts b"
    and answer_signs: "order a b = Some x \<Longrightarrow> x = -1 \<or> x = 0 \<or> x = 1"
    and answer_swap: "order b a = map_option uminus (order a b)"
begin

lemma answer_self: "accepts a \<Longrightarrow> order a a = Some 0"
  using answers [of a a] answer_swap [of a a] by auto

lemma refuses: "\<not> accepts a \<Longrightarrow> order a b = None \<and> order b a = None"
  using answers [of a b] answers [of b a] by auto

end

locale ordered_scheme = version_scheme +
  assumes answer_trans: "order a b = Some x \<Longrightarrow> order b c = Some y \<Longrightarrow> x \<le> 0 \<Longrightarrow> y \<le> 0
    \<Longrightarrow> \<exists>z \<le> 0. order a c = Some z"

text \<open>
  Every ordered scheme of the program reads a string into a key, refusing some, and compares
  keys by a lawful comparison. The contract follows from that shape.
\<close>

locale keyed_scheme = comparison cmp for cmp :: "'k \<Rightarrow> 'k \<Rightarrow> int" +
  fixes order :: "string \<Rightarrow> string \<Rightarrow> int option"
    and key :: "string \<Rightarrow> 'k option"
  assumes by_key: "order a b =
    (case key a of None \<Rightarrow> None | Some x \<Rightarrow> (case key b of None \<Rightarrow> None | Some y \<Rightarrow> Some (cmp x y)))"

sublocale keyed_scheme \<subseteq> ordered_scheme order "\<lambda>v. key v \<noteq> None"
proof (unfold_locales, goal_cases)
  case (1 a b)
  show ?case by (auto simp: by_key split: option.splits)
next
  case (2 a b x)
  then show ?case using signs by (auto simp: by_key split: option.splits)
next
  case (3 b a)
  show ?case
  proof (cases "key a"; cases "key b")
    fix x y
    assume "key a = Some x" and "key b = Some y"
    then show ?thesis using swap [of x y] by (simp add: by_key)
  qed (simp_all add: by_key)
next
  case (4 a b x c y)
  then show ?case using le_trans by (auto simp: by_key split: option.splits)
qed

subsection \<open>Byte strings\<close>

text \<open>
  \<^verbatim>\<open>strings.Compare\<close> is the lexicographic order of the bytes, which is the order the library
  gives lists of characters.
\<close>

definition strings_compare :: "string \<Rightarrow> string \<Rightarrow> int" where
  "strings_compare a b = cmp_of a b"

lemma comparison_strings_compare [comparison_intros]:
  "comparison (\<lambda>a b. strings_compare (f a) (f b))"
  unfolding strings_compare_def by (rule comparison_cmp_of)

text \<open>\<^verbatim>\<open>strings.Split\<close> at one byte, and the two cuts: at the first and at the last occurrence.\<close>

fun split_on :: "char \<Rightarrow> string \<Rightarrow> string list" where
  "split_on c [] = [[]]"
| "split_on c (x # xs) =
    (if x = c then [] # split_on c xs
     else case split_on c xs of [] \<Rightarrow> [[x]] | p # ps \<Rightarrow> (x # p) # ps)"

fun cut_first :: "char \<Rightarrow> string \<Rightarrow> (string \<times> string) option" where
  "cut_first c [] = None"
| "cut_first c (x # xs) =
    (if x = c then Some ([], xs) else map_option (\<lambda>(a, b). (x # a, b)) (cut_first c xs))"

definition cut_last :: "char \<Rightarrow> string \<Rightarrow> (string \<times> string) option" where
  "cut_last c s = map_option (\<lambda>(after, front). (rev front, rev after)) (cut_first c (rev s))"

text \<open>\<^verbatim>\<open>strings.Join\<close>, which the split undoes where no part holds the separator.\<close>

fun strings_join :: "string \<Rightarrow> string list \<Rightarrow> string" where
  "strings_join sep [] = []"
| "strings_join sep [x] = x"
| "strings_join sep (x # xs) = x @ sep @ strings_join sep xs"

lemma split_on_plain: "c \<notin> set s \<Longrightarrow> split_on c s = [s]"
  by (induction s) auto

lemma split_on_part: "c \<notin> set s \<Longrightarrow> split_on c (s @ c # t) = s # split_on c t"
  by (induction s) auto

lemma split_on_join: "ps \<noteq> [] \<Longrightarrow> list_all (\<lambda>s. c \<notin> set s) ps \<Longrightarrow> split_on c (strings_join [c] ps) = ps"
  by (induction "[c]" ps rule: strings_join.induct) (auto simp: split_on_plain split_on_part)

lemma split_on_not_Nil [simp]: "split_on c s \<noteq> []"
  by (induction s) (auto split: list.splits)

lemma cut_first_Some: "cut_first c s = Some (a, b) \<Longrightarrow> s = a @ c # b \<and> c \<notin> set a"
  by (induction s arbitrary: a) (auto split: if_splits)

lemma cut_first_None: "cut_first c s = None \<longleftrightarrow> c \<notin> set s"
  by (induction s) auto

lemma cut_last_Some: "cut_last c s = Some (a, b) \<Longrightarrow> s = a @ c # b \<and> c \<notin> set b"
  by (auto simp: cut_last_def dest!: cut_first_Some) (metis append.assoc append_Cons append_Nil
      rev_append rev_rev_ident rev_singleton_conv)

text \<open>
  \<^verbatim>\<open>strings.TrimSpace\<close>: the runes Go counts as white space, in UTF-8, taken off both ends. A
  rune at the front is recognized by its encoding as a prefix and one at the end as a suffix.
\<close>

definition space_runes :: "string list" where
  "space_runes = [[CHR 0x20], [CHR 0x09], [CHR 0x0A], [CHR 0x0B], [CHR 0x0C], [CHR 0x0D],
     [CHR 0xC2, CHR 0x85], [CHR 0xC2, CHR 0xA0], [CHR 0xE1, CHR 0x9A, CHR 0x80]]
   @ map (\<lambda>c. [CHR 0xE2, CHR 0x80, c])
       [CHR 0x80, CHR 0x81, CHR 0x82, CHR 0x83, CHR 0x84, CHR 0x85, CHR 0x86, CHR 0x87, CHR 0x88,
        CHR 0x89, CHR 0x8A, CHR 0xA8, CHR 0xA9, CHR 0xAF]
   @ [[CHR 0xE2, CHR 0x81, CHR 0x9F], [CHR 0xE3, CHR 0x80, CHR 0x80]]"

fun begins :: "string \<Rightarrow> string \<Rightarrow> bool" where
  "begins [] s = True"
| "begins (p # ps) [] = False"
| "begins (p # ps) (x # xs) = (p = x \<and> begins ps xs)"

function strip :: "string list \<Rightarrow> string \<Rightarrow> string" where
  "strip ps s = (case find (\<lambda>p. p \<noteq> [] \<and> begins p s) ps of
     None \<Rightarrow> s | Some p \<Rightarrow> strip ps (drop (length p) s))"
  by pat_completeness auto
termination
proof (relation "measure (length \<circ> snd)", goal_cases)
  case (2 ps s p)
  then have "p \<noteq> []" and "begins p s" by (auto simp: find_Some_iff)
  then show ?case by (cases p; cases s) auto
qed simp

declare strip.simps [simp del]

definition trim_space :: "string \<Rightarrow> string" where
  "trim_space s = rev (strip (map rev space_runes) (rev (strip space_runes s)))"

lemma begins_append: "begins p a \<Longrightarrow> begins p (a @ b)"
  by (induction p a rule: begins.induct) auto

lemma strip_fixed: "\<forall>p \<in> set ps. p = [] \<or> \<not> begins p s \<Longrightarrow> strip ps s = s"
  by (subst strip.simps) (auto split: option.split simp: find_Some_iff)

lemma strip_stops: "p \<in> set ps \<Longrightarrow> p = [] \<or> \<not> begins p (strip ps s)"
proof (induction ps s rule: strip.induct)
  case (1 ps s)
  show ?case
  proof (cases "find (\<lambda>p. p \<noteq> [] \<and> begins p s) ps")
    case None
    then have "strip ps s = s" by (subst strip.simps) simp
    then show ?thesis using None "1.prems" by (auto simp: find_None_iff)
  next
    case (Some q)
    then have "strip ps s = strip ps (drop (length q) s)" by (subst strip.simps) simp
    then show ?thesis using "1.IH" [OF Some "1.prems"] by simp
  qed
qed

lemma strip_suffix: "\<exists>cut. s = cut @ strip ps s"
proof (induction ps s rule: strip.induct)
  case (1 ps s)
  show ?case
  proof (cases "find (\<lambda>p. p \<noteq> [] \<and> begins p s) ps")
    case None
    then show ?thesis by (subst strip.simps) simp
  next
    case (Some q)
    then obtain cut where "drop (length q) s = cut @ strip ps (drop (length q) s)" using 1 by blast
    then have "s = (take (length q) s @ cut) @ strip ps (drop (length q) s)" by (metis append.assoc append_take_drop_id)
    moreover have "strip ps s = strip ps (drop (length q) s)" using Some by (subst strip.simps) simp
    ultimately show ?thesis by metis
  qed
qed

lemma trim_space_Nil [simp]: "trim_space [] = []" by code_simp

text \<open>Nothing is left to trim of what was trimmed.\<close>

lemma trim_space_twice [simp]: "trim_space (trim_space s) = trim_space s"
proof -
  let ?l = "strip space_runes s"
  let ?r = "strip (map rev space_runes) (rev ?l)"
  obtain cut where cut: "rev ?l = cut @ ?r" using strip_suffix by blast
  then have "?l = rev ?r @ rev cut" by (metis rev_append rev_rev_ident)
  then have "\<forall>p \<in> set space_runes. p = [] \<or> \<not> begins p (rev ?r)"
    using strip_stops [of _ space_runes s] begins_append by metis
  then have "strip space_runes (rev ?r) = rev ?r" by (rule strip_fixed)
  moreover have "strip (map rev space_runes) ?r = ?r"
    using strip_stops [of _ "map rev space_runes" "rev ?l"] by (intro strip_fixed) blast
  ultimately show ?thesis by (simp add: trim_space_def)
qed

subsection \<open>Numbers as text\<close>

text \<open>\<^verbatim>\<open>strconv.Itoa\<close>, and the \<^verbatim>\<open>%d\<close> of \<^verbatim>\<open>fmt.Sprintf\<close>.\<close>

fun itoa :: "nat \<Rightarrow> string" where
  "itoa n = (if n < 10 then [char_of (48 + n)] else itoa (n div 10) @ [char_of (48 + n mod 10)])"

declare itoa.simps [simp del]

definition decimal :: "int \<Rightarrow> string" where
  "decimal n = (if n < 0 then ''-'' @ itoa (nat (- n)) else itoa (nat n))"

subsection \<open>Maps whose values are lists\<close>

text \<open>
  A Go map from a key to a slice, as an association list. A missing key reads as the empty slice.
  Ranging over a Go map visits each key once in an order the language leaves open, so what the
  development claims of such a loop never depends on the order \<open>keys\<close> gives.
\<close>

definition at_key :: "('k \<times> 'v list) list \<Rightarrow> 'k \<Rightarrow> 'v list" where
  "at_key m k = (case map_of m k of Some xs \<Rightarrow> xs | None \<Rightarrow> [])"

definition keys :: "('k \<times> 'v) list \<Rightarrow> 'k list" where
  "keys m = remdups (map fst m)"

lemma at_key_Nil [simp]: "at_key [] k = []"
  by (simp add: at_key_def)

lemma set_keys: "set (keys m) = dom (map_of m)"
  by (simp add: keys_def dom_map_of_conv_image_fst)

lemma distinct_keys [simp]: "distinct (keys m)"
  by (simp add: keys_def)

lemma at_key_nonempty: "x \<in> set (at_key m k) \<Longrightarrow> k \<in> set (keys m)"
  by (cases "map_of m k") (auto simp: at_key_def set_keys)

text \<open>A map rebuilt key by key, dropping the keys whose value becomes empty.\<close>

definition map_values :: "('k \<Rightarrow> 'v list \<Rightarrow> 'v list) \<Rightarrow> ('k \<times> 'v list) list \<Rightarrow> ('k \<times> 'v list) list" where
  "map_values f m = filter (\<lambda>e. snd e \<noteq> []) (map (\<lambda>k. (k, f k (at_key m k))) (keys m))"

lemma map_of_filter_pairs: "distinct ks \<Longrightarrow>
    map_of (filter (\<lambda>e. snd e \<noteq> []) (map (\<lambda>k. (k, g k)) ks)) k
      = (if k \<in> set ks \<and> g k \<noteq> [] then Some (g k) else None)"
  by (induction ks) auto

lemma at_key_map_values [simp]: "f k [] = [] \<Longrightarrow> at_key (map_values f m) k = f k (at_key m k)"
  by (auto simp: map_values_def at_key_def map_of_filter_pairs set_keys split: option.splits)

subsection \<open>Statements sent in batches\<close>

text \<open>
  A statement over many identifiers is sent a bounded number at a time
  (\<^verbatim>\<open>internal/database/batch.go\<close>). Where what it does to a row depends on the row alone and doing
  it twice is doing it once, the batches together are one statement over all of them.
\<close>

definition BatchSize :: nat where "BatchSize = 500"

function batches_of :: "nat \<Rightarrow> 'a list \<Rightarrow> 'a list list" where
  "batches_of n xs = (if n = 0 \<or> xs = [] then [] else take n xs # batches_of n (drop n xs))"
  by pat_completeness auto
termination
  by (relation "measure (\<lambda>(n, xs). length xs)") auto

declare batches_of.simps [simp del]

lemma concat_batches_of: "n > 0 \<Longrightarrow> concat (batches_of n xs) = xs"
  by (induction n xs rule: batches_of.induct) (subst batches_of.simps; simp)

text \<open>One statement: the rows it names, by identifier, and what it makes of each.\<close>

definition set_where :: "('r \<Rightarrow> int) \<Rightarrow> ('r \<Rightarrow> 'r) \<Rightarrow> int list \<Rightarrow> 'r list \<Rightarrow> 'r list" where
  "set_where ident g ids rows = map (\<lambda>r. if ident r \<in> set ids then g r else r) rows"

definition set_in_batches :: "('r \<Rightarrow> int) \<Rightarrow> ('r \<Rightarrow> 'r) \<Rightarrow> int list \<Rightarrow> 'r list \<Rightarrow> 'r list" where
  "set_in_batches ident g ids rows = fold (set_where ident g) (batches_of BatchSize ids) rows"

lemma fold_set_where:
  assumes "\<And>r. ident (g r) = ident r" and "\<And>r. g (g r) = g r"
  shows "fold (set_where ident g) bs rows = set_where ident g (concat bs) rows"
  using assms by (induction bs arbitrary: rows) (auto simp: set_where_def)

lemma set_in_batches:
  assumes "\<And>r. ident (g r) = ident r" and "\<And>r. g (g r) = g r"
  shows "set_in_batches ident g ids rows = set_where ident g ids rows"
  using fold_set_where [of ident g, OF assms] concat_batches_of [of BatchSize ids]
  by (simp add: set_in_batches_def BatchSize_def)

end
