(* ===== verification/Vercmp_Base.thy ===== *)
theory Vercmp_Base
  imports Prelude
begin

section \<open>Version ordering: what every scheme shares\<close>

text \<open>
  The helpers of \<^verbatim>\<open>internal/vercmp/vercmp.go\<close> every scheme calls: byte classes, \<^verbatim>\<open>sign\<close>, the
  comparison of two runs of digits without converting them, and the cut of a version into epoch,
  version and release that Debian and RPM share. An index walking a string is modelled by the
  suffix it has reached; a loop that skips a class of bytes by \<^const>\<open>dropWhile\<close>.
\<close>

subsection \<open>Bytes\<close>

definition byte :: "char \<Rightarrow> int" where
  "byte c = int (of_char c)"

definition isDigit :: "char \<Rightarrow> bool" where
  "isDigit c \<longleftrightarrow> CHR ''0'' \<le> c \<and> c \<le> CHR ''9''"

definition isLetter :: "char \<Rightarrow> bool" where
  "isLetter c \<longleftrightarrow> (CHR ''a'' \<le> c \<and> c \<le> CHR ''z'') \<or> (CHR ''A'' \<le> c \<and> c \<le> CHR ''Z'')"

definition digits :: "string \<Rightarrow> bool" where
  "digits s \<longleftrightarrow> s \<noteq> [] \<and> list_all isDigit s"

definition sign :: "int \<Rightarrow> int" where
  "sign n = (if n < 0 then -1 else if n > 0 then 1 else 0)"

lemma sign_simps [simp]: "sign 0 = 0" "sign n = 0 \<longleftrightarrow> n = 0" "sign n < 0 \<longleftrightarrow> n < 0"
  "sign n \<le> 0 \<longleftrightarrow> n \<le> 0" "sign (- n) = - sign n"
  "sign 1 = 1"
  by (auto simp: sign_def)

lemma sign_cmp_of: "sign (x - y) = cmp_of x y"
  by (simp add: sign_def cmp_of_def)

lemma sign_strings_compare [simp]: "sign (strings_compare a b) = strings_compare a b"
  by (simp add: sign_def strings_compare_def cmp_of_def)

lemma comparison_sign_difference [comparison_intros]: "comparison (\<lambda>a b. sign (f a - f b))"
  unfolding sign_cmp_of by (rule comparison_cmp_of)

lemma byte_eq [simp]: "byte c = byte d \<longleftrightarrow> c = d"
  by (simp add: byte_def)

lemma byte_less [simp]: "byte c < byte d \<longleftrightarrow> c < d"
  by (simp add: byte_def less_char_def)

lemma byte_le [simp]: "byte c \<le> byte d \<longleftrightarrow> c \<le> d"
  by (simp add: byte_def less_eq_char_def)

lemma byte_nonneg [simp]: "0 \<le> byte c"
  by (simp add: byte_def)

lemma not_digit_and_letter: "isDigit c \<Longrightarrow> \<not> isLetter c"
  by (auto simp: isDigit_def isLetter_def less_eq_char_def)

subsection \<open>Numbers as runs of digits\<close>

definition trim_zeros :: "string \<Rightarrow> string" where
  "trim_zeros s = dropWhile (\<lambda>c. c = CHR ''0'') s"

definition compareNumeric :: "string \<Rightarrow> string \<Rightarrow> int" where
  "compareNumeric a b =
    (let a = trim_zeros a; b = trim_zeros b
     in if length a \<noteq> length b then sign (int (length a) - int (length b))
        else sign (strings_compare a b))"

text \<open>The comparison is that of two keys: how many digits are left, then the digits.\<close>

lemma compareNumeric_orelse:
  "compareNumeric a b = orelse (sign (int (length (trim_zeros a)) - int (length (trim_zeros b))))
     (strings_compare (trim_zeros a) (trim_zeros b))"
  by (simp add: compareNumeric_def orelse_def Let_def)

lemma comparison_compareNumeric [comparison_intros]:
  "comparison (\<lambda>a b. compareNumeric (f a) (f b))"
  unfolding compareNumeric_orelse by (intro comparison_intros)

lemma compareNumeric_self [simp]: "compareNumeric a a = 0"
  using comparison.self [OF comparison_compareNumeric [of "\<lambda>x. x"]] .

text \<open>
  What a run of digits denotes, and that the comparison is the one of the numbers, however long
  the runs are.
\<close>

definition digit_value :: "char \<Rightarrow> nat" where
  "digit_value c = nat (byte c - 48)"

fun digits_value :: "string \<Rightarrow> nat" where
  "digits_value [] = 0"
| "digits_value (c # cs) = digit_value c * 10 ^ length cs + digits_value cs"

lemma byte_0_9 [simp]: "byte CHR ''0'' = 48" "byte CHR ''9'' = 57"
  by (simp_all add: byte_def)

lemma isDigit_iff: "isDigit c \<longleftrightarrow> 48 \<le> byte c \<and> byte c \<le> 57"
  by (simp add: isDigit_def flip: byte_le)

lemma digit_value_bound: "isDigit c \<Longrightarrow> digit_value c \<le> 9"
  by (auto simp: isDigit_iff digit_value_def)

lemma digit_value_less: "isDigit c \<Longrightarrow> isDigit d \<Longrightarrow> digit_value c < digit_value d \<longleftrightarrow> c < d"
  by (auto simp: isDigit_iff digit_value_def simp flip: byte_less)

lemma digit_value_pos: "isDigit c \<Longrightarrow> c \<noteq> CHR ''0'' \<Longrightarrow> 0 < digit_value c"
proof -
  assume c: "isDigit c" and nz: "c \<noteq> CHR ''0''"
  have "byte c \<noteq> byte (CHR ''0'')" using nz by (simp only: byte_eq not_False_eq_True)
  then show ?thesis using c by (simp add: isDigit_iff digit_value_def)
qed

lemma digits_value_less_pow: "list_all isDigit s \<Longrightarrow> digits_value s < 10 ^ length s"
proof (induction s)
  case (Cons c s)
  then have "digits_value s < 10 ^ length s" and "digit_value c \<le> 9"
    by (auto intro: digit_value_bound)
  moreover have "digit_value c * 10 ^ length s \<le> 9 * 10 ^ length s"
    by (rule mult_le_mono1) fact
  ultimately show ?case unfolding digits_value.simps length_Cons power_Suc by linarith
qed simp

lemma digits_value_trim_zeros: "digits_value (trim_zeros s) = digits_value s"
  by (induction s) (simp_all add: trim_zeros_def digit_value_def)

lemma trim_zeros_hd: "trim_zeros s = c # cs \<Longrightarrow> c \<noteq> CHR ''0''"
  by (induction s) (auto simp: trim_zeros_def split: if_splits)

lemma list_all_trim_zeros: "list_all P s \<Longrightarrow> list_all P (trim_zeros s)"
  by (auto simp: trim_zeros_def list_all_iff dest: set_dropWhileD)

lemma digits_value_same_length:
  "length a = length b \<Longrightarrow> list_all isDigit a \<Longrightarrow> list_all isDigit b
    \<Longrightarrow> cmp_of (digits_value a) (digits_value b) = strings_compare a b"
proof (induction a b rule: list_induct2)
  case (Cons x xs y ys)
  have xs: "digits_value xs < 10 ^ length xs" and ys: "digits_value ys < 10 ^ length xs"
    using Cons digits_value_less_pow [of xs] digits_value_less_pow [of ys] by auto
  have less: "digits_value (p # ps) < digits_value (q # qs)"
    if "digit_value p < digit_value q" "length ps = length qs" "digits_value ps < 10 ^ length qs"
    for p q ps qs
  proof -
    have "digit_value p * 10 ^ length qs + 10 ^ length qs \<le> digit_value q * 10 ^ length qs"
      using that(1) by (metis add.commute mult_Suc mult_le_mono1 Suc_leI)
    then show ?thesis using that by simp
  qed
  consider "x < y" | "x = y" | "y < x" by fastforce
  then show ?case
  proof cases
    case 1
    then have "digits_value (x # xs) < digits_value (y # ys)"
      using Cons xs ys by (intro less) (auto simp: digit_value_less)
    then show ?thesis using 1 by (simp add: cmp_of_def strings_compare_def)
  next
    case 2
    then show ?thesis using Cons by (simp add: cmp_of_def strings_compare_def split: if_splits)
  next
    case 3
    then have "digits_value (y # ys) < digits_value (x # xs)"
      using Cons xs ys by (intro less) (auto simp: digit_value_less)
    then show ?thesis using 3 by (auto simp: cmp_of_def strings_compare_def)
  qed
qed (simp add: strings_compare_def)

theorem compareNumeric_is_numeric:
  assumes "list_all isDigit a" and "list_all isDigit b"
  shows "compareNumeric a b = cmp_of (digits_value a) (digits_value b)"
proof -
  let ?a = "trim_zeros a" and ?b = "trim_zeros b"
  have da: "list_all isDigit ?a" and db: "list_all isDigit ?b"
    using assms by (simp_all add: list_all_trim_zeros)
  have larger: "digits_value p < digits_value q"
    if "list_all isDigit p" "list_all isDigit (trim_zeros r)" "q = trim_zeros r" "length p < length q" for p q r
  proof -
    from that(4) obtain c cs where q: "q = c # cs" by (cases q) auto
    have "c \<noteq> CHR ''0''" by (rule trim_zeros_hd [of r c cs]) (simp flip: that(3) add: q)
    moreover have "isDigit c" using that(2) by (simp flip: that(3) add: q)
    ultimately have "0 < digit_value c" by (rule digit_value_pos [rotated])
    then have "1 * 10 ^ length cs \<le> digit_value c * 10 ^ length cs" by (intro mult_le_mono1) simp
    then have "10 ^ length cs \<le> digits_value q" unfolding q digits_value.simps by linarith
    moreover have "(10::nat) ^ length p \<le> 10 ^ length cs" using that(4) q by (intro power_increasing) auto
    ultimately show ?thesis using digits_value_less_pow [OF that(1)] by linarith
  qed
  consider "length ?a < length ?b" | "length ?a = length ?b" | "length ?b < length ?a" by linarith
  then have "compareNumeric a b = cmp_of (digits_value ?a) (digits_value ?b)"
  proof cases
    case 1
    then show ?thesis using larger [OF da db refl]
      by (simp add: compareNumeric_def Let_def sign_def cmp_of_def)
  next
    case 2
    then show ?thesis using digits_value_same_length [OF _ da db] by (simp add: compareNumeric_def Let_def)
  next
    case 3
    then show ?thesis using larger [OF db da refl]
      by (simp add: compareNumeric_def Let_def sign_def cmp_of_def)
  qed
  then show ?thesis by (simp add: digits_value_trim_zeros)
qed

subsection \<open>Lists compared as far as both go, then by length\<close>

text \<open>The loop of \<^verbatim>\<open>preRelease\<close>, \<^verbatim>\<open>pypiRelease\<close> and \<^verbatim>\<open>pypiLocal\<close>.\<close>

fun while_both :: "('a \<Rightarrow> 'a \<Rightarrow> int) \<Rightarrow> 'a list \<Rightarrow> 'a list \<Rightarrow> int" where
  "while_both c (x # a) (y # b) = orelse (c x y) (while_both c a b)"
| "while_both c a b = sign (int (length a) - int (length b))"

lemma while_both_lex: "while_both c = lex_cmp c"
proof (intro ext)
  show "while_both c a b = lex_cmp c a b" for a b
    by (induction c a b rule: lex_cmp.induct) (simp_all add: sign_def)
qed

subsection \<open>Epoch, version and release\<close>

record evr =
  epoch :: string
  version :: string
  release :: string
  epochStated :: bool
  released :: bool

definition splitEVR :: "string \<Rightarrow> evr option" where
  "splitEVR v =
    (let finish = (\<lambda>e v stated.
       let pieces = (case cut_last CHR ''-'' v of
                    Some (front, after) \<Rightarrow> \<lparr>epoch = e, version = front, release = after,
                      epochStated = stated, released = True\<rparr>
                  | None \<Rightarrow> \<lparr>epoch = e, version = v, release = [],
                      epochStated = stated, released = False\<rparr>)
       in if version pieces = [] \<or> \<not> isDigit (hd (version pieces)) then None else Some pieces)
     in case cut_first CHR '':'' v of
          Some (e, rest) \<Rightarrow> if \<not> digits e then None else finish e rest True
        | None \<Rightarrow> finish ''0'' v False)"

text \<open>What the cut promises: the epoch is digits and the version begins with one.\<close>

lemma splitEVR_shape:
  assumes "splitEVR v = Some pieces"
  shows "digits (epoch pieces)" and "version pieces \<noteq> []" and "isDigit (hd (version pieces))"
    and "\<not> epochStated pieces \<Longrightarrow> epoch pieces = ''0''"
    and "\<not> released pieces \<Longrightarrow> release pieces = []"
    and "CHR ''-'' \<notin> set (release pieces)"
proof -
  have zero: "digits ''0''" by (simp add: digits_def isDigit_iff)
  show "digits (epoch pieces)" and "version pieces \<noteq> []" and "isDigit (hd (version pieces))"
    and "\<not> epochStated pieces \<Longrightarrow> epoch pieces = ''0''"
    and "\<not> released pieces \<Longrightarrow> release pieces = []"
    and "CHR ''-'' \<notin> set (release pieces)"
    using assms zero
    by (auto simp: splitEVR_def Let_def dest!: cut_last_Some split: option.splits prod.splits if_splits)
qed

text \<open>The cut loses nothing: the pieces spell the version they were cut from.\<close>

definition spellEVR :: "evr \<Rightarrow> string" where
  "spellEVR pieces = (if epochStated pieces then epoch pieces @ '':'' else []) @ version pieces
     @ (if released pieces then ''-'' @ release pieces else [])"

lemma splitEVR_spells: "splitEVR v = Some pieces \<Longrightarrow> spellEVR pieces = v"
  by (auto simp: splitEVR_def spellEVR_def Let_def dest!: cut_last_Some cut_first_Some
      split: option.splits prod.splits if_splits)

end
