(* ===== verification/Vercmp_Debian.thy ===== *)
theory Vercmp_Debian
  imports Vercmp_Base
begin

section \<open>Debian versions\<close>

text \<open>
  \<^verbatim>\<open>debianOrder\<close>, \<^verbatim>\<open>splitDebian\<close>, \<^verbatim>\<open>debianCharacters\<close>, \<^verbatim>\<open>comparePart\<close> and \<^verbatim>\<open>rank\<close> of
  \<^verbatim>\<open>internal/vercmp/vercmp.go\<close>. The scanner \<^verbatim>\<open>comparePart\<close> is kept as the loops it is: an inner
  loop over the non-digits, the skipping of zeros, an inner loop over the digits, and the outer
  loop around them. It is then shown equal to an item by item comparison of two number lists,
  which is what makes the scheme a total preorder.
\<close>

definition debianCharacters :: "string \<Rightarrow> bool \<Rightarrow> bool \<Rightarrow> bool" where
  "debianCharacters s hyphen colon = list_all (\<lambda>c.
     isDigit c \<or> isLetter c \<or> c = CHR ''.'' \<or> c = CHR ''+'' \<or> c = CHR ''~''
     \<or> (c = CHR ''-'' \<and> hyphen) \<or> (c = CHR '':'' \<and> colon)) s"

definition splitDebian :: "string \<Rightarrow> (string \<times> string \<times> string) option" where
  "splitDebian v = (case splitEVR v of None \<Rightarrow> None | Some c \<Rightarrow>
     if \<not> debianCharacters (version c) (released c) (epochStated c)
        \<or> \<not> debianCharacters (release c) False False then None
     else Some (epoch c, version c, release c))"

definition rank :: "char \<Rightarrow> int" where
  "rank c = (if c = CHR ''~'' then -1 else if isLetter c then byte c else byte c + 256)"

text \<open>
  The non-digit loop: \<^const>\<open>Inl\<close> is the answer of a difference, \<^const>\<open>Inr\<close> the two suffixes the
  loop leaves when both stand at a digit or at the end.
\<close>

definition at_nondigit :: "string \<Rightarrow> bool" where
  "at_nondigit s = (case s of [] \<Rightarrow> False | c # _ \<Rightarrow> \<not> isDigit c)"

definition nondigit_rank :: "string \<Rightarrow> int" where
  "nondigit_rank s = (if at_nondigit s then rank (hd s) else 0)"

function nondigit_loop :: "string \<Rightarrow> string \<Rightarrow> int + (string \<times> string)" where
  "nondigit_loop a b =
    (if at_nondigit a \<or> at_nondigit b then
       (if nondigit_rank a \<noteq> nondigit_rank b then Inl (sign (nondigit_rank a - nondigit_rank b))
        else nondigit_loop (if at_nondigit a then tl a else a) (if at_nondigit b then tl b else b))
     else Inr (a, b))"
  by pat_completeness auto
termination
  by (relation "measure (\<lambda>(a, b). length a + length b)")
     (auto simp: at_nondigit_def split: list.splits)

text \<open>The digit loop, with the first difference met so far as its accumulator.\<close>

fun digit_loop :: "int \<Rightarrow> string \<Rightarrow> string \<Rightarrow> int \<times> string \<times> string" where
  "digit_loop first (x # a) (y # b) =
    (if isDigit x \<and> isDigit y then digit_loop (if first = 0 then byte x - byte y else first) a b
     else (first, x # a, y # b))"
| "digit_loop first a b = (first, a, b)"

definition at_digit :: "string \<Rightarrow> bool" where
  "at_digit s = (case s of [] \<Rightarrow> False | c # _ \<Rightarrow> isDigit c)"

declare nondigit_loop.simps [simp del]

lemma nondigit_loop_shorter:
  "nondigit_loop a b = Inr (a', b') \<Longrightarrow> \<not> at_nondigit a' \<and> \<not> at_nondigit b'
    \<and> length a' \<le> length a \<and> length b' \<le> length b
    \<and> (at_nondigit a \<or> at_nondigit b \<longrightarrow> length a' + length b' < length a + length b)
    \<and> (\<not> at_nondigit a \<and> \<not> at_nondigit b \<longrightarrow> a' = a \<and> b' = b)"
proof (induction a b rule: nondigit_loop.induct)
  case (1 a b)
  show ?case
  proof (cases "at_nondigit a \<or> at_nondigit b")
    case True
    with 1 show ?thesis
      by (auto simp: nondigit_loop.simps [of a b] at_nondigit_def split: list.splits if_splits)
  next
    case False
    with 1 show ?thesis by (simp add: nondigit_loop.simps [of a b])
  qed
qed

lemma digit_loop_shorter:
  "digit_loop f a b = (g, a', b') \<Longrightarrow> length a' \<le> length a \<and> length b' \<le> length b
    \<and> (at_digit a \<and> at_digit b \<longrightarrow> length a' < length a)"
  by (induction f a b rule: digit_loop.induct)
     (fastforce simp: at_digit_def split: if_splits)+

lemma trim_zeros_shorter: "length (trim_zeros s) \<le> length s"
  by (simp add: trim_zeros_def length_dropWhile_le)

function comparePart :: "string \<Rightarrow> string \<Rightarrow> int" where
  "comparePart a b =
    (if a = [] \<and> b = [] then 0
     else case nondigit_loop a b of Inl c \<Rightarrow> c
       | Inr (a', b') \<Rightarrow>
           (case digit_loop 0 (trim_zeros a') (trim_zeros b') of (first, a'', b'') \<Rightarrow>
              if at_digit a'' then 1
              else if at_digit b'' then -1
              else if first \<noteq> 0 then sign first
              else comparePart a'' b''))"
  by pat_completeness auto

text \<open>
  Every turn of the outer loop reads at least one byte: a non-digit, a zero, or a digit on both
  sides. Where only one side still has a digit the turn answers.
\<close>

lemma comparePart_progress:
  assumes "\<not> (a = [] \<and> b = [])" and "nondigit_loop a b = Inr (a', b')"
    and dl: "digit_loop 0 (trim_zeros a') (trim_zeros b') = (f, a'', b'')"
    and stop: "\<not> at_digit a''" "\<not> at_digit b''"
  shows "length a'' + length b'' < length a + length b"
proof -
  note nd = nondigit_loop_shorter [OF assms(2)]
  note ds = digit_loop_shorter [OF dl]
  have zs: "length (trim_zeros a') \<le> length a'" "length (trim_zeros b') \<le> length b'"
    by (rule trim_zeros_shorter)+
  show ?thesis
  proof (rule ccontr)
    assume "\<not> ?thesis"
    with nd ds zs have same: "a' = a" "b' = b" "\<not> at_nondigit a" "\<not> at_nondigit b"
      "length a'' = length (trim_zeros a')" "length b'' = length (trim_zeros b')"
      "length (trim_zeros a') = length a'" "length (trim_zeros b') = length b'"
      by fastforce+
    then have "trim_zeros a = a" "trim_zeros b = b"
      unfolding trim_zeros_def by (metis append_Nil length_0_conv length_append add_cancel_left_left takeWhile_dropWhile_id)+
    with same ds have "\<not> (at_digit a \<and> at_digit b)" by auto
    with dl same \<open>trim_zeros a = a\<close> \<open>trim_zeros b = b\<close> have "a'' = a" "b'' = b"
      by (auto simp: at_digit_def split: list.splits if_splits)
    with stop same assms(1) show False
      by (auto simp: at_digit_def at_nondigit_def split: list.splits)
  qed
qed

termination comparePart
  by (relation "measure (\<lambda>(a, b). length a + length b)") (auto intro: comparePart_progress [OF _ _ sym])

declare comparePart.simps [simp del]

definition debianOrder :: "string \<Rightarrow> string \<Rightarrow> int option" where
  "debianOrder a b = (case (splitDebian a, splitDebian b) of
     (Some (ae, au, ar), Some (be, bu, br)) \<Rightarrow>
       Some (orelse (compareNumeric ae be) (orelse (comparePart au bu) (comparePart ar br)))
   | _ \<Rightarrow> None)"

subsection \<open>The scanner against its reference\<close>

text \<open>
  What \<^verbatim>\<open>comparePart\<close> decides, without indices: a part is the list of the ranks of its non-digits,
  a zero closing each run, and the value of each run of digits; a part that has run out goes on
  with zeros.
\<close>

lemma digit_run_shorter:
  "s \<noteq> [] \<Longrightarrow> length (dropWhile isDigit (dropWhile (\<lambda>c. \<not> isDigit c) s)) < length s"
  by (cases s) (auto intro: le_imp_less_Suc order_trans [OF length_dropWhile_le] length_dropWhile_le)

function part_key :: "string \<Rightarrow> int list" where
  "part_key s = (if s = [] then [] else
     let rest = dropWhile (\<lambda>c. \<not> isDigit c) s
     in map rank (takeWhile (\<lambda>c. \<not> isDigit c) s) @ 0 # int (digits_value (takeWhile isDigit rest))
        # part_key (dropWhile isDigit rest))"
  by pat_completeness auto
termination
  by (relation "measure length") (simp_all add: digit_run_shorter)

declare part_key.simps [simp del]

abbreviation key_cmp :: "int list \<Rightarrow> int list \<Rightarrow> int" where
  "key_cmp \<equiv> pad_cmp cmp_of 0"

lemma comparison_cmp_of_id: "comparison (cmp_of :: 'a::linorder \<Rightarrow> 'a \<Rightarrow> int)"
  using comparison_cmp_of [of "\<lambda>x. x"] by simp

lemmas key_cmp_step = pad_cmp_step [OF comparison_cmp_of_id]

lemma key_cmp_pad: "key_cmp [] ys = key_cmp [0] ys" "key_cmp xs [] = key_cmp xs [0]"
  by (simp_all add: key_cmp_step [of 0 "[]" ys] key_cmp_step [of 0 "[0]" ys]
      key_cmp_step [of 0 xs "[]"] key_cmp_step [of 0 xs "[0]"] hd_or_def)

text \<open>A part that has run out may be read as an empty run followed by the number zero.\<close>

lemma key_cmp_Nil_left: "key_cmp [] ys = key_cmp [0, 0] ys"
  using key_cmp_pad(1) [of ys] key_cmp_pad(1) [of "tl ys"]
  by (simp add: key_cmp_step [of 0 "[0]" ys] key_cmp_step [of 0 "[0, 0]" ys] hd_or_def)

lemma key_cmp_Nil_right: "key_cmp xs [] = key_cmp xs [0, 0]"
  using key_cmp_pad(2) [of xs] key_cmp_pad(2) [of "tl xs"]
  by (simp add: key_cmp_step [of 0 xs "[0]"] key_cmp_step [of 0 xs "[0, 0]"] hd_or_def)

definition turn_key :: "string \<Rightarrow> int list" where
  "turn_key s =
    (let rest = dropWhile (\<lambda>c. \<not> isDigit c) s
     in map rank (takeWhile (\<lambda>c. \<not> isDigit c) s) @ 0 # int (digits_value (takeWhile isDigit rest))
        # part_key (dropWhile isDigit rest))"

lemma part_key_turn: "s \<noteq> [] \<Longrightarrow> part_key s = turn_key s"
  by (simp add: part_key.simps [of s] turn_key_def)

lemma turn_key_Nil: "turn_key [] = [0, 0]"
  by (simp add: turn_key_def part_key.simps [of "[]"])

lemma key_cmp_turn: "key_cmp (part_key a) (part_key b) = key_cmp (turn_key a) (turn_key b)"
proof -
  have "key_cmp (part_key a) ys = key_cmp (turn_key a) ys" for ys
    by (cases "a = []")
       (simp_all add: part_key_turn turn_key_Nil part_key.simps [of "[]"] flip: key_cmp_Nil_left)
  moreover have "key_cmp xs (part_key b) = key_cmp xs (turn_key b)" for xs
    by (cases "b = []")
       (simp_all add: part_key_turn turn_key_Nil part_key.simps [of "[]"] flip: key_cmp_Nil_right)
  ultimately show ?thesis by simp
qed

lemma rank_nonzero: "\<not> isDigit c \<Longrightarrow> rank c \<noteq> 0"
proof -
  have "byte c + 256 \<noteq> 0" using byte_nonneg [of c] by linarith
  moreover have "byte c \<noteq> 0" if "isLetter c"
  proof -
    have "CHR ''A'' \<le> c" using that by (auto simp: isLetter_def less_eq_char_def)
    then have "byte CHR ''A'' \<le> byte c" by (simp only: byte_le)
    then show ?thesis by (simp add: byte_def)
  qed
  ultimately show ?thesis by (simp add: rank_def)
qed

lemma nondigit_rank_zero: "nondigit_rank s = 0 \<longleftrightarrow> \<not> at_nondigit s"
  by (auto simp: nondigit_rank_def at_nondigit_def rank_nonzero split: list.splits)

abbreviation ranks_of :: "string \<Rightarrow> int list" where
  "ranks_of s \<equiv> map rank (takeWhile (\<lambda>c. \<not> isDigit c) s)"

lemma hd_ranks: "hd_or 0 (ranks_of s @ 0 # xs) = nondigit_rank s"
  by (cases s) (auto simp: hd_or_def nondigit_rank_def at_nondigit_def)

lemma nondigit_loop_keys:
  "case nondigit_loop a b of
     Inl c \<Rightarrow> c \<noteq> 0 \<and> (\<forall>xs ys. key_cmp (ranks_of a @ 0 # xs) (ranks_of b @ 0 # ys) = c)
   | Inr (a', b') \<Rightarrow> ranks_of a = ranks_of b
       \<and> a' = dropWhile (\<lambda>c. \<not> isDigit c) a \<and> b' = dropWhile (\<lambda>c. \<not> isDigit c) b"
proof (induction a b rule: nondigit_loop.induct)
  case (1 a b)
  consider "\<not> at_nondigit a" "\<not> at_nondigit b"
    | "nondigit_rank a \<noteq> nondigit_rank b"
    | "at_nondigit a" "at_nondigit b" "nondigit_rank a = nondigit_rank b"
    using nondigit_rank_zero [of a] nondigit_rank_zero [of b] by metis
  then show ?case
  proof cases
    case 1
    then have "nondigit_loop a b = Inr (a, b)" by (simp add: nondigit_loop.simps [of a b])
    with 1 show ?thesis by (cases a; cases b) (simp_all add: at_nondigit_def)
  next
    case 2
    then have "at_nondigit a \<or> at_nondigit b" by (auto simp: nondigit_rank_def split: if_splits)
    with 2 show ?thesis
      by (auto simp: nondigit_loop.simps [of a b] key_cmp_step [of 0 "ranks_of a @ _"] hd_ranks
          sign_cmp_of cmp_of_def)
  next
    case 3
    then obtain x a2 y b2 where ab: "a = x # a2" "b = y # b2" "\<not> isDigit x" "\<not> isDigit y"
      by (auto simp: at_nondigit_def split: list.splits)
    with 3 have "rank x = rank y" by (simp add: nondigit_rank_def)
    have step: "nondigit_loop a b = nondigit_loop a2 b2"
      using 3 ab by (simp add: nondigit_loop.simps [of "x # a2"])
    show ?thesis
      using 1 3 ab \<open>rank x = rank y\<close> unfolding step by (simp split: sum.splits prod.splits)
  qed
qed

lemma digit_loop_runs:
  "digit_loop f a b = (g, a', b') \<Longrightarrow>
     (at_digit a' \<longleftrightarrow> length (takeWhile isDigit b) < length (takeWhile isDigit a))
   \<and> (at_digit b' \<longleftrightarrow> length (takeWhile isDigit a) < length (takeWhile isDigit b))
   \<and> (length (takeWhile isDigit a) = length (takeWhile isDigit b) \<longrightarrow>
        a' = dropWhile isDigit a \<and> b' = dropWhile isDigit b
        \<and> sign g = orelse (sign f) (strings_compare (takeWhile isDigit a) (takeWhile isDigit b)))"
proof (induction f a b rule: digit_loop.induct)
  case (1 f x a y b)
  have "sign (byte x - byte y) = cmp_of x y"
    by (simp add: sign_cmp_of cmp_of_def)
  with 1 show ?case
    by (cases "isDigit x \<and> isDigit y")
       (auto simp: at_digit_def strings_compare_def orelse_def cmp_of_def split: if_splits)
qed (auto simp: at_digit_def strings_compare_def split: list.splits)

lemma takeWhile_trim_zeros: "takeWhile isDigit (trim_zeros s) = trim_zeros (takeWhile isDigit s)"
  and dropWhile_trim_zeros: "dropWhile isDigit (trim_zeros s) = dropWhile isDigit s"
  by (induction s) (auto simp: trim_zeros_def isDigit_iff)

text \<open>The digits of a turn decide as the two numbers do, and where they agree both runs are read.\<close>

lemma digit_turn:
  assumes "digit_loop 0 (trim_zeros a) (trim_zeros b) = (first, a', b')"
  shows "(if at_digit a' then 1 else if at_digit b' then -1 else if first \<noteq> 0 then sign first
          else comparePart a' b')
       = orelse (compareNumeric (takeWhile isDigit a) (takeWhile isDigit b))
           (comparePart (dropWhile isDigit a) (dropWhile isDigit b))"
proof -
  note runs = digit_loop_runs [OF assms, unfolded takeWhile_trim_zeros dropWhile_trim_zeros]
  let ?A = "trim_zeros (takeWhile isDigit a)" and ?B = "trim_zeros (takeWhile isDigit b)"
  show ?thesis
  proof (cases "length ?A = length ?B")
    case True
    with runs have "sign first = strings_compare ?A ?B" and "a' = dropWhile isDigit a"
      and "b' = dropWhile isDigit b" and "\<not> at_digit a'" and "\<not> at_digit b'"
      by auto
    moreover have "first \<noteq> 0 \<longleftrightarrow> sign first \<noteq> 0" by simp
    ultimately show ?thesis using True by (simp add: compareNumeric_def orelse_def)
  next
    case False
    with runs show ?thesis by (auto simp: compareNumeric_def Let_def sign_def orelse_def)
  qed
qed

lemma list_all_takeWhile: "list_all P (takeWhile P s)"
  by (induction s) auto

lemma comparePart_Nil [simp]: "comparePart [] [] = 0"
  by (simp add: comparePart.simps [of "[]" "[]"])

lemma key_cmp_same_prefix: "key_cmp (zs @ xs) (zs @ ys) = key_cmp xs ys"
  by (induction zs) simp_all

theorem comparePart_by_key: "comparePart a b = key_cmp (part_key a) (part_key b)"
proof (induction "length a + length b" arbitrary: a b rule: less_induct)
  case less
  note keys = nondigit_loop_keys [of a b]
  let ?a = "dropWhile (\<lambda>c. \<not> isDigit c) a" and ?b = "dropWhile (\<lambda>c. \<not> isDigit c) b"
  consider "a = [] \<and> b = []" | c where "\<not> (a = [] \<and> b = [])" "nondigit_loop a b = Inl c"
    | "\<not> (a = [] \<and> b = [])" "nondigit_loop a b = Inr (?a, ?b)" "ranks_of a = ranks_of b"
    using keys by (cases "nondigit_loop a b") auto
  then show ?case
  proof cases
    case 1
    then show ?thesis by (simp add: part_key.simps [of "[]"])
  next
    case 2
    then show ?thesis using keys
      by (simp add: comparePart.simps [of a b] key_cmp_turn turn_key_def Let_def)
  next
    case 3
    obtain f a'' b'' where dl: "digit_loop 0 (trim_zeros ?a) (trim_zeros ?b) = (f, a'', b'')"
      by (metis prod_cases3)
    have turn: "comparePart a b = orelse (compareNumeric (takeWhile isDigit ?a) (takeWhile isDigit ?b))
         (comparePart (dropWhile isDigit ?a) (dropWhile isDigit ?b))"
      using 3 dl digit_turn [OF dl] by (simp add: comparePart.simps [of a b])
    have "length (dropWhile isDigit ?a) + length (dropWhile isDigit ?b) < length a + length b"
      using 3(1) digit_run_shorter [of a] digit_run_shorter [of b] by (cases "a = []"; cases "b = []") auto
    from less [OF this] turn show ?thesis
      using 3 by (simp add: key_cmp_turn turn_key_def Let_def key_cmp_same_prefix list_all_takeWhile
          compareNumeric_is_numeric cmp_of_def)
  qed
qed

lemma comparison_comparePart [comparison_intros]: "comparison (\<lambda>a b. comparePart (f a) (f b))"
  unfolding comparePart_by_key
  by (rule comparison_pull [OF comparison_pad_cmp [OF comparison_cmp_of_id], of 0 "\<lambda>a. part_key (f a)"])

text \<open>The scheme meets the contract of an ordered scheme.\<close>

definition debian_cmp :: "string \<times> string \<times> string \<Rightarrow> string \<times> string \<times> string \<Rightarrow> int" where
  "debian_cmp x y = orelse (compareNumeric (fst x) (fst y))
     (orelse (comparePart (fst (snd x)) (fst (snd y))) (comparePart (snd (snd x)) (snd (snd y))))"

interpretation debian: keyed_scheme debian_cmp debianOrder splitDebian
proof (intro keyed_scheme.intro keyed_scheme_axioms.intro)
  show "comparison debian_cmp"
    unfolding debian_cmp_def [abs_def] by (intro comparison_intros)
  show "debianOrder a b = (case splitDebian a of None \<Rightarrow> None
      | Some x \<Rightarrow> (case splitDebian b of None \<Rightarrow> None | Some y \<Rightarrow> Some (debian_cmp x y)))" for a b
    by (simp add: debianOrder_def debian_cmp_def split: option.splits prod.splits)
qed

end
