(* ===== verification/Vercmp_Rpm.thy ===== *)
theory Vercmp_Rpm
  imports Vercmp_Base
begin

section \<open>RPM versions\<close>

text \<open>
  \<^verbatim>\<open>internal/vercmp/rpm.go\<close>: \<^verbatim>\<open>rpmOrder\<close>, \<^verbatim>\<open>splitRPM\<close>, \<^verbatim>\<open>rpmCharacters\<close>, \<^verbatim>\<open>rpmSignificant\<close> and
  the scanner \<^verbatim>\<open>rpmSegment\<close>, transcribed from rpmvercmp. The scanner walks two strings at once;
  it is shown equal to reading each string into tokens on its own and comparing the token lists,
  the shorter continued by an end token that sits between the tilde and everything else.
\<close>

definition rpmCharacters :: "string \<Rightarrow> bool" where
  "rpmCharacters s = list_all (\<lambda>c. isDigit c \<or> isLetter c
     \<or> c = CHR ''.'' \<or> c = CHR ''_'' \<or> c = CHR ''+'' \<or> c = CHR ''~'' \<or> c = CHR ''^'') s"

definition splitRPM :: "string \<Rightarrow> (string \<times> string \<times> string) option" where
  "splitRPM v = (case splitEVR v of None \<Rightarrow> None | Some c \<Rightarrow>
     if \<not> rpmCharacters (version c) \<or> \<not> rpmCharacters (release c) then None
     else Some (epoch c, version c, release c))"

definition rpmSignificant :: "char \<Rightarrow> bool" where
  "rpmSignificant c \<longleftrightarrow> isDigit c \<or> isLetter c \<or> c = CHR ''~'' \<or> c = CHR ''^''"

definition at_char :: "char \<Rightarrow> string \<Rightarrow> bool" where
  "at_char c s = (case s of [] \<Rightarrow> False | x # _ \<Rightarrow> x = c)"

definition rpm_skip :: "string \<Rightarrow> string" where
  "rpm_skip s = dropWhile (\<lambda>c. \<not> rpmSignificant c) s"

definition rpm_ending :: "string \<Rightarrow> string \<Rightarrow> int" where
  "rpm_ending a b = (if a = [] \<and> b = [] then 0 else if a = [] then -1 else 1)"

lemma rpm_skip_shorter: "length (rpm_skip s) \<le> length s"
  by (simp add: rpm_skip_def length_dropWhile_le)

lemma rpm_skip_cases:
  obtains "rpm_skip s = []" | r where "rpm_skip s = CHR ''~'' # r" | r where "rpm_skip s = CHR ''^'' # r"
    | c r where "rpm_skip s = c # r" "isDigit c" "c \<noteq> CHR ''~''" "c \<noteq> CHR ''^''"
    | c r where "rpm_skip s = c # r" "isLetter c" "\<not> isDigit c" "c \<noteq> CHR ''~''" "c \<noteq> CHR ''^''"
proof (cases "rpm_skip s")
  case (Cons c r)
  then have "rpmSignificant c" by (auto simp: rpm_skip_def dropWhile_eq_Cons_conv)
  then show thesis using that Cons by (auto simp: rpmSignificant_def)
qed (use that in blast)

lemma at_char_tl: "at_char c s \<Longrightarrow> length (tl s) < length s"
  by (cases s) (simp_all add: at_char_def)

function rpmSegment :: "string \<Rightarrow> string \<Rightarrow> int" where
  "rpmSegment s t =
    (if s = [] \<and> t = [] then rpm_ending s t
     else let a = rpm_skip s; b = rpm_skip t in
       if at_char CHR ''~'' a \<or> at_char CHR ''~'' b then
         (if \<not> at_char CHR ''~'' a then 1
          else if \<not> at_char CHR ''~'' b then -1
          else rpmSegment (tl a) (tl b))
       else if at_char CHR ''^'' a \<or> at_char CHR ''^'' b then
         (if a = [] then -1
          else if b = [] then 1
          else if \<not> at_char CHR ''^'' a then 1
          else if \<not> at_char CHR ''^'' b then -1
          else rpmSegment (tl a) (tl b))
       else if a = [] \<or> b = [] then rpm_ending a b
       else let numeric = isDigit (hd a);
                in_run = (if numeric then isDigit else isLetter);
                one = takeWhile in_run a; two = takeWhile in_run b;
                a' = dropWhile in_run a; b' = dropWhile in_run b in
         if two = [] then (if numeric then 1 else -1)
         else if numeric then orelse (compareNumeric one two) (rpmSegment a' b')
         else orelse (sign (strings_compare one two)) (rpmSegment a' b'))"
  by pat_completeness auto

lemma dropWhile_hd_shorter: "p (hd s) \<Longrightarrow> s \<noteq> [] \<Longrightarrow> length (dropWhile p s) < length s"
  by (cases s) (auto simp: length_dropWhile_le less_Suc_eq_le)

lemma rpm_skip_hd: "rpm_skip s \<noteq> [] \<Longrightarrow> rpmSignificant (hd (rpm_skip s))"
  using hd_dropWhile [of "\<lambda>c. \<not> rpmSignificant c" s] by (simp add: rpm_skip_def)

lemma rpm_run_shorter:
  assumes "rpm_skip s \<noteq> []" "\<not> at_char CHR ''~'' (rpm_skip s)" "\<not> at_char CHR ''^'' (rpm_skip s)"
  shows "length (dropWhile (if isDigit (hd (rpm_skip s)) then isDigit else isLetter) (rpm_skip s))
    < length (rpm_skip s)"
proof (rule dropWhile_hd_shorter [OF _ assms(1)])
  show "(if isDigit (hd (rpm_skip s)) then isDigit else isLetter) (hd (rpm_skip s))"
    using assms rpm_skip_hd [OF assms(1)] by (cases "rpm_skip s") (auto simp: rpmSignificant_def at_char_def)
qed

termination rpmSegment
proof (relation "measure (\<lambda>(a, b). length a + length b)", goal_cases)
  case (2 s t a b)
  have "length (tl a) < length a" using 2 at_char_tl by blast
  moreover have "length (tl b) \<le> length b" by simp
  ultimately have "length (tl a) + length (tl b) < length a + length b" by linarith
  then show ?case using rpm_skip_shorter [of s] rpm_skip_shorter [of t] 2 by simp
next
  case (3 s t a b)
  have "length (tl a) < length a" using 3 at_char_tl by blast
  moreover have "length (tl b) \<le> length b" by simp
  ultimately have "length (tl a) + length (tl b) < length a + length b" by linarith
  then show ?case using rpm_skip_shorter [of s] rpm_skip_shorter [of t] 3 by simp
next
  case (4 s t a b numeric in_run one two a' b')
  have "a' = dropWhile (if isDigit (hd (rpm_skip s)) then isDigit else isLetter) (rpm_skip s)"
    and "rpm_skip s \<noteq> []" and "\<not> at_char CHR ''~'' (rpm_skip s)" and "\<not> at_char CHR ''^'' (rpm_skip s)"
    and "a = rpm_skip s"
    using 4 by simp_all
  then have "length a' < length a" using rpm_run_shorter [of s] by simp
  moreover have "length b' \<le> length b" using 4 by (simp add: length_dropWhile_le)
  ultimately show ?case using rpm_skip_shorter [of s] rpm_skip_shorter [of t] 4 by simp
next
  case (5 s t a b numeric in_run one two a' b')
  have "a' = dropWhile (if isDigit (hd (rpm_skip s)) then isDigit else isLetter) (rpm_skip s)"
    and "rpm_skip s \<noteq> []" and "\<not> at_char CHR ''~'' (rpm_skip s)" and "\<not> at_char CHR ''^'' (rpm_skip s)"
    and "a = rpm_skip s"
    using 5 by simp_all
  then have "length a' < length a" using rpm_run_shorter [of s] by simp
  moreover have "length b' \<le> length b" using 5 by (simp add: length_dropWhile_le)
  ultimately show ?case using rpm_skip_shorter [of s] rpm_skip_shorter [of t] 5 by simp
qed simp

declare rpmSegment.simps [simp del]

definition rpmOrder :: "string \<Rightarrow> string \<Rightarrow> int option" where
  "rpmOrder a b = (case (splitRPM a, splitRPM b) of
     (Some (ae, av, ar), Some (be, bv, br)) \<Rightarrow>
       Some (orelse (compareNumeric ae be) (orelse (rpmSegment av bv) (rpmSegment ar br)))
   | _ \<Rightarrow> None)"

subsection \<open>The scanner against tokens\<close>

datatype rpm_token = RpmTilde | RpmEnd | RpmCaret | RpmAlpha string | RpmNumber string

fun rpm_kind :: "rpm_token \<Rightarrow> nat" where
  "rpm_kind RpmTilde = 0"
| "rpm_kind RpmEnd = 1"
| "rpm_kind RpmCaret = 2"
| "rpm_kind (RpmAlpha _) = 3"
| "rpm_kind (RpmNumber _) = 4"

fun rpm_text :: "rpm_token \<Rightarrow> string" where
  "rpm_text (RpmAlpha s) = s"
| "rpm_text (RpmNumber s) = s"
| "rpm_text _ = []"

definition rpm_token_cmp :: "rpm_token \<Rightarrow> rpm_token \<Rightarrow> int" where
  "rpm_token_cmp x y = orelse (cmp_of (rpm_kind x) (rpm_kind y))
     ((if rpm_kind x = 4 then compareNumeric else strings_compare) (rpm_text x) (rpm_text y))"

lemma comparison_rpm_token: "comparison rpm_token_cmp"
proof -
  have "comparison (\<lambda>x y. (if k = (4::nat) then compareNumeric else strings_compare) (rpm_text x) (rpm_text y))" for k
    using comparison_compareNumeric [of rpm_text] comparison_strings_compare [of rpm_text]
    by (cases "k = 4") simp_all
  from comparison_by_kind [of "\<lambda>k x y. (if k = (4::nat) then compareNumeric else strings_compare)
      (rpm_text x) (rpm_text y)" rpm_kind, OF this]
  show ?thesis by (simp add: rpm_token_cmp_def [abs_def])
qed

definition rpm_next :: "string \<Rightarrow> rpm_token \<times> string" where
  "rpm_next s = (case rpm_skip s of
     [] \<Rightarrow> (RpmEnd, [])
   | c # r \<Rightarrow> if c = CHR ''~'' then (RpmTilde, r)
       else if c = CHR ''^'' then (RpmCaret, r)
       else if isDigit c then (RpmNumber (takeWhile isDigit (c # r)), dropWhile isDigit (c # r))
       else (RpmAlpha (takeWhile isLetter (c # r)), dropWhile isLetter (c # r)))"

lemma rpm_next_shorter: "fst (rpm_next s) \<noteq> RpmEnd \<Longrightarrow> length (snd (rpm_next s)) < length s"
proof (cases s rule: rpm_skip_cases)
  case (4 c r)
  then show ?thesis using rpm_skip_shorter [of s] dropWhile_hd_shorter [of isDigit "c # r"]
    by (simp add: rpm_next_def)
next
  case (5 c r)
  then show ?thesis using rpm_skip_shorter [of s] dropWhile_hd_shorter [of isLetter "c # r"]
    by (simp add: rpm_next_def)
qed (use rpm_skip_shorter [of s] in \<open>simp_all add: rpm_next_def\<close>)

function rpm_tokens :: "string \<Rightarrow> rpm_token list" where
  "rpm_tokens s = (if fst (rpm_next s) = RpmEnd then []
     else fst (rpm_next s) # rpm_tokens (snd (rpm_next s)))"
  by pat_completeness auto
termination
  by (relation "measure length") (simp_all add: rpm_next_shorter)

declare rpm_tokens.simps [simp del]

lemma rpm_segment_Nil [simp]: "rpmSegment [] [] = 0"
  by (simp add: rpmSegment.simps [of "[]" "[]"] rpm_ending_def)

lemma rpm_end_rest: "fst (rpm_next s) = RpmEnd \<Longrightarrow> snd (rpm_next s) = []"
  by (auto simp: rpm_next_def split: list.splits if_splits)

lemma rpm_segment_step:
  "rpmSegment s t = orelse (rpm_token_cmp (fst (rpm_next s)) (fst (rpm_next t)))
     (rpmSegment (snd (rpm_next s)) (snd (rpm_next t)))"
proof (cases "s = [] \<and> t = []")
  case True
  then show ?thesis by (simp add: rpm_next_def rpm_skip_def rpm_token_cmp_def strings_compare_def)
next
  case False
  show ?thesis
    unfolding trans [OF rpmSegment.simps if_not_P [OF False]]
    by (cases s rule: rpm_skip_cases; cases t rule: rpm_skip_cases)
       (simp_all add: rpm_next_def rpm_token_cmp_def at_char_def cmp_of_def
         rpm_ending_def Let_def strings_compare_def not_digit_and_letter orelse_def)
qed

theorem rpmSegment_by_tokens:
  "rpmSegment a b = pad_cmp rpm_token_cmp RpmEnd (rpm_tokens a) (rpm_tokens b)"
proof (induction "length a + length b" arbitrary: a b rule: less_induct)
  case less
  let ?na = "rpm_next a" and ?nb = "rpm_next b"
  have hd: "hd_or RpmEnd (rpm_tokens s) = fst (rpm_next s)"
    and tl: "tl (rpm_tokens s) = rpm_tokens (snd (rpm_next s))" for s
    using rpm_end_rest [of s]
    by (simp_all add: rpm_tokens.simps [of s] hd_or_def rpm_tokens.simps [of "[]"] rpm_next_def [of "[]"] rpm_skip_def)
  note step = pad_cmp_step [OF comparison_rpm_token, of RpmEnd "rpm_tokens a" "rpm_tokens b", unfolded hd tl]
  show ?case
  proof (cases "fst ?na = RpmEnd \<and> fst ?nb = RpmEnd")
    case True
    then show ?thesis using rpm_end_rest [of a] rpm_end_rest [of b]
      by (simp add: rpm_segment_step [of a b] rpm_tokens.simps [of a] rpm_tokens.simps [of b]
          rpm_token_cmp_def strings_compare_def)
  next
    case False
    have "length (snd (rpm_next s)) \<le> length s" for s
      using rpm_next_shorter [of s] rpm_end_rest [of s] by (cases "fst (rpm_next s) = RpmEnd") auto
    then have "length (snd ?na) + length (snd ?nb) < length a + length b"
      using False rpm_next_shorter [of a] rpm_next_shorter [of b]
      by (metis add_less_le_mono add_le_less_mono)
    from less [OF this] show ?thesis by (simp add: rpm_segment_step [of a b] step)
  qed
qed

lemma comparison_rpmSegment [comparison_intros]: "comparison (\<lambda>a b. rpmSegment (f a) (f b))"
  unfolding rpmSegment_by_tokens
  by (rule comparison_pull [OF comparison_pad_cmp [OF comparison_rpm_token], of RpmEnd "\<lambda>a. rpm_tokens (f a)"])

definition rpm_cmp :: "string \<times> string \<times> string \<Rightarrow> string \<times> string \<times> string \<Rightarrow> int" where
  "rpm_cmp x y = orelse (compareNumeric (fst x) (fst y))
     (orelse (rpmSegment (fst (snd x)) (fst (snd y))) (rpmSegment (snd (snd x)) (snd (snd y))))"

interpretation rpm: keyed_scheme rpm_cmp rpmOrder splitRPM
proof (intro keyed_scheme.intro keyed_scheme_axioms.intro)
  show "comparison rpm_cmp"
    unfolding rpm_cmp_def [abs_def] by (intro comparison_intros)
  show "rpmOrder a b = (case splitRPM a of None \<Rightarrow> None
      | Some x \<Rightarrow> (case splitRPM b of None \<Rightarrow> None | Some y \<Rightarrow> Some (rpm_cmp x y)))" for a b
    by (simp add: rpmOrder_def rpm_cmp_def split: option.splits prod.splits)
qed

end
