(* ===== verification/Vercmp_Apk.thy ===== *)
theory Vercmp_Apk
  imports Vercmp_Base
begin

section \<open>Alpine versions\<close>

text \<open>
  \<^verbatim>\<open>internal/vercmp/apk.go\<close>: the token reader (\<^verbatim>\<open>apkFirst\<close>, \<^verbatim>\<open>apkNext\<close>, \<^verbatim>\<open>apkDigits\<close>), the
  validity check that runs it to the end, the comparison of two tokens of one kind and
  \<^verbatim>\<open>apkOrder\<close>, which runs two readers side by side. The order of the tokens is the value the
  source compares, so the type is made a linear order of the library.
\<close>

datatype apkToken = apkInitialDigit | apkDigit | apkLetter | apkSuffix | apkSuffixNumber
  | apkCommitHash | apkRevision | apkEnd | apkInvalid

fun apk_rank :: "apkToken \<Rightarrow> nat" where
  "apk_rank apkInitialDigit = 0"
| "apk_rank apkDigit = 1"
| "apk_rank apkLetter = 2"
| "apk_rank apkSuffix = 3"
| "apk_rank apkSuffixNumber = 4"
| "apk_rank apkCommitHash = 5"
| "apk_rank apkRevision = 6"
| "apk_rank apkEnd = 7"
| "apk_rank apkInvalid = 8"

instantiation apkToken :: linorder
begin

definition less_eq_apkToken :: "apkToken \<Rightarrow> apkToken \<Rightarrow> bool" where
  "less_eq_apkToken s t \<longleftrightarrow> apk_rank s \<le> apk_rank t"

definition less_apkToken :: "apkToken \<Rightarrow> apkToken \<Rightarrow> bool" where
  "less_apkToken s t \<longleftrightarrow> apk_rank s < apk_rank t"

instance
proof
  fix s t :: apkToken
  assume "s \<le> t" and "t \<le> s"
  then have "apk_rank s = apk_rank t" by (simp add: less_eq_apkToken_def)
  then show "s = t" by (cases s; cases t) simp_all
qed (auto simp: less_eq_apkToken_def less_apkToken_def)

end

lemmas apk_order = less_eq_apkToken_def less_apkToken_def

text \<open>The suffixes: everything below \<open>apkSuffixNone\<close> leads to a release.\<close>

definition apkSuffixNone :: int where
  "apkSuffixNone = 5"

definition apkSuffixes :: "string \<Rightarrow> int option" where
  "apkSuffixes = map_of [(''alpha'', 1), (''beta'', 2), (''pre'', 3), (''rc'', 4),
     (''cvs'', 6), (''svn'', 7), (''git'', 8), (''hg'', 9), (''p'', 10)]"

record apkState =
  token :: apkToken
  suffix :: int
  number :: string
  val :: string
  rest :: string

definition isHex :: "char \<Rightarrow> bool" where
  "isHex c \<longleftrightarrow> isDigit c \<or> (CHR ''a'' \<le> c \<and> c \<le> CHR ''f'') \<or> (CHR ''A'' \<le> c \<and> c \<le> CHR ''F'')"

definition apkDigits :: "apkState \<Rightarrow> apkState" where
  "apkDigits s =
    (let run = takeWhile isDigit (rest s) in
     if run = [] then s\<lparr>token := apkInvalid\<rparr>
     else s\<lparr>number := run, val := run, rest := dropWhile isDigit (rest s)\<rparr>)"

definition apkFirst :: "string \<Rightarrow> apkState" where
  "apkFirst v = apkDigits \<lparr>token = apkInitialDigit, suffix = 0, number = [], val = [], rest = v\<rparr>"

definition apkNext :: "apkState \<Rightarrow> apkState" where
  "apkNext s = (case rest s of [] \<Rightarrow> s\<lparr>token := apkEnd\<rparr> | c # cs \<Rightarrow>
     let was = token s; invalid = s\<lparr>token := apkInvalid\<rparr> in
     if CHR ''a'' \<le> c \<and> c \<le> CHR ''z'' then
       (if was > apkDigit then invalid else s\<lparr>val := [c], rest := cs, token := apkLetter\<rparr>)
     else if c = CHR ''.'' then
       (if was > apkDigit then invalid else apkDigits (s\<lparr>rest := cs, token := apkDigit\<rparr>))
     else if isDigit c then
       (if was \<noteq> apkSuffix then invalid else apkDigits (s\<lparr>token := apkSuffixNumber\<rparr>))
     else if c = CHR ''_'' then
       (if was > apkSuffixNumber then invalid
        else let word = takeWhile isLetter cs;
                 s' = s\<lparr>val := word, rest := dropWhile isLetter cs\<rparr> in
          (case apkSuffixes word of
             None \<Rightarrow> s'\<lparr>token := apkInvalid\<rparr>
           | Some sfx \<Rightarrow> s'\<lparr>suffix := sfx, token := apkSuffix\<rparr>))
     else if c = CHR ''~'' then
       (if was \<ge> apkCommitHash then invalid
        else let hash = takeWhile isHex cs in
          if hash = [] then s\<lparr>rest := cs, token := apkInvalid\<rparr>
          else s\<lparr>val := hash, rest := dropWhile isHex cs, token := apkCommitHash\<rparr>)
     else if c = CHR ''-'' then
       (if was \<ge> apkRevision then invalid
        else if \<not> begins ''-r'' (c # cs) then invalid
        else apkDigits (s\<lparr>rest := drop 2 (c # cs), token := apkRevision\<rparr>))
     else invalid)"

definition apkCompare :: "apkState \<Rightarrow> apkState \<Rightarrow> int" where
  "apkCompare a b = (case token a of
     apkDigit \<Rightarrow>
       (if begins ''0'' (val a) \<or> begins ''0'' (val b) then sign (strings_compare (val a) (val b))
        else compareNumeric (number a) (number b))
   | apkInitialDigit \<Rightarrow> compareNumeric (number a) (number b)
   | apkSuffixNumber \<Rightarrow> compareNumeric (number a) (number b)
   | apkRevision \<Rightarrow> compareNumeric (number a) (number b)
   | apkLetter \<Rightarrow> sign (strings_compare (val a) (val b))
   | apkSuffix \<Rightarrow> sign (suffix a - suffix b)
   | _ \<Rightarrow> sign (strings_compare (val a) (val b)))"

subsection \<open>Running the reader\<close>

definition apk_left :: "apkState \<Rightarrow> nat" where
  "apk_left s = (if token s < apkEnd then Suc (length (rest s)) else 0)"

lemma apkDigits_left: "token s < apkEnd \<Longrightarrow> token (apkDigits s) < apkEnd \<Longrightarrow>
    length (rest (apkDigits s)) < length (rest s)"
  by (cases "rest s") (auto simp: apkDigits_def Let_def apk_order less_Suc_eq_le length_dropWhile_le split: if_splits)

lemma apkDigits_le: "length (rest (apkDigits s)) \<le> length (rest s)"
  by (auto simp: apkDigits_def Let_def length_dropWhile_le)

text \<open>Every step reads at least one byte, ends the string or refuses it, so the reader stops.\<close>

lemma apkNext_left: "token s < apkEnd \<Longrightarrow> apk_left (apkNext s) < apk_left s"
proof (cases "rest s")
  case (Cons c cs)
  assume s: "token s < apkEnd"
  have dig: "apk_left (apkDigits t) \<le> length (rest t)" if "token t < apkEnd" for t
    using apkDigits_left [OF that] by (auto simp: apk_left_def Suc_le_eq)
  have "apk_left (apkNext s) \<le> length (rest s)"
    using Cons s dig [of "s\<lparr>rest := cs, token := apkDigit\<rparr>"] dig [of "s\<lparr>token := apkSuffixNumber\<rparr>"]
      dig [of "s\<lparr>rest := drop 2 (c # cs), token := apkRevision\<rparr>"]
    by (auto simp: apkNext_def Let_def apk_left_def apk_order length_dropWhile_le split: option.splits)
  then show ?thesis using s by (simp add: apk_left_def)
qed (simp add: apkNext_def apk_left_def apk_order)

function apk_run :: "apkState \<Rightarrow> apkState" where
  "apk_run s = (if token s < apkEnd then apk_run (apkNext s) else s)"
  by pat_completeness auto
termination
  by (relation "measure apk_left") (simp_all add: apkNext_left)

definition apkValid :: "string \<Rightarrow> bool" where
  "apkValid v \<longleftrightarrow> token (apk_run (apkFirst v)) = apkEnd"

function apk_loop :: "apkState \<Rightarrow> apkState \<Rightarrow> int" where
  "apk_loop ta tb =
    (if token ta = token tb \<and> token ta < apkEnd then
       orelse (apkCompare ta tb) (apk_loop (apkNext ta) (apkNext tb))
     else if token ta = token tb then 0
     else if token ta = apkSuffix \<and> suffix ta < apkSuffixNone then -1
     else if token tb = apkSuffix \<and> suffix tb < apkSuffixNone then 1
     else if token ta > token tb then -1
     else 1)"
  by pat_completeness auto
termination
  by (relation "measure (\<lambda>(ta, tb). apk_left ta)") (auto simp: apkNext_left)

declare apk_run.simps [simp del] apk_loop.simps [simp del]

definition apkOrder :: "string \<Rightarrow> string \<Rightarrow> int option" where
  "apkOrder a b = (if \<not> apkValid a \<or> \<not> apkValid b then None
     else Some (apk_loop (apkFirst a) (apkFirst b)))"

subsection \<open>The two readers against one token list each\<close>

text \<open>
  A version as the list of what its tokens weigh: a place, which says how one token stands
  against one of another kind, and what two tokens of one place are compared by. A part with a
  leading zero is a fraction and sits below every part without one; a suffix that leads to a
  release sits below the end of the version and every other token above it.
\<close>

type_synonym apk_key = "nat \<times> string \<times> int"

definition apk_key :: "apkState \<Rightarrow> apk_key" where
  "apk_key s = (case token s of
     apkInitialDigit \<Rightarrow> (19, number s, 0)
   | apkDigit \<Rightarrow> (if begins ''0'' (val s) then 17 else 18, number s, 0)
   | apkLetter \<Rightarrow> (16, val s, 0)
   | apkSuffix \<Rightarrow> (if suffix s < apkSuffixNone then 10 else 15, [], suffix s)
   | apkSuffixNumber \<Rightarrow> (14, number s, 0)
   | apkCommitHash \<Rightarrow> (13, val s, 0)
   | apkRevision \<Rightarrow> (12, number s, 0)
   | _ \<Rightarrow> (11, [], 0))"

abbreviation apk_end_key :: apk_key where
  "apk_end_key \<equiv> (11, [], 0)"

definition apk_same_place :: "nat \<Rightarrow> apk_key \<Rightarrow> apk_key \<Rightarrow> int" where
  "apk_same_place place x y =
    (if place \<in> {12, 14, 18, 19} then compareNumeric (fst (snd x)) (fst (snd y))
     else if place \<in> {10, 15} then sign (snd (snd x) - snd (snd y))
     else strings_compare (fst (snd x)) (fst (snd y)))"

definition apk_key_cmp :: "apk_key \<Rightarrow> apk_key \<Rightarrow> int" where
  "apk_key_cmp x y = orelse (cmp_of (fst x) (fst y)) (apk_same_place (fst x) x y)"

lemma comparison_apk_same_place: "comparison (apk_same_place place)"
proof -
  consider "place \<in> {12, 14, 18, 19}" | "place \<notin> {12, 14, 18, 19}" "place \<in> {10, 15}"
    | "place \<notin> {12, 14, 18, 19}" "place \<notin> {10, 15}" by blast
  then show ?thesis
    unfolding apk_same_place_def [abs_def]
  proof cases
    case 1
    show "comparison (\<lambda>x y. if place \<in> {12, 14, 18, 19} then compareNumeric (fst (snd x)) (fst (snd y))
        else if place \<in> {10, 15} then sign (snd (snd x) - snd (snd y))
        else strings_compare (fst (snd x)) (fst (snd y)))"
      unfolding if_P [OF 1] by (rule comparison_compareNumeric)
  next
    case 2
    show "comparison (\<lambda>x y. if place \<in> {12, 14, 18, 19} then compareNumeric (fst (snd x)) (fst (snd y))
        else if place \<in> {10, 15} then sign (snd (snd x) - snd (snd y))
        else strings_compare (fst (snd x)) (fst (snd y)))"
      unfolding if_not_P [OF 2(1)] if_P [OF 2(2)] by (rule comparison_sign_difference)
  next
    case 3
    show "comparison (\<lambda>x y. if place \<in> {12, 14, 18, 19} then compareNumeric (fst (snd x)) (fst (snd y))
        else if place \<in> {10, 15} then sign (snd (snd x) - snd (snd y))
        else strings_compare (fst (snd x)) (fst (snd y)))"
      unfolding if_not_P [OF 3(1)] if_not_P [OF 3(2)] by (rule comparison_strings_compare)
  qed
qed

lemma comparison_apk_key: "comparison apk_key_cmp"
  unfolding apk_key_cmp_def [abs_def] by (rule comparison_by_kind) (rule comparison_apk_same_place)

function apk_keys :: "apkState \<Rightarrow> apk_key list" where
  "apk_keys s = (if token s < apkEnd then apk_key s # apk_keys (apkNext s) else [])"
  by pat_completeness auto
termination
  by (relation "measure apk_left") (auto simp: apkNext_left)

declare apk_keys.simps [simp del]

text \<open>What the reader keeps: a dotted part is a run of digits, held twice.\<close>

definition apk_wf :: "apkState \<Rightarrow> bool" where
  "apk_wf s \<longleftrightarrow> (token s = apkDigit \<longrightarrow> digits (val s) \<and> number s = val s)"

lemma digits_takeWhile: "takeWhile isDigit s \<noteq> [] \<Longrightarrow> digits (takeWhile isDigit s)"
  by (induction s) (auto simp: digits_def list_all_iff dest: set_takeWhileD)

lemma apkDigits_wf: "apk_wf (apkDigits s)"
  by (auto simp: apkDigits_def apk_wf_def Let_def digits_takeWhile)

lemma apkFirst_wf: "apk_wf (apkFirst v)"
  by (simp add: apkFirst_def apkDigits_wf)

lemma apk_wf_other: "token s \<noteq> apkDigit \<Longrightarrow> apk_wf s"
  by (simp add: apk_wf_def)

lemma apk_wf_if: "apk_wf s \<Longrightarrow> apk_wf t \<Longrightarrow> apk_wf (if p then s else t)"
  by simp

lemma apkNext_wf: "apk_wf (apkNext s)"
proof -
  have sfx: "apk_wf (case o' of None \<Rightarrow> s'\<lparr>token := apkInvalid\<rparr>
      | Some sfx \<Rightarrow> s'\<lparr>suffix := sfx, token := apkSuffix\<rparr>)" for o' s'
    by (cases o') (simp_all add: apk_wf_other)
  show ?thesis
  proof (cases "rest s")
    case (Cons c cs)
    show ?thesis
      unfolding apkNext_def Let_def Cons list.case
      by (intro apk_wf_if apkDigits_wf sfx) (simp_all add: apk_wf_other)
  qed (simp add: apkNext_def apk_wf_other)
qed

lemma apkCompare_by_key:
  assumes "apk_wf s" and "apk_wf t" and "token s = token t" and "token s < apkEnd"
  shows "apkCompare s t = apk_key_cmp (apk_key s) (apk_key t)"
proof (cases "token s = apkDigit")
  case True
  with assms have dig: "digits (val s)" "digits (val t)" "number s = val s" "number t = val t"
    by (auto simp: apk_wf_def)
  have zero: "begins ''0'' v \<longleftrightarrow> v \<noteq> [] \<and> hd v = CHR ''0''" for v by (cases v) auto
  have below: "strings_compare v w = -1" if "digits v" "digits w" "begins ''0'' v" "\<not> begins ''0'' w" for v w
  proof -
    from that obtain c cs d ds where vw: "v = c # cs" "w = d # ds" by (cases v; cases w) (auto simp: digits_def)
    with that have "c = CHR ''0''" "d \<noteq> CHR ''0''" "isDigit d" by (auto simp: digits_def)
    then have "c \<le> d" "c \<noteq> d" by (simp_all only: isDigit_def not_False_eq_True)
    then have "c < d" by (rule le_neq_trans)
    then show ?thesis using vw by (simp add: strings_compare_def cmp_of_def)
  qed
  have above: "strings_compare v w = 1" if "digits v" "digits w" "\<not> begins ''0'' v" "begins ''0'' w" for v w
    using below [OF that(2,1,4,3)] comparison.swap [OF comparison_strings_compare [of "\<lambda>x. x"], of v w] by simp
  show ?thesis using True assms(3) dig below above
    by (cases "begins ''0'' (val s)"; cases "begins ''0'' (val t)")
       (simp_all add: apkCompare_def apk_key_def apk_key_cmp_def apk_same_place_def cmp_of_def)
next
  case False
  then show ?thesis using assms(3,4)
    by (cases "token t")
       (auto simp: apkCompare_def apk_key_def apk_key_cmp_def apk_same_place_def apk_order cmp_of_def sign_def strings_compare_def split: if_splits)
qed

lemma apk_keys_step:
  "hd_or apk_end_key (apk_keys s) = (if token s < apkEnd then apk_key s else apk_end_key)"
  "token s < apkEnd \<Longrightarrow> tl (apk_keys s) = apk_keys (apkNext s)"
  by (simp_all add: apk_keys.simps [of s] hd_or_def)

theorem apk_loop_by_keys:
  assumes "apk_wf s" "apk_wf t" "token (apk_run s) = apkEnd" "token (apk_run t) = apkEnd"
  shows "apk_loop s t = pad_cmp apk_key_cmp apk_end_key (apk_keys s) (apk_keys t)"
  using assms
proof (induction s t rule: apk_loop.induct)
  case (1 s t)
  note step = pad_cmp_step [OF comparison_apk_key, of apk_end_key "apk_keys s" "apk_keys t"]
  have ended: "token x = apkEnd" if "token (apk_run x) = apkEnd" "\<not> token x < apkEnd" for x
    using that by (simp add: apk_run.simps [of x])
  have on: "token (apk_run (apkNext x)) = apkEnd" if "token (apk_run x) = apkEnd" "token x < apkEnd" for x
    using that by (simp add: apk_run.simps [of x])
  consider "token s = token t" "token s < apkEnd" | "token s = apkEnd" "token t = apkEnd"
    | "token s \<noteq> token t"
    using ended 1 by metis
  then show ?case
  proof cases
    case 1
    then have "apk_loop (apkNext s) (apkNext t)
        = pad_cmp apk_key_cmp apk_end_key (apk_keys (apkNext s)) (apk_keys (apkNext t))"
      using "1.IH" "1.prems" on apkNext_wf by simp
    then show ?thesis using 1 "1.prems" apkCompare_by_key [of s t] apk_keys_step [of s] apk_keys_step [of t]
      by (simp add: apk_loop.simps [of s t] step)
  next
    case 2
    then show ?thesis by (simp add: apk_loop.simps [of s t] apk_keys.simps [of s] apk_keys.simps [of t] apk_order)
  next
    case 3
    have "token x \<noteq> apkInvalid" if "token (apk_run x) = apkEnd" for x
      using that ended [of x] by (auto simp: apk_order)
    with "1.prems" have valid: "token s \<noteq> apkInvalid" "token t \<noteq> apkInvalid" by auto
    have "apk_key_cmp (hd_or apk_end_key (apk_keys s)) (hd_or apk_end_key (apk_keys t)) = apk_loop s t
        \<and> apk_loop s t \<noteq> 0"
      using 3 valid unfolding apk_keys_step
      by (cases "token s"; cases "token t")
         (auto simp: apk_loop.simps [of s t] apk_key_def apk_key_cmp_def cmp_of_def apk_order orelse_def)
    then show ?thesis by (simp add: step)
  qed
qed

definition apkRead :: "string \<Rightarrow> apk_key list option" where
  "apkRead v = (if apkValid v then Some (apk_keys (apkFirst v)) else None)"

interpretation apk: keyed_scheme "pad_cmp apk_key_cmp apk_end_key" apkOrder apkRead
proof (intro keyed_scheme.intro keyed_scheme_axioms.intro)
  show "comparison (pad_cmp apk_key_cmp apk_end_key)"
    by (rule comparison_pad_cmp [OF comparison_apk_key])
  show "apkOrder a b = (case apkRead a of None \<Rightarrow> None | Some x \<Rightarrow>
      (case apkRead b of None \<Rightarrow> None | Some y \<Rightarrow> Some (pad_cmp apk_key_cmp apk_end_key x y)))" for a b
    by (auto simp: apkOrder_def apkRead_def apkValid_def apk_loop_by_keys apkFirst_wf)
qed

end
