(* ===== verification/Vercmp_Semantic.thy ===== *)
theory Vercmp_Semantic
  imports Vercmp_Base
begin

section \<open>Semantic versions\<close>

text \<open>
  \<^verbatim>\<open>semanticOrder\<close>, \<^verbatim>\<open>splitSemantic\<close>, \<^verbatim>\<open>semanticPreRelease\<close> and \<^verbatim>\<open>preRelease\<close> of
  \<^verbatim>\<open>internal/vercmp/vercmp.go\<close>: dotted numbers, build metadata dropped, and a pre-release that
  sorts before the release it leads to.
\<close>

definition semanticPreRelease :: "string \<Rightarrow> bool" where
  "semanticPreRelease pre = list_all (\<lambda>identifier. identifier \<noteq> []
     \<and> list_all (\<lambda>c. isDigit c \<or> isLetter c \<or> c = CHR ''-'') identifier) (split_on CHR ''.'' pre)"

definition splitSemantic :: "string \<Rightarrow> (string list \<times> string) option" where
  "splitSemantic v =
    (let trimmed = trim_space v;
         bare = (if begins ''v'' trimmed then tl trimmed else trimmed);
         dropped = (case cut_first CHR ''+'' bare of Some (front, _) \<Rightarrow> front | None \<Rightarrow> bare);
         finish = (\<lambda>numbers pre. let release = split_on CHR ''.'' numbers
                     in if list_all digits release then Some (release, pre) else None)
     in case cut_first CHR ''-'' dropped of
          Some (front, pre) \<Rightarrow> if \<not> semanticPreRelease pre then None else finish front pre
        | None \<Rightarrow> finish dropped [])"

definition pre_identifier :: "string \<Rightarrow> string \<Rightarrow> int" where
  "pre_identifier x y =
    (if digits x \<and> digits y then compareNumeric x y
     else if digits x then -1
     else if digits y then 1
     else sign (strings_compare x y))"

definition preRelease :: "string \<Rightarrow> string \<Rightarrow> int" where
  "preRelease a b = while_both pre_identifier (split_on CHR ''.'' a) (split_on CHR ''.'' b)"

definition semanticOrder :: "string \<Rightarrow> string \<Rightarrow> int option" where
  "semanticOrder a b = (case (splitSemantic a, splitSemantic b) of
     (Some (aRel, aPre), Some (bRel, bPre)) \<Rightarrow>
       Some (orelse (pad_cmp compareNumeric ''0'' aRel bRel)
         (if aPre = [] \<and> bPre = [] then 0
          else if aPre = [] then 1
          else if bPre = [] then -1
          else preRelease aPre bPre))
   | _ \<Rightarrow> None)"

subsection \<open>The scheme is an ordered one\<close>

lemma comparison_pre_identifier: "comparison pre_identifier"
proof -
  have "pre_identifier = (\<lambda>x y. orelse (cmp_of (\<not> digits x) (\<not> digits y))
      ((if \<not> digits x then strings_compare else compareNumeric) x y))"
    by (auto simp: fun_eq_iff pre_identifier_def cmp_of_def)
  moreover have "comparison (if d then strings_compare else compareNumeric)" for d
    using comparison_strings_compare [of "\<lambda>x. x"] comparison_compareNumeric [of "\<lambda>x. x"] by simp
  ultimately show ?thesis
    using comparison_by_kind [of "\<lambda>d. if d then strings_compare else compareNumeric" "\<lambda>x. \<not> digits x"]
    by simp
qed

lemma comparison_preRelease: "comparison preRelease"
  unfolding preRelease_def [abs_def] while_both_lex
  by (rule comparison_pull [OF comparison_lex_cmp [OF comparison_pre_identifier]])

definition pre_part :: "string \<Rightarrow> string \<Rightarrow> int" where
  "pre_part a b = (if a = [] \<and> b = [] then 0 else if a = [] then 1 else if b = [] then -1
     else preRelease a b)"

lemma comparison_pre_part: "comparison pre_part"
proof -
  have "pre_part = (\<lambda>a b. orelse (cmp_of (a = []) (b = [])) ((if a = [] then (\<lambda>_ _. 0) else preRelease) a b))"
    by (auto simp: fun_eq_iff pre_part_def cmp_of_def)
  moreover have "comparison (if d then (\<lambda>_ _. 0) else preRelease)" for d
    using comparison_preRelease comparison_trivial by (cases d) simp_all
  ultimately show ?thesis
    using comparison_by_kind [of "\<lambda>d. if d then (\<lambda>_ _. 0) else preRelease" "\<lambda>a. a = []"] by simp
qed

definition semantic_cmp :: "string list \<times> string \<Rightarrow> string list \<times> string \<Rightarrow> int" where
  "semantic_cmp x y = orelse (pad_cmp compareNumeric ''0'' (fst x) (fst y)) (pre_part (snd x) (snd y))"

interpretation semantic: keyed_scheme semantic_cmp semanticOrder splitSemantic
proof (intro keyed_scheme.intro keyed_scheme_axioms.intro)
  show "comparison semantic_cmp"
    unfolding semantic_cmp_def [abs_def]
    by (intro comparison_orelse comparison_pull [of "pad_cmp compareNumeric ''0''" fst]
        comparison_pull [OF comparison_pre_part, of snd] comparison_pad_cmp
        comparison_compareNumeric [of "\<lambda>x. x"])
  show "semanticOrder a b = (case splitSemantic a of None \<Rightarrow> None
      | Some x \<Rightarrow> (case splitSemantic b of None \<Rightarrow> None | Some y \<Rightarrow> Some (semantic_cmp x y)))" for a b
    by (simp add: semanticOrder_def semantic_cmp_def pre_part_def split: option.splits prod.splits)
qed

end
