(* ===== verification/Vercmp_Pypi.thy ===== *)
theory Vercmp_Pypi
  imports Vercmp_Base
begin

section \<open>Python versions\<close>

text \<open>
  \<^verbatim>\<open>internal/vercmp/pypi.go\<close>: PEP 440 read by its regular expression. The expression is a value
  here, and what Go's \<^verbatim>\<open>regexp\<close> does with it is a matcher that lists every way to match in the
  order of preference the syntax gives (the left alternative first, an optional or repeated part
  as long as possible), with the text of each named group. \<^verbatim>\<open>FindStringSubmatch\<close> of an anchored
  expression is the first of them that reaches the end.
\<close>

subsection \<open>Regular expressions\<close>

datatype rx = Empty | One "char \<Rightarrow> bool" | Seq rx rx | Alt rx rx | Opt rx | Star rx | Group string rx

type_synonym captures = "(string \<times> string) list"

function rx_match :: "rx \<Rightarrow> string \<Rightarrow> (string \<times> captures) list" where
  "rx_match Empty s = [(s, [])]"
| "rx_match (One p) s = (case s of [] \<Rightarrow> [] | c # cs \<Rightarrow> if p c then [(cs, [])] else [])"
| "rx_match (Seq q r) s = concat (map (\<lambda>(s', m). map (\<lambda>(s'', m'). (s'', m @ m')) (rx_match r s')) (rx_match q s))"
| "rx_match (Alt q r) s = rx_match q s @ rx_match r s"
| "rx_match (Opt r) s = rx_match r s @ [(s, [])]"
| "rx_match (Star r) s = concat (map (\<lambda>(s', m).
     if length s' < length s then map (\<lambda>(s'', m'). (s'', m @ m')) (rx_match (Star r) s') else [])
     (rx_match r s)) @ [(s, [])]"
| "rx_match (Group name r) s = map (\<lambda>(s', m). (s', (name, take (length s - length s') s) # m)) (rx_match r s)"
  by pat_completeness auto
termination
  by (relation "measures [size \<circ> fst, length \<circ> snd]") auto

fun literal :: "string \<Rightarrow> rx" where
  "literal [] = Empty"
| "literal [c] = One (\<lambda>d. d = c)"
| "literal (c # cs) = Seq (One (\<lambda>d. d = c)) (literal cs)"

fun either :: "string list \<Rightarrow> rx" where
  "either [] = One (\<lambda>_. False)"
| "either [w] = literal w"
| "either (w # ws) = Alt (literal w) (either ws)"

fun seq :: "rx list \<Rightarrow> rx" where
  "seq [] = Empty"
| "seq [r] = r"
| "seq (r # rs) = Seq r (seq rs)"

abbreviation plus_of :: "rx \<Rightarrow> rx" where
  "plus_of r \<equiv> Seq r (Star r)"

definition FindStringSubmatch :: "rx \<Rightarrow> string \<Rightarrow> captures option" where
  "FindStringSubmatch r s = map_option snd (find (\<lambda>(rest, _). rest = []) (rx_match r s))"

abbreviation digits_rx :: rx where
  "digits_rx \<equiv> plus_of (One isDigit)"

abbreviation separator_rx :: rx where
  "separator_rx \<equiv> One (\<lambda>c. c = CHR ''-'' \<or> c = CHR ''_'' \<or> c = CHR ''.'')"

definition isLocal :: "char \<Rightarrow> bool" where
  "isLocal c \<longleftrightarrow> (CHR ''a'' \<le> c \<and> c \<le> CHR ''z'') \<or> isDigit c"

definition pypiVersionPattern :: rx where
  "pypiVersionPattern = seq [
     Opt (literal ''v''),
     Opt (seq [Group ''epoch'' digits_rx, literal ''!'']),
     Group ''release'' (seq [digits_rx, Star (seq [literal ''.'', digits_rx])]),
     Opt (seq [Opt separator_rx,
       Group ''pre_l'' (either [''alpha'', ''a'', ''beta'', ''b'', ''preview'', ''pre'', ''c'', ''rc'']),
       Opt separator_rx, Opt (Group ''pre_n'' digits_rx)]),
     Opt (Alt (seq [literal ''-'', Group ''post_n1'' digits_rx])
       (seq [Opt separator_rx, Group ''post_l'' (either [''post'', ''rev'', ''r'']),
         Opt separator_rx, Opt (Group ''post_n2'' digits_rx)])),
     Opt (Group ''dev'' (seq [Opt separator_rx, literal ''dev'', Opt separator_rx,
       Opt (Group ''dev_n'' digits_rx)])),
     Opt (seq [literal ''+'', Group ''local'' (seq [plus_of (One isLocal),
       Star (seq [separator_rx, plus_of (One isLocal)])])])]"

subsection \<open>Reading\<close>

definition pypiPreDevOnly :: int where "pypiPreDevOnly = -1"
definition pypiPreAlpha :: int where "pypiPreAlpha = 0"
definition pypiPreBeta :: int where "pypiPreBeta = 1"
definition pypiPreRC :: int where "pypiPreRC = 2"
definition pypiPreNone :: int where "pypiPreNone = 3"

lemmas pypi_pre_defs = pypiPreDevOnly_def pypiPreAlpha_def pypiPreBeta_def pypiPreRC_def pypiPreNone_def

definition pypiPreRanks :: "string \<Rightarrow> int" where
  "pypiPreRanks letter = (case map_of
     [(''alpha'', pypiPreAlpha), (''a'', pypiPreAlpha), (''beta'', pypiPreBeta), (''b'', pypiPreBeta),
      (''c'', pypiPreRC), (''pre'', pypiPreRC), (''preview'', pypiPreRC), (''rc'', pypiPreRC)] letter of
     Some r \<Rightarrow> r | None \<Rightarrow> 0)"

record pypiLocalPart =
  numeric :: bool
  text_of :: string

record pypiVersion =
  py_epoch :: string
  py_release :: "string list"
  preRank :: int
  preN :: string
  postRank :: int
  postN :: string
  devRank :: int
  devN :: string
  py_local :: "pypiLocalPart list"
  hasLocal :: bool

definition pypiNumber :: "string \<Rightarrow> string" where
  "pypiNumber n = (if n = [] then ''0'' else n)"

text \<open>\<^verbatim>\<open>strings.FieldsFunc\<close>: the non-empty runs between the bytes a predicate names.\<close>

fun fields_func :: "(char \<Rightarrow> bool) \<Rightarrow> string \<Rightarrow> string \<Rightarrow> string list" where
  "fields_func p run [] = (if run = [] then [] else [run])"
| "fields_func p run (c # cs) =
    (if p c then (if run = [] then [] else [run]) @ fields_func p [] cs
     else fields_func p (run @ [c]) cs)"

definition py_lower :: "string \<Rightarrow> string" where
  "py_lower = map (\<lambda>c. if CHR ''A'' \<le> c \<and> c \<le> CHR ''Z'' then char_of (byte c + 32) else c)"

definition drop_zero_tail :: "string list \<Rightarrow> string list" where
  "drop_zero_tail segments = rev (dropWhile (\<lambda>n. trim_zeros n = []) (rev segments))"

definition pypiRead :: "string \<Rightarrow> pypiVersion option" where
  "pypiRead v =
    (if \<not> list_all (\<lambda>c. byte c < 128) v then None
     else case FindStringSubmatch pypiVersionPattern (py_lower v) of None \<Rightarrow> None
     | Some found \<Rightarrow>
         let part = (\<lambda>name. case map_of found name of Some t \<Rightarrow> t | None \<Rightarrow> []);
             read = \<lparr>py_epoch = (if part ''epoch'' = [] then ''0'' else part ''epoch''),
               py_release = drop_zero_tail (split_on CHR ''.'' (part ''release'')),
               preRank = pypiPreNone, preN = [], postRank = 0, postN = [], devRank = 1, devN = [],
               py_local = [], hasLocal = False\<rparr>;
             read = (if part ''pre_l'' \<noteq> [] then
                 read\<lparr>preRank := pypiPreRanks (part ''pre_l''), preN := pypiNumber (part ''pre_n'')\<rparr> else read);
             read = (if part ''post_n1'' \<noteq> [] then read\<lparr>postRank := 1, postN := part ''post_n1''\<rparr>
                 else if part ''post_l'' \<noteq> [] then
                   read\<lparr>postRank := 1, postN := pypiNumber (part ''post_n2'')\<rparr> else read);
             read = (if part ''dev'' \<noteq> [] then
                 read\<lparr>devRank := 0, devN := pypiNumber (part ''dev_n'')\<rparr> else read);
             read = (if preRank read = pypiPreNone \<and> postRank read = 0 \<and> devRank read = 0 then
                 read\<lparr>preRank := pypiPreDevOnly\<rparr> else read)
         in Some (if part ''local'' \<noteq> [] then
              read\<lparr>hasLocal := True, py_local := map (\<lambda>segment. \<lparr>numeric = digits segment, text_of = segment\<rparr>)
                (fields_func (\<lambda>c. c = CHR ''.'' \<or> c = CHR ''-'' \<or> c = CHR ''_'') [] (part ''local''))\<rparr>
            else read))"

subsection \<open>Comparing\<close>

definition pypiRelease :: "string list \<Rightarrow> string list \<Rightarrow> int" where
  "pypiRelease = while_both compareNumeric"

definition pypi_segment :: "pypiLocalPart \<Rightarrow> pypiLocalPart \<Rightarrow> int" where
  "pypi_segment one two =
    (if numeric one \<noteq> numeric two then (if numeric one then 1 else -1)
     else if numeric one then compareNumeric (text_of one) (text_of two)
     else sign (strings_compare (text_of one) (text_of two)))"

definition pypiLocal :: "pypiVersion \<Rightarrow> pypiVersion \<Rightarrow> int" where
  "pypiLocal a b =
    (if hasLocal a \<noteq> hasLocal b then (if hasLocal a then 1 else -1)
     else while_both pypi_segment (py_local a) (py_local b))"

definition pypi_cmp :: "pypiVersion \<Rightarrow> pypiVersion \<Rightarrow> int" where
  "pypi_cmp left right =
    orelse (compareNumeric (py_epoch left) (py_epoch right))
    (orelse (pypiRelease (py_release left) (py_release right))
    (orelse (sign (preRank left - preRank right))
    (orelse (compareNumeric (preN left) (preN right))
    (orelse (sign (postRank left - postRank right))
    (orelse (compareNumeric (postN left) (postN right))
    (orelse (sign (devRank left - devRank right))
    (orelse (compareNumeric (devN left) (devN right))
    (pypiLocal left right))))))))"

definition pypiOrder :: "string \<Rightarrow> string \<Rightarrow> int option" where
  "pypiOrder a b = (case (pypiRead a, pypiRead b) of
     (Some left, Some right) \<Rightarrow> Some (pypi_cmp left right)
   | _ \<Rightarrow> None)"

lemma comparison_pypi_segment: "comparison pypi_segment"
proof -
  let ?c = "\<lambda>n one two. if n then compareNumeric (text_of one) (text_of two)
    else strings_compare (text_of one) (text_of two)"
  have eq: "pypi_segment = (\<lambda>a b. orelse (cmp_of (numeric a) (numeric b)) (?c (numeric a) a b))"
    by (auto simp: fun_eq_iff pypi_segment_def cmp_of_def)
  have "comparison (?c n)" for n
    using comparison_compareNumeric [of text_of] comparison_strings_compare [of text_of]
    by (cases n) simp_all
  then show ?thesis unfolding eq by (rule comparison_by_kind [of ?c numeric])
qed

lemma comparison_pypiLocal: "comparison pypiLocal"
proof -
  have eq: "pypiLocal = (\<lambda>a b. orelse (cmp_of (hasLocal a) (hasLocal b))
      (lex_cmp pypi_segment (py_local a) (py_local b)))"
    by (auto simp: fun_eq_iff pypiLocal_def cmp_of_def while_both_lex)
  show ?thesis
    unfolding eq
    by (intro comparison_orelse comparison_cmp_of comparison_lex_cmp comparison_pull [of "lex_cmp pypi_segment" py_local]
      comparison_pypi_segment)
qed

interpretation pypi: keyed_scheme pypi_cmp pypiOrder pypiRead
proof (intro keyed_scheme.intro keyed_scheme_axioms.intro)
  show "comparison pypi_cmp"
    unfolding pypi_cmp_def [abs_def] pypiRelease_def while_both_lex
    by (intro comparison_orelse comparison_compareNumeric comparison_sign_difference comparison_pypiLocal
      comparison_pull [of "lex_cmp compareNumeric" py_release] comparison_lex_cmp
      comparison_compareNumeric [of "\<lambda>x. x"])
  show "pypiOrder a b = (case pypiRead a of None \<Rightarrow> None
      | Some x \<Rightarrow> (case pypiRead b of None \<Rightarrow> None | Some y \<Rightarrow> Some (pypi_cmp x y)))" for a b
    by (simp add: pypiOrder_def split: option.splits)
qed

end
