(* ===== verification/Vercmp_Maven.thy ===== *)
theory Vercmp_Maven
  imports Vercmp_Base
begin

section \<open>Maven versions\<close>

text \<open>
  \<^verbatim>\<open>internal/vercmp/maven.go\<close>: a version as a tree of numbers, words and levels, its reading,
  its trimming, the comparison of two trees and the question whether a version leads to a
  release. The comparison is not an order, as the source says of it, so the scheme is an
  instance of the weaker interface only, and its users rely on nothing more.
\<close>

datatype mavenItem = mavenNumber string | mavenWord string | mavenLevel "mavenItem list"

definition mavenWords :: "string list" where
  "mavenWords = [''alpha'', ''beta'', ''milestone'', ''rc'', ''snapshot'', '''', ''sp'']"

definition mavenAliases :: "string \<Rightarrow> string option" where
  "mavenAliases = map_of [(''ga'', ''''), (''final'', ''''), (''release'', ''''), (''cr'', ''rc'')]"

text \<open>A word's place in the order, as the decimal text of its index.\<close>

fun maven_rank_from :: "nat \<Rightarrow> string list \<Rightarrow> string \<Rightarrow> string option" where
  "maven_rank_from at [] word = None"
| "maven_rank_from at (known # ws) word =
    (if word = known then Some (itoa at) else maven_rank_from (Suc at) ws word)"

definition mavenRank :: "string \<Rightarrow> string" where
  "mavenRank word = (case maven_rank_from 0 mavenWords word of
     Some rank \<Rightarrow> rank | None \<Rightarrow> itoa (length mavenWords) @ ''-'' @ word)"

definition mavenRelease :: string where
  "mavenRelease = mavenRank ''''"

definition mavenIsVersion :: "string \<Rightarrow> bool" where
  "mavenIsVersion v \<longleftrightarrow> v \<noteq> [] \<and> isDigit (hd v)
     \<and> list_all (\<lambda>c. isDigit c \<or> isLetter c \<or> c = CHR ''.'' \<or> c = CHR ''-'' \<or> c = CHR ''_'' \<or> c = CHR ''+'') v"

text \<open>\<^verbatim>\<open>strings.ToLower\<close>, on strings \<^const>\<open>mavenIsVersion\<close> accepts, which are ASCII.\<close>

definition maven_lower :: "string \<Rightarrow> string" where
  "maven_lower = map (\<lambda>c. if CHR ''A'' \<le> c \<and> c \<le> CHR ''Z'' then char_of (byte c + 32) else c)"

subsection \<open>Reading\<close>

definition mavenWordItem :: "string \<Rightarrow> bool \<Rightarrow> mavenItem" where
  "mavenWordItem word beforeNumber =
    (let word = (if beforeNumber \<and> length word = 1 then
                   (if word = ''a'' then ''alpha'' else if word = ''b'' then ''beta''
                    else if word = ''m'' then ''milestone'' else word)
                 else word)
     in mavenWord (case mavenAliases word of Some alias \<Rightarrow> alias | None \<Rightarrow> word))"

definition mavenOne :: "bool \<Rightarrow> string \<Rightarrow> mavenItem" where
  "mavenOne inDigits text =
    (if inDigits then mavenNumber (if trim_zeros text = [] then ''0'' else trim_zeros text)
     else mavenWordItem text False)"

definition silent :: "mavenItem \<Rightarrow> bool" where
  "silent m = (case m of
     mavenNumber n \<Rightarrow> trim_zeros n = []
   | mavenWord w \<Rightarrow> mavenRank w = mavenRelease
   | mavenLevel items \<Rightarrow> items = [])"

text \<open>The loop of \<^verbatim>\<open>trim\<close> runs from the last item, so over the reversed list.\<close>

fun trim_back :: "mavenItem list \<Rightarrow> mavenItem list" where
  "trim_back [] = []"
| "trim_back (item # items) =
    (if silent item then trim_back items
     else (case item of mavenLevel _ \<Rightarrow> item # trim_back items | _ \<Rightarrow> item # items))"

definition trim :: "mavenItem list \<Rightarrow> mavenItem list" where
  "trim items = rev (trim_back (rev items))"

text \<open>
  The levels the reader has opened, innermost first. In the source a level is a pointer held both
  in \<^verbatim>\<open>opened\<close> and as the last item of the level that opened it, and nothing is appended to a
  level once a deeper one is open, so the last item stays implicit until the levels are closed.
  \<open>run\<close> is \<^verbatim>\<open>v[start:i]\<close>.
\<close>

fun maven_append :: "mavenItem \<Rightarrow> mavenItem list list \<Rightarrow> mavenItem list list" where
  "maven_append x (level # outer) = (level @ [x]) # outer"
| "maven_append x [] = [[x]]"

definition maven_open :: "mavenItem list list \<Rightarrow> mavenItem list list" where
  "maven_open opened = [] # opened"

definition maven_open_filled :: "mavenItem list list \<Rightarrow> mavenItem list list" where
  "maven_open_filled opened = (if opened \<noteq> [] \<and> hd opened \<noteq> [] then maven_open opened else opened)"

fun maven_scan :: "bool \<Rightarrow> string \<Rightarrow> mavenItem list list \<Rightarrow> string \<Rightarrow> mavenItem list list" where
  "maven_scan inDigits run opened [] =
    (if run = [] then opened
     else maven_append (mavenOne inDigits run)
            (if \<not> inDigits then maven_open_filled opened else opened))"
| "maven_scan inDigits run opened (c # cs) =
    (if c = CHR ''.'' \<or> c = CHR ''-'' then
       let opened = maven_append (if run = [] then mavenNumber ''0'' else mavenOne inDigits run) opened
       in maven_scan inDigits [] (if c = CHR ''-'' then maven_open opened else opened) cs
     else if isDigit c then
       (if \<not> inDigits \<and> run \<noteq> [] then
          maven_scan True [c]
            (maven_open (maven_append (mavenWordItem run True) (maven_open_filled opened))) cs
        else maven_scan True (run @ [c]) opened cs)
     else
       (if inDigits \<and> run \<noteq> [] then
          maven_scan False [c] (maven_open (maven_append (mavenOne True run) opened)) cs
        else maven_scan False (run @ [c]) opened cs))"

fun maven_close :: "mavenItem list list \<Rightarrow> mavenItem" where
  "maven_close [] = mavenLevel []"
| "maven_close [root] = mavenLevel (trim root)"
| "maven_close (level # outer # opened) = maven_close ((outer @ [mavenLevel (trim level)]) # opened)"

definition mavenRead :: "string \<Rightarrow> mavenItem" where
  "mavenRead v = maven_close (maven_scan False [] [[]] (maven_lower v))"

subsection \<open>Comparing\<close>

text \<open>\<^const>\<open>None\<close> is the absent item, \<^verbatim>\<open>nil\<close> in the source.\<close>

function mavenCompare :: "mavenItem \<Rightarrow> mavenItem option \<Rightarrow> int"
  and maven_each :: "mavenItem list \<Rightarrow> int"
  and mavenLevels :: "mavenItem list \<Rightarrow> mavenItem list \<Rightarrow> int" where
  "mavenCompare (mavenNumber n) None = (if trim_zeros n = [] then 0 else 1)"
| "mavenCompare (mavenNumber n) (Some (mavenNumber m)) = compareNumeric n m"
| "mavenCompare (mavenNumber n) (Some (mavenWord _)) = 1"
| "mavenCompare (mavenNumber n) (Some (mavenLevel _)) = 1"
| "mavenCompare (mavenWord w) None = sign (strings_compare (mavenRank w) mavenRelease)"
| "mavenCompare (mavenWord w) (Some (mavenWord u)) = sign (strings_compare (mavenRank w) (mavenRank u))"
| "mavenCompare (mavenWord w) (Some (mavenNumber _)) = -1"
| "mavenCompare (mavenWord w) (Some (mavenLevel _)) = -1"
| "mavenCompare (mavenLevel items) None = maven_each items"
| "mavenCompare (mavenLevel items) (Some (mavenNumber _)) = -1"
| "mavenCompare (mavenLevel items) (Some (mavenWord _)) = 1"
| "mavenCompare (mavenLevel items) (Some (mavenLevel others)) = mavenLevels items others"
| "maven_each [] = 0"
| "maven_each (each # items) = orelse (mavenCompare each None) (maven_each items)"
| "mavenLevels [] [] = 0"
| "mavenLevels (left # a) [] = orelse (mavenCompare left None) (mavenLevels a [])"
| "mavenLevels [] (right # b) = orelse (- mavenCompare right None) (mavenLevels [] b)"
| "mavenLevels (left # a) (right # b) = orelse (mavenCompare left (Some right)) (mavenLevels a b)"
  by pat_completeness auto
termination
  by (relation "measure (case_sum (\<lambda>(a, b). size a + (case b of None \<Rightarrow> 0 | Some x \<Rightarrow> size x))
        (case_sum (size_list size) (\<lambda>(xs, ys). size_list size xs + size_list size ys)))") simp_all

definition mavenOrder :: "string \<Rightarrow> string \<Rightarrow> int option" where
  "mavenOrder a b = (if \<not> mavenIsVersion a \<or> \<not> mavenIsVersion b then None
     else Some (mavenCompare (mavenRead a) (Some (mavenRead b))))"

definition mavenUnfinished :: "string \<Rightarrow> bool" where
  "mavenUnfinished w \<longleftrightarrow> w \<in> set [''preview'', ''pre'', ''ea'', ''eap'', ''dev'']"

fun leads :: "mavenItem \<Rightarrow> bool" where
  "leads (mavenWord w) \<longleftrightarrow> strings_compare (mavenRank w) mavenRelease < 0 \<or> mavenUnfinished w"
| "leads (mavenLevel items) \<longleftrightarrow> list_ex leads items"
| "leads (mavenNumber n) \<longleftrightarrow> False"

subsection \<open>What the comparison does promise\<close>

definition three_way :: "int \<Rightarrow> bool" where
  "three_way x \<longleftrightarrow> x = -1 \<or> x = 0 \<or> x = 1"

lemma three_way_basic [simp]: "three_way (-1)" "three_way 0" "three_way 1" "three_way (- x) = three_way x"
  "three_way (sign x)" "three_way c \<Longrightarrow> three_way d \<Longrightarrow> three_way (orelse c d)"
  by (auto simp: three_way_def sign_def orelse_def)

lemma strings_compare_swap: "strings_compare b a = - strings_compare a b"
  using comparison.swap [OF comparison_strings_compare [of "\<lambda>x. x"], of b a] by simp

lemma compareNumeric_swap: "compareNumeric b a = - compareNumeric a b"
  using comparison.swap [OF comparison_compareNumeric [of "\<lambda>x. x"], of b a] by simp

lemma three_way_compareNumeric [simp]: "three_way (compareNumeric a b)"
  using comparison.signs [OF comparison_compareNumeric [of "\<lambda>x. x"], of a b] by (simp add: three_way_def)

lemma maven_answers:
  "three_way (mavenCompare a b)" "three_way (maven_each xs)" "three_way (mavenLevels xs ys)"
  by (induction a b and xs and xs ys rule: mavenCompare_maven_each_mavenLevels.induct)
     (simp_all del: sign_strings_compare)

text \<open>The two arms of the loop over two levels mirror each other.\<close>

lemma maven_levels_nothing: "mavenLevels [] ys = - mavenLevels ys []"
  by (induction ys) (auto simp: orelse_def)

lemma maven_swap:
  "b = Some d \<Longrightarrow> mavenCompare d (Some a) = - mavenCompare a b"
  "True"
  "mavenLevels ys xs = - mavenLevels xs ys"
proof (induction a b and xs and xs ys arbitrary: d rule: mavenCompare_maven_each_mavenLevels.induct)
  case (2 n m)
  then show ?case using compareNumeric_swap [of m n] by auto
next
  case (6 w u)
  then show ?case using strings_compare_swap [of "mavenRank u" "mavenRank w"] by auto
next
  case (16 left a)
  show ?case using maven_levels_nothing [of "left # a"] by simp
next
  case (17 right b)
  show ?case using maven_levels_nothing [of "right # b"] by simp
next
  case (18 left a right b)
  then show ?case by (auto simp: orelse_def)
qed auto

interpretation maven: version_scheme mavenOrder mavenIsVersion
proof (unfold_locales, goal_cases)
  case (1 a b)
  show ?case by (simp add: mavenOrder_def)
next
  case (2 a b x)
  then show ?case using maven_answers(1) [of "mavenRead a" "Some (mavenRead b)"]
    by (auto simp: mavenOrder_def three_way_def split: if_splits)
next
  case (3 b a)
  show ?case using maven_swap(1) [of "Some (mavenRead a)" "mavenRead a" "mavenRead b"]
    by (simp add: mavenOrder_def)
qed

end
