(* ===== verification/Vercmp_Nuget.thy ===== *)
theory Vercmp_Nuget
  imports Vercmp_Base
begin

section \<open>NuGet versions\<close>

text \<open>
  \<^verbatim>\<open>internal/vercmp/nuget.go\<close>: one to four numbers that fit 32 bits, release labels compared
  without regard to case, metadata checked and dropped. The source holds numbers in an
  \<^verbatim>\<open>int64\<close>; they are integers here, and \<open>nuget_step_fits\<close> shows that no accumulator the
  loops compute leaves the 64-bit range. \<^verbatim>\<open>strings.ToUpper\<close> is only ever applied to labels that
  \<^verbatim>\<open>nugetPart\<close> accepted, which are ASCII.
\<close>

definition nugetMost :: int where
  "nugetMost = 2 ^ 31 - 1"

record nugetVersion =
  numbers :: "int list"
  labels :: "string list"

definition sign64 :: "int \<Rightarrow> int" where
  "sign64 n = (if n < 0 then -1 else if n > 0 then 1 else 0)"

definition nugetSpace :: "char \<Rightarrow> bool" where
  "nugetSpace c \<longleftrightarrow> c = CHR '' '' \<or> (CHR 0x09 \<le> c \<and> c \<le> CHR 0x0D)"

definition to_upper :: "string \<Rightarrow> string" where
  "to_upper = map (\<lambda>c. if CHR ''a'' \<le> c \<and> c \<le> CHR ''z'' then char_of (byte c - 32) else c)"

subsection \<open>Reading\<close>

text \<open>The digits of one number, refused as soon as the value does not fit.\<close>

fun nuget_digits :: "int \<Rightarrow> string \<Rightarrow> (int \<times> string) option" where
  "nuget_digits n [] = Some (n, [])"
| "nuget_digits n (c # cs) =
    (if \<not> isDigit c then Some (n, c # cs)
     else let n' = n * 10 + (byte c - 48) in
       if n' > nugetMost then None else nuget_digits n' cs)"

lemma nuget_digits_shorter: "nuget_digits n s = Some (m, s') \<Longrightarrow> length s' \<le> length s"
  by (induction n s rule: nuget_digits.induct) (auto simp: Let_def split: if_splits)

function nuget_numbers :: "nat \<Rightarrow> int list \<Rightarrow> string \<Rightarrow> int list option" where
  "nuget_numbers part into s =
    (if part = length into then None
     else let start = dropWhile nugetSpace s in
       case nuget_digits 0 start of None \<Rightarrow> None
       | Some (n, after) \<Rightarrow>
           if after = start then None
           else let into' = into[part := n]; s' = dropWhile nugetSpace after in
             (case s' of [] \<Rightarrow> Some into'
              | c # cs \<Rightarrow> if c \<noteq> CHR ''.'' \<or> cs = [] then None
                          else nuget_numbers (part + 1) into' cs))"
  by pat_completeness auto
termination
proof (relation "measure (\<lambda>(_, _, s). length s)", goal_cases)
  case (2 part into s start p n after into' s' c cs)
  then have "length after \<le> length start" using nuget_digits_shorter [of 0 start n after] by simp
  moreover have "length s' \<le> length after" "length start \<le> length s"
    using 2 by (simp_all add: length_dropWhile_le)
  moreover have "Suc (length cs) = length s'" using 2 by (metis length_Cons)
  ultimately show ?case by simp
qed simp

declare nuget_numbers.simps [simp del]

definition nugetNumbers :: "string \<Rightarrow> int list option" where
  "nugetNumbers s = nuget_numbers 0 [0, 0, 0, 0] s"

definition nugetPart :: "string \<Rightarrow> bool \<Rightarrow> bool" where
  "nugetPart s leadingZeros \<longleftrightarrow>
    s \<noteq> []
    \<and> \<not> (\<not> leadingZeros \<and> length s > 1 \<and> hd s = CHR ''0'' \<and> digits (tl s))
    \<and> list_all (\<lambda>c. isDigit c \<or> isLetter c \<or> c = CHR ''-'') s"

definition nugetRead :: "string \<Rightarrow> nugetVersion option" where
  "nugetRead v =
    (let outside = (\<lambda>c. c \<noteq> CHR ''-'' \<and> c \<noteq> CHR ''+'');
         rest = dropWhile outside v in
     case nugetNumbers (takeWhile outside v) of None \<Rightarrow> None
     | Some ns \<Rightarrow>
         let (labels, rest) =
           (if begins ''-'' rest then
              (case cut_first CHR ''+'' (tl rest) of
                 Some (front, after) \<Rightarrow> (split_on CHR ''.'' front, CHR ''+'' # after)
               | None \<Rightarrow> (split_on CHR ''.'' (tl rest), []))
            else ([], rest)) in
         if \<not> list_all (\<lambda>label. nugetPart label False) labels then None
         else if begins ''+'' rest
           \<and> \<not> list_all (\<lambda>part. nugetPart part True) (split_on CHR ''.'' (tl rest)) then None
         else Some \<lparr>numbers = ns, labels = labels\<rparr>)"

subsection \<open>Comparing\<close>

fun nuget_label_digits :: "int \<Rightarrow> string \<Rightarrow> int option" where
  "nuget_label_digits n [] = Some n"
| "nuget_label_digits n (c # cs) =
    (let n' = n * 10 + (byte c - 48) in
     if n' > nugetMost + 1 then None else nuget_label_digits n' cs)"

definition nugetLabelNumber :: "string \<Rightarrow> int option" where
  "nugetLabelNumber s =
    (let negative = begins ''-'' s; body = (if negative then tl s else s) in
     if \<not> digits body then None
     else case nuget_label_digits 0 body of None \<Rightarrow> None
       | Some n \<Rightarrow> let n = (if negative then - n else n) in
           if n > nugetMost then None else Some n)"

definition nugetLabel :: "string \<Rightarrow> string \<Rightarrow> int" where
  "nugetLabel a b = (case (nugetLabelNumber a, nugetLabelNumber b) of
     (Some x, Some y) \<Rightarrow> sign64 (x - y)
   | (Some x, None) \<Rightarrow> -1
   | (None, Some y) \<Rightarrow> 1
   | (None, None) \<Rightarrow> sign (strings_compare (to_upper a) (to_upper b)))"

text \<open>The label loop answers for the list that runs out first, as \<^const>\<open>lex_cmp\<close> does; the
  number loop runs over two arrays of four, where \<^const>\<open>lex_cmp\<close> never runs out.\<close>

definition nuget_cmp :: "nugetVersion \<Rightarrow> nugetVersion \<Rightarrow> int" where
  "nuget_cmp x y =
    orelse (lex_cmp (\<lambda>m n. sign64 (m - n)) (numbers x) (numbers y))
      (if labels x = [] \<and> labels y = [] then 0
       else if labels x = [] then 1
       else if labels y = [] then -1
       else lex_cmp nugetLabel (labels x) (labels y))"

definition nugetOrder :: "string \<Rightarrow> string \<Rightarrow> int option" where
  "nugetOrder a b = (case (nugetRead a, nugetRead b) of
     (Some x, Some y) \<Rightarrow> Some (nuget_cmp x y)
   | _ \<Rightarrow> None)"

subsection \<open>Bounds\<close>

lemma digit_bounds: "isDigit c \<Longrightarrow> 0 \<le> byte c - 48 \<and> byte c - 48 \<le> 9"
  by (simp add: isDigit_iff)

text \<open>What an accumulator holds front the test, from a value that passed it, fits 64 bits.\<close>

lemma nuget_step_fits:
  assumes "isDigit c" and "0 \<le> n" and "n \<le> nugetMost + 1"
  shows "0 \<le> n * 10 + (byte c - 48)" and "n * 10 + (byte c - 48) < 2 ^ 63"
  using digit_bounds [OF assms(1)] assms(2,3) by (simp_all add: nugetMost_def)

lemma nuget_digits_bounds:
  "nuget_digits n s = Some (m, s') \<Longrightarrow> 0 \<le> n \<Longrightarrow> n \<le> nugetMost \<Longrightarrow> 0 \<le> m \<and> m \<le> nugetMost"
proof (induction n s rule: nuget_digits.induct)
  case (2 n c cs)
  show ?case
  proof (cases "isDigit c")
    case True
    have "0 \<le> n * 10 + (byte c - 48)" using digit_bounds [OF True] "2.prems" by simp
    then show ?thesis using True "2.IH" "2.prems" by (auto simp: Let_def split: if_splits)
  qed (use 2 in auto)
qed auto

lemma nuget_numbers_bounds:
  "nuget_numbers part into s = Some ns \<Longrightarrow> \<forall>n \<in> set into. 0 \<le> n \<and> n \<le> nugetMost
    \<Longrightarrow> length ns = length into \<and> (\<forall>n \<in> set ns. 0 \<le> n \<and> n \<le> nugetMost)"
proof (induction part into s rule: nuget_numbers.induct)
  case (1 part into s)
  let ?start = "dropWhile nugetSpace s"
  from "1.prems"(1) obtain n after where part: "part \<noteq> length into"
    and read: "nuget_digits 0 ?start = Some (n, after)" and some: "after \<noteq> ?start"
    by (subst (asm) nuget_numbers.simps) (simp only: Let_def split: if_splits option.splits prod.splits; blast)
  let ?into = "into[part := n]" and ?rest = "dropWhile nugetSpace after"
  have here: "\<forall>x \<in> set ?into. 0 \<le> x \<and> x \<le> nugetMost"
    using nuget_digits_bounds [OF read] "1.prems"(2)
    by (auto simp: nugetMost_def dest!: subsetD [OF set_update_subset_insert])
  have turn: "nuget_numbers part into s = (case ?rest of [] \<Rightarrow> Some ?into
      | c # cs \<Rightarrow> if c \<noteq> CHR ''.'' \<or> cs = [] then None else nuget_numbers (part + 1) ?into cs)"
    using part some
    by (simp only: nuget_numbers.simps [of part into s] Let_def read option.case prod.case if_False)
  show ?case
  proof (cases ?rest)
    case Nil
    have "ns = ?into" using turn "1.prems"(1) unfolding Nil by simp
    then show ?thesis using here by simp
  next
    case (Cons c cs)
    then have go: "c = CHR ''.''" "cs \<noteq> []" "nuget_numbers (part + 1) ?into cs = Some ns"
      using turn "1.prems"(1) unfolding Cons by (simp_all split: if_splits)
    show ?thesis
      using "1.IH" [OF part refl read refl some refl refl Cons _ go(3) here] go by simp
  qed
qed

lemma nuget_cmp_orelse: "nuget_cmp x y =
    orelse (lex_cmp (\<lambda>m n. sign64 (m - n)) (numbers x) (numbers y))
      (orelse (cmp_of (labels x = []) (labels y = [])) (lex_cmp nugetLabel (labels x) (labels y)))"
  by (simp add: nuget_cmp_def cmp_of_def)

lemma sign64_cmp_of: "sign64 (x - y) = cmp_of x y"
  by (simp add: sign64_def cmp_of_def)

lemma comparison_nugetLabel: "comparison nugetLabel"
proof -
  let ?c = "\<lambda>word a b. if word then strings_compare (to_upper a) (to_upper b)
    else cmp_of (the (nugetLabelNumber a)) (the (nugetLabelNumber b))"
  have "nugetLabel = (\<lambda>a b. orelse (cmp_of (nugetLabelNumber a = None) (nugetLabelNumber b = None))
      (?c (nugetLabelNumber a = None) a b))"
    by (auto simp: fun_eq_iff nugetLabel_def cmp_of_def sign64_def split: option.splits)
  moreover have "comparison (?c word)" for word
    using comparison_strings_compare [of to_upper] comparison_cmp_of [of "\<lambda>a. the (nugetLabelNumber a)"]
    by (cases word) simp_all
  ultimately show ?thesis
    using comparison_by_kind [of ?c "\<lambda>a. nugetLabelNumber a = None"] by simp
qed

interpretation nuget: keyed_scheme nuget_cmp nugetOrder nugetRead
proof (intro keyed_scheme.intro keyed_scheme_axioms.intro)
  show "comparison nuget_cmp"
    unfolding nuget_cmp_orelse [abs_def] sign64_cmp_of
    by (intro comparison_orelse comparison_cmp_of comparison_pull [of "lex_cmp cmp_of" numbers]
        comparison_pull [of "lex_cmp nugetLabel" labels] comparison_lex_cmp comparison_nugetLabel
        comparison_cmp_of [of "\<lambda>x. x"])
  show "nugetOrder a b = (case nugetRead a of None \<Rightarrow> None
      | Some x \<Rightarrow> (case nugetRead b of None \<Rightarrow> None | Some y \<Rightarrow> Some (nuget_cmp x y)))" for a b
    by (simp add: nugetOrder_def split: option.splits)
qed

end
