(* ===== verification/Vercmp.thy ===== *)
theory Vercmp
  imports Vercmp_Debian Vercmp_Rpm Vercmp_Apk Vercmp_Semantic Vercmp_Pypi Vercmp_Maven Vercmp_Nuget
begin

section \<open>Version ordering: the package's interface\<close>

text \<open>
  \<^verbatim>\<open>Scheme\<close>, \<^verbatim>\<open>SchemeOf\<close>, \<^verbatim>\<open>Order\<close>, \<^verbatim>\<open>Reaches\<close> and \<^verbatim>\<open>Leads\<close> of
  \<^verbatim>\<open>internal/vercmp/vercmp.go\<close>, over the seven schemes of the sibling theories. Every lemma here
  rests on the interfaces the schemes are instances of and not on how any of them compares.
\<close>

datatype Scheme = Unordered | Debian | Semantic | RPM | APK | PyPI | Maven | NuGet

text \<open>
  \<^verbatim>\<open>strings.ToLower\<close> as far as a comparison with an ASCII name can see it: the ASCII capitals, and
  the two characters above ASCII whose lowering is an ASCII letter (U+0130 and U+212A). Every other
  character above ASCII lowers to one above ASCII.
\<close>

fun lower_name :: "string \<Rightarrow> string" where
  "lower_name [] = []"
| "lower_name (c # cs) =
    (if begins [CHR 0xC4, CHR 0xB0] (c # cs) then CHR ''i'' # lower_name (drop 1 cs)
     else if begins [CHR 0xE2, CHR 0x84, CHR 0xAA] (c # cs) then CHR ''k'' # lower_name (drop 2 cs)
     else (if CHR ''A'' \<le> c \<and> c \<le> CHR ''Z'' then char_of (byte c + 32) else c) # lower_name cs)"

definition SchemeOf :: "string \<Rightarrow> Scheme" where
  "SchemeOf ecosystem =
    (let name = lower_name (trim_space ecosystem) in
     if name = ''deb'' then Debian
     else if name \<in> {''golang'', ''npm'', ''cargo''} then Semantic
     else if name = ''rpm'' then RPM
     else if name = ''apk'' then APK
     else if name = ''pypi'' then PyPI
     else if name = ''maven'' then Maven
     else if name = ''nuget'' then NuGet
     else Unordered)"

definition longest :: nat where
  "longest = 4096"

definition Order :: "Scheme \<Rightarrow> string \<Rightarrow> string \<Rightarrow> int option" where
  "Order scheme a b =
    (let a = trim_space a; b = trim_space b in
     if a = [] \<or> b = [] then None
     else if length a > longest \<or> length b > longest then None
     else (case scheme of
         Debian \<Rightarrow> debianOrder a b
       | Semantic \<Rightarrow> semanticOrder a b
       | RPM \<Rightarrow> rpmOrder a b
       | APK \<Rightarrow> apkOrder a b
       | PyPI \<Rightarrow> pypiOrder a b
       | Maven \<Rightarrow> mavenOrder a b
       | NuGet \<Rightarrow> nugetOrder a b
       | Unordered \<Rightarrow> None))"

definition Reaches :: "Scheme \<Rightarrow> string \<Rightarrow> string \<Rightarrow> bool" where
  "Reaches scheme candidate wanted =
    (let candidate = trim_space candidate; wanted = trim_space wanted in
     if candidate = wanted then True
     else case Order scheme wanted candidate of Some c \<Rightarrow> c \<le> 0 | None \<Rightarrow> False)"

definition Leads :: "Scheme \<Rightarrow> string \<Rightarrow> bool option" where
  "Leads scheme v =
    (let v = trim_space v in
     if v = [] \<or> length v > longest then None
     else case scheme of
         Maven \<Rightarrow> if \<not> mavenIsVersion v then None else Some (leads (mavenRead v))
       | NuGet \<Rightarrow> (case nugetRead v of None \<Rightarrow> None | Some read \<Rightarrow> Some (labels read \<noteq> []))
       | _ \<Rightarrow> None)"

subsection \<open>Trimming twice\<close>

text \<open>
  \<^verbatim>\<open>Reaches\<close> trims what \<^verbatim>\<open>Order\<close> trims again, so the second trim must change nothing: what has no
  space at either end keeps none.
\<close>

lemma Order_trim [simp]: "Order scheme (trim_space a) b = Order scheme a b"
  "Order scheme a (trim_space b) = Order scheme a b"
  by (simp_all add: Order_def)

subsection \<open>The package as an instance of the schemes' interface\<close>

text \<open>A bound on what is read and a trim in front of it keep either contract.\<close>

definition bounded_order :: "(string \<Rightarrow> string \<Rightarrow> int option) \<Rightarrow> string \<Rightarrow> string \<Rightarrow> int option" where
  "bounded_order order a b =
    (if trim_space a = [] \<or> trim_space b = [] \<or> length (trim_space a) > longest
        \<or> length (trim_space b) > longest then None
     else order (trim_space a) (trim_space b))"

definition bounded :: "string \<Rightarrow> bool" where
  "bounded v \<longleftrightarrow> trim_space v \<noteq> [] \<and> length (trim_space v) \<le> longest"

lemma bounded_order_alt: "bounded_order order a b =
    (if bounded a \<and> bounded b then order (trim_space a) (trim_space b) else None)"
  by (auto simp: bounded_order_def bounded_def)

context version_scheme
begin

lemma bounded_version: "version_scheme (bounded_order order) (\<lambda>v. bounded v \<and> accepts (trim_space v))"
proof (unfold_locales, goal_cases)
  case (1 a b)
  show ?case using answers [of "trim_space a" "trim_space b"] by (auto simp: bounded_order_alt)
next
  case (2 a b x)
  then show ?case using answer_signs by (auto simp: bounded_order_alt split: if_splits)
next
  case (3 b a)
  show ?case using answer_swap [of "trim_space b" "trim_space a"] by (auto simp: bounded_order_alt)
qed

end

context ordered_scheme
begin

lemma bounded_ordered: "ordered_scheme (bounded_order order) (\<lambda>v. bounded v \<and> accepts (trim_space v))"
proof (intro ordered_scheme.intro bounded_version, unfold_locales, goal_cases)
  case (1 a b x c y)
  then show ?case using answer_trans by (auto simp: bounded_order_alt split: if_splits)
qed

end

text \<open>No version of the unordered scheme is accepted, which is an ordered scheme too.\<close>

interpretation unordered: ordered_scheme "\<lambda>_ _. None" "\<lambda>_. False"
  by unfold_locales auto

definition accepted :: "Scheme \<Rightarrow> string \<Rightarrow> bool" where
  "accepted scheme v = (case scheme of
       Debian \<Rightarrow> splitDebian v \<noteq> None
     | Semantic \<Rightarrow> splitSemantic v \<noteq> None
     | RPM \<Rightarrow> splitRPM v \<noteq> None
     | APK \<Rightarrow> apkValid v
     | PyPI \<Rightarrow> pypiRead v \<noteq> None
     | Maven \<Rightarrow> mavenIsVersion v
     | NuGet \<Rightarrow> nugetRead v \<noteq> None
     | Unordered \<Rightarrow> False)"

lemma Order_bounded: "Order Debian = bounded_order debianOrder" "Order Semantic = bounded_order semanticOrder"
  "Order RPM = bounded_order rpmOrder" "Order APK = bounded_order apkOrder"
  "Order PyPI = bounded_order pypiOrder" "Order Maven = bounded_order mavenOrder"
  "Order NuGet = bounded_order nugetOrder" "Order Unordered = bounded_order (\<lambda>_ _. None)"
  by (auto simp: fun_eq_iff Order_def bounded_order_def Let_def)

lemma apkRead_iff: "(apkRead v \<noteq> None) = apkValid v"
  by (simp add: apkRead_def)

lemma Order_is_version_scheme:
  "version_scheme (Order scheme) (\<lambda>v. bounded v \<and> accepted scheme (trim_space v))"
  by (cases scheme; simp only: Order_bounded accepted_def Scheme.case)
     (rule unordered.bounded_version debian.bounded_version
       semantic.bounded_version rpm.bounded_version
       apk.bounded_version [unfolded apkRead_iff]
       pypi.bounded_version maven.bounded_version
       nuget.bounded_version)+

interpretation any: version_scheme "Order scheme" "\<lambda>v. bounded v \<and> accepted scheme (trim_space v)" for scheme
  by (rule Order_is_version_scheme)

lemma Order_is_ordered_scheme:
  assumes "scheme \<noteq> Maven"
  shows "ordered_scheme (Order scheme) (\<lambda>v. bounded v \<and> accepted scheme (trim_space v))"
  using assms
  by (cases scheme; simp only: Order_bounded accepted_def Scheme.case)
     (rule unordered.bounded_ordered debian.bounded_ordered
       semantic.bounded_ordered rpm.bounded_ordered
       apk.bounded_ordered [unfolded apkRead_iff]
       pypi.bounded_ordered nuget.bounded_ordered | simp)+

lemma Reaches_iff: "Reaches scheme candidate wanted \<longleftrightarrow>
    trim_space candidate = trim_space wanted \<or> (\<exists>c \<le> 0. Order scheme wanted candidate = Some c)"
  by (auto simp: Reaches_def Let_def split: option.splits)

lemma Order_same_trim: "trim_space a = trim_space b \<Longrightarrow> Order scheme a c = Order scheme b c"
  "trim_space a = trim_space b \<Longrightarrow> Order scheme c a = Order scheme c b"
  by (metis Order_trim)+

lemma Reaches_transitive:
  assumes "scheme \<noteq> Maven" and ab: "Reaches scheme a b" and bc: "Reaches scheme b c"
  shows "Reaches scheme a c"
proof -
  note trans = ordered_scheme.answer_trans [OF Order_is_ordered_scheme [OF assms(1)]]
  consider "trim_space a = trim_space b" | "trim_space b = trim_space c"
    | x y where "Order scheme b a = Some x" "x \<le> 0" "Order scheme c b = Some y" "y \<le> 0"
    using ab bc unfolding Reaches_iff by blast
  then show ?thesis
  proof cases
    case 1
    then show ?thesis using bc Order_same_trim(2) [OF 1, of scheme c] by (simp add: Reaches_iff)
  next
    case 2
    then show ?thesis using ab Order_same_trim(1) [OF 2, of scheme a] by (simp add: Reaches_iff)
  next
    case 3
    then show ?thesis using trans [OF 3(3,1,4,2)] by (auto simp: Reaches_iff)
  qed
qed

end
