(* ===== verification/Vercmp_Props.thy ===== *)
theory Vercmp_Props
  imports Vercmp
begin

section \<open>What version ordering promises\<close>

text \<open>
  C8: every scheme but Maven's orders versions transitively, whatever the two strings around the
  middle one are: what is not above it on one side is not above what it is not above on the other,
  and the answer is never withheld.
\<close>

theorem versions_are_ordered:
  assumes "scheme \<noteq> Maven"
    and "Order scheme a b = Some x" and "Order scheme b c = Some y" and "x \<le> 0" and "y \<le> 0"
  shows "\<exists>z \<le> 0. Order scheme a c = Some z"
  using ordered_scheme.answer_trans [OF Order_is_ordered_scheme [OF assms(1)] assms(2-5)] .

lemma debian_samples: "Order Debian ''1.0~rc1'' ''1.0'' = Some (-1)" "Order Debian ''1.0'' ''1:0.9'' = Some (-1)"
  by code_simp+

theorem versions_are_ordered_witness: "\<exists>z \<le> 0. Order Debian ''1.0~rc1'' ''1:0.9'' = Some z"
  by (rule versions_are_ordered [OF _ debian_samples]) simp_all

text \<open>
  Under every scheme, swapping two versions negates the answer, an answer is one of the three
  signs, and it is refused exactly where one of the two, trimmed, is empty, longer than the bound
  or not a version of the scheme.
\<close>

theorem order_answers_and_negates:
  "Order scheme b a = map_option uminus (Order scheme a b)
    \<and> Order scheme a b \<in> {None, Some (-1), Some 0, Some 1}
    \<and> (Order scheme a b = None \<longleftrightarrow> \<not> (bounded a \<and> accepted scheme (trim_space a)
          \<and> bounded b \<and> accepted scheme (trim_space b)))"
  using any.answer_swap [of scheme b a] any.answer_signs [of scheme a b] any.answers [of scheme a b]
  by (cases "Order scheme a b") auto

text \<open>
  Whether a candidate reaches a version is a preorder under every scheme but Maven's: a version
  reaches itself, and what reaches a version that reaches a third reaches the third. Under every
  scheme, two versions that reach each other are spelled alike or compare equal.
\<close>

theorem reaching_is_a_preorder:
  assumes "scheme \<noteq> Maven" and "Reaches scheme a b" and "Reaches scheme b c"
  shows "Reaches scheme a c \<and> Reaches scheme a a
    \<and> (\<not> Reaches scheme b a \<or> trim_space a = trim_space b \<or> Order scheme a b = Some 0)"
proof -
  have "Reaches scheme a a" by (simp add: Reaches_iff)
  moreover have "trim_space a = trim_space b \<or> Order scheme a b = Some 0" if "Reaches scheme b a"
    using that assms(2) any.answer_swap [of scheme b a] by (fastforce simp: Reaches_iff)
  ultimately show ?thesis using Reaches_transitive [OF assms] by blast
qed

theorem reaching_is_a_preorder_witness: "Reaches Debian ''1:0.9'' ''1.0~rc1''"
proof -
  have "Reaches Debian ''1:0.9'' ''1.0''" "Reaches Debian ''1.0'' ''1.0~rc1''" by code_simp+
  with reaching_is_a_preorder [of Debian] show ?thesis by blast
qed

text \<open>
  Nothing is said to reach a version on no evidence: where the scheme is not known, or one of
  the two is not a version of it, only the same spelling reaches.
\<close>

theorem reaching_needs_an_order:
  assumes "scheme = Unordered \<or> \<not> accepted scheme (trim_space a) \<or> \<not> accepted scheme (trim_space b)"
  shows "Reaches scheme a b \<longleftrightarrow> trim_space a = trim_space b"
  using assms any.answers [of scheme b a] by (auto simp: Reaches_iff accepted_def)

theorem reaching_needs_an_order_witness: "\<not> Reaches Semantic ''latest'' ''1.2.3'' \<and> \<not> Reaches Unordered ''2'' ''1''"
proof -
  have "\<not> accepted Semantic (trim_space ''latest'')" "trim_space ''latest'' \<noteq> trim_space ''1.2.3''"
    "trim_space ''2'' \<noteq> trim_space ''1''" by code_simp+
  then show ?thesis using reaching_needs_an_order [of Semantic "''latest''" "''1.2.3''"]
      reaching_needs_an_order [of Unordered "''2''" "''1''"] by simp
qed

text \<open>
  Maven's comparison is no order, as the source says of it: three versions each below the next
  in a circle.
\<close>

theorem maven_versions_run_in_a_circle:
  "Order Maven ''1'' ''1-1'' = Some (-1) \<and> Order Maven ''1-1'' ''1.0.alpha.1'' = Some (-1)
    \<and> Order Maven ''1.0.alpha.1'' ''1'' = Some (-1)"
  by code_simp

text \<open>
  Two runs of digits are compared as the numbers they denote, however long they are and
  however many zeros they begin with.
\<close>

theorem numbers_of_any_length:
  assumes "list_all isDigit a" and "list_all isDigit b"
  shows "compareNumeric a b = cmp_of (digits_value a) (digits_value b)"
  using assms by (rule compareNumeric_is_numeric)

theorem numbers_of_any_length_witness:
  "compareNumeric ''0099999999999999999999'' ''100000000000000000000'' = -1"
  by (subst numbers_of_any_length) (simp_all add: isDigit_iff byte_def digit_value_def cmp_of_def)

text \<open>
  The two-index walk over a Debian version part, with its skipped zeros and its first
  difference remembered, compares two lists of ranks and digit-run keys item by item, the shorter
  one continued with what the end of a part ranks as.
\<close>

theorem debian_parts_compare_by_their_keys:
  "comparePart a b = pad_cmp cmp_of 0 (part_key a) (part_key b)"
  by (rule comparePart_by_key)

text \<open>
  The walk over two RPM segments, with its skipped bytes, tildes, carets and runs, compares
  their token lists, the shorter one continued with the end.
\<close>

theorem rpm_segments_compare_by_their_tokens:
  "rpmSegment s t = pad_cmp rpm_token_cmp RpmEnd (rpm_tokens s) (rpm_tokens t)"
  by (rule rpmSegment_by_tokens)

text \<open>
  The two token readers of an Alpine comparison, stepped side by side while their token kinds
  agree, compare the two lists of what the tokens weigh, and a version is read at all exactly when
  its reader ends cleanly.
\<close>

theorem alpine_versions_compare_by_their_tokens:
  "apkOrder a b = (if apkValid a \<and> apkValid b
     then Some (pad_cmp apk_key_cmp apk_end_key (apk_keys (apkFirst a)) (apk_keys (apkFirst b)))
     else None)"
  using apk.by_key [of a b] by (auto simp: apkRead_def)

text \<open>
  The cut of a Debian or RPM version into epoch, version and release loses nothing: the pieces
  spell the version, the epoch is digits, the version begins with a digit and the release holds no
  hyphen.
\<close>

theorem a_version_is_cut_without_loss:
  assumes "splitEVR v = Some pieces"
  shows "spellEVR pieces = v \<and> digits (epoch pieces) \<and> version pieces \<noteq> [] \<and> isDigit (hd (version pieces))
    \<and> CHR ''-'' \<notin> set (release pieces)"
  using splitEVR_spells [OF assms] splitEVR_shape [OF assms] by blast

theorem a_version_is_cut_without_loss_witness:
  "spellEVR (the (splitEVR ''1:2.3-4-5'')) = ''1:2.3-4-5'' \<and> release (the (splitEVR ''1:2.3-4-5'')) = ''5''"
proof -
  have "map_option release (splitEVR ''1:2.3-4-5'') = Some ''5''" by code_simp
  then obtain p where p: "splitEVR ''1:2.3-4-5'' = Some p" "release p = ''5''" by auto
  then show ?thesis using a_version_is_cut_without_loss [OF p(1)] by simp
qed

text \<open>
  A NuGet version that leads to a release is below it: where two versions carry the same four
  numbers, and every number read is one a 32-bit integer holds, the one said to lead is below the
  one said not to.
\<close>

theorem a_leading_nuget_version_is_below_its_release:
  assumes "nugetRead (trim_space a) = Some x" and "nugetRead (trim_space b) = Some y"
    and "bounded a" and "bounded b" and "numbers x = numbers y"
    and "Leads NuGet a = Some True" and "Leads NuGet b = Some False"
  shows "Order NuGet a b = Some (-1) \<and> length (numbers x) = 4
    \<and> list_all (\<lambda>n. 0 \<le> n \<and> n < 2 ^ 31) (numbers x)"
proof -
  have "labels x \<noteq> []" "labels y = []"
    using assms by (auto simp: Leads_def bounded_def Let_def)
  moreover have "lex_cmp (\<lambda>m n. sign64 (m - n)) ns ns = 0" for ns
    by (induction ns) (simp_all add: sign64_def)
  ultimately have "nuget_cmp x y = -1" using assms(5) by (simp add: nuget_cmp_def)
  moreover have "nuget_numbers 0 [0, 0, 0, 0] (takeWhile (\<lambda>c. c \<noteq> CHR ''-'' \<and> c \<noteq> CHR ''+'') (trim_space a))
      = Some (numbers x)"
    using assms(1) by (auto simp: nugetRead_def nugetNumbers_def Let_def split: option.splits if_splits prod.splits)
  then have "length (numbers x) = 4 \<and> list_all (\<lambda>n. 0 \<le> n \<and> n < 2 ^ 31) (numbers x)"
    by (auto dest!: nuget_numbers_bounds simp: nugetMost_def list_all_iff)
  ultimately show ?thesis using assms(1-4) by (simp add: Order_bounded bounded_order_alt nugetOrder_def)
qed

theorem a_leading_nuget_version_is_below_its_release_witness:
  "Order NuGet ''1.0-beta'' ''1.0.0.0'' = Some (-1)"
proof -
  have "map_option numbers (nugetRead (trim_space ''1.0-beta'')) = Some [1, 0, 0, 0]"
    "map_option numbers (nugetRead (trim_space ''1.0.0.0'')) = Some [1, 0, 0, 0]" by code_simp+
  then obtain x y where "nugetRead (trim_space ''1.0-beta'') = Some x" "nugetRead (trim_space ''1.0.0.0'') = Some y"
    "numbers x = numbers y" by auto
  moreover have "bounded ''1.0-beta''" "bounded ''1.0.0.0''" "Leads NuGet ''1.0-beta'' = Some True"
    "Leads NuGet ''1.0.0.0'' = Some False" by code_simp+
  ultimately show ?thesis using a_leading_nuget_version_is_below_its_release by blast
qed

end
