(* ===== verification/Access.thy ===== *)
theory Access
  imports Prelude
begin

section \<open>Who is asking, and what they may reach\<close>

text \<open>
  \<^verbatim>\<open>internal/access/access.go\<close> and the narrowing of a subject by a token
  (\<^verbatim>\<open>internal/access/token.go\<close>): roles, visibilities, the subject with its constructors, every
  question asked of it, and the SQL condition a query is narrowed with. A Go map is an
  association list read through \<^const>\<open>at_key\<close> and \<^const>\<open>keys\<close>; \<^verbatim>\<open>int64\<close> identifiers are
  only compared, so they are integers.
\<close>

subsection \<open>Words\<close>

type_synonym Role = string
type_synonym Visibility = string

definition Approver :: Role where "Approver = ''approver''"
definition Assigner :: Role where "Assigner = ''assigner''"
definition PublicRead :: Role where "PublicRead = ''public-read''"
definition PrivateRead :: Role where "PrivateRead = ''private-read''"
definition SecurityTestingRead :: Role where "SecurityTestingRead = ''security-testing-read''"
definition PublicTriage :: Role where "PublicTriage = ''public-triage''"
definition PrivateTriage :: Role where "PrivateTriage = ''private-triage''"
definition SecurityTestingTriage :: Role where "SecurityTestingTriage = ''security-testing-triage''"

lemmas role_words = Approver_def Assigner_def PublicRead_def PrivateRead_def SecurityTestingRead_def
  PublicTriage_def PrivateTriage_def SecurityTestingTriage_def

definition Roles :: "Role list" where
  "Roles = [Approver, Assigner, PublicRead, PrivateRead, SecurityTestingRead, PublicTriage,
     PrivateTriage, SecurityTestingTriage]"

definition Role_Valid :: "Role \<Rightarrow> bool" where
  "Role_Valid r \<longleftrightarrow> list_ex (\<lambda>known. r = known) Roles"

definition Administers :: string where "Administers = ''admin''"
definition AuditsOver :: string where "AuditsOver = ''audit''"

definition OverTheDeployment :: "string list" where
  "OverTheDeployment = [Administers, AuditsOver]"

definition Over_Valid :: "string \<Rightarrow> bool" where
  "Over_Valid o' \<longleftrightarrow> list_ex (\<lambda>known. o' = known) OverTheDeployment"

definition Public :: Visibility where "Public = ''public''"
definition Private :: Visibility where "Private = ''private''"
definition SecurityTesting :: Visibility where "SecurityTesting = ''security-testing''"

lemmas visibility_words = Public_def Private_def SecurityTesting_def

lemma visibilities_differ [simp]:
  "Public \<noteq> Private" "Private \<noteq> Public" "Public \<noteq> SecurityTesting" "SecurityTesting \<noteq> Public"
  "Private \<noteq> SecurityTesting" "SecurityTesting \<noteq> Private"
  by (simp_all add: visibility_words)

definition Visibilities :: "Visibility list" where
  "Visibilities = [Public, Private, SecurityTesting]"

definition AsVisibility :: "string \<Rightarrow> Visibility" where
  "AsVisibility s = (if s = Public then Public else if s = SecurityTesting then SecurityTesting else Private)"

definition reading :: "Visibility \<Rightarrow> Role \<times> Role" where
  "reading v = (if v = Public then (PublicRead, PublicTriage)
     else if v = SecurityTesting then (SecurityTestingRead, SecurityTestingTriage)
     else (PrivateRead, PrivateTriage))"

datatype Kind = Person | Pipeline | Anonymous

datatype refused = ErrDenied string

definition Denied :: "string \<Rightarrow> refused" where
  "Denied what = ErrDenied what"

subsection \<open>The subject and its constructors\<close>

record Scope =
  ProductID :: int
  BranchOrTagID :: "int option"
  VariantID :: "int option"

record Subject =
  kind :: Kind
  subject_id :: int
  Identity :: string
  Admin :: bool
  Audits :: bool
  grants :: "(int \<times> Role list) list"
  scope :: "Scope option"
  unnarrowed :: bool
  delegated :: bool
  party :: int
  teams :: "int list"
  on_cases :: "(int \<times> int list) list"
  codeFindings :: "(int \<times> string list) list"
  casesReadOnly :: bool
  published :: "int list"

text \<open>Go's zero value, which every constructor fills in part.\<close>

definition zero_subject :: Subject where
  "zero_subject = \<lparr>kind = Person, subject_id = 0, Identity = [], Admin = False, Audits = False,
     grants = [], scope = None, unnarrowed = False, delegated = False, party = 0, teams = [],
     on_cases = [], codeFindings = [], casesReadOnly = False, published = []\<rparr>"

definition NewPerson :: "int \<Rightarrow> string \<Rightarrow> bool \<Rightarrow> (int \<times> Role list) list \<Rightarrow> int \<Rightarrow> int list \<Rightarrow> Subject" where
  "NewPerson i identity admin gs p ts = zero_subject\<lparr>kind := Person, subject_id := i,
     Identity := identity, Admin := admin, grants := gs, party := p, teams := ts\<rparr>"

definition OnCases :: "(int \<times> int list) list \<Rightarrow> Subject \<Rightarrow> Subject" where
  "OnCases cs s = s\<lparr>on_cases := cs\<rparr>"

definition OnCodeFindings :: "(int \<times> string list) list \<Rightarrow> Subject \<Rightarrow> Subject" where
  "OnCodeFindings fs s = s\<lparr>codeFindings := fs\<rparr>"

definition Auditing :: "Subject \<Rightarrow> Subject" where
  "Auditing s = s\<lparr>Audits := True\<rparr>"

definition NewPipeline :: "int \<Rightarrow> string \<Rightarrow> Scope \<Rightarrow> Subject" where
  "NewPipeline i name sc = zero_subject\<lparr>kind := Pipeline, subject_id := i, Identity := name, scope := Some sc\<rparr>"

definition Everything :: "string \<Rightarrow> Subject" where
  "Everything what = zero_subject\<lparr>kind := Person, Identity := what, unnarrowed := True\<rparr>"

definition Published :: "int list \<Rightarrow> Subject" where
  "Published products = zero_subject\<lparr>kind := Anonymous, Identity := ''anybody'', published := remdups products\<rparr>"

definition delegate :: "Subject \<Rightarrow> Subject" where
  "delegate s = s\<lparr>delegated := True\<rparr>"

subsection \<open>Questions about one case, one code finding, the deployment\<close>

definition OnCase :: "Subject \<Rightarrow> int \<Rightarrow> int \<Rightarrow> bool" where
  "OnCase s productID vulnerabilityID \<longleftrightarrow>
     kind s = Person \<and> list_ex (\<lambda>issue. issue = vulnerabilityID) (at_key (on_cases s) productID)"

definition OnCaseToAct :: "Subject \<Rightarrow> int \<Rightarrow> int \<Rightarrow> bool" where
  "OnCaseToAct s productID vulnerabilityID \<longleftrightarrow> \<not> casesReadOnly s \<and> OnCase s productID vulnerabilityID"

definition OnCodeFinding :: "Subject \<Rightarrow> int \<Rightarrow> string \<Rightarrow> bool" where
  "OnCodeFinding s productID occurrenceIdentity \<longleftrightarrow>
     kind s = Person \<and> list_ex (\<lambda>occurrence. occurrence = occurrenceIdentity) (at_key (codeFindings s) productID)"

definition CodeFindings :: "Subject \<Rightarrow> int \<Rightarrow> string list" where
  "CodeFindings s productID = (if kind s \<noteq> Person then [] else at_key (codeFindings s) productID)"

definition Cases :: "Subject \<Rightarrow> int \<Rightarrow> int list" where
  "Cases s productID = at_key (on_cases s) productID"

definition CaseProducts :: "Subject \<Rightarrow> int list" where
  "CaseProducts s = sort (keys (on_cases s))"

definition CodeFindingProducts :: "Subject \<Rightarrow> int list" where
  "CodeFindingProducts s = (if kind s \<noteq> Person then [] else sort (keys (codeFindings s)))"

definition Mine :: "Subject \<Rightarrow> int list" where
  "Mine s = (if party s = 0 then [] else party s # teams s)"

definition ReadsTheDeployment :: "Subject \<Rightarrow> bool" where
  "ReadsTheDeployment s \<longleftrightarrow> kind s = Person \<and> (Admin s \<or> Audits s)"

definition Administering :: "string \<Rightarrow> Subject \<Rightarrow> refused option" where
  "Administering what s = (if \<not> Admin s \<or> kind s \<noteq> Person then Some (Denied what) else None)"

subsection \<open>Questions about one product\<close>

definition Holds :: "Subject \<Rightarrow> Role \<Rightarrow> int \<Rightarrow> bool" where
  "Holds s role productID \<longleftrightarrow> kind s = Person \<and> list_ex (\<lambda>held. held = role) (at_key (grants s) productID)"

definition Reads :: "Subject \<Rightarrow> Visibility \<Rightarrow> int \<Rightarrow> bool" where
  "Reads s v productID =
    (if unnarrowed s then True
     else if kind s = Anonymous then v = Public \<and> productID \<in> set (published s)
     else case reading v of (read, triage) \<Rightarrow> Holds s read productID \<or> Holds s triage productID)"

definition ReadsIn :: "Subject \<Rightarrow> int \<Rightarrow> bool" where
  "ReadsIn s productID \<longleftrightarrow> list_ex (\<lambda>v. Reads s v productID) Visibilities"

definition Triages :: "Subject \<Rightarrow> Visibility \<Rightarrow> int \<Rightarrow> bool" where
  "Triages s v productID \<longleftrightarrow> kind s = Person \<and> Holds s (snd (reading v)) productID"

definition MayApprove :: "Visibility \<Rightarrow> bool \<Rightarrow> bool \<Rightarrow> bool \<Rightarrow> bool" where
  "MayApprove v approver reads triages =
    (if v = SecurityTesting then reads \<and> approver else reads \<and> (approver \<or> triages))"

definition TriagesIn :: "Subject \<Rightarrow> int \<Rightarrow> bool" where
  "TriagesIn s productID \<longleftrightarrow> list_ex (\<lambda>v. Triages s v productID) [Public, Private]"

definition TriagesAnyIn :: "Subject \<Rightarrow> int \<Rightarrow> bool" where
  "TriagesAnyIn s productID \<longleftrightarrow> TriagesIn s productID \<or> Triages s SecurityTesting productID"

definition Visible :: "Subject \<Rightarrow> int \<Rightarrow> Visibility list" where
  "Visible s productID = filter (\<lambda>v. Reads s v productID) Visibilities"

definition Sees :: "Subject \<Rightarrow> int \<Rightarrow> bool" where
  "Sees s productID =
    (case (kind s, scope s) of
       (Pipeline, Some sc) \<Rightarrow> ProductID sc = productID
     | _ \<Rightarrow>
       if kind s = Anonymous then productID \<in> set (published s)
       else if kind s \<noteq> Person then False
       else if Admin s \<or> unnarrowed s then True
       else ReadsIn s productID)"

definition Reaches :: "Subject \<Rightarrow> int \<Rightarrow> bool" where
  "Reaches s productID \<longleftrightarrow> Sees s productID \<or> length (at_key (on_cases s) productID) > 0"

definition ReachesCodeFinding :: "Subject \<Rightarrow> int \<Rightarrow> bool" where
  "ReachesCodeFinding s productID \<longleftrightarrow> Reaches s productID \<or> length (CodeFindings s productID) > 0"

definition HoldsAnywhere :: "Subject \<Rightarrow> Role list \<Rightarrow> bool" where
  "HoldsAnywhere s roles \<longleftrightarrow> kind s = Person \<and>
     list_ex (\<lambda>p. list_ex (\<lambda>role. list_ex (\<lambda>wanted. role = wanted) roles) (at_key (grants s) p)) (keys (grants s))"

definition Products :: "Subject \<Rightarrow> int list \<times> bool" where
  "Products s =
    (if kind s = Anonymous then (sort (published s), False)
     else if kind s \<noteq> Person then ([], False)
     else if unnarrowed s then ([], True)
     else (filter (ReadsIn s) (keys (grants s)), False))"

definition Knows :: "Subject \<Rightarrow> int list \<times> bool" where
  "Knows s = (if kind s = Person \<and> Admin s then ([], True) else Products s)"

definition MaySend :: "Subject \<Rightarrow> int \<Rightarrow> int \<Rightarrow> int \<Rightarrow> bool" where
  "MaySend s productID branchOrTagID variantID = (case scope s of None \<Rightarrow> False | Some sc \<Rightarrow>
     if kind s \<noteq> Pipeline then False
     else if ProductID sc \<noteq> productID then False
     else if BranchOrTagID sc \<noteq> None \<and> BranchOrTagID sc \<noteq> Some branchOrTagID then False
     else if VariantID sc \<noteq> None \<and> VariantID sc \<noteq> Some variantID then False
     else True)"

definition ReadsBuild :: "Subject \<Rightarrow> int \<Rightarrow> int \<Rightarrow> int \<Rightarrow> bool" where
  "ReadsBuild s productID branchOrTagID variantID =
    (if kind s = Pipeline then MaySend s productID branchOrTagID variantID else Sees s productID)"

subsection \<open>Questions about one issue\<close>

definition caseVisibilities :: "Visibility list" where
  "caseVisibilities = [Public, Private]"

definition CaseReaches :: "Visibility \<Rightarrow> bool" where
  "CaseReaches v \<longleftrightarrow> list_ex (\<lambda>have'. have' = v) caseVisibilities"

definition VisibleOn :: "Subject \<Rightarrow> int \<Rightarrow> int \<Rightarrow> Visibility list" where
  "VisibleOn s productID vulnerabilityID =
    (if \<not> OnCase s productID vulnerabilityID then Visible s productID
     else foldl (\<lambda>visible want. if list_ex (\<lambda>have'. have' = want) visible then visible else visible @ [want])
       (Visible s productID) caseVisibilities)"

definition SeesOn :: "Subject \<Rightarrow> int \<Rightarrow> int \<Rightarrow> bool" where
  "SeesOn s productID vulnerabilityID \<longleftrightarrow> Sees s productID \<or> OnCase s productID vulnerabilityID"

definition readRefused :: "int \<Rightarrow> refused" where
  "readRefused productID = Denied (''read findings in product '' @ decimal productID)"

definition Readable :: "Subject \<Rightarrow> int \<Rightarrow> refused + Visibility list" where
  "Readable s productID =
    (if \<not> Sees s productID \<or> Visible s productID = [] then Inl (readRefused productID)
     else Inr (Visible s productID))"

definition ReadableOn :: "Subject \<Rightarrow> int \<Rightarrow> int \<Rightarrow> refused + Visibility list" where
  "ReadableOn s productID vulnerabilityID =
    (if \<not> SeesOn s productID vulnerabilityID \<or> VisibleOn s productID vulnerabilityID = []
     then Inl (readRefused productID)
     else Inr (VisibleOn s productID vulnerabilityID))"

subsection \<open>Narrowing a query\<close>

record readingGroup =
  visibilities :: "Visibility list"
  products :: "int list"

text \<open>
  \<^verbatim>\<open>Split\<close> finds the group of a product by a text of its visibilities. The text names them in
  the order of \<^verbatim>\<open>Visibilities\<close> and no word holds a comma, so two texts are equal exactly where
  the lists are, and a group is found by its list.
\<close>

fun add_to_group :: "Visibility list \<Rightarrow> int \<Rightarrow> readingGroup list \<Rightarrow> readingGroup list" where
  "add_to_group held i [] = [\<lparr>visibilities = held, products = [i]\<rparr>]"
| "add_to_group held i (g # gs) =
    (if visibilities g = held then g\<lparr>products := products g @ [i]\<rparr> # gs
     else g # add_to_group held i gs)"

fun split_into :: "readingGroup list \<Rightarrow> int list \<Rightarrow> (Visibility \<Rightarrow> int \<Rightarrow> bool) \<Rightarrow> readingGroup list" where
  "split_into groups [] allowed = groups"
| "split_into groups (i # ids) allowed =
    (let held = filter (\<lambda>v. allowed v i) Visibilities in
     split_into (if length held = 0 then groups else add_to_group held i groups) ids allowed)"

definition Split :: "int list \<Rightarrow> (Visibility \<Rightarrow> int \<Rightarrow> bool) \<Rightarrow> readingGroup list" where
  "Split ids allowed = split_into [] ids allowed"

text \<open>The SQL condition with its arguments, a clause per group, and what a row makes of it.\<close>

datatype clause = ProductIn "int list" | ProductInWith "int list" Visibility
  | ProductInWithin "int list" "Visibility list"

datatype condition = Nothing | AnyOf "clause list"

definition group_clause :: "readingGroup \<Rightarrow> clause" where
  "group_clause g =
    (if length (visibilities g) = length Visibilities then ProductIn (products g)
     else if length (visibilities g) = 1 then ProductInWith (products g) (hd (visibilities g))
     else ProductInWithin (products g) (visibilities g))"

definition VisibleWhere :: "readingGroup list \<Rightarrow> condition" where
  "VisibleWhere r = (if map group_clause r = [] then Nothing else AnyOf (map group_clause r))"

fun clause_holds :: "clause \<Rightarrow> int \<Rightarrow> Visibility \<Rightarrow> bool" where
  "clause_holds (ProductIn ps) p v \<longleftrightarrow> p \<in> set ps"
| "clause_holds (ProductInWith ps w) p v \<longleftrightarrow> p \<in> set ps \<and> v = w"
| "clause_holds (ProductInWithin ps vs) p v \<longleftrightarrow> p \<in> set ps \<and> v \<in> set vs"

fun condition_holds :: "condition \<Rightarrow> int \<Rightarrow> Visibility \<Rightarrow> bool" where
  "condition_holds Nothing p v \<longleftrightarrow> False"
| "condition_holds (AnyOf cs) p v \<longleftrightarrow> list_ex (\<lambda>c. clause_holds c p v) cs"

subsection \<open>Tokens narrow the subject of their owner\<close>

definition rolesFor :: "Role list \<Rightarrow> string + string option" where
  "rolesFor holds =
    (if holds = [] then Inr None
     else case find (\<lambda>role. \<not> Role_Valid role) holds of
         Some role \<Rightarrow> Inl role
       | None \<Rightarrow> Inr (Some (strings_join '','' (filter (\<lambda>role. role \<in> set holds) Roles))))"

definition narrowedToRoles :: "string \<Rightarrow> Subject \<Rightarrow> Subject" where
  "narrowedToRoles holds s =
    (let wanted = map trim_space (split_on CHR '','' holds) in
     s\<lparr>grants := map_values (\<lambda>_ held. filter (\<lambda>role. role \<in> set wanted) held) (grants s),
       Admin := False, Audits := False, unnarrowed := False,
       casesReadOnly := PublicTriage \<notin> set wanted \<and> PrivateTriage \<notin> set wanted\<rparr>)"

definition only_key :: "int \<Rightarrow> (int \<times> 'v list) list \<Rightarrow> (int \<times> 'v list) list" where
  "only_key k m = (case map_of m k of None \<Rightarrow> [] | Some xs \<Rightarrow> [(k, xs)])"

definition narrowedTo :: "int \<Rightarrow> Subject \<Rightarrow> Subject" where
  "narrowedTo productID s =
    s\<lparr>grants := only_key productID (grants s), Admin := False, Audits := False, unnarrowed := False,
      on_cases := (if length (on_cases s) > 0 then only_key productID (on_cases s) else on_cases s),
      codeFindings := (if length (codeFindings s) > 0 then only_key productID (codeFindings s)
        else codeFindings s)\<rparr>"

text \<open>
  The subject an account resolves to (the end of \<^verbatim>\<open>resolve\<close>): what its grants, cases, code findings and
  offices are is read from the store, and nothing has narrowed it.
\<close>

definition resolved_subject ::
  "int \<Rightarrow> string \<Rightarrow> bool \<Rightarrow> (int \<times> Role list) list \<Rightarrow> int \<Rightarrow> int list \<Rightarrow> (int \<times> int list) list
    \<Rightarrow> (int \<times> string list) list \<Rightarrow> bool \<Rightarrow> Subject" where
  "resolved_subject i identity administers gs p on cs fs audits =
    (let subject = OnCodeFindings fs (OnCases cs (NewPerson i identity administers gs p on))
     in if audits then Auditing subject else subject)"

text \<open>The last lines of \<^verbatim>\<open>ResolveToken\<close>: what a token makes of its owner's subject.\<close>

definition token_subject :: "int option \<Rightarrow> string option \<Rightarrow> Subject \<Rightarrow> Subject" where
  "token_subject pinned holds owner =
    (let s = delegate owner;
         s = (case pinned of None \<Rightarrow> s | Some productID \<Rightarrow> narrowedTo productID s)
     in case holds of None \<Rightarrow> s | Some h \<Rightarrow> narrowedToRoles h s)"


subsection \<open>Which subjects there are\<close>

text \<open>
  Every subject a request or a pass acts as is one of the constructors', with what its chained
  methods and a token's narrowing make of it.
\<close>

inductive built :: "Subject \<Rightarrow> bool" where
  person: "built (NewPerson i identity admin gs p ts)"
| pipeline: "built (NewPipeline i name sc)"
| everything: "built (Everything what)"
| anybody: "built (Published ps)"
| on_cases: "built s \<Longrightarrow> built (OnCases cs s)"
| on_code_findings: "built s \<Longrightarrow> built (OnCodeFindings fs s)"
| auditing: "built s \<Longrightarrow> built (Auditing s)"
| token: "built s \<Longrightarrow> built (token_subject pinned holds s)"

lemmas constructor_defs = NewPerson_def NewPipeline_def Everything_def Published_def OnCases_def
  OnCodeFindings_def Auditing_def delegate_def zero_subject_def narrowedTo_def narrowedToRoles_def Let_def

lemma narrowing_keeps [simp]:
  "kind (narrowedTo p s) = kind s" "kind (narrowedToRoles h s) = kind s" "kind (delegate s) = kind s"
  "scope (narrowedTo p s) = scope s" "scope (narrowedToRoles h s) = scope s" "scope (delegate s) = scope s"
  "published (narrowedTo p s) = published s" "published (narrowedToRoles h s) = published s"
  "published (delegate s) = published s"
  "unnarrowed (delegate s) = unnarrowed s" "grants (delegate s) = grants s" "on_cases (delegate s) = on_cases s"
  "casesReadOnly (delegate s) = casesReadOnly s" "on_cases (narrowedToRoles h s) = on_cases s"
  "casesReadOnly (narrowedTo p s) = casesReadOnly s"
  "\<not> unnarrowed (narrowedTo p s)" "\<not> unnarrowed (narrowedToRoles h s)"
  by (simp_all add: constructor_defs)

lemma built_kinds:
  assumes "built s"
  shows "unnarrowed s \<longrightarrow> kind s = Person" and "scope s \<noteq> None \<longleftrightarrow> kind s = Pipeline"
    and "kind s \<noteq> Person \<longrightarrow> grants s = []"
  using assms
  by (induction s)
     (auto simp: token_subject_def constructor_defs map_values_def keys_def only_key_def split: option.splits)

subsection \<open>Reading, seeing and their lists agree\<close>

lemma Holds_at_key: "Holds s role p \<longleftrightarrow> kind s = Person \<and> role \<in> set (at_key (grants s) p)"
  by (auto simp: Holds_def list_ex_iff)

lemma in_Visible: "v \<in> set (Visible s p) \<longleftrightarrow> v \<in> set Visibilities \<and> Reads s v p"
  by (auto simp: Visible_def)

lemma ReadsIn_Visible: "ReadsIn s p \<longleftrightarrow> Visible s p \<noteq> []"
  by (auto simp: ReadsIn_def Visible_def list_ex_iff filter_empty_conv)

lemma Triages_Reads: "Triages s v p \<Longrightarrow> Reads s v p"
  by (auto simp: Triages_def Reads_def split: prod.splits)

lemma ReadsIn_Sees:
  assumes "built s" and "ReadsIn s p"
  shows "Sees s p"
proof (cases "kind s")
  case Person
  then show ?thesis using assms(2) by (simp add: Sees_def)
next
  case Pipeline
  then have "\<not> unnarrowed s" using built_kinds(1) [OF assms(1)] by auto
  then show ?thesis using assms(2) Pipeline by (auto simp: ReadsIn_def Reads_def Holds_def list_ex_iff split: prod.splits)
next
  case Anonymous
  then have "\<not> unnarrowed s" using built_kinds(1) [OF assms(1)] by auto
  then show ?thesis using assms(2) Anonymous by (auto simp: ReadsIn_def Reads_def Sees_def list_ex_iff)
qed

lemma ReadsIn_granted: "kind s = Person \<Longrightarrow> \<not> unnarrowed s \<Longrightarrow> ReadsIn s p \<Longrightarrow> p \<in> set (keys (grants s))"
  by (auto simp: ReadsIn_def Reads_def Holds_at_key list_ex_iff split_beta dest: at_key_nonempty)

lemma in_VisibleOn:
  "v \<in> set (VisibleOn s p i) \<longleftrightarrow> v \<in> set (Visible s p) \<or> (OnCase s p i \<and> v \<in> set caseVisibilities)"
  by (auto simp: VisibleOn_def caseVisibilities_def list_ex_iff)

subsection \<open>The groups of a query\<close>

definition in_groups :: "readingGroup list \<Rightarrow> int \<Rightarrow> Visibility \<Rightarrow> bool" where
  "in_groups gs p v \<longleftrightarrow> (\<exists>g \<in> set gs. p \<in> set (products g) \<and> v \<in> set (visibilities g))"

lemma add_to_group_holds:
  "in_groups (add_to_group held i gs) p v \<longleftrightarrow> (p = i \<and> v \<in> set held) \<or> in_groups gs p v"
  by (induction gs) (auto simp: in_groups_def)

declare split_into.simps(2) [simp del]

lemma split_into_holds:
  "in_groups (split_into gs ids allowed) p v
    \<longleftrightarrow> (p \<in> set ids \<and> v \<in> set Visibilities \<and> allowed v p) \<or> in_groups gs p v"
proof (induction ids arbitrary: gs)
  case (Cons i ids)
  let ?held = "filter (\<lambda>v. allowed v i) Visibilities"
  show ?case
  proof (cases "?held = []")
    case True
    then have "\<not> (v \<in> set Visibilities \<and> allowed v i)" by (auto simp: filter_empty_conv)
    note none = this
    have turn: "split_into gs (i # ids) allowed = split_into gs ids allowed"
      unfolding split_into.simps True by simp
    show ?thesis unfolding turn Cons.IH using none by auto
  next
    case False
    have held: "v \<in> set ?held \<longleftrightarrow> v \<in> set Visibilities \<and> allowed v i" by auto
    have "split_into gs (i # ids) allowed = split_into (add_to_group ?held i gs) ids allowed"
      using False unfolding split_into.simps Let_def length_0_conv by (simp only: if_False)
    note turn = this
    show ?thesis unfolding turn Cons.IH add_to_group_holds held by auto
  qed
qed simp

definition listed :: "readingGroup \<Rightarrow> bool" where
  "listed g \<longleftrightarrow> distinct (visibilities g) \<and> set (visibilities g) \<subseteq> set Visibilities"

lemma listed_products [simp]: "listed (g\<lparr>products := ps\<rparr>) = listed g"
  "listed \<lparr>visibilities = held, products = p # ps\<rparr> = listed \<lparr>visibilities = held, products = ps\<rparr>"
  by (simp_all add: listed_def)

lemma add_to_group_listed:
  "\<forall>g \<in> set gs. listed g \<Longrightarrow> listed \<lparr>visibilities = held, products = []\<rparr>
    \<Longrightarrow> \<forall>g \<in> set (add_to_group held i gs). listed g"
  by (induction gs) simp_all

lemma split_into_listed: "\<forall>g \<in> set gs. listed g \<Longrightarrow> \<forall>g \<in> set (split_into gs ids allowed). listed g"
proof (induction ids arbitrary: gs)
  case (Cons i ids)
  let ?held = "filter (\<lambda>v. allowed v i) Visibilities"
  have "listed \<lparr>visibilities = ?held, products = []\<rparr>"
    by (auto simp: listed_def Visibilities_def)
  then have "\<forall>g \<in> set (add_to_group ?held i gs). listed g"
    by (rule add_to_group_listed [OF Cons.prems])
  note more = this
  show ?case
  proof (cases "length ?held = 0")
    case True
    show ?thesis unfolding split_into.simps Let_def if_P [OF True] by (rule Cons.IH [OF Cons.prems])
  next
    case False
    show ?thesis unfolding split_into.simps Let_def if_not_P [OF False] by (rule Cons.IH [OF more])
  qed
qed simp

lemma group_clause_holds:
  assumes "listed g" and "v \<in> set Visibilities"
  shows "clause_holds (group_clause g) p v \<longleftrightarrow> p \<in> set (products g) \<and> v \<in> set (visibilities g)"
proof -
  have every: "set (visibilities g) = set Visibilities" if same: "length (visibilities g) = length Visibilities"
  proof (rule card_subset_eq)
    show "set (visibilities g) \<subseteq> set Visibilities" using assms(1) by (simp add: listed_def)
    have "distinct Visibilities" by (simp add: Visibilities_def)
    then show "card (set (visibilities g)) = card (set Visibilities)"
      using assms(1) same by (simp add: listed_def distinct_card)
  qed simp
  have one: "set (visibilities g) = {hd (visibilities g)}" if "length (visibilities g) = 1"
    using that by (cases "visibilities g") simp_all
  show ?thesis
    unfolding group_clause_def using every one assms(2) by (simp split: if_split)
qed

lemma VisibleWhere_holds:
  "condition_holds (VisibleWhere r) p v \<longleftrightarrow> (\<exists>g \<in> set r. clause_holds (group_clause g) p v)"
  by (auto simp: VisibleWhere_def list_ex_iff)


subsection \<open>What a token leaves\<close>

lemma at_key_only_key: "at_key (only_key k m) k' = (if k' = k then at_key m k else [])"
  by (auto simp: only_key_def at_key_def split: option.splits)

lemma narrowedTo_at_key [simp]:
  "at_key (grants (narrowedTo q s)) p = (if p = q then at_key (grants s) p else [])"
  "at_key (on_cases (narrowedTo q s)) p = (if p = q then at_key (on_cases s) p else [])"
  "at_key (codeFindings (narrowedTo q s)) p = (if p = q then at_key (codeFindings s) p else [])"
  by (simp_all add: narrowedTo_def at_key_only_key)

lemma narrowedToRoles_at_key [simp]:
  "at_key (grants (narrowedToRoles h s)) p
    = filter (\<lambda>role. role \<in> set (map trim_space (split_on CHR '','' h))) (at_key (grants s) p)"
  by (simp add: narrowedToRoles_def Let_def)

lemma token_Holds:
  "Holds (token_subject pinned holds s) r p \<longleftrightarrow> Holds s r p \<and> (pinned \<noteq> None \<longrightarrow> pinned = Some p)
     \<and> (\<forall>h. holds = Some h \<longrightarrow> r \<in> set (map trim_space (split_on CHR '','' h)))"
  by (cases pinned; cases holds) (auto simp: token_subject_def Holds_at_key Let_def)

lemma token_kind [simp]: "kind (token_subject pinned holds s) = kind s"
  by (cases pinned; cases holds) (auto simp: token_subject_def Let_def)

lemma token_unnarrowed: "unnarrowed (token_subject pinned holds s) \<longleftrightarrow>
    unnarrowed s \<and> pinned = None \<and> holds = None"
  by (cases pinned; cases holds) (auto simp: token_subject_def Let_def)

lemma token_published [simp]: "published (token_subject pinned holds s) = published s"
  by (cases pinned; cases holds) (auto simp: token_subject_def Let_def)

lemma token_OnCase:
  "OnCase (token_subject pinned holds s) p i \<longleftrightarrow> OnCase s p i \<and> (pinned \<noteq> None \<longrightarrow> pinned = Some p)"
  by (cases pinned; cases holds) (auto simp: token_subject_def OnCase_def Let_def)

lemma token_OnCodeFinding:
  "OnCodeFinding (token_subject pinned holds s) p occ \<longleftrightarrow> OnCodeFinding s p occ \<and> (pinned \<noteq> None \<longrightarrow> pinned = Some p)"
  by (cases pinned; cases holds) (auto simp: token_subject_def OnCodeFinding_def delegate_def narrowedToRoles_def Let_def)

text \<open>The text of the roles a token carries reads back as those roles.\<close>

lemma roles_plain:
  assumes "r \<in> set Roles"
  shows "CHR '','' \<notin> set r \<and> trim_space r = r"
proof -
  have "list_all (\<lambda>r. CHR '','' \<notin> set r \<and> trim_space r = r) Roles" by code_simp
  then show ?thesis using assms by (simp add: list_all_iff)
qed

lemma rolesFor_reads_back:
  assumes "rolesFor holds = Inr (Some text)"
  shows "set (map trim_space (split_on CHR '','' text)) = set holds"
proof -
  let ?kept = "filter (\<lambda>role. role \<in> set holds) Roles"
  from assms have valid: "\<forall>r \<in> set holds. r \<in> set Roles" and spelled: "text = strings_join '','' ?kept"
    and some: "holds \<noteq> []"
    by (auto simp: rolesFor_def find_None_iff Role_Valid_def list_ex_iff split: if_splits option.splits)
  then have kept: "set ?kept = set holds" by auto
  then have "?kept \<noteq> []" using some by (metis set_empty)
  moreover have "list_all (\<lambda>r. CHR '','' \<notin> set r) ?kept" using roles_plain by (auto simp: list_all_iff)
  ultimately have split: "split_on CHR '','' text = ?kept" unfolding spelled by (rule split_on_join)
  have "map trim_space ?kept = ?kept" using roles_plain by (auto intro!: map_idI)
  then show ?thesis by (simp only: split kept)
qed

subsection \<open>Properties\<close>

lemma split_condition:
  assumes "v \<in> set Visibilities"
  shows "condition_holds (VisibleWhere (Split ids allowed)) p v \<longleftrightarrow> p \<in> set ids \<and> allowed v p"
proof -
  have "\<forall>g \<in> set (Split ids allowed). listed g" unfolding Split_def by (rule split_into_listed) simp
  then have "condition_holds (VisibleWhere (Split ids allowed)) p v \<longleftrightarrow> in_groups (Split ids allowed) p v"
    using group_clause_holds [OF _ assms] by (auto simp: VisibleWhere_holds in_groups_def)
  then show ?thesis using assms by (simp add: Split_def split_into_holds) (simp add: in_groups_def)
qed

text \<open>
  C5: the condition a query is narrowed with lets through exactly the rows the rule allows: a row
  of a recognized visibility passes if its product is one asked about and the rule allows that
  visibility there, and the shortened clause for products read at every visibility loses nothing.
\<close>

theorem query_narrowing_exact:
  assumes "v \<in> set Visibilities"
  shows "condition_holds (VisibleWhere (Split ids allowed)) p v \<longleftrightarrow> p \<in> set ids \<and> allowed v p"
  using assms by (rule split_condition)

theorem query_narrowing_exact_witness:
  "condition_holds (VisibleWhere (Split [7, 8] (\<lambda>v p. v = Private \<and> p = 8))) 8 Private
    \<and> \<not> condition_holds (VisibleWhere (Split [7, 8] (\<lambda>v p. v = Private \<and> p = 8))) 7 Private"
  using query_narrowing_exact [of Private "[7, 8]" "\<lambda>v p. v = Private \<and> p = 8"]
  by (simp add: Visibilities_def)

text \<open>
  C6: a read of a product's findings is refused exactly to a subject who may read none of them,
  and otherwise answers what the subject may read; the read of one issue likewise. Knowing a
  product exists never lets an empty answer through, nor hides an answer the subject may have.
\<close>

theorem read_refused_exactly_for_nothing_readable:
  assumes "built s"
  shows "Readable s p = (if Visible s p = [] then Inl (readRefused p) else Inr (Visible s p))
    \<and> ReadableOn s p i = (if VisibleOn s p i = [] then Inl (readRefused p) else Inr (VisibleOn s p i))"
proof -
  have sees: "Visible s p \<noteq> [] \<Longrightarrow> Sees s p" using ReadsIn_Sees [OF assms] ReadsIn_Visible by blast
  moreover have "VisibleOn s p i \<noteq> [] \<Longrightarrow> SeesOn s p i"
    using sees by (cases "OnCase s p i") (auto simp: SeesOn_def VisibleOn_def)
  ultimately show ?thesis by (auto simp: Readable_def ReadableOn_def)
qed

theorem read_refused_exactly_for_nothing_readable_witness:
  "Readable (NewPerson 1 ''ann'' True [(7, [PublicTriage])] 3 []) 7 = Inr [Public]
    \<and> Readable (NewPerson 1 ''ann'' True [(7, [PublicTriage])] 3 []) 8 = Inl (readRefused 8)
    \<and> ReadableOn (OnCases [(8, [5])] (NewPerson 1 ''ann'' True [(7, [PublicTriage])] 3 [])) 8 5 = Inr [Public, Private]"
  using read_refused_exactly_for_nothing_readable [OF built.person]
    read_refused_exactly_for_nothing_readable [OF built.on_cases [OF built.person]]
  by (simp add: Visible_def VisibleOn_def Visibilities_def Reads_def reading_def Holds_def at_key_def
      NewPerson_def zero_subject_def role_words OnCase_def OnCases_def caseVisibilities_def)

text \<open>
  The list a query over several products is narrowed to holds exactly the products the
  subject reads something in, and each of them is one it may know exists; only the deployment's
  own subject is answered with every product.
\<close>

theorem products_are_those_read:
  assumes "built s"
  shows "snd (Products s) = unnarrowed s
    \<and> (unnarrowed s \<or> set (fst (Products s)) = {p. ReadsIn s p})
    \<and> set (fst (Products s)) \<subseteq> {p. Sees s p}"
proof (intro conjI)
  show "snd (Products s) = unnarrowed s"
    using built_kinds(1) [OF assms] by (auto simp: Products_def)
  have "set (fst (Products s)) = {p. ReadsIn s p}" if "\<not> unnarrowed s"
  proof (cases "kind s")
    case Person
    then show ?thesis using that ReadsIn_granted by (auto simp: Products_def)
  next
    case Pipeline
    then show ?thesis using that by (auto simp: Products_def ReadsIn_def Reads_def Holds_def list_ex_iff split_beta)
  next
    case Anonymous
    then show ?thesis using that by (auto simp: Products_def ReadsIn_def Reads_def Visibilities_def)
  qed
  then show "unnarrowed s \<or> set (fst (Products s)) = {p. ReadsIn s p}" by blast
  show "set (fst (Products s)) \<subseteq> {p. Sees s p}"
    using ReadsIn_Sees [OF assms] by (auto simp: Products_def Sees_def split: if_splits)
qed

theorem products_are_those_read_witness:
  "set (fst (Products (NewPerson 1 ''ann'' True [(7, [PublicTriage]), (8, [Approver])] 3 []))) = {7}
    \<and> \<not> snd (Products (NewPerson 1 ''ann'' True [(7, [PublicTriage]), (8, [Approver])] 3 []))"
proof -
  let ?s = "NewPerson 1 ''ann'' True [(7, [PublicTriage]), (8, [Approver])] 3 []"
  have "ReadsIn ?s p \<longleftrightarrow> p = 7" for p
    by (simp add: ReadsIn_def Visibilities_def Reads_def reading_def Holds_def at_key_def
      NewPerson_def zero_subject_def role_words)
  then show ?thesis
    using products_are_those_read [OF built.person, of 1 "''ann''" True "[(7, [PublicTriage]), (8, [Approver])]" 3 "[]"]
    by (simp add: NewPerson_def zero_subject_def)
qed

text \<open>
  C36: a token only narrows. Whatever the subject it resolves to reads, triages, sees, is brought into or
  may act on, the owner it resolves through may too, the write half of a case included, and a token
  pinned to a product reaches nothing in any other.
\<close>

theorem token_only_narrows:
  assumes owner: "owner = resolved_subject i identity administers gs p on cs fs audits" and t: "t = token_subject pinned holds owner"
  shows "(Reads t v q \<longrightarrow> Reads owner v q \<and> pinned \<in> {None, Some q})
    \<and> (Triages t v q \<longrightarrow> Triages owner v q \<and> pinned \<in> {None, Some q})
    \<and> (Sees t q \<longrightarrow> Sees owner q)
    \<and> (OnCase t q issue \<longrightarrow> OnCase owner q issue \<and> pinned \<in> {None, Some q})
    \<and> (OnCaseToAct t q issue \<longrightarrow> OnCaseToAct owner q issue \<and> pinned \<in> {None, Some q})
    \<and> (OnCodeFinding t q occ \<longrightarrow> OnCodeFinding owner q occ \<and> pinned \<in> {None, Some q})
    \<and> (ReadsTheDeployment t \<longrightarrow> ReadsTheDeployment owner \<and> pinned = None \<and> holds = None)"
proof (intro conjI impI)
  have person: "kind owner = Person" "\<not> casesReadOnly owner" by (simp_all add: owner resolved_subject_def constructor_defs)
  have reads: "Reads owner v q \<and> pinned \<in> {None, Some q}" if "Reads t v q" for v
  proof -
    have "unnarrowed t \<Longrightarrow> unnarrowed owner \<and> pinned = None" by (simp add: t token_unnarrowed)
    moreover have "Holds t r q \<Longrightarrow> Holds owner r q \<and> pinned \<in> {None, Some q}" for r
      by (auto simp: t token_Holds)
    moreover have "kind t = Person" by (simp add: t person(1))
    ultimately show ?thesis using that person(1) unfolding Reads_def split_beta
      by (simp split: if_splits) blast
  qed
  then show "Reads owner v q" "pinned \<in> {None, Some q}" if "Reads t v q" using that by auto
  show "Triages owner v q" "pinned \<in> {None, Some q}" if "Triages t v q"
    using that by (auto simp: t Triages_def token_Holds)
  have over: "(Admin t \<longrightarrow> Admin owner) \<and> (Audits t \<longrightarrow> Audits owner)
      \<and> (Admin t \<or> Audits t \<longrightarrow> pinned = None \<and> holds = None)"
    by (cases pinned; cases holds) (simp_all add: t token_subject_def narrowedTo_def narrowedToRoles_def delegate_def Let_def)
  show "Sees owner q" if "Sees t q"
  proof -
    have "unnarrowed t \<Longrightarrow> unnarrowed owner" by (simp add: t token_unnarrowed)
    moreover have "ReadsIn t q \<Longrightarrow> ReadsIn owner q" using reads by (auto simp: ReadsIn_def list_ex_iff)
    moreover have "kind t = Person" by (simp add: t person(1))
    ultimately show ?thesis using that over person(1) by (auto simp: Sees_def split: if_splits)
  qed
  have on: "OnCase owner q issue \<and> pinned \<in> {None, Some q}" if "OnCase t q issue"
    using that by (auto simp: t token_OnCase)
  then show "OnCase owner q issue" "pinned \<in> {None, Some q}" if "OnCase t q issue" using that by auto
  show "OnCaseToAct owner q issue" "pinned \<in> {None, Some q}" if "OnCaseToAct t q issue"
    using that on person(2) by (auto simp: OnCaseToAct_def)
  show "OnCodeFinding owner q occ" "pinned \<in> {None, Some q}" if "OnCodeFinding t q occ"
    using that by (auto simp: t token_OnCodeFinding)
  show "ReadsTheDeployment owner" "pinned = None" "holds = None" if "ReadsTheDeployment t"
    using that over person(1) by (auto simp: ReadsTheDeployment_def)
qed

theorem token_only_narrows_witness:
  "Reads (resolved_subject 1 ''ann'' True [(7, [PublicTriage]), (8, [PrivateRead])] 3 [] [(8, [5])] [] False) Public 7
    \<and> \<not> OnCaseToAct (token_subject (Some 7) None (resolved_subject 1 ''ann'' True [(7, [PublicTriage]), (8, [PrivateRead])] 3 [] [(8, [5])] [] False)) 8 5"
proof -
  let ?ann = "resolved_subject 1 ''ann'' True [(7, [PublicTriage]), (8, [PrivateRead])] 3 [] [(8, [5])] [] False"
  note narrows = token_only_narrows [OF refl refl, where pinned = "Some 7" and holds = None and i = 1 and identity = "''ann''" and administers = True
    and gs = "[(7, [PublicTriage]), (8, [PrivateRead])]" and p = 3 and on = "[]" and cs = "[(8, [5])]" and fs = "[]" and audits = False]
  have "Reads (token_subject (Some 7) None ?ann) Public 7" by code_simp
  then show ?thesis using narrows [where v = Public and q = 7] narrows [where q = 8 and issue = 5] by auto
qed

text \<open>
  C40: a token minted for a set of roles carries exactly those of them its owner holds: the text
  the roles are stored as reads back as the roles, and a word that is no role mints nothing.
\<close>

theorem token_carries_the_roles_it_names:
  assumes "rolesFor holds = Inr (Some text)"
  shows "Holds (token_subject None (Some text) owner) r p \<longleftrightarrow> Holds owner r p \<and> r \<in> set holds"
  using rolesFor_reads_back [OF assms] by (auto simp: token_Holds)

theorem token_carries_the_roles_it_names_witness:
  "Holds (token_subject None (Some ''approver,public-read'')
      (NewPerson 1 ''ann'' False [(7, [PublicRead, PublicTriage])] 3 [])) PublicRead 7
    \<and> \<not> Holds (token_subject None (Some ''approver,public-read'')
      (NewPerson 1 ''ann'' False [(7, [PublicRead, PublicTriage])] 3 [])) PublicTriage 7"
proof -
  have "rolesFor [PublicRead, Approver, PublicRead] = Inr (Some ''approver,public-read'')" by code_simp
  from token_carries_the_roles_it_names [OF this] show ?thesis
    by simp (simp add: Holds_at_key NewPerson_def zero_subject_def at_key_def role_words)
qed

text \<open>
  What is held over the deployment grants no reading and no triage: turning an account into
  an administrator or an auditor changes neither what it reads, nor what it triages, nor the
  products its queries cover.
\<close>

theorem administration_grants_no_reading:
  "Reads (s\<lparr>Admin := a, Audits := b\<rparr>) v p = Reads s v p
    \<and> Triages (s\<lparr>Admin := a, Audits := b\<rparr>) v p = Triages s v p
    \<and> HoldsAnywhere (s\<lparr>Admin := a, Audits := b\<rparr>) roles = HoldsAnywhere s roles
    \<and> Products (s\<lparr>Admin := a, Audits := b\<rparr>) = Products s"
proof -
  have Reads: "Reads (s\<lparr>Admin := a, Audits := b\<rparr>) v p = Reads s v p" for v p
    by (simp add: Reads_def Holds_def)
  then have "ReadsIn (s\<lparr>Admin := a, Audits := b\<rparr>) = ReadsIn s" by (simp add: fun_eq_iff ReadsIn_def)
  then show ?thesis using Reads by (simp add: Triages_def Holds_def HoldsAnywhere_def Products_def)
qed

text \<open>
  A case reaches one issue of one product at disclosed and undisclosed visibility and nothing
  else: it adds those to what the product's grants allow on that issue, never security testing
  material, and changes no answer about another issue or about the product.
\<close>

theorem a_case_reaches_one_issue:
  "v \<in> set (VisibleOn (OnCases cs s) p i) \<longleftrightarrow>
     v \<in> set (Visible s p) \<or> (v \<in> {Public, Private} \<and> kind s = Person \<and> i \<in> set (at_key cs p))"
proof -
  have "Visible (OnCases cs s) p = Visible s p"
    by (simp add: Visible_def Reads_def Holds_def OnCases_def)
  then show ?thesis by (auto simp: in_VisibleOn OnCase_def OnCases_def caseVisibilities_def list_ex_iff)
qed

end
