(* ===== verification/Transactions.thy ===== *)
theory Transactions
  imports Prelude
begin

section \<open>Transactions that are tried again, and grants that exclude each other\<close>

text \<open>
  \<^verbatim>\<open>InTransaction\<close> of \<^verbatim>\<open>internal/database/transaction.go\<close>: a closure over the database is run
  in a transaction and the whole of it again when the commit is refused for a reason going again
  can fix. The engine is not modelled; what it does to one commit is a parameter, and one of the
  things it does is commit and lose the answer. Two interfaces rest on it: a write that is settled
  once however its commits fare, and a table whose grants exclude each other.
\<close>

definition Attempts :: nat where
  "Attempts = 5"

text \<open>
  What became of one attempt's commit. \<open>Refused\<close> and \<open>Lost\<close> are both reported as a failure
  worth retrying; only after the second is the write in the database.
\<close>

datatype fate = Committed | Refused | Lost

text \<open>An error a transaction reports: the closure's own, which is not tried again, or giving up.\<close>

datatype 'e trouble = Own 'e | GaveUp

text \<open>
  One attempt reads the clock itself, finds the database as other writers left it, and meets a
  fate. The closure carries a local state from one attempt to the next, as a Go closure does, and
  an error of its own rolls its writes back.
\<close>

record 'd attempt =
  at :: int
  others :: "'d \<Rightarrow> 'd"
  meets :: fate

text \<open>
  An attempt before which no other writer touches what is looked at of the database, and one whose
  commit is answered.
\<close>

definition leaves_alone :: "('d \<Rightarrow> bool) \<Rightarrow> ('d \<Rightarrow> 'v) \<Rightarrow> 'd attempt \<Rightarrow> bool" where
  "leaves_alone sane seen a \<longleftrightarrow> (\<forall>d. sane d \<longrightarrow> sane (others a d) \<and> seen (others a d) = seen d)"

definition commits :: "'d attempt \<Rightarrow> bool" where
  "commits a \<longleftrightarrow> meets a = Committed"

fun in_transaction :: "(int \<Rightarrow> 'l \<Rightarrow> 'd \<Rightarrow> 'e option \<times> 'l \<times> 'd) \<Rightarrow> 'd attempt list \<Rightarrow> 'l \<Rightarrow> 'd
    \<Rightarrow> 'e trouble option \<times> 'l \<times> 'd" where
  "in_transaction fn [] l d = (Some GaveUp, l, d)"
| "in_transaction fn (a # as) l d =
    (let d = others a d in
     case fn (at a) l d of
       (Some e, l', _) \<Rightarrow> (Some (Own e), l', d)
     | (None, l', d') \<Rightarrow> (case meets a of
           Committed \<Rightarrow> (None, l', d')
         | Refused \<Rightarrow> in_transaction fn as l' d
         | Lost \<Rightarrow> in_transaction fn as l' d'))"

definition InTransaction :: "(int \<Rightarrow> 'l \<Rightarrow> 'd \<Rightarrow> 'e option \<times> 'l \<times> 'd) \<Rightarrow> 'd attempt list \<Rightarrow> 'l \<Rightarrow> 'd
    \<Rightarrow> 'e trouble option \<times> 'l \<times> 'd" where
  "InTransaction fn attempts = in_transaction fn (take Attempts attempts)"

subsection \<open>A write that is settled once\<close>

text \<open>
  The contract of a closure that survives a commit whose answer was lost: where what it is about is
  ready it leaves that ended and says so in its local state, and where an earlier attempt left it
  ended, told that it has written, it answers success and changes nothing.
\<close>

locale settled_once =
  fixes fn :: "int \<Rightarrow> 'l \<Rightarrow> 'd \<Rightarrow> 'e option \<times> 'l \<times> 'd"
    and sane :: "'d \<Rightarrow> bool"
    and seen :: "'d \<Rightarrow> 'v"
    and ready :: "'v \<Rightarrow> bool"
    and ending :: "int \<Rightarrow> 'v \<Rightarrow> 'v"
    and wrote :: "'l \<Rightarrow> bool"
  assumes writes: "sane d \<Longrightarrow> ready (seen d)
      \<Longrightarrow> \<exists>l' d'. fn now l d = (None, l', d') \<and> wrote l' \<and> sane d' \<and> seen d' = ending now (seen d)"
    and again: "sane d \<Longrightarrow> ready v \<Longrightarrow> seen d = ending t v \<Longrightarrow> wrote l
      \<Longrightarrow> \<exists>l'. fn now l d = (None, l', d) \<and> wrote l'"
begin

lemma again_settles:
  "sane d \<Longrightarrow> ready v \<Longrightarrow> seen d = ending t v \<Longrightarrow> wrote l \<Longrightarrow> list_all (leaves_alone sane seen) as
    \<Longrightarrow> \<exists>l' d'. in_transaction fn as l d = (if list_ex commits as then None else Some GaveUp, l', d')
        \<and> sane d' \<and> seen d' = seen d"
proof (induction as arbitrary: l d)
  case (Cons a as)
  have o: "sane (others a d)" "seen (others a d) = seen d" using Cons.prems(1,5) by (auto simp: leaves_alone_def)
  then obtain l' where l': "fn (at a) l (others a d) = (None, l', others a d)" "wrote l'"
    using again [of "others a d" v t l "at a"] Cons.prems by auto
  obtain l'' d'' where "in_transaction fn as l' (others a d) = (if list_ex commits as then None else Some GaveUp, l'', d'')"
    "sane d''" "seen d'' = seen d"
    using Cons.IH [OF o(1) Cons.prems(2) _ l'(2)] o(2) Cons.prems(3,5) by auto
  then show ?case using l'(1) o by (cases "meets a") (auto simp: Let_def commits_def [of a])
qed simp

text \<open>
  Whatever becomes of the commits, one run of the closure is what the database has seen, the first
  that was not refused, and it is told it was recorded exactly where one commit is answered.
\<close>

lemma settles:
  "sane d \<Longrightarrow> ready (seen d) \<Longrightarrow> list_all (leaves_alone sane seen) as
    \<Longrightarrow> \<exists>l' d'. in_transaction fn as l d = (if list_ex commits as then None else Some GaveUp, l', d') \<and> sane d'
        \<and> seen d' = (case find (\<lambda>a. meets a \<noteq> Refused) as of None \<Rightarrow> seen d | Some a \<Rightarrow> ending (at a) (seen d))"
proof (induction as arbitrary: l d)
  case (Cons a as)
  let ?d = "others a d"
  have o: "sane ?d" "seen ?d = seen d" using Cons.prems(1,3) by (auto simp: leaves_alone_def)
  then obtain l' d' where w: "fn (at a) l ?d = (None, l', d')" "wrote l'" "sane d'" "seen d' = ending (at a) (seen d)"
    using writes [of ?d "at a" l] Cons.prems(2) by auto
  show ?case
  proof (cases "meets a")
    case Committed
    then show ?thesis using w by (simp add: Let_def commits_def [of a])
  next
    case Refused
    obtain m d'' where "in_transaction fn as l' ?d = (if list_ex commits as then None else Some GaveUp, m, d'')" "sane d''"
      "seen d'' = (case find (\<lambda>a. meets a \<noteq> Refused) as of None \<Rightarrow> seen d | Some a \<Rightarrow> ending (at a) (seen d))"
      using Cons.IH [OF o(1), of l'] Cons.prems(2,3) unfolding o(2) by (simp del: split_paired_Ex) blast
    then show ?thesis using Refused w(1) by (auto simp: Let_def commits_def [of a])
  next
    case Lost
    obtain m d'' where "in_transaction fn as l' d' = (if list_ex commits as then None else Some GaveUp, m, d'')" "sane d''"
      "seen d'' = seen d'"
      using again_settles [OF w(3) Cons.prems(2) w(4,2), of as] Cons.prems(3) by auto
    then show ?thesis using Lost w by (auto simp: Let_def commits_def [of a])
  qed
qed simp

end

subsection \<open>Grants that exclude each other\<close>

text \<open>
  The contract of a table that hands something out to one worker at a time: whoever holds a live
  grant is the one the table records, and no step breaks that. Two live grants of one thing are
  then one worker's.
\<close>

locale exclusive_grants =
  fixes start :: "'s \<Rightarrow> bool"
    and step :: "'s \<Rightarrow> 's \<Rightarrow> bool"
    and wf :: "'s \<Rightarrow> bool"
    and live :: "'s \<Rightarrow> 'w \<Rightarrow> 'i \<Rightarrow> bool"
    and holder :: "'s \<Rightarrow> 'i \<Rightarrow> 'w option"
  assumes starts: "start s \<Longrightarrow> wf s \<and> (\<forall>w i. live s w i \<longrightarrow> holder s i = Some w)"
    and keeps: "wf s \<Longrightarrow> (\<And>w i. live s w i \<Longrightarrow> holder s i = Some w) \<Longrightarrow> step s s'
      \<Longrightarrow> wf s' \<and> (\<forall>w i. live s' w i \<longrightarrow> holder s' i = Some w)"
begin

lemma recorded:
  assumes "start s" and "step\<^sup>*\<^sup>* s t"
  shows "wf t \<and> (\<forall>w i. live t w i \<longrightarrow> holder t i = Some w)"
  using assms(2,1)
proof (induction rule: rtranclp_induct)
  case base
  then show ?case using starts by blast
next
  case (step y z)
  then show ?case using keeps [of y z] by blast
qed

lemma one_holder: "start s \<Longrightarrow> step\<^sup>*\<^sup>* s t \<Longrightarrow> live t w i \<Longrightarrow> live t w' i \<Longrightarrow> w = w'"
  by (metis recorded option.inject)

end

end
