(* ===== verification/Bound.thy ===== *)
theory Bound
  imports Prelude
begin

section \<open>Cutting text without splitting a character\<close>

text \<open>
  Package \<^verbatim>\<open>internal/bound\<close>: \<^verbatim>\<open>Head\<close>, \<^verbatim>\<open>Tail\<close>, \<^verbatim>\<open>HeadRunes\<close> and \<^verbatim>\<open>Text\<close>, with the part of
  \<^verbatim>\<open>unicode/utf8\<close> they stand on. A decode is the number of bytes of the character a string
  begins with, or nothing where Go answers \<^verbatim>\<open>RuneError\<close> with a size below two.
\<close>

subsection \<open>UTF-8 as Go decodes it\<close>

definition RuneStart :: "char \<Rightarrow> bool" where
  "RuneStart c \<longleftrightarrow> \<not> (CHR 0x80 \<le> c \<and> c \<le> CHR 0xBF)"

definition within :: "char \<Rightarrow> char \<Rightarrow> char \<Rightarrow> bool" where
  "within lo hi c \<longleftrightarrow> lo \<le> c \<and> c \<le> hi"

text \<open>How many bytes a first byte announces, with what the second may be.\<close>

definition announced :: "char \<Rightarrow> (nat \<times> char \<times> char) option" where
  "announced c =
    (if c \<le> CHR 0x7F then Some (1, CHR 0x80, CHR 0xBF)
     else if within (CHR 0xC2) (CHR 0xDF) c then Some (2, CHR 0x80, CHR 0xBF)
     else if c = CHR 0xE0 then Some (3, CHR 0xA0, CHR 0xBF)
     else if c = CHR 0xED then Some (3, CHR 0x80, CHR 0x9F)
     else if within (CHR 0xE1) (CHR 0xEF) c then Some (3, CHR 0x80, CHR 0xBF)
     else if c = CHR 0xF0 then Some (4, CHR 0x90, CHR 0xBF)
     else if within (CHR 0xF1) (CHR 0xF3) c then Some (4, CHR 0x80, CHR 0xBF)
     else if c = CHR 0xF4 then Some (4, CHR 0x80, CHR 0x8F)
     else None)"

definition continued :: "nat \<Rightarrow> char \<Rightarrow> char \<Rightarrow> string \<Rightarrow> bool" where
  "continued n lo hi cs \<longleftrightarrow> n \<le> length cs
     \<and> (n > 0 \<longrightarrow> within lo hi (hd cs)) \<and> list_all (\<lambda>c. \<not> RuneStart c) (take n cs)"

fun rune_len :: "string \<Rightarrow> nat option" where
  "rune_len [] = None"
| "rune_len (c # cs) = (case announced c of None \<Rightarrow> None
    | Some (n, lo, hi) \<Rightarrow> if continued (n - 1) lo hi cs then Some n else None)"

subsection \<open>The cuts\<close>

function head_cut :: "string \<Rightarrow> nat \<Rightarrow> string" where
  "head_cut cut' k =
    (if k > length cut' \<or> k \<ge> 4 then cut'
     else let i = length cut' - k in
       if \<not> RuneStart (cut' ! i) then head_cut cut' (Suc k)
       else if rune_len (drop i cut') \<noteq> None then cut'
       else take i cut')"
  by pat_completeness auto
termination
  by (relation "measure (\<lambda>(_, k). 4 - k)") auto

declare head_cut.simps [simp del]

text \<open>\<open>head_cut\<close> counts from the end: \<open>k\<close> is \<^verbatim>\<open>len(cut)-i\<close>, from one to \<^verbatim>\<open>utf8.UTFMax\<close>.\<close>

definition Head :: "string \<Rightarrow> int \<Rightarrow> string" where
  "Head s most =
    (if most \<le> 0 then []
     else if int (length s) \<le> most then s
     else head_cut (take (nat most) s) 1)"

fun drop_split :: "nat \<Rightarrow> string \<Rightarrow> string" where
  "drop_split 0 s = s"
| "drop_split (Suc n) [] = []"
| "drop_split (Suc n) (c # cs) = (if RuneStart c then c # cs else drop_split n cs)"

definition Tail :: "string \<Rightarrow> int \<Rightarrow> string" where
  "Tail s most =
    (if most \<le> 0 then []
     else if int (length s) \<le> most then s
     else drop_split 3 (drop (length s - nat most) s))"

text \<open>Ranging over a string: a character where one decodes, one byte where none does.\<close>

definition rune_step :: "string \<Rightarrow> nat" where
  "rune_step s = (case rune_len s of Some n \<Rightarrow> n | None \<Rightarrow> 1)"

lemma announced_size: "announced c = Some (n, lo, hi) \<Longrightarrow> 1 \<le> n \<and> n \<le> 4"
  by (auto simp: announced_def split: if_splits)

lemma rune_len_bounds: "rune_len s = Some n \<Longrightarrow> 1 \<le> n \<and> n \<le> 4 \<and> n \<le> length s"
  by (cases s) (auto simp: continued_def split: option.splits if_splits dest: announced_size)

lemma rune_step_pos: "0 < rune_step s"
  using rune_len_bounds by (fastforce simp: rune_step_def split: option.splits)

lemma rune_step_drops [termination_simp]: "s \<noteq> [] \<Longrightarrow> length (drop (rune_step s) s) < length s"
  using rune_step_pos [of s] by simp

function runes :: "string \<Rightarrow> string list" where
  "runes s = (if s = [] then [] else take (rune_step s) s # runes (drop (rune_step s) s))"
  by pat_completeness auto
termination
  by (relation "measure length") (auto simp: rune_step_pos)

declare runes.simps [simp del]

definition HeadRunes :: "string \<Rightarrow> int \<Rightarrow> string" where
  "HeadRunes s most =
    (if most \<le> 0 then []
     else if int (length (runes s)) \<le> most then s
     else concat (take (nat most) (runes s)))"

subsection \<open>Text an engine will store\<close>

definition replacement :: string where
  "replacement = [CHR 0xEF, CHR 0xBF, CHR 0xBD]"

text \<open>\<^verbatim>\<open>strings.ToValidUTF8\<close>: each run of bytes that decode to nothing becomes the replacement.\<close>

function to_valid :: "string \<Rightarrow> bool \<Rightarrow> string \<Rightarrow> string" where
  "to_valid by' broken s =
    (if s = [] then []
     else case rune_len s of
         Some n \<Rightarrow> take n s @ to_valid by' False (drop n s)
       | None \<Rightarrow> (if broken then [] else by') @ to_valid by' True (tl s))"
  by pat_completeness auto
termination
  by (relation "measure (\<lambda>(_, _, s). length s)") (auto dest: rune_len_bounds)

declare to_valid.simps [simp del]

definition hasInvalid :: "string \<Rightarrow> bool" where
  "hasInvalid s \<longleftrightarrow> to_valid [] False s \<noteq> s"

definition Text :: "string \<Rightarrow> string" where
  "Text s = (if CHR 0x00 \<notin> set s \<and> \<not> hasInvalid s then s
     else filter (\<lambda>c. c \<noteq> CHR 0x00) (to_valid replacement False s))"

subsection \<open>What a valid text is made of\<close>

definition rune :: "string \<Rightarrow> bool" where
  "rune r \<longleftrightarrow> rune_len r = Some (length r)"

inductive valid :: "string \<Rightarrow> bool" where
  empty: "valid []"
| more: "rune r \<Longrightarrow> valid s \<Longrightarrow> valid (r @ s)"

lemma announced_start: "announced c = Some x \<Longrightarrow> RuneStart c"
  by (auto simp: announced_def RuneStart_def within_def less_eq_char_def split: if_splits)

lemma rune_shape: "rune r \<Longrightarrow> \<exists>c cs. r = c # cs \<and> RuneStart c \<and> length cs \<le> 3 \<and> list_all (\<lambda>d. \<not> RuneStart d) cs"
  by (cases r) (auto simp: rune_def continued_def announced_start split: option.splits if_splits dest: announced_size)

text \<open>A decode reads only the bytes it answers, and a character cut short decodes to nothing.\<close>

lemma rune_len_take: "rune_len s = Some n \<Longrightarrow> rune (take n s)"
  by (cases s) (auto simp: rune_def continued_def take_Cons' hd_conv_nth split: option.splits if_splits
      dest: announced_size)

lemma rune_len_append: "rune r \<Longrightarrow> rune_len (r @ s) = Some (length r)"
  by (cases r) (auto simp: rune_def continued_def hd_append split: option.splits if_splits)

lemma rune_len_short:
  assumes "rune (p @ q)" and "p \<noteq> []" and "q \<noteq> []"
  shows "rune_len p = None"
  using assms by (cases p) (auto simp: rune_def continued_def split: option.splits if_splits)

lemma valid_append: "valid s \<Longrightarrow> valid t \<Longrightarrow> valid (s @ t)"
  by (induction s rule: valid.induct) (auto intro: valid.intros)

subsection \<open>The cuts keep characters whole\<close>

lemma rune_ends: "rune r \<Longrightarrow> r \<noteq> [] \<and> length r \<le> 4"
  by (auto dest: rune_shape)

text \<open>Where the walk back from the end stops: at the byte the last character begins with.\<close>

lemma head_cut_walk:
  assumes "list_all (\<lambda>c. \<not> RuneStart c) cs" and "RuneStart c" and "length cs \<le> 2"
  shows "head_cut (s @ c # cs) 1 = (if rune_len (c # cs) \<noteq> None then s @ c # cs else s)"
proof -
  let ?t = "s @ c # cs"
  have skip: "head_cut ?t k = head_cut ?t (Suc k)" if "1 \<le> k" "k \<le> length cs" for k
  proof -
    have "length ?t - k = length s + Suc (length cs - k)" using that by simp
    then have "?t ! (length ?t - k) = cs ! (length cs - k)" by (simp only: nth_append_length_plus nth_Cons_Suc)
    moreover have "\<not> RuneStart (cs ! (length cs - k))"
      using assms(1) that by (simp add: list_all_length)
    ultimately show ?thesis using that assms(3) by (simp add: head_cut.simps [of ?t k] Let_def)
  qed
  have stop: "head_cut ?t (Suc (length cs)) = (if rune_len (c # cs) \<noteq> None then ?t else s)"
    using assms(2,3) by (simp add: head_cut.simps [of ?t "Suc (length cs)"] Let_def nth_append)
  consider "length cs = 0" | "length cs = 1" | "length cs = 2" using assms(3) by linarith
  then show ?thesis
  proof cases
    case 1
    then show ?thesis using stop by simp
  next
    case 2
    then show ?thesis using stop skip [of 1] by simp
  next
    case 3
    then show ?thesis using stop skip [of 1] skip [of 2] by (simp add: numeral_eq_Suc)
  qed
qed

lemma head_cut_long:
  assumes "list_all (\<lambda>c. \<not> RuneStart c) cs" and "length cs = 3"
  shows "head_cut (s @ c # cs) 1 = s @ c # cs"
proof -
  let ?t = "s @ c # cs"
  have skip: "head_cut ?t k = head_cut ?t (Suc k)" if "1 \<le> k" "k \<le> 3" for k
  proof -
    have "length ?t - k = length s + Suc (length cs - k)" using that assms(2) by simp
    then have "?t ! (length ?t - k) = cs ! (length cs - k)" by (simp only: nth_append_length_plus nth_Cons_Suc)
    moreover have "\<not> RuneStart (cs ! (length cs - k))"
      using assms that by (simp add: list_all_length)
    ultimately show ?thesis using that assms(2) by (simp add: head_cut.simps [of ?t k] Let_def)
  qed
  have "head_cut ?t 4 = ?t" by (simp add: head_cut.simps [of ?t 4])
  then show ?thesis using skip [of 1] skip [of 2] skip [of 3] by (simp add: numeral_eq_Suc)
qed

text \<open>A character at the end of the cut is kept, and the first bytes of one are dropped.\<close>

lemma head_cut_whole: "rune r \<Longrightarrow> head_cut (s @ r) 1 = s @ r"
proof -
  assume r: "rune r"
  from rune_shape [OF r] obtain c cs where shape: "r = c # cs" "RuneStart c" "length cs \<le> 3"
    "list_all (\<lambda>d. \<not> RuneStart d) cs" by blast
  show ?thesis
  proof (cases "length cs = 3")
    case True
    then show ?thesis using head_cut_long shape by simp
  next
    case False
    then show ?thesis using head_cut_walk [of cs c s] shape r by (simp add: rune_def)
  qed
qed

lemma head_cut_partial:
  assumes "rune (p @ q)" and "p \<noteq> []" and "q \<noteq> []"
  shows "head_cut (s @ p) 1 = s"
proof -
  from rune_shape [OF assms(1)] obtain c cs where shape: "p @ q = c # cs" "RuneStart c" "length cs \<le> 3"
    "list_all (\<lambda>d. \<not> RuneStart d) cs" by blast
  from shape(1) assms(2) obtain ds where p: "p = c # ds" "cs = ds @ q" by (cases p) auto
  then have "length ds \<le> 2" using shape(3) assms(3) by (cases q) auto
  then show ?thesis using head_cut_walk [of ds c s] shape(2,4) p rune_len_short [OF assms] by simp
qed

text \<open>Any prefix of a valid text is whole characters and the beginning of one more.\<close>

lemma valid_prefix:
  assumes "valid s" and "s = t @ u" and "u \<noteq> []"
  obtains whole p q where "valid whole" "t = whole @ p" "rune (p @ q)" "q \<noteq> []"
  using assms
proof (induction s arbitrary: t thesis rule: valid.induct)
  case empty
  then show ?case by simp
next
  case (more r s)
  show ?case
  proof (cases "length t < length r")
    case True
    then have "r = t @ drop (length t) r" using more.prems(2)
      by (metis append_eq_conv_conj append_take_drop_id less_imp_le_nat take_append append_Nil2
          diff_is_0_eq take0)
    moreover have "drop (length t) r \<noteq> []" using True by simp
    ultimately show ?thesis using more.prems(1) [of "[]" t] valid.empty more.hyps(1) by (metis append_Nil)
  next
    case False
    have "take (length r) (r @ s) = take (length r) (t @ u)" using more.prems(2) by simp
    then have "r = take (length r) t" using False by simp
    then obtain t' where t: "t = r @ t'" by (metis append_take_drop_id)
    then have "s = t' @ u" using more.prems(2) by simp
    then obtain whole p q where "valid whole" "t' = whole @ p" "rune (p @ q)" "q \<noteq> []"
      using more.IH [OF _ _ more.prems(3)] by metis
    then show ?thesis using more.prems(1) [of "r @ whole" p q] valid.more [OF more.hyps(1)] t by simp
  qed
qed

text \<open>Whole characters end with a character, so the cut finds one there.\<close>

lemma valid_last: "valid s \<Longrightarrow> s \<noteq> [] \<Longrightarrow> \<exists>t r. s = t @ r \<and> valid t \<and> rune r"
proof (induction s rule: valid.induct)
  case (more r s)
  show ?case
  proof (cases "s = []")
    case True
    then show ?thesis using more.hyps(1) valid.empty by (intro exI [of _ "[]"] exI [of _ r]) simp
  next
    case False
    then obtain t r' where "s = t @ r'" "valid t" "rune r'" using more.IH by blast
    then show ?thesis using valid.more [OF more.hyps(1)] by (intro exI [of _ "r @ t"] exI [of _ r']) simp
  qed
qed simp

lemma head_cut_valid: "valid s \<Longrightarrow> s \<noteq> [] \<Longrightarrow> head_cut s 1 = s"
  using valid_last head_cut_whole by metis

lemma head_cut_shape: "1 \<le> k \<Longrightarrow> \<exists>j \<le> 3. head_cut c k = take (length c - j) c"
proof (induction c k rule: head_cut.induct)
  case (1 c k)
  show ?case
  proof (cases "k > length c \<or> k \<ge> 4")
    case True
    then have "head_cut c k = take (length c - 0) c" by (simp add: head_cut.simps [of c k])
    then show ?thesis by (intro exI [of _ 0]) simp
  next
    case False
    then show ?thesis
    proof (cases "RuneStart (c ! (length c - k))")
      case True
      then have "head_cut c k = take (length c - (if rune_len (drop (length c - k) c) \<noteq> None then 0 else k)) c"
        using False by (simp add: head_cut.simps [of c k] Let_def)
      moreover have "(if rune_len (drop (length c - k) c) \<noteq> None then 0 else k) \<le> 3" using False by auto
      ultimately show ?thesis by blast
    next
      case skip: False
      then have "head_cut c k = head_cut c (Suc k)" using False by (simp add: head_cut.simps [of c k] Let_def)
      then show ?thesis using "1.IH" [OF False refl skip] by simp
    qed
  qed
qed

lemma Head_shape:
  "\<exists>u. s = Head s most @ u" "int (length (Head s most)) \<le> max 0 most"
  "0 < most \<Longrightarrow> most < int (length s) \<Longrightarrow> most - 3 \<le> int (length (Head s most))"
proof -
  obtain j where j: "j \<le> 3" "head_cut (take (nat most) s) 1 = take (length (take (nat most) s) - j) (take (nat most) s)"
    using head_cut_shape [of 1 "take (nat most) s"] by auto
  then have cut: "head_cut (take (nat most) s) 1 = take (length (take (nat most) s) - j) s"
    by (simp add: min_def)
  show "\<exists>u. s = Head s most @ u"
    using cut by (auto simp: Head_def intro: exI [of _ "drop (length (take (nat most) s) - j) s"])
  show "int (length (Head s most)) \<le> max 0 most" using cut by (auto simp: Head_def)
  show "0 < most \<Longrightarrow> most < int (length s) \<Longrightarrow> most - 3 \<le> int (length (Head s most))"
    using cut j(1) by (auto simp: Head_def)
qed

lemma Head_valid:
  assumes "valid s"
  shows "valid (Head s most)"
proof (cases "most \<le> 0 \<or> int (length s) \<le> most")
  case True
  then show ?thesis using assms by (auto simp: Head_def intro: valid.empty)
next
  case False
  let ?t = "take (nat most) s" and ?u = "drop (nat most) s"
  have "?u \<noteq> []" using False by (simp add: not_le nat_less_iff)
  with assms obtain whole p q where w: "valid whole" "?t = whole @ p" "rune (p @ q)" "q \<noteq> []"
    using valid_prefix [of s ?t ?u] by (metis append_take_drop_id)
  have head: "Head s most = head_cut ?t 1" using False by (simp add: Head_def)
  have "?t \<noteq> []" using False by (cases s) auto
  show ?thesis
  proof (cases "p = []")
    case True
    then show ?thesis using head w head_cut_valid [of whole] \<open>?t \<noteq> []\<close> by simp
  next
    case False
    then show ?thesis using head w head_cut_partial [of p q whole] by simp
  qed
qed

subsection \<open>The cut from the end\<close>

lemma drop_split_skips: "list_all (\<lambda>c. \<not> RuneStart c) q \<Longrightarrow> length q \<le> n \<Longrightarrow> w = [] \<or> RuneStart (hd w)
    \<Longrightarrow> drop_split n (q @ w) = w"
proof (induction q arbitrary: n)
  case Nil
  then show ?case by (cases n; cases w) auto
next
  case (Cons c q)
  then show ?case by (cases n) auto
qed

lemma valid_hd: "valid s \<Longrightarrow> s = [] \<or> RuneStart (hd s)"
  by (induction s rule: valid.induct) (auto dest: rune_shape)

lemma valid_suffix:
  assumes "valid s" and "s = t @ u"
  shows "\<exists>q w. u = q @ w \<and> valid w \<and> length q \<le> 3 \<and> list_all (\<lambda>c. \<not> RuneStart c) q"
  using assms
proof (induction s arbitrary: t rule: valid.induct)
  case empty
  then show ?case using valid.empty by (intro exI [of _ "[]"]) auto
next
  case (more r s)
  show ?case
  proof (cases t)
    case Nil
    then show ?thesis using more.prems valid.more [OF more.hyps(1,2)]
      by (intro exI [of _ "[]"] exI [of _ "r @ s"]) simp
  next
    case (Cons c t')
    from rune_shape [OF more.hyps(1)] obtain cs where r: "r = c # cs" "length cs \<le> 3"
      "list_all (\<lambda>d. \<not> RuneStart d) cs" using more.prems Cons by auto
    then have split: "cs @ s = t' @ u" using more.prems Cons by simp
    show ?thesis
    proof (cases "length t' \<le> length cs")
      case True
      have "u = drop (length t') (cs @ s)" using split by simp
      then have "u = drop (length t') cs @ s" using True by simp
      moreover have "list_all (\<lambda>d. \<not> RuneStart d) (drop (length t') cs)"
        using r(3) by (auto simp: list_all_iff dest: in_set_dropD)
      ultimately show ?thesis using r(2) more.hyps(2)
        by (intro exI [of _ "drop (length t') cs"] exI [of _ s]) auto
    next
      case False
      have "drop (length cs) (cs @ s) = drop (length cs) (t' @ u)" using split by simp
      then have "s = drop (length cs) t' @ u" using False by simp
      then show ?thesis by (rule more.IH)
    qed
  qed
qed

lemma Tail_valid:
  assumes "valid s"
  shows "valid (Tail s most)"
proof (cases "most \<le> 0 \<or> int (length s) \<le> most")
  case True
  then show ?thesis using assms by (auto simp: Tail_def intro: valid.empty)
next
  case False
  let ?n = "length s - nat most"
  obtain q w where "drop ?n s = q @ w" "valid w" "length q \<le> 3" "list_all (\<lambda>c. \<not> RuneStart c) q"
    using valid_suffix [OF assms, of "take ?n s" "drop ?n s"] by auto
  then show ?thesis using False drop_split_skips [of q 3 w] valid_hd [of w] by (simp add: Tail_def)
qed

lemma drop_split_suffix: "\<exists>t. s = t @ drop_split n s \<and> length t \<le> n"
proof (induction n s rule: drop_split.induct)
  case (3 n c cs)
  then show ?case by (auto intro: exI [of _ "[]"]) (metis append_Cons length_Cons Suc_le_mono)
qed auto

subsection \<open>Cutting by characters\<close>

lemma concat_runes: "concat (runes s) = s"
  by (induction s rule: runes.induct) (simp add: runes.simps)

lemma rune_step_prefix:
  assumes "s \<noteq> []" and "s = (take (rune_step s) s @ x) @ y"
  shows "rune_step (take (rune_step s) s @ x) = rune_step s"
proof (cases "rune_len s")
  case (Some n)
  then have "rune (take n s)" and "length (take n s) = n" using rune_len_take rune_len_bounds by auto
  then show ?thesis using Some rune_len_append [of "take n s" x] by (simp add: rune_step_def)
next
  case None
  let ?p = "take (rune_step s) s @ x"
  have "rune_len ?p = None"
  proof (cases "rune_len ?p")
    case (Some k)
    then have "rune (take k ?p)" by (rule rune_len_take)
    then have "rune_len (take k ?p @ (drop k ?p @ y)) = Some (length (take k ?p))" by (rule rune_len_append)
    then show ?thesis using None assms(2) by (metis append.assoc append_take_drop_id option.distinct(1))
  qed
  then show ?thesis using None by (simp add: rune_step_def)
qed

lemma runes_prefix: "runes (concat (take n (runes s))) = take n (runes s)"
proof (induction s arbitrary: n rule: runes.induct)
  case (1 s)
  show ?case
  proof (cases "s = [] \<or> n = 0")
    case True
    then show ?thesis by (auto simp: runes.simps [of s] runes.simps [of "[]"])
  next
    case False
    then obtain m where n: "n = Suc m" by (cases n) auto
    let ?r = "take (rune_step s) s" and ?rest = "drop (rune_step s) s"
    let ?x = "concat (take m (runes ?rest))"
    have "s = (?r @ ?x) @ concat (drop m (runes ?rest))"
      using concat_runes [of ?rest] by (metis append.assoc append_take_drop_id concat_append)
    then have step: "rune_step (?r @ ?x) = rune_step s" using rune_step_prefix False by blast
    have len: "length ?r = rune_step s"
      using rune_len_bounds [of s] False by (auto simp: rune_step_def Suc_le_eq split: option.splits)
    have "concat (take n (runes s)) = ?r @ ?x" using False n by (simp add: runes.simps [of s])
    moreover have "runes (?r @ ?x) = ?r # runes ?x"
      using step len False rune_step_pos [of s] by (simp add: runes.simps [of "?r @ ?x"])
    moreover have "runes ?x = take m (runes ?rest)" using "1.IH" False by blast
    ultimately show ?thesis using False n by (simp add: runes.simps [of s])
  qed
qed

subsection \<open>Storable text\<close>

lemma rune_replacement: "rune replacement"
  by (simp add: rune_def replacement_def announced_def within_def continued_def RuneStart_def
      less_eq_char_def)

lemma to_valid_valid: "by' = [] \<or> rune by' \<Longrightarrow> valid (to_valid by' broken s)"
proof (induction by' broken s rule: to_valid.induct)
  case (1 by' broken s)
  show ?case
  proof (cases "s = []")
    case True
    then show ?thesis using valid.empty by (simp add: to_valid.simps)
  next
    case False
    show ?thesis
    proof (cases "rune_len s")
      case (Some n)
      then have "to_valid by' broken s = take n s @ to_valid by' False (drop n s)"
        using False by (simp add: to_valid.simps [of by' broken s])
      then show ?thesis using "1.IH"(2) [OF False Some] "1.prems" rune_len_take [OF Some] valid.more by simp
    next
      case None
      then have "to_valid by' broken s = (if broken then [] else by') @ to_valid by' True (tl s)"
        using False by (simp add: to_valid.simps [of by' broken s])
      then show ?thesis using "1.IH"(1) [OF False None] "1.prems" valid.more by auto
    qed
  qed
qed

lemma to_valid_same: "valid s \<Longrightarrow> to_valid by' broken s = s"
proof (induction s arbitrary: broken rule: valid.induct)
  case (more r s)
  then show ?case using rune_ends [OF more.hyps(1)] rune_len_append [OF more.hyps(1), of s]
    by (simp add: to_valid.simps [of by' broken "r @ s"])
qed (simp add: to_valid.simps)

lemma hasInvalid_iff: "hasInvalid s \<longleftrightarrow> \<not> valid s"
  using to_valid_same [of s "[]" False] to_valid_valid [of "[]" False s] by (auto simp: hasInvalid_def)

text \<open>A zero byte is a character of its own, so dropping it splits no other.\<close>

lemma rune_zero:
  assumes "rune r" and "CHR 0x00 \<in> set r"
  shows "r = [CHR 0x00]"
proof -
  from rune_shape [OF assms(1)] obtain c cs where r: "r = c # cs" "list_all (\<lambda>d. \<not> RuneStart d) cs" by blast
  have "RuneStart (CHR 0x00)" by (simp add: RuneStart_def less_eq_char_def)
  then have "CHR 0x00 \<notin> set cs" using r(2) by (auto simp: list_all_iff)
  then have "c = CHR 0x00" using r assms(2) by auto
  then show ?thesis using assms(1) r by (simp add: rune_def announced_def less_eq_char_def split: if_splits)
qed

lemma valid_without_zero: "valid s \<Longrightarrow> valid (filter (\<lambda>c. c \<noteq> CHR 0x00) s)"
proof (induction s rule: valid.induct)
  case (more r s)
  show ?case
  proof (cases "CHR 0x00 \<in> set r")
    case True
    then show ?thesis using rune_zero [OF more.hyps(1)] more.IH by simp
  next
    case False
    then have "filter (\<lambda>c. c \<noteq> CHR 0x00) r = r" by (auto intro: filter_True)
    then show ?thesis using valid.more [OF more.hyps(1) more.IH] by simp
  qed
qed (simp add: valid.empty)

lemma Text_storable: "valid (Text s) \<and> CHR 0x00 \<notin> set (Text s)"
  using to_valid_valid [of replacement False s] rune_replacement valid_without_zero
  by (auto simp: Text_def hasInvalid_iff)

lemma Text_same: "valid s \<Longrightarrow> CHR 0x00 \<notin> set s \<Longrightarrow> Text s = s"
  by (simp add: Text_def hasInvalid_iff)

subsection \<open>Properties\<close>

text \<open>
  A cut of a text made of whole characters is made of whole characters, from whichever end it
  is cut; it is within the bound, is a part of the text as it was, and gives up at most the three
  bytes a split character can leave.
\<close>

theorem cuts_keep_characters_whole:
  assumes "valid s"
  shows "valid (Head s most) \<and> valid (Tail s most)
    \<and> (\<exists>u. s = Head s most @ u) \<and> (\<exists>t. s = t @ Tail s most)
    \<and> int (length (Head s most)) \<le> max 0 most \<and> int (length (Tail s most)) \<le> max 0 most
    \<and> min most (int (length s)) - 3 \<le> int (length (Head s most))"
proof (intro conjI)
  show "valid (Head s most)" "valid (Tail s most)"
    using Head_valid [OF assms] Tail_valid [OF assms] by simp_all
  show "\<exists>u. s = Head s most @ u" "int (length (Head s most)) \<le> max 0 most" by (rule Head_shape)+
  show "min most (int (length s)) - 3 \<le> int (length (Head s most))"
    using Head_shape(3) [of most s] by (auto simp: Head_def min_def)
  obtain t where t: "drop (length s - nat most) s = t @ drop_split 3 (drop (length s - nat most) s)"
    using drop_split_suffix [of "drop (length s - nat most) s" 3] by auto
  then have "s = (take (length s - nat most) s @ t) @ drop_split 3 (drop (length s - nat most) s)"
    by (metis append.assoc append_take_drop_id)
  then show "\<exists>t. s = t @ Tail s most" unfolding Tail_def by (metis append_Nil append_Nil2)
  have "length (drop_split 3 (drop (length s - nat most) s)) \<le> nat most"
    using arg_cong [OF t, of length] by simp
  then show "int (length (Tail s most)) \<le> max 0 most" by (auto simp: Tail_def)
qed

theorem cuts_keep_characters_whole_witness:
  "valid [CHR 0xE2, CHR 0x82, CHR 0xAC, CHR ''a''] \<and> Head [CHR 0xE2, CHR 0x82, CHR 0xAC, CHR ''a''] 2 = []
    \<and> valid (Tail [CHR 0xE2, CHR 0x82, CHR 0xAC, CHR ''a''] 3)"
proof -
  have euro: "rune [CHR 0xE2, CHR 0x82, CHR 0xAC]" and a: "rune ''a''"
    by (simp_all add: rune_def announced_def within_def continued_def RuneStart_def less_eq_char_def)
  then have "valid [CHR 0xE2, CHR 0x82, CHR 0xAC, CHR ''a'']"
    using valid.more [OF euro valid.more [OF a valid.empty]] by simp
  moreover have "Head [CHR 0xE2, CHR 0x82, CHR 0xAC, CHR ''a''] 2 = []" by code_simp
  ultimately show ?thesis using cuts_keep_characters_whole [of _ 3] by blast
qed

text \<open>
  A cut by characters keeps the first of them: what is kept reads as exactly as many
  characters as were asked for, or as all there were, whatever the bytes are.
\<close>

theorem head_runes_counts_characters:
  "runes (HeadRunes s most) = take (nat most) (runes s) \<and> (\<exists>u. s = HeadRunes s most @ u)"
proof
  show "runes (HeadRunes s most) = take (nat most) (runes s)"
    using runes_prefix [of "nat most" s] by (auto simp: HeadRunes_def runes.simps [of "[]"])
  show "\<exists>u. s = HeadRunes s most @ u"
    using concat_runes [of s]
    by (auto simp: HeadRunes_def intro: exI [of _ "concat (drop (nat most) (runes s))"]
        simp flip: concat_append)
qed

text \<open>
  Whatever bytes a program wrote, the text made of them decodes throughout and holds no zero
  byte, making it twice changes nothing more, and a text that was storable is left as it is.
\<close>

theorem text_is_storable:
  "valid (Text s) \<and> CHR 0x00 \<notin> set (Text s) \<and> Text (Text s) = Text s
    \<and> (Text s = s \<longleftrightarrow> valid s \<and> CHR 0x00 \<notin> set s)"
  using Text_storable [of s] Text_same [of s] Text_same [of "Text s"] by metis

end
