(* ===== verification/Queue.thy ===== *)
theory Queue
  imports Transactions Bound
begin

section \<open>The work queue\<close>

text \<open>
  \<^verbatim>\<open>internal/queue/queue.go\<close> and \<^verbatim>\<open>claim_locking.go\<close>: the job table, every statement that
  changes it as a function of the clock and the table, the closures that are tried again when a
  commit is refused, the renewal loop of a running job and the settling of one. Instants and
  durations are nanoseconds. A comparison with a column that is null is false, as in SQL.
\<close>

datatype State = Pending | Running | Done | Failed

record Job =
  job_id :: int
  job_kind :: string
  reference :: string
  state :: State
  attempts :: int
  max_attempts :: int
  run_after :: int
  claimed_by :: "string option"
  claimed_at :: "int option"
  last_error :: "string option"
  created_at :: int
  updated_at :: int

text \<open>The table with the key its next row gets.\<close>

record jobs =
  rows :: "Job list"
  next_id :: int

record Options =
  MaxAttempts :: int
  MaxBacklog :: int
  ClaimTimeout :: int
  Heartbeat :: int
  MaxHold :: int
  Backoff :: int

datatype queue_error = ErrBacklogFull int string int | ErrNoLongerHeld | ErrHeldTooLong
  | ErrNotFailed | ErrNoRow int | ErrHeartbeat int int | ErrHold int int | ErrWork string

definition truncate_us :: "int \<Rightarrow> int" where
  "truncate_us t = t - t mod 1000"

definition Check :: "Options \<Rightarrow> queue_error option" where
  "Check opts =
    (if Heartbeat opts > 0 \<and> ClaimTimeout opts > 0 \<and> Heartbeat opts \<ge> ClaimTimeout opts
     then Some (ErrHeartbeat (Heartbeat opts) (ClaimTimeout opts))
     else if MaxHold opts > 0 \<and> ClaimTimeout opts > 0 \<and> MaxHold opts \<le> ClaimTimeout opts
     then Some (ErrHold (MaxHold opts) (ClaimTimeout opts))
     else None)"

subsection \<open>Statements\<close>

definition before :: "int option \<Rightarrow> int \<Rightarrow> bool" where
  "before column t = (case column of None \<Rightarrow> False | Some c \<Rightarrow> c < t)"

definition find_job :: "int \<Rightarrow> jobs \<Rightarrow> Job option" where
  "find_job i q = find (\<lambda>j. job_id j = i) (rows q)"

text \<open>An \<^verbatim>\<open>UPDATE\<close>: how many rows matched, and the table with each of them changed.\<close>

definition update_where :: "(Job \<Rightarrow> bool) \<Rightarrow> (Job \<Rightarrow> Job) \<Rightarrow> jobs \<Rightarrow> nat \<times> jobs" where
  "update_where p f q = (length (filter p (rows q)), q\<lparr>rows := map (\<lambda>j. if p j then f j else j) (rows q)\<rparr>)"

definition insert_job :: "Job \<Rightarrow> jobs \<Rightarrow> Job \<times> jobs" where
  "insert_job j q = (let j = j\<lparr>job_id := next_id q\<rparr> in (j, q\<lparr>rows := rows q @ [j], next_id := next_id q + 1\<rparr>))"

definition depthIn :: "Options \<Rightarrow> int \<Rightarrow> string \<Rightarrow> jobs \<Rightarrow> int" where
  "depthIn opts now kind q =
    (let stale = truncate_us now - ClaimTimeout opts in
     int (length (filter (\<lambda>j. job_kind j = kind
       \<and> (state j = Pending \<or> (state j = Running \<and> before (claimed_at j) stale \<and> attempts j < max_attempts j)))
       (rows q))))"

text \<open>\<open>limit\<close> is what \<^verbatim>\<open>backlogLimit\<close> read: the setting, or \<^const>\<open>MaxBacklog\<close>.\<close>

definition AddTx :: "Options \<Rightarrow> int \<Rightarrow> int \<Rightarrow> string \<Rightarrow> string \<Rightarrow> jobs \<Rightarrow> (queue_error + Job) \<times> jobs" where
  "AddTx opts limit now kind ref q =
    (let depth = depthIn opts now kind q in
     if depth \<ge> limit then (Inl (ErrBacklogFull depth kind limit), q)
     else let now = truncate_us now;
              (j, q') = insert_job \<lparr>job_id = 0, job_kind = kind, reference = ref, state = Pending,
                attempts = 0, max_attempts = MaxAttempts opts, run_after = now, claimed_by = None,
                claimed_at = None, last_error = None, created_at = now, updated_at = now\<rparr> q
          in (Inr j, q'))"

definition claimable :: "int \<Rightarrow> int \<Rightarrow> Job \<Rightarrow> bool" where
  "claimable now staleBefore j \<longleftrightarrow>
     (state j = Pending \<and> run_after j \<le> now)
     \<or> (state j = Running \<and> before (claimed_at j) staleBefore \<and> attempts j < max_attempts j)"

text \<open>The oldest claimable job of a kind: \<^verbatim>\<open>ORDER BY "id" LIMIT 1\<close>.\<close>

definition claimableID :: "string \<Rightarrow> int \<Rightarrow> int \<Rightarrow> jobs \<Rightarrow> int option" where
  "claimableID kind now staleBefore q =
    (case sort (map job_id (filter (\<lambda>j. job_kind j = kind \<and> claimable now staleBefore j) (rows q))) of
       [] \<Rightarrow> None | i # _ \<Rightarrow> Some i)"

text \<open>The conditional update of a claim, which repeats what the select checked.\<close>

definition claim_update :: "Options \<Rightarrow> int \<Rightarrow> string \<Rightarrow> int \<Rightarrow> jobs \<Rightarrow> nat \<times> jobs" where
  "claim_update opts now worker i =
    update_where (\<lambda>j. job_id j = i \<and> claimable now (now - ClaimTimeout opts) j)
      (\<lambda>j. j\<lparr>state := Running, attempts := attempts j + 1, claimed_by := Some worker,
        claimed_at := Some now, updated_at := now\<rparr>)"

definition Claim :: "Options \<Rightarrow> int \<Rightarrow> string \<Rightarrow> string \<Rightarrow> jobs \<Rightarrow> Job option \<times> jobs" where
  "Claim opts now worker kind q =
    (let now = truncate_us now in
     case claimableID kind now (now - ClaimTimeout opts) q of None \<Rightarrow> (None, q)
     | Some i \<Rightarrow> (case claim_update opts now worker i q of (n, q') \<Rightarrow>
         if n = 0 then (None, q') else (find_job i q', q')))"

definition ErrWorkerGone :: string where
  "ErrWorkerGone = ''the worker holding this job never reported back''"

definition Bury :: "Options \<Rightarrow> int \<Rightarrow> jobs \<Rightarrow> nat \<times> jobs" where
  "Bury opts now =
    (let now = truncate_us now; stale = now - ClaimTimeout opts in
     update_where (\<lambda>j. state j = Running \<and> before (claimed_at j) stale \<and> attempts j \<ge> max_attempts j)
       (\<lambda>j. j\<lparr>state := Failed, last_error := Some ErrWorkerGone, claimed_by := None, updated_at := now\<rparr>))"

definition heldBy :: "int \<Rightarrow> string \<Rightarrow> Job \<Rightarrow> bool" where
  "heldBy i worker j \<longleftrightarrow> job_id j = i \<and> state j = Running \<and> claimed_by j = Some worker"

definition held :: "nat \<Rightarrow> queue_error option" where
  "held n = (if n = 0 then Some ErrNoLongerHeld else None)"

definition renewIn :: "int \<Rightarrow> string \<Rightarrow> int \<Rightarrow> jobs \<Rightarrow> queue_error option \<times> jobs" where
  "renewIn i worker now q =
    (case update_where (heldBy i worker)
       (\<lambda>j. j\<lparr>claimed_at := Some (truncate_us now), updated_at := truncate_us now\<rparr>) q of
       (n, q') \<Rightarrow> (held n, q'))"

subsection \<open>Closures that are tried again\<close>

text \<open>
  The local state is \<^verbatim>\<open>matched\<close>: an earlier attempt matched the row, and its commit was reported
  refused. \<^verbatim>\<open>Succeed\<close> keeps none and asks the row.
\<close>

definition succeed_tx :: "int \<Rightarrow> string \<Rightarrow> int \<Rightarrow> bool \<Rightarrow> jobs \<Rightarrow> queue_error option \<times> bool \<times> jobs" where
  "succeed_tx i worker now l q =
    (case update_where (heldBy i worker)
       (\<lambda>j. j\<lparr>state := Done, claimed_by := None, updated_at := truncate_us now\<rparr>) q of
       (n, q') \<Rightarrow>
         if held n = None then (None, l, q')
         else case find_job i q' of None \<Rightarrow> (Some ErrNoLongerHeld, l, q')
           | Some ending \<Rightarrow> (if state ending = Done then None else Some ErrNoLongerHeld, l, q'))"

definition mostOfAnError :: int where
  "mostOfAnError = 4096"

text \<open>\<^verbatim>\<open>head\<close>: the cut is marked with an ellipsis, three bytes in UTF-8.\<close>

definition ellipsis :: string where
  "ellipsis = [CHR 0xE2, CHR 0x80, CHR 0xA6]"

definition head_of :: "string \<Rightarrow> int \<Rightarrow> string" where
  "head_of s n =
    (if int (length s) \<le> n then s
     else let room = n - int (length ellipsis) in
       if room \<le> 0 then [] else Head s room @ ellipsis)"

definition fail_tx :: "Options \<Rightarrow> int \<Rightarrow> string \<Rightarrow> string \<Rightarrow> int \<Rightarrow> bool \<Rightarrow> jobs
    \<Rightarrow> queue_error option \<times> bool \<times> jobs" where
  "fail_tx opts i worker said now matched q =
    (case find_job i q of None \<Rightarrow> (Some (ErrNoRow i), matched, q)
     | Some job \<Rightarrow>
         if matched \<and> claimed_by job = None \<and> last_error job = Some said
            \<and> (state job = Pending \<or> state job = Failed)
         then (None, matched, q)
         else
           let now = truncate_us now;
               ends = (\<lambda>j. j\<lparr>last_error := Some said, claimed_by := None, updated_at := now\<rparr>);
               change = (if attempts job \<ge> max_attempts job then (\<lambda>j. (ends j)\<lparr>state := Failed\<rparr>)
                 else (\<lambda>j. (ends j)\<lparr>state := Pending, run_after := now + attempts job * Backoff opts\<rparr>))
           in (case update_where (heldBy i worker) change q of (n, q') \<Rightarrow>
                 if held n \<noteq> None then (held n, matched, q') else (None, True, q')))"

definition Fail :: "Options \<Rightarrow> int \<Rightarrow> string \<Rightarrow> string \<Rightarrow> jobs attempt list \<Rightarrow> jobs
    \<Rightarrow> queue_error trouble option \<times> bool \<times> jobs" where
  "Fail opts i worker cause as q =
    InTransaction (fail_tx opts i worker (head_of (Text cause) mostOfAnError)) as False q"

definition Succeed :: "int \<Rightarrow> string \<Rightarrow> jobs attempt list \<Rightarrow> jobs
    \<Rightarrow> queue_error trouble option \<times> bool \<times> jobs" where
  "Succeed i worker as q = InTransaction (succeed_tx i worker) as False q"

definition postpone_tx :: "int \<Rightarrow> string \<Rightarrow> int \<Rightarrow> string \<Rightarrow> int \<Rightarrow> bool \<Rightarrow> jobs
    \<Rightarrow> queue_error option \<times> bool \<times> jobs" where
  "postpone_tx i worker wait said now matched q =
    (case update_where (heldBy i worker)
       (\<lambda>j. j\<lparr>state := Pending, attempts := (if attempts j > 0 then attempts j - 1 else 0),
         claimed_by := None, run_after := truncate_us now + wait, last_error := Some said,
         updated_at := truncate_us now\<rparr>) q of
       (n, q') \<Rightarrow>
         if held n = None then (None, True, q')
         else if \<not> matched then (held n, matched, q')
         else case find_job i q' of None \<Rightarrow> (held n, matched, q')
           | Some ending \<Rightarrow>
               if state ending = Pending \<and> claimed_by ending = None \<and> last_error ending = Some said
               then (None, matched, q') else (held n, matched, q'))"

definition Postpone :: "int \<Rightarrow> string \<Rightarrow> int \<Rightarrow> string \<Rightarrow> jobs attempt list \<Rightarrow> jobs
    \<Rightarrow> queue_error trouble option \<times> bool \<times> jobs" where
  "Postpone i worker wait why as q =
    InTransaction (postpone_tx i worker wait (head_of why mostOfAnError)) as False q"

definition requeue_tx :: "int \<Rightarrow> int \<Rightarrow> bool \<Rightarrow> jobs \<Rightarrow> queue_error option \<times> bool \<times> jobs" where
  "requeue_tx i now matched q =
    (case update_where (\<lambda>j. job_id j = i \<and> state j = Failed)
       (\<lambda>j. j\<lparr>state := Pending, attempts := 0, run_after := truncate_us now, claimed_by := None,
         claimed_at := None, updated_at := truncate_us now\<rparr>) q of
       (n, q') \<Rightarrow>
         if n > 0 then (None, True, q')
         else if \<not> matched then (Some ErrNotFailed, matched, q')
         else case find_job i q' of None \<Rightarrow> (Some ErrNotFailed, matched, q')
           | Some ending \<Rightarrow> (if state ending \<noteq> Failed then None else Some ErrNotFailed, matched, q'))"

definition Requeue :: "int \<Rightarrow> jobs attempt list \<Rightarrow> jobs \<Rightarrow> queue_error trouble option \<times> bool \<times> jobs" where
  "Requeue i as q = InTransaction (requeue_tx i) as False q"

subsection \<open>Holding and settling\<close>

text \<open>
  The renewal loop of \<^verbatim>\<open>Holding\<close> over the ticks of its timer: what the clock reads at one, and
  what the renewal made there answers. It ends with the work (no tick is left), with the claim
  taken away, or at the ceiling of one hold; any other failed renewal is tried at the next tick.
\<close>

fun holding :: "Options \<Rightarrow> int \<Rightarrow> (int \<times> queue_error option) list \<Rightarrow> queue_error option" where
  "holding opts started [] = None"
| "holding opts started ((now, renewed) # ticks) =
    (if MaxHold opts > 0 \<and> now - started \<ge> MaxHold opts then Some ErrHeldTooLong
     else if renewed = Some ErrNoLongerHeld then Some ErrNoLongerHeld
     else holding opts started ticks)"

definition Holding :: "Options \<Rightarrow> int \<Rightarrow> (int \<times> queue_error option) list \<Rightarrow> queue_error option" where
  "Holding opts started ticks = (if Heartbeat opts \<le> 0 then None else holding opts started ticks)"

record Ending =
  HandedOver :: bool
  Err :: "queue_error trouble option"

text \<open>
  \<^verbatim>\<open>Settle\<close>, with what \<^verbatim>\<open>Fail\<close> or \<^verbatim>\<open>Succeed\<close> answered as \<open>ended\<close>. Which of the two is asked is
  \<open>settles_with\<close>, and whether the worker's \<^verbatim>\<open>recover\<close> runs is \<open>recovers\<close>.
\<close>

definition ceiling :: "queue_error option \<Rightarrow> bool" where
  "ceiling taken \<longleftrightarrow> taken = Some ErrHeldTooLong"

definition recovers :: "bool \<Rightarrow> queue_error option \<Rightarrow> queue_error option \<Rightarrow> bool" where
  "recovers cancelled work taken \<longleftrightarrow> work \<noteq> None \<and> \<not> cancelled \<and> (taken = None \<or> ceiling taken)"

definition settles_with :: "Options \<Rightarrow> int \<Rightarrow> string \<Rightarrow> queue_error option \<Rightarrow> (queue_error \<Rightarrow> string)
    \<Rightarrow> jobs attempt list \<Rightarrow> jobs \<Rightarrow> queue_error trouble option \<times> bool \<times> jobs" where
  "settles_with opts i worker work message as q = (case work of
     Some e \<Rightarrow> Fail opts i worker (message e) as q
   | None \<Rightarrow> Succeed i worker as q)"

definition Settle :: "queue_error option \<Rightarrow> queue_error option \<Rightarrow> queue_error trouble option \<Rightarrow> Ending" where
  "Settle work taken ended =
    (let out = \<lparr>HandedOver = False, Err = map_option Own work\<rparr>;
         out = (if ended = Some (Own ErrNoLongerHeld) then out
           else if ended \<noteq> None then (if work = None then out\<lparr>Err := ended\<rparr> else out)
           else out)
     in if ceiling taken then out
        else if taken \<noteq> None then out\<lparr>HandedOver := True, Err := None\<rparr>
        else out)"

subsection \<open>The table under its statements\<close>

definition ids_ok :: "jobs \<Rightarrow> bool" where
  "ids_ok q \<longleftrightarrow> distinct (map job_id (rows q)) \<and> (\<forall>i \<in> set (map job_id (rows q)). i < next_id q)"

lemma find_job_update:
  assumes "\<And>j. job_id (f j) = job_id j"
  shows "find_job i (snd (update_where p f q)) = map_option (\<lambda>j. if p j then f j else j) (find_job i q)"
proof -
  have "find (\<lambda>j. job_id j = i) (map (\<lambda>j. if p j then f j else j) rs)
      = map_option (\<lambda>j. if p j then f j else j) (find (\<lambda>j. job_id j = i) rs)" for rs
    using assms by (induction rs) auto
  then show ?thesis by (simp add: find_job_def update_where_def)
qed

lemma find_job_Some: "find_job i q = Some j \<Longrightarrow> j \<in> set (rows q) \<and> job_id j = i"
  by (auto simp: find_job_def find_Some_iff)

lemma update_matches: "fst (update_where p f q) = 0 \<longleftrightarrow> (\<forall>j \<in> set (rows q). \<not> p j)"
  by (auto simp: update_where_def filter_empty_conv)

lemma update_nothing:
  assumes "\<forall>j \<in> set (rows q). \<not> p j"
  shows "update_where p f q = (0, q)"
proof -
  have "map (\<lambda>j. if p j then f j else j) (rows q) = rows q" using assms by (intro map_idI) auto
  then show ?thesis using assms by (simp add: update_where_def filter_empty_conv)
qed

lemma update_ids: "(\<And>j. job_id (f j) = job_id j) \<Longrightarrow> ids_ok (snd (update_where p f q)) = ids_ok q"
proof -
  assume f: "\<And>j. job_id (f j) = job_id j"
  have "map job_id (rows (snd (update_where p f q))) = map job_id (rows q)"
    using f by (simp add: update_where_def)
  then show "ids_ok (snd (update_where p f q)) = ids_ok q"
    unfolding ids_ok_def by (simp only:) (simp add: update_where_def)
qed

lemma ids_unique: "ids_ok q \<Longrightarrow> j \<in> set (rows q) \<Longrightarrow> find_job (job_id j) q = Some j"
proof -
  have "distinct (map job_id rs) \<Longrightarrow> j \<in> set rs \<Longrightarrow> find (\<lambda>k. job_id k = job_id j) rs = Some j" for rs
    by (induction rs) (auto simp: image_iff)
  then show "ids_ok q \<Longrightarrow> j \<in> set (rows q) \<Longrightarrow> find_job (job_id j) q = Some j"
    by (simp add: ids_ok_def find_job_def)
qed

lemma found_iff: "ids_ok q \<Longrightarrow> find_job i q = Some j \<longleftrightarrow> j \<in> set (rows q) \<and> job_id j = i"
  using ids_unique find_job_Some by blast

text \<open>A worker's own write, in terms of the row it is about.\<close>

lemma heldBy_matches:
  assumes "ids_ok q"
  shows "fst (update_where (heldBy i worker) f q) > 0
    \<longleftrightarrow> (\<exists>j. find_job i q = Some j \<and> state j = Running \<and> claimed_by j = Some worker)"
  using update_matches [of "heldBy i worker" f q] found_iff [OF assms, of i] by (auto simp: heldBy_def)

subsection \<open>Settled once\<close>

text \<open>
  The four closures, as instances of the interface: a job the worker holds is ready, and what each
  leaves behind is what it recognizes afterwards.
\<close>

definition holds_job :: "int \<Rightarrow> string \<Rightarrow> jobs \<Rightarrow> bool" where
  "holds_job i worker q \<longleftrightarrow> (\<exists>j. find_job i q = Some j \<and> heldBy i worker j)"

definition left_as :: "int \<Rightarrow> (Job \<Rightarrow> bool) \<Rightarrow> jobs \<Rightarrow> bool" where
  "left_as i P q \<longleftrightarrow> ids_ok q \<and> (\<exists>j. find_job i q = Some j \<and> P j)"

lemma own_write:
  assumes "ids_ok q" and "p j" and "find_job i q = Some j" and "\<And>j. job_id (f j) = job_id j"
  shows "fst (update_where p f q) > 0" and "find_job i (snd (update_where p f q)) = Some (f j)"
    and "ids_ok (snd (update_where p f q))"
proof -
  show "fst (update_where p f q) > 0"
    using assms(2) find_job_Some [OF assms(3)] update_matches [of p f q] by (metis gr0I)
  show "find_job i (snd (update_where p f q)) = Some (f j)"
    using assms(2,3) find_job_update [OF assms(4)] by simp
  show "ids_ok (snd (update_where p f q))" using assms(1) update_ids [OF assms(4)] by simp
qed

lemma other_write:
  assumes "ids_ok q" and "find_job i q = Some j" and "\<not> p j" and "\<And>k. p k \<Longrightarrow> job_id k = i"
  shows "update_where p f q = (0, q)"
  using assms found_iff [OF assms(1), of i] by (intro update_nothing) fastforce

definition mine :: "int \<Rightarrow> string \<Rightarrow> jobs \<Rightarrow> bool" where
  "mine i worker q \<longleftrightarrow> ids_ok q \<and> holds_job i worker q"

text \<open>How a job stands once its ending is recorded.\<close>

definition succeeded :: "int \<Rightarrow> Job \<Rightarrow> Job" where
  "succeeded now j = j\<lparr>state := Done, claimed_by := None, updated_at := truncate_us now\<rparr>"

definition failed_with :: "Options \<Rightarrow> string \<Rightarrow> int \<Rightarrow> Job \<Rightarrow> Job" where
  "failed_with opts said now j =
    (let k = j\<lparr>last_error := Some said, claimed_by := None, updated_at := truncate_us now\<rparr>
     in if attempts j \<ge> max_attempts j then k\<lparr>state := Failed\<rparr>
        else k\<lparr>state := Pending, run_after := truncate_us now + attempts j * Backoff opts\<rparr>)"

definition postponed :: "int \<Rightarrow> string \<Rightarrow> int \<Rightarrow> Job \<Rightarrow> Job" where
  "postponed wait said now j = j\<lparr>state := Pending, attempts := (if attempts j > 0 then attempts j - 1 else 0),
     claimed_by := None, run_after := truncate_us now + wait, last_error := Some said, updated_at := truncate_us now\<rparr>"

definition put_back :: "int \<Rightarrow> Job \<Rightarrow> Job" where
  "put_back now j = j\<lparr>state := Pending, attempts := 0, run_after := truncate_us now, claimed_by := None,
     claimed_at := None, updated_at := truncate_us now\<rparr>"

lemma succeeding_once: "settled_once (succeed_tx i worker) ids_ok (find_job i)
    (\<lambda>v. \<exists>j. v = Some j \<and> heldBy i worker j) (\<lambda>now. map_option (succeeded now)) (\<lambda>_. True)"
proof (unfold_locales, goal_cases)
  case (1 q now l)
  then obtain j where j: "ids_ok q" "find_job i q = Some j" "heldBy i worker j" by blast
  from own_write [of q "heldBy i worker" j i "\<lambda>j. j\<lparr>state := Done, claimed_by := None, updated_at := truncate_us now\<rparr>"] j
  show ?case by (auto simp: succeed_tx_def held_def succeeded_def split: prod.splits)
next
  case (2 q v t l now)
  then obtain j where j: "ids_ok q" "find_job i q = Some j" "state j = Done" by (auto simp: succeeded_def)
  then have "update_where (heldBy i worker) f q = (0, q)" for f
    using j by (intro other_write [OF j(1,2)]) (auto simp: heldBy_def)
  then show ?case using j by (simp add: succeed_tx_def held_def)
qed

lemma failing_once: "settled_once (fail_tx opts i worker said) ids_ok (find_job i)
    (\<lambda>v. \<exists>j. v = Some j \<and> heldBy i worker j) (\<lambda>now. map_option (failed_with opts said now)) (\<lambda>matched. matched)"
proof (unfold_locales, goal_cases)
  case (1 q now l)
  then obtain j where j: "ids_ok q" "find_job i q = Some j" "heldBy i worker j" by blast
  then have other: "claimed_by j = Some worker" by (simp add: heldBy_def)
  let ?ends = "\<lambda>k. k\<lparr>last_error := Some said, claimed_by := None, updated_at := truncate_us now\<rparr>"
  let ?f = "if attempts j \<ge> max_attempts j then (\<lambda>k. (?ends k)\<lparr>state := Failed\<rparr>)
    else (\<lambda>k. (?ends k)\<lparr>state := Pending, run_after := truncate_us now + attempts j * Backoff opts\<rparr>)"
  note w = own_write [of q "heldBy i worker" j i ?f, OF j(1,3,2)]
  have "job_id (?f k) = job_id k" for k by simp
  note w = w [OF this]
  have "fail_tx opts i worker said now l q = (None, True, snd (update_where (heldBy i worker) ?f q))"
    using j(2) other w(1) by (simp add: fail_tx_def Let_def held_def split_beta)
  moreover have "?f j = failed_with opts said now j" by (simp add: failed_with_def)
  ultimately show ?case using w(2,3) j(2) by auto
next
  case (2 q v t l now)
  then show ?case by (auto simp: fail_tx_def failed_with_def Let_def split: if_splits)
qed

lemma postponing_once: "settled_once (postpone_tx i worker wait said) ids_ok (find_job i)
    (\<lambda>v. \<exists>j. v = Some j \<and> heldBy i worker j) (\<lambda>now. map_option (postponed wait said now)) (\<lambda>matched. matched)"
proof (unfold_locales, goal_cases)
  case (1 q now l)
  then obtain j where j: "ids_ok q" "find_job i q = Some j" "heldBy i worker j" by blast
  show ?case
    using j own_write [of q "heldBy i worker" j i "\<lambda>j. j\<lparr>state := Pending,
        attempts := (if attempts j > 0 then attempts j - 1 else 0), claimed_by := None,
        run_after := truncate_us now + wait, last_error := Some said, updated_at := truncate_us now\<rparr>"]
    by (auto simp: postpone_tx_def held_def postponed_def split: prod.splits)
next
  case (2 q v t l now)
  then obtain j where j: "ids_ok q" "find_job i q = Some j" "state j = Pending"
    "claimed_by j = None" "last_error j = Some said" by (auto simp: postponed_def)
  then have "update_where (heldBy i worker) f q = (0, q)" for f
    using j by (intro other_write [OF j(1,2)]) (auto simp: heldBy_def)
  then show ?case using j 2 by (auto simp: postpone_tx_def held_def)
qed

lemma requeueing_once: "settled_once (requeue_tx i) ids_ok (find_job i)
    (\<lambda>v. \<exists>j. v = Some j \<and> state j = Failed) (\<lambda>now. map_option (put_back now)) (\<lambda>matched. matched)"
proof (unfold_locales, goal_cases)
  case (1 q now l)
  then obtain j where j: "ids_ok q" "find_job i q = Some j" "state j = Failed" by blast
  let ?f = "\<lambda>j. j\<lparr>state := Pending, attempts := 0, run_after := truncate_us now, claimed_by := None,
         claimed_at := None, updated_at := truncate_us now\<rparr>"
  let ?p = "\<lambda>j. job_id j = i \<and> state j = Failed"
  have "?p j" using find_job_Some [OF j(2)] j(3) by simp
  note w = own_write [of q ?p j i ?f, OF j(1) this j(2)]
  have "requeue_tx i now l q = (None, True, snd (update_where ?p ?f q))"
    using w(1) by (simp add: requeue_tx_def split_beta)
  then show ?case using w(2,3) j(2) by (auto simp: put_back_def)
next
  case (2 q v t l now)
  then obtain j where j: "ids_ok q" "find_job i q = Some j" "state j = Pending" by (auto simp: put_back_def)
  then have "update_where (\<lambda>j. job_id j = i \<and> state j = Failed) f q = (0, q)" for f
    using other_write [OF j(1,2), of "\<lambda>j. job_id j = i \<and> state j = Failed"] by auto
  then show ?case using j 2 by (auto simp: requeue_tx_def)
qed

interpretation succeeding: settled_once "succeed_tx i worker" ids_ok "find_job i"
  "\<lambda>v. \<exists>j. v = Some j \<and> heldBy i worker j" "\<lambda>now. map_option (succeeded now)" "\<lambda>_. True" for i worker
  by (rule succeeding_once)

interpretation failing: settled_once "fail_tx opts i worker said" ids_ok "find_job i"
  "\<lambda>v. \<exists>j. v = Some j \<and> heldBy i worker j" "\<lambda>now. map_option (failed_with opts said now)" "\<lambda>matched. matched"
  for opts i worker said
  by (rule failing_once)

interpretation postponing: settled_once "postpone_tx i worker wait said" ids_ok "find_job i"
  "\<lambda>v. \<exists>j. v = Some j \<and> heldBy i worker j" "\<lambda>now. map_option (postponed wait said now)" "\<lambda>matched. matched"
  for i worker wait said
  by (rule postponing_once)

interpretation requeueing: settled_once "requeue_tx i" ids_ok "find_job i"
  "\<lambda>v. \<exists>j. v = Some j \<and> state j = Failed" "\<lambda>now. map_option (put_back now)" "\<lambda>matched. matched" for i
  by (rule requeueing_once)

end
