(* ===== verification/Queue_Safety.thy ===== *)
theory Queue_Safety
  imports Queue
begin

section \<open>Workers sharing one queue\<close>

text \<open>
  The queue as its workers drive it: any interleaving of statements and closures of
  \<^verbatim>\<open>internal/queue/queue.go\<close>, each atomic as a transaction is, by workers whose clocks may lag
  behind the newest reading. A claim's select and update are not one step: the update may come for
  any job at any later moment, which covers every select that has gone stale. What a worker was
  granted, and when it was last confirmed, is written beside the table.
\<close>

record world =
  table :: jobs
  clock :: int
  granted :: "(string \<times> int \<times> int) set"

inductive step :: "Options \<Rightarrow> world \<Rightarrow> world \<Rightarrow> bool" for opts where
  tick: "clock s \<le> t \<Longrightarrow> step opts s (s\<lparr>clock := t\<rparr>)"
| add: "AddTx opts limit now kind ref (table s) = (r, q) \<Longrightarrow> step opts s (s\<lparr>table := q\<rparr>)"
| claim: "now \<le> clock s \<Longrightarrow> claim_update opts (truncate_us now) worker i (table s) = (n, q) \<Longrightarrow> 0 < n
    \<Longrightarrow> step opts s (s\<lparr>table := q, granted := insert (worker, i, truncate_us now) (granted s)\<rparr>)"
| renew: "now \<le> clock s \<Longrightarrow> renewIn i worker now (table s) = (None, q)
    \<Longrightarrow> step opts s (s\<lparr>table := q,
          granted := insert (worker, i, truncate_us now) (granted s - {(worker, i, h) | h. True})\<rparr>)"
| succeed: "succeed_tx i worker now l (table s) = (None, l', q)
    \<Longrightarrow> step opts s (s\<lparr>table := q, granted := granted s - {(worker, i, h) | h. True}\<rparr>)"
| fail: "fail_tx opts i worker said now l (table s) = (None, l', q)
    \<Longrightarrow> step opts s (s\<lparr>table := q, granted := granted s - {(worker, i, h) | h. True}\<rparr>)"
| postpone: "postpone_tx i worker wait said now l (table s) = (None, l', q)
    \<Longrightarrow> step opts s (s\<lparr>table := q, granted := granted s - {(worker, i, h) | h. True}\<rparr>)"
| bury: "now \<le> clock s \<Longrightarrow> Bury opts now (table s) = (n, q) \<Longrightarrow> step opts s (s\<lparr>table := q\<rparr>)"
| requeue: "requeue_tx i now l (table s) = (None, l', q) \<Longrightarrow> step opts s (s\<lparr>table := q\<rparr>)"

lemma step_AddTx: "step opts s (s\<lparr>table := snd (AddTx opts limit now kind ref (table s))\<rparr>)"
  by (rule step.add [where r = "fst (AddTx opts limit now kind ref (table s))"]) simp

definition start :: "world \<Rightarrow> bool" where
  "start s \<longleftrightarrow> rows (table s) = [] \<and> granted s = {}"

text \<open>A grant is live while its worker was heard from within the claim timeout.\<close>

definition live :: "Options \<Rightarrow> world \<Rightarrow> string \<Rightarrow> int \<Rightarrow> bool" where
  "live opts s worker i \<longleftrightarrow> (\<exists>h. (worker, i, h) \<in> granted s \<and> \<not> h < clock s - ClaimTimeout opts)"

definition holder :: "world \<Rightarrow> int \<Rightarrow> string option" where
  "holder s i = (case find_job i (table s) of None \<Rightarrow> None
     | Some j \<Rightarrow> if state j = Running then claimed_by j else None)"

subsection \<open>What one statement leaves of a held row\<close>

definition row_of :: "string \<Rightarrow> int \<Rightarrow> int \<Rightarrow> Job \<Rightarrow> bool" where
  "row_of w i h j \<longleftrightarrow> job_id j = i \<and> state j = Running \<and> claimed_by j = Some w \<and> claimed_at j = Some h"

definition kept :: "jobs \<Rightarrow> string \<Rightarrow> int \<Rightarrow> int \<Rightarrow> bool" where
  "kept q w i h \<longleftrightarrow> (\<exists>j. find_job i q = Some j \<and> row_of w i h j)"

lemma kept_update:
  assumes "kept q w i h" and "\<And>j. row_of w i h j \<Longrightarrow> \<not> p j" and "\<And>j. job_id (f j) = job_id j"
  shows "kept (snd (update_where p f q)) w i h"
  using assms find_job_update [OF assms(3), of i p q] by (auto simp: kept_def)

lemma truncate_le: "truncate_us t \<le> t"
  by (simp add: truncate_us_def)

definition recorded :: "Options \<Rightarrow> world \<Rightarrow> bool" where
  "recorded opts s \<longleftrightarrow> ids_ok (table s)
     \<and> (\<forall>(w, i, h) \<in> granted s. \<not> h < clock s - ClaimTimeout opts \<longrightarrow> kept (table s) w i h)"

lemma recordedD: "recorded opts s \<Longrightarrow> (w, i, h) \<in> granted s \<Longrightarrow> \<not> h < clock s - ClaimTimeout opts
    \<Longrightarrow> kept (table s) w i h"
  by (auto simp: recorded_def)

lemma find_append_Some: "find P xs = Some k \<Longrightarrow> find P (xs @ ys) = Some k"
  by (induction xs) auto

lemma insert_job_kept: "kept q w i h \<Longrightarrow> kept (snd (insert_job j q)) w i h"
  by (auto simp: kept_def find_job_def insert_job_def Let_def dest: find_append_Some)

lemma insert_job_ids: "ids_ok q \<Longrightarrow> ids_ok (snd (insert_job j q))"
  by (fastforce simp: ids_ok_def insert_job_def Let_def)

text \<open>A step that writes no live row keeps the record.\<close>

lemma recorded_unchanged:
  assumes r: "recorded opts s" and "ids_ok q" and "g \<subseteq> granted s"
    and "\<And>w i h. (w, i, h) \<in> g \<Longrightarrow> \<not> h < clock s - ClaimTimeout opts \<Longrightarrow> kept (table s) w i h \<Longrightarrow> kept q w i h"
  shows "recorded opts (s\<lparr>table := q, granted := g\<rparr>)"
  using assms recordedD [OF r] by (auto simp: recorded_def)

text \<open>A statement by a worker on a job of its own touches no row of another worker's.\<close>

lemma own_statement_keeps:
  assumes "recorded opts s" and "update_where (heldBy i worker) f (table s) = (n, q)"
    and "\<And>j. job_id (f j) = job_id j"
  shows "recorded opts (s\<lparr>table := q, granted := granted s - {(worker, i, h) | h. True}\<rparr>)"
proof (rule recorded_unchanged [OF assms(1)])
  have q: "q = snd (update_where (heldBy i worker) f (table s))" using assms(2) by simp
  show "ids_ok q" using assms(1) update_ids [of f, OF assms(3)] by (simp add: q recorded_def)
  show "kept q w k h" if "(w, k, h) \<in> granted s - {(worker, i, h) | h. True}" "kept (table s) w k h" for w k h
    unfolding q using that(1)
    by (intro kept_update [OF that(2)] assms(3)) (auto simp: row_of_def heldBy_def)
qed auto

lemma recorded_fewer: "recorded opts s \<Longrightarrow> g \<subseteq> granted s \<Longrightarrow> recorded opts (s\<lparr>granted := g\<rparr>)"
  by (auto simp: recorded_def)

text \<open>A closure of the worker's own either made its statement or found it already made.\<close>

lemma succeed_tx_cases: "succeed_tx i w now l q = (None, l', q') \<Longrightarrow>
    \<exists>f n. update_where (heldBy i w) f q = (n, q') \<and> (\<forall>j. job_id (f j) = job_id j)"
  by (auto simp: succeed_tx_def split: prod.splits if_splits option.splits intro!: exI)

lemma fail_tx_cases:
  assumes "fail_tx opts i w said now l q = (None, l', q')"
  shows "q' = q \<or> (\<exists>f n. update_where (heldBy i w) f q = (n, q') \<and> (\<forall>j. job_id (f j) = job_id j))"
proof -
  obtain job where job: "find_job i q = Some job" using assms by (auto simp: fail_tx_def split: option.splits)
  let ?ends = "\<lambda>k. k\<lparr>last_error := Some said, claimed_by := None, updated_at := truncate_us now\<rparr>"
  let ?f = "if attempts job \<ge> max_attempts job then (\<lambda>k. (?ends k)\<lparr>state := Failed\<rparr>)
    else (\<lambda>k. (?ends k)\<lparr>state := Pending, run_after := truncate_us now + attempts job * Backoff opts\<rparr>)"
  have "q' = q \<or> q' = snd (update_where (heldBy i w) ?f q)"
    using assms job by (auto simp: fail_tx_def Let_def split_beta split: if_splits)
  moreover have "\<forall>j. job_id (?f j) = job_id j" by simp
  ultimately show ?thesis by (metis prod.collapse)
qed

lemma postpone_tx_cases: "postpone_tx i w wait said now l q = (None, l', q') \<Longrightarrow>
    \<exists>f n. update_where (heldBy i w) f q = (n, q') \<and> (\<forall>j. job_id (f j) = job_id j)"
  by (auto simp: postpone_tx_def split: prod.splits if_splits option.splits intro!: exI)

lemma step_keeps_record:
  assumes "recorded opts s" and "step opts s s'"
  shows "recorded opts s'"
  using assms(2,1)
proof (cases rule: step.cases)
  case (tick t)
  then show ?thesis using assms(1) by (fastforce simp: recorded_def)
next
  case (add limit now kind ref r q)
  have "q = table s \<or> (\<exists>j. q = snd (insert_job j (table s)))"
    using add(2) by (auto simp: AddTx_def Let_def split_beta split: if_splits intro!: exI)
  then have "ids_ok q" "kept (table s) w i h \<Longrightarrow> kept q w i h" for w i h
    using assms(1) insert_job_ids insert_job_kept by (auto simp: recorded_def)
  then show ?thesis using recorded_unchanged [OF assms(1), of q "granted s"] add(1) by simp
next
  case (claim now worker i n q)
  let ?p = "\<lambda>j. job_id j = i \<and> claimable (truncate_us now) (truncate_us now - ClaimTimeout opts) j"
  let ?f = "\<lambda>j. j\<lparr>state := Running, attempts := attempts j + 1, claimed_by := Some worker,
    claimed_at := Some (truncate_us now), updated_at := truncate_us now\<rparr>"
  have up: "update_where ?p ?f (table s) = (n, q)" using claim(3) by (simp add: claim_update_def)
  then have q: "q = snd (update_where ?p ?f (table s))" by simp
  have ids: "ids_ok q" using assms(1) update_ids [of ?f] by (simp add: q recorded_def)
  have old: "kept q w k h" if "\<not> h < clock s - ClaimTimeout opts" "kept (table s) w k h" for w k h
    unfolding q using that(1) claim(2) truncate_le [of now]
    by (intro kept_update [OF that(2)]) (auto simp: row_of_def claimable_def before_def)
  have "\<not> (\<forall>j \<in> set (rows (table s)). \<not> ?p j)" using up claim(4) update_matches [of ?p ?f "table s"] by auto
  then obtain j where j: "find_job i (table s) = Some j" "?p j"
    using assms(1) found_iff [of "table s" i] by (auto simp: recorded_def)
  then have "kept q worker i (truncate_us now)"
    using find_job_update [of ?f i ?p "table s"] by (auto simp: q kept_def row_of_def)
  then show ?thesis using claim(1) ids old recordedD [OF assms(1)] by (auto simp: recorded_def)
next
  case (renew now i worker q)
  let ?f = "\<lambda>j. j\<lparr>claimed_at := Some (truncate_us now), updated_at := truncate_us now\<rparr>"
  obtain n where up: "update_where (heldBy i worker) ?f (table s) = (n, q)" "0 < n"
    using renew(3) by (auto simp: renewIn_def held_def split: prod.splits if_splits)
  then have "\<exists>j. find_job i (table s) = Some j \<and> heldBy i worker j"
    using assms(1) heldBy_matches [of "table s" i worker ?f] find_job_Some
    by (fastforce simp: recorded_def heldBy_def)
  then have "kept q worker i (truncate_us now)"
    using find_job_update [of ?f i "heldBy i worker" "table s"] up(1) by (auto simp: kept_def row_of_def heldBy_def)
  moreover have "recorded opts (s\<lparr>table := q, granted := granted s - {(worker, i, h) | h. True}\<rparr>)"
    using own_statement_keeps [OF assms(1) up(1)] by simp
  ultimately show ?thesis using renew(1) by (auto simp: recorded_def)
next
  case (succeed i worker now l l' q)
  then show ?thesis using succeed_tx_cases [OF succeed(2)] own_statement_keeps [OF assms(1)] by metis
next
  case (fail i worker said now l l' q)
  have "recorded opts (s\<lparr>granted := granted s - {(worker, i, h) | h. True}\<rparr>)"
    by (rule recorded_fewer [OF assms(1)]) auto
  then show ?thesis
    using fail_tx_cases [OF fail(2)] own_statement_keeps [OF assms(1)] fail(1) by (elim disjE) auto
next
  case (postpone i worker wait said now l l' q)
  then show ?thesis using postpone_tx_cases [OF postpone(2)] own_statement_keeps [OF assms(1)] by metis
next
  case (bury now n q)
  let ?p = "\<lambda>j. state j = Running \<and> before (claimed_at j) (truncate_us now - ClaimTimeout opts)
    \<and> attempts j \<ge> max_attempts j"
  obtain f where q: "q = snd (update_where ?p f (table s))" and f: "\<And>j. job_id (f j) = job_id j"
    using bury(3) unfolding Bury_def Let_def by (metis (no_types, lifting) Job.select_convs(1) Job.surjective
      Job.update_convs(10) Job.update_convs(12) Job.update_convs(4) Job.update_convs(8) snd_conv)
  have "recorded opts (s\<lparr>table := q, granted := granted s\<rparr>)"
  proof (rule recorded_unchanged [OF assms(1)])
    show "ids_ok q" using assms(1) update_ids [of f, OF f] by (simp add: q recorded_def)
    show "kept q w i h" if "\<not> h < clock s - ClaimTimeout opts" "kept (table s) w i h" for w i h
      unfolding q using that(1) bury(2) truncate_le [of now]
      by (intro kept_update [OF that(2)] f) (auto simp: row_of_def before_def)
  qed simp
  then show ?thesis using bury(1) by simp
next
  case (requeue i now l l' q)
  let ?p = "\<lambda>j. job_id j = i \<and> state j = Failed"
  let ?f = "\<lambda>j. j\<lparr>state := Pending, attempts := 0, run_after := truncate_us now, claimed_by := None,
         claimed_at := None, updated_at := truncate_us now\<rparr>"
  have q: "q = snd (update_where ?p ?f (table s))"
    using requeue(2) by (auto simp: requeue_tx_def split: prod.splits if_splits option.splits)
  have "recorded opts (s\<lparr>table := q, granted := granted s\<rparr>)"
  proof (rule recorded_unchanged [OF assms(1)])
    show "ids_ok q" using assms(1) update_ids [of ?f] by (simp add: q recorded_def)
    show "kept q w k h" if "kept (table s) w k h" for w k h
      unfolding q by (intro kept_update [OF that]) (auto simp: row_of_def)
  qed simp
  then show ?thesis using requeue(1) by simp
qed

lemma recorded_holder: "recorded opts s \<Longrightarrow> live opts s w i \<Longrightarrow> holder s i = Some w"
  by (auto simp: live_def holder_def kept_def row_of_def dest!: recordedD)

interpretation claims: exclusive_grants start "step opts" "recorded opts" "live opts" holder for opts
proof (unfold_locales, goal_cases)
  case (1 s)
  then have "recorded opts s" by (simp add: start_def recorded_def ids_ok_def)
  then show ?case using 1 by (simp add: start_def live_def)
next
  case (2 s s')
  then show ?case using step_keeps_record recorded_holder by blast
qed

end
