(* ===== verification/Queue_Props.thy ===== *)
theory Queue_Props
  imports Queue_Safety
begin

section \<open>What the queue promises\<close>

subsection \<open>Every row keeps its shape\<close>

text \<open>
  A job is claimed exactly while it runs, and it has been tried at most as often as it may be,
  less often while it waits.
\<close>

definition row_ok :: "Job \<Rightarrow> bool" where
  "row_ok j \<longleftrightarrow> 1 \<le> max_attempts j \<and> 0 \<le> attempts j \<and> attempts j \<le> max_attempts j
     \<and> (state j = Pending \<longrightarrow> attempts j < max_attempts j)
     \<and> (state j = Running \<longrightarrow> 1 \<le> attempts j)
     \<and> (state j = Running \<longleftrightarrow> claimed_by j \<noteq> None)
     \<and> (state j = Running \<longrightarrow> claimed_at j \<noteq> None)"

definition rows_ok :: "jobs \<Rightarrow> bool" where
  "rows_ok q \<longleftrightarrow> (\<forall>j \<in> set (rows q). row_ok j)"

lemma rows_ok_update:
  assumes "rows_ok q" and "\<And>j. row_ok j \<Longrightarrow> p j \<Longrightarrow> row_ok (f j)"
  shows "rows_ok (snd (update_where p f q))"
  using assms by (auto simp: rows_ok_def update_where_def)

lemma AddTx_rows: "rows_ok q \<Longrightarrow> 1 \<le> MaxAttempts opts \<Longrightarrow> rows_ok (snd (AddTx opts limit now kind ref q))"
  by (auto simp: AddTx_def insert_job_def Let_def rows_ok_def row_ok_def)

lemma claim_rows: "rows_ok q \<Longrightarrow> rows_ok (snd (claim_update opts now w i q))"
  unfolding claim_update_def by (rule rows_ok_update) (auto simp: row_ok_def claimable_def)

lemma renew_rows: "rows_ok q \<Longrightarrow> rows_ok (snd (renewIn i w now q))"
  using rows_ok_update [of q "heldBy i w" "\<lambda>j. j\<lparr>claimed_at := Some (truncate_us now), updated_at := truncate_us now\<rparr>"]
  by (auto simp: renewIn_def row_ok_def heldBy_def split_beta)

lemma succeed_rows: "rows_ok q \<Longrightarrow> rows_ok (snd (snd (succeed_tx i w now l q)))"
  using rows_ok_update [of q "heldBy i w" "\<lambda>j. j\<lparr>state := Done, claimed_by := None, updated_at := truncate_us now\<rparr>"]
  by (auto simp: succeed_tx_def row_ok_def heldBy_def split_beta split: option.splits)

lemma postpone_rows: "rows_ok q \<Longrightarrow> rows_ok (snd (snd (postpone_tx i w wait said now l q)))"
  using rows_ok_update [of q "heldBy i w" "\<lambda>j. j\<lparr>state := Pending,
        attempts := (if attempts j > 0 then attempts j - 1 else 0), claimed_by := None,
        run_after := truncate_us now + wait, last_error := Some said, updated_at := truncate_us now\<rparr>"]
  by (auto simp: postpone_tx_def row_ok_def heldBy_def split_beta split: option.splits)

lemma requeue_rows: "rows_ok q \<Longrightarrow> rows_ok (snd (snd (requeue_tx i now l q)))"
  using rows_ok_update [of q "\<lambda>j. job_id j = i \<and> state j = Failed" "\<lambda>j. j\<lparr>state := Pending, attempts := 0,
    run_after := truncate_us now, claimed_by := None, claimed_at := None, updated_at := truncate_us now\<rparr>"]
  by (auto simp: requeue_tx_def row_ok_def split_beta split: option.splits)

lemma bury_rows: "rows_ok q \<Longrightarrow> rows_ok (snd (Bury opts now q))"
  unfolding Bury_def Let_def by (rule rows_ok_update) (auto simp: row_ok_def)

text \<open>\<^verbatim>\<open>Fail\<close> decides by the row it read, which is the row it writes while keys are unique.\<close>

lemma fail_rows:
  assumes "rows_ok q" and "ids_ok q"
  shows "rows_ok (snd (snd (fail_tx opts i w said now l q)))"
proof (cases "find_job i q")
  case None
  then show ?thesis using assms by (simp add: fail_tx_def)
next
  case (Some job)
  let ?ends = "\<lambda>k. k\<lparr>last_error := Some said, claimed_by := None, updated_at := truncate_us now\<rparr>"
  let ?f = "if attempts job \<ge> max_attempts job then (\<lambda>k. (?ends k)\<lparr>state := Failed\<rparr>)
    else (\<lambda>k. (?ends k)\<lparr>state := Pending, run_after := truncate_us now + attempts job * Backoff opts\<rparr>)"
  have "\<forall>j \<in> set (rows q). heldBy i w j \<longrightarrow> j = job"
  proof (intro ballI impI)
    fix j
    assume "j \<in> set (rows q)" and "heldBy i w j"
    then show "j = job" using ids_unique [OF assms(2)] Some by (fastforce simp: heldBy_def)
  qed
  then have "rows_ok (snd (update_where (heldBy i w) ?f q))"
    using assms(1) by (auto simp: rows_ok_def update_where_def row_ok_def heldBy_def)
  then show ?thesis using Some assms(1) by (auto simp: fail_tx_def Let_def split_beta)
qed

lemma step_rows:
  assumes "1 \<le> MaxAttempts opts" and "recorded opts s" and "rows_ok (table s)" and "step opts s s'"
  shows "rows_ok (table s')"
  using assms(4)
proof (cases rule: step.cases)
  case (add limit now kind ref r q)
  then show ?thesis using AddTx_rows [OF assms(3,1), of limit now kind ref] by simp
next
  case (claim now worker i n q)
  then show ?thesis using claim_rows [OF assms(3), of opts "truncate_us now" worker i] by simp
next
  case (renew now i worker q)
  then show ?thesis using renew_rows [OF assms(3), of i worker now] by simp
next
  case (succeed i worker now l l' q)
  then show ?thesis using succeed_rows [OF assms(3), of i worker now l] by simp
next
  case (fail i worker said now l l' q)
  then show ?thesis using fail_rows [OF assms(3), of opts i worker said now l] assms(2) by (simp add: recorded_def)
next
  case (postpone i worker wait said now l l' q)
  then show ?thesis using postpone_rows [OF assms(3), of i worker wait said now l] by simp
next
  case (bury now n q)
  then show ?thesis using bury_rows [OF assms(3), of opts now] by simp
next
  case (requeue i now l l' q)
  then show ?thesis using requeue_rows [OF assms(3), of i now l] by simp
qed (use assms(3) in simp)

lemma reachable_rows:
  assumes "1 \<le> MaxAttempts opts" and "start s" and "(step opts)\<^sup>*\<^sup>* s t"
  shows "rows_ok (table t)"
  using assms(3)
proof (induction rule: rtranclp_induct)
  case base
  then show ?case using assms(2) by (simp add: start_def rows_ok_def)
next
  case (step y z)
  then show ?case using step_rows [OF assms(1)] claims.recorded [OF assms(2) step.hyps(1)] by blast
qed

lemma reachable_ids: "start s \<Longrightarrow> (step opts)\<^sup>*\<^sup>* s t \<Longrightarrow> ids_ok (table t)"
  using claims.recorded by (auto simp: recorded_def)

subsection \<open>Claiming\<close>

lemma claimableID_Some:
  assumes "claimableID kind now stale q = Some i"
  shows "\<exists>j \<in> set (rows q). job_id j = i \<and> job_kind j = kind \<and> claimable now stale j"
    and "\<forall>j \<in> set (rows q). job_kind j = kind \<and> claimable now stale j \<longrightarrow> i \<le> job_id j"
proof -
  let ?ids = "map job_id (filter (\<lambda>j. job_kind j = kind \<and> claimable now stale j) (rows q))"
  obtain more where sorted: "sort ?ids = i # more"
    using assms by (auto simp: claimableID_def split: list.splits)
  then have "i \<in> set ?ids" by (metis list.set_intros(1) set_sort)
  then show "\<exists>j \<in> set (rows q). job_id j = i \<and> job_kind j = kind \<and> claimable now stale j" by auto
  have "sorted (i # more)" unfolding sorted [symmetric] by simp
  moreover have "set ?ids = set (i # more)" unfolding sorted [symmetric] by simp
  ultimately have "\<forall>k \<in> set ?ids. i \<le> k" by auto
  then show "\<forall>j \<in> set (rows q). job_kind j = kind \<and> claimable now stale j \<longrightarrow> i \<le> job_id j" by auto
qed

lemma claimableID_None: "claimableID kind now stale q = None \<longleftrightarrow>
    (\<forall>j \<in> set (rows q). \<not> (job_kind j = kind \<and> claimable now stale j))"
proof -
  have "sort xs = [] \<longleftrightarrow> xs = []" for xs :: "int list" by (metis set_empty set_sort)
  moreover have "claimableID kind now stale q = None \<longleftrightarrow>
      sort (map job_id (filter (\<lambda>j. job_kind j = kind \<and> claimable now stale j) (rows q))) = []"
    by (simp add: claimableID_def split: list.split)
  ultimately show ?thesis by (auto simp: filter_empty_conv)
qed

subsection \<open>Properties\<close>

text \<open>
  C2: two workers never hold the same job. However the workers interleave, whatever their selects
  had read and however far their clocks lag, while one worker's claim was confirmed within the
  claim timeout no other worker has a claim on that job that was.
\<close>

theorem no_job_is_held_twice:
  assumes "start s" and "(step opts)\<^sup>*\<^sup>* s t"
    and "live opts t worker i" and "live opts t other i"
  shows "worker = other"
  using claims.one_holder [OF assms] .

definition sample_options :: Options where
  "sample_options = \<lparr>MaxAttempts = 5, MaxBacklog = 10, ClaimTimeout = 1800, Heartbeat = 300, MaxHold = 7200, Backoff = 30\<rparr>"

definition sample_start :: world where
  "sample_start = \<lparr>table = \<lparr>rows = [], next_id = 1\<rparr>, clock = 1000, granted = {}\<rparr>"

definition sample_queued :: jobs where
  "sample_queued = snd (AddTx sample_options 10 1000 ''scan.read'' ''7'' (table sample_start))"

definition sample_claimed :: jobs where
  "sample_claimed = snd (claim_update sample_options 1000 ''a'' 1 sample_queued)"

lemma sample_starts: "start sample_start"
  by (simp add: start_def sample_start_def)

lemma sample_queues: "step sample_options sample_start (sample_start\<lparr>table := sample_queued\<rparr>)"
  unfolding sample_queued_def by (rule step_AddTx)

lemma sample_claims: "(step sample_options)\<^sup>*\<^sup>* sample_start
    (sample_start\<lparr>table := sample_claimed, granted := {(''a'', 1, 1000)}\<rparr>)"
proof -
  let ?s = "sample_start\<lparr>table := sample_queued\<rparr>"
  have "fst (claim_update sample_options 1000 ''a'' 1 sample_queued) > 0" by code_simp
  then have "step sample_options ?s (?s\<lparr>table := sample_claimed, granted := {(''a'', 1, 1000)}\<rparr>)"
    using step.claim [of 1000 ?s sample_options "''a''" 1
        "fst (claim_update sample_options 1000 ''a'' 1 sample_queued)" sample_claimed]
    by (simp add: truncate_us_def sample_claimed_def sample_start_def)
  then show ?thesis
    using rtranclp.rtrancl_into_rtrancl [OF r_into_rtranclp [of "step sample_options", OF sample_queues]] by simp
qed

theorem no_job_is_held_twice_witness:
  "live sample_options (sample_start\<lparr>table := sample_claimed, granted := {(''a'', 1, 1000)}\<rparr>) ''a'' 1
    \<and> \<not> live sample_options (sample_start\<lparr>table := sample_claimed, granted := {(''a'', 1, 1000)}\<rparr>) ''b'' 1"
proof -
  let ?t = "sample_start\<lparr>table := sample_claimed, granted := {(''a'', 1, 1000)}\<rparr>"
  have "live sample_options ?t ''a'' 1" by (simp add: live_def sample_start_def sample_options_def)
  moreover from no_job_is_held_twice [OF sample_starts sample_claims this, of "''b''"]
  have "\<not> live sample_options ?t ''b'' 1" by auto
  ultimately show ?thesis by blast
qed

text \<open>
  A job is tried at most as often as it may be. In every table the workers can reach, a job
  waits only with attempts left, runs only claimed and on a counted attempt, and no job has more
  attempts than its maximum, also after deaths, burials, postponements and being put back.
\<close>

theorem attempts_are_bounded:
  assumes "1 \<le> MaxAttempts opts" and "start s" and "(step opts)\<^sup>*\<^sup>* s t" and "j \<in> set (rows (table t))"
  shows "attempts j \<le> max_attempts j \<and> (state j = Pending \<longrightarrow> attempts j < max_attempts j)
    \<and> (state j = Running \<longleftrightarrow> claimed_by j \<noteq> None)"
  using reachable_rows [OF assms(1-3)] assms(4) by (auto simp: rows_ok_def row_ok_def)

theorem attempts_are_bounded_witness:
  "list_all (\<lambda>j. attempts j \<le> max_attempts j \<and> claimed_by j = Some ''a'') (rows sample_claimed) \<and> length (rows sample_claimed) = 1"
proof -
  have row: "length (rows sample_claimed) = 1" "state (hd (rows sample_claimed)) = Running"
    "claimed_by (hd (rows sample_claimed)) = Some ''a''" by code_simp+
  then obtain j where j: "rows sample_claimed = [j]" by (cases "rows sample_claimed") auto
  have "attempts j \<le> max_attempts j"
    using attempts_are_bounded [OF _ sample_starts sample_claims, of j] j by (simp add: sample_options_def)
  then show ?thesis using row j by simp
qed

text \<open>
  No job is stranded by a worker that died. In every reachable table a job that runs on a
  claim past its timeout is either claimable by the next worker that asks for its kind, or the
  next burial fails it with the reason.
\<close>

theorem a_stale_job_is_claimed_or_buried:
  assumes "1 \<le> MaxAttempts opts" and "start s" and "(step opts)\<^sup>*\<^sup>* s t"
    and "j \<in> set (rows (table t))" and "state j = Running"
    and "before (claimed_at j) (truncate_us now - ClaimTimeout opts)"
  shows "claimable (truncate_us now) (truncate_us now - ClaimTimeout opts) j
    \<or> (\<exists>k. find_job (job_id j) (snd (Bury opts now (table t))) = Some k
        \<and> state k = Failed \<and> last_error k = Some ErrWorkerGone)"
proof (cases "attempts j < max_attempts j")
  case True
  then show ?thesis using assms(5,6) by (simp add: claimable_def)
next
  case False
  have "find_job (job_id j) (table t) = Some j"
    using ids_unique [OF reachable_ids [OF assms(2,3)] assms(4)] .
  then show ?thesis using False assms(5,6) by (simp add: Bury_def Let_def find_job_update)
qed

theorem a_stale_job_is_claimed_or_buried_witness:
  "claimable 5000 (5000 - ClaimTimeout sample_options) (hd (rows sample_claimed))"
proof -
  let ?j = "hd (rows sample_claimed)"
  have row: "length (rows sample_claimed) = 1" "state ?j = Running" "claimed_at ?j = Some 1000"
    "attempts ?j < max_attempts ?j" by code_simp+
  then have j: "?j \<in> set (rows sample_claimed)" by (cases "rows sample_claimed") auto
  have "(case find_job (job_id ?j) (snd (Bury sample_options 5000 sample_claimed)) of
      Some k \<Rightarrow> state k \<noteq> Failed | None \<Rightarrow> True)" by code_simp
  then show ?thesis
    using a_stale_job_is_claimed_or_buried [OF _ sample_starts sample_claims, of ?j 5000] row j
    by (auto simp: sample_options_def before_def truncate_us_def)
qed

text \<open>
  A claim hands out the oldest claimable job of the kind asked for, counts the attempt and
  leaves every other job alone; it hands out nothing exactly when no job of that kind is claimable,
  and then changes nothing.
\<close>

theorem claim_takes_the_oldest:
  assumes "ids_ok q" and stale: "stale = truncate_us now - ClaimTimeout opts"
  shows "(case Claim opts now worker kind q of
      (None, q') \<Rightarrow> q' = q \<and> (\<forall>j \<in> set (rows q). \<not> (job_kind j = kind \<and> claimable (truncate_us now) stale j))
    | (Some j', q') \<Rightarrow> (\<exists>j. find_job (job_id j') q = Some j \<and> job_kind j = kind
        \<and> claimable (truncate_us now) stale j
        \<and> j' = j\<lparr>state := Running, attempts := attempts j + 1, claimed_by := Some worker,
            claimed_at := Some (truncate_us now), updated_at := truncate_us now\<rparr>
        \<and> (\<forall>k \<in> set (rows q). job_kind k = kind \<and> claimable (truncate_us now) stale k \<longrightarrow> job_id j \<le> job_id k)
        \<and> (\<forall>i. i \<noteq> job_id j \<longrightarrow> find_job i q' = find_job i q)))"
proof (cases "claimableID kind (truncate_us now) stale q")
  case None
  then have "Claim opts now worker kind q = (None, q)"
    by (simp only: Claim_def Let_def stale [symmetric] option.case)
  then show ?thesis using iffD1 [OF claimableID_None None] by simp
next
  case (Some i)
  let ?p = "\<lambda>j. job_id j = i \<and> claimable (truncate_us now) stale j"
  let ?f = "\<lambda>j. j\<lparr>state := Running, attempts := attempts j + 1, claimed_by := Some worker,
            claimed_at := Some (truncate_us now), updated_at := truncate_us now\<rparr>"
  obtain j where j: "j \<in> set (rows q)" "job_id j = i" "job_kind j = kind" "claimable (truncate_us now) stale j"
    using claimableID_Some(1) [OF Some] by blast
  then have found: "find_job i q = Some j" using ids_unique [OF assms(1)] by blast
  have up: "claim_update opts (truncate_us now) worker i q = update_where ?p ?f q"
    by (simp add: claim_update_def stale)
  have "fst (update_where ?p ?f q) \<noteq> 0" using j update_matches [of ?p ?f q] by auto
  then have "Claim opts now worker kind q = (Some (?f j), snd (update_where ?p ?f q))"
    using Some found j(2,4) find_job_update [of ?f i ?p q]
    by (simp add: Claim_def Let_def stale [symmetric] up split_beta)
  moreover have "find_job k (snd (update_where ?p ?f q)) = find_job k q" if "k \<noteq> i" for k
    using that find_job_update [of ?f k ?p q] by (cases "find_job k q") (auto dest: find_job_Some)
  ultimately show ?thesis
    using found j claimableID_Some(2) [OF Some] by (simp only: prod.case option.case) (rule exI [of _ j], simp)
qed

lemma sample_ids: "ids_ok sample_queued" "ids_ok sample_claimed"
  by code_simp+

theorem claim_takes_the_oldest_witness:
  "\<exists>j. find_job 1 sample_queued = Some j \<and> job_kind j = ''scan.read'' \<and> claimable 5000 3200 j"
proof -
  let ?claim = "Claim sample_options 5000 ''b'' ''scan.read'' sample_queued"
  have "map_option job_id (fst ?claim) = Some 1" by code_simp
  then obtain j' q' where c: "?claim = (Some j', q')" "job_id j' = 1" by (cases ?claim) auto
  have stale: "3200 = truncate_us 5000 - ClaimTimeout sample_options"
    by (simp add: truncate_us_def sample_options_def)
  show ?thesis
    using claim_takes_the_oldest [OF sample_ids(1) stale, of "''scan.read''" "''b''"] c
    by (auto simp: truncate_us_def)
qed

text \<open>
  What an ending asked for in up to five attempts comes to: the caller is told it was recorded exactly
  where one commit is answered and that the attempts ran out otherwise, and the row has been written by
  one run of the closure, that of the first commit that was not refused, or by none.
\<close>

definition recorded_once :: "int \<Rightarrow> jobs attempt list \<Rightarrow> (int \<Rightarrow> Job \<Rightarrow> Job) \<Rightarrow> jobs
    \<Rightarrow> queue_error trouble option \<times> bool \<times> jobs \<Rightarrow> bool" where
  "recorded_once i as ends q x \<longleftrightarrow> (case x of (answer, _, q') \<Rightarrow>
     answer = (if list_ex commits (take Attempts as) then None else Some GaveUp)
     \<and> find_job i q' = (case find (\<lambda>a. meets a \<noteq> Refused) (take Attempts as) of
          None \<Rightarrow> find_job i q | Some a \<Rightarrow> map_option (ends (at a)) (find_job i q)))"

lemma settled_recorded:
  assumes "\<exists>l' d'. x = (if list_ex commits (take Attempts as) then None else Some GaveUp, l', d') \<and> ids_ok d'
    \<and> find_job i d' = (case find (\<lambda>a. meets a \<noteq> Refused) (take Attempts as) of None \<Rightarrow> find_job i q
        | Some a \<Rightarrow> map_option (ends (at a)) (find_job i q))"
  shows "recorded_once i as ends q x"
  using assms by (auto simp: recorded_once_def)

lemma polite_taken: "list_all P as \<Longrightarrow> list_all P (take n as)"
  by (auto simp: list_all_iff dest: in_set_takeD)

text \<open>
  C9: an ending is recorded once at most, and told as recorded. A worker that holds its job asks for it
  to succeed, to fail or to wait. Whichever commits are refused and whichever answers are lost, and
  whatever is done to other jobs in between, the job is left as it was where every commit was refused
  and otherwise as one run of the closure leaves it, at the clock of the first commit not refused; the
  worker is told so exactly where an attempt is answered, and else that the attempts ran out.
\<close>

theorem an_ending_is_recorded_once:
  assumes "mine i worker q" and "list_all (leaves_alone ids_ok (find_job i)) as"
  shows "recorded_once i as succeeded q (Succeed i worker as q)
    \<and> recorded_once i as (failed_with opts (head_of (Text cause) mostOfAnError)) q (Fail opts i worker cause as q)
    \<and> recorded_once i as (postponed wait (head_of why mostOfAnError)) q (Postpone i worker wait why as q)"
proof -
  have held: "ids_ok q" "\<exists>j. find_job i q = Some j \<and> heldBy i worker j"
    using assms(1) by (simp_all add: mine_def holds_job_def)
  note alone = polite_taken [OF assms(2), of Attempts]
  show ?thesis unfolding Succeed_def Fail_def Postpone_def InTransaction_def
    using succeeding.settles [OF held alone] failing.settles [OF held alone] postponing.settles [OF held alone]
    by (intro conjI settled_recorded)
qed

definition sample_commits :: "jobs attempt list" where
  "sample_commits = [\<lparr>at = 2000, others = (\<lambda>q. q), meets = Refused\<rparr>,
     \<lparr>at = 3000, others = (\<lambda>q. q), meets = Lost\<rparr>, \<lparr>at = 4000, others = (\<lambda>q. q), meets = Committed\<rparr>]"

lemma sample_commits_ok: "list_all (leaves_alone sane seen) sample_commits"
  by (simp add: sample_commits_def leaves_alone_def)

lemma sample_mine: "mine 1 ''a'' sample_claimed"
proof -
  have "(case find_job 1 sample_claimed of Some j \<Rightarrow> heldBy 1 ''a'' j | None \<Rightarrow> False)" by code_simp
  then show ?thesis using sample_ids(2) by (auto simp: mine_def holds_job_def split: option.splits)
qed

theorem an_ending_is_recorded_once_witness:
  "\<exists>m q' j. Succeed 1 ''a'' sample_commits sample_claimed = (None, m, q') \<and> find_job 1 q' = Some j
    \<and> state j = Done \<and> updated_at j = 3000"
proof -
  obtain j where j: "find_job 1 sample_claimed = Some j" using sample_mine by (auto simp: mine_def holds_job_def)
  have "find (\<lambda>a. meets a \<noteq> Refused) (take Attempts sample_commits) = Some (sample_commits ! 1)" "at (sample_commits ! 1) = 3000"
    "list_ex commits (take Attempts sample_commits)"
    by (simp_all add: sample_commits_def Attempts_def commits_def)
  then show ?thesis
    using an_ending_is_recorded_once [OF sample_mine sample_commits_ok, of sample_options "[]" 0 "[]"] j
    by (auto simp: recorded_once_def succeeded_def truncate_us_def split: prod.splits)
qed

text \<open>
  Putting a failed job back is done once too: it waits again with no attempt counted, and the
  caller is told so even where the answer of an earlier commit was lost.
\<close>

theorem a_failed_job_is_put_back_once:
  assumes "left_as i (\<lambda>j. state j = Failed) q" and "list_all (leaves_alone ids_ok (find_job i)) as"
  shows "recorded_once i as put_back q (Requeue i as q)"
proof -
  have failed: "ids_ok q" "\<exists>j. find_job i q = Some j \<and> state j = Failed" using assms(1) by (simp_all add: left_as_def)
  show ?thesis unfolding Requeue_def InTransaction_def
    using requeueing.settles [OF failed polite_taken [OF assms(2), of Attempts]] by (intro settled_recorded)
qed

theorem a_failed_job_is_put_back_once_witness:
  "recorded_once 1 sample_commits put_back (snd (update_where (\<lambda>_. True) (\<lambda>j. j\<lparr>state := Failed\<rparr>) sample_queued))
    (Requeue 1 sample_commits (snd (update_where (\<lambda>_. True) (\<lambda>j. j\<lparr>state := Failed\<rparr>) sample_queued)))"
proof (rule a_failed_job_is_put_back_once [OF _ sample_commits_ok])
  let ?q = "snd (update_where (\<lambda>_. True) (\<lambda>j. j\<lparr>state := Failed\<rparr>) sample_queued)"
  have "ids_ok ?q" using sample_ids(1) by (simp add: update_ids)
  moreover have "(case find_job 1 ?q of Some j \<Rightarrow> state j = Failed | None \<Rightarrow> False)" by code_simp
  ultimately show "left_as 1 (\<lambda>j. state j = Failed) ?q" by (auto simp: left_as_def split: option.splits)
qed

text \<open>
  A failure is tried again, later each time, until the attempts run out: the job the worker
  holds goes back to waiting for as many backoffs as it has been tried, or fails for good exactly
  when its attempts have reached its maximum.
\<close>

theorem a_failure_is_retried_until_the_last_attempt:
  assumes "mine i worker q" and "find_job i q = Some j"
  shows "\<exists>q'. fail_tx opts i worker said now False q = (None, True, q')
    \<and> find_job i q' = Some (if attempts j \<ge> max_attempts j
        then j\<lparr>last_error := Some said, claimed_by := None, updated_at := truncate_us now, state := Failed\<rparr>
        else j\<lparr>last_error := Some said, claimed_by := None, updated_at := truncate_us now, state := Pending,
          run_after := truncate_us now + attempts j * Backoff opts\<rparr>)"
proof -
  have j: "ids_ok q" "heldBy i worker j" using assms by (auto simp: mine_def holds_job_def)
  let ?ends = "\<lambda>k. k\<lparr>last_error := Some said, claimed_by := None, updated_at := truncate_us now\<rparr>"
  let ?f = "if attempts j \<ge> max_attempts j then (\<lambda>k. (?ends k)\<lparr>state := Failed\<rparr>)
    else (\<lambda>k. (?ends k)\<lparr>state := Pending, run_after := truncate_us now + attempts j * Backoff opts\<rparr>)"
  have "job_id (?f k) = job_id k" for k by simp
  note w = own_write [of q "heldBy i worker" j i ?f, OF j(1,2) assms(2) this]
  have "fail_tx opts i worker said now False q = (None, True, snd (update_where (heldBy i worker) ?f q))"
    using assms(2) w(1) by (simp add: fail_tx_def Let_def held_def split_beta)
  then show ?thesis using w(2) by simp
qed

theorem a_failure_is_retried_until_the_last_attempt_witness:
  "\<exists>q' j. fail_tx sample_options 1 ''a'' ''scan failed'' 2000 False sample_claimed = (None, True, q')
    \<and> find_job 1 q' = Some j \<and> state j = Pending \<and> run_after j = 2030"
proof -
  have "(case find_job 1 sample_claimed of Some j \<Rightarrow> attempts j = 1 \<and> max_attempts j = 5 | None \<Rightarrow> False)" by code_simp
  then obtain j where j: "find_job 1 sample_claimed = Some j" "attempts j = 1" "max_attempts j = 5"
    by (auto split: option.splits)
  from a_failure_is_retried_until_the_last_attempt [OF sample_mine j(1), of sample_options "''scan failed''" 2000]
  show ?thesis using j by (auto simp: truncate_us_def sample_options_def)
qed

text \<open>
  The backlog of one kind is bounded where it is counted: work is refused exactly when as much
  of its kind waits as the limit allows, and accepted work is one more of that kind and none of
  any other.
\<close>

theorem backlog_is_bounded_per_kind:
  "(case AddTx opts limit now kind ref q of
      (Inl e, q') \<Rightarrow> q' = q \<and> limit \<le> depthIn opts now kind q \<and> e = ErrBacklogFull (depthIn opts now kind q) kind limit
    | (Inr j, q') \<Rightarrow> depthIn opts now kind q < limit
        \<and> depthIn opts now other q' = depthIn opts now other q + (if other = kind then 1 else 0))"
  by (auto simp: AddTx_def depthIn_def insert_job_def Let_def)

end
