(* ===== verification/Lease.thy ===== *)
theory Lease
  imports Queue_Props
begin

section \<open>Leases on recurring work\<close>

text \<open>
  \<^verbatim>\<open>internal/queue/lease.go\<close> and \<^verbatim>\<open>undertaker.go\<close>: which replica runs a recurring pass. A lease
  is a row made on first use, taken by a conditional update, extended by its holder and handed
  back by it, and it lapses by the clock.
\<close>

record Lease =
  lease_name :: string
  held_by :: "string option"
  held_until :: "int option"

type_synonym leases = "Lease list"

text \<open>\<^verbatim>\<open>InBatchesKeeping\<close>: a row that is there already is left alone.\<close>

definition keep_or_insert :: "string \<Rightarrow> leases \<Rightarrow> leases" where
  "keep_or_insert name ls =
    (if list_ex (\<lambda>l. lease_name l = name) ls then ls
     else ls @ [\<lparr>lease_name = name, held_by = None, held_until = None\<rparr>])"

definition may_take :: "string \<Rightarrow> string \<Rightarrow> int \<Rightarrow> bool \<Rightarrow> Lease \<Rightarrow> bool" where
  "may_take name who now renew l \<longleftrightarrow> lease_name l = name
     \<and> (held_by l = None \<or> before (held_until l) now \<or> (renew \<and> held_by l = Some who))"

definition takeIn :: "string \<Rightarrow> string \<Rightarrow> int \<Rightarrow> int \<Rightarrow> bool \<Rightarrow> leases \<Rightarrow> bool \<times> leases" where
  "takeIn name who now until renew ls =
    (filter (may_take name who now renew) ls \<noteq> [],
     map (\<lambda>l. if may_take name who now renew l
              then l\<lparr>held_by := Some who, held_until := Some (now + until)\<rparr> else l) ls)"

definition take_tx :: "string \<Rightarrow> string \<Rightarrow> int \<Rightarrow> bool \<Rightarrow> int \<Rightarrow> bool \<Rightarrow> leases
    \<Rightarrow> queue_error option \<times> bool \<times> leases" where
  "take_tx name who until renew now ours ls =
    (case takeIn name who (truncate_us now) until renew (keep_or_insert name ls) of
       (taken, ls') \<Rightarrow> (None, taken, ls'))"

definition Take :: "string \<Rightarrow> string \<Rightarrow> int \<Rightarrow> leases attempt list \<Rightarrow> leases
    \<Rightarrow> queue_error trouble option \<times> bool \<times> leases" where
  "Take name who until as ls = InTransaction (take_tx name who until True) as False ls"

definition TakeLapsed :: "string \<Rightarrow> string \<Rightarrow> int \<Rightarrow> leases attempt list \<Rightarrow> leases
    \<Rightarrow> queue_error trouble option \<times> bool \<times> leases" where
  "TakeLapsed name who until as ls = InTransaction (take_tx name who until False) as False ls"

definition release_tx :: "string \<Rightarrow> string \<Rightarrow> int \<Rightarrow> unit \<Rightarrow> leases \<Rightarrow> queue_error option \<times> unit \<times> leases" where
  "release_tx name who now u ls =
    (None, u, map (\<lambda>l. if lease_name l = name \<and> held_by l = Some who
        then l\<lparr>held_by := None, held_until := None\<rparr> else l) ls)"

text \<open>\<^verbatim>\<open>Await\<close>, over what each poll's take answers: it ends at the first that holds the lease.\<close>

fun await :: "(queue_error + bool) list \<Rightarrow> queue_error option \<Rightarrow> bool \<times> queue_error option" where
  "await [] last' = (False, last')"
| "await (answer # polls) last' = (case answer of
     Inr True \<Rightarrow> (True, None)
   | Inr False \<Rightarrow> await polls last'
   | Inl e \<Rightarrow> await polls (Some e))"

definition BurialLease :: string where
  "BurialLease = ''queue.bury''"

definition betweenBurials :: int where
  "betweenBurials = 5 * 60 * 1000000000"

definition burialLease :: int where
  "burialLease = 2 * betweenBurials"

text \<open>One cycle of the undertaker: only the replica that has the lease buries.\<close>

definition Once :: "Options \<Rightarrow> string \<Rightarrow> int \<Rightarrow> leases \<Rightarrow> jobs \<Rightarrow> nat \<times> leases \<times> jobs" where
  "Once opts replica now ls q =
    (case take_tx BurialLease replica burialLease True now False ls of
       (_, ours, ls') \<Rightarrow> if \<not> ours then (0, ls', q)
         else (case Bury opts now q of (n, q') \<Rightarrow> (n, ls', q')))"

subsection \<open>Replicas sharing the leases\<close>

record replicas =
  leases :: leases
  time :: int
  taken :: "(string \<times> string \<times> int) set"

inductive lease_step :: "replicas \<Rightarrow> replicas \<Rightarrow> bool" where
  passes: "time s \<le> t \<Longrightarrow> lease_step s (s\<lparr>time := t\<rparr>)"
| takes: "now \<le> time s \<Longrightarrow> take_tx name who until renew now ours (leases s) = (None, True, ls)
    \<Longrightarrow> lease_step s (s\<lparr>leases := ls, taken := insert (who, name, truncate_us now + until)
          (taken s - {(who, name, h) | h. True})\<rparr>)"
| misses: "now \<le> time s \<Longrightarrow> take_tx name who until renew now ours (leases s) = (None, False, ls)
    \<Longrightarrow> lease_step s (s\<lparr>leases := ls\<rparr>)"
| releases: "release_tx name who now u (leases s) = (None, u', ls)
    \<Longrightarrow> lease_step s (s\<lparr>leases := ls, taken := taken s - {(who, name, h) | h. True}\<rparr>)"

definition none_taken :: "replicas \<Rightarrow> bool" where
  "none_taken s \<longleftrightarrow> leases s = [] \<and> taken s = {}"

definition lease_live :: "replicas \<Rightarrow> string \<Rightarrow> string \<Rightarrow> bool" where
  "lease_live s who name \<longleftrightarrow> (\<exists>h. (who, name, h) \<in> taken s \<and> \<not> h < time s)"

definition find_lease :: "string \<Rightarrow> leases \<Rightarrow> Lease option" where
  "find_lease name ls = find (\<lambda>l. lease_name l = name) ls"

definition lease_holder :: "replicas \<Rightarrow> string \<Rightarrow> string option" where
  "lease_holder s name = (case find_lease name (leases s) of None \<Rightarrow> None | Some l \<Rightarrow> held_by l)"

definition lease_recorded :: "leases \<Rightarrow> string \<Rightarrow> string \<Rightarrow> int \<Rightarrow> bool" where
  "lease_recorded ls who name h \<longleftrightarrow>
     (\<exists>l. find_lease name ls = Some l \<and> held_by l = Some who \<and> held_until l = Some h)"

definition leases_ok :: "replicas \<Rightarrow> bool" where
  "leases_ok s \<longleftrightarrow> distinct (map lease_name (leases s))
     \<and> (\<forall>(w, n, h) \<in> taken s. \<not> h < time s \<longrightarrow> lease_recorded (leases s) w n h)"

lemma find_lease_map:
  assumes "\<And>l. lease_name (f l) = lease_name l"
  shows "find_lease name (map f ls) = map_option f (find_lease name ls)"
  using assms by (induction ls) (auto simp: find_lease_def)

lemma keep_or_insert_recorded: "lease_recorded ls w n h \<Longrightarrow> lease_recorded (keep_or_insert name ls) w n h"
  by (auto simp: lease_recorded_def find_lease_def keep_or_insert_def dest: find_append_Some)

lemma keep_or_insert_distinct: "distinct (map lease_name ls) \<Longrightarrow> distinct (map lease_name (keep_or_insert name ls))"
  by (auto simp: keep_or_insert_def list_ex_iff)

lemma takeIn_map: "snd (takeIn name who now until renew ls) = map (\<lambda>l. if may_take name who now renew l
    then l\<lparr>held_by := Some who, held_until := Some (now + until)\<rparr> else l) ls"
  by (simp add: takeIn_def)

text \<open>Taking a lease leaves every live one of another holder alone.\<close>

lemma takeIn_keeps:
  assumes "lease_recorded ls w n h" and "\<not> h < now" and "(w, n) \<noteq> (who, name)"
  shows "lease_recorded (snd (takeIn name who now until renew ls)) w n h"
proof -
  obtain l where l: "find_lease n ls = Some l" "held_by l = Some w" "held_until l = Some h"
    using assms(1) by (auto simp: lease_recorded_def)
  then have "lease_name l = n" by (auto simp: find_lease_def find_Some_iff)
  then have "\<not> may_take name who now renew l" using l assms(2,3) by (auto simp: may_take_def before_def)
  then show ?thesis using l by (simp add: takeIn_map lease_recorded_def find_lease_map)
qed

lemma takeIn_records:
  assumes "fst (takeIn name who now until renew ls)" and "distinct (map lease_name ls)"
  shows "lease_recorded (snd (takeIn name who now until renew ls)) who name (now + until)"
proof -
  obtain l where l: "l \<in> set ls" "may_take name who now renew l"
    using assms(1) by (auto simp: takeIn_def filter_empty_conv)
  then have "find_lease name ls = Some l"
  proof -
    have "distinct (map lease_name ks) \<Longrightarrow> l \<in> set ks \<Longrightarrow> find (\<lambda>k. lease_name k = lease_name l) ks = Some l" for ks
      by (induction ks) (auto simp: image_iff)
    then show ?thesis using l assms(2) by (simp add: find_lease_def may_take_def)
  qed
  then show ?thesis using l(2) by (simp add: takeIn_map lease_recorded_def find_lease_map)
qed

lemma lease_step_ok:
  assumes "leases_ok s" and "lease_step s s'"
  shows "leases_ok s'"
  using assms(2)
proof (cases rule: lease_step.cases)
  case (passes t)
  then show ?thesis using assms(1) by (fastforce simp: leases_ok_def)
next
  case (takes now name who until renew ours ls)
  let ?ls = "keep_or_insert name (leases s)"
  have ls: "ls = snd (takeIn name who (truncate_us now) until renew ?ls)"
    and taken: "fst (takeIn name who (truncate_us now) until renew ?ls)"
    using takes(3) by (auto simp: take_tx_def split: prod.splits)
  have d: "distinct (map lease_name ?ls)" using assms(1) keep_or_insert_distinct by (simp add: leases_ok_def)
  have "lease_recorded ls w n h" if "(w, n, h) \<in> taken s" "\<not> h < time s" "(w, n) \<noteq> (who, name)" for w n h
    unfolding ls using that assms(1) truncate_le [of now] takes(2)
    by (intro takeIn_keeps keep_or_insert_recorded) (auto simp: leases_ok_def)
  moreover have "distinct (map lease_name ls)" using d by (simp add: ls takeIn_map if_distrib comp_def cong: if_cong)
  ultimately show ?thesis using takes(1) takeIn_records [OF taken d] by (auto simp: leases_ok_def ls)
next
  case (misses now name who until renew ours ls)
  let ?ls = "keep_or_insert name (leases s)"
  have "ls = ?ls"
  proof -
    have none: "\<forall>l \<in> set ?ls. \<not> may_take name who (truncate_us now) renew l"
      using misses(3) by (auto simp: take_tx_def takeIn_def filter_empty_conv split: prod.splits)
    have "ls = snd (takeIn name who (truncate_us now) until renew ?ls)"
      using misses(3) by (auto simp: take_tx_def split: prod.splits)
    also have "\<dots> = ?ls" unfolding takeIn_map using none by (intro map_idI) auto
    finally show ?thesis .
  qed
  then show ?thesis using assms(1) misses(1) keep_or_insert_distinct keep_or_insert_recorded
    by (fastforce simp: leases_ok_def)
next
  case (releases name who now u u' ls)
  let ?f = "\<lambda>l. if lease_name l = name \<and> held_by l = Some who then l\<lparr>held_by := None, held_until := None\<rparr> else l"
  have ls: "ls = map ?f (leases s)" using releases(2) by (simp add: release_tx_def)
  have "lease_recorded ls w n h" if live: "(w, n, h) \<in> taken s" "\<not> h < time s" and other: "(w, n) \<noteq> (who, name)" for w n h
  proof -
    obtain l where l: "find_lease n (leases s) = Some l" "held_by l = Some w" "held_until l = Some h"
      using live assms(1) by (fastforce simp: leases_ok_def lease_recorded_def)
    then have "lease_name l = n" by (auto simp: find_lease_def find_Some_iff)
    then show ?thesis using l other by (auto simp: ls lease_recorded_def find_lease_map)
  qed
  moreover have "map lease_name ls = map lease_name (leases s)" by (simp add: ls)
  then have "distinct (map lease_name ls)" using assms(1) by (simp only:) (simp add: leases_ok_def)
  ultimately show ?thesis using releases(1) by (auto simp: leases_ok_def)
qed

interpretation leasing: exclusive_grants none_taken lease_step leases_ok lease_live lease_holder
proof (unfold_locales, goal_cases)
  case (1 s)
  then show ?case by (simp add: none_taken_def leases_ok_def lease_live_def)
next
  case (2 s s')
  then have "leases_ok s'" using lease_step_ok by blast
  then show ?case by (fastforce simp: leases_ok_def lease_live_def lease_holder_def lease_recorded_def)
qed

subsection \<open>Properties\<close>

text \<open>
  C38: two replicas never hold one lease. However takes, renewals, missed takes and releases
  interleave, and however far a replica's clock lags, at most one replica has a lease on a piece of
  work that has not run out.
\<close>

theorem no_lease_is_held_twice:
  assumes "none_taken s" and "lease_step\<^sup>*\<^sup>* s t" and "lease_live t replica name" and "lease_live t other name"
  shows "replica = other"
  using leasing.one_holder [OF assms] .

theorem no_lease_is_held_twice_witness:
  "lease_live \<lparr>leases = [\<lparr>lease_name = ''digest'', held_by = Some ''a'', held_until = Some 61000\<rparr>],
      time = 1000, taken = {(''a'', ''digest'', 61000)}\<rparr> ''a'' ''digest''
    \<and> \<not> lease_live \<lparr>leases = [\<lparr>lease_name = ''digest'', held_by = Some ''a'', held_until = Some 61000\<rparr>],
      time = 1000, taken = {(''a'', ''digest'', 61000)}\<rparr> ''b'' ''digest''"
proof -
  let ?s = "\<lparr>leases = [], time = 1000, taken = {}\<rparr>"
  let ?ls = "[\<lparr>lease_name = ''digest'', held_by = Some ''a'', held_until = Some 61000\<rparr>]"
  let ?t = "\<lparr>leases = ?ls, time = 1000, taken = {(''a'', ''digest'', 61000)}\<rparr>"
  have "take_tx ''digest'' ''a'' 60000 True 1000 False [] = (None, True, ?ls)"
    by (simp add: take_tx_def takeIn_def keep_or_insert_def may_take_def truncate_us_def)
  then have "lease_step ?s ?t"
    using lease_step.takes [of 1000 ?s "''digest''" "''a''" 60000 True False ?ls] by (simp add: truncate_us_def)
  then have reached: "lease_step\<^sup>*\<^sup>* ?s ?t" by (rule r_into_rtranclp)
  have live: "lease_live ?t ''a'' ''digest''" by (simp add: lease_live_def)
  have "none_taken ?s" by (simp add: none_taken_def)
  from no_lease_is_held_twice [OF this reached live, of "''b''"] live show ?thesis by auto
qed

text \<open>
  Work that runs once a period runs once a period: after a lapsed lease was taken for a
  period, no replica, the one that took it included, takes it that way again before the period
  has run out.
\<close>

theorem a_period_is_taken_once:
  assumes "take_tx name who until False now ours ls = (None, True, ls')"
    and "distinct (map lease_name ls)" and "truncate_us later \<le> truncate_us now + until"
  shows "fst (snd (take_tx name other until' False later ours' ls')) = False"
proof -
  let ?ls = "keep_or_insert name ls"
  have taken: "fst (takeIn name who (truncate_us now) until False ?ls)"
    and ls': "ls' = snd (takeIn name who (truncate_us now) until False ?ls)"
    using assms(1) by (auto simp: take_tx_def split: prod.splits)
  note d = keep_or_insert_distinct [OF assms(2), of name]
  obtain l where l: "find_lease name ls' = Some l" "held_by l = Some who"
    "held_until l = Some (truncate_us now + until)"
    using takeIn_records [OF taken d] by (auto simp: lease_recorded_def ls')
  have "list_ex (\<lambda>l. lease_name l = name) ls'"
    using l(1) by (auto simp: find_lease_def find_Some_iff list_ex_iff)
  then have kept: "keep_or_insert name ls' = ls'" by (simp add: keep_or_insert_def)
  have d': "distinct (map lease_name ls')" using d by (simp add: ls' takeIn_map if_distrib comp_def cong: if_cong)
  have "l \<in> set ls'" "lease_name l = name" using l(1) by (auto simp: find_lease_def find_Some_iff)
  then have "\<forall>k \<in> set ls'. lease_name k = name \<longrightarrow> k = l"
    using d' by (metis distinct_map inj_onD)
  then have "\<forall>k \<in> set ls'. \<not> may_take name other (truncate_us later) False k"
    using l assms(3) by (auto simp: may_take_def before_def)
  then show ?thesis by (auto simp: take_tx_def kept takeIn_def filter_empty_conv)
qed

theorem a_period_is_taken_once_witness:
  "fst (snd (take_tx ''digest'' ''b'' 60 False 50000 False
     [\<lparr>lease_name = ''digest'', held_by = Some ''a'', held_until = Some 61000\<rparr>])) = False"
  by (rule a_period_is_taken_once [of "''digest''" "''a''" 60000 1000 False "[]"])
     (simp_all add: take_tx_def takeIn_def keep_or_insert_def may_take_def truncate_us_def)

end
