(* ===== verification/Triage_Outcome.thy ===== *)
theory Triage_Outcome
  imports Access Bound
begin

section \<open>What a decision says\<close>

text \<open>
  \<^verbatim>\<open>internal/triage/triage.go\<close>, \<^verbatim>\<open>scope.go\<close> and the checks of a proposal in \<^verbatim>\<open>occurrence.go\<close>:
  the vocabulary of outcomes and reasons with every question asked of a word, whom a statement
  holds for, what a proposal has to say before it is recorded, and the key a live row is unique
  under (\<^verbatim>\<open>internal/finding/merge.go\<close>). A moment is an integer. A refusal is a constructor of its
  own per sentence of the source; the policy of \<^verbatim>\<open>markdown.Check\<close>, which parses with a library, is
  the parameter \<open>policy\<close>.
\<close>

subsection \<open>Outcomes\<close>

type_synonym Outcome = string

definition Affected :: Outcome where "Affected = ''affected''"
definition NotApplicable :: Outcome where "NotApplicable = ''not-applicable''"
definition Mismatched :: Outcome where "Mismatched = ''mismatched''"
definition Deferred :: Outcome where "Deferred = ''deferred''"
definition WontFix :: Outcome where "WontFix = ''wont-fix''"
definition AlreadyFixed :: Outcome where "AlreadyFixed = ''already-fixed''"
definition UpgradeNeeded :: Outcome where "UpgradeNeeded = ''upgrade-needed''"
definition PatchNeeded :: Outcome where "PatchNeeded = ''patch-needed''"
definition Dismissed :: Outcome where "Dismissed = ''dismissed''"
definition NotSecurity :: Outcome where "NotSecurity = ''not-security''"
definition Confirmed :: Outcome where "Confirmed = ''confirmed''"

lemmas outcome_words = Affected_def NotApplicable_def Mismatched_def Deferred_def WontFix_def
  AlreadyFixed_def UpgradeNeeded_def PatchNeeded_def Dismissed_def NotSecurity_def Confirmed_def

definition VulnerabilityOutcomes :: "Outcome list" where
  "VulnerabilityOutcomes =
    [Affected, NotApplicable, Mismatched, Deferred, WontFix, AlreadyFixed, UpgradeNeeded, PatchNeeded]"

definition CodeFindingOutcomes :: "Outcome list" where
  "CodeFindingOutcomes = [Dismissed, NotSecurity, Confirmed]"

definition Outcomes :: "Outcome list" where
  "Outcomes = VulnerabilityOutcomes @ CodeFindingOutcomes"

text \<open>\<^verbatim>\<open>kind.Analysis\<close>, of \<^verbatim>\<open>internal/finding/kind/kind.go\<close>.\<close>

definition Analysis :: string where "Analysis = ''analysis''"

definition OutcomesFor :: "string \<Rightarrow> Outcome list" where
  "OutcomesFor k = (if k = Analysis then CodeFindingOutcomes else VulnerabilityOutcomes)"

definition Outcome_Valid :: "Outcome \<Rightarrow> bool" where
  "Outcome_Valid out \<longleftrightarrow> list_ex (\<lambda>known. out = known) Outcomes"

definition HidesRisk :: "Outcome \<Rightarrow> bool" where
  "HidesRisk out \<longleftrightarrow> out \<noteq> Affected \<and> out \<noteq> Confirmed"

definition Commits :: "Outcome \<Rightarrow> bool" where
  "Commits out \<longleftrightarrow> out = UpgradeNeeded \<or> out = PatchNeeded"

definition Dated :: "Outcome \<Rightarrow> bool" where
  "Dated out \<longleftrightarrow> Commits out \<or> out = Deferred"

text \<open>\<^verbatim>\<open>finding.AnyVersionOutcomes\<close>, of \<^verbatim>\<open>internal/finding/outcome.go\<close>.\<close>

definition AnyVersionOutcomes :: "Outcome list" where
  "AnyVersionOutcomes = [Mismatched, Dismissed, NotSecurity, Confirmed]"

definition StandsAtAnyVersion :: "Outcome \<Rightarrow> bool" where
  "StandsAtAnyVersion out \<longleftrightarrow> List.member AnyVersionOutcomes out"

definition AboutALead :: "Outcome \<Rightarrow> bool" where
  "AboutALead out \<longleftrightarrow> List.member CodeFindingOutcomes out"

definition Dismisses :: "Outcome \<Rightarrow> bool" where
  "Dismisses out \<longleftrightarrow> \<not> AboutALead out \<and> HidesRisk out \<and> \<not> Dated out"

definition NeedsJustification :: "Outcome \<Rightarrow> bool" where
  "NeedsJustification out \<longleftrightarrow> out = NotApplicable \<or> out = Mismatched \<or> out = Dismissed"

definition settingAside :: "Outcome \<Rightarrow> bool" where
  "settingAside out \<longleftrightarrow> HidesRisk out \<and> \<not> Commits out"

definition OutcomesOneAtATime :: "Outcome list" where
  "OutcomesOneAtATime = filter (\<lambda>each. each \<noteq> UpgradeNeeded) VulnerabilityOutcomes"

definition OutcomesInBulk :: "Outcome list" where
  "OutcomesInBulk = filter (\<lambda>each. \<not> Commits each) VulnerabilityOutcomes"

definition OutcomesThatHideRisk :: "Outcome list" where
  "OutcomesThatHideRisk = filter HidesRisk VulnerabilityOutcomes"

definition OutcomesDismissing :: "Outcome list" where
  "OutcomesDismissing = filter Dismisses VulnerabilityOutcomes"

definition settingAsideOutcomes :: "Outcome list" where
  "settingAsideOutcomes = filter settingAside Outcomes"

lemma outcomes_differ [simp]:
  "NotApplicable \<noteq> Dismissed" "Mismatched \<noteq> Dismissed" "Deferred \<noteq> Mismatched" "WontFix \<noteq> Mismatched"
  "NotApplicable \<noteq> Mismatched" "Mismatched \<noteq> NotApplicable" "NotApplicable \<noteq> WontFix" "Mismatched \<noteq> WontFix"
  "Dismissed \<noteq> NotApplicable" "Dismissed \<noteq> Mismatched" "Affected \<noteq> NotApplicable" "Dismissed \<noteq> WontFix"
  "Deferred \<noteq> UpgradeNeeded" "Deferred \<noteq> PatchNeeded" "Deferred \<noteq> Affected" "Deferred \<noteq> Confirmed"
  "Deferred \<noteq> AlreadyFixed" "UpgradeNeeded \<noteq> Deferred" "PatchNeeded \<noteq> Deferred"
  "UpgradeNeeded \<noteq> PatchNeeded" "PatchNeeded \<noteq> UpgradeNeeded" "UpgradeNeeded \<noteq> AlreadyFixed" "PatchNeeded \<noteq> AlreadyFixed"
  by (simp_all add: outcome_words)

subsection \<open>Reasons\<close>

type_synonym Justification = string

definition ComponentNotPresent :: Justification where "ComponentNotPresent = ''component_not_present''"
definition CodeNotPresent :: Justification where "CodeNotPresent = ''vulnerable_code_not_present''"
definition CodeNotInExecutePath :: Justification where
  "CodeNotInExecutePath = ''vulnerable_code_not_in_execute_path''"
definition CodeNotReachableByAdversary :: Justification where
  "CodeNotReachableByAdversary = ''vulnerable_code_cannot_be_controlled_by_adversary''"
definition MitigationsExist :: Justification where "MitigationsExist = ''inline_mitigations_already_exist''"

lemmas justification_words = ComponentNotPresent_def CodeNotPresent_def CodeNotInExecutePath_def
  CodeNotReachableByAdversary_def MitigationsExist_def

definition Justifications :: "Justification list" where
  "Justifications = [ComponentNotPresent, CodeNotPresent, CodeNotInExecutePath,
     CodeNotReachableByAdversary, MitigationsExist]"

definition Justification_Valid :: "Justification \<Rightarrow> bool" where
  "Justification_Valid j \<longleftrightarrow> list_ex (\<lambda>known. j = known) Justifications"

definition AboutIdentity :: "Justification \<Rightarrow> bool" where
  "AboutIdentity j \<longleftrightarrow> j = ComponentNotPresent \<or> j = CodeNotPresent"

definition IndifferentToSeverity :: "Justification \<Rightarrow> bool" where
  "IndifferentToSeverity j \<longleftrightarrow> AboutIdentity j \<or> j = CodeNotInExecutePath"

definition JustificationsCorrecting :: "Justification list" where
  "JustificationsCorrecting = filter AboutIdentity Justifications"

definition FalsePositive :: string where "FalsePositive = ''false_positive''"
definition WillNotFix :: string where "WillNotFix = ''wont_fix''"
definition UsedInTests :: string where "UsedInTests = ''used_in_tests''"
definition Mitigated :: string where "Mitigated = ''mitigated''"

definition CodeFindingReasons :: "string list" where
  "CodeFindingReasons = [FalsePositive, WillNotFix, UsedInTests, Mitigated]"

subsection \<open>Whom a statement holds for\<close>

type_synonym Scope = string

definition Portable :: Scope where "Portable = ''portable''"
definition BuildSpecific :: Scope where "BuildSpecific = ''build''"

definition Scopes :: "Scope list" where "Scopes = [Portable, BuildSpecific]"

definition Scope_Valid :: "Scope \<Rightarrow> bool" where
  "Scope_Valid s \<longleftrightarrow> s = Portable \<or> s = BuildSpecific"

definition ScopeOf :: "Outcome \<Rightarrow> Justification \<Rightarrow> Scope \<Rightarrow> Scope" where
  "ScopeOf out why stated =
    (if Scope_Valid stated then stated
     else if out = Mismatched then Portable
     else if out = NotApplicable \<and> AboutIdentity why then Portable
     else BuildSpecific)"

subsection \<open>Refusals\<close>

datatype refusal =
    NotAnOutcome Outcome
  | NotOfACodeFinding Outcome
  | OnlyOfACodeFinding Outcome
  | NamesADateOnATag Outcome
  | NeedsReasoning
  | AgainstPolicy string
  | NeedsSomebody
  | VersionTooLong string nat
  | NotACodeFindingReason Justification
  | SaidInTheReasoning
  | NotARecognizedReason Justification
  | AVersionBumpChanges Justification
  | SayWhatStopsIt
  | ReasonNotClaimed Justification Outcome
  | MitigationNotClaimed
  | NotAScope Scope
  | NobodyItHoldsFor Outcome
  | DeferralNeedsADate
  | DoesNotReturn Outcome
  | NeedsTheFixedVersion
  | ClaimsNoFix Outcome
  | NeedsTheDate Outcome
  | PromisesNoWork Outcome
  | DeferredToThePast int
  | CommittedToThePast int
  | MovesNoVersion Outcome
  | NeedsTheVersion
  | NotOneOutcome Outcome Outcome
  | NotOneJustification | NotOneMitigation | NotOneScope | NotOneFixedVersion | NotOneUpgrade
  | NotOneDeferral | NotOneCommitment | NotOneReasoning

text \<open>The checks of a function in their order: the first that refuses is what it answers.\<close>

fun first_refusal :: "'e option list \<Rightarrow> 'e option" where
  "first_refusal [] = None"
| "first_refusal (Some e # checks) = Some e"
| "first_refusal (None # checks) = first_refusal checks"

definition refuse_if :: "bool \<Rightarrow> 'e \<Rightarrow> 'e option" where
  "refuse_if b e = (if b then Some e else None)"

lemma first_refusal_None [simp]: "first_refusal checks = None \<longleftrightarrow> list_all (\<lambda>c. c = None) checks"
  by (induction checks rule: first_refusal.induct) auto

lemma refuse_if_None [simp]: "refuse_if b e = None \<longleftrightarrow> \<not> b"
  by (simp add: refuse_if_def)

subsection \<open>What a decision is about, and what is proposed\<close>

record Occurrence =
  ProductID :: int
  VulnerabilityID :: int
  OccurrenceIdentity :: string
  Occ_Visibility :: Visibility
  OnTag :: bool
  Occ_Kind :: string
  ComponentUpstream :: string
  ConsumerUpstream :: string

record Proposal =
  Where_at :: Occurrence
  outcome :: Outcome
  justification :: Justification
  mitigation :: string
  scope :: Scope
  deferred_until :: "int option"
  fixed_version :: string
  committed_to :: "int option"
  upgrade_to :: string
  binding :: "int option"
  binding_across :: "int list"
  reasoning :: string
  By :: int
  severity_centi :: int
  selected_by :: string
  needs_approval :: bool

text \<open>\<^verbatim>\<open>version\<close>, the one way a version is read, and \<^verbatim>\<open>text\<close>, which keeps an absent one absent.\<close>

definition version_read :: "string \<Rightarrow> string" where
  "version_read s = trim_space s"

definition text_read :: "string \<Rightarrow> string option" where
  "text_read s = (if version_read s = [] then None else Some (version_read s))"

definition orEmpty :: "string option \<Rightarrow> string" where
  "orEmpty stored = (case stored of None \<Rightarrow> [] | Some s \<Rightarrow> s)"

definition scopeOf :: "Scope option \<Rightarrow> Scope" where
  "scopeOf stated = (case stated of None \<Rightarrow> [] | Some s \<Rightarrow> s)"

definition visibilityOf :: "Occurrence \<Rightarrow> Visibility" where
  "visibilityOf at = AsVisibility (Occ_Visibility at)"

definition versionLimit :: nat where "versionLimit = 191"

text \<open>
  The two versions are checked in the order of a Go map, which is not fixed: of two that are both
  too long the source names either, and this the component's.
\<close>

definition keyable :: "Occurrence \<Rightarrow> refusal option" where
  "keyable at = first_refusal
    [refuse_if (length (runes (version_read (ComponentUpstream at))) > versionLimit)
       (VersionTooLong ''component'' (length (runes (version_read (ComponentUpstream at))))),
     refuse_if (length (runes (version_read (ConsumerUpstream at))) > versionLimit)
       (VersionTooLong ''consumer'' (length (runes (version_read (ConsumerUpstream at)))))]"

definition Reasons :: "Outcome \<Rightarrow> Justification \<Rightarrow> string \<Rightarrow> refusal option" where
  "Reasons out why what =
    (let stops = refuse_if (why \<noteq> MitigationsExist \<and> out \<noteq> WontFix \<and> trim_space what \<noteq> [])
           MitigationNotClaimed
     in if out = Dismissed then first_refusal
          [refuse_if (\<not> List.member CodeFindingReasons why) (NotACodeFindingReason why),
           refuse_if (trim_space what \<noteq> []) SaidInTheReasoning]
        else if NeedsJustification out then first_refusal
          [refuse_if (\<not> Justification_Valid why) (NotARecognizedReason why),
           refuse_if (StandsAtAnyVersion out \<and> \<not> AboutIdentity why) (AVersionBumpChanges why),
           refuse_if (why = MitigationsExist \<and> trim_space what = []) SayWhatStopsIt,
           stops]
        else first_refusal
          [refuse_if (why \<noteq> []) (ReasonNotClaimed why out),
           stops])"

definition scoped :: "Outcome \<Rightarrow> Scope \<Rightarrow> refusal option" where
  "scoped out stated =
    (if stated = [] then None
     else first_refusal
       [refuse_if (\<not> Scope_Valid stated) (NotAScope stated),
        refuse_if (out = Deferred) (NobodyItHoldsFor out)])"

definition passed :: "int \<Rightarrow> int option \<Rightarrow> (int \<Rightarrow> refusal) \<Rightarrow> refusal option" where
  "passed now until e = (case until of None \<Rightarrow> None | Some t \<Rightarrow> refuse_if (\<not> t > now) (e t))"

definition Proposal_valid :: "(string \<Rightarrow> string option) \<Rightarrow> int \<Rightarrow> Proposal \<Rightarrow> refusal option" where
  "Proposal_valid policy now p = first_refusal
    [refuse_if (\<not> Outcome_Valid (outcome p)) (NotAnOutcome (outcome p)),
     refuse_if (\<not> List.member (OutcomesFor (Occ_Kind (Where_at p))) (outcome p))
       (if Occ_Kind (Where_at p) = Analysis then NotOfACodeFinding (outcome p) else OnlyOfACodeFinding (outcome p)),
     refuse_if (OnTag (Where_at p) \<and> Dated (outcome p)) (NamesADateOnATag (outcome p)),
     refuse_if (trim_space (reasoning p) = []) NeedsReasoning,
     map_option AgainstPolicy (policy (reasoning p)),
     refuse_if (By p = 0) NeedsSomebody,
     keyable (Where_at p),
     Reasons (outcome p) (justification p) (mitigation p),
     scoped (outcome p) (scope p),
     refuse_if (outcome p = Deferred \<and> deferred_until p = None) DeferralNeedsADate,
     refuse_if (outcome p \<noteq> Deferred \<and> deferred_until p \<noteq> None) (DoesNotReturn (outcome p)),
     refuse_if (outcome p = AlreadyFixed \<and> trim_space (fixed_version p) = []) NeedsTheFixedVersion,
     refuse_if (outcome p \<noteq> AlreadyFixed \<and> trim_space (fixed_version p) \<noteq> []) (ClaimsNoFix (outcome p)),
     refuse_if (Commits (outcome p) \<and> committed_to p = None) (NeedsTheDate (outcome p)),
     refuse_if (\<not> Commits (outcome p) \<and> committed_to p \<noteq> None) (PromisesNoWork (outcome p)),
     passed now (deferred_until p) DeferredToThePast,
     passed now (committed_to p) CommittedToThePast,
     refuse_if (outcome p \<noteq> UpgradeNeeded \<and> trim_space (upgrade_to p) \<noteq> []) (MovesNoVersion (outcome p)),
     refuse_if (outcome p = UpgradeNeeded \<and> trim_space (upgrade_to p) = []) NeedsTheVersion]"

text \<open>\<^verbatim>\<open>sameDay\<close>: two moments, either of which may be absent.\<close>

definition sameDay :: "int option \<Rightarrow> int option \<Rightarrow> bool" where
  "sameDay a b = (case (a, b) of
     (None, None) \<Rightarrow> True | (None, Some _) \<Rightarrow> False | (Some _, None) \<Rightarrow> False | (Some s, Some t) \<Rightarrow> s = t)"

definition same_argument :: "Proposal \<Rightarrow> Proposal \<Rightarrow> refusal option" where
  "same_argument fst_p p = first_refusal
    [refuse_if (outcome p \<noteq> outcome fst_p) (NotOneOutcome (outcome fst_p) (outcome p)),
     refuse_if (justification p \<noteq> justification fst_p) NotOneJustification,
     refuse_if (trim_space (mitigation p) \<noteq> trim_space (mitigation fst_p)) NotOneMitigation,
     refuse_if (scope p \<noteq> scope fst_p) NotOneScope,
     refuse_if (version_read (fixed_version p) \<noteq> version_read (fixed_version fst_p)) NotOneFixedVersion,
     refuse_if (version_read (upgrade_to p) \<noteq> version_read (upgrade_to fst_p)) NotOneUpgrade,
     refuse_if (\<not> sameDay (deferred_until p) (deferred_until fst_p)) NotOneDeferral,
     refuse_if (\<not> sameDay (committed_to p) (committed_to fst_p)) NotOneCommitment,
     refuse_if (trim_space (reasoning p) \<noteq> trim_space (reasoning fst_p)) NotOneReasoning]"

definition oneArgument :: "Proposal list \<Rightarrow> refusal option" where
  "oneArgument proposals = (case proposals of [] \<Rightarrow> None
     | p # others \<Rightarrow> first_refusal (map (same_argument p) others))"


subsection \<open>The key a live row is unique under\<close>

text \<open>
  \<^verbatim>\<open>finding.LiveKey\<close>. \<open>digest\<close> is the hexadecimal SHA-256 of a text. The key is only ever compared,
  so what the code relies on is that two texts with one digest are one text.
\<close>

definition LiveKey ::
  "(string \<Rightarrow> string) \<Rightarrow> int \<Rightarrow> int \<Rightarrow> string \<Rightarrow> string \<Rightarrow> string \<Rightarrow> bool \<Rightarrow> string" where
  "LiveKey digest productID issueID at componentUpstream consumerUpstream anyVersion =
    digest (strings_join [CHR 0x00] ([decimal productID, decimal issueID, at]
      @ (if \<not> anyVersion then [trim_space componentUpstream, trim_space consumerUpstream] else [])))"

definition liveKeyFor :: "(string \<Rightarrow> string) \<Rightarrow> Occurrence \<Rightarrow> bool \<Rightarrow> string" where
  "liveKeyFor digest at anyVersion = LiveKey digest (ProductID at) (VulnerabilityID at) (OccurrenceIdentity at)
     (ComponentUpstream at) (ConsumerUpstream at) anyVersion"

definition liveKeysFor :: "(string \<Rightarrow> string) \<Rightarrow> Occurrence \<Rightarrow> string list" where
  "liveKeysFor digest at = [liveKeyFor digest at False, liveKeyFor digest at True]"

fun read_digits :: "nat \<Rightarrow> string \<Rightarrow> nat" where
  "read_digits n [] = n"
| "read_digits n (c # cs) = read_digits (10 * n + (of_char c - 48)) cs"

lemma read_digits_append: "read_digits n (s @ [c]) = 10 * read_digits n s + (of_char c - 48)"
  by (induction n s rule: read_digits.induct) simp_all

lemma of_char_digit: "d < 10 \<Longrightarrow> of_char (char_of (48 + d) :: char) = (48 + d :: nat)"
  by simp

lemma read_itoa: "read_digits 0 (itoa n) = n"
proof (induction n rule: itoa.induct)
  case (1 n)
  show ?case
  proof (cases "n < 10")
    case True
    then show ?thesis by (simp add: itoa.simps [of n])
  next
    case False
    have "read_digits 0 (itoa n) = 10 * (n div 10) + (of_char (char_of (48 + n mod 10) :: char) - 48)"
      using 1 False by (simp add: itoa.simps [of n] read_digits_append)
    also have "\<dots> = n" by (subst of_char_digit) simp_all
    finally show ?thesis .
  qed
qed

lemma itoa_chars: "c \<in> set (itoa n) \<Longrightarrow> 48 \<le> (of_char c :: nat) \<and> of_char c < (58 :: nat)"
proof (induction n rule: itoa.induct)
  case (1 n)
  then show ?case
    by (cases "n < 10") (auto simp: itoa.simps [of n])
qed

lemma itoa_inj: "itoa m = itoa n \<longleftrightarrow> m = n"
  by (metis read_itoa)


lemma minus_not_itoa: "''-'' @ s \<noteq> itoa k"
proof
  assume "''-'' @ s = itoa k"
  then have "CHR ''-'' \<in> set (itoa k)" by (metis append_Cons list.set_intros(1))
  from itoa_chars [OF this] show False by simp
qed

lemma decimal_inj: "decimal m = decimal n \<longleftrightarrow> m = n"
proof -
  have "itoa k \<noteq> ''-'' @ s" for k s using minus_not_itoa [of s k] by metis
  then show ?thesis using minus_not_itoa by (auto simp: decimal_def itoa_inj)
qed

lemma decimal_plain: "CHR 0x00 \<notin> set (decimal n)"
  using itoa_chars [of "CHR 0x00"] by (auto simp: decimal_def)

lemma strip_sub: "set (strip ps s) \<subseteq> set s"
proof (induction ps s rule: strip.induct)
  case (1 ps s)
  then show ?case
    by (subst strip.simps) (auto split: option.splits dest: in_set_dropD)
qed

lemma trim_space_sub: "set (trim_space s) \<subseteq> set s"
  using strip_sub [of "map rev space_runes"] strip_sub [of space_runes] by (fastforce simp: trim_space_def)

lemma LiveKey_same:
  assumes "inj digest" and "CHR 0x00 \<notin> set (place @ component @ consumer)" and "CHR 0x00 \<notin> set (place' @ component' @ consumer')"
  shows "LiveKey digest p i place component consumer any = LiveKey digest p' i' place' component' consumer' any' \<longleftrightarrow>
    any = any' \<and> p = p' \<and> i = i' \<and> place = place'
    \<and> (any \<or> trim_space component = trim_space component' \<and> trim_space consumer = trim_space consumer')"
proof -
  define parts where "parts p i place component consumer any = [decimal p, decimal i, place]
    @ (if \<not> any then [trim_space component, trim_space consumer] else [])"
    for p i :: int and place component consumer :: string and any
  have key: "LiveKey digest p i place component consumer any = digest (strings_join [CHR 0x00] (parts p i place component consumer any))"
    for p i place component consumer any
    by (simp add: LiveKey_def parts_def)
  have "split_on (CHR 0x00) (strings_join [CHR 0x00] (parts p i place component consumer any)) = parts p i place component consumer any"
    if "CHR 0x00 \<notin> set (place @ component @ consumer)" for p i place component consumer any
    using that decimal_plain trim_space_sub [of component] trim_space_sub [of consumer]
    by (intro split_on_join) (auto simp: parts_def)
  then have "LiveKey digest p i place component consumer any = LiveKey digest p' i' place' component' consumer' any'
      \<longleftrightarrow> parts p i place component consumer any = parts p' i' place' component' consumer' any'"
    using assms unfolding key by (metis injD)
  then show ?thesis by (auto simp: parts_def decimal_inj)
qed

text \<open>
  Two occurrences hold one live key exactly when they are the same place at the same trimmed
  versions, or the same place where the decision stands at any version; a correction and a
  versioned decision never share one, also where no version is stated.
\<close>

theorem live_keys_tell_occurrences_apart:
  assumes "inj digest"
    and "CHR 0x00 \<notin> set (OccurrenceIdentity a @ ComponentUpstream a @ ConsumerUpstream a)"
    and "CHR 0x00 \<notin> set (OccurrenceIdentity b @ ComponentUpstream b @ ConsumerUpstream b)"
  shows "liveKeyFor digest a any = liveKeyFor digest b any' \<longleftrightarrow>
    any = any' \<and> ProductID a = ProductID b \<and> VulnerabilityID a = VulnerabilityID b
    \<and> OccurrenceIdentity a = OccurrenceIdentity b
    \<and> (any \<or> trim_space (ComponentUpstream a) = trim_space (ComponentUpstream b)
          \<and> trim_space (ConsumerUpstream a) = trim_space (ConsumerUpstream b))"
  using LiveKey_same [OF assms] by (simp add: liveKeyFor_def)

definition sample_place :: Occurrence where
  "sample_place = \<lparr>ProductID = 1, VulnerabilityID = 23, OccurrenceIdentity = ''lib/app'', Occ_Visibility = Public,
     OnTag = False, Occ_Kind = ''vulnerability'', ComponentUpstream = ''1.2 '', ConsumerUpstream = []\<rparr>"

theorem live_keys_tell_occurrences_apart_witness:
  "liveKeyFor (\<lambda>s. s) sample_place False = liveKeyFor (\<lambda>s. s) (sample_place\<lparr>ComponentUpstream := '' 1.2''\<rparr>) False
    \<and> liveKeyFor (\<lambda>s. s) sample_place True \<noteq> liveKeyFor (\<lambda>s. s) sample_place False
    \<and> liveKeyFor (\<lambda>s. s) sample_place True \<noteq> liveKeyFor (\<lambda>s. s) (sample_place\<lparr>ProductID := 12, VulnerabilityID := 3\<rparr>) True"
proof -
  have trims: "trim_space ''1.2 '' = trim_space '' 1.2''" by code_simp
  have inj: "inj (\<lambda>s :: string. s)" by simp
  note apart = live_keys_tell_occurrences_apart [OF inj, of sample_place]
  show ?thesis
    using apart [of "sample_place\<lparr>ComponentUpstream := '' 1.2''\<rparr>" False False] trims
      apart [of sample_place True False]
      apart [of "sample_place\<lparr>ProductID := 12, VulnerabilityID := 3\<rparr>" True True]
    by (simp add: sample_place_def)
qed

text \<open>
  C37: a decision that is accepted means what its outcome says. It carries a date exactly when its
  outcome is one that is checked later, one date and never both, still to come, and never on a
  release that was built once; it names a reason exactly when its outcome states one; what covers
  a component at every version rests on the code being absent; and a fix or an upgrade names its
  version and nothing else does.
\<close>

theorem an_accepted_proposal_means_what_it_says:
  assumes "Proposal_valid policy now p = None"
  shows "(deferred_until p \<noteq> None \<or> committed_to p \<noteq> None \<longleftrightarrow> Dated (outcome p))
    \<and> (deferred_until p = None \<or> committed_to p = None)
    \<and> (\<forall>t. deferred_until p = Some t \<or> committed_to p = Some t \<longrightarrow> now < t \<and> \<not> OnTag (Where_at p))
    \<and> (justification p \<noteq> [] \<longleftrightarrow> NeedsJustification (outcome p))
    \<and> (StandsAtAnyVersion (outcome p) \<and> \<not> AboutALead (outcome p) \<longrightarrow> AboutIdentity (justification p))
    \<and> (trim_space (fixed_version p) \<noteq> [] \<longleftrightarrow> outcome p = AlreadyFixed)
    \<and> (trim_space (upgrade_to p) \<noteq> [] \<longleftrightarrow> outcome p = UpgradeNeeded)"
proof -
  note checks = assms [unfolded Proposal_valid_def, simplified]
  have deferred: "outcome p = Deferred \<longleftrightarrow> deferred_until p \<noteq> None" using checks by (cases "deferred_until p") simp_all
  have commits: "Commits (outcome p) \<longleftrightarrow> committed_to p \<noteq> None" using checks by (cases "committed_to p") simp_all
  have later: "now < t" if t: "deferred_until p = Some t \<or> committed_to p = Some t" for t
  proof -
    have "passed now (deferred_until p) DeferredToThePast = None" "passed now (committed_to p) CommittedToThePast = None"
      using checks by simp_all
    then show ?thesis using t by (auto simp: passed_def)
  qed
  have tag: "OnTag (Where_at p) \<longrightarrow> \<not> Dated (outcome p)" using checks by simp
  have versions: "trim_space (fixed_version p) \<noteq> [] \<longleftrightarrow> outcome p = AlreadyFixed"
    "trim_space (upgrade_to p) \<noteq> [] \<longleftrightarrow> outcome p = UpgradeNeeded"
    using checks by metis+
  have reason: "Reasons (outcome p) (justification p) (mitigation p) = None" using checks by simp
  have words: "List.member CodeFindingReasons j \<or> Justification_Valid j \<Longrightarrow> j \<noteq> []" for j
    by (auto simp: CodeFindingReasons_def Justification_Valid_def Justifications_def justification_words
        FalsePositive_def WillNotFix_def UsedInTests_def Mitigated_def)
  have justified: "justification p \<noteq> [] \<longleftrightarrow> NeedsJustification (outcome p)"
    using reason words [of "justification p"]
    by (auto simp: Reasons_def Let_def NeedsJustification_def split: if_splits)
  have identity: "AboutIdentity (justification p)" if "StandsAtAnyVersion (outcome p)" "\<not> AboutALead (outcome p)"
  proof -
    have "outcome p = Mismatched"
      using that by (auto simp: StandsAtAnyVersion_def AnyVersionOutcomes_def AboutALead_def CodeFindingOutcomes_def)
    then show ?thesis using reason that(1) by (simp add: Reasons_def NeedsJustification_def split: if_splits)
  qed
  have one: "deferred_until p = None \<or> committed_to p = None"
    using deferred commits by (auto simp: Commits_def)
  have dated: "deferred_until p \<noteq> None \<or> committed_to p \<noteq> None \<longleftrightarrow> Dated (outcome p)"
    using deferred commits by (simp add: Dated_def) blast
  show ?thesis
    using dated one later tag justified identity versions by (intro conjI; blast)
qed

definition sample_proposal :: Proposal where
  "sample_proposal = \<lparr>Where_at = sample_place, outcome = Deferred, justification = [], mitigation = [], scope = [],
     deferred_until = Some 900, fixed_version = [], committed_to = None, upgrade_to = [], binding = None,
     binding_across = [], reasoning = ''not reachable this quarter'', By = 7, severity_centi = 550,
     selected_by = [], needs_approval = False\<rparr>"

lemma sample_proposal_valid: "Proposal_valid (\<lambda>_. None) 100 sample_proposal = None"
  by code_simp

theorem an_accepted_proposal_means_what_it_says_witness:
  "Dated (outcome sample_proposal) \<and> committed_to sample_proposal = None \<and> justification sample_proposal = []
    \<and> Proposal_valid (\<lambda>_. None) 1000 sample_proposal = Some (DeferredToThePast 900)"
proof -
  have "Proposal_valid (\<lambda>_. None) 1000 sample_proposal = Some (DeferredToThePast 900)"
    "\<not> NeedsJustification Deferred" by code_simp+
  then show ?thesis
    using an_accepted_proposal_means_what_it_says [OF sample_proposal_valid] by (simp add: sample_proposal_def)
qed

end
