(* ===== verification/Triage_Data.thy ===== *)
theory Triage_Data
  imports Triage_Outcome
begin

section \<open>The triage tables\<close>

text \<open>
  The rows of \<^verbatim>\<open>internal/triage/decision.go\<close> and \<^verbatim>\<open>occurrence.go\<close>: a decision, the occurrences
  it lands at, the revisions of its reasoning, the agreements given to it, the comments on it and
  the stamp its writers match on. Fields carry the alias their table has in the source's SQL. A
  table is the list of its rows, oldest first; no operation deletes a row, so the identifier a
  database counts up is one more than the number of rows. What a query reads from tables that
  belong to other packages (findings, incidents, settings, issues merged into one another) is the
  record \<open>env\<close>, as that one transaction reads it. The attachments a text refers to, the builds a
  decision was made on and the statement it was started from are recorded beside it and decide
  nothing here, so they are left out.
\<close>

subsection \<open>Rows\<close>

datatype State = Proposed | Approved | Withdrawn | LapsedState

definition States :: "State list" where "States = [Proposed, Approved, Withdrawn, LapsedState]"

definition Live :: "State \<Rightarrow> bool" where "Live s \<longleftrightarrow> s = Proposed \<or> s = Approved"

definition Ended :: "State \<Rightarrow> bool" where "Ended s \<longleftrightarrow> s = Withdrawn \<or> s = LapsedState"

lemma Live_or_Ended: "Live s \<longleftrightarrow> \<not> Ended s"
  by (cases s) (simp_all add: Live_def Ended_def)

datatype DecisionKind = FindingDecision | BulkDecision | ExtensionDecision | ReturnedDecision

record Narrowing =
  Contains :: string
  Matched :: int
  Named :: int

record Decision =
  cl_id :: int
  cl_kind :: DecisionKind
  cl_proposed_by :: int
  cl_proposed_at :: int
  cl_derived_from :: "int option"
  cl_selected_by :: "string option"
  cl_narrowing :: "Narrowing option"
  cl_outcome :: Outcome
  cl_justification :: "string option"
  cl_mitigation :: "string option"
  cl_scope :: "Scope option"
  cl_deferred_until :: "int option"
  cl_fixed_version :: "string option"
  cl_committed_to :: "int option"
  cl_upgrade_to :: "string option"
  cl_revision :: "int option"

record DecisionOccurrence =
  de_id :: int
  de_decision :: int
  de_product :: int
  de_issue :: int
  de_identity :: string
  de_visibility :: Visibility
  de_component_version :: "string option"
  de_consumer_version :: "string option"
  de_severity :: "int option"
  de_needs_approval :: bool
  de_state :: State
  de_sent_back_at :: "int option"
  de_selected_by :: "string option"
  de_proposed_by :: int
  de_proposed_at :: int
  de_ended_at :: "int option"
  de_live_key :: "string option"

record Revision =
  dr_id :: int
  dr_decision :: int
  dr_ordinal :: int
  dr_body :: string
  dr_written_by :: int
  dr_written_at :: int

record Approval =
  da_id :: int
  da_decision :: int
  da_revision :: int
  da_approved_by :: int
  da_approved_at :: int
  da_withdrawn_at :: "int option"
  da_withdrawn_by :: "int option"
  da_batch :: "string option"
  da_covered :: "int option"
  da_carried_from :: "int option"

record Comment =
  cm_decision :: int
  cm_body :: string
  cm_written_by :: int
  cm_written_at :: int

record tables =
  decisions :: "Decision list"
  occurrences :: "DecisionOccurrence list"
  revisions :: "Revision list"
  approvals :: "Approval list"
  comments :: "Comment list"
  stamps :: "int \<Rightarrow> int"

definition no_tables :: tables where
  "no_tables = \<lparr>decisions = [], occurrences = [], revisions = [], approvals = [], comments = [], stamps = (\<lambda>_. 0)\<rparr>"

subsection \<open>What a transaction reads from elsewhere\<close>

text \<open>\<^verbatim>\<open>Bounds\<close> of \<^verbatim>\<open>bulk.go\<close>, here as the settings of the deployment answer them.\<close>

record Bounds =
  BoundReview :: int
  BoundAgreed :: int
  BoundOccurrences :: int

record env =
  policy :: "string \<Rightarrow> string option"
  digest :: "string \<Rightarrow> string"
  issue_of :: "int \<Rightarrow> int"
  clock :: int
  threshold :: int
  bulk_cap :: int
  deadline_at :: "int \<Rightarrow> int list \<Rightarrow> (int \<times> string) list \<Rightarrow> int option"
  incident :: "int \<Rightarrow> int \<Rightarrow> bool"
  private_left :: "int \<Rightarrow> int \<Rightarrow> int option"
  is_rule :: "int \<Rightarrow> bool"
  flawed :: "DecisionOccurrence \<Rightarrow> bool"
  severity_of :: "int \<Rightarrow> int \<Rightarrow> int"
  in_support :: "DecisionOccurrence \<Rightarrow> bool"
  covers :: "int list \<Rightarrow> int"
  limits_set :: Bounds

subsection \<open>Answers that may be refusals\<close>

datatype failure =
    Refused refusal
  | ErrNotTheirs
  | ErrSamePerson
  | ErrNothingToApprove
  | ErrNotExtendable string
  | ErrAlreadyDecided
  | ErrCodeFindingRecordedAsFlaw
  | ErrContradictsIncident
  | ErrBulkOverIncident
  | ErrGoAgain
  | MadeByAnother
  | OverTheCap int int
  | NotPartOf int int
  | SayWhy
  | SaysNothing
  | ReasoningChanged
  | NotTheOneWhoMadeIt
  | TheWholeDecision
  | NotStillArgued int State
  | YourOwnToRevise
  | NothingWaiting
  | ChangedWhileSentBack
  | AnotherOccurrence
  | NotReaffirmable
  | ReadFailed
  | NothingSelected
  | ErrNothingOpen
  | ErrAllDecided
  | TooManyFindings int int
  | TooManyToReview int int
  | TooManyToConfirm int int
  | ErrNotOffered int
  | OthersDecisions "string list"
  | ErrCodeFindingPastEndOfLife
  | ErrIncidentStands
  | ErrNoSuchIncident
  | KeptAgainstAPerson
  | DeniedIncident
  | SayWhatHappened
  | GroundsTooLong
  | SayWhenKnown
  | NotYetKnown
  | KnownTooEarly
  | KeyHeld

definition checked :: "failure option \<Rightarrow> failure + 'a \<Rightarrow> failure + 'a" where
  "checked c k = (case c of Some e \<Rightarrow> Inl e | None \<Rightarrow> k)"

definition and_then :: "failure + 'a \<Rightarrow> ('a \<Rightarrow> failure + 'b) \<Rightarrow> failure + 'b" where
  "and_then r k = (case r of Inl e \<Rightarrow> Inl e | Inr a \<Rightarrow> k a)"

lemma checked_Inr [simp]: "checked c k = Inr a \<longleftrightarrow> c = None \<and> k = Inr a"
  by (cases c) (simp_all add: checked_def)

lemma and_then_Inr [simp]: "and_then r k = Inr b \<longleftrightarrow> (\<exists>a. r = Inr a \<and> k a = Inr b)"
  by (cases r) (simp_all add: and_then_def)

lemma and_then_simps: "and_then (Inl e) k = Inl e" "and_then (Inr a) k = k a"
  by (simp_all add: and_then_def)

lemma checked_simps: "checked None k = k" "checked (Some e) k = Inl e"
  by (simp_all add: checked_def)

subsection \<open>Reading and writing a table\<close>

definition decision_of :: "int \<Rightarrow> tables \<Rightarrow> Decision option" where
  "decision_of i s = find (\<lambda>c. cl_id c = i) (decisions s)"

definition rows_of :: "int \<Rightarrow> tables \<Rightarrow> DecisionOccurrence list" where
  "rows_of i s = filter (\<lambda>r. de_decision r = i) (occurrences s)"

definition fresh :: "'a list \<Rightarrow> int" where "fresh rows = int (length rows) + 1"

definition change :: "('a \<Rightarrow> bool) \<Rightarrow> ('a \<Rightarrow> 'a) \<Rightarrow> 'a list \<Rightarrow> 'a list" where
  "change p f rows = map (\<lambda>r. if p r then f r else r) rows"

definition matched :: "('a \<Rightarrow> bool) \<Rightarrow> 'a list \<Rightarrow> nat" where
  "matched p rows = length (filter p rows)"

lemma change_map: "(\<And>r. g (f r) = g r) \<Longrightarrow> map g (change p f rows) = map g rows"
  by (simp add: change_def)

lemma in_change: "r \<in> set (change p f rows) \<longleftrightarrow> (\<exists>r' \<in> set rows. r = (if p r' then f r' else r'))"
  by (auto simp: change_def)

lemma length_change [simp]: "length (change p f rows) = length rows"
  by (simp add: change_def)

text \<open>The unique index over \<^verbatim>\<open>live_key\<close>: no key but the absent one is held twice.\<close>

fun held_keys :: "DecisionOccurrence list \<Rightarrow> string list" where
  "held_keys [] = []"
| "held_keys (r # rows) = (case de_live_key r of None \<Rightarrow> held_keys rows | Some k \<Rightarrow> k # held_keys rows)"

definition unique_keys :: "DecisionOccurrence list \<Rightarrow> bool" where
  "unique_keys rows \<longleftrightarrow> distinct (held_keys rows)"

lemma held_keys_append [simp]: "held_keys (a @ b) = held_keys a @ held_keys b"
  by (induction a) (auto split: option.splits)

lemma in_held_keys: "k \<in> set (held_keys rows) \<longleftrightarrow> (\<exists>r \<in> set rows. de_live_key r = Some k)"
  by (induction rows) (auto split: option.splits)

lemma held_keys_change:
  assumes "\<And>r. de_live_key (f r) = de_live_key r \<or> de_live_key (f r) = None" and "unique_keys rows"
  shows "unique_keys (change p f rows)"
  using assms(2) unfolding unique_keys_def change_def
proof (induction rows)
  case (Cons r rows)
  have sub: "set (held_keys (map (\<lambda>r. if p r then f r else r) rows)) \<subseteq> set (held_keys rows)" for rows
  proof
    fix k
    assume "k \<in> set (held_keys (map (\<lambda>r. if p r then f r else r) rows))"
    then obtain r where "r \<in> set rows" "de_live_key (if p r then f r else r) = Some k"
      by (auto simp: in_held_keys)
    then show "k \<in> set (held_keys rows)" using assms(1) [of r] by (cases "p r") (auto simp: in_held_keys)
  qed
  show ?case
  proof (cases "de_live_key r")
    case None
    then have "de_live_key (if p r then f r else r) = None" using assms(1) [of r] by auto
    then show ?thesis using Cons None by simp
  next
    case (Some k)
    then show ?thesis using Cons sub [of rows] assms(1) [of r] by (auto split: option.splits)
  qed
qed simp

end
