(* ===== verification/Triage_Deferral.thy ===== *)
theory Triage_Deferral
  imports Triage_Data
begin

section \<open>What needs a second person\<close>

text \<open>
  \<^verbatim>\<open>internal/triage/threshold.go\<close>: how long an occurrence has been put off across every deferral
  ever recorded about it, when a promise to act is past the deadline of the work, and the one
  answer every write path asks before it records anything. The main result is that the merge of
  overlapping stretches counts every instant some deferral held exactly once, whatever was
  withdrawn, lapsed or re-made in between.
\<close>

subsection \<open>Stretches\<close>

record span =
  from_at :: int
  to_at :: int

definition heldSpan :: "int \<Rightarrow> int \<Rightarrow> State \<Rightarrow> int option \<Rightarrow> span option" where
  "heldSpan proposedAt until state endedAt =
    (let until = (case endedAt of
           Some e \<Rightarrow> if Ended state \<and> e < until then e else until
         | None \<Rightarrow> until)
     in if \<not> until > proposedAt then None else Some \<lparr>from_at = proposedAt, to_at = until\<rparr>)"

definition heldDeferral :: "DecisionOccurrence \<Rightarrow> Decision option \<Rightarrow> span option" where
  "heldDeferral deferral decision =
    (case decision of None \<Rightarrow> None
     | Some d \<Rightarrow> (case cl_deferred_until d of None \<Rightarrow> None
        | Some until \<Rightarrow> heldSpan (de_proposed_at deferral) until (de_state deferral) (de_ended_at deferral)))"

text \<open>
  A \<^verbatim>\<open>time.Duration\<close> is a signed 64-bit count of nanoseconds: the difference of two instants stops at
  the ends of what it can say, about 292 years, and a sum of two goes round.
\<close>

definition most_nanoseconds :: int where "most_nanoseconds = 2 ^ 63 - 1"

definition time_sub :: "int \<Rightarrow> int \<Rightarrow> int" where
  "time_sub t u = max (- most_nanoseconds - 1) (min most_nanoseconds (t - u))"

definition add_duration :: "int \<Rightarrow> int \<Rightarrow> int" where
  "add_duration a b = (a + b + 2 ^ 63) mod 2 ^ 64 - 2 ^ 63"

lemma time_sub_fits: "u \<le> t \<Longrightarrow> t - u \<le> most_nanoseconds \<Longrightarrow> time_sub t u = t - u"
  by (simp add: time_sub_def most_nanoseconds_def)

lemma add_duration_fits: "0 \<le> a \<Longrightarrow> 0 \<le> b \<Longrightarrow> a + b \<le> most_nanoseconds \<Longrightarrow> add_duration a b = a + b"
  by (simp add: add_duration_def most_nanoseconds_def)

text \<open>\<open>opened\<close> is the stretch the loop holds open and \<open>so_far\<close> what it has closed.\<close>

fun total_loop :: "span \<Rightarrow> int \<Rightarrow> span list \<Rightarrow> int" where
  "total_loop opened so_far [] = add_duration so_far (time_sub (to_at opened) (from_at opened))"
| "total_loop opened so_far (one # held) =
    (if from_at one > to_at opened
     then total_loop one (add_duration so_far (time_sub (to_at opened) (from_at opened))) held
     else if to_at one > to_at opened then total_loop (opened\<lparr>to_at := to_at one\<rparr>) so_far held
     else total_loop opened so_far held)"

definition total :: "span list \<Rightarrow> int" where
  "total held = (case sort_key from_at held of [] \<Rightarrow> 0 | one # others \<Rightarrow> total_loop one 0 others)"

abbreviation instants :: "span \<Rightarrow> int set" where
  "instants x \<equiv> {from_at x ..< to_at x}"

lemma closing_fits:
  assumes "from_at opened \<le> to_at opened" and "0 \<le> so_far" and "finite A"
    and "so_far + int (card (instants opened \<union> A)) \<le> most_nanoseconds"
  shows "add_duration so_far (time_sub (to_at opened) (from_at opened)) = so_far + (to_at opened - from_at opened)"
proof -
  have "card (instants opened) \<le> card (instants opened \<union> A)" using assms(3) by (intro card_mono) auto
  then have "so_far + (to_at opened - from_at opened) \<le> most_nanoseconds" using assms(1,4) by simp
  then show ?thesis using assms(1,2) by (simp add: time_sub_fits add_duration_fits)
qed

lemma total_loop_counts:
  assumes "sorted (map from_at held)" and "list_all (\<lambda>x. from_at opened \<le> from_at x \<and> from_at x \<le> to_at x) held"
    and "from_at opened \<le> to_at opened" and "0 \<le> so_far"
    and "so_far + int (card (instants opened \<union> (\<Union>x \<in> set held. instants x))) \<le> most_nanoseconds"
  shows "total_loop opened so_far held = so_far + int (card (instants opened \<union> (\<Union>x \<in> set held. instants x)))"
  using assms
proof (induction opened so_far held rule: total_loop.induct)
  case (1 opened so_far)
  then show ?case using closing_fits [of opened so_far "{}"] by simp
next
  case (2 opened so_far one held)
  let ?rest = "\<Union>x \<in> set held. instants x"
  have rest: "sorted (map from_at held)" "list_all (\<lambda>x. from_at one \<le> from_at x \<and> from_at x \<le> to_at x) held"
    "list_all (\<lambda>x. from_at opened \<le> from_at x \<and> from_at x \<le> to_at x) held"
    using "2.prems" by (auto simp: list_all_iff)
  have one: "from_at opened \<le> from_at one" "from_at one \<le> to_at one" using "2.prems" by auto
  have fits: "so_far + int (card (instants opened \<union> (instants one \<union> ?rest))) \<le> most_nanoseconds"
    using "2.prems"(5) by simp
  consider (gap) "from_at one > to_at opened" | (longer) "\<not> from_at one > to_at opened" "to_at one > to_at opened"
    | (within) "\<not> from_at one > to_at opened" "\<not> to_at one > to_at opened" by blast
  then show ?case
  proof cases
    case gap
    have apart: "instants opened \<inter> (instants one \<union> ?rest) = {}"
      using gap rest(2) by (fastforce simp: list_all_iff)
    have closed: "add_duration so_far (time_sub (to_at opened) (from_at opened)) = so_far + (to_at opened - from_at opened)"
      using "2.prems"(3,4) fits by (intro closing_fits) auto
    have both: "int (card (instants opened \<union> (instants one \<union> ?rest)))
        = to_at opened - from_at opened + int (card (instants one \<union> ?rest))"
      using apart "2.prems"(3) by (subst card_Un_disjoint) auto
    have "total_loop one (so_far + (to_at opened - from_at opened)) held
        = so_far + (to_at opened - from_at opened) + int (card (instants one \<union> ?rest))"
      using gap "2.IH"(1) rest one "2.prems"(3,4) fits both unfolding closed by simp
    then show ?thesis using gap closed both by simp
  next
    case longer
    have "instants (opened\<lparr>to_at := to_at one\<rparr>) = instants opened \<union> instants one"
      using longer one by auto
    then show ?thesis using longer "2.IH"(2) rest one "2.prems"(3,4) fits by (simp add: Un_assoc)
  next
    case within
    then have "instants opened \<union> instants one = instants opened" using one by auto
    then show ?thesis using within "2.IH"(3) rest "2.prems"(3,4) fits by (simp add: Un_assoc [symmetric])
  qed
qed

lemma total_counts:
  assumes "list_all (\<lambda>x. from_at x \<le> to_at x) held"
    and "int (card (\<Union>x \<in> set held. instants x)) \<le> most_nanoseconds"
  shows "total held = int (card (\<Union>x \<in> set held. instants x))"
proof (cases "sort_key from_at held")
  case Nil
  then have "held = []" by (metis length_0_conv length_sort)
  then show ?thesis by (simp add: total_def)
next
  case (Cons one others)
  have set: "set held = insert one (set others)" by (metis Cons list.simps(15) set_sort)
  have "sorted (map from_at (one # others))" using sorted_sort_key [of from_at held] Cons by simp
  then have "total_loop one 0 others = 0 + int (card (instants one \<union> (\<Union>x \<in> set others. instants x)))"
    using assms set by (intro total_loop_counts) (auto simp: list_all_iff)
  then show ?thesis by (simp add: total_def Cons set)
qed

subsection \<open>How long an occurrence has been put off\<close>

text \<open>
  The deferrals a statement reads: the rows whose decision is a deferral that names its date.
  Filed under whichever issue, they count for the issue they are read as.
\<close>

definition deferrals :: "tables \<Rightarrow> (DecisionOccurrence \<times> Decision option) list" where
  "deferrals s = filter (\<lambda>(r, d). case d of None \<Rightarrow> False
      | Some d \<Rightarrow> cl_outcome d = Deferred \<and> cl_deferred_until d \<noteq> None)
     (map (\<lambda>r. (r, decision_of (de_decision r) s)) (occurrences s))"

type_synonym place = "int \<times> int \<times> string"

definition place_of :: "env \<Rightarrow> int \<Rightarrow> int \<Rightarrow> string \<Rightarrow> place" where
  "place_of e product issue at = (product, issue_of e issue, at)"

definition held_at :: "env \<Rightarrow> tables \<Rightarrow> place \<Rightarrow> span list" where
  "held_at e s key = List.map_filter (\<lambda>(r, d).
      if place_of e (de_product r) (de_issue r) (de_identity r) = key then heldDeferral r d else None)
    (deferrals s)"

definition deferredWith :: "env \<Rightarrow> tables \<Rightarrow> int \<Rightarrow> int \<Rightarrow> string \<Rightarrow> span option \<Rightarrow> int" where
  "deferredWith e s product issue at asking =
    (let held = held_at e s (place_of e product issue at)
     in case asking of Some one \<Rightarrow> total (held @ [one]) | None \<Rightarrow> total held)"

definition DeferredSoFar :: "env \<Rightarrow> tables \<Rightarrow> int \<Rightarrow> int \<Rightarrow> string \<Rightarrow> int" where
  "DeferredSoFar e s product issue at = deferredWith e s product issue at None"

subsection \<open>The gate\<close>

definition commitmentGated :: "int option \<Rightarrow> int option \<Rightarrow> bool" where
  "commitmentGated committedTo binding_date = (case (committedTo, binding_date) of
     (Some c, Some b) \<Rightarrow> c > b | _ \<Rightarrow> True)"

definition asked_span :: "int \<Rightarrow> int option \<Rightarrow> span option" where
  "asked_span now until = (case until of
     Some u \<Rightarrow> if u > now then Some \<lparr>from_at = now, to_at = u\<rparr> else None | None \<Rightarrow> None)"

definition NeedsApproval :: "env \<Rightarrow> tables \<Rightarrow> Proposal \<Rightarrow> bool" where
  "NeedsApproval e s p =
    (if \<not> HidesRisk (outcome p) then False
     else if Commits (outcome p) then commitmentGated (committed_to p) (binding p)
     else if outcome p \<noteq> Deferred then True
     else if threshold e \<le> 0 then True
     else deferredWith e s (ProductID (Where_at p)) (VulnerabilityID (Where_at p))
            (OccurrenceIdentity (Where_at p)) (asked_span (clock e) (deferred_until p)) \<ge> threshold e)"

definition bind :: "env \<Rightarrow> Proposal list \<Rightarrow> Proposal list" where
  "bind e proposals =
    (let covered = filter (\<lambda>p. binding_across p \<noteq> []) proposals
     in case covered of [] \<Rightarrow> proposals
        | p # _ \<Rightarrow>
          let earliest = deadline_at e (ProductID (Where_at p)) (binding_across p)
                (map (\<lambda>q. (VulnerabilityID (Where_at q), OccurrenceIdentity (Where_at q))) covered)
          in map (\<lambda>q. if binding_across q \<noteq> [] then q\<lparr>binding := earliest\<rparr> else q) proposals)"

definition gate :: "env \<Rightarrow> tables \<Rightarrow> Proposal list \<Rightarrow> Proposal list" where
  "gate e s proposals = map (\<lambda>p. p\<lparr>needs_approval := NeedsApproval e s p\<rparr>) (bind e proposals)"

subsection \<open>Every instant once\<close>

text \<open>The instants one deferral held an occurrence: from when it was asked for, to its date or its end.\<close>

definition put_off :: "env \<Rightarrow> tables \<Rightarrow> place \<Rightarrow> int set" where
  "put_off e s key = {t. \<exists>r \<in> set (occurrences s). \<exists>d until. decision_of (de_decision r) s = Some d
     \<and> place_of e (de_product r) (de_issue r) (de_identity r) = key
     \<and> cl_outcome d = Deferred \<and> cl_deferred_until d = Some until
     \<and> de_proposed_at r \<le> t \<and> t < until
     \<and> (\<forall>ended. Ended (de_state r) \<and> de_ended_at r = Some ended \<longrightarrow> t < ended)}"

lemma heldSpan_instants:
  "(\<exists>x. heldSpan proposedAt until state endedAt = Some x \<and> t \<in> instants x) \<longleftrightarrow>
    proposedAt \<le> t \<and> t < until \<and> (\<forall>e. Ended state \<and> endedAt = Some e \<longrightarrow> t < e)"
  by (cases endedAt) (auto simp: heldSpan_def Let_def)

lemma heldSpan_forward: "heldSpan proposedAt until state endedAt = Some x \<Longrightarrow> from_at x \<le> to_at x"
  by (auto simp: heldSpan_def Let_def split: if_splits option.splits)

lemma set_map_filter: "set (List.map_filter f xs) = {y. \<exists>x \<in> set xs. f x = Some y}"
  by (force simp: map_filter_def)

lemma held_at_forward: "list_all (\<lambda>x. from_at x \<le> to_at x) (held_at e s key)"
  by (auto simp: held_at_def list_all_iff set_map_filter heldDeferral_def split: if_splits option.splits
      dest: heldSpan_forward)

lemma held_at_instants: "(\<Union>x \<in> set (held_at e s key). instants x) = put_off e s key"
proof -
  have "t \<in> (\<Union>x \<in> set (held_at e s key). instants x) \<longleftrightarrow>
    (\<exists>r \<in> set (occurrences s). \<exists>d until. decision_of (de_decision r) s = Some d
       \<and> cl_outcome d = Deferred \<and> cl_deferred_until d = Some until
       \<and> place_of e (de_product r) (de_issue r) (de_identity r) = key
       \<and> (\<exists>x. heldSpan (de_proposed_at r) until (de_state r) (de_ended_at r) = Some x \<and> t \<in> instants x))" for t
    by (fastforce simp: held_at_def set_map_filter deferrals_def heldDeferral_def split: option.splits if_splits)
  then show ?thesis unfolding heldSpan_instants put_off_def by blast
qed

text \<open>The instants a proposal would put an occurrence off for, from the store's own clock.\<close>

definition asked_for :: "int \<Rightarrow> int option \<Rightarrow> int set" where
  "asked_for now until = {t. \<exists>u. until = Some u \<and> now \<le> t \<and> t < u}"

lemma deferredWith_counts:
  "int (card (put_off e s (place_of e product issue at))) \<le> most_nanoseconds
    \<Longrightarrow> deferredWith e s product issue at None = int (card (put_off e s (place_of e product issue at)))"
  "int (card (put_off e s (place_of e product issue at) \<union> asked_for now until)) \<le> most_nanoseconds
    \<Longrightarrow> deferredWith e s product issue at (asked_span now until)
      = int (card (put_off e s (place_of e product issue at) \<union> asked_for now until))"
proof -
  let ?key = "place_of e product issue at"
  have counts: "total (held_at e s ?key) = int (card (put_off e s ?key))" if "int (card (put_off e s ?key)) \<le> most_nanoseconds"
    using total_counts [OF held_at_forward, of e s ?key] that by (simp add: held_at_instants)
  then show "deferredWith e s product issue at None = int (card (put_off e s ?key))"
    if "int (card (put_off e s ?key)) \<le> most_nanoseconds"
    using that by (simp add: deferredWith_def)
  show "deferredWith e s product issue at (asked_span now until) = int (card (put_off e s ?key \<union> asked_for now until))"
    if fits: "int (card (put_off e s ?key \<union> asked_for now until)) \<le> most_nanoseconds"
  proof (cases "asked_span now until")
    case None
    then have empty: "asked_for now until = {}"
      by (auto simp: asked_for_def asked_span_def split: option.splits if_splits)
    show ?thesis using fits counts None unfolding empty by (simp add: deferredWith_def)
  next
    case (Some one)
    then have one: "instants one = asked_for now until" "from_at one \<le> to_at one"
      by (auto simp: asked_for_def asked_span_def split: option.splits if_splits)
    have all: "(\<Union>x \<in> set (held_at e s ?key @ [one]). instants x) = put_off e s ?key \<union> asked_for now until"
      using one(1) held_at_instants [of e s ?key] by auto
    have "total (held_at e s ?key @ [one]) = int (card (\<Union>x \<in> set (held_at e s ?key @ [one]). instants x))"
      using held_at_forward one(2) fits unfolding all [symmetric] by (intro total_counts) simp_all
    then show ?thesis unfolding all by (simp add: deferredWith_def Some)
  qed
qed

text \<open>
  C28: the time an occurrence has been put off is the number of nanoseconds at which some deferral
  ever recorded about it held it, each counted once, wherever a duration can hold that number, which is
  up to 292 years: however deferrals overlap, were taken back, lapsed or were made again, none is lost
  and none counts twice.
\<close>

theorem put_off_time_counts_every_instant_once:
  assumes "int (card (put_off e s (place_of e product issue at))) < 2 ^ 63"
  shows "DeferredSoFar e s product issue at = int (card (put_off e s (place_of e product issue at)))"
  unfolding DeferredSoFar_def by (rule deferredWith_counts(1)) (use assms in \<open>simp add: most_nanoseconds_def\<close>)

text \<open>
  C27: a decision stands on its own exactly where it hides nothing, promises work inside the
  deadline the work already has, or puts an occurrence off for less than the threshold counted
  together with every nanosecond it was ever put off before, wherever that count is under 292 years.
\<close>

theorem who_needs_a_second_person:
  assumes "outcome p = Deferred \<Longrightarrow> int (card
       (put_off e s (place_of e (ProductID (Where_at p)) (VulnerabilityID (Where_at p)) (OccurrenceIdentity (Where_at p)))
        \<union> asked_for (clock e) (deferred_until p))) < 2 ^ 63"
  shows "NeedsApproval e s p \<longleftrightarrow> HidesRisk (outcome p) \<and>
    (if Commits (outcome p) then (case (committed_to p, binding p) of (Some c, Some b) \<Rightarrow> b < c | _ \<Rightarrow> True)
     else if outcome p = Deferred then threshold e \<le> 0 \<or> threshold e \<le> int (card
       (put_off e s (place_of e (ProductID (Where_at p)) (VulnerabilityID (Where_at p)) (OccurrenceIdentity (Where_at p)))
        \<union> asked_for (clock e) (deferred_until p)))
     else True)"
proof (cases "outcome p = Deferred")
  case True
  then have "deferredWith e s (ProductID (Where_at p)) (VulnerabilityID (Where_at p)) (OccurrenceIdentity (Where_at p))
      (asked_span (clock e) (deferred_until p)) = int (card
       (put_off e s (place_of e (ProductID (Where_at p)) (VulnerabilityID (Where_at p)) (OccurrenceIdentity (Where_at p)))
        \<union> asked_for (clock e) (deferred_until p)))"
    using assms by (intro deferredWith_counts(2)) (simp add: most_nanoseconds_def)
  then show ?thesis unfolding NeedsApproval_def commitmentGated_def by (simp split: option.splits)
next
  case False
  then show ?thesis unfolding NeedsApproval_def commitmentGated_def by (simp split: option.splits)
qed

end
