(* ===== verification/Triage_Store.thy ===== *)
theory Triage_Store
  imports Triage_Deferral
begin

section \<open>Recording a decision\<close>

text \<open>
  The writes of \<^verbatim>\<open>internal/triage/occurrence.go\<close> and \<^verbatim>\<open>decision.go\<close> that record a decision, with
  who may argue and who may agree (\<^verbatim>\<open>narrowing.go\<close>) and the refusal beside a standing incident
  (\<^verbatim>\<open>incident.go\<close>). Each entry point runs in one transaction, so it is a function from the tables
  it reads to a refusal or to what it answers and the tables it leaves; a refusal leaves none, as a
  transaction that is rolled back does.
\<close>

subsection \<open>Who may act\<close>

definition mayDecide :: "Subject \<Rightarrow> int \<Rightarrow> Visibility \<Rightarrow> bool" where
  "mayDecide subject productID visibility \<longleftrightarrow> Triages subject visibility productID"

definition mayApprove :: "Subject \<Rightarrow> int \<Rightarrow> Visibility \<Rightarrow> bool" where
  "mayApprove subject productID visibility \<longleftrightarrow> kind subject = Person
    \<and> MayApprove visibility (Holds subject Approver productID) (Reads subject visibility productID)
        (mayDecide subject productID visibility)"

definition mayApproveOn :: "Subject \<Rightarrow> int \<Rightarrow> int \<Rightarrow> Visibility \<Rightarrow> bool" where
  "mayApproveOn subject productID vulnerabilityID visibility = mayApprove subject productID visibility"

definition mayDecideOn :: "Subject \<Rightarrow> int \<Rightarrow> int \<Rightarrow> Visibility \<Rightarrow> bool" where
  "mayDecideOn subject productID vulnerabilityID visibility \<longleftrightarrow> mayDecide subject productID visibility
    \<or> (CaseReaches visibility \<and> OnCaseToAct subject productID vulnerabilityID)"

definition readable_here :: "Subject \<Rightarrow> int \<Rightarrow> Visibility \<Rightarrow> bool" where
  "readable_here subject productID visibility \<longleftrightarrow> kind subject = Person \<and> Reads subject visibility productID"

definition on_row :: "(Subject \<Rightarrow> int \<Rightarrow> int \<Rightarrow> Visibility \<Rightarrow> bool) \<Rightarrow> Subject \<Rightarrow> DecisionOccurrence \<Rightarrow> bool" where
  "on_row rule subject r = rule subject (de_product r) (de_issue r) (de_visibility r)"

definition permitted_one :: "env \<Rightarrow> Subject \<Rightarrow> Proposal \<Rightarrow> failure option" where
  "permitted_one e subject p = first_refusal
    [refuse_if (\<not> mayDecideOn subject (ProductID (Where_at p)) (VulnerabilityID (Where_at p))
        (visibilityOf (Where_at p))) ErrNotTheirs,
     map_option Refused (Proposal_valid (policy e) (clock e) p),
     refuse_if (By p \<noteq> subject_id subject) MadeByAnother]"

definition permitted :: "env \<Rightarrow> Subject \<Rightarrow> Proposal list \<Rightarrow> failure option" where
  "permitted e subject proposals = first_refusal (map (permitted_one e subject) proposals)"

definition allowed :: "env \<Rightarrow> Subject \<Rightarrow> Proposal list \<Rightarrow> failure option" where
  "allowed e subject proposals = first_refusal
    [refuse_if (int (length proposals) > bulk_cap e) (OverTheCap (int (length proposals)) (bulk_cap e)),
     permitted e subject proposals]"

subsection \<open>A standing incident\<close>

text \<open>\<open>steps\<close> is the 64 the source follows a decision's history for.\<close>

fun overMany :: "nat \<Rightarrow> tables \<Rightarrow> Decision \<Rightarrow> failure + bool" where
  "overMany 0 s decision = Inr True"
| "overMany (Suc steps) s decision =
    (case cl_kind decision of
       BulkDecision \<Rightarrow> Inr True
     | ExtensionDecision \<Rightarrow> Inr False
     | _ \<Rightarrow> (case cl_derived_from decision of
         None \<Rightarrow> Inr False
       | Some from \<Rightarrow> (case decision_of from s of
           None \<Rightarrow> Inl ReadFailed | Some earlier \<Rightarrow> overMany steps s earlier)))"

definition refuseIncident :: "env \<Rightarrow> tables \<Rightarrow> Decision \<Rightarrow> (int \<times> int) list \<Rightarrow> failure option" where
  "refuseIncident e s decision at =
    (let contradicts = (cl_outcome decision = NotApplicable);
         bulk = (if \<not> contradicts \<and> settingAside (cl_outcome decision) then overMany 64 s decision else Inr False)
     in case bulk of Inl f \<Rightarrow> Some f
        | Inr bulk \<Rightarrow>
          if \<not> contradicts \<and> \<not> bulk then None
          else if list_ex (\<lambda>(product, issue). incident e product issue) at
          then Some (if contradicts then ErrContradictsIncident else ErrBulkOverIncident)
          else None)"

definition refuseIfIncident :: "env \<Rightarrow> tables \<Rightarrow> Decision \<Rightarrow> Proposal list \<Rightarrow> failure option" where
  "refuseIfIncident e s decision proposals = refuseIncident e s decision
    (map (\<lambda>p. (ProductID (Where_at p), VulnerabilityID (Where_at p))) proposals)"

definition refuseIfIncidentOn :: "env \<Rightarrow> tables \<Rightarrow> Decision \<Rightarrow> DecisionOccurrence list \<Rightarrow> failure option" where
  "refuseIfIncidentOn e s decision rows = refuseIncident e s decision
    (map (\<lambda>r. (de_product r, de_issue r)) rows)"

subsection \<open>The decision and its reasoning\<close>

definition truncated :: "env \<Rightarrow> int" where "truncated e = clock e div 1000 * 1000"

definition stated :: "string \<Rightarrow> string option" where
  "stated s = (if trim_space s = [] then None else Some (trim_space s))"

definition newDecisionNarrowed ::
  "env \<Rightarrow> DecisionKind \<Rightarrow> int \<Rightarrow> int option \<Rightarrow> string \<Rightarrow> Narrowing option \<Rightarrow> Proposal \<Rightarrow> tables \<Rightarrow> Decision \<times> tables" where
  "newDecisionNarrowed e k by derivedFrom selectedBy narrowed p s =
    (let i = fresh (decisions s); rv = fresh (revisions s);
         decision = \<lparr>cl_id = i, cl_kind = k, cl_proposed_by = by, cl_proposed_at = truncated e,
           cl_derived_from = derivedFrom,
           cl_selected_by = (if trim_space selectedBy \<noteq> [] then Some selectedBy else None),
           cl_narrowing = narrowed, cl_outcome = outcome p,
           cl_justification = (if NeedsJustification (outcome p) then Some (justification p) else None),
           cl_mitigation = stated (mitigation p),
           cl_scope = (if Proposal.scope p \<noteq> [] then Some (Proposal.scope p) else None),
           cl_deferred_until = deferred_until p,
           cl_fixed_version = (if outcome p = AlreadyFixed then Some (version_read (fixed_version p)) else None),
           cl_committed_to = committed_to p,
           cl_upgrade_to = (if outcome p = UpgradeNeeded then stated (upgrade_to p) else None),
           cl_revision = Some rv\<rparr>;
         revision = \<lparr>dr_id = rv, dr_decision = i, dr_ordinal = 1, dr_body = reasoning p,
           dr_written_by = by, dr_written_at = truncated e\<rparr>
     in (decision, s\<lparr>decisions := decisions s @ [decision], revisions := revisions s @ [revision]\<rparr>))"

definition newDecision ::
  "env \<Rightarrow> DecisionKind \<Rightarrow> int \<Rightarrow> int option \<Rightarrow> string \<Rightarrow> Proposal \<Rightarrow> tables \<Rightarrow> Decision \<times> tables" where
  "newDecision e k by derivedFrom selectedBy p s = newDecisionNarrowed e k by derivedFrom selectedBy None p s"

text \<open>What a decision says, as a proposal that says it again.\<close>

definition argument :: "Decision \<Rightarrow> Proposal \<Rightarrow> Proposal" where
  "argument c blank = blank\<lparr>outcome := cl_outcome c, justification := orEmpty (cl_justification c),
     mitigation := orEmpty (cl_mitigation c), Proposal.scope := scopeOf (cl_scope c),
     deferred_until := cl_deferred_until c, committed_to := cl_committed_to c,
     fixed_version := orEmpty (cl_fixed_version c), upgrade_to := orEmpty (cl_upgrade_to c)\<rparr>"

definition nowhere :: Occurrence where
  "nowhere = \<lparr>ProductID = 0, VulnerabilityID = 0, OccurrenceIdentity = [], Occ_Visibility = [], OnTag = False,
     Occ_Kind = [], ComponentUpstream = [], ConsumerUpstream = []\<rparr>"

definition blank :: Proposal where
  "blank = \<lparr>Where_at = nowhere, outcome = [], justification = [], mitigation = [], scope = [],
     deferred_until = None, fixed_version = [], committed_to = None, upgrade_to = [], binding = None,
     binding_across = [], reasoning = [], By = 0, severity_centi = 0, selected_by = [], needs_approval = False\<rparr>"

subsection \<open>The rows\<close>

definition row :: "env \<Rightarrow> Decision \<Rightarrow> int \<Rightarrow> Proposal \<Rightarrow> DecisionOccurrence" where
  "row e decision i p =
    \<lparr>de_id = i, de_decision = cl_id decision, de_product = ProductID (Where_at p),
     de_issue = VulnerabilityID (Where_at p), de_identity = OccurrenceIdentity (Where_at p),
     de_visibility = visibilityOf (Where_at p),
     de_component_version = text_read (ComponentUpstream (Where_at p)),
     de_consumer_version = text_read (ConsumerUpstream (Where_at p)),
     de_severity = (if severity_centi p > 0 then Some (severity_centi p) else None),
     de_needs_approval = needs_approval p, de_state = Proposed, de_sent_back_at = None,
     de_selected_by = (if selected_by p \<noteq> [] then Some (selected_by p) else None),
     de_proposed_by = By p, de_proposed_at = truncated e, de_ended_at = None,
     de_live_key = Some (liveKeyFor (digest e) (Where_at p) (StandsAtAnyVersion (cl_outcome decision)))\<rparr>"

text \<open>
  The products and the issues of the private rows are asked about together, and every row at a
  pair of them with no private finding left turns public.
\<close>

definition disclosedSince :: "env \<Rightarrow> DecisionOccurrence list \<Rightarrow> DecisionOccurrence list" where
  "disclosedSince e rows =
    (let asked = filter (\<lambda>r. de_visibility r = Private) rows;
         disclosed = (\<lambda>r. list_ex (\<lambda>a. de_product a = de_product r) asked
            \<and> list_ex (\<lambda>a. de_issue a = de_issue r) asked
            \<and> private_left e (de_product r) (de_issue r) = Some 0)
     in change disclosed (\<lambda>r. r\<lparr>de_visibility := Public\<rparr>) rows)"

definition refiled :: "env \<Rightarrow> Proposal \<Rightarrow> Proposal" where
  "refiled e p = p\<lparr>Where_at := (Where_at p)\<lparr>VulnerabilityID := issue_of e (VulnerabilityID (Where_at p))\<rparr>\<rparr>"

definition new_rows :: "env \<Rightarrow> Decision \<Rightarrow> Proposal list \<Rightarrow> int \<Rightarrow> DecisionOccurrence list" where
  "new_rows e decision proposals i = disclosedSince e
    (map (\<lambda>(n, p). row e decision (i + int n) p) (enumerate 0 proposals))"

definition write_rows :: "env \<Rightarrow> Decision \<Rightarrow> Proposal list \<Rightarrow> tables \<Rightarrow> failure + DecisionOccurrence list \<times> tables" where
  "write_rows e decision proposals s =
    (let proposals = map (refiled e) proposals
     in checked (refuseIfIncident e s decision proposals)
       (let rows = new_rows e decision proposals (fresh (occurrences s))
        in if unique_keys (occurrences s @ rows) then Inr (rows, s\<lparr>occurrences := occurrences s @ rows\<rparr>)
           else Inl ErrAlreadyDecided))"

definition proposeAll :: "env \<Rightarrow> Decision \<Rightarrow> Proposal list \<Rightarrow> tables \<Rightarrow> failure + DecisionOccurrence list \<times> tables" where
  "proposeAll e decision proposals s = write_rows e decision proposals s"

text \<open>One action: gated, one decision over the first proposal's argument, one row per occurrence.\<close>

definition propose_as ::
  "env \<Rightarrow> DecisionKind \<Rightarrow> int \<Rightarrow> int option \<Rightarrow> (Proposal \<Rightarrow> Proposal) \<Rightarrow> Proposal list \<Rightarrow> tables
    \<Rightarrow> failure + DecisionOccurrence list \<times> tables" where
  "propose_as e k by derivedFrom carried proposals s =
    (let gated = gate e s proposals;
         (decision, s') = newDecision e k by derivedFrom [] (carried (hd gated)) s
     in proposeAll e decision gated s')"

definition Propose :: "env \<Rightarrow> Subject \<Rightarrow> Proposal \<Rightarrow> tables \<Rightarrow> failure + DecisionOccurrence list \<times> tables" where
  "Propose e subject p s =
    checked (permitted_one e subject p) (propose_as e FindingDecision (By p) None (\<lambda>q. q) [p] s)"

definition ProposeMany ::
  "env \<Rightarrow> Subject \<Rightarrow> Proposal list \<Rightarrow> tables \<Rightarrow> failure + DecisionOccurrence list \<times> tables" where
  "ProposeMany e subject proposals s =
    (if proposals = [] then Inr ([], s)
     else checked (map_option Refused (oneArgument proposals))
       (checked (allowed e subject proposals)
         (propose_as e FindingDecision (subject_id subject) None (\<lambda>q. q) proposals s)))"

text \<open>\<open>others\<close> is what \<^verbatim>\<open>more\<close> names inside the transaction.\<close>

definition ProposeGrouped ::
  "env \<Rightarrow> Subject \<Rightarrow> Proposal \<Rightarrow> Occurrence list \<Rightarrow> tables \<Rightarrow> failure + DecisionOccurrence list \<times> tables" where
  "ProposeGrouped e subject p others s =
    (let proposals = p # map (\<lambda>at. p\<lparr>Where_at := at\<rparr>) others
     in checked (allowed e subject proposals)
       (propose_as e FindingDecision (subject_id subject) None (\<lambda>q. q) proposals s))"

subsection \<open>Carrying a decision to a new issue\<close>

fun extendable_rows :: "Subject \<Rightarrow> DecisionOccurrence list \<Rightarrow> failure option" where
  "extendable_rows subject [] = None"
| "extendable_rows subject (r # rows) =
    (if \<not> readable_here subject (de_product r) (de_visibility r) then Some ErrNotTheirs
     else if de_state r \<noteq> Approved then Some (ErrNotExtendable ''only an approved decision carries'')
     else extendable_rows subject rows)"

definition extends :: "Decision \<Rightarrow> DecisionOccurrence list \<Rightarrow> Proposal \<Rightarrow> failure option" where
  "extends source rows p = first_refusal
    [refuse_if (\<not> list_ex (\<lambda>r. de_product r = ProductID (Where_at p)) rows)
       (ErrNotExtendable ''it is about a different product''),
     refuse_if (\<not> list_ex (\<lambda>r. de_identity r = OccurrenceIdentity (Where_at p)) rows)
       (ErrNotExtendable ''it is about a different component or consumer''),
     refuse_if (list_ex (\<lambda>r. de_issue r = VulnerabilityID (Where_at p)) rows)
       (ErrNotExtendable ''it already covers this issue''),
     refuse_if (outcome p \<noteq> cl_outcome source \<or> justification p \<noteq> orEmpty (cl_justification source))
       (ErrNotExtendable ''an extension keeps the outcome and justification it carries''),
     refuse_if (Proposal.scope p \<noteq> [] \<and> Proposal.scope p \<noteq> scopeOf (cl_scope source))
       (ErrNotExtendable ''an extension keeps whom the decision it carries holds for'')]"

definition extendable :: "Subject \<Rightarrow> int \<Rightarrow> Proposal list \<Rightarrow> tables \<Rightarrow> failure + Decision" where
  "extendable subject from proposals s =
    (case decision_of from s of None \<Rightarrow> Inl ErrNotTheirs
     | Some source \<Rightarrow>
       let rows = rows_of from s
       in if rows = [] then Inl ErrNotTheirs
          else checked (extendable_rows subject rows)
            (checked (first_refusal (map (extends source rows) proposals)) (Inr source)))"

definition Extend ::
  "env \<Rightarrow> Subject \<Rightarrow> int \<Rightarrow> Proposal list \<Rightarrow> tables \<Rightarrow> failure + DecisionOccurrence list \<times> tables" where
  "Extend e subject from proposals s =
    (if proposals = [] then Inr ([], s)
     else checked (allowed e subject proposals)
       (and_then (extendable subject from proposals s)
         (\<lambda>source. propose_as e ExtensionDecision (subject_id subject) (Some (cl_id source))
            (\<lambda>p. p\<lparr>Proposal.scope := scopeOf (cl_scope source)\<rparr>) proposals s)))"

end
