(* ===== verification/Triage_Narrowing.thy ===== *)
theory Triage_Narrowing
  imports Triage_Store
begin

section \<open>Narrowing a list of decisions\<close>

text \<open>
  \<^verbatim>\<open>internal/triage/narrowing.go\<close>: the rules of reading, agreeing and arguing as one condition on
  a query. A condition is what the source splices into a statement; what a row makes of it is its
  meaning, which is compared with the rule asked of the row by itself.
\<close>

subsection \<open>The conditions\<close>

text \<open>
  \<open>Everywhere\<close> is the empty condition, \<open>Nowhere\<close> the one that never holds. The cases somebody was
  brought into are a product, its issues and the visibilities a case reaches.
\<close>

datatype narrowing_where = Everywhere | Nowhere | Within condition "(int \<times> int list \<times> Visibility list) list"

definition unnarrowedMay :: "Subject \<Rightarrow> (Subject \<Rightarrow> int \<Rightarrow> Visibility \<Rightarrow> bool) \<Rightarrow> bool" where
  "unnarrowedMay subject rule \<longleftrightarrow> list_all (\<lambda>v. rule subject 0 v) Visibilities"

definition readsAll :: "Subject \<Rightarrow> int \<Rightarrow> Visibility list \<Rightarrow> bool" where
  "readsAll subject productID vs \<longleftrightarrow> list_all (\<lambda>v. Reads subject v productID) vs"

definition brought :: "Subject \<Rightarrow> (int \<times> int list \<times> Visibility list) list" where
  "brought subject =
    (let reached = filter CaseReaches Visibilities
     in map (\<lambda>i. (i, Cases subject i, reached))
          (filter (\<lambda>i. \<not> readsAll subject i reached) (CaseProducts subject)))"

definition visibleCondition ::
  "Subject \<Rightarrow> (Subject \<Rightarrow> int \<Rightarrow> Visibility \<Rightarrow> bool) \<Rightarrow> bool \<Rightarrow> narrowing_where" where
  "visibleCondition subject rule widen =
    (if kind subject \<noteq> Person then Nowhere
     else case Products subject of (ids, all) \<Rightarrow>
       if all then (if unnarrowedMay subject rule then Everywhere else Nowhere)
       else Within (VisibleWhere (Split ids (\<lambda>v i. rule subject i v))) (if widen then brought subject else []))"

fun row_passes :: "narrowing_where \<Rightarrow> int \<Rightarrow> Visibility \<Rightarrow> int \<Rightarrow> bool" where
  "row_passes Everywhere p v i \<longleftrightarrow> True"
| "row_passes Nowhere p v i \<longleftrightarrow> False"
| "row_passes (Within c cases) p v i \<longleftrightarrow> condition_holds c p v
     \<or> list_ex (\<lambda>(q, issues, vs). p = q \<and> List.member issues i \<and> List.member vs v) cases"

definition negated :: "narrowing_where \<Rightarrow> int \<Rightarrow> Visibility \<Rightarrow> int \<Rightarrow> bool" where
  "negated w p v i \<longleftrightarrow> \<not> row_passes w p v i"

definition readableOn :: "Subject \<Rightarrow> int \<Rightarrow> int \<Rightarrow> Visibility \<Rightarrow> bool" where
  "readableOn subject productID vulnerabilityID visibility \<longleftrightarrow> readable_here subject productID visibility
    \<or> list_ex (\<lambda>may. may = visibility) (VisibleOn subject productID vulnerabilityID)"

definition approvableBy :: "Subject \<Rightarrow> DecisionOccurrence \<Rightarrow> bool" where
  "approvableBy subject r \<longleftrightarrow>
    row_passes (visibleCondition subject mayApprove False) (de_product r) (de_visibility r) (de_issue r)"

definition decidableBy :: "Subject \<Rightarrow> DecisionOccurrence \<Rightarrow> bool" where
  "decidableBy subject r \<longleftrightarrow>
    row_passes (visibleCondition subject mayDecide True) (de_product r) (de_visibility r) (de_issue r)"

subsection \<open>Code findings in a flaw's case\<close>

record FlawRecord =
  lh_product :: int
  lh_identity :: string
  lh_issue :: int
  lh_included :: bool
  lh_disclosed :: bool

definition private_readers :: "Subject \<Rightarrow> int list" where
  "private_readers subject = (case Products subject of (ids, all) \<Rightarrow>
     if all then [] else filter (\<lambda>i. Sees subject i \<and> Reads subject Private i
       \<and> \<not> Reads subject SecurityTesting i) ids)"

definition case_readers :: "Subject \<Rightarrow> (int \<times> int list) list" where
  "case_readers subject = map (\<lambda>i. (i, Cases subject i))
     (filter (\<lambda>i. \<not> Reads subject SecurityTesting i) (CaseProducts subject))"

definition in_audience :: "(int \<Rightarrow> int) \<Rightarrow> Subject \<Rightarrow> FlawRecord \<Rightarrow> bool" where
  "in_audience io subject f \<longleftrightarrow> List.member (private_readers subject) (lh_product f)
    \<or> list_ex (\<lambda>(i, issues). lh_product f = i
        \<and> list_ex (\<lambda>issue. io (lh_issue f) = io issue) issues) (case_readers subject)"

definition orIncluded ::
  "(int \<Rightarrow> int) \<Rightarrow> FlawRecord list \<Rightarrow> Subject \<Rightarrow> narrowing_where \<Rightarrow> int \<Rightarrow> Visibility \<Rightarrow> int \<Rightarrow> string \<Rightarrow> bool" where
  "orIncluded io flaws subject w p v i identity \<longleftrightarrow> row_passes w p v i
    \<or> (w \<noteq> Everywhere \<and> kind subject = Person \<and> v = SecurityTesting
       \<and> list_ex (\<lambda>f. lh_product f = p \<and> lh_identity f = identity \<and> lh_included f \<and> \<not> lh_disclosed f
            \<and> in_audience io subject f) flaws)"

definition readableBy :: "(int \<Rightarrow> int) \<Rightarrow> FlawRecord list \<Rightarrow> Subject \<Rightarrow> DecisionOccurrence \<Rightarrow> bool" where
  "readableBy io flaws subject r \<longleftrightarrow> orIncluded io flaws subject
     (visibleCondition subject readable_here True) (de_product r) (de_visibility r) (de_issue r) (de_identity r)"

definition partlyHidden :: "(int \<Rightarrow> int) \<Rightarrow> FlawRecord list \<Rightarrow> Subject \<Rightarrow> int list \<Rightarrow> tables \<Rightarrow> int list" where
  "partlyHidden io flaws subject ids s = remdups (map de_decision (filter (\<lambda>r.
     List.member ids (de_decision r) \<and> \<not> readableBy io flaws subject r) (occurrences s)))"

subsection \<open>A condition is the rule asked of each row\<close>

lemma passes_rule:
  assumes "built s" and "v \<in> set Visibilities" and "\<And>w p. rule s p w \<Longrightarrow> w \<in> set Visibilities \<Longrightarrow> Reads s w p"
    and "\<And>w p. rule s p w \<Longrightarrow> kind s = Person"
    and "unnarrowed s \<Longrightarrow> rule s p v \<longleftrightarrow> unnarrowedMay s rule"
  shows "row_passes (visibleCondition s rule widen) p v i \<longleftrightarrow> rule s p v
    \<or> widen \<and> kind s = Person \<and> \<not> unnarrowed s \<and> list_ex (\<lambda>(q, issues, vs). p = q \<and> List.member issues i \<and> List.member vs v) (brought s)"
proof (cases "kind s = Person \<and> \<not> unnarrowed s")
  case True
  then have here: "visibleCondition s rule widen = Within (VisibleWhere (Split (filter (ReadsIn s) (keys (grants s)))
      (\<lambda>v i. rule s i v))) (if widen then brought s else [])"
    by (simp add: visibleCondition_def Products_def)
  have "p \<in> set (filter (ReadsIn s) (keys (grants s)))" if "rule s p v"
  proof -
    have "ReadsIn s p" using assms(2,3) that by (auto simp: ReadsIn_def list_ex_iff)
    then show ?thesis using True ReadsIn_granted by simp
  qed
  then show ?thesis using True split_condition [OF assms(2)] unfolding here by auto
next
  case False
  then show ?thesis using assms(4,5) built_kinds(1) [OF assms(1)]
    by (cases "unnarrowed s") (auto simp: visibleCondition_def Products_def)
qed

lemma Visibilities_list: "set Visibilities = {Public, Private, SecurityTesting}"
  by (auto simp: Visibilities_def)

lemma brought_holds:
  "list_ex (\<lambda>(q, issues, vs). p = q \<and> List.member issues i \<and> List.member vs v) (brought s)
    \<longleftrightarrow> List.member (Cases s p) i \<and> v \<in> set Visibilities \<and> CaseReaches v
      \<and> \<not> readsAll s p (filter CaseReaches Visibilities)"
  by (auto simp: brought_def Let_def list_ex_iff CaseProducts_def Cases_def dest: at_key_nonempty)

lemma CaseReaches_in: "CaseReaches v \<longleftrightarrow> v = Public \<or> v = Private"
  by (auto simp: CaseReaches_def caseVisibilities_def)

lemma unnarrowed_holds_nothing: "built s \<Longrightarrow> unnarrowed s \<Longrightarrow> grants s = []"
  by (induction s rule: built.induct)
    (auto simp: token_subject_def constructor_defs map_values_def keys_def only_key_def split: option.splits)

lemma rules_read:
  "readable_here s p w \<Longrightarrow> Reads s w p" "mayDecide s p w \<Longrightarrow> Reads s w p" "mayApprove s p w \<Longrightarrow> Reads s w p"
  "readable_here s p w \<Longrightarrow> kind s = Person" "mayDecide s p w \<Longrightarrow> kind s = Person" "mayApprove s p w \<Longrightarrow> kind s = Person"
  by (auto simp: readable_here_def mayDecide_def mayApprove_def MayApprove_def Triages_Reads Triages_def split: if_splits)

lemma rules_unnarrowed:
  assumes "built s" and "unnarrowed s"
  shows "readable_here s p v" "\<not> mayDecide s p v" "\<not> mayApprove s p v"
  using unnarrowed_holds_nothing [OF assms] built_kinds(1) [OF assms(1)] assms(2)
  by (auto simp: readable_here_def mayDecide_def mayApprove_def MayApprove_def Triages_def Reads_def Holds_at_key)


definition brought_reader :: Subject where
  "brought_reader = OnCases [(7, [5])] (NewPerson 1 ''ann'' False [(7, [PublicRead, PrivateRead])] 3 [])"


text \<open>
  Somebody who reads the product's disclosed and undisclosed work and was brought into one of its
  issues may argue about that issue, asked of the row by itself, and a list narrowed to what they
  may argue about leaves it out. A credential whose case grant only reads is shown it there and
  refused it by the rule.
\<close>

lemma a_case_is_dropped_from_what_may_be_argued:
  "mayDecideOn brought_reader 7 5 Private \<and> \<not> row_passes (visibleCondition brought_reader mayDecide True) 7 Private 5"
  by code_simp

definition reading_credential :: Subject where
  "reading_credential = token_subject None (Some PublicRead) (OnCases [(8, [5])] (NewPerson 1 ''ann'' False [] 3 []))"

lemma a_reading_case_is_listed_to_argue_about:
  "row_passes (visibleCondition reading_credential mayDecide True) 8 Private 5 \<and> \<not> mayDecideOn reading_credential 8 5 Private"
  by code_simp

text \<open>
  The rule asked of one row reads what an anonymous reader may read at all, where a list shows an
  anonymous reader no decision.
\<close>

lemma an_anonymous_reader_passes_the_rule_of_one_row:
  "readableOn (Published [7]) 7 5 Public \<and> \<not> row_passes (visibleCondition (Published [7]) readable_here True) 7 Public 5"
  by code_simp

end
