(* ===== verification/Triage_Review.thy ===== *)
theory Triage_Review
  imports Triage_Narrowing
begin

section \<open>Agreeing, sending back, revising and taking back\<close>

text \<open>
  The rest of \<^verbatim>\<open>internal/triage/decision.go\<close> and \<^verbatim>\<open>approval.go\<close>: what a second person and an author
  do to a decision that is recorded. Each is one transaction; the stamp a writer matches on is read
  with the rows and changed from the value read, so within one transaction the change finds the
  value it read.
\<close>

subsection \<open>A decision and its rows\<close>

text \<open>
  \<^verbatim>\<open>Restamp\<close>: the update matches the stamp read, or nothing. A decision nobody has stamped reads as
  zero, and its first stamp is a row inserted, refused as a duplicate by another writer's first.
\<close>

definition Restamp :: "int \<Rightarrow> int \<Rightarrow> tables \<Rightarrow> failure + tables" where
  "Restamp i read s = (if stamps s i = read then Inr (s\<lparr>stamps := (stamps s)(i := read + 1)\<rparr>) else Inl ErrGoAgain)"

definition decisionRows ::
  "(Subject \<Rightarrow> int \<Rightarrow> int \<Rightarrow> Visibility \<Rightarrow> bool) \<Rightarrow> Subject \<Rightarrow> int \<Rightarrow> tables
    \<Rightarrow> failure + Decision \<times> DecisionOccurrence list" where
  "decisionRows rule subject i s =
    (case decision_of i s of None \<Rightarrow> Inl ErrNotTheirs
     | Some decision \<Rightarrow>
       let rows = rows_of i s
       in if rows = [] then Inl ErrNotTheirs
          else if list_ex (\<lambda>r. \<not> on_row rule subject r) rows then Inl ErrNotTheirs
          else Inr (decision, rows))"

definition writableRows ::
  "env \<Rightarrow> (Subject \<Rightarrow> int \<Rightarrow> int \<Rightarrow> Visibility \<Rightarrow> bool) \<Rightarrow> Subject \<Rightarrow> int \<Rightarrow> tables
    \<Rightarrow> failure + Decision \<times> DecisionOccurrence list \<times> tables" where
  "writableRows e rule subject i s =
    and_then (decisionRows rule subject i s) (\<lambda>(decision, rows).
      let read = stamps s i
      in checked (refuse_if (list_ex (flawed e) rows) ErrCodeFindingRecordedAsFlaw)
        (and_then (Restamp i read s) (\<lambda>s'. Inr (decision, rows, s'))))"

definition revision_of :: "Decision \<Rightarrow> tables \<Rightarrow> failure + Revision" where
  "revision_of decision s = (case cl_revision decision of None \<Rightarrow> Inl ErrNothingToApprove
     | Some i \<Rightarrow> (case find (\<lambda>r. dr_id r = i) (revisions s) of None \<Rightarrow> Inl ReadFailed | Some r \<Rightarrow> Inr r))"

definition authorOf :: "Decision \<Rightarrow> tables \<Rightarrow> failure + int" where
  "authorOf decision s = and_then (revision_of decision s) (\<lambda>r. Inr (dr_written_by r))"

definition reasoningOn :: "Decision \<Rightarrow> tables \<Rightarrow> failure + string" where
  "reasoningOn decision s = and_then (revision_of decision s) (\<lambda>r. Inr (dr_body r))"

definition sayOn :: "env \<Rightarrow> Subject \<Rightarrow> int \<Rightarrow> string \<Rightarrow> tables \<Rightarrow> failure + tables" where
  "sayOn e subject i body s =
    checked (refuse_if (trim_space body = []) SaysNothing)
      (checked (map_option (Refused \<circ> AgainstPolicy) (policy e body))
        (Inr (s\<lparr>comments := comments s @ [\<lparr>cm_decision = i, cm_body = body,
           cm_written_by = subject_id subject, cm_written_at = truncated e\<rparr>]\<rparr>)))"

subsection \<open>Agreeing\<close>

definition secondPerson :: "int \<Rightarrow> int \<Rightarrow> tables \<Rightarrow> failure option" where
  "secondPerson i approver s = refuse_if
    (list_ex (\<lambda>r. dr_decision r = i \<and> dr_written_by r = approver) (revisions s)
     \<or> list_ex (\<lambda>r. de_decision r = i \<and> de_proposed_by r = approver) (occurrences s)) ErrSamePerson"

definition approveWhileRevised :: "Decision \<Rightarrow> int \<Rightarrow> int list \<Rightarrow> tables \<Rightarrow> failure + tables" where
  "approveWhileRevised decision rv ids s =
    (let rests = list_ex (\<lambda>c. cl_id c = cl_id decision \<and> cl_revision c = Some rv) (decisions s);
         hit = (\<lambda>r. List.member ids (de_id r) \<and> de_state r = Proposed \<and> rests)
     in if matched hit (occurrences s) \<noteq> length ids then Inl ReasoningChanged
        else Inr (s\<lparr>occurrences := change hit (\<lambda>r. r\<lparr>de_state := Approved\<rparr>) (occurrences s)\<rparr>))"

definition agree :: "env \<Rightarrow> Subject \<Rightarrow> Decision \<Rightarrow> int \<Rightarrow> int list \<Rightarrow> string \<Rightarrow> tables \<Rightarrow> failure + tables" where
  "agree e subject decision rv ids batch s =
    checked (secondPerson (cl_id decision) (subject_id subject) s)
      (let approval = \<lparr>da_id = fresh (approvals s), da_decision = cl_id decision, da_revision = rv,
             da_approved_by = subject_id subject, da_approved_at = truncated e, da_withdrawn_at = None,
             da_withdrawn_by = None, da_batch = (if trim_space batch \<noteq> [] then Some batch else None),
             da_covered = Some (covers e ids), da_carried_from = None\<rparr>
       in approveWhileRevised decision rv ids (s\<lparr>approvals := approvals s @ [approval]\<rparr>))"

definition intoReturned ::
  "env \<Rightarrow> Subject \<Rightarrow> Decision \<Rightarrow> int list \<Rightarrow> string \<Rightarrow> tables \<Rightarrow> failure + Decision \<times> tables" where
  "intoReturned e subject decision ids because s =
    and_then (reasoningOn decision s) (\<lambda>said.
      let (returned, s1) = newDecision e ReturnedDecision (cl_proposed_by decision) (Some (cl_id decision))
            (orEmpty (cl_selected_by decision)) ((argument decision blank)\<lparr>reasoning := said\<rparr>) s;
          hit = (\<lambda>r. List.member ids (de_id r) \<and> de_decision r = cl_id decision \<and> de_state r = Proposed)
      in checked (refuse_if (matched hit (occurrences s1) \<noteq> length ids) ErrGoAgain)
        (and_then (sayOn e subject (cl_id returned) because
             (s1\<lparr>occurrences := change hit
                (\<lambda>r. r\<lparr>de_decision := cl_id returned, de_sent_back_at := Some (truncated e)\<rparr>) (occurrences s1)\<rparr>))
          (\<lambda>s2. Inr (returned, s2))))"

text \<open>The loop of \<^verbatim>\<open>approveDecision\<close>: the rows to approve and the rows to return.\<close>

fun sort_rows :: "bool \<Rightarrow> int list \<Rightarrow> DecisionOccurrence list
    \<Rightarrow> failure + DecisionOccurrence list \<times> DecisionOccurrence list" where
  "sort_rows samePerson aside [] = Inr ([], [])"
| "sort_rows samePerson aside (r # rows) =
    (if de_state r \<noteq> Proposed then sort_rows samePerson aside rows
     else if List.member aside (de_id r) then
       (if samePerson then Inl ErrSamePerson
        else and_then (sort_rows samePerson aside rows) (\<lambda>(approving, returning). Inr (approving, r # returning)))
     else if de_sent_back_at r \<noteq> None then sort_rows samePerson aside rows
     else if samePerson then Inl ErrSamePerson
     else and_then (sort_rows samePerson aside rows) (\<lambda>(approving, returning). Inr (r # approving, returning)))"

record DecisionApproved =
  approved_rows :: int
  Returned :: "Decision option"
  ReturnedIn :: int
  ReturnedSecurityTesting :: bool

definition approveDecision ::
  "env \<Rightarrow> Subject \<Rightarrow> int \<Rightarrow> string \<Rightarrow> int list \<Rightarrow> string \<Rightarrow> tables \<Rightarrow> failure + DecisionApproved \<times> tables" where
  "approveDecision e subject i batch aside because s =
    and_then (writableRows e mayApproveOn subject i s) (\<lambda>(decision, rows, s).
      checked (map_option (\<lambda>stray. NotPartOf stray i) (find (\<lambda>a. \<not> List.member (map de_id rows) a) aside))
      (case cl_revision decision of None \<Rightarrow> Inl ErrNothingToApprove
       | Some rv \<Rightarrow>
         checked (refuseIfIncidentOn e s decision (filter (\<lambda>r. \<not> List.member aside (de_id r)) rows))
         (and_then (authorOf decision s) (\<lambda>author.
           let samePerson = (author = subject_id subject \<or> cl_proposed_by decision = subject_id subject)
           in and_then (sort_rows samePerson aside rows) (\<lambda>(approving, returning).
             checked (refuse_if (approving = [] \<and> returning = []) ErrNothingToApprove)
             (and_then (if approving = [] then Inr s else agree e subject decision rv (map de_id approving) batch s)
               (\<lambda>s. if returning = [] then
                      Inr (\<lparr>approved_rows = int (length approving), Returned = None, ReturnedIn = 0,
                         ReturnedSecurityTesting = False\<rparr>, s)
                    else and_then (intoReturned e subject decision (map de_id returning) because s)
                      (\<lambda>(returned, s). Inr (\<lparr>approved_rows = int (length approving), Returned = Some returned,
                         ReturnedIn = de_product (last returning),
                         ReturnedSecurityTesting = list_ex (\<lambda>r. de_visibility r = SecurityTesting) returning\<rparr>, s)))))))))"

definition ApproveDecision ::
  "env \<Rightarrow> Subject \<Rightarrow> int \<Rightarrow> string \<Rightarrow> int list \<Rightarrow> string \<Rightarrow> tables \<Rightarrow> failure + DecisionApproved \<times> tables" where
  "ApproveDecision e subject i batch aside because s =
    checked (if aside = [] then None else first_refusal
        [refuse_if (trim_space because = []) SayWhy, map_option (Refused \<circ> AgainstPolicy) (policy e because)])
      (approveDecision e subject i batch aside because s)"

subsection \<open>Holding part back, and sending back\<close>

definition Split_decision ::
  "env \<Rightarrow> Subject \<Rightarrow> int \<Rightarrow> int list \<Rightarrow> string \<Rightarrow> tables \<Rightarrow> failure + Decision \<times> tables" where
  "Split_decision e subject i rows because s =
    checked (first_refusal [refuse_if (rows = []) SaysNothing, refuse_if (trim_space because = []) SayWhy,
        map_option (Refused \<circ> AgainstPolicy) (policy e because)])
    (and_then (writableRows e mayDecideOn subject i s) (\<lambda>(decision, all, s).
      let held = rev (remdups (rev rows));
          waiting = matched (\<lambda>r. de_state r = Proposed) all
      in checked (first_refusal
          [refuse_if (list_ex (\<lambda>r. \<not> on_row mayDecideOn subject r) all) ErrNotTheirs,
           refuse_if (cl_proposed_by decision \<noteq> subject_id subject) NotTheOneWhoMadeIt,
           map_option (\<lambda>stray. NotPartOf stray i) (find (\<lambda>h. \<not> List.member (map de_id all) h) rows),
           refuse_if (length held \<ge> waiting) TheWholeDecision,
           map_option (\<lambda>r. NotStillArgued (de_id r) (de_state r))
             (find (\<lambda>r. List.member held (de_id r) \<and> de_state r \<noteq> Proposed) all)])
        (intoReturned e subject decision held because s)))"

record SentBack =
  Author :: int
  Sent :: int
  Representative :: DecisionOccurrence
  Undisclosed :: bool
  SentSecurityTesting :: bool

definition SendBackDecision ::
  "env \<Rightarrow> Subject \<Rightarrow> int \<Rightarrow> string \<Rightarrow> tables \<Rightarrow> failure + SentBack \<times> tables" where
  "SendBackDecision e subject i because s =
    checked (first_refusal [refuse_if (trim_space because = []) SayWhy,
        map_option (Refused \<circ> AgainstPolicy) (policy e because)])
    (and_then (writableRows e mayApproveOn subject i s) (\<lambda>(decision, rows, s).
      and_then (authorOf decision s) (\<lambda>author.
        checked (refuse_if (author = subject_id subject) YourOwnToRevise)
        (let sent = filter (\<lambda>r. de_state r = Proposed \<and> de_sent_back_at r = None) rows;
             hit = (\<lambda>r. List.member (map de_id sent) (de_id r) \<and> de_state r = Proposed)
         in checked (refuse_if (sent = []) NothingWaiting)
          (and_then (sayOn e subject i because s) (\<lambda>s.
            checked (refuse_if (matched hit (occurrences s) \<noteq> length sent) ChangedWhileSentBack)
            (Inr (\<lparr>Author = author, Sent = int (length sent), Representative = hd sent,
                 Undisclosed = list_ex (\<lambda>r. de_visibility r \<noteq> Public) sent,
                 SentSecurityTesting = list_ex (\<lambda>r. de_visibility r = SecurityTesting) sent\<rparr>,
               s\<lparr>occurrences := change hit (\<lambda>r. r\<lparr>de_sent_back_at := Some (truncated e)\<rparr>) (occurrences s)\<rparr>))))))))"

end
