(* ===== verification/Triage_Undo.thy ===== *)
theory Triage_Undo
  imports Triage_Review
begin

section \<open>Taking back, lapsing and making again\<close>

text \<open>
  \<^verbatim>\<open>internal/triage/approval.go\<close> (revising, withdrawing, undoing a bulk approval), \<^verbatim>\<open>lapse.go\<close>,
  \<^verbatim>\<open>reaffirm.go\<close> and the rule \<^verbatim>\<open>ratedWorse\<close> of \<^verbatim>\<open>ratedworse.go\<close>. What a build has open, and which rows
  it still covers, is read from the findings and is a parameter of the sweep.
\<close>

subsection \<open>Who hears of it\<close>

record ForPerson =
  PersonID :: int
  DecisionOccurrenceID :: int
  TheirProduct :: int
  TheirIssue :: int
  TheirRows :: int
  TheirUndisclosed :: bool
  TheirSecurityTesting :: bool
  TheirProbable :: bool
  TheirRatedWorse :: bool

definition told_of :: "int \<Rightarrow> DecisionOccurrence \<Rightarrow> ForPerson" where
  "told_of person r = \<lparr>PersonID = person, DecisionOccurrenceID = de_id r, TheirProduct = de_product r,
     TheirIssue = de_issue r, TheirRows = 0, TheirUndisclosed = False, TheirSecurityTesting = False,
     TheirProbable = False, TheirRatedWorse = False\<rparr>"

definition tell :: "DecisionOccurrence \<Rightarrow> ForPerson list \<Rightarrow> ForPerson list" where
  "tell r told =
    (let told = (if list_ex (\<lambda>t. PersonID t = de_proposed_by r) told then told
           else told @ [told_of (de_proposed_by r) r])
     in change (\<lambda>t. PersonID t = de_proposed_by r)
          (\<lambda>t. t\<lparr>TheirRows := TheirRows t + 1,
             TheirUndisclosed := TheirUndisclosed t \<or> de_visibility r \<noteq> Public,
             TheirSecurityTesting := TheirSecurityTesting t \<or> de_visibility r = SecurityTesting\<rparr>) told)"

definition proposersOf :: "int list \<Rightarrow> tables \<Rightarrow> ForPerson list" where
  "proposersOf ids s = fold tell (filter (\<lambda>r. List.member ids (de_id r)) (occurrences s)) []"

definition agreementsWithdrawn ::
  "Subject \<Rightarrow> int \<Rightarrow> int \<Rightarrow> DecisionOccurrence list \<Rightarrow> tables \<Rightarrow> ForPerson list" where
  "agreementsWithdrawn subject i at rows s =
    (case rows of [] \<Rightarrow> []
     | r # _ \<Rightarrow>
       map (\<lambda>person. (told_of person r)\<lparr>TheirRows := int (length rows),
            TheirUndisclosed := list_ex (\<lambda>r. de_visibility r \<noteq> Public) rows,
            TheirSecurityTesting := list_ex (\<lambda>r. de_visibility r = SecurityTesting) rows\<rparr>)
         (sort (remdups (map da_approved_by (filter (\<lambda>a. da_decision a = i \<and> da_withdrawn_at a = Some at
            \<and> da_withdrawn_by a = Some (subject_id subject) \<and> da_approved_by a \<noteq> subject_id subject) (approvals s))))))"

subsection \<open>Revising\<close>

definition withdraw_approvals :: "(Approval \<Rightarrow> bool) \<Rightarrow> Subject \<Rightarrow> int \<Rightarrow> tables \<Rightarrow> tables" where
  "withdraw_approvals which subject now s = s\<lparr>approvals := change
     (\<lambda>a. which a \<and> da_withdrawn_at a = None)
     (\<lambda>a. a\<lparr>da_withdrawn_at := Some now, da_withdrawn_by := Some (subject_id subject)\<rparr>) (approvals s)\<rparr>"

definition occurrence_of_row :: "env \<Rightarrow> DecisionOccurrence \<Rightarrow> Occurrence" where
  "occurrence_of_row e r = nowhere\<lparr>ProductID := de_product r, VulnerabilityID := issue_of e (de_issue r),
     OccurrenceIdentity := de_identity r, ComponentUpstream := orEmpty (de_component_version r),
     ConsumerUpstream := orEmpty (de_consumer_version r)\<rparr>"

text \<open>One statement per row, each held to the unique index as it runs.\<close>

fun retake :: "env \<Rightarrow> bool \<Rightarrow> DecisionOccurrence list \<Rightarrow> tables \<Rightarrow> failure + tables" where
  "retake e anyVersion [] s = Inr s"
| "retake e anyVersion (r # rows) s =
    (let rows' = change (\<lambda>x. de_id x = de_id r)
           (\<lambda>x. x\<lparr>de_state := Proposed, de_sent_back_at := None, de_ended_at := None,
              de_live_key := Some (liveKeyFor (digest e) (occurrence_of_row e r) anyVersion)\<rparr>) (occurrences s)
     in if unique_keys rows' then retake e anyVersion rows (s\<lparr>occurrences := rows'\<rparr>) else Inl ErrAlreadyDecided)"

definition latest_ordinal :: "int \<Rightarrow> tables \<Rightarrow> int" where
  "latest_ordinal i s = foldr max (map dr_ordinal (filter (\<lambda>r. dr_decision r = i) (revisions s))) 0"

definition Revise :: "env \<Rightarrow> Subject \<Rightarrow> int \<Rightarrow> string \<Rightarrow> tables \<Rightarrow> failure + (Revision \<times> ForPerson list) \<times> tables" where
  "Revise e subject i said s =
    checked (first_refusal [refuse_if (trim_space said = []) SaysNothing,
        map_option (Refused \<circ> AgainstPolicy) (policy e said)])
    (and_then (writableRows e mayDecideOn subject i s) (\<lambda>(decision, rows, s).
      checked (first_refusal [refuse_if (list_ex (\<lambda>r. \<not> on_row mayDecideOn subject r) rows) ErrNotTheirs,
          refuse_if (latest_ordinal i s = 0) ErrNotTheirs])
      (let now = truncated e;
           revision = \<lparr>dr_id = fresh (revisions s), dr_decision = i, dr_ordinal = latest_ordinal i s + 1,
             dr_body = said, dr_written_by = subject_id subject, dr_written_at = now\<rparr>;
           s1 = withdraw_approvals (\<lambda>a. da_decision a = i) subject now (s\<lparr>revisions := revisions s @ [revision]\<rparr>);
           withdrawn = agreementsWithdrawn subject i now rows s1;
           s2 = s1\<lparr>decisions := change (\<lambda>c. cl_id c = i) (\<lambda>c. c\<lparr>cl_revision := Some (dr_id revision)\<rparr>) (decisions s1)\<rparr>
       in and_then (retake e (StandsAtAnyVersion (cl_outcome decision)) rows s2)
            (\<lambda>s3. Inr ((revision, withdrawn), s3)))))"

subsection \<open>Withdrawing\<close>

definition Withdraw :: "env \<Rightarrow> Subject \<Rightarrow> int \<Rightarrow> tables \<Rightarrow> failure + (int \<times> string) list \<times> tables" where
  "Withdraw e subject i s =
    and_then (writableRows e mayDecideOn subject i s) (\<lambda>(decision, rows, s).
      checked (refuse_if (list_ex (\<lambda>r. \<not> on_row mayDecideOn subject r) rows) ErrNotTheirs)
      (let now = truncated e;
           reopened = (if cl_outcome decision = Dismissed \<or> cl_outcome decision = NotSecurity
             then remdups (map (\<lambda>r. (de_product r, de_identity r))
               (filter (\<lambda>r. de_decision r = i \<and> de_state r = Approved \<and> is_rule e (de_issue r)) (occurrences s)))
             else []);
           s1 = withdraw_approvals (\<lambda>a. da_decision a = i) subject now s
       in Inr (reopened, s1\<lparr>occurrences := change (\<lambda>r. de_decision r = i \<and> Live (de_state r))
            (\<lambda>r. r\<lparr>de_state := Withdrawn, de_ended_at := Some now, de_live_key := None\<rparr>) (occurrences s1)\<rparr>)))"

subsection \<open>Undoing a bulk approval\<close>

definition gave :: "Subject \<Rightarrow> string \<Rightarrow> Approval \<Rightarrow> bool" where
  "gave subject batch a \<longleftrightarrow> da_batch a = Some batch \<and> da_withdrawn_at a = None \<and> da_approved_by a = subject_id subject"

definition covered_by :: "Subject \<Rightarrow> string \<Rightarrow> tables \<Rightarrow> DecisionOccurrence list" where
  "covered_by subject batch s = filter (\<lambda>r. approvableBy subject r
     \<and> list_ex (\<lambda>a. gave subject batch a \<and> da_decision a = de_decision r) (approvals s)) (occurrences s)"

text \<open>The decisions every row of which is among the rows reached.\<close>

definition wholeDecisions :: "DecisionOccurrence list \<Rightarrow> tables \<Rightarrow> int list" where
  "wholeDecisions reached s = remdups (map de_decision (filter (\<lambda>r.
       list_ex (\<lambda>x. de_decision x = de_decision r) reached
       \<and> list_all (\<lambda>x. List.member (map de_id reached) (de_id x)) (rows_of (de_decision r) s)) (occurrences s)))"

definition returnToWaiting :: "int list \<Rightarrow> tables \<Rightarrow> int \<times> tables" where
  "returnToWaiting ds s =
    (let hit = (\<lambda>r. List.member ds (de_decision r) \<and> de_state r = Approved
           \<and> \<not> list_ex (\<lambda>a. da_decision a = de_decision r \<and> da_withdrawn_at a = None) (approvals s))
     in (int (matched hit (occurrences s)),
         s\<lparr>occurrences := change hit (\<lambda>r. r\<lparr>de_state := Proposed, de_sent_back_at := None\<rparr>) (occurrences s)\<rparr>))"

fun restampAll :: "(int \<times> int) list \<Rightarrow> tables \<Rightarrow> failure + tables" where
  "restampAll [] s = Inr s"
| "restampAll ((i, read) # more') s = and_then (Restamp i read s) (restampAll more')"

definition UndoBatch :: "env \<Rightarrow> Subject \<Rightarrow> string \<Rightarrow> tables \<Rightarrow> failure + (int \<times> ForPerson list) \<times> tables" where
  "UndoBatch e subject batch s =
    (let reached = covered_by subject batch s;
         whole = filter (\<lambda>d. \<not> list_ex (flawed e) (rows_of d s)) (wholeDecisions reached s);
         told = proposersOf (map de_id (filter (\<lambda>r. List.member whole (de_decision r)) reached)) s;
         s1 = withdraw_approvals (\<lambda>a. gave subject batch a \<and> List.member whole (da_decision a)) subject (truncated e) s;
         (rows, s2) = returnToWaiting whole s1
     in if whole = [] then Inr ((0, []), s)
        else and_then (restampAll (map (\<lambda>d. (d, stamps s d)) (sort whole)) s2) (\<lambda>s3. Inr ((rows, told), s3)))"

subsection \<open>Lapsing\<close>

definition markLapsed :: "int list \<Rightarrow> int \<Rightarrow> tables \<Rightarrow> tables" where
  "markLapsed ids moment s = s\<lparr>occurrences := change (\<lambda>r. List.member ids (de_id r) \<and> Live (de_state r))
     (\<lambda>r. r\<lparr>de_state := LapsedState, de_ended_at := Some moment, de_live_key := None\<rparr>) (occurrences s)\<rparr>"

text \<open>
  What a sweep of a build asks of a row: its product, whether the build has it open at other
  versions, and whether any build of the product still holds its versions.
\<close>

record sweep =
  swept_product :: int
  open_moved :: "DecisionOccurrence \<Rightarrow> bool"
  stillCovered :: "DecisionOccurrence \<Rightarrow> bool"
  sweep_most :: nat

definition lapsable_row :: "sweep \<Rightarrow> tables \<Rightarrow> DecisionOccurrence \<Rightarrow> bool" where
  "lapsable_row w s r \<longleftrightarrow> Live (de_state r)
    \<and> \<not> list_ex (\<lambda>c. cl_id c = de_decision r \<and> cl_outcome c = Mismatched) (decisions s)
    \<and> de_product r = swept_product w \<and> open_moved w r \<and> \<not> stillCovered w r"

definition lapsable :: "sweep \<Rightarrow> tables \<Rightarrow> int list" where
  "lapsable w s = take (sweep_most w) (map de_id (filter (lapsable_row w s) (occurrences s)))"

definition standing :: "tables \<Rightarrow> nat" where "standing s = matched (\<lambda>r. Live (de_state r)) (occurrences s)"

lemma filter_change_less:
  assumes "r \<in> set rows" and "p r" and "q r" and "\<And>x. \<not> q (f x)"
  shows "length (filter q (change p f rows)) < length (filter q rows)"
  using assms(1)
proof (induction rows)
  case (Cons x rows)
  have "length (filter q (change p f rows)) \<le> length (filter q rows)" for rows
    using assms(4) by (induction rows) (auto simp: change_def)
  then show ?case using Cons assms(2-4) by (auto simp: change_def le_imp_less_Suc less_Suc_eq_le)
qed simp

lemma markLapsed_less:
  assumes "lapsable w s \<noteq> []"
  shows "standing (markLapsed (lapsable w s) moment s) < standing s"
proof -
  obtain i where i: "i \<in> set (lapsable w s)" using assms by (cases "lapsable w s") auto
  then obtain r where "r \<in> set (occurrences s)" "lapsable_row w s r" "de_id r = i"
    by (auto simp: lapsable_def dest!: in_set_takeD)
  then show ?thesis using i unfolding standing_def matched_def markLapsed_def
    by (auto simp: lapsable_row_def Live_def intro!: filter_change_less [of r])
qed

text \<open>
  One pass per transaction, until a pass marks nothing or reads less than a batch. The moment is
  read again by each pass; here every pass of one sweep reads the same.
\<close>

function lapse_loop :: "sweep \<Rightarrow> int \<Rightarrow> int list \<Rightarrow> tables \<Rightarrow> int list \<times> tables" where
  "lapse_loop w moment lapsed s =
    (let ids = lapsable w s
     in if ids = [] then (lapsed, s)
        else if length ids = sweep_most w then lapse_loop w moment (lapsed @ ids) (markLapsed ids moment s)
        else (lapsed @ ids, markLapsed ids moment s))"
  by pat_completeness auto
termination
  by (relation "measure (\<lambda>(w, moment, lapsed, s). standing s)") (simp_all add: markLapsed_less)

declare lapse_loop.simps [simp del]

definition Lapse :: "env \<Rightarrow> sweep \<Rightarrow> tables \<Rightarrow> (int \<times> ForPerson list) \<times> tables" where
  "Lapse e w s = (case lapse_loop w (truncated e) [] s of
     (lapsed, s') \<Rightarrow> ((int (length lapsed), proposersOf lapsed s'), s'))"

text \<open>The occurrences are asked about a batch at a time, each batch against what the ones before it left.\<close>

fun lapse_batches :: "(string list \<Rightarrow> tables \<Rightarrow> int list) \<Rightarrow> int \<Rightarrow> string list list \<Rightarrow> int list \<times> tables \<Rightarrow> int list \<times> tables" where
  "lapse_batches which moment [] (lapsed, s) = (lapsed, s)"
| "lapse_batches which moment (batch # batches) (lapsed, s) =
    lapse_batches which moment batches (lapsed @ which batch s, markLapsed (which batch s) moment s)"

definition dismissed_at :: "int \<Rightarrow> string list \<Rightarrow> tables \<Rightarrow> int list" where
  "dismissed_at product batch s = map de_id (filter (\<lambda>r. de_product r = product \<and> List.member batch (de_identity r)
     \<and> Live (de_state r)
     \<and> list_ex (\<lambda>c. cl_id c = de_decision r \<and> (cl_outcome c = Dismissed \<or> cl_outcome c = NotSecurity)) (decisions s))
     (occurrences s))"

definition LapseCodeFindings :: "env \<Rightarrow> int \<Rightarrow> string list \<Rightarrow> tables \<Rightarrow> (int \<times> ForPerson list) \<times> tables" where
  "LapseCodeFindings e product named s =
    (case lapse_batches (dismissed_at product) (truncated e) (batches_of BatchSize named) ([], s) of
       (lapsed, s') \<Rightarrow> ((int (length lapsed), map (\<lambda>t. t\<lparr>TheirProbable := True\<rparr>) (proposersOf lapsed s')), s'))"

subsection \<open>Re-affirming\<close>

text \<open>
  The band a score in hundredths falls in, by the midpoint that stands for it
  (\<^verbatim>\<open>finding.SeverityWord\<close> and \<^verbatim>\<open>finding.SeverityScore\<close>).
\<close>

definition band :: "int \<Rightarrow> int" where
  "band centi = (if centi \<le> 0 then 550 else if centi \<ge> 900 then 950 else if centi \<ge> 700 then 800
     else if centi \<ge> 400 then 550 else 300)"

definition ratedWorse :: "int option \<Rightarrow> int \<Rightarrow> bool" where
  "ratedWorse baseline now = (band now > (case baseline of
     Some b \<Rightarrow> if b > 0 then band b else 550 | None \<Rightarrow> 550))"

definition turnsOnSeverity :: "Decision \<Rightarrow> bool" where
  "turnsOnSeverity d =
    (if \<not> HidesRisk (cl_outcome d) \<or> cl_outcome d = Mismatched then False
     else if AboutALead (cl_outcome d) then False
     else if cl_outcome d = AlreadyFixed then False
     else if cl_outcome d = NotApplicable then
       (case cl_justification d of None \<Rightarrow> True | Some j \<Rightarrow> \<not> IndifferentToSeverity j)
     else True)"

definition needsFullApproval :: "DecisionOccurrence \<Rightarrow> Decision \<Rightarrow> int \<Rightarrow> bool \<Rightarrow> bool" where
  "needsFullApproval previous d severityNow agreed =
    (if \<not> agreed then True else turnsOnSeverity d \<and> ratedWorse (de_severity previous) severityNow)"

definition approvalToCarry :: "int \<Rightarrow> int \<Rightarrow> tables \<Rightarrow> Approval option" where
  "approvalToCarry i notBy s = find (\<lambda>a. da_decision a = i \<and> da_withdrawn_at a = None \<and> da_approved_by a \<noteq> notBy)
     (rev (approvals s))"

definition stillLatest :: "env \<Rightarrow> tables \<Rightarrow> DecisionOccurrence \<Rightarrow> bool" where
  "stillLatest e s r \<longleftrightarrow> \<not> list_ex (\<lambda>newer. de_product newer = de_product r
     \<and> issue_of e (de_issue newer) = issue_of e (de_issue r) \<and> de_identity newer = de_identity r
     \<and> de_decision newer \<noteq> de_decision r
     \<and> (case de_ended_at r of Some ended \<Rightarrow> de_proposed_at newer \<ge> ended | None \<Rightarrow> False)) (occurrences s)"

definition yoursToReaffirm :: "env \<Rightarrow> Subject \<Rightarrow> tables \<Rightarrow> DecisionOccurrence \<Rightarrow> bool" where
  "yoursToReaffirm e subject s r \<longleftrightarrow>
     list_ex (\<lambda>c. cl_id c = de_decision r \<and> cl_proposed_by c = subject_id subject) (decisions s)
     \<and> de_state r = LapsedState \<and> stillLatest e s r
     \<and> \<not> list_ex (\<lambda>w. de_state w = Withdrawn) (rows_of (de_decision r) s)
     \<and> \<not> list_ex (\<lambda>n. de_state n = LapsedState \<and> \<not> decidableBy subject n) (rows_of (de_decision r) s)
     \<and> decidableBy subject r \<and> in_support e r"

definition remade :: "Decision \<Rightarrow> Occurrence \<Rightarrow> string \<Rightarrow> int \<Rightarrow> int \<Rightarrow> bool \<Rightarrow> Proposal" where
  "remade previous at said by severity full = (argument previous blank)\<lparr>Where_at := at, reasoning := said,
     By := by, severity_centi := severity, needs_approval := full\<rparr>"

definition carryApproval :: "env \<Rightarrow> DecisionOccurrence list \<Rightarrow> Decision \<Rightarrow> DecisionOccurrence \<Rightarrow> tables \<Rightarrow> failure + tables" where
  "carryApproval e made decision previous s =
    (case made of [] \<Rightarrow> Inr s
     | one # _ \<Rightarrow> (case approvalToCarry (de_decision previous) (de_proposed_by one) s of None \<Rightarrow> Inr s
       | Some earlier \<Rightarrow> (case cl_revision decision of None \<Rightarrow> Inl ErrNothingToApprove
         | Some rv \<Rightarrow>
           checked (secondPerson (de_decision previous) (da_approved_by earlier) s)
             (let carried = \<lparr>da_id = fresh (approvals s), da_decision = cl_id decision, da_revision = rv,
                    da_approved_by = da_approved_by earlier, da_approved_at = truncated e, da_withdrawn_at = None,
                    da_withdrawn_by = None, da_batch = None, da_covered = None, da_carried_from = Some (da_id earlier)\<rparr>
              in approveWhileRevised decision rv (map de_id made) (s\<lparr>approvals := approvals s @ [carried]\<rparr>)))))"

record Reaffirmation =
  PreviousID :: int
  Remade_at :: Occurrence
  Remade_reasoning :: string
  Remade_by :: int

definition same_place :: "env \<Rightarrow> DecisionOccurrence \<Rightarrow> Occurrence \<Rightarrow> bool" where
  "same_place e r at \<longleftrightarrow> de_product r = ProductID at \<and> issue_of e (de_issue r) = issue_of e (VulnerabilityID at)
     \<and> de_identity r = OccurrenceIdentity at"

definition reaffirm ::
  "env \<Rightarrow> Subject \<Rightarrow> Reaffirmation \<Rightarrow> tables \<Rightarrow> failure + DecisionOccurrence list \<times> tables" where
  "reaffirm e subject r s =
    (case find (\<lambda>x. de_id x = PreviousID r) (occurrences s) of None \<Rightarrow> Inl ErrNotTheirs
     | Some previous \<Rightarrow> (case decision_of (de_decision previous) s of None \<Rightarrow> Inl ReadFailed
       | Some d \<Rightarrow>
         let at = (Remade_at r)\<lparr>Occ_Visibility := de_visibility previous\<rparr>;
             carryable = approvalToCarry (de_decision previous) (subject_id subject) s;
             severityNow = severity_of e (de_product previous) (de_issue previous);
             full = needsFullApproval previous d severityNow (carryable \<noteq> None);
             p = remade d at (Remade_reasoning r) (Remade_by r) severityNow full
         in checked (first_refusal
              [refuse_if (\<not> on_row mayDecideOn subject previous) ErrNotTheirs,
               refuse_if (\<not> same_place e previous (Remade_at r)) AnotherOccurrence,
               refuse_if (de_proposed_by previous \<noteq> subject_id subject) NotTheOneWhoMadeIt,
               refuse_if (\<not> yoursToReaffirm e subject s previous) NotReaffirmable,
               refuse_if (\<not> mayDecideOn subject (ProductID at) (VulnerabilityID at) (visibilityOf at)) ErrNotTheirs,
               map_option Refused (Proposal_valid (policy e) (clock e) p)])
            (let (decision, s1) = newDecision e FindingDecision (Remade_by r) None [] p s
             in and_then (proposeAll e decision [p] s1) (\<lambda>(made, s2).
                  if full then Inr (made, s2)
                  else and_then (carryApproval e made decision previous s2) (\<lambda>s3.
                    Inr (map (\<lambda>one. if list_ex (\<lambda>x. de_id x = de_id one \<and> de_state x = Approved) (occurrences s3)
                       then one\<lparr>de_state := Approved\<rparr> else one) made, s3))))))"

definition Reaffirm ::
  "env \<Rightarrow> Subject \<Rightarrow> Reaffirmation \<Rightarrow> tables \<Rightarrow> failure + DecisionOccurrence list \<times> tables" where
  "Reaffirm e subject r s =
    checked (first_refusal
      [refuse_if (\<not> mayDecideOn subject (ProductID (Remade_at r)) (VulnerabilityID (Remade_at r))
          (visibilityOf (Remade_at r))) ErrNotTheirs,
       refuse_if (Remade_by r \<noteq> subject_id subject) MadeByAnother])
      (reaffirm e subject r s)"

end
