(* ===== verification/Triage_Bulk.thy ===== *)
theory Triage_Bulk
  imports Triage_Undo
begin

section \<open>Acts over many issues\<close>

text \<open>
  \<^verbatim>\<open>internal/triage/bulk.go\<close>, \<^verbatim>\<open>reaffirm_many.go\<close>, \<^verbatim>\<open>ratedworse.go\<close> and \<^verbatim>\<open>carry.go\<close>: one decision
  over many issues of a component, several lapsed decisions made again, the sweep for decisions a
  severity has risen past, and decisions carried onto a new line. What the findings hold open,
  narrowed to what the subject may argue about, is an argument of each act, as the query in its
  transaction reads it.
\<close>

subsection \<open>Bounds\<close>

definition DefaultReviewIssues :: int where "DefaultReviewIssues = 200"
definition DefaultAgreedIssues :: int where "DefaultAgreedIssues = 2000"
definition DefaultWriteCeiling :: int where "DefaultWriteCeiling = 50000"

definition DefaultBounds :: Bounds where
  "DefaultBounds = \<lparr>BoundReview = DefaultReviewIssues, BoundAgreed = DefaultAgreedIssues,
     BoundOccurrences = DefaultWriteCeiling\<rparr>"

definition orDefaults :: "Bounds \<Rightarrow> Bounds" where
  "orDefaults b =
    \<lparr>BoundReview = (if BoundReview b \<le> 0 then BoundReview DefaultBounds else BoundReview b),
     BoundAgreed = (if BoundAgreed b \<le> 0 then BoundAgreed DefaultBounds else BoundAgreed b),
     BoundOccurrences = (if BoundOccurrences b \<le> 0 then BoundOccurrences DefaultBounds else BoundOccurrences b)\<rparr>"

definition bounds_within :: "env \<Rightarrow> Bounds \<Rightarrow> Bounds" where
  "bounds_within e b =
    \<lparr>BoundReview = (if BoundReview b > 0 then BoundReview b else BoundReview (limits_set e)),
     BoundAgreed = (if BoundAgreed b > 0 then BoundAgreed b else BoundAgreed (limits_set e)),
     BoundOccurrences = (if BoundOccurrences b > 0 then BoundOccurrences b else BoundOccurrences (limits_set e))\<rparr>"

definition counted :: "Bounds \<Rightarrow> int \<Rightarrow> int \<Rightarrow> bool \<Rightarrow> failure option" where
  "counted b issues many review =
    (let b = orDefaults b
     in first_refusal
       [refuse_if (many > BoundOccurrences b) (TooManyFindings many (BoundOccurrences b)),
        refuse_if (review \<and> issues > BoundReview b) (TooManyToReview issues (BoundReview b)),
        refuse_if (\<not> review \<and> issues > BoundAgreed b) (TooManyToConfirm issues (BoundAgreed b))])"

definition distinct_many :: "'a list \<Rightarrow> int" where "distinct_many xs = int (length (remdups xs))"

definition bounds_check :: "Bounds \<Rightarrow> Proposal list \<Rightarrow> failure option" where
  "bounds_check b proposals = counted b
    (distinct_many (map (\<lambda>p. (ProductID (Where_at p), VulnerabilityID (Where_at p))) proposals))
    (int (length proposals)) (list_ex needs_approval proposals)"

subsection \<open>One decision over many issues\<close>

record resolved =
  resolved_at :: Occurrence
  resolved_severity :: int

record BulkDecisionAt =
  BuildID :: int
  ComponentID :: int
  VulnerabilityIDs :: "int list"
  SkipDecided :: bool

record Skipped =
  skipped_issue :: int
  skipped_identity :: string
  skipped_row :: int
  skipped_state :: State

text \<open>The earliest live row holding either key the occurrence could be held under.\<close>

definition stands_at :: "env \<Rightarrow> tables \<Rightarrow> Occurrence \<Rightarrow> DecisionOccurrence option" where
  "stands_at e s at = find (\<lambda>r. case de_live_key r of None \<Rightarrow> False
     | Some k \<Rightarrow> List.member (liveKeysFor (digest e) at) k) (occurrences s)"

fun leavingDecided :: "env \<Rightarrow> tables \<Rightarrow> resolved list \<Rightarrow> resolved list \<times> Skipped list" where
  "leavingDecided e s [] = ([], [])"
| "leavingDecided e s (at # found) =
    (case leavingDecided e s found of (left, skipped) \<Rightarrow>
      (case stands_at e s (resolved_at at) of
         None \<Rightarrow> (at # left, skipped)
       | Some r \<Rightarrow> (left, \<lparr>skipped_issue = VulnerabilityID (resolved_at at),
            skipped_identity = OccurrenceIdentity (resolved_at at), skipped_row = de_id r,
            skipped_state = de_state r\<rparr> # skipped)))"

definition issuesIn :: "resolved list \<Rightarrow> int" where
  "issuesIn found = distinct_many (map (\<lambda>at. (ProductID (resolved_at at), VulnerabilityID (resolved_at at))) found)"

definition bulk_proposal :: "Proposal \<Rightarrow> resolved \<Rightarrow> Proposal" where
  "bulk_proposal p at = p\<lparr>Where_at := resolved_at at, severity_centi := resolved_severity at\<rparr>"

definition bulk_refusal :: "env \<Rightarrow> Subject \<Rightarrow> Proposal \<Rightarrow> resolved \<Rightarrow> failure option" where
  "bulk_refusal e subject p at = first_refusal
    [refuse_if (\<not> mayDecide subject (ProductID (resolved_at at)) (visibilityOf (resolved_at at))) ErrNotTheirs,
     map_option Refused (Proposal_valid (policy e) (clock e) (bulk_proposal p at))]"

text \<open>\<open>found\<close> is what \<^verbatim>\<open>occurrencesWithin\<close> reads and \<open>narrowing\<close> what \<^verbatim>\<open>finding.NarrowedWithin\<close> does.\<close>

definition BulkDecision_act ::
  "env \<Rightarrow> Subject \<Rightarrow> BulkDecisionAt \<Rightarrow> resolved list \<Rightarrow> Narrowing \<Rightarrow> Proposal \<Rightarrow> Bounds \<Rightarrow> tables
    \<Rightarrow> failure + (int \<times> int list \<times> Skipped list) \<times> tables" where
  "BulkDecision_act e subject at found narrowed p bounds s =
    checked (first_refusal [refuse_if (VulnerabilityIDs at = []) NothingSelected,
        refuse_if (By p \<noteq> subject_id subject) MadeByAnother, refuse_if (found = []) ErrNothingOpen])
    (case (if SkipDecided at then leavingDecided e s found else (found, [])) of (left, skipped) \<Rightarrow>
      checked (first_refusal [refuse_if (left = []) ErrAllDecided,
          counted (bounds_within e bounds) (issuesIn left) (int (length left)) True])
      (case newDecisionNarrowed e BulkDecision (subject_id subject) None (selected_by p) (Some narrowed) p s of
         (decision, s1) \<Rightarrow>
           checked (first_refusal (map (bulk_refusal e subject p) left))
           (and_then (proposeAll e decision (map (bulk_proposal p) left) s1)
             (\<lambda>(made, s2). Inr ((cl_id decision, map de_id made, skipped), s2)))))"

subsection \<open>Several lapsed decisions made again\<close>

definition atVersions :: "DecisionOccurrence \<Rightarrow> Occurrence list \<Rightarrow> Occurrence list" where
  "atVersions r opened = (case find (\<lambda>at. ComponentUpstream at = orEmpty (de_component_version r)
       \<and> ConsumerUpstream at = orEmpty (de_consumer_version r)) opened of
     Some at \<Rightarrow> [at] | None \<Rightarrow> opened)"

text \<open>
  What the findings answer a re-affirmation: where a lapsed row's occurrence is open now, under the
  product, issue and identity of the row, and whether a code finding is past its end of life.
\<close>

record lines =
  where_now :: "int \<times> int \<times> string \<Rightarrow> Occurrence list"
  past_end :: "Occurrence \<Rightarrow> bool"
  named_issue :: "int \<Rightarrow> string"

definition lapsed_rows :: "env \<Rightarrow> tables \<Rightarrow> int \<Rightarrow> DecisionOccurrence list" where
  "lapsed_rows e s i = filter (\<lambda>r. de_state r = LapsedState \<and> stillLatest e s r) (rows_of i s)"

definition lapsedOfYours :: "env \<Rightarrow> Subject \<Rightarrow> tables \<Rightarrow> DecisionOccurrence \<Rightarrow> bool" where
  "lapsedOfYours e subject s r \<longleftrightarrow>
     list_ex (\<lambda>c. cl_id c = de_decision r \<and> cl_proposed_by c = subject_id subject) (decisions s)
     \<and> de_state r = LapsedState \<and> stillLatest e s r
     \<and> \<not> list_ex (\<lambda>w. de_state w = Withdrawn) (rows_of (de_decision r) s)
     \<and> \<not> list_ex (\<lambda>n. de_state n = LapsedState \<and> \<not> decidableBy subject n) (rows_of (de_decision r) s)
     \<and> decidableBy subject r"

type_synonym written = "(int \<times> int \<times> string) \<times> string \<times> string"

text \<open>
  The loop over one row's places: skip what is written already, and a code finding past its end.
  \<open>done'\<close> is what earlier rows and places have written, \<open>past\<close> whether one was kept as it stands.
\<close>

fun remake_at ::
  "lines \<Rightarrow> (Occurrence \<Rightarrow> Proposal) \<Rightarrow> int \<times> int \<times> string \<Rightarrow> Occurrence list \<Rightarrow> written list \<times> bool \<times> Proposal list
    \<Rightarrow> written list \<times> bool \<times> Proposal list" where
  "remake_at l again key [] acc = acc"
| "remake_at l again key (at # places) (done', past, ps) =
    (let w = (key, ComponentUpstream at, ConsumerUpstream at)
     in if List.member done' w then remake_at l again key places (done', past, ps)
        else if Occ_Kind at = Analysis \<and> past_end l at then remake_at l again key places (w # done', True, ps)
        else remake_at l again key places (w # done', past, ps @ [again at]))"

fun remake_rows ::
  "lines \<Rightarrow> (DecisionOccurrence \<Rightarrow> Occurrence \<Rightarrow> Proposal) \<Rightarrow> DecisionOccurrence list \<Rightarrow> written list \<times> bool \<times> Proposal list
    \<Rightarrow> written list \<times> bool \<times> Proposal list" where
  "remake_rows l again [] acc = acc"
| "remake_rows l again (r # rows) acc =
    (let key = (de_product r, de_issue r, de_identity r)
     in remake_rows l again rows (remake_at l (again r) key (atVersions r (where_now l key)) acc))"

record reaffirmPlan =
  plan_previous :: Decision
  plan_lapsed :: "DecisionOccurrence list"
  plan_proposals :: "Proposal list"
  plan_full :: bool

definition planReaffirm ::
  "env \<Rightarrow> lines \<Rightarrow> Subject \<Rightarrow> int \<Rightarrow> string \<Rightarrow> int \<Rightarrow> tables \<Rightarrow> failure + reaffirmPlan" where
  "planReaffirm e l subject i said by' s =
    (case decision_of i s of None \<Rightarrow> Inl ErrNotTheirs
     | Some previous \<Rightarrow>
       let lapsed = lapsed_rows e s i;
           carryable = approvalToCarry i (subject_id subject) s;
           severity = (\<lambda>r. severity_of e (de_product r) (de_issue r));
           full = list_ex (\<lambda>r. needsFullApproval r previous (severity r) (carryable \<noteq> None)) lapsed;
           again = (\<lambda>r at. remade previous (at\<lparr>Occ_Visibility := de_visibility r\<rparr>) said by' (severity r) full)
       in checked (first_refusal
            [refuse_if (list_ex (\<lambda>r. \<not> on_row mayDecideOn subject r) lapsed) ErrNotTheirs,
             refuse_if (lapsed = []) ErrNotTheirs,
             refuse_if (cl_proposed_by previous \<noteq> subject_id subject) NotTheOneWhoMadeIt,
             refuse_if (\<not> list_ex (lapsedOfYours e subject s) (rows_of i s)) NotReaffirmable,
             refuse_if (list_ex (\<lambda>r. Visible subject (de_product r) = []) lapsed) ErrNotTheirs])
          (case remake_rows l again lapsed ([], False, []) of (_, past, ps) \<Rightarrow>
             checked (first_refusal [refuse_if (ps = [] \<and> past) ErrCodeFindingPastEndOfLife,
                 refuse_if (ps = []) ErrNothingOpen])
               (Inr \<lparr>plan_previous = previous, plan_lapsed = lapsed, plan_proposals = ps, plan_full = full\<rparr>)))"

record Reaffirmed =
  PreviousDecisionID :: int
  ReaffirmedID :: int
  ReaffirmedRows :: "int list"
  Waiting :: bool

definition writeReaffirm :: "env \<Rightarrow> reaffirmPlan \<Rightarrow> tables \<Rightarrow> failure + Reaffirmed \<times> tables" where
  "writeReaffirm e plan s =
    (let one = hd (plan_proposals plan);
         (decision, s1) = newDecision e FindingDecision (By one) (Some (cl_id (plan_previous plan))) [] one s
     in and_then (proposeAll e decision (plan_proposals plan) s1) (\<lambda>(made, s2).
          let out = \<lparr>PreviousDecisionID = cl_id (plan_previous plan), ReaffirmedID = cl_id decision,
                ReaffirmedRows = map de_id made, Waiting = plan_full plan\<rparr>
          in if plan_full plan then Inr (out, s2)
             else and_then (carryApproval e made decision (hd (plan_lapsed plan)) s2) (\<lambda>s3. Inr (out, s3))))"

definition unbounded :: "reaffirmPlan \<Rightarrow> bool" where
  "unbounded plan \<longleftrightarrow> cl_outcome (plan_previous plan) = UpgradeNeeded"

record ReaffirmingDecision =
  again_decision :: int
  again_said :: string
  again_by :: int
  again_bounds :: Bounds

definition ReaffirmDecision ::
  "env \<Rightarrow> lines \<Rightarrow> Subject \<Rightarrow> ReaffirmingDecision \<Rightarrow> tables \<Rightarrow> failure + Reaffirmed \<times> tables" where
  "ReaffirmDecision e l subject r s =
    checked (refuse_if (again_by r \<noteq> subject_id subject) MadeByAnother)
    (and_then (planReaffirm e l subject (again_decision r) (again_said r) (again_by r) s) (\<lambda>plan.
      checked (permitted e subject (plan_proposals plan))
      (checked (if unbounded plan then None else bounds_check (bounds_within e (again_bounds r)) (plan_proposals plan))
        (writeReaffirm e plan s))))"

text \<open>The refusal names the issues whose decision somebody else made.\<close>

definition refuseOthersDecisions :: "env \<Rightarrow> lines \<Rightarrow> Subject \<Rightarrow> int list \<Rightarrow> tables \<Rightarrow> failure option" where
  "refuseOthersDecisions e l subject ids s =
    (let rows = concat (map (lapsed_rows e s) ids);
         theirs = (\<lambda>r. case decision_of (de_decision r) s of None \<Rightarrow> False
             | Some c \<Rightarrow> cl_proposed_by c \<noteq> subject_id subject);
         others = remdups (map (\<lambda>r. named_issue l (issue_of e (de_issue r))) (filter theirs rows))
     in first_refusal
       [refuse_if (list_ex (\<lambda>r. \<not> mayDecideOn subject (de_product r) (issue_of e (de_issue r)) (de_visibility r)) rows)
          ErrNotTheirs,
        refuse_if (others \<noteq> []) (OthersDecisions others)])"

fun plan_all ::
  "env \<Rightarrow> lines \<Rightarrow> Subject \<Rightarrow> string \<Rightarrow> int \<Rightarrow> int list \<Rightarrow> tables \<Rightarrow> failure + reaffirmPlan list" where
  "plan_all e l subject said by' [] s = Inr []"
| "plan_all e l subject said by' (i # ids) s =
    and_then (planReaffirm e l subject i said by' s) (\<lambda>plan.
      checked (permitted e subject (plan_proposals plan))
        (and_then (plan_all e l subject said by' ids s) (\<lambda>plans. Inr (plan # plans))))"

fun write_all :: "env \<Rightarrow> reaffirmPlan list \<Rightarrow> tables \<Rightarrow> failure + Reaffirmed list \<times> tables" where
  "write_all e [] s = Inr ([], s)"
| "write_all e (plan # plans) s =
    and_then (writeReaffirm e plan s) (\<lambda>(made, s1).
      and_then (write_all e plans s1) (\<lambda>(out, s2). Inr (made # out, s2)))"

record ReaffirmingMany =
  many_decisions :: "int list"
  many_said :: string
  many_by :: int
  many_bounds :: Bounds

definition ReaffirmMany ::
  "env \<Rightarrow> lines \<Rightarrow> Subject \<Rightarrow> ReaffirmingMany \<Rightarrow> tables \<Rightarrow> failure + Reaffirmed list \<times> tables" where
  "ReaffirmMany e l subject r s =
    (let ids = sort (remdups (many_decisions r))
     in checked (first_refusal [refuse_if (many_by r \<noteq> subject_id subject) MadeByAnother,
          refuse_if (many_decisions r = []) NothingSelected, refuseOthersDecisions e l subject ids s])
        (and_then (plan_all e l subject (many_said r) (many_by r) ids s) (\<lambda>plans.
          checked (bounds_check (bounds_within e (many_bounds r))
              (concat (map plan_proposals (filter (\<lambda>plan. \<not> unbounded plan) plans))))
            (write_all e plans s))))"

subsection \<open>Decisions a severity has risen past\<close>

record RatedWorseWhere =
  rw_product :: int
  rw_issues :: "int list"
  rw_open_in :: int

text \<open>Whether an open finding still matches a row, and which issues a build has open.\<close>

record covering =
  covers_now :: "DecisionOccurrence \<Rightarrow> bool"
  open_in :: "int \<Rightarrow> int \<Rightarrow> bool"

definition rw_candidate :: "env \<Rightarrow> covering \<Rightarrow> RatedWorseWhere \<Rightarrow> DecisionOccurrence \<Rightarrow> bool" where
  "rw_candidate e c w r \<longleftrightarrow> Live (de_state r) \<and> de_live_key r \<noteq> None \<and> covers_now c r
    \<and> (rw_product w > 0 \<longrightarrow> de_product r = rw_product w)
    \<and> (rw_issues w \<noteq> [] \<longrightarrow> List.member (map (issue_of e) (rw_issues w)) (issue_of e (de_issue r)))
    \<and> (rw_open_in w > 0 \<longrightarrow> open_in c (rw_open_in w) (issue_of e (de_issue r)))"

text \<open>The rows are read a group at a time: one decision, product, issue and baseline.\<close>

definition rw_group :: "DecisionOccurrence \<Rightarrow> int \<times> int \<times> int \<times> int option" where
  "rw_group r = (de_decision r, de_product r, de_issue r, de_severity r)"

definition group_outgrown :: "env \<Rightarrow> tables \<Rightarrow> int \<times> int \<times> int \<times> int option \<Rightarrow> bool" where
  "group_outgrown e s g = (case g of (i, product, issue, baseline) \<Rightarrow>
     (case decision_of i s of None \<Rightarrow> False
      | Some d \<Rightarrow> turnsOnSeverity d \<and> ratedWorse baseline (severity_of e product issue)))"

definition outgrown :: "env \<Rightarrow> covering \<Rightarrow> RatedWorseWhere \<Rightarrow> tables \<Rightarrow> int list" where
  "outgrown e c w s =
    (let rows = filter (rw_candidate e c w) (occurrences s);
         groups = filter (group_outgrown e s) (remdups (map rw_group rows))
     in concat (map (\<lambda>g. map de_id (filter (\<lambda>r. rw_group r = g \<and> Live (de_state r) \<and> de_live_key r \<noteq> None
          \<and> covers_now c r) (occurrences s))) groups))"

fun mark_chunks :: "int \<Rightarrow> int list list \<Rightarrow> tables \<Rightarrow> failure + tables" where
  "mark_chunks moment [] s = Inr s"
| "mark_chunks moment (ids # chunks) s =
    (if matched (\<lambda>r. List.member ids (de_id r) \<and> Live (de_state r)) (occurrences s) \<noteq> length ids then Inl ErrGoAgain
     else mark_chunks moment chunks (markLapsed ids moment s))"

definition LapseRatedWorse ::
  "env \<Rightarrow> covering \<Rightarrow> RatedWorseWhere \<Rightarrow> tables \<Rightarrow> failure + (int \<times> ForPerson list) \<times> tables" where
  "LapseRatedWorse e c w s =
    (let ids = outgrown e c w s
     in and_then (mark_chunks (truncated e) (batches_of 500 ids) s)
          (\<lambda>t. Inr ((int (length ids), map (\<lambda>p. p\<lparr>TheirRatedWorse := True\<rparr>) (proposersOf ids t)), t)))"

subsection \<open>Decisions carried onto a new line\<close>

record Landing =
  lands_component :: string
  lands_now :: string
  lands_consumer :: string
  lands_visibility :: Visibility
  lands_on_tag :: bool

text \<open>What the two builds hold at a row's occurrence: the old line anything, the new line what, if anything.\<close>

record carrying =
  line_product :: int
  was_here :: "DecisionOccurrence \<Rightarrow> bool"
  landing :: "DecisionOccurrence \<Rightarrow> Landing option"
  issue_named :: "int \<Rightarrow> string"

record Inherited =
  in_row :: int
  in_vulnerability :: string
  in_component :: string
  in_outcome :: Outcome
  in_was :: string
  in_now :: string
  in_reasoning :: string
  in_deferred_days :: int

record Carried =
  Applying :: int
  Moved :: "Inherited list"
  Postponed :: "Inherited list"
  Expired :: int
  Upgrades :: int
  Absent :: int

definition said_now :: "tables \<Rightarrow> Decision \<Rightarrow> string" where
  "said_now s d = (case cl_revision d of None \<Rightarrow> []
     | Some i \<Rightarrow> (case find (\<lambda>v. dr_id v = i) (revisions s) of None \<Rightarrow> [] | Some v \<Rightarrow> dr_body v))"

definition ran_out :: "int \<Rightarrow> Decision \<Rightarrow> bool" where
  "ran_out now d = (case cl_deferred_until d of Some t \<Rightarrow> t \<le> now
     | None \<Rightarrow> (case cl_committed_to d of Some t \<Rightarrow> t \<le> now | None \<Rightarrow> False))"

text \<open>Whole days, cut towards zero as a conversion to an integer is.\<close>

definition days :: "int \<Rightarrow> int" where
  "days duration = sgn duration * (\<bar>duration\<bar> div (24 * 60 * 60 * 1000000000))"

definition inherited :: "env \<Rightarrow> carrying \<Rightarrow> tables \<Rightarrow> DecisionOccurrence \<Rightarrow> Decision \<Rightarrow> Landing \<Rightarrow> Inherited" where
  "inherited e l s r d at =
    \<lparr>in_row = de_id r, in_vulnerability = issue_named l (issue_of e (de_issue r)), in_component = lands_component at,
     in_outcome = cl_outcome d, in_was = orEmpty (de_component_version r), in_now = lands_now at,
     in_reasoning = said_now s d,
     in_deferred_days = (if cl_outcome d = Deferred
        then days (DeferredSoFar e s (line_product l) (de_issue r) (de_identity r)) else 0)\<rparr>"

definition sort_into :: "env \<Rightarrow> Subject \<Rightarrow> carrying \<Rightarrow> tables \<Rightarrow> DecisionOccurrence \<Rightarrow> Carried \<Rightarrow> Carried" where
  "sort_into e subject l s r c =
    (case (decision_of (de_decision r) s, landing l r) of
       (Some d, None) \<Rightarrow> c\<lparr>Absent := Absent c + 1\<rparr>
     | (Some d, Some at) \<Rightarrow>
         if \<not> mayDecideOn subject (line_product l) (issue_of e (de_issue r)) (AsVisibility (lands_visibility at)) then c
         else if StandsAtAnyVersion (cl_outcome d) \<or> (orEmpty (de_component_version r) = lands_now at
               \<and> orEmpty (de_consumer_version r) = lands_consumer at) then c\<lparr>Applying := Applying c + 1\<rparr>
         else if ran_out (clock e) d then c\<lparr>Expired := Expired c + 1\<rparr>
         else if cl_outcome d = UpgradeNeeded then c\<lparr>Upgrades := Upgrades c + 1\<rparr>
         else if cl_outcome d = Deferred then c\<lparr>Postponed := Postponed c @ [inherited e l s r d at]\<rparr>
         else c\<lparr>Moved := Moved c @ [inherited e l s r d at]\<rparr>
     | (None, _) \<Rightarrow> c)"

definition WouldCarry :: "env \<Rightarrow> Subject \<Rightarrow> carrying \<Rightarrow> tables \<Rightarrow> failure + Carried" where
  "WouldCarry e subject l s =
    (let readable = filter (mayDecide subject (line_product l)) [Public, Private];
         rows = filter (\<lambda>r. de_live_key r \<noteq> None \<and> de_product r = line_product l
            \<and> List.member readable (de_visibility r) \<and> was_here l r) (occurrences s)
     in if kind subject \<noteq> Person then Inl ErrNotTheirs
        else if readable = [] then Inl ErrNotTheirs
        else Inr (fold (sort_into e subject l s) rows
          \<lparr>Applying = 0, Moved = [], Postponed = [], Expired = 0, Upgrades = 0, Absent = 0\<rparr>))"

definition occurrenceOnLine :: "env \<Rightarrow> carrying \<Rightarrow> DecisionOccurrence \<Rightarrow> Occurrence" where
  "occurrenceOnLine e l r = (case landing l r of
     None \<Rightarrow> \<lparr>ProductID = de_product r, VulnerabilityID = issue_of e (de_issue r), OccurrenceIdentity = de_identity r,
        Occ_Visibility = AsVisibility [], OnTag = False, Occ_Kind = [], ComponentUpstream = [], ConsumerUpstream = []\<rparr>
   | Some at \<Rightarrow> \<lparr>ProductID = de_product r, VulnerabilityID = issue_of e (de_issue r), OccurrenceIdentity = de_identity r,
        Occ_Visibility = AsVisibility (lands_visibility at), OnTag = lands_on_tag at, Occ_Kind = [],
        ComponentUpstream = lands_now at, ConsumerUpstream = lands_consumer at\<rparr>)"

definition carried_from :: string where "carried_from = ''carried from another line''"

definition carried_proposal :: "env \<Rightarrow> carrying \<Rightarrow> Subject \<Rightarrow> DecisionOccurrence \<Rightarrow> Decision \<Rightarrow> string \<Rightarrow> Proposal" where
  "carried_proposal e l subject r old said =
    (argument old blank)\<lparr>Where_at := occurrenceOnLine e l r, reasoning := said, By := subject_id subject,
       upgrade_to := [], severity_centi := severity_of e (de_product r) (issue_of e (de_issue r)),
       needs_approval := True, selected_by := carried_from\<rparr>"

fun carry_loop :: "env \<Rightarrow> carrying \<Rightarrow> Subject \<Rightarrow> Inherited list \<Rightarrow> int \<Rightarrow> tables \<Rightarrow> failure + int \<times> tables" where
  "carry_loop e l subject [] carried s = Inr (carried, s)"
| "carry_loop e l subject (one # wanted) carried s =
    (case find (\<lambda>r. de_id r = in_row one) (occurrences s) of None \<Rightarrow> Inl ReadFailed
     | Some r \<Rightarrow> (case decision_of (de_decision r) s of None \<Rightarrow> Inl ReadFailed
       | Some old \<Rightarrow>
         let p = carried_proposal e l subject r old (in_reasoning one)
         in checked (permitted e subject [p])
            (case newDecision e FindingDecision (subject_id subject) None carried_from p s of (decision, s1) \<Rightarrow>
              and_then (proposeAll e decision [p] s1) (\<lambda>(_, s2). carry_loop e l subject wanted (carried + 1) s2))))"

definition Carry ::
  "env \<Rightarrow> Subject \<Rightarrow> carrying \<Rightarrow> int list \<Rightarrow> Bounds \<Rightarrow> tables \<Rightarrow> failure + int \<times> tables" where
  "Carry e subject l chosen bounds s =
    (if chosen = [] then Inr (0, s)
     else and_then (WouldCarry e subject l s) (\<lambda>offered.
       let available = Moved offered @ Postponed offered;
           wanted = List.map_filter (\<lambda>i. find (\<lambda>one. in_row one = i) available) chosen
       in checked (map_option ErrNotOffered (find (\<lambda>i. \<not> list_ex (\<lambda>one. in_row one = i) available) chosen))
         (checked (counted (bounds_within e bounds) (distinct_many (map in_vulnerability wanted))
             (int (length wanted)) True)
           (carry_loop e l subject wanted 0 s))))"

end
