(* ===== verification/Triage_Safety.thy ===== *)
theory Triage_Safety
  imports Triage_Bulk
begin

section \<open>What holds of the triage tables, whatever is done to them\<close>

text \<open>
  Any sequence of the acts of the triage store, by anybody and in any surroundings: the step
  relation, the invariant and that every act keeps it. The invariant says of every agreement that
  stands that it was given for the words the decision now rests on, by somebody who proposed none
  of the decision and wrote none of it, and of every approved row that an agreement stands on its
  decision; and that a row holds its key exactly while it is live, no key held twice.
\<close>

subsection \<open>The acts\<close>

inductive triage_by :: "env \<Rightarrow> tables \<Rightarrow> tables \<Rightarrow> bool" for e where
  proposes: "Propose e subject p s = Inr (rows, t) \<Longrightarrow> triage_by e s t"
| proposes_many: "ProposeMany e subject ps s = Inr (rows, t) \<Longrightarrow> triage_by e s t"
| proposes_grouped: "ProposeGrouped e subject p others s = Inr (rows, t) \<Longrightarrow> triage_by e s t"
| extends_to: "Extend e subject i ps s = Inr (rows, t) \<Longrightarrow> triage_by e s t"
| approves: "ApproveDecision e subject i batch aside because s = Inr (done', t) \<Longrightarrow> triage_by e s t"
| splits: "Split_decision e subject i ids because s = Inr (held, t) \<Longrightarrow> triage_by e s t"
| sends_back: "SendBackDecision e subject i because s = Inr (sent, t) \<Longrightarrow> triage_by e s t"
| revises: "Revise e subject i said s = Inr (revised, t) \<Longrightarrow> triage_by e s t"
| withdraws: "Withdraw e subject i s = Inr (reopened, t) \<Longrightarrow> triage_by e s t"
| undoes: "UndoBatch e subject batch s = Inr (undone, t) \<Longrightarrow> triage_by e s t"
| lapses: "Lapse e w s = (lapsed, t) \<Longrightarrow> triage_by e s t"
| lapses_code: "LapseCodeFindings e product named s = (lapsed, t) \<Longrightarrow> triage_by e s t"
| reaffirms: "Reaffirm e subject r s = Inr (rows, t) \<Longrightarrow> triage_by e s t"
| decides_in_bulk: "BulkDecision_act e subject at found narrowed p bounds s = Inr (recorded, t) \<Longrightarrow> triage_by e s t"
| reaffirms_decision: "ReaffirmDecision e l subject again s = Inr (reaffirmed, t) \<Longrightarrow> triage_by e s t"
| reaffirms_many: "ReaffirmMany e l subject many s = Inr (all_reaffirmed, t) \<Longrightarrow> triage_by e s t"
| lapses_rated_worse: "LapseRatedWorse e c where' s = Inr (worse, t) \<Longrightarrow> triage_by e s t"
| carries: "Carry e subject onto chosen bounds s = Inr (carried, t) \<Longrightarrow> triage_by e s t"

text \<open>An act by anybody, whatever its transaction reads elsewhere.\<close>

inductive triage_act :: "tables \<Rightarrow> tables \<Rightarrow> bool" where
  acts: "triage_by e s t \<Longrightarrow> triage_act s t"

subsection \<open>The invariant\<close>

definition numbered :: "('a \<Rightarrow> int) \<Rightarrow> 'a list \<Rightarrow> bool" where
  "numbered f rows \<longleftrightarrow> map f rows = map int [1..<Suc (length rows)]"

lemma numbered_Nil [simp]: "numbered f []"
  by (simp add: numbered_def)

lemma numbered_append: "numbered f rows \<Longrightarrow> f r = fresh rows \<Longrightarrow> numbered f (rows @ [r])"
  by (simp add: numbered_def fresh_def)

lemma numbered_change: "numbered f rows \<Longrightarrow> (\<And>r. f (g r) = f r) \<Longrightarrow> numbered f (change p g rows)"
  by (simp add: numbered_def change_map)

lemma numbered_fresh: "numbered f rows \<Longrightarrow> r \<in> set rows \<Longrightarrow> f r < fresh rows"
proof -
  assume n: "numbered f rows" and r: "r \<in> set rows"
  then have "f r \<in> set (map int [1..<Suc (length rows)])" unfolding numbered_def by (metis image_eqI set_map)
  then show ?thesis by (auto simp: fresh_def)
qed

lemma numbered_inj: "numbered f rows \<Longrightarrow> inj_on f (set rows)"
proof -
  assume "numbered f rows"
  then have "distinct (map f rows)" unfolding numbered_def by (metis distinct_map distinct_upt inj_on_of_nat)
  then show ?thesis by (simp add: distinct_map)
qed

lemma find_Some: "find p rows = Some r \<Longrightarrow> r \<in> set rows \<and> p r"
  by (auto simp: find_Some_iff)

definition has_agreement :: "tables \<Rightarrow> int \<Rightarrow> bool" where
  "has_agreement s i \<longleftrightarrow> (\<exists>a \<in> set (approvals s). da_decision a = i \<and> da_withdrawn_at a = None)"

definition second :: "tables \<Rightarrow> int \<Rightarrow> int \<Rightarrow> bool" where
  "second s i person \<longleftrightarrow> (\<forall>v \<in> set (revisions s). dr_decision v = i \<longrightarrow> dr_written_by v \<noteq> person)
     \<and> (\<forall>r \<in> set (occurrences s). de_decision r = i \<longrightarrow> de_proposed_by r \<noteq> person)"

definition agreement_ok :: "tables \<Rightarrow> Approval \<Rightarrow> bool" where
  "agreement_ok s a \<longleftrightarrow> da_withdrawn_at a = None \<longrightarrow>
     (\<exists>c \<in> set (decisions s). cl_id c = da_decision a \<and> cl_revision c = Some (da_revision a)
        \<and> cl_proposed_by c \<noteq> da_approved_by a)
     \<and> second s (da_decision a) (da_approved_by a)"

definition known :: "tables \<Rightarrow> int \<Rightarrow> bool" where
  "known s i \<longleftrightarrow> i \<in> cl_id ` set (decisions s)"

definition base_ok :: "tables \<Rightarrow> bool" where
  "base_ok s \<longleftrightarrow> numbered cl_id (decisions s) \<and> numbered de_id (occurrences s)
     \<and> (\<forall>r \<in> set (occurrences s). known s (de_decision r))
     \<and> (\<forall>v \<in> set (revisions s). known s (dr_decision v))
     \<and> (\<forall>a \<in> set (approvals s). known s (da_decision a) \<and> agreement_ok s a)
     \<and> (\<forall>r \<in> set (occurrences s). Live (de_state r) \<longleftrightarrow> de_live_key r \<noteq> None)
     \<and> unique_keys (occurrences s)"

definition rows_agreed :: "tables \<Rightarrow> bool" where
  "rows_agreed s \<longleftrightarrow> (\<forall>r \<in> set (occurrences s). de_state r = Approved \<longrightarrow> has_agreement s (de_decision r))"

definition triage_ok :: "tables \<Rightarrow> bool" where
  "triage_ok s \<longleftrightarrow> base_ok s \<and> rows_agreed s"

lemma triage_okI: "base_ok s \<Longrightarrow> rows_agreed s \<Longrightarrow> triage_ok s"
  by (simp add: triage_ok_def)

lemma triage_okD: "triage_ok s \<Longrightarrow> base_ok s" "triage_ok s \<Longrightarrow> rows_agreed s"
  by (simp_all add: triage_ok_def)

lemmas ok_defs = base_ok_def rows_agreed_def has_agreement_def agreement_ok_def second_def known_def

lemma ok_beside [simp]:
  "base_ok (s\<lparr>stamps := x\<rparr>) = base_ok s" "rows_agreed (s\<lparr>stamps := x\<rparr>) = rows_agreed s"
  "base_ok (s\<lparr>comments := y\<rparr>) = base_ok s" "rows_agreed (s\<lparr>comments := y\<rparr>) = rows_agreed s"
  "triage_ok (s\<lparr>stamps := x\<rparr>) = triage_ok s" "triage_ok (s\<lparr>comments := y\<rparr>) = triage_ok s"
  by (simp_all add: ok_defs triage_ok_def)

lemma no_tables_ok: "triage_ok no_tables"
  by (simp add: triage_ok_def ok_defs no_tables_def unique_keys_def)

subsection \<open>Changing rows\<close>

text \<open>A change that leaves a row where it is and keeps the key of a live row, or releases it.\<close>

lemma rows_change_base:
  assumes "base_ok s" and "\<And>r. de_id (f r) = de_id r" and "\<And>r. de_decision (f r) = de_decision r"
    and "\<And>r. de_proposed_by (f r) = de_proposed_by r"
    and "\<And>r. r \<in> set (occurrences s) \<Longrightarrow> p r \<Longrightarrow> Live (de_state (f r)) \<longleftrightarrow> de_live_key (f r) \<noteq> None"
    and "unique_keys (change p f (occurrences s))"
  shows "base_ok (s\<lparr>occurrences := change p f (occurrences s)\<rparr>)"
proof -
  let ?t = "s\<lparr>occurrences := change p f (occurrences s)\<rparr>"
  have rows: "\<exists>r' \<in> set (occurrences s). de_decision r' = de_decision r \<and> de_proposed_by r' = de_proposed_by r
      \<and> (Live (de_state r) \<longleftrightarrow> de_live_key r \<noteq> None)" if "r \<in> set (occurrences ?t)" for r
  proof -
    from that obtain r' where r': "r' \<in> set (occurrences s)" "r = (if p r' then f r' else r')" by (auto simp: in_change)
    then show ?thesis using assms(1,3-5) by (intro bexI [of _ r']) (auto simp: base_ok_def)
  qed
  have "second s i person \<Longrightarrow> second ?t i person" for i person
    using rows by (fastforce simp: second_def)
  then have "agreement_ok s a \<Longrightarrow> agreement_ok ?t a" for a by (auto simp: agreement_ok_def)
  moreover have "numbered de_id (change p f (occurrences s))"
    using assms(1,2) by (auto simp: base_ok_def intro: numbered_change)
  moreover have "known ?t = known s" by (simp add: known_def fun_eq_iff)
  moreover have "\<forall>r \<in> set (occurrences ?t). known s (de_decision r)"
    using rows assms(1) by (metis base_ok_def)
  moreover have "\<forall>r \<in> set (occurrences ?t). Live (de_state r) \<longleftrightarrow> de_live_key r \<noteq> None" using rows by blast
  ultimately show ?thesis using assms(1,6) unfolding base_ok_def by simp
qed

lemma rows_change_agreed:
  assumes "rows_agreed s" and "\<And>r. de_decision (f r) = de_decision r"
    and "\<And>r. r \<in> set (occurrences s) \<Longrightarrow> p r \<Longrightarrow> de_state (f r) = Approved \<Longrightarrow> has_agreement s (de_decision r)"
  shows "rows_agreed (s\<lparr>occurrences := change p f (occurrences s)\<rparr>)"
  using assms by (auto simp: rows_agreed_def has_agreement_def in_change split: if_splits)

lemma rows_change_ok:
  assumes "triage_ok s" and "\<And>r. de_id (f r) = de_id r" and "\<And>r. de_decision (f r) = de_decision r"
    and "\<And>r. de_proposed_by (f r) = de_proposed_by r"
    and "\<And>r. de_live_key (f r) = de_live_key r \<or> de_live_key (f r) = None"
    and "\<And>r. r \<in> set (occurrences s) \<Longrightarrow> p r \<Longrightarrow> (Live (de_state (f r)) \<longleftrightarrow> de_live_key (f r) \<noteq> None)
      \<and> (de_state (f r) = Approved \<longrightarrow> has_agreement s (de_decision r))"
  shows "triage_ok (s\<lparr>occurrences := change p f (occurrences s)\<rparr>)"
proof (rule triage_okI)
  have "unique_keys (change p f (occurrences s))"
    using assms(1,5) by (intro held_keys_change) (auto simp: triage_ok_def base_ok_def)
  then show "base_ok (s\<lparr>occurrences := change p f (occurrences s)\<rparr>)"
    using assms by (intro rows_change_base) (auto simp: triage_ok_def)
  show "rows_agreed (s\<lparr>occurrences := change p f (occurrences s)\<rparr>)"
    using assms by (intro rows_change_agreed) (auto simp: triage_ok_def)
qed

subsection \<open>A new decision and its rows\<close>

lemma newDecision_frame:
  assumes "newDecisionNarrowed e k by from selectedBy narrowed p s = (d, t)"
  shows "occurrences t = occurrences s" "approvals t = approvals s" "cl_id d = fresh (decisions s)"
    "decisions t = decisions s @ [d]" "cl_proposed_by d = by" "cl_revision d = Some (fresh (revisions s))"
    "cl_outcome d = outcome p" "\<exists>v. revisions t = revisions s @ [v] \<and> dr_decision v = cl_id d \<and> dr_written_by v = by"
  using assms by (auto simp: newDecisionNarrowed_def Let_def)

lemma newDecision_ok:
  assumes "triage_ok s" and "newDecisionNarrowed e k by from selectedBy narrowed p s = (d, t)"
  shows "triage_ok t" and "known t (cl_id d)" and "\<forall>a \<in> set (approvals t). da_decision a \<noteq> cl_id d"
    and "\<forall>r \<in> set (occurrences t). de_decision r \<noteq> cl_id d"
    and "\<forall>v \<in> set (revisions t). dr_decision v = cl_id d \<longrightarrow> dr_written_by v = by"
proof -
  note n = newDecision_frame [OF assms(2)]
  have base: "base_ok s" "rows_agreed s" using assms(1) by (simp_all add: triage_ok_def)
  then have new: "\<not> known s (cl_id d)"
    using n(3) numbered_fresh by (fastforce simp: base_ok_def known_def)
  show "known t (cl_id d)" by (simp add: known_def n(4))
  show apart: "\<forall>a \<in> set (approvals t). da_decision a \<noteq> cl_id d" "\<forall>r \<in> set (occurrences t). de_decision r \<noteq> cl_id d"
    using new base(1) n by (auto simp: base_ok_def)
  obtain v where v: "revisions t = revisions s @ [v]" "dr_decision v = cl_id d" "dr_written_by v = by" using n(8) by blast
  show "\<forall>v \<in> set (revisions t). dr_decision v = cl_id d \<longrightarrow> dr_written_by v = by"
    using v new base(1) by (auto simp: base_ok_def)
  have "agreement_ok t a" if "a \<in> set (approvals s)" for a
  proof -
    have "agreement_ok s a" "da_decision a \<noteq> cl_id d" using that base(1) apart n(2) by (auto simp: base_ok_def)
    then show ?thesis using n v by (auto simp: agreement_ok_def second_def)
  qed
  moreover have "known s i \<Longrightarrow> known t i" for i by (auto simp: known_def n(4))
  moreover have "numbered cl_id (decisions t)" using base(1) n(3,4) by (simp add: base_ok_def numbered_append)
  ultimately have "base_ok t" using base(1) n v by (auto simp: base_ok_def known_def)
  moreover have "rows_agreed t" using base(2) n by (simp add: rows_agreed_def has_agreement_def)
  ultimately show "triage_ok t" by (rule triage_okI)
qed

lemma newDecision_narrowed: "newDecision e k by from selectedBy p s = newDecisionNarrowed e k by from selectedBy None p s"
  by (simp add: newDecision_def)

lemma new_rows_are:
  assumes "r \<in> set (new_rows e d ps i)"
  shows "de_decision r = cl_id d" "de_state r = Proposed" "de_live_key r \<noteq> None"
    "de_proposed_by r \<in> set (map By ps)"
  using assms by (auto simp: new_rows_def disclosedSince_def Let_def in_change row_def in_set_enumerate_eq)

lemma new_rows_ids: "map de_id (new_rows e d ps i) = map (\<lambda>n. i + int n) [0..<length ps]"
proof -
  have "map de_id (new_rows e d ps i) = map de_id (map (\<lambda>(n, p). row e d (i + int n) p) (enumerate 0 ps))"
    by (simp add: new_rows_def disclosedSince_def Let_def change_map)
  also have "\<dots> = map (\<lambda>x. i + int (fst x)) (enumerate 0 ps)"
    by (simp add: row_def case_prod_unfold comp_def)
  also have "\<dots> = map (\<lambda>n. i + int n) (map fst (enumerate 0 ps))" by (simp only: map_map comp_def)
  finally show ?thesis by simp
qed

lemma numbered_more:
  assumes "numbered f rows" and "map f more' = map (\<lambda>n. fresh rows + int n) [0..<length more']"
  shows "numbered f (rows @ more')"
proof -
  have "map (\<lambda>n. fresh rows + int n) [0..<k] = map int [Suc (length rows)..<Suc (length rows + k)]" for k
    by (induction k) (simp_all add: fresh_def)
  then have "map f more' = map int [Suc (length rows)..<Suc (length rows + length more')]" using assms(2) by metis
  moreover have "[1..<Suc (length rows + length more')] = [1..<Suc (length rows)] @ [Suc (length rows)..<Suc (length rows + length more')]"
    using upt_add_eq_append [of 1 "Suc (length rows)" "length more'"] by simp
  ultimately show ?thesis using assms(1) unfolding numbered_def by simp
qed

lemma write_rows_frame:
  assumes "write_rows e d ps s = Inr (rows, t)"
  shows "rows = new_rows e d (map (refiled e) ps) (fresh (occurrences s))"
    "t = s\<lparr>occurrences := occurrences s @ rows\<rparr>" "unique_keys (occurrences s @ rows)"
  using assms by (auto simp: write_rows_def Let_def split: if_splits)

lemma write_rows_ok:
  assumes "triage_ok s" and "known s (cl_id d)" and "\<forall>a \<in> set (approvals s). da_decision a \<noteq> cl_id d"
    and "write_rows e d ps s = Inr (rows, t)"
  shows "triage_ok t"
proof -
  note w = write_rows_frame [OF assms(4)]
  note r = new_rows_are [of _ e d "map (refiled e) ps" "fresh (occurrences s)", folded w(1)]
  have base: "base_ok s" "rows_agreed s" using assms(1) by (simp_all add: triage_ok_def)
  have "numbered de_id (occurrences s @ rows)"
    using base(1) by (intro numbered_more) (simp_all add: base_ok_def w(1) new_rows_ids
        flip: length_map [of de_id "new_rows _ _ _ _"])
  moreover have "agreement_ok t a" if "a \<in> set (approvals s)" for a
  proof -
    have "agreement_ok s a" using that base(1) by (simp add: base_ok_def)
    then show ?thesis using that assms(3) r(1) w(2) by (auto simp: agreement_ok_def second_def)
  qed
  moreover have "Live (de_state x) \<longleftrightarrow> de_live_key x \<noteq> None" if "x \<in> set rows" for x
    using r(2,3) [OF that] by (simp add: Live_def)
  ultimately have "base_ok t" using base(1) w r(1) assms(2) by (auto simp: base_ok_def known_def)
  moreover have "rows_agreed t" using base(2) w(2) r(2) by (auto simp: rows_agreed_def has_agreement_def)
  ultimately show ?thesis by (rule triage_okI)
qed

lemma propose_as_ok:
  assumes "triage_ok s" and "propose_as e k by from carried ps s = Inr (rows, t)"
  shows "triage_ok t"
proof -
  obtain d s' where d: "newDecisionNarrowed e k by from [] None (carried (hd (gate e s ps))) s = (d, s')"
    by fastforce
  then have "write_rows e d (gate e s ps) s' = Inr (rows, t)"
    using assms(2) by (simp add: propose_as_def Let_def newDecision_narrowed proposeAll_def)
  then show ?thesis using write_rows_ok newDecision_ok [OF assms(1) d] by blast
qed

subsection \<open>Agreeing and returning\<close>

lemma writableRows_frame:
  assumes "writableRows e rule subject i s = Inr (d, rows, t)"
  shows "decision_of i s = Some d" "rows = rows_of i s" "rows \<noteq> []" "t = s\<lparr>stamps := (stamps s)(i := stamps s i + 1)\<rparr>"
    "list_all (on_row rule subject) rows"
  using assms by (auto simp: writableRows_def decisionRows_def Restamp_def Let_def list_all_iff list_ex_iff
      split: option.splits if_splits)

lemma decision_of_frame: "decision_of i s = Some d \<Longrightarrow> d \<in> set (decisions s) \<and> cl_id d = i"
  unfolding decision_of_def by (drule find_Some) auto

lemma writableRows_ok:
  "triage_ok s \<Longrightarrow> writableRows e rule subject i s = Inr (d, rows, t) \<Longrightarrow> triage_ok t"
  using writableRows_frame(4) by fastforce

lemma sayOn_frame: "sayOn e subject i body s = Inr t \<Longrightarrow> \<exists>cs. t = s\<lparr>comments := cs\<rparr>"
  by (auto simp: sayOn_def)

lemma approval_added_ok:
  assumes "triage_ok s" and "d \<in> set (decisions s)" and "cl_revision d = Some (da_revision a)"
    and "cl_id d = da_decision a" and "cl_proposed_by d \<noteq> da_approved_by a" and "second s (da_decision a) (da_approved_by a)"
  shows "triage_ok (s\<lparr>approvals := approvals s @ [a]\<rparr>)"
proof (rule triage_okI)
  let ?t = "s\<lparr>approvals := approvals s @ [a]\<rparr>"
  have base: "base_ok s" "rows_agreed s" using assms(1) by (simp_all add: triage_ok_def)
  have "agreement_ok ?t b" if "b \<in> set (approvals ?t)" for b
    using that base(1) assms(2-6) by (auto simp: base_ok_def agreement_ok_def second_def)
  moreover have "known s (da_decision a)" using assms(2,4) unfolding known_def by (metis imageI)
  ultimately show "base_ok ?t" using base(1) by (auto simp: base_ok_def known_def)
  show "rows_agreed ?t" using base(2) by (auto simp: rows_agreed_def has_agreement_def)
qed

lemma approveWhileRevised_frame:
  assumes "approveWhileRevised d rv ids s = Inr t"
  shows "t = s\<lparr>occurrences := change (\<lambda>r. List.member ids (de_id r) \<and> de_state r = Proposed
      \<and> list_ex (\<lambda>c. cl_id c = cl_id d \<and> cl_revision c = Some rv) (decisions s))
      (\<lambda>r. r\<lparr>de_state := Approved\<rparr>) (occurrences s)\<rparr>"
  using assms by (auto simp: approveWhileRevised_def Let_def split: if_splits)

lemma approveWhileRevised_ok:
  assumes "triage_ok s" and "has_agreement s (cl_id d)"
    and "\<And>r. r \<in> set (occurrences s) \<Longrightarrow> de_id r \<in> set ids \<Longrightarrow> de_decision r = cl_id d"
    and "approveWhileRevised d rv ids s = Inr t"
  shows "triage_ok t"
  unfolding approveWhileRevised_frame [OF assms(4)]
proof (rule rows_change_ok [OF assms(1)], goal_cases)
  case (5 r)
  then have "Live (de_state r) \<longleftrightarrow> de_live_key r \<noteq> None" "de_decision r = cl_id d"
    using assms(1,3) by (auto simp: triage_ok_def base_ok_def)
  then show ?case using 5 assms(2) by (auto simp: Live_def)
qed auto

lemma row_ids:
  assumes "triage_ok s" and "r \<in> set (occurrences s)" and "x \<in> set (occurrences s)" and "de_id r = de_id x"
  shows "r = x"
  using assms numbered_inj [of de_id "occurrences s"] by (auto simp: triage_ok_def base_ok_def inj_on_def)

lemma agree_ok:
  assumes "triage_ok s" and "d \<in> set (decisions s)" and "cl_revision d = Some rv"
    and "cl_proposed_by d \<noteq> subject_id subject"
    and "\<And>r. r \<in> set (occurrences s) \<Longrightarrow> de_id r \<in> set ids \<Longrightarrow> de_decision r = cl_id d"
    and "agree e subject d rv ids batch s = Inr t"
  shows "triage_ok t"
proof -
  define a where "a = \<lparr>da_id = fresh (approvals s), da_decision = cl_id d, da_revision = rv,
     da_approved_by = subject_id subject, da_approved_at = truncated e, da_withdrawn_at = None,
     da_withdrawn_by = None, da_batch = (if trim_space batch \<noteq> [] then Some batch else None),
     da_covered = Some (covers e ids), da_carried_from = None\<rparr>"
  then have a: "da_decision a = cl_id d" "da_revision a = rv" "da_approved_by a = subject_id subject" "da_withdrawn_at a = None"
    by simp_all
  have none: "secondPerson (cl_id d) (subject_id subject) s = None"
    and t: "approveWhileRevised d rv ids (s\<lparr>approvals := approvals s @ [a]\<rparr>) = Inr t"
    using assms(6) unfolding agree_def Let_def checked_Inr a_def by blast+
  have "second s (cl_id d) (subject_id subject)"
    using none by (auto simp: secondPerson_def second_def list_ex_iff)
  then have "triage_ok (s\<lparr>approvals := approvals s @ [a]\<rparr>)"
    using assms a by (intro approval_added_ok [of _ d]) simp_all
  then show ?thesis using t assms(5) a
    by (intro approveWhileRevised_ok [OF _ _ _ t]) (auto simp: has_agreement_def)
qed

lemma move_rows_ok:
  assumes "triage_ok s" and "known s i" and "\<forall>a \<in> set (approvals s). da_decision a \<noteq> i"
  shows "triage_ok (s\<lparr>occurrences := change (\<lambda>r. List.member ids (de_id r) \<and> de_decision r = from \<and> de_state r = Proposed)
      (\<lambda>r. r\<lparr>de_decision := i, de_sent_back_at := at\<rparr>) (occurrences s)\<rparr>)" (is "triage_ok ?t")
proof (rule triage_okI)
  have base: "base_ok s" "rows_agreed s" using assms(1) by (simp_all add: triage_ok_def)
  let ?p = "\<lambda>r. List.member ids (de_id r) \<and> de_decision r = from \<and> de_state r = Proposed"
  let ?f = "\<lambda>r. r\<lparr>de_decision := i, de_sent_back_at := at\<rparr>"
  have rows: "\<exists>x \<in> set (occurrences s). de_proposed_by r = de_proposed_by x \<and> de_state r = de_state x
      \<and> de_live_key r = de_live_key x \<and> (de_decision r = de_decision x \<or> de_decision r = i \<and> de_state r = Proposed)"
    if "r \<in> set (change ?p ?f (occurrences s))" for r
  proof -
    from that obtain x where "x \<in> set (occurrences s)" "r = (if ?p x then ?f x else x)" by (auto simp: in_change)
    then show ?thesis by (intro bexI [of _ x]) auto
  qed
  have "unique_keys (change ?p ?f (occurrences s))"
    using base(1) by (intro held_keys_change) (auto simp: base_ok_def)
  moreover have "numbered de_id (change ?p ?f (occurrences s))"
    using base(1) by (intro numbered_change) (auto simp: base_ok_def)
  moreover have "agreement_ok ?t a" if "a \<in> set (approvals s)" for a
  proof -
    have "agreement_ok s a" "da_decision a \<noteq> i" using that base(1) assms(3) by (auto simp: base_ok_def)
    moreover have "second ?t j q" if sec: "second s j q" and ne: "j \<noteq> i" for j q
      unfolding second_def
    proof (intro conjI ballI impI)
      fix v
      assume "v \<in> set (revisions ?t)" "dr_decision v = j"
      then show "dr_written_by v \<noteq> q" using sec by (simp add: second_def)
    next
      fix r
      assume r: "r \<in> set (occurrences ?t)" "de_decision r = j"
      then obtain x where "x \<in> set (occurrences s)" "de_proposed_by r = de_proposed_by x" "de_decision x = j"
        using rows [of r] ne by auto
      then show "de_proposed_by r \<noteq> q" using sec by (simp add: second_def)
    qed
    ultimately show ?thesis by (auto simp: agreement_ok_def)
  qed
  moreover have "known ?t = known s" by (simp add: known_def fun_eq_iff)
  moreover have "\<forall>r \<in> set (occurrences ?t). known s (de_decision r) \<and> (Live (de_state r) \<longleftrightarrow> de_live_key r \<noteq> None)"
  proof
    fix r
    assume "r \<in> set (occurrences ?t)"
    then obtain x where "x \<in> set (occurrences s)" "de_state r = de_state x" "de_live_key r = de_live_key x"
      "de_decision r = de_decision x \<or> de_decision r = i" using rows by auto
    then show "known s (de_decision r) \<and> (Live (de_state r) \<longleftrightarrow> de_live_key r \<noteq> None)"
      using base(1) assms(2) by (auto simp: base_ok_def)
  qed
  ultimately show "base_ok ?t" using base(1) unfolding base_ok_def by simp
  show "rows_agreed ?t"
    unfolding rows_agreed_def
  proof (intro ballI impI)
    fix r
    assume r: "r \<in> set (occurrences ?t)" "de_state r = Approved"
    then obtain x where "x \<in> set (occurrences s)" "de_state x = Approved" "de_decision r = de_decision x"
      using rows by fastforce
    then show "has_agreement ?t (de_decision r)" using base(2) by (simp add: rows_agreed_def has_agreement_def)
  qed
qed

lemma intoReturned_ok:
  assumes "triage_ok s" and "intoReturned e subject d ids because s = Inr (returned, t)"
  shows "triage_ok t"
proof -
  obtain said where r: "reasoningOn d s = Inr said" using assms(2) by (auto simp: intoReturned_def)
  obtain d' s1 where new: "newDecisionNarrowed e ReturnedDecision (cl_proposed_by d) (Some (cl_id d))
      (orEmpty (cl_selected_by d)) None ((argument d blank)\<lparr>reasoning := said\<rparr>) s = (d', s1)"
    by fastforce
  have say: "sayOn e subject (cl_id d') because (s1\<lparr>occurrences := change
        (\<lambda>r. List.member ids (de_id r) \<and> de_decision r = cl_id d \<and> de_state r = Proposed)
        (\<lambda>r. r\<lparr>de_decision := cl_id d', de_sent_back_at := Some (truncated e)\<rparr>) (occurrences s1)\<rparr>) = Inr t"
    using assms(2) by (auto simp: intoReturned_def r and_then_simps newDecision_narrowed new Let_def)
  then obtain cs where "t = (s1\<lparr>occurrences := change
        (\<lambda>r. List.member ids (de_id r) \<and> de_decision r = cl_id d \<and> de_state r = Proposed)
        (\<lambda>r. r\<lparr>de_decision := cl_id d', de_sent_back_at := Some (truncated e)\<rparr>) (occurrences s1)\<rparr>)\<lparr>comments := cs\<rparr>"
    using sayOn_frame by blast
  then show ?thesis
    using move_rows_ok [OF newDecision_ok(1-3) [OF assms(1) new]] by simp
qed

lemma sort_rows_are:
  assumes "sort_rows samePerson aside rows = Inr (approving, returning)"
  shows "set approving \<subseteq> set rows \<and> set returning \<subseteq> set rows \<and> (approving \<noteq> [] \<or> returning \<noteq> [] \<longrightarrow> \<not> samePerson)
    \<and> (\<forall>r \<in> set approving \<union> set returning. de_state r = Proposed)"
  using assms
proof (induction rows arbitrary: approving returning)
  case (Cons r rows)
  note IH = Cons.IH
  consider "sort_rows samePerson aside rows = Inr (approving, returning)"
    | x where "sort_rows samePerson aside rows = Inr (approving, x)" "returning = r # x" "\<not> samePerson" "de_state r = Proposed"
    | x where "sort_rows samePerson aside rows = Inr (x, returning)" "approving = r # x" "\<not> samePerson" "de_state r = Proposed"
    using Cons.prems by (auto split: if_splits)
  then show ?case
  proof cases
    case 1
    from IH [OF 1] show ?thesis by auto
  next
    case 2
    from IH [OF 2(1)] show ?thesis using 2 by auto
  next
    case 3
    from IH [OF 3(1)] show ?thesis using 3 by auto
  qed
qed simp

lemma in_rows_of: "r \<in> set (rows_of i s) \<longleftrightarrow> r \<in> set (occurrences s) \<and> de_decision r = i"
  by (auto simp: rows_of_def)

end
