(* ===== verification/Triage_Invariant.thy ===== *)
theory Triage_Invariant
  imports Triage_Safety
begin

section \<open>Every act keeps the invariant\<close>

text \<open>
  One lemma per act of the triage store, and with them the invariant in every table any sequence
  of acts can reach.
\<close>

subsection \<open>Proposing\<close>

lemma proposing_ok:
  assumes "triage_ok s"
  shows "Propose e subject p s = Inr (rows, t) \<Longrightarrow> triage_ok t"
    and "ProposeMany e subject ps s = Inr (rows, t) \<Longrightarrow> triage_ok t"
    and "ProposeGrouped e subject p others s = Inr (rows, t) \<Longrightarrow> triage_ok t"
    and "Extend e subject i ps s = Inr (rows, t) \<Longrightarrow> triage_ok t"
  using propose_as_ok [OF assms] assms
  by (auto simp: Propose_def ProposeMany_def ProposeGrouped_def Extend_def Let_def split: if_splits)

subsection \<open>Agreeing, splitting, sending back\<close>

lemma agreed_or_not:
  assumes "triage_ok s" and "writableRows e mayApproveOn subject i s = Inr (d, rows, s1)" and "cl_revision d = Some rv"
    and "sort_rows (author = subject_id subject \<or> cl_proposed_by d = subject_id subject) aside rows = Inr (approving, returning)"
    and "(if approving = [] then Inr s1 else agree e subject d rv (map de_id approving) batch s1) = Inr s2"
  shows "triage_ok s2"
proof (cases "approving = []")
  case True
  then show ?thesis using assms(5) writableRows_ok [OF assms(1,2)] by simp
next
  case False
  note w = writableRows_frame [OF assms(2)]
  have ok: "triage_ok s1" using writableRows_ok [OF assms(1,2)] .
  have d: "d \<in> set (decisions s1)" "cl_id d = i" using decision_of_frame [OF w(1)] w(4) by simp_all
  have "cl_proposed_by d \<noteq> subject_id subject" using sort_rows_are [OF assms(4)] False by blast
  moreover have "de_decision r = cl_id d"
    if r: "r \<in> set (occurrences s1)" "de_id r \<in> set (map de_id approving)" for r
  proof -
    from r(2) obtain x where x: "x \<in> set approving" "de_id r = de_id x" by auto
    then have "x \<in> set rows" using sort_rows_are [OF assms(4)] by blast
    then have x2: "x \<in> set (occurrences s1)" "de_decision x = i" using w(2,4) by (auto simp: in_rows_of)
    then have "r = x" using row_ids [OF ok r(1)] x(2) by blast
    then show ?thesis using x2 d by simp
  qed
  ultimately show ?thesis using agree_ok [OF ok d(1) assms(3), of subject "map de_id approving" e batch s2] assms(5) False by auto
qed

lemma approveDecision_parts:
  assumes "approveDecision e subject i batch aside because s = Inr (done', t)"
  obtains d rows s1 rv author approving returning s2 where
    "writableRows e mayApproveOn subject i s = Inr (d, rows, s1)" "cl_revision d = Some rv"
    "authorOf d s1 = Inr author"
    "sort_rows (author = subject_id subject \<or> cl_proposed_by d = subject_id subject) aside rows = Inr (approving, returning)"
    "(if approving = [] then Inr s1 else agree e subject d rv (map de_id approving) batch s1) = Inr s2"
    "returning = [] \<and> t = s2 \<or> (\<exists>x. intoReturned e subject d (map de_id returning) because s2 = Inr (x, t))"
    "approved_rows done' = int (length approving)"
proof -
  from assms obtain w where w: "writableRows e mayApproveOn subject i s = Inr w"
    by (auto simp: approveDecision_def)
  obtain d rows s1 where w3: "w = (d, rows, s1)" by (cases w)
  note assms = assms [unfolded approveDecision_def w and_then_simps w3 prod.case Let_def]
  then obtain rv where rv: "cl_revision d = Some rv" by (cases "cl_revision d") simp_all
  obtain author where author: "authorOf d s1 = Inr author" using assms rv by auto
  obtain sorted where "sort_rows (author = subject_id subject \<or> cl_proposed_by d = subject_id subject) aside rows = Inr sorted"
    using assms rv author by (auto simp: and_then_simps)
  then obtain approving returning where
    sorted: "sort_rows (author = subject_id subject \<or> cl_proposed_by d = subject_id subject) aside rows = Inr (approving, returning)"
    by (cases sorted) simp
  note assms = assms [unfolded rv option.case checked_Inr author and_then_simps prod.case sorted, THEN conjunct2, THEN conjunct2, THEN conjunct2]
  then obtain s2 where s2: "(if approving = [] then Inr s1 else agree e subject d rv (map de_id approving) batch s1) = Inr s2"
    unfolding and_then_Inr by blast
  note assms = assms [unfolded s2 and_then_simps]
  have "returning = [] \<and> t = s2 \<or> (\<exists>x. intoReturned e subject d (map de_id returning) because s2 = Inr (x, t))"
    "approved_rows done' = int (length approving)"
    using assms by (auto split: if_splits)
  then show thesis using that w w3 rv author sorted s2 by blast
qed

lemma approving_ok:
  assumes "triage_ok s" and "ApproveDecision e subject i batch aside because s = Inr (done', t)"
  shows "triage_ok t"
proof -
  have "approveDecision e subject i batch aside because s = Inr (done', t)"
    using assms(2) by (simp add: ApproveDecision_def)
  then show ?thesis
  proof (rule approveDecision_parts)
    fix d rows s1 rv author approving returning s2
    assume parts: "writableRows e mayApproveOn subject i s = Inr (d, rows, s1)" "cl_revision d = Some rv"
      "sort_rows (author = subject_id subject \<or> cl_proposed_by d = subject_id subject) aside rows = Inr (approving, returning)"
      "(if approving = [] then Inr s1 else agree e subject d rv (map de_id approving) batch s1) = Inr s2"
      and ending: "returning = [] \<and> t = s2 \<or> (\<exists>x. intoReturned e subject d (map de_id returning) because s2 = Inr (x, t))"
    have "triage_ok s2" by (rule agreed_or_not [OF assms(1) parts])
    then show "triage_ok t" using ending intoReturned_ok by blast
  qed
qed

lemma splitting_ok:
  assumes "triage_ok s" and "Split_decision e subject i ids because s = Inr (held, t)"
  shows "triage_ok t"
proof -
  from assms(2) obtain w where w: "writableRows e mayDecideOn subject i s = Inr w" by (auto simp: Split_decision_def)
  obtain d rows s1 where w3: "w = (d, rows, s1)" by (cases w)
  have "\<exists>held_ids. intoReturned e subject d held_ids because s1 = Inr (held, t)"
    using assms(2) by (auto simp: Split_decision_def w w3 and_then_simps Let_def)
  then show ?thesis using intoReturned_ok writableRows_ok [OF assms(1)] w w3 by blast
qed

lemma sending_back_ok:
  assumes "triage_ok s" and "SendBackDecision e subject i because s = Inr (sent, t)"
  shows "triage_ok t"
proof -
  from assms(2) obtain w where w: "writableRows e mayApproveOn subject i s = Inr w" by (auto simp: SendBackDecision_def)
  obtain d rows s1 where w3: "w = (d, rows, s1)" by (cases w)
  have "\<exists>p s2. sayOn e subject i because s1 = Inr s2
      \<and> t = s2\<lparr>occurrences := change p (\<lambda>r. r\<lparr>de_sent_back_at := Some (truncated e)\<rparr>) (occurrences s2)\<rparr>"
    using assms(2) by (auto simp: SendBackDecision_def w w3 and_then_simps Let_def)
  then obtain p s2 where s2: "sayOn e subject i because s1 = Inr s2"
    and t: "t = s2\<lparr>occurrences := change p (\<lambda>r. r\<lparr>de_sent_back_at := Some (truncated e)\<rparr>) (occurrences s2)\<rparr>" by blast
  have ok: "triage_ok s2" using sayOn_frame [OF s2] writableRows_ok [OF assms(1)] w w3 by auto
  then show ?thesis unfolding t
    by (intro rows_change_ok [OF ok]) (auto simp: triage_ok_def base_ok_def rows_agreed_def)
qed

subsection \<open>Revising, withdrawing, undoing\<close>

text \<open>Taking agreements back keeps everything but that an approved row has one.\<close>

lemma withdraw_approvals_base:
  assumes "base_ok s"
  shows "base_ok (withdraw_approvals which subject now s)"
proof -
  let ?t = "withdraw_approvals which subject now s"
  have "\<exists>b \<in> set (approvals s). da_decision a = da_decision b \<and> da_revision a = da_revision b
      \<and> da_approved_by a = da_approved_by b \<and> (da_withdrawn_at a = None \<longrightarrow> da_withdrawn_at b = None)"
    if a: "a \<in> set (approvals ?t)" for a
  proof -
    from a obtain b where "b \<in> set (approvals s)" "a = (if which b \<and> da_withdrawn_at b = None
        then b\<lparr>da_withdrawn_at := Some now, da_withdrawn_by := Some (subject_id subject)\<rparr> else b)"
      by (auto simp: withdraw_approvals_def in_change)
    then show ?thesis by (intro bexI [of _ b]) auto
  qed
  then have "known s (da_decision a) \<and> agreement_ok s a" if "a \<in> set (approvals ?t)" for a
    using that assms unfolding base_ok_def agreement_ok_def by metis
  then show ?thesis using assms
    by (auto simp: base_ok_def withdraw_approvals_def known_def agreement_ok_def second_def)
qed

lemma withdraw_approvals_frame [simp]:
  "decisions (withdraw_approvals which subject now s) = decisions s"
  "occurrences (withdraw_approvals which subject now s) = occurrences s"
  "revisions (withdraw_approvals which subject now s) = revisions s"
  "stamps (withdraw_approvals which subject now s) = stamps s"
  by (simp_all add: withdraw_approvals_def)

lemma withdrawn_agreement:
  assumes "has_agreement s i" and "\<And>a. which a \<Longrightarrow> da_decision a \<noteq> i"
  shows "has_agreement (withdraw_approvals which subject now s) i"
proof -
  from assms(1) obtain a where "a \<in> set (approvals s)" "da_decision a = i" "da_withdrawn_at a = None"
    by (auto simp: has_agreement_def)
  then show ?thesis using assms(2) [of a]
    by (auto simp: has_agreement_def withdraw_approvals_def in_change intro!: bexI [of _ a] exI [of _ a])
qed

lemma revision_added_base:
  assumes "base_ok s" and "known s i" and "\<not> has_agreement s i" and "dr_decision v = i"
  shows "base_ok (s\<lparr>revisions := revisions s @ [v]\<rparr>)"
proof -
  have "agreement_ok (s\<lparr>revisions := revisions s @ [v]\<rparr>) a" if "a \<in> set (approvals s)" for a
    using that assms by (auto simp: base_ok_def agreement_ok_def second_def has_agreement_def)
  then show ?thesis using assms by (auto simp: base_ok_def known_def)
qed

lemma revised_base:
  assumes "base_ok s" and "\<not> has_agreement s i"
  shows "base_ok (s\<lparr>decisions := change (\<lambda>c. cl_id c = i) (\<lambda>c. c\<lparr>cl_revision := rv\<rparr>) (decisions s)\<rparr>)"
proof -
  let ?ds = "change (\<lambda>c. cl_id c = i) (\<lambda>c. c\<lparr>cl_revision := rv\<rparr>) (decisions s)"
  have ids: "cl_id ` set ?ds = cl_id ` set (decisions s)"
    using change_map [of cl_id "\<lambda>c. c\<lparr>cl_revision := rv\<rparr>" "\<lambda>c. cl_id c = i" "decisions s"]
    by (metis (no_types, lifting) Decision.select_convs(1) Decision.surjective Decision.update_convs(16) set_map)
  have kept: "c \<in> set ?ds" if "c \<in> set (decisions s)" "cl_id c \<noteq> i" for c
    using that by (auto simp: in_change)
  have "agreement_ok (s\<lparr>decisions := ?ds\<rparr>) a" if a: "a \<in> set (approvals s)" for a
    unfolding agreement_ok_def
  proof (intro impI conjI)
    assume standing: "da_withdrawn_at a = None"
    then have other: "da_decision a \<noteq> i" using a assms(2) by (auto simp: has_agreement_def)
    have "agreement_ok s a" using a assms(1) by (simp add: base_ok_def)
    then obtain c where c: "c \<in> set (decisions s)" "cl_id c = da_decision a" "cl_revision c = Some (da_revision a)"
      "cl_proposed_by c \<noteq> da_approved_by a" and sec: "second s (da_decision a) (da_approved_by a)"
      using standing by (auto simp: agreement_ok_def)
    show "\<exists>c \<in> set (decisions (s\<lparr>decisions := ?ds\<rparr>)). cl_id c = da_decision a \<and> cl_revision c = Some (da_revision a)
        \<and> cl_proposed_by c \<noteq> da_approved_by a"
      using kept [OF c(1)] c other by auto
    show "second (s\<lparr>decisions := ?ds\<rparr>) (da_decision a) (da_approved_by a)" using sec by (simp add: second_def)
  qed
  moreover have "numbered cl_id ?ds" using assms(1) by (auto simp: base_ok_def intro: numbered_change)
  ultimately show ?thesis using assms(1) ids by (auto simp: base_ok_def known_def)
qed

lemma retake_frame:
  assumes "retake e anyVersion rows s = Inr t"
  shows "decisions t = decisions s \<and> approvals t = approvals s \<and> revisions t = revisions s
    \<and> (\<forall>x \<in> set (occurrences t). de_state x = Proposed \<and> de_sent_back_at x = None \<and> de_id x \<in> set (map de_id rows)
         \<or> x \<in> set (occurrences s) \<and> de_id x \<notin> set (map de_id rows))"
  using assms
proof (induction e anyVersion rows s arbitrary: t rule: retake.induct)
  case (2 e anyVersion r rows s)
  let ?f = "\<lambda>x. x\<lparr>de_state := Proposed, de_sent_back_at := None, de_ended_at := None,
     de_live_key := Some (liveKeyFor (digest e) (occurrence_of_row e r) anyVersion)\<rparr>"
  let ?rows = "change (\<lambda>x. de_id x = de_id r) ?f (occurrences s)"
  have ok: "unique_keys ?rows" and on: "retake e anyVersion rows (s\<lparr>occurrences := ?rows\<rparr>) = Inr t"
    using 2(2) by (auto simp: Let_def split: if_splits)
  have now: "de_state x = Proposed \<and> de_sent_back_at x = None \<and> de_id x = de_id r
      \<or> x \<in> set (occurrences s) \<and> de_id x \<noteq> de_id r" if "x \<in> set ?rows" for x
  proof -
    from that obtain y where "y \<in> set (occurrences s)" "x = (if de_id y = de_id r then ?f y else y)"
      by (auto simp: in_change)
    then show ?thesis by (cases "de_id y = de_id r") auto
  qed
  note IH = "2.IH" [OF refl ok on]
  have "de_state x = Proposed \<and> de_sent_back_at x = None \<and> de_id x \<in> set (map de_id (r # rows))
      \<or> x \<in> set (occurrences s) \<and> de_id x \<notin> set (map de_id (r # rows))" if x: "x \<in> set (occurrences t)" for x
    using IH x now [of x] by fastforce
  then show ?case using IH by simp
qed simp

lemma retake_base:
  "base_ok s \<Longrightarrow> retake e anyVersion rows s = Inr t \<Longrightarrow> base_ok t"
proof (induction e anyVersion rows s arbitrary: t rule: retake.induct)
  case (2 e anyVersion r rows s)
  let ?f = "\<lambda>x. x\<lparr>de_state := Proposed, de_sent_back_at := None, de_ended_at := None,
     de_live_key := Some (liveKeyFor (digest e) (occurrence_of_row e r) anyVersion)\<rparr>"
  let ?rows = "change (\<lambda>x. de_id x = de_id r) ?f (occurrences s)"
  have ok: "unique_keys ?rows" and on: "retake e anyVersion rows (s\<lparr>occurrences := ?rows\<rparr>) = Inr t"
    using 2(3) by (auto simp: Let_def split: if_splits)
  have "base_ok (s\<lparr>occurrences := ?rows\<rparr>)"
    by (rule rows_change_base [OF 2(2) _ _ _ _ ok]) (simp_all add: Live_def)
  then show ?case using "2.IH" [OF refl ok _ on] by simp
qed simp

lemma revise_parts:
  assumes "Revise e subject i said s = Inr ((v, told), t)"
  obtains d rows s1 s2 s3 where "writableRows e mayDecideOn subject i s = Inr (d, rows, s1)"
    "dr_decision v = i" "dr_body v = said" "dr_written_by v = subject_id subject" "dr_id v = fresh (revisions s)"
    "s2 = withdraw_approvals (\<lambda>a. da_decision a = i) subject (truncated e) (s1\<lparr>revisions := revisions s1 @ [v]\<rparr>)"
    "s3 = s2\<lparr>decisions := change (\<lambda>c. cl_id c = i) (\<lambda>c. c\<lparr>cl_revision := Some (dr_id v)\<rparr>) (decisions s2)\<rparr>"
    "retake e (StandsAtAnyVersion (cl_outcome d)) rows s3 = Inr t"
proof -
  from assms obtain w where w: "writableRows e mayDecideOn subject i s = Inr w" by (auto simp: Revise_def)
  obtain d rows s1 where w3: "w = (d, rows, s1)" by (cases w)
  have same: "revisions s1 = revisions s" using writableRows_frame(4) w w3 by fastforce
  let ?v = "\<lparr>dr_id = fresh (revisions s1), dr_decision = i, dr_ordinal = latest_ordinal i s1 + 1, dr_body = said,
     dr_written_by = subject_id subject, dr_written_at = truncated e\<rparr>"
  let ?s2 = "\<lambda>v. withdraw_approvals (\<lambda>a. da_decision a = i) subject (truncated e) (s1\<lparr>revisions := revisions s1 @ [v]\<rparr>)"
  note made = assms [unfolded Revise_def w and_then_simps w3 prod.case Let_def checked_Inr, THEN conjunct2, THEN conjunct2]
  then obtain t' where t': "retake e (StandsAtAnyVersion (cl_outcome d)) rows
     ((?s2 ?v)\<lparr>decisions := change (\<lambda>c. cl_id c = i) (\<lambda>c. c\<lparr>cl_revision := Some (dr_id ?v)\<rparr>) (decisions (?s2 ?v))\<rparr>) = Inr t'"
    unfolding and_then_Inr by blast
  have v: "v = ?v" "t = t'" using made unfolding t' and_then_simps by simp_all
  have t: "retake e (StandsAtAnyVersion (cl_outcome d)) rows
     ((?s2 v)\<lparr>decisions := change (\<lambda>c. cl_id c = i) (\<lambda>c. c\<lparr>cl_revision := Some (dr_id v)\<rparr>) (decisions (?s2 v))\<rparr>) = Inr t"
    using t' by (simp only: v)
  show thesis by (rule that [OF w [unfolded w3] _ _ _ _ refl refl t]) (simp_all add: same v(1))
qed

lemma no_agreement_left: "\<not> has_agreement (withdraw_approvals (\<lambda>a. da_decision a = i) subject now s) i"
proof
  assume "has_agreement (withdraw_approvals (\<lambda>a. da_decision a = i) subject now s) i"
  then obtain a where a: "da_decision a = i" "da_withdrawn_at a = None"
    "a \<in> set (change (\<lambda>a. da_decision a = i \<and> da_withdrawn_at a = None)
       (\<lambda>a. a\<lparr>da_withdrawn_at := Some now, da_withdrawn_by := Some (subject_id subject)\<rparr>) (approvals s))"
    by (auto simp: has_agreement_def withdraw_approvals_def)
  then obtain b where "a = (if da_decision b = i \<and> da_withdrawn_at b = None
      then b\<lparr>da_withdrawn_at := Some now, da_withdrawn_by := Some (subject_id subject)\<rparr> else b)"
    by (auto simp: in_change)
  then show False using a(1,2) by (cases "da_decision b = i \<and> da_withdrawn_at b = None") auto
qed

lemma withdraw_then_revise:
  "withdraw_approvals which subject now (s\<lparr>revisions := vs\<rparr>) = (withdraw_approvals which subject now s)\<lparr>revisions := vs\<rparr>"
  by (simp add: withdraw_approvals_def)

lemma revising_ok:
  assumes "triage_ok s" and "Revise e subject i said s = Inr ((v, told), t)"
  shows "triage_ok t"
  using assms(2)
proof (rule revise_parts)
  fix d rows s1 s2 s3
  assume w: "writableRows e mayDecideOn subject i s = Inr (d, rows, s1)" and v: "dr_decision v = i"
    and s2: "s2 = withdraw_approvals (\<lambda>a. da_decision a = i) subject (truncated e) (s1\<lparr>revisions := revisions s1 @ [v]\<rparr>)"
    and s3: "s3 = s2\<lparr>decisions := change (\<lambda>c. cl_id c = i) (\<lambda>c. c\<lparr>cl_revision := Some (dr_id v)\<rparr>) (decisions s2)\<rparr>"
    and t: "retake e (StandsAtAnyVersion (cl_outcome d)) rows s3 = Inr t"
  note frame = writableRows_frame [OF w]
  let ?s = "withdraw_approvals (\<lambda>a. da_decision a = i) subject (truncated e) s1"
  have ok: "base_ok s1" "rows_agreed s1" using writableRows_ok [OF assms(1) w] by (simp_all add: triage_ok_def)
  have "known ?s i" using decision_of_frame [OF frame(1)] frame(4) by (auto simp: known_def)
  then have "base_ok s2" unfolding s2 withdraw_then_revise
    using revision_added_base [OF withdraw_approvals_base [OF ok(1)] _ no_agreement_left v] by simp
  moreover have none: "\<not> has_agreement s2 i" unfolding s2 by (rule no_agreement_left)
  ultimately have "base_ok s3" unfolding s3 by (rule revised_base)
  then have base: "base_ok t" using t by (rule retake_base)
  have "rows_agreed t"
    unfolding rows_agreed_def
  proof (intro ballI impI)
    fix x
    assume x: "x \<in> set (occurrences t)" "de_state x = Approved"
    then have old: "x \<in> set (occurrences s1)" "de_id x \<notin> set (map de_id rows)"
      using retake_frame [OF t] unfolding s3 s2 by auto
    then have other: "de_decision x \<noteq> i" using frame(2,4) by (auto simp: in_rows_of)
    have "has_agreement s1 (de_decision x)" using old x ok(2) by (simp add: rows_agreed_def)
    then have "has_agreement ?s (de_decision x)" using other by (auto intro: withdrawn_agreement)
    then show "has_agreement t (de_decision x)"
      using retake_frame [OF t] unfolding s3 s2 withdraw_then_revise by (simp add: has_agreement_def)
  qed
  with base show "triage_ok t" by (rule triage_okI)
qed

lemma withdraw_frame:
  assumes "Withdraw e subject i s = Inr (reopened, t)"
  obtains s1 where "triage_ok s \<Longrightarrow> triage_ok s1" "known s1 i"
    "t = (withdraw_approvals (\<lambda>a. da_decision a = i) subject (truncated e) s1)\<lparr>occurrences :=
       change (\<lambda>r. de_decision r = i \<and> Live (de_state r))
         (\<lambda>r. r\<lparr>de_state := Withdrawn, de_ended_at := Some (truncated e), de_live_key := None\<rparr>) (occurrences s1)\<rparr>"
proof -
  from assms obtain w where w: "writableRows e mayDecideOn subject i s = Inr w" by (auto simp: Withdraw_def)
  obtain d rows s1 where w3: "w = (d, rows, s1)" by (cases w)
  note frame = writableRows_frame [OF w [unfolded w3]]
  have "known s1 i" using decision_of_frame [OF frame(1)] frame(4) by (auto simp: known_def)
  moreover have "triage_ok s \<Longrightarrow> triage_ok s1" using writableRows_ok w w3 by blast
  ultimately show thesis using that assms by (auto simp: Withdraw_def w w3 and_then_simps Let_def)
qed

lemma withdrawing_ok:
  assumes "triage_ok s" and "Withdraw e subject i s = Inr (reopened, t)"
  shows "triage_ok t"
  using assms(2)
proof (rule withdraw_frame)
  fix s1
  assume "triage_ok s \<Longrightarrow> triage_ok s1" and t: "t = (withdraw_approvals (\<lambda>a. da_decision a = i) subject (truncated e) s1)
     \<lparr>occurrences := change (\<lambda>r. de_decision r = i \<and> Live (de_state r))
         (\<lambda>r. r\<lparr>de_state := Withdrawn, de_ended_at := Some (truncated e), de_live_key := None\<rparr>) (occurrences s1)\<rparr>"
  then have ok: "base_ok s1" "rows_agreed s1" using assms(1) by (simp_all add: triage_ok_def)
  let ?s = "withdraw_approvals (\<lambda>a. da_decision a = i) subject (truncated e) s1"
  let ?p = "\<lambda>r. de_decision r = i \<and> Live (de_state r)"
  let ?f = "\<lambda>r. r\<lparr>de_state := Withdrawn, de_ended_at := Some (truncated e), de_live_key := None\<rparr>"
  have base: "base_ok ?s" using withdraw_approvals_base [OF ok(1)] .
  have t: "t = ?s\<lparr>occurrences := change ?p ?f (occurrences ?s)\<rparr>" using t by simp
  have "unique_keys (change ?p ?f (occurrences ?s))"
    using base by (intro held_keys_change) (auto simp: base_ok_def)
  then have "base_ok t" unfolding t by (intro rows_change_base [OF base]) (auto simp: Live_def)
  moreover have "rows_agreed t"
    unfolding rows_agreed_def
  proof (intro ballI impI)
    fix x
    assume x: "x \<in> set (occurrences t)" "de_state x = Approved"
    then obtain y where y: "y \<in> set (occurrences s1)" "x = (if ?p y then ?f y else y)" by (auto simp: t in_change)
    then have "x = y" "de_decision x \<noteq> i" using x(2) by (auto simp: Live_def split: if_splits)
    then have "has_agreement ?s (de_decision x)"
      using x(2) y(1) ok(2) by (auto simp: rows_agreed_def intro: withdrawn_agreement)
    then show "has_agreement t (de_decision x)" by (simp add: t has_agreement_def)
  qed
  ultimately show "triage_ok t" by (rule triage_okI)
qed

lemma restampAll_frame: "restampAll ps s = Inr t \<Longrightarrow> \<exists>x. t = s\<lparr>stamps := x\<rparr>"
proof (induction ps s arbitrary: t rule: restampAll.induct)
  case (1 s)
  then show ?case by (intro exI [of _ "stamps s"]) simp
next
  case (2 i read ps s)
  then obtain s1 where s1: "Restamp i read s = Inr s1" "restampAll ps s1 = Inr t" by auto
  have "\<exists>x. s1 = s\<lparr>stamps := x\<rparr>" using s1(1) by (auto simp: Restamp_def split: if_splits)
  moreover have "\<exists>x. t = s1\<lparr>stamps := x\<rparr>" using "2.IH" s1 by blast
  ultimately show ?case by auto
qed

lemma returned_ok:
  assumes "triage_ok s" and "\<And>a. which a \<Longrightarrow> da_decision a \<in> set ds"
    and "returnToWaiting ds (withdraw_approvals which subject now s) = (n, t)"
  shows "triage_ok t"
proof -
  have ok: "base_ok s" "rows_agreed s" using assms(1) by (simp_all add: triage_ok_def)
  let ?s = "withdraw_approvals which subject now s"
  let ?p = "\<lambda>r. List.member ds (de_decision r) \<and> de_state r = Approved
     \<and> \<not> list_ex (\<lambda>a. da_decision a = de_decision r \<and> da_withdrawn_at a = None) (approvals ?s)"
  let ?f = "\<lambda>r. r\<lparr>de_state := Proposed, de_sent_back_at := None\<rparr>"
  have base: "base_ok ?s" using withdraw_approvals_base [OF ok(1)] .
  have t: "t = ?s\<lparr>occurrences := change ?p ?f (occurrences ?s)\<rparr>"
    using assms(3) by (simp add: returnToWaiting_def Let_def)
  have "unique_keys (change ?p ?f (occurrences ?s))"
    using base by (intro held_keys_change) (auto simp: base_ok_def)
  moreover have "Live (de_state (?f r)) \<longleftrightarrow> de_live_key (?f r) \<noteq> None" if "r \<in> set (occurrences ?s)" "?p r" for r
    using base that by (auto simp: base_ok_def Live_def)
  ultimately have "base_ok t" unfolding t by (intro rows_change_base [OF base]) auto
  moreover have "rows_agreed t"
    unfolding rows_agreed_def
  proof (intro ballI impI)
    fix x
    assume x: "x \<in> set (occurrences t)" "de_state x = Approved"
    then obtain y where y: "y \<in> set (occurrences s)" "x = (if ?p y then ?f y else y)" by (auto simp: t in_change)
    then have same: "x = y" "\<not> ?p x" using x(2) by (auto split: if_splits)
    have "has_agreement ?s (de_decision x)"
    proof (cases "de_decision x \<in> set ds")
      case True
      then show ?thesis using same x(2) by (auto simp: list_ex_iff has_agreement_def)
    next
      case False
      have "has_agreement s (de_decision x)" using ok(2) x(2) y(1) same(1) by (simp add: rows_agreed_def)
      then show ?thesis by (rule withdrawn_agreement) (metis False assms(2))
    qed
    then show "has_agreement t (de_decision x)" by (simp add: t has_agreement_def)
  qed
  ultimately show ?thesis by (rule triage_okI)
qed

lemma undoing_ok:
  assumes "triage_ok s" and "UndoBatch e subject batch s = Inr (undone, t)"
  shows "triage_ok t"
proof -
  define whole where "whole = filter (\<lambda>d. \<not> list_ex (flawed e) (rows_of d s)) (wholeDecisions (covered_by subject batch s) s)"
  define which where "which a \<longleftrightarrow> gave subject batch a \<and> List.member whole (da_decision a)" for a
  obtain n s2 where s2: "returnToWaiting whole (withdraw_approvals which subject (truncated e) s) = (n, s2)" by fastforce
  have "triage_ok s2" by (rule returned_ok [OF assms(1) _ s2]) (simp add: which_def)
  moreover have "t = s \<or> (\<exists>ps. restampAll ps s2 = Inr t)"
    using assms(2) s2 unfolding UndoBatch_def Let_def whole_def [symmetric] which_def [symmetric]
    by (auto split: if_splits)
  ultimately show ?thesis using assms(1) restampAll_frame by fastforce
qed

subsection \<open>Lapsing\<close>

lemma markLapsed_ok: "triage_ok s \<Longrightarrow> triage_ok (markLapsed ids moment s)"
  unfolding markLapsed_def by (erule rows_change_ok) (auto simp: Live_def)

lemma lapse_loop_ok: "triage_ok s \<Longrightarrow> triage_ok (snd (lapse_loop w moment lapsed s))"
proof (induction w moment lapsed s rule: lapse_loop.induct)
  case (1 w moment lapsed s)
  then show ?case by (subst lapse_loop.simps) (simp add: Let_def markLapsed_ok)
qed

lemma lapse_batches_ok: "triage_ok s \<Longrightarrow> triage_ok (snd (lapse_batches which moment batches (lapsed, s)))"
  by (induction batches arbitrary: lapsed s) (simp_all add: markLapsed_ok)

lemma lapsing_ok:
  assumes "triage_ok s"
  shows "Lapse e w s = (lapsed, t) \<Longrightarrow> triage_ok t"
    and "LapseCodeFindings e product named s = (lapsed, t) \<Longrightarrow> triage_ok t"
  using lapse_loop_ok [OF assms, of w "truncated e" "[]"]
    lapse_batches_ok [OF assms, of "dismissed_at product" "truncated e" "batches_of BatchSize named" "[]"]
  by (auto simp: Lapse_def LapseCodeFindings_def split: prod.splits)

subsection \<open>Re-affirming\<close>

lemma carry_ok:
  assumes "triage_ok s" and "d \<in> set (decisions s)" and "cl_proposed_by d = person" and "cl_revision d \<noteq> None"
    and "\<And>v. v \<in> set (revisions s) \<Longrightarrow> dr_decision v = cl_id d \<Longrightarrow> dr_written_by v = person"
    and "\<And>r. r \<in> set (occurrences s) \<Longrightarrow> de_decision r = cl_id d \<Longrightarrow> de_proposed_by r = person"
    and "\<And>r. r \<in> set made \<Longrightarrow> r \<in> set (occurrences s) \<and> de_decision r = cl_id d \<and> de_proposed_by r = person"
    and "carryApproval e made d previous s = Inr t"
  shows "triage_ok t"
proof (cases "made = [] \<or> approvalToCarry (de_decision previous) person s = None")
  case True
  then have "t = s" using assms(7,8) by (cases made) (auto simp: carryApproval_def)
  then show ?thesis using assms(1) by simp
next
  case False
  then obtain one others earlier where made: "made = one # others" and one: "de_proposed_by one = person"
    and earlier: "approvalToCarry (de_decision previous) person s = Some earlier"
    using assms(7) by (cases made) auto
  obtain rv where rv: "cl_revision d = Some rv" using assms(4) by auto
  define a where "a = \<lparr>da_id = fresh (approvals s), da_decision = cl_id d, da_revision = rv,
     da_approved_by = da_approved_by earlier, da_approved_at = truncated e, da_withdrawn_at = None,
     da_withdrawn_by = None, da_batch = None, da_covered = None, da_carried_from = Some (da_id earlier)\<rparr>"
  then have a: "da_decision a = cl_id d" "da_revision a = rv" "da_approved_by a = da_approved_by earlier" "da_withdrawn_at a = None"
    by simp_all
  have t: "approveWhileRevised d rv (map de_id made) (s\<lparr>approvals := approvals s @ [a]\<rparr>) = Inr t"
    using assms(8) unfolding a_def by (simp add: carryApproval_def made one earlier rv)
  have other: "da_approved_by earlier \<noteq> person" using find_Some earlier by (fastforce simp: approvalToCarry_def)
  then have "second s (cl_id d) (da_approved_by earlier)" using assms(5,6) by (auto simp: second_def)
  then have "triage_ok (s\<lparr>approvals := approvals s @ [a]\<rparr>)"
    using assms(1-3) a rv other by (intro approval_added_ok [of _ d]) auto
  moreover have "de_decision r = cl_id d" if "r \<in> set (occurrences s)" "de_id r \<in> set (map de_id made)" for r
  proof -
    from that(2) obtain x where "x \<in> set made" "de_id r = de_id x" by auto
    then show ?thesis using assms(7) [of x] row_ids [OF assms(1) that(1)] by metis
  qed
  ultimately show ?thesis using a by (intro approveWhileRevised_ok [OF _ _ _ t]) (auto simp: has_agreement_def)
qed

text \<open>A decision made again, and what may have been carried onto it.\<close>

lemma made_again_ok:
  assumes "triage_ok s" and "newDecisionNarrowed e k person from selectedBy narrowed p s = (d', s1)"
    and "write_rows e d' ps s1 = Inr (made, s2)" and "\<And>q. q \<in> set ps \<Longrightarrow> By q = person"
    and "t = s2 \<or> carryApproval e made d' previous s2 = Inr t"
  shows "triage_ok t"
proof -
  note ok = newDecision_ok [OF assms(1,2)] and frame = newDecision_frame [OF assms(2)] and wf = write_rows_frame [OF assms(3)]
  have ok2: "triage_ok s2" by (rule write_rows_ok [OF ok(1-3) assms(3)])
  have rows_by: "de_decision x = cl_id d' \<and> de_proposed_by x = person" if "x \<in> set made" for x
    using new_rows_are(1,4) [OF that [unfolded wf(1)]] assms(4) by (auto simp: refiled_def)
  show ?thesis
    using assms(5)
  proof
    assume "carryApproval e made d' previous s2 = Inr t"
    then show ?thesis
    proof (rule carry_ok [OF ok2, rotated -1])
      show "d' \<in> set (decisions s2)" "cl_proposed_by d' = person" "cl_revision d' \<noteq> None"
        using frame wf(2) by simp_all
      show "dr_written_by v = person" if "v \<in> set (revisions s2)" "dr_decision v = cl_id d'" for v
        using ok(5) that wf(2) by simp
      show "de_proposed_by x = person" if "x \<in> set (occurrences s2)" "de_decision x = cl_id d'" for x
        using that ok(4) rows_by wf(2) by auto
      show "x \<in> set (occurrences s2) \<and> de_decision x = cl_id d' \<and> de_proposed_by x = person" if "x \<in> set made" for x
        using that rows_by wf(2) by simp
    qed
  qed (simp add: ok2)
qed

lemma reaffirm_parts:
  assumes "Reaffirm e subject r s = Inr (rows, t)"
  obtains d' p made s1 s2 previous where
    "newDecisionNarrowed e FindingDecision (Remade_by r) None [] None p s = (d', s1)"
    "write_rows e d' [p] s1 = Inr (made, s2)" "By p = Remade_by r" "Proposal_valid (policy e) (clock e) p = None"
    "t = s2 \<or> carryApproval e made d' previous s2 = Inr t"
proof -
  have r: "reaffirm e subject r s = Inr (rows, t)" using assms by (simp add: Reaffirm_def)
  then obtain previous d where prev: "find (\<lambda>x. de_id x = PreviousID r) (occurrences s) = Some previous"
    "decision_of (de_decision previous) s = Some d" by (auto simp: reaffirm_def split: option.splits)
  define full where "full = needsFullApproval previous d (severity_of e (de_product previous) (de_issue previous))
     (approvalToCarry (de_decision previous) (subject_id subject) s \<noteq> None)"
  define p where "p = remade d ((Remade_at r)\<lparr>Occ_Visibility := de_visibility previous\<rparr>) (Remade_reasoning r)
     (Remade_by r) (severity_of e (de_product previous) (de_issue previous)) full"
  obtain d' s1 where new: "newDecisionNarrowed e FindingDecision (Remade_by r) None [] None p s = (d', s1)" by fastforce
  note all = r [unfolded reaffirm_def prev option.case Let_def, folded full_def, folded p_def,
      unfolded newDecision_narrowed new prod.case proposeAll_def checked_Inr]
  note made = all [THEN conjunct2]
  have valid: "Proposal_valid (policy e) (clock e) p = None" using all [THEN conjunct1] by simp
  obtain x where x: "write_rows e d' [p] s1 = Inr x" using made by auto
  obtain made' s2 where w: "write_rows e d' [p] s1 = Inr (made', s2)" using x by (cases x) simp
  have "t = s2 \<or> carryApproval e made' d' previous s2 = Inr t"
    using made unfolding w and_then_simps by (auto split: if_splits)
  moreover have "By p = Remade_by r" by (simp add: p_def remade_def)
  ultimately show thesis using that new w valid by blast
qed

lemma reaffirming_ok:
  assumes "triage_ok s" and "Reaffirm e subject r s = Inr (rows, t)"
  shows "triage_ok t"
  using assms(2)
proof (rule reaffirm_parts)
  fix d' p made s1 s2 previous
  assume "newDecisionNarrowed e FindingDecision (Remade_by r) None [] None p s = (d', s1)"
    and "write_rows e d' [p] s1 = Inr (made, s2)" and "By p = Remade_by r"
    and "t = s2 \<or> carryApproval e made d' previous s2 = Inr t"
  then show "triage_ok t" by (intro made_again_ok [OF assms(1)]) auto
qed

lemma remake_at_by:
  assumes "\<And>at. By (again at) = person" and "\<And>q. q \<in> set ps \<Longrightarrow> By q = person"
    and "remake_at l again key places (done', past, ps) = (done'', past', qs)" and "q \<in> set qs"
  shows "By q = person"
  using assms(2-4)
proof (induction places arbitrary: done' past ps)
  case (Cons at places)
  let ?w = "(key, ComponentUpstream at, ConsumerUpstream at)"
  have more: "By q = person" if "q \<in> set (ps @ [again at])" for q using that Cons.prems(1) assms(1) by auto
  consider "remake_at l again key places (done', past, ps) = (done'', past', qs)"
    | "remake_at l again key places (?w # done', True, ps) = (done'', past', qs)"
    | "remake_at l again key places (?w # done', past, ps @ [again at]) = (done'', past', qs)"
    using Cons.prems(2) by (simp add: Let_def split: if_splits)
  then show ?case
  proof cases
    case 1
    show ?thesis by (rule Cons.IH [OF Cons.prems(1) 1 Cons.prems(3)])
  next
    case 2
    show ?thesis by (rule Cons.IH [OF Cons.prems(1) 2 Cons.prems(3)])
  next
    case 3
    show ?thesis by (rule Cons.IH [OF more 3 Cons.prems(3)])
  qed
qed auto

lemma remake_rows_by:
  assumes "\<And>r at. By (again r at) = person" and "\<And>q. q \<in> set ps \<Longrightarrow> By q = person"
    and "remake_rows l again rows (done', past, ps) = (done'', past', qs)" and "q \<in> set qs"
  shows "By q = person"
  using assms(2-4)
proof (induction rows arbitrary: done' past ps)
  case (Cons r rows)
  let ?key = "(de_product r, de_issue r, de_identity r)"
  obtain d p qs' where at: "remake_at l (again r) ?key (atVersions r (where_now l ?key)) (done', past, ps) = (d, p, qs')"
    by (metis prod_cases3)
  show ?case
  proof (rule Cons.IH)
    show "By q' = person" if "q' \<in> set qs'" for q'
      using remake_at_by [of "again r", OF assms(1) Cons.prems(1) at that] by simp
    show "remake_rows l again rows (d, p, qs') = (done'', past', qs)" using Cons.prems(2) at by (simp add: Let_def)
  qed (rule Cons.prems(3))
qed auto

lemma plan_by:
  assumes "planReaffirm e l subject i said person s = Inr plan"
  shows "q \<in> set (plan_proposals plan) \<Longrightarrow> By q = person" and "plan_proposals plan \<noteq> []"
proof -
  obtain previous where prev: "decision_of i s = Some previous"
    using assms by (auto simp: planReaffirm_def split: option.splits)
  let ?again = "\<lambda>r at. remade previous (at\<lparr>Occ_Visibility := de_visibility r\<rparr>) said person
     (severity_of e (de_product r) (de_issue r)) (list_ex (\<lambda>r. needsFullApproval r previous
       (severity_of e (de_product r) (de_issue r)) (approvalToCarry i (subject_id subject) s \<noteq> None)) (lapsed_rows e s i))"
  obtain done' past ps where all: "remake_rows l ?again (lapsed_rows e s i) ([], False, []) = (done', past, ps)"
    by (rule prod_cases3)
  note made = assms [unfolded planReaffirm_def prev option.case Let_def all prod.case checked_Inr, THEN conjunct2]
  have "ps \<noteq> []" using made [THEN conjunct1] by auto
  moreover have "plan_proposals plan = ps" using made [THEN conjunct2] by auto
  ultimately have plan: "plan_proposals plan = ps" "ps \<noteq> []" by simp_all
  then show "plan_proposals plan \<noteq> []" by simp
  show "By q = person" if "q \<in> set (plan_proposals plan)"
  proof (rule remake_rows_by [OF _ _ all])
    show "By (?again r at) = person" for r at by (simp add: remade_def)
    show "By x = person" if "x \<in> set []" for x using that by simp
    show "q \<in> set ps" using that plan(1) by simp
  qed
qed

lemma writeReaffirm_parts:
  assumes "writeReaffirm e plan s = Inr (out, t)"
  obtains d' made s1 s2 where
    "newDecisionNarrowed e FindingDecision (By (hd (plan_proposals plan))) (Some (cl_id (plan_previous plan))) [] None
       (hd (plan_proposals plan)) s = (d', s1)"
    "write_rows e d' (plan_proposals plan) s1 = Inr (made, s2)"
    "t = s2 \<or> carryApproval e made d' (hd (plan_lapsed plan)) s2 = Inr t"
proof -
  let ?one = "hd (plan_proposals plan)"
  obtain d' s1 where new: "newDecisionNarrowed e FindingDecision (By ?one) (Some (cl_id (plan_previous plan))) [] None ?one s = (d', s1)"
    by fastforce
  note made = assms [unfolded writeReaffirm_def Let_def newDecision_narrowed new prod.case proposeAll_def]
  then obtain x where x: "write_rows e d' (plan_proposals plan) s1 = Inr x" by auto
  obtain made' s2 where w: "write_rows e d' (plan_proposals plan) s1 = Inr (made', s2)" using x by (cases x) simp
  have "t = s2 \<or> carryApproval e made' d' (hd (plan_lapsed plan)) s2 = Inr t"
    using made unfolding w and_then_simps by (auto split: if_splits)
  then show thesis by (rule that [OF new w])
qed

lemma writeReaffirm_ok:
  assumes "triage_ok s" and "\<And>q. q \<in> set (plan_proposals plan) \<Longrightarrow> By q = person" and "plan_proposals plan \<noteq> []"
    and "writeReaffirm e plan s = Inr (out, t)"
  shows "triage_ok t"
  using assms(4)
proof (rule writeReaffirm_parts)
  fix d' made s1 s2
  assume new: "newDecisionNarrowed e FindingDecision (By (hd (plan_proposals plan))) (Some (cl_id (plan_previous plan))) [] None
       (hd (plan_proposals plan)) s = (d', s1)"
    and w: "write_rows e d' (plan_proposals plan) s1 = Inr (made, s2)"
    and t: "t = s2 \<or> carryApproval e made d' (hd (plan_lapsed plan)) s2 = Inr t"
  have "By q = By (hd (plan_proposals plan))" if "q \<in> set (plan_proposals plan)" for q
    using assms(2,3) that by (metis list.set_sel(1))
  then show "triage_ok t" by (rule made_again_ok [OF assms(1) new w _ t])
qed

lemma plan_all_by:
  "plan_all e l subject said person ids s = Inr plans \<Longrightarrow> plan \<in> set plans
    \<Longrightarrow> (\<forall>q \<in> set (plan_proposals plan). By q = person) \<and> plan_proposals plan \<noteq> []"
  by (induction ids arbitrary: plans) (auto dest: plan_by)

lemma write_all_ok:
  assumes "write_all e plans s = Inr (out, t)" and "triage_ok s"
    and "\<And>plan. plan \<in> set plans \<Longrightarrow> (\<forall>q \<in> set (plan_proposals plan). By q = person) \<and> plan_proposals plan \<noteq> []"
  shows "triage_ok t"
  using assms
proof (induction plans arbitrary: out s)
  case (Cons plan plans)
  then obtain made s1 out' where w: "writeReaffirm e plan s = Inr (made, s1)" "write_all e plans s1 = Inr (out', t)"
    by auto
  have "triage_ok s1" by (rule writeReaffirm_ok [OF Cons.prems(2) _ _ w(1)]) (use Cons.prems(3) in auto)
  then show ?case by (rule Cons.IH [OF w(2)]) (use Cons.prems(3) in auto)
qed simp

lemma reaffirming_many_ok:
  assumes "triage_ok s"
  shows "ReaffirmDecision e l subject again s = Inr (out, t) \<Longrightarrow> triage_ok t"
    and "ReaffirmMany e l subject many s = Inr (outs, t) \<Longrightarrow> triage_ok t"
proof -
  show "triage_ok t" if again: "ReaffirmDecision e l subject again s = Inr (out, t)"
  proof -
    obtain plan where plan: "planReaffirm e l subject (again_decision again) (again_said again) (again_by again) s = Inr plan"
      "writeReaffirm e plan s = Inr (out, t)" using again unfolding ReaffirmDecision_def checked_Inr and_then_Inr by blast
    then show ?thesis using writeReaffirm_ok [OF assms] plan_by [OF plan(1)] by blast
  qed
  show "triage_ok t" if again: "ReaffirmMany e l subject many s = Inr (outs, t)"
  proof -
    obtain plans where plans: "plan_all e l subject (many_said many) (many_by many) (sort (remdups (many_decisions many))) s = Inr plans"
      "write_all e plans s = Inr (outs, t)" using again unfolding ReaffirmMany_def Let_def checked_Inr and_then_Inr by blast
    then show ?thesis using write_all_ok [OF plans(2) assms] plan_all_by [OF plans(1)] by blast
  qed
qed

subsection \<open>In bulk, onto a new line, past a severity\<close>

lemma recorded_ok:
  assumes "triage_ok s" and "newDecisionNarrowed e k person from selectedBy narrowed p s = (d', s1)"
    and "write_rows e d' ps s1 = Inr (made, t)"
  shows "triage_ok t"
  by (rule write_rows_ok [OF newDecision_ok(1-3) [OF assms(1,2)] assms(3)])

lemma bulk_ok:
  assumes "triage_ok s" and "BulkDecision_act e subject at found narrowed p bounds s = Inr (out, t)"
  shows "triage_ok t"
proof -
  obtain left skipped where l: "(if SkipDecided at then leavingDecided e s found else (found, [])) = (left, skipped)"
    by (metis prod.exhaust)
  obtain d' s1 where new: "newDecisionNarrowed e BulkDecision (subject_id subject) None (selected_by p) (Some narrowed) p s = (d', s1)"
    by fastforce
  have "\<exists>made. write_rows e d' (map (bulk_proposal p) left) s1 = Inr (made, t)"
    using assms(2) unfolding BulkDecision_act_def l prod.case new proposeAll_def by auto
  then show ?thesis using recorded_ok [OF assms(1) new] by blast
qed

lemma carry_loop_ok:
  "triage_ok s \<Longrightarrow> carry_loop e l subject wanted n s = Inr (m, t) \<Longrightarrow> triage_ok t"
proof (induction wanted arbitrary: n s)
  case (Cons one wanted)
  obtain r old where found: "find (\<lambda>r. de_id r = in_row one) (occurrences s) = Some r" "decision_of (de_decision r) s = Some old"
    using Cons.prems(2) by (auto split: option.splits)
  let ?p = "carried_proposal e l subject r old (in_reasoning one)"
  obtain d' s1 where new: "newDecisionNarrowed e FindingDecision (subject_id subject) None carried_from None ?p s = (d', s1)"
    by fastforce
  obtain made s2 where w: "write_rows e d' [?p] s1 = Inr (made, s2)" "carry_loop e l subject wanted (n + 1) s2 = Inr (m, t)"
    using Cons.prems(2) unfolding carry_loop.simps found option.case Let_def newDecision_narrowed new prod.case proposeAll_def
    by auto
  show ?case by (rule Cons.IH [OF recorded_ok [OF Cons.prems(1) new w(1)] w(2)])
qed simp

lemma mark_chunks_ok: "triage_ok s \<Longrightarrow> mark_chunks moment chunks s = Inr t \<Longrightarrow> triage_ok t"
  by (induction chunks arbitrary: s) (auto dest: markLapsed_ok split: if_splits)

lemma carrying_ok:
  assumes "triage_ok s"
  shows "Carry e subject l chosen bounds s = Inr (n, t) \<Longrightarrow> triage_ok t"
    and "LapseRatedWorse e c w s = Inr (out, t) \<Longrightarrow> triage_ok t"
  using carry_loop_ok [OF assms] mark_chunks_ok [OF assms] assms
  by (auto simp: Carry_def LapseRatedWorse_def Let_def split: if_splits)

subsection \<open>Whatever is done\<close>

lemma by_ok: "triage_by e s t \<Longrightarrow> triage_ok s \<Longrightarrow> triage_ok t"
  by (induction rule: triage_by.induct)
    (auto simp: split_paired_all intro: proposing_ok approving_ok splitting_ok sending_back_ok revising_ok
      withdrawing_ok undoing_ok lapsing_ok reaffirming_ok
      bulk_ok reaffirming_many_ok carrying_ok)

lemma act_ok: "triage_act s t \<Longrightarrow> triage_ok s \<Longrightarrow> triage_ok t"
  by (auto elim: triage_act.cases intro: by_ok)

lemma reachable_ok: "triage_act\<^sup>*\<^sup>* no_tables s \<Longrightarrow> triage_ok s"
  by (induction rule: rtranclp_induct) (auto intro: no_tables_ok act_ok)

end
