(* ===== verification/Triage_Writes.thy ===== *)
theory Triage_Writes
  imports Triage_Invariant
begin

section \<open>Every act is a sequence of elementary writes\<close>

text \<open>
  What an act does to the decisions and their rows comes down to six writes: something beside them
  changes, a decision is recorded, rows that wait are recorded, rows move to anything but approved,
  the reasoning a decision rests on is replaced, and rows are approved that no standing incident
  refuses. Each act of the triage store is a sequence of these, so what holds under each of them
  holds under every act.
\<close>

lemma find_after: "find p xs = None \<Longrightarrow> find p (xs @ ys) = find p ys" by (induction xs) auto

lemma find_before: "find p xs = Some x \<Longrightarrow> find p (xs @ ys) = Some x" by (induction xs) auto

subsection \<open>The writes\<close>

definition let_stand :: "env \<Rightarrow> tables \<Rightarrow> DecisionOccurrence \<Rightarrow> bool" where
  "let_stand e s r \<longleftrightarrow> (case decision_of (de_decision r) s of None \<Rightarrow> False
     | Some c \<Rightarrow> refuseIncident e s c [(de_product r, de_issue r)] = None)"

text \<open>
  An outcome the deployment knows, or one a decision already has; and a decision made from nothing,
  or from one that is there.
\<close>

definition outcome_known :: "tables \<Rightarrow> Outcome \<Rightarrow> bool" where
  "outcome_known s out \<longleftrightarrow> out \<in> set Outcomes \<or> out \<in> set (map cl_outcome (decisions s))"

definition from_known :: "tables \<Rightarrow> int option \<Rightarrow> bool" where
  "from_known s from \<longleftrightarrow> (case from of None \<Rightarrow> True | Some i \<Rightarrow> decision_of i s \<noteq> None)"

lemma from_known_simps [simp]: "from_known s None" "from_known s (Some i) \<longleftrightarrow> decision_of i s \<noteq> None"
  by (simp_all add: from_known_def)

text \<open>A row that holds a key holds the one its place, as it is read, and its decision give.\<close>

definition held_under :: "env \<Rightarrow> Decision \<Rightarrow> DecisionOccurrence \<Rightarrow> string" where
  "held_under e c r = LiveKey (digest e) (de_product r) (issue_of e (de_issue r)) (de_identity r)
     (orEmpty (de_component_version r)) (orEmpty (de_consumer_version r)) (StandsAtAnyVersion (cl_outcome c))"

definition keyed :: "env \<Rightarrow> tables \<Rightarrow> DecisionOccurrence \<Rightarrow> bool" where
  "keyed e s r \<longleftrightarrow> (case de_live_key r of None \<Rightarrow> True
     | Some k \<Rightarrow> (\<exists>c. decision_of (de_decision r) s = Some c \<and> k = held_under e c r))"

text \<open>What a row is about, which no act changes.\<close>

definition about :: "DecisionOccurrence \<Rightarrow> int \<times> int \<times> string \<times> string option \<times> string option \<times> int" where
  "about r = (de_product r, de_issue r, de_identity r, de_component_version r, de_consumer_version r, de_decision r)"

lemma keyed_like:
  "de_live_key r' = de_live_key r \<Longrightarrow> about r' = about r \<Longrightarrow> decisions t = decisions s \<Longrightarrow> keyed e t r' = keyed e s r"
  by (simp add: keyed_def about_def held_under_def decision_of_def cong: option.case_cong)

inductive writes :: "env \<Rightarrow> tables \<Rightarrow> tables \<Rightarrow> bool" for e where
  beside: "decisions t = decisions s \<Longrightarrow> occurrences t = occurrences s \<Longrightarrow> writes e s t"
| decides: "decisions t = decisions s @ [d] \<Longrightarrow> occurrences t = occurrences s
    \<Longrightarrow> outcome_known s (cl_outcome d) \<Longrightarrow> from_known s (cl_derived_from d) \<Longrightarrow> writes e s t"
| records: "decisions t = decisions s \<Longrightarrow> occurrences t = occurrences s @ rows
    \<Longrightarrow> \<forall>r \<in> set rows. de_state r = Proposed \<and> keyed e s r \<Longrightarrow> writes e s t"
| moves: "decisions t = decisions s \<Longrightarrow> occurrences t = change p f (occurrences s)
    \<Longrightarrow> \<forall>r. de_id (f r) = de_id r \<and> de_product (f r) = de_product r \<and> de_issue (f r) = de_issue r
    \<Longrightarrow> \<forall>r \<in> set (occurrences s). p r \<longrightarrow> de_state (f r) \<noteq> Approved
    \<Longrightarrow> \<forall>r \<in> set (occurrences s). p r \<longrightarrow> keyed e s r \<longrightarrow> keyed e s (f r) \<Longrightarrow> writes e s t"
| rests: "decisions t = change p (\<lambda>c. c\<lparr>cl_revision := rv\<rparr>) (decisions s)
    \<Longrightarrow> occurrences t = occurrences s \<Longrightarrow> writes e s t"
| agrees: "decisions t = decisions s \<Longrightarrow> occurrences t = change p (\<lambda>r. r\<lparr>de_state := Approved\<rparr>) (occurrences s)
    \<Longrightarrow> \<forall>r \<in> set (occurrences s). p r \<longrightarrow> let_stand e s r \<Longrightarrow> writes e s t"

abbreviation written_by :: "env \<Rightarrow> tables \<Rightarrow> tables \<Rightarrow> bool" where
  "written_by e \<equiv> (writes e)\<^sup>*\<^sup>*"

lemma one_write: "writes e s t \<Longrightarrow> written_by e s t" by (rule r_into_rtranclp)

lemma then_write: "written_by e s t \<Longrightarrow> writes e t u \<Longrightarrow> written_by e s u" by (rule rtranclp.rtrancl_into_rtrancl)

lemma write_then: "writes e s t \<Longrightarrow> written_by e t u \<Longrightarrow> written_by e s u" by (rule converse_rtranclp_into_rtranclp)

lemma written_trans: "written_by e s t \<Longrightarrow> written_by e t u \<Longrightarrow> written_by e s u" by (rule rtranclp_trans)

lemma beside_frames [simp]:
  "writes e s (s\<lparr>stamps := x\<rparr>)" "writes e s (s\<lparr>comments := y\<rparr>)" "writes e s (s\<lparr>approvals := z\<rparr>)"
  "writes e s (s\<lparr>revisions := w\<rparr>)" "writes e s (withdraw_approvals which subject now s)"
  by (simp_all add: writes.beside withdraw_approvals_def)

lemma newDecision_from: "newDecisionNarrowed e k by' from selectedBy narrowed p s = (d, t) \<Longrightarrow> cl_derived_from d = from"
  by (auto simp: newDecisionNarrowed_def Let_def)

lemma new_decision_written:
  "newDecisionNarrowed e k by' from selectedBy narrowed p s = (d, t) \<Longrightarrow> outcome_known s (outcome p)
    \<Longrightarrow> from_known s from \<Longrightarrow> writes e' s t"
  using newDecision_frame(1,4,7) newDecision_from by (metis writes.decides)

lemma valid_known: "Proposal_valid policy' now p = None \<Longrightarrow> outcome_known s (outcome p)"
  by (auto simp: outcome_known_def Proposal_valid_def Outcome_Valid_def list_ex_iff refuse_if_def split: if_splits)

lemma decision_known: "decision_of i s = Some d \<Longrightarrow> outcome_known s (cl_outcome d)"
  using decision_of_frame unfolding outcome_known_def by fastforce

lemma permitted_known:
  assumes "permitted e subject ps = None" and "p \<in> set ps"
  shows "outcome_known s (outcome p)"
  using assms by (auto simp: permitted_def permitted_one_def list_all_iff intro: valid_known)

lemma gated_outcome: "ps \<noteq> [] \<Longrightarrow> outcome (hd (gate e s ps)) = outcome (hd ps)"
  by (cases ps) (auto simp: gate_def bind_def Let_def split: list.splits)

lemma found_stays:
  assumes "writes e s t" and "decision_of i s \<noteq> None"
  shows "decision_of i t \<noteq> None"
proof -
  have there: "decision_of i x \<noteq> None \<longleftrightarrow> i \<in> set (map cl_id (decisions x))" for x
    by (auto simp: decision_of_def find_None_iff)
  have "set (map cl_id (decisions s)) \<subseteq> set (map cl_id (decisions t))"
    using assms(1) by (cases rule: writes.cases) (auto simp: change_map simp del: set_map)
  then show ?thesis using assms(2) unfolding there by blast
qed

lemma found_stays_on: "written_by e s t \<Longrightarrow> decision_of i s \<noteq> None \<Longrightarrow> decision_of i t \<noteq> None"
  by (induction rule: rtranclp_induct) (auto dest: found_stays simp del: not_None_eq)

lemma known_stays: "writes e s t \<Longrightarrow> outcome_known s out \<Longrightarrow> outcome_known t out"
  by (cases rule: writes.cases) (auto simp: outcome_known_def change_map simp del: set_map)

lemma known_stays_on: "written_by e s t \<Longrightarrow> outcome_known s out \<Longrightarrow> outcome_known t out"
  by (induction rule: rtranclp_induct) (auto intro: known_stays)

text \<open>An issue that is read as another is not read through it as a third.\<close>

definition settled_issues :: "env \<Rightarrow> bool" where
  "settled_issues e \<longleftrightarrow> (\<forall>i. issue_of e (issue_of e i) = issue_of e i)"

lemma read_key [simp]:
  "LiveKey h product issue at (orEmpty (text_read component)) (orEmpty (text_read consumer)) any
    = LiveKey h product issue at component consumer any"
  by (simp add: LiveKey_def text_read_def version_read_def orEmpty_def)

lemma new_rows_keyed:
  assumes "r \<in> set (new_rows e d (map (refiled e) ps) i)" and "settled_issues e" and "decision_of (cl_id d) s = Some d"
  shows "keyed e s r"
  using assms by (auto simp: new_rows_def disclosedSince_def Let_def in_change row_def refiled_def in_set_enumerate_eq
      keyed_def held_under_def settled_issues_def liveKeyFor_def split: if_splits)

lemma write_rows_written:
  "write_rows e d ps s = Inr (rows, t) \<Longrightarrow> settled_issues e \<Longrightarrow> decision_of (cl_id d) s = Some d \<Longrightarrow> writes e s t"
  by (rule writes.records [where rows = rows])
    (auto simp: write_rows_frame dest: write_rows_frame new_rows_are(2) new_rows_keyed)

lemma writableRows_written: "writableRows e' rule subject i s = Inr (d, rows, t) \<Longrightarrow> writes e s t"
  using writableRows_frame(4) by fastforce

lemma sayOn_written: "sayOn e' subject i body s = Inr t \<Longrightarrow> writes e s t"
  using sayOn_frame by fastforce

lemma restampAll_written: "restampAll ps s = Inr t \<Longrightarrow> writes e s t"
  using restampAll_frame by fastforce

lemma moved_written:
  assumes "\<And>r. de_id (f r) = de_id r \<and> de_product (f r) = de_product r \<and> de_issue (f r) = de_issue r"
    and "\<And>r. p r \<Longrightarrow> de_state (f r) \<noteq> Approved"
    and "\<And>r. r \<in> set (occurrences s) \<Longrightarrow> p r \<Longrightarrow> keyed e s r \<Longrightarrow> keyed e s (f r)"
  shows "writes e s (s\<lparr>occurrences := change p f (occurrences s)\<rparr>)"
  by (rule writes.moves [where p = p and f = f]) (use assms in auto)

lemma markLapsed_written [simp]: "writes e s (markLapsed ids moment s)"
  unfolding markLapsed_def by (rule moved_written) (auto simp: keyed_def)

subsection \<open>Proposing, agreeing, splitting, sending back\<close>

lemma new_decision_found:
  assumes "triage_ok s" and "newDecisionNarrowed e k by' from selectedBy narrowed p s = (d, t)"
  shows "decision_of (cl_id d) t = Some d"
proof -
  note frame = newDecision_frame [OF assms(2)]
  have "\<forall>c \<in> set (decisions s). cl_id c \<noteq> cl_id d"
    using assms(1) frame(3) numbered_fresh by (fastforce simp: triage_ok_def base_ok_def)
  then have "find (\<lambda>c. cl_id c = cl_id d) (decisions s) = None" by (simp add: find_None_iff)
  then show ?thesis by (simp add: decision_of_def frame(4) find_after)
qed

lemma recorded_written:
  assumes "newDecisionNarrowed e k by' from selectedBy narrowed p s = (d, s1)" and "outcome_known s (outcome p)"
    and "from_known s from" and "write_rows e d ps s1 = Inr (rows, t)" and "triage_ok s" and "settled_issues e"
  shows "written_by e s t"
  by (rule then_write [OF one_write [OF new_decision_written [OF assms(1-3)]]
      write_rows_written [OF assms(4,6) new_decision_found [OF assms(5,1)]]])

lemma propose_as_written:
  assumes "propose_as e k by' from carried ps s = Inr (rows, t)" and "permitted e subject ps = None" and "ps \<noteq> []"
    and "\<And>p. outcome (carried p) = outcome p" and "from_known s from" and "triage_ok s" and "settled_issues e"
  shows "written_by e s t"
proof -
  obtain d s1 where d: "newDecisionNarrowed e k by' from [] None (carried (hd (gate e s ps))) s = (d, s1)" by fastforce
  then have "write_rows e d (gate e s ps) s1 = Inr (rows, t)"
    using assms(1) by (simp add: propose_as_def Let_def newDecision_narrowed proposeAll_def)
  moreover have "outcome_known s (outcome (carried (hd (gate e s ps))))"
    using assms(3,4) gated_outcome permitted_known [OF assms(2)] by simp
  ultimately show ?thesis using assms(5-7) by (intro recorded_written [OF d])
qed

lemma proposing_written:
  assumes ok: "triage_ok s" and settled: "settled_issues e"
  shows "Propose e subject p s = Inr (rows, t) \<Longrightarrow> written_by e s t"
    and "ProposeMany e subject ps s = Inr (rows, t) \<Longrightarrow> written_by e s t"
    and "ProposeGrouped e subject p others s = Inr (rows, t) \<Longrightarrow> written_by e s t"
    and "Extend e subject i ps s = Inr (rows, t) \<Longrightarrow> written_by e s t"
proof -
  note as = propose_as_written [where carried = "\<lambda>q. q" and subject = subject, OF _ _ _ _ _ ok settled]
  show "Propose e subject p s = Inr (rows, t) \<Longrightarrow> written_by e s t"
    by (auto simp: Propose_def permitted_def intro: as)
  show "ProposeMany e subject ps s = Inr (rows, t) \<Longrightarrow> written_by e s t"
    by (auto simp: ProposeMany_def allowed_def intro: as split: if_splits)
  show "ProposeGrouped e subject p others s = Inr (rows, t) \<Longrightarrow> written_by e s t"
    by (auto simp: ProposeGrouped_def allowed_def Let_def intro: as)
  show "Extend e subject i ps s = Inr (rows, t) \<Longrightarrow> written_by e s t"
    using decision_of_frame ok settled by (fastforce simp: Extend_def allowed_def extendable_def Let_def
        split: if_splits option.splits elim!: propose_as_written [where subject = subject])
qed

text \<open>A refusal asked of all the rows is no refusal at any one of them.\<close>

lemma let_stand_each:
  assumes "refuseIncident e s d places = None" and "(de_product r, de_issue r) \<in> set places"
    and "decision_of (de_decision r) s = Some d"
  shows "let_stand e s r"
  using assms by (auto simp: let_stand_def refuseIncident_def Let_def list_ex_iff split: sum.splits if_splits)

lemma approveWhileRevised_written:
  assumes "approveWhileRevised d rv ids s = Inr t"
    and "\<And>r. r \<in> set (occurrences s) \<Longrightarrow> de_id r \<in> set ids \<Longrightarrow> let_stand e s r"
  shows "writes e s t"
  unfolding approveWhileRevised_frame [OF assms(1)]
  by (rule writes.agrees [where p = "\<lambda>r. List.member ids (de_id r) \<and> de_state r = Proposed
      \<and> list_ex (\<lambda>c. cl_id c = cl_id d \<and> cl_revision c = Some rv) (decisions s)"]) (use assms(2) in auto)

lemma let_stand_frame:
  "decisions t = decisions s \<Longrightarrow> let_stand e t r = let_stand e s r"
proof -
  assume same: "decisions t = decisions s"
  then have "overMany n t d = overMany n s d" for n d
    by (induction n s d rule: overMany.induct) (auto simp: decision_of_def split: DecisionKind.splits option.splits)
  then show ?thesis using same by (simp add: let_stand_def refuseIncident_def decision_of_def Let_def cong: option.case_cong)
qed

lemma agree_written:
  assumes "agree e' subject d rv ids batch s = Inr t"
    and "\<And>r. r \<in> set (occurrences s) \<Longrightarrow> de_id r \<in> set ids \<Longrightarrow> let_stand e s r"
  shows "written_by e s t"
proof -
  obtain a where a: "approveWhileRevised d rv ids (s\<lparr>approvals := a\<rparr>) = Inr t"
    using assms(1) unfolding agree_def Let_def checked_Inr by blast
  have "writes e (s\<lparr>approvals := a\<rparr>) t"
    by (rule approveWhileRevised_written [OF a]) (use assms(2) let_stand_frame [of "s\<lparr>approvals := a\<rparr>" s] in simp)
  then show ?thesis using one_write [OF beside_frames(3)] by (rule then_write [rotated])
qed

lemma intoReturned_written:
  assumes "intoReturned e' subject d ids because s = Inr (returned, t)" and "decision_of (cl_id d) s = Some d" and "triage_ok s"
  shows "written_by e s t"
proof -
  obtain said where r: "reasoningOn d s = Inr said" using assms(1) by (auto simp: intoReturned_def)
  obtain d' s1 where new: "newDecisionNarrowed e' ReturnedDecision (cl_proposed_by d) (Some (cl_id d))
      (orEmpty (cl_selected_by d)) None ((argument d blank)\<lparr>reasoning := said\<rparr>) s = (d', s1)"
    by fastforce
  let ?p = "\<lambda>r. List.member ids (de_id r) \<and> de_decision r = cl_id d \<and> de_state r = Proposed"
  let ?f = "\<lambda>r. r\<lparr>de_decision := cl_id d', de_sent_back_at := Some (truncated e')\<rparr>"
  let ?s2 = "s1\<lparr>occurrences := change ?p ?f (occurrences s1)\<rparr>"
  have say: "sayOn e' subject (cl_id d') because ?s2 = Inr t"
    using assms(1) by (auto simp: intoReturned_def r and_then_simps newDecision_narrowed new Let_def)
  have "outcome_known s (cl_outcome d)" "from_known s (Some (cl_id d))"
    using decision_known [OF assms(2)] assms(2) by simp_all
  then have "writes e s s1" by (intro new_decision_written [OF new]) (simp_all add: argument_def)
  moreover have "writes e s1 ?s2"
  proof (rule moved_written)
    fix r
    assume "?p r" "keyed e s1 r"
    moreover have "decision_of (cl_id d) s1 = Some d"
      using assms(2) find_before by (simp add: decision_of_def newDecision_frame(4) [OF new])
    moreover have "decision_of (cl_id d') s1 = Some d'" by (rule new_decision_found [OF assms(3) new])
    moreover have "cl_outcome d' = cl_outcome d" using newDecision_frame(7) [OF new] by (simp add: argument_def)
    ultimately show "keyed e s1 (?f r)" by (auto simp: keyed_def held_under_def split: option.splits)
  qed auto
  ultimately show ?thesis using sayOn_written [OF say] by (intro then_write [OF then_write [OF one_write]])
qed

lemma found_on:
  assumes "written_by e s t" and "decision_of i s = Some d"
  shows "\<exists>c. decision_of i t = Some c \<and> (\<exists>rv. c = d\<lparr>cl_revision := rv\<rparr>)"
  using assms(1)
proof (induction rule: rtranclp_induct)
  case base
  then show ?case using assms(2) by (intro exI [of _ d]) (auto intro: exI [of _ "cl_revision d"])
next
  case (step t u)
  then obtain c rv where c: "decision_of i t = Some c" "c = d\<lparr>cl_revision := rv\<rparr>" by blast
  from step.hyps(2) show ?case
  proof (cases rule: writes.cases)
    case (decides d')
    then have "decision_of i u = Some c"
      using c(1) find_before [of "\<lambda>c. cl_id c = i" "decisions t"] by (simp add: decision_of_def)
    then show ?thesis using c(2) by blast
  next
    case (rests p rv')
    have "find (\<lambda>c. cl_id c = i) (change p (\<lambda>c. c\<lparr>cl_revision := rv'\<rparr>) xs)
        = map_option (\<lambda>c. if p c then c\<lparr>cl_revision := rv'\<rparr> else c) (find (\<lambda>c. cl_id c = i) xs)" for xs
      by (induction xs) (auto simp: change_def)
    then show ?thesis using c rests by (auto simp: decision_of_def)
  qed (use c in \<open>auto simp: decision_of_def\<close>)
qed

lemma agree_decisions: "agree e subject d rv ids batch s = Inr t \<Longrightarrow> decisions t = decisions s"
  by (auto simp: agree_def Let_def dest: approveWhileRevised_frame)

lemma sort_rows_approving:
  "sort_rows samePerson aside rows = Inr (approving, returning)
    \<Longrightarrow> set approving \<subseteq> set (filter (\<lambda>r. \<not> List.member aside (de_id r)) rows)"
  by (induction rows arbitrary: approving returning) (fastforce split: if_splits)+

lemma refused_at_rows:
  assumes "refuseIfIncidentOn e s d rows = None" and "r \<in> set rows" and "decision_of (de_decision r) s = Some d"
  shows "let_stand e s r"
  by (rule let_stand_each [OF assms(1) [unfolded refuseIfIncidentOn_def] _ assms(3)]) (use assms(2) in auto)

lemma approving_written:
  assumes "triage_ok s" and "ApproveDecision e subject i batch aside because s = Inr (done', t)"
  shows "written_by e s t"
proof -
  have approve: "approveDecision e subject i batch aside because s = Inr (done', t)"
    using assms(2) by (simp add: ApproveDecision_def)
  then show ?thesis
  proof (rule approveDecision_parts)
    fix d rows s1 rv author approving returning s2
    assume w: "writableRows e mayApproveOn subject i s = Inr (d, rows, s1)" and rv: "cl_revision d = Some rv"
      and sorted: "sort_rows (author = subject_id subject \<or> cl_proposed_by d = subject_id subject) aside rows = Inr (approving, returning)"
      and agreed: "(if approving = [] then Inr s1 else agree e subject d rv (map de_id approving) batch s1) = Inr s2"
      and ending: "returning = [] \<and> t = s2 \<or> (\<exists>x. intoReturned e subject d (map de_id returning) because s2 = Inr (x, t))"
    note frame = writableRows_frame [OF w]
    have ok: "triage_ok s1" using writableRows_ok [OF assms(1) w] .
    have clear: "refuseIfIncidentOn e s1 d (filter (\<lambda>r. \<not> List.member aside (de_id r)) rows) = None"
      using approve unfolding approveDecision_def w and_then_simps prod.case rv option.case checked_Inr by blast
    have "let_stand e s1 r" if r: "r \<in> set (occurrences s1)" "de_id r \<in> set (map de_id approving)" for r
    proof -
      from r(2) obtain x where x: "x \<in> set approving" "de_id r = de_id x" by auto
      have kept: "x \<in> set (filter (\<lambda>r. \<not> List.member aside (de_id r)) rows)"
        using sort_rows_approving [OF sorted] x(1) by auto
      then have in_rows: "x \<in> set (occurrences s1)" "de_decision x = i" using frame(2,4) by (auto simp: in_rows_of)
      then have "decision_of (de_decision x) s1 = Some d" using frame(1,4) by (simp add: decision_of_def)
      then have "let_stand e s1 x" by (rule refused_at_rows [OF clear kept])
      then show ?thesis using row_ids [OF ok r(1) in_rows(1) x(2)] by simp
    qed
    then have "written_by e s1 s2"
      using agreed agree_written [of e subject d rv "map de_id approving" batch s1 s2 e] by (cases "approving = []") simp_all
    moreover have "writes e s s1" by (rule writableRows_written [OF w])
    moreover have "decision_of (cl_id d) s2 = Some d"
      using frame(1,4) decision_of_frame [OF frame(1)] agree_decisions [of e subject d rv "map de_id approving" batch s1 s2] agreed
      by (auto simp: decision_of_def split: if_splits)
    then have "written_by e s2 t"
      using ending intoReturned_written agreed_or_not [OF assms(1) w rv sorted agreed] by blast
    ultimately show "written_by e s t" by (blast intro: written_trans one_write)
  qed
qed

lemma splitting_written:
  assumes "triage_ok s" and "Split_decision e' subject i ids because s = Inr (held, t)"
  shows "written_by e s t"
proof -
  from assms(2) obtain w where w: "writableRows e' mayDecideOn subject i s = Inr w" by (auto simp: Split_decision_def)
  obtain d rows s1 where w3: "w = (d, rows, s1)" by (cases w)
  note frame = writableRows_frame [OF w [unfolded w3]]
  obtain held_ids where "intoReturned e' subject d held_ids because s1 = Inr (held, t)"
    using assms(2) by (auto simp: Split_decision_def w w3 and_then_simps Let_def)
  moreover have "decision_of (cl_id d) s1 = Some d"
    using frame(1,4) decision_of_frame [OF frame(1)] by (simp add: decision_of_def)
  ultimately have "written_by e s1 t" using writableRows_ok [OF assms(1) w [unfolded w3]] by (rule intoReturned_written)
  then show ?thesis by (rule write_then [OF writableRows_written [OF w [unfolded w3]]])
qed

lemma sending_back_written:
  assumes "SendBackDecision e subject i because s = Inr (sent, t)"
  shows "written_by e' s t"
proof -
  from assms obtain w where w: "writableRows e mayApproveOn subject i s = Inr w" by (auto simp: SendBackDecision_def)
  obtain d rows s1 where w3: "w = (d, rows, s1)" by (cases w)
  define p :: "DecisionOccurrence \<Rightarrow> bool" where "p r \<longleftrightarrow> List.member (map de_id (filter (\<lambda>r. de_state r = Proposed \<and> de_sent_back_at r = None) rows)) (de_id r)
     \<and> de_state r = Proposed" for r
  have "\<exists>s2. sayOn e subject i because s1 = Inr s2
      \<and> t = s2\<lparr>occurrences := change p (\<lambda>r. r\<lparr>de_sent_back_at := Some (truncated e)\<rparr>) (occurrences s2)\<rparr>"
    using assms unfolding p_def by (auto simp: SendBackDecision_def w w3 and_then_simps Let_def)
  then obtain s2 where s2: "sayOn e subject i because s1 = Inr s2"
    and t: "t = s2\<lparr>occurrences := change p (\<lambda>r. r\<lparr>de_sent_back_at := Some (truncated e)\<rparr>) (occurrences s2)\<rparr>" by blast
  have "writes e' s2 t" unfolding t by (rule moved_written) (auto simp: p_def about_def intro: keyed_like [THEN iffD2])
  then show ?thesis
    by (rule then_write [OF write_then [OF writableRows_written [OF w [unfolded w3]] one_write [OF sayOn_written [OF s2]]]])
qed

subsection \<open>Revising, withdrawing, undoing, lapsing\<close>

lemma retake_written:
  assumes "retake e anyVersion rows s = Inr t" and "settled_issues e"
    and "\<And>x r. x \<in> set (occurrences s) \<Longrightarrow> r \<in> set rows \<Longrightarrow> de_id x = de_id r \<Longrightarrow> about x = about r"
    and "\<And>r. r \<in> set rows \<Longrightarrow> \<exists>c. decision_of (de_decision r) s = Some c \<and> StandsAtAnyVersion (cl_outcome c) = anyVersion"
  shows "written_by e s t"
  using assms
proof (induction e anyVersion rows s arbitrary: t rule: retake.induct)
  case (2 e anyVersion r rows s)
  let ?f = "\<lambda>x. x\<lparr>de_state := Proposed, de_sent_back_at := None, de_ended_at := None,
     de_live_key := Some (liveKeyFor (digest e) (occurrence_of_row e r) anyVersion)\<rparr>"
  let ?rows = "change (\<lambda>x. de_id x = de_id r) ?f (occurrences s)"
  have ok: "unique_keys ?rows" and on: "retake e anyVersion rows (s\<lparr>occurrences := ?rows\<rparr>) = Inr t"
    using "2.prems"(1) by (auto simp: Let_def split: if_splits)
  have "writes e s (s\<lparr>occurrences := ?rows\<rparr>)"
  proof (rule moved_written)
    fix x
    assume "x \<in> set (occurrences s)" "de_id x = de_id r"
    then have "about x = about r" using "2.prems"(3) [of x r] by simp
    then show "keyed e s (?f x)" using "2.prems"(4) [of r]
      by (auto simp: about_def keyed_def held_under_def liveKeyFor_def occurrence_of_row_def)
  qed auto
  moreover have "written_by e (s\<lparr>occurrences := ?rows\<rparr>) t"
  proof (rule "2.IH" [OF refl ok on "2.prems"(2)])
    fix x y
    assume x: "x \<in> set (occurrences (s\<lparr>occurrences := ?rows\<rparr>))" and y: "y \<in> set rows" "de_id x = de_id y"
    then obtain z where "z \<in> set (occurrences s)" "x = (if de_id z = de_id r then ?f z else z)" by (auto simp: in_change)
    then have "z \<in> set (occurrences s)" "de_id z = de_id y" "about x = about z"
      using y(2) by (cases "de_id z = de_id r"; auto simp: about_def)+
    then show "about x = about y" using "2.prems"(3) [of z y] y(1) by simp
  qed (use "2.prems"(4) in \<open>simp add: decision_of_def\<close>)
  ultimately show ?case by (rule write_then)
qed simp

lemma revising_written:
  assumes "triage_ok s" and "settled_issues e" and "Revise e subject i said s = Inr ((v, told), t)"
  shows "written_by e s t"
  using assms(3)
proof (rule revise_parts)
  fix d rows s1 s2 s3
  assume w: "writableRows e mayDecideOn subject i s = Inr (d, rows, s1)"
    and s2: "s2 = withdraw_approvals (\<lambda>a. da_decision a = i) subject (truncated e) (s1\<lparr>revisions := revisions s1 @ [v]\<rparr>)"
    and s3: "s3 = s2\<lparr>decisions := change (\<lambda>c. cl_id c = i) (\<lambda>c. c\<lparr>cl_revision := Some (dr_id v)\<rparr>) (decisions s2)\<rparr>"
    and t: "retake e (StandsAtAnyVersion (cl_outcome d)) rows s3 = Inr t"
  note frame = writableRows_frame [OF w]
  have s23: "writes e s2 s3" unfolding s3
    by (rule writes.rests [where p = "\<lambda>c. cl_id c = i" and rv = "Some (dr_id v)"]) simp_all
  have s12: "written_by e s1 s2" unfolding s2 by (rule then_write [OF one_write]) (rule beside_frames)+
  note s03 = written_trans [OF one_write [OF writableRows_written [OF w]] then_write [OF s12 s23]]
  have same: "occurrences s3 = occurrences s" by (simp add: s3 s2 frame(4) withdraw_approvals_def)
  have "written_by e s3 t"
  proof (rule retake_written [OF t assms(2)])
    fix x r
    assume "x \<in> set (occurrences s3)" "r \<in> set rows" "de_id x = de_id r"
    then have "x = r" unfolding same frame(2) by (intro row_ids [OF assms(1)]) (auto simp: in_rows_of)
    then show "about x = about r" by simp
  next
    fix r
    assume "r \<in> set rows"
    then have "de_decision r = i" using frame(2) by (simp add: in_rows_of)
    then show "\<exists>c. decision_of (de_decision r) s3 = Some c \<and> StandsAtAnyVersion (cl_outcome c) = StandsAtAnyVersion (cl_outcome d)"
      using found_on [OF s03 frame(1)] by auto
  qed
  then show "written_by e s t" by (rule written_trans [OF s03])
qed

lemma withdrawing_written:
  assumes "Withdraw e subject i s = Inr (reopened, t)"
  shows "written_by e' s t"
proof -
  from assms obtain w where w: "writableRows e mayDecideOn subject i s = Inr w" by (auto simp: Withdraw_def)
  obtain d rows s1 where w3: "w = (d, rows, s1)" by (cases w)
  let ?s2 = "withdraw_approvals (\<lambda>a. da_decision a = i) subject (truncated e) s1"
  have t: "t = ?s2\<lparr>occurrences := change (\<lambda>r. de_decision r = i \<and> Live (de_state r))
      (\<lambda>r. r\<lparr>de_state := Withdrawn, de_ended_at := Some (truncated e), de_live_key := None\<rparr>) (occurrences ?s2)\<rparr>"
    using assms by (auto simp: Withdraw_def w w3 and_then_simps Let_def)
  have "writes e' ?s2 t" unfolding t by (rule moved_written) (auto simp: keyed_def)
  then show ?thesis
    by (rule then_write [OF write_then [OF writableRows_written [OF w [unfolded w3]] one_write [OF beside_frames(5)]]])
qed

lemma returnToWaiting_written:
  assumes "returnToWaiting ds s = (n, t)"
  shows "writes e s t"
proof -
  let ?p = "\<lambda>r. List.member ds (de_decision r) \<and> de_state r = Approved
     \<and> \<not> list_ex (\<lambda>a. da_decision a = de_decision r \<and> da_withdrawn_at a = None) (approvals s)"
  have "t = s\<lparr>occurrences := change ?p (\<lambda>r. r\<lparr>de_state := Proposed, de_sent_back_at := None\<rparr>) (occurrences s)\<rparr>"
    using assms unfolding returnToWaiting_def Let_def by blast
  moreover have "writes e s (s\<lparr>occurrences := change ?p (\<lambda>r. r\<lparr>de_state := Proposed, de_sent_back_at := None\<rparr>) (occurrences s)\<rparr>)"
    by (rule moved_written) (auto simp: about_def intro: keyed_like [THEN iffD2])
  ultimately show ?thesis by (simp only:)
qed

lemma undoing_written:
  assumes "UndoBatch e subject batch s = Inr (undone, t)"
  shows "written_by e' s t"
proof -
  define whole where "whole = filter (\<lambda>d. \<not> list_ex (flawed e) (rows_of d s)) (wholeDecisions (covered_by subject batch s) s)"
  define which where "which a \<longleftrightarrow> gave subject batch a \<and> List.member whole (da_decision a)" for a
  obtain n s2 where s2: "returnToWaiting whole (withdraw_approvals which subject (truncated e) s) = (n, s2)" by fastforce
  have "writes e' (withdraw_approvals which subject (truncated e) s) s2" by (rule returnToWaiting_written [OF s2])
  moreover have "t = s \<or> (\<exists>ps. restampAll ps s2 = Inr t)"
    using assms s2 unfolding UndoBatch_def Let_def whole_def [symmetric] which_def [symmetric]
    by (auto split: if_splits)
  ultimately have "writes e' (withdraw_approvals which subject (truncated e) s) s2" "t = s \<or> written_by e' s2 t"
    using restampAll_written one_write by blast+
  then show ?thesis using write_then [OF beside_frames(5) written_trans [OF one_write]] by blast
qed

lemma lapse_loop_written: "written_by e s (snd (lapse_loop w moment lapsed s))"
proof (induction w moment lapsed s rule: lapse_loop.induct)
  case (1 w moment lapsed s)
  then show ?case
    by (subst lapse_loop.simps) (auto simp: Let_def intro: write_then [OF markLapsed_written] one_write)
qed

lemma lapse_batches_written: "written_by e s (snd (lapse_batches which moment batches (lapsed, s)))"
  by (induction batches arbitrary: lapsed s) (auto intro: write_then [OF markLapsed_written])

lemma lapsing_written:
  "Lapse e' w s = (lapsed, t) \<Longrightarrow> written_by e s t"
  "LapseCodeFindings e' product named s = (lapsed, t) \<Longrightarrow> written_by e s t"
  using lapse_loop_written [of e s w "truncated e'" "[]"]
    lapse_batches_written [of e s "dismissed_at product" "truncated e'" "batches_of BatchSize named" "[]"]
  by (auto simp: Lapse_def LapseCodeFindings_def split: prod.splits)

lemma mark_chunks_written: "mark_chunks moment chunks s = Inr t \<Longrightarrow> written_by e s t"
  by (induction chunks arbitrary: s) (auto intro: write_then [OF markLapsed_written] split: if_splits)

subsection \<open>Making again, in bulk, onto a new line\<close>

text \<open>
  The rows a re-affirmation approves are the ones it has just recorded, under the refusal asked of
  every row as it was recorded.
\<close>

lemma new_rows_places:
  assumes "r \<in> set (new_rows e d ps i)"
  shows "(de_product r, de_issue r) \<in> set (map (\<lambda>p. (ProductID (Where_at p), VulnerabilityID (Where_at p))) ps)"
  using assms by (auto simp: new_rows_def disclosedSince_def Let_def in_change row_def in_set_enumerate_eq)

lemma write_rows_clear:
  assumes "write_rows e d ps s = Inr (rows, t)" and "decision_of (cl_id d) s = Some d" and "r \<in> set rows"
  shows "let_stand e t r"
proof -
  note frame = write_rows_frame [OF assms(1)]
  have "refuseIncident e s d (map (\<lambda>p. (ProductID (Where_at p), VulnerabilityID (Where_at p))) (map (refiled e) ps)) = None"
    using assms(1) unfolding write_rows_def Let_def checked_Inr refuseIfIncident_def by blast
  moreover have "(de_product r, de_issue r) \<in> set (map (\<lambda>p. (ProductID (Where_at p), VulnerabilityID (Where_at p))) (map (refiled e) ps))"
    using assms(3) unfolding frame(1) by (rule new_rows_places)
  moreover have "decision_of (de_decision r) s = Some d" using assms(2,3) new_rows_are(1) frame(1) by metis
  ultimately have "let_stand e s r" by (rule let_stand_each)
  then show ?thesis using frame(2) let_stand_frame [of t s] by simp
qed

lemma carryApproval_written:
  assumes "carryApproval e' made d previous s = Inr t"
    and "\<And>r. r \<in> set (occurrences s) \<Longrightarrow> de_id r \<in> set (map de_id made) \<Longrightarrow> let_stand e s r"
  shows "written_by e s t"
proof -
  have "t = s \<or> (\<exists>a rv. approveWhileRevised d rv (map de_id made) (s\<lparr>approvals := a\<rparr>) = Inr t)"
    using assms(1) by (auto simp: carryApproval_def Let_def split: list.splits option.splits)
  then show ?thesis
  proof
    assume "\<exists>a rv. approveWhileRevised d rv (map de_id made) (s\<lparr>approvals := a\<rparr>) = Inr t"
    then obtain a rv where a: "approveWhileRevised d rv (map de_id made) (s\<lparr>approvals := a\<rparr>) = Inr t" by blast
    have "writes e (s\<lparr>approvals := a\<rparr>) t"
      by (rule approveWhileRevised_written [OF a]) (use assms(2) let_stand_frame [of "s\<lparr>approvals := a\<rparr>" s] in simp)
    then show ?thesis by (rule then_write [OF one_write [OF beside_frames(3)]])
  qed simp
qed

lemma made_again_written:
  assumes "triage_ok s" and "newDecisionNarrowed e k person from selectedBy narrowed p s = (d', s1)"
    and "write_rows e d' ps s1 = Inr (made, s2)"
    and "t = s2 \<or> carryApproval e made d' previous s2 = Inr t" and "outcome_known s (outcome p)"
    and "from_known s from" and "settled_issues e"
  shows "written_by e s t"
proof -
  have ok2: "triage_ok s2" by (rule recorded_ok [OF assms(1-3)])
  have "written_by e s2 t"
    using assms(4)
  proof
    assume c: "carryApproval e made d' previous s2 = Inr t"
    have "let_stand e s2 r" if r: "r \<in> set (occurrences s2)" "de_id r \<in> set (map de_id made)" for r
    proof -
      from r(2) obtain x where x: "x \<in> set made" "de_id r = de_id x" by auto
      then have "x \<in> set (occurrences s2)" using write_rows_frame(2) [OF assms(3)] by simp
      then have "r = x" using row_ids [OF ok2 r(1)] x(2) by blast
      then show ?thesis using write_rows_clear [OF assms(3) new_decision_found [OF assms(1,2)]] x(1) by simp
    qed
    then show ?thesis by (rule carryApproval_written [OF c])
  qed simp
  then show ?thesis using recorded_written [OF assms(2,5,6,3,1,7)] by (rule written_trans [rotated])
qed

lemma reaffirming_written:
  assumes "triage_ok s" and "settled_issues e" and "Reaffirm e subject r s = Inr (rows, t)"
  shows "written_by e s t"
  using assms(3)
proof (rule reaffirm_parts)
  fix d' p made s1 s2 previous
  assume parts: "newDecisionNarrowed e FindingDecision (Remade_by r) None [] None p s = (d', s1)"
    "write_rows e d' [p] s1 = Inr (made, s2)" "t = s2 \<or> carryApproval e made d' previous s2 = Inr t"
    and valid: "Proposal_valid (policy e) (clock e) p = None"
  show "written_by e s t" by (rule made_again_written [OF assms(1) parts valid_known [OF valid] _ assms(2)]) simp
qed

lemma writeReaffirm_written:
  assumes "triage_ok s" and "writeReaffirm e plan s = Inr (out, t)" and "outcome_known s (outcome (hd (plan_proposals plan)))"
    and "decision_of (cl_id (plan_previous plan)) s \<noteq> None" and "settled_issues e"
  shows "written_by e s t"
proof -
  have known_from: "from_known s (Some (cl_id (plan_previous plan)))" using assms(4) by (simp only: from_known_simps not_False_eq_True)
  show ?thesis using assms(2) by (rule writeReaffirm_parts) (rule made_again_written [OF assms(1) _ _ _ assms(3) known_from assms(5)])
qed

lemma write_all_written:
  assumes "write_all e plans s = Inr (out, t)" and "triage_ok s"
    and "\<And>plan. plan \<in> set plans \<Longrightarrow> (\<forall>q \<in> set (plan_proposals plan). By q = person) \<and> plan_proposals plan \<noteq> []"
    and "\<And>plan s. plan \<in> set plans \<Longrightarrow> outcome_known s (outcome (hd (plan_proposals plan)))"
    and "\<And>plan. plan \<in> set plans \<Longrightarrow> decision_of (cl_id (plan_previous plan)) s \<noteq> None" and "settled_issues e"
  shows "written_by e s t"
  using assms
proof (induction plans arbitrary: out s)
  case (Cons plan plans)
  then obtain made s1 out' where w: "writeReaffirm e plan s = Inr (made, s1)" "write_all e plans s1 = Inr (out', t)"
    by auto
  have "triage_ok s1" by (rule writeReaffirm_ok [OF Cons.prems(2) _ _ w(1)]) (use Cons.prems(3) in auto)
  have first: "written_by e s s1"
    using Cons.prems(4-6) by (intro writeReaffirm_written [OF Cons.prems(2) w(1)]) auto
  have "written_by e s1 t"
    by (rule Cons.IH [OF w(2) \<open>triage_ok s1\<close>]) (use Cons.prems(3-6) found_stays_on [OF first] in auto)
  then show ?case by (rule written_trans [OF first])
qed simp

lemma plan_previous_found:
  "planReaffirm e l subject i said person s = Inr plan \<Longrightarrow> decision_of (cl_id (plan_previous plan)) s \<noteq> None"
proof -
  assume plan: "planReaffirm e l subject i said person s = Inr plan"
  then obtain previous where previous: "decision_of i s = Some previous" by (auto simp: planReaffirm_def split: option.splits)
  then have "plan_previous plan = previous"
    using plan by (auto simp: planReaffirm_def Let_def split: prod.splits)
  then show ?thesis using previous decision_of_frame by fastforce
qed

lemma plan_all_previous_found:
  "plan_all e l subject said person ids s = Inr plans \<Longrightarrow> plan \<in> set plans
    \<Longrightarrow> decision_of (cl_id (plan_previous plan)) s = None \<Longrightarrow> False"
  by (induction ids arbitrary: plans) (auto dest: plan_previous_found)

lemma plan_all_known:
  "plan_all e l subject said person ids s = Inr plans \<Longrightarrow> plan \<in> set plans
    \<Longrightarrow> outcome_known s' (outcome (hd (plan_proposals plan)))"
proof (induction ids arbitrary: plans)
  case (Cons i ids)
  then obtain one plans' where one: "planReaffirm e l subject i said person s = Inr one"
    "permitted e subject (plan_proposals one) = None" "plan_all e l subject said person ids s = Inr plans'" "plans = one # plans'"
    by auto
  have "outcome_known s' (outcome (hd (plan_proposals one)))"
    using plan_by(2) [OF one(1)] by (intro permitted_known [OF one(2)]) simp
  then show ?case using Cons.IH [OF one(3)] Cons.prems(2) one(4) by auto
qed simp

lemma reaffirming_many_written:
  assumes "triage_ok s" and settled: "settled_issues e"
  shows "ReaffirmDecision e l subject again s = Inr (out, t) \<Longrightarrow> written_by e s t"
    and "ReaffirmMany e l subject many s = Inr (outs, t) \<Longrightarrow> written_by e s t"
proof -
  show "written_by e s t" if again: "ReaffirmDecision e l subject again s = Inr (out, t)"
  proof -
    obtain plan where plan: "planReaffirm e l subject (again_decision again) (again_said again) (again_by again) s = Inr plan"
      "permitted e subject (plan_proposals plan) = None" "writeReaffirm e plan s = Inr (out, t)"
      using again unfolding ReaffirmDecision_def checked_Inr and_then_Inr by blast
    have "outcome_known s (outcome (hd (plan_proposals plan)))"
      using plan_by(2) [OF plan(1)] by (intro permitted_known [OF plan(2)]) simp
    then show ?thesis using plan_previous_found [OF plan(1)] using settled by (rule writeReaffirm_written [OF assms(1) plan(3)])
  qed
  show "written_by e s t" if again: "ReaffirmMany e l subject many s = Inr (outs, t)"
  proof -
    obtain plans where plans: "plan_all e l subject (many_said many) (many_by many) (sort (remdups (many_decisions many))) s = Inr plans"
      "write_all e plans s = Inr (outs, t)" using again unfolding ReaffirmMany_def Let_def checked_Inr and_then_Inr by blast
    then show ?thesis using plan_all_by [OF plans(1)] plan_all_known [OF plans(1)]
      by (intro write_all_written [OF plans(2) assms(1), of "many_by many"]) (auto intro: settled dest: plan_all_previous_found [OF plans(1)])
  qed
qed

lemma bulk_written:
  assumes "triage_ok s" and "settled_issues e" and "BulkDecision_act e subject at found narrowed p bounds s = Inr (out, t)"
  shows "written_by e s t"
proof -
  obtain left skipped where l: "(if SkipDecided at then leavingDecided e s found else (found, [])) = (left, skipped)"
    by (metis prod.exhaust)
  obtain d' s1 where new: "newDecisionNarrowed e BulkDecision (subject_id subject) None (selected_by p) (Some narrowed) p s = (d', s1)"
    by fastforce
  have made: "\<exists>made. write_rows e d' (map (bulk_proposal p) left) s1 = Inr (made, t)"
    "left \<noteq> []" "list_all (\<lambda>at. bulk_refusal e subject p at = None) left"
    using assms(3) unfolding BulkDecision_act_def l prod.case new proposeAll_def by (auto simp: refuse_if_def list_all_iff)
  then obtain at' where "bulk_refusal e subject p at' = None" by (cases left) auto
  then have "Proposal_valid (policy e) (clock e) (bulk_proposal p at') = None" by (simp add: bulk_refusal_def)
  then have "outcome_known s (outcome (bulk_proposal p at'))" by (rule valid_known)
  then show ?thesis using recorded_written [OF new] made(1) assms(1,2) by (auto simp: bulk_proposal_def)
qed

lemma carry_loop_written:
  "carry_loop e l subject wanted n s = Inr (m, t) \<Longrightarrow> triage_ok s \<Longrightarrow> settled_issues e \<Longrightarrow> written_by e s t"
proof (induction wanted arbitrary: n s)
  case (Cons one wanted)
  obtain r old where found: "find (\<lambda>r. de_id r = in_row one) (occurrences s) = Some r" "decision_of (de_decision r) s = Some old"
    using Cons.prems(1) by (auto split: option.splits)
  let ?p = "carried_proposal e l subject r old (in_reasoning one)"
  obtain d' s1 where new: "newDecisionNarrowed e FindingDecision (subject_id subject) None carried_from None ?p s = (d', s1)"
    by fastforce
  obtain made s2 where w: "write_rows e d' [?p] s1 = Inr (made, s2)" "carry_loop e l subject wanted (n + 1) s2 = Inr (m, t)"
    "permitted e subject [?p] = None"
    using Cons.prems(1) unfolding carry_loop.simps found option.case Let_def newDecision_narrowed new prod.case proposeAll_def
    by auto
  have "outcome_known s (outcome ?p)" by (rule permitted_known [OF w(3)]) simp
  then show ?case using recorded_ok [OF Cons.prems(2) new w(1)] Cons.prems(2,3)
    by (intro written_trans [OF recorded_written [OF new _ _ w(1)] Cons.IH [OF w(2)]]) simp_all
qed simp

lemma carrying_written:
  "Carry e subject l chosen bounds s = Inr (n, t) \<Longrightarrow> triage_ok s \<Longrightarrow> settled_issues e \<Longrightarrow> written_by e s t"
  "LapseRatedWorse e' c w s = Inr (out, t) \<Longrightarrow> written_by e s t"
  using carry_loop_written [of e l subject _ 0 s n t] mark_chunks_written [of "truncated e'" _ s t e]
  by (auto simp: Carry_def LapseRatedWorse_def Let_def split: if_splits)

subsection \<open>Whatever is done\<close>

lemma by_written: "triage_by e s t \<Longrightarrow> triage_ok s \<Longrightarrow> settled_issues e \<Longrightarrow> written_by e s t"
  by (induction rule: triage_by.induct)
    (auto simp: split_paired_all intro: proposing_written approving_written splitting_written sending_back_written
      revising_written withdrawing_written undoing_written lapsing_written reaffirming_written
      bulk_written reaffirming_many_written carrying_written)

end
