(* ===== verification/Triage_Incident.thy ===== *)
theory Triage_Incident
  imports Triage_Writes "HOL-Library.Product_Lexorder"
begin

section \<open>Incidents\<close>

text \<open>
  \<^verbatim>\<open>internal/triage/incident.go\<close>: a record that a product was exploited through an issue, what
  recording one takes back and what clearing one leaves. The desk is the triage tables beside the
  incidents, the trail, the issue each issue is read as and the hash keys are made with. Whether somebody may be told of an issue
  in a product is read from the findings, and is an argument of both acts; what an incident does to
  the rank and the deadline of open findings is left to them. What a merge of two issues leaves at
  the desk (\<^verbatim>\<open>internal/finding/settle.go\<close>) is recorded beside them.
\<close>

subsection \<open>The records\<close>

record Incident =
  eh_id :: int
  eh_issue :: int
  eh_product :: int
  eh_known_at :: int
  eh_grounds :: string
  eh_recorded_by :: int
  eh_recorded_at :: int
  eh_cleared_at :: "int option"
  eh_cleared_by :: "int option"
  eh_cleared_because :: "string option"
  eh_live :: "int option"

definition Standing :: "Incident \<Rightarrow> bool" where "Standing i \<longleftrightarrow> eh_cleared_at i = None"

text \<open>
  What the trail says of one act: who did it, nobody where a merge did, what stood before and what
  stands after. The source writes a moment out as text; here it is the moment.
\<close>

datatype AssessmentState = AssessmentProposed | AssessmentLive | AssessmentWithdrawn

datatype Said = KnownSince int | IncidentKnown int | RatingClaim string AssessmentState | Because string

record Noted =
  noted_by :: "int option"
  noted_product :: int
  noted_issue :: int
  noted_was :: "Said option"
  noted_became :: "Said option"

text \<open>One issue merged into another, and a row of a decision that a merge took out of force.\<close>

record Merge =
  vm_id :: int
  vm_absorbed :: int
  vm_kept :: int
  vm_named :: string
  vm_run :: "int option"
  vm_merged_at :: int

record SupersededOccurrence =
  ds_id :: int
  ds_occurrence :: int
  ds_standing :: int
  ds_merge :: int
  ds_disagreed :: bool

text \<open>What one product thinks of an issue (\<^verbatim>\<open>finding/assessment.go\<close>), under its key while it is live.\<close>

record Assessment =
  asm_id :: int
  asm_issue :: int
  asm_product :: int
  asm_severity :: string
  asm_published :: string
  asm_reasoning :: string
  asm_state :: AssessmentState
  asm_needs_approval :: bool
  asm_proposed_by :: int
  asm_proposed_at :: int
  asm_decided_by :: "int option"
  asm_decided_at :: "int option"
  asm_withdrawn_because :: "string option"
  asm_live :: "int option"

record desk =
  books :: tables
  incidents :: "Incident list"
  trail :: "Noted list"
  reads_as :: "int \<Rightarrow> int"
  hashed_by :: "string \<Rightarrow> string"
  merges :: "Merge list"
  superseded :: "SupersededOccurrence list"
  assessments :: "Assessment list"

definition standing_incident :: "Incident list \<Rightarrow> int \<Rightarrow> int \<Rightarrow> bool" where
  "standing_incident kept productID issue \<longleftrightarrow>
     list_ex (\<lambda>i. eh_product i = productID \<and> eh_live i = Some issue) kept"

text \<open>The unique index over the product and the issue of a standing record.\<close>

definition live_incidents :: "Incident list \<Rightarrow> (int \<times> int) list" where
  "live_incidents kept = List.map_filter (\<lambda>i. map_option (\<lambda>v. (eh_product i, v)) (eh_live i)) kept"

definition one_standing :: "Incident list \<Rightarrow> bool" where
  "one_standing kept \<longleftrightarrow> distinct (live_incidents kept)"

text \<open>The constraint \<^verbatim>\<open>assessment_live_unique\<close>, and the identifiers the table hands out.\<close>

definition one_claim :: "Assessment list \<Rightarrow> bool" where
  "one_claim rows \<longleftrightarrow> distinct (List.map_filter (\<lambda>a. map_option (Pair (asm_product a)) (asm_live a)) rows)"

definition claims_ok :: "Assessment list \<Rightarrow> bool" where
  "claims_ok rows \<longleftrightarrow> distinct (map asm_id rows) \<and> one_claim rows"

subsection \<open>What a record contradicts\<close>

fun contradicting :: "tables \<Rightarrow> int list \<Rightarrow> failure + int list" where
  "contradicting s [] = Inr []"
| "contradicting s (i # ids) =
    (case decision_of i s of None \<Rightarrow> Inl ReadFailed
     | Some c \<Rightarrow>
       if cl_outcome c = NotApplicable then and_then (contradicting s ids) (\<lambda>out. Inr (i # out))
       else and_then (overMany 64 s c) (\<lambda>bulk.
         and_then (contradicting s ids) (\<lambda>out. Inr (if bulk then i # out else out))))"

definition contradicted :: "env \<Rightarrow> tables \<Rightarrow> int \<Rightarrow> int \<Rightarrow> failure + int list" where
  "contradicted e s productID vulnerabilityID =
    contradicting s (remdups (map de_decision (filter (\<lambda>r. de_product r = productID
        \<and> issue_of e (de_issue r) = issue_of e vulnerabilityID \<and> de_live_key r \<noteq> None
        \<and> list_ex (\<lambda>c. cl_id c = de_decision r \<and> List.member settingAsideOutcomes (cl_outcome c)) (decisions s)
        \<and> list_ex (\<lambda>a. da_decision a = de_decision r \<and> da_withdrawn_at a = None) (approvals s))
      (occurrences s))))"

definition unsayWhatARecordContradicts ::
  "env \<Rightarrow> FlawRecord list \<Rightarrow> Subject \<Rightarrow> int \<Rightarrow> int \<Rightarrow> tables \<Rightarrow> failure + (int \<times> ForPerson list) \<times> tables" where
  "unsayWhatARecordContradicts e flaws subject productID vulnerabilityID s =
    and_then (contradicted e s productID vulnerabilityID) (\<lambda>agreed.
      if agreed = [] then Inr ((0, []), s)
      else
        let rows = map de_id (filter (\<lambda>r. List.member agreed (de_decision r)) (occurrences s));
            shown = matched (\<lambda>r. List.member agreed (de_decision r) \<and> de_state r = Approved
              \<and> readableBy (issue_of e) flaws subject r) (occurrences s);
            (_, t) = returnToWaiting agreed
              (withdraw_approvals (\<lambda>a. List.member agreed (da_decision a)) subject (truncated e) s)
        in Inr ((int shown, proposersOf rows s), t))"

subsection \<open>Recording and clearing\<close>

definition GroundsLimit :: int where "GroundsLimit = 64 * 1024"

text \<open>A moment is the instant, in nanoseconds, and how far its clock is from universal time.\<close>

definition no_moment :: int where "no_moment = -62135596800 * 1000000000"

definition start_of_2000 :: int where "start_of_2000 = 946684800 * 1000000000"

definition noteIncident :: "Subject \<Rightarrow> int \<Rightarrow> int \<Rightarrow> int option \<Rightarrow> int option \<Rightarrow> Noted" where
  "noteIncident subject productID vulnerabilityID was became =
    \<lparr>noted_by = Some (subject_id subject), noted_product = productID, noted_issue = vulnerabilityID,
       noted_was = map_option KnownSince was, noted_became = map_option KnownSince became\<rparr>"

definition incident_refusal ::
  "env \<Rightarrow> Subject \<Rightarrow> int \<Rightarrow> int \<times> int \<Rightarrow> string \<Rightarrow> failure option" where
  "incident_refusal e subject productID knownAt grounds = (case knownAt of (moment, zone) \<Rightarrow> first_refusal
    [refuse_if (kind subject \<noteq> Person \<or> subject_id subject = 0) KeptAgainstAPerson,
     refuse_if (\<not> TriagesIn subject productID) DeniedIncident,
     refuse_if (trim_space grounds = []) SayWhatHappened,
     refuse_if (int (length grounds) > GroundsLimit) GroundsTooLong,
     map_option (Refused \<circ> AgainstPolicy) (policy e grounds),
     refuse_if (moment = no_moment) SayWhenKnown,
     refuse_if (moment > clock e) NotYetKnown,
     refuse_if (moment + zone < start_of_2000) KnownTooEarly])"

definition RecordIncident ::
  "env \<Rightarrow> FlawRecord list \<Rightarrow> bool \<Rightarrow> Subject \<Rightarrow> int \<Rightarrow> int \<Rightarrow> int \<times> int \<Rightarrow> string \<Rightarrow> desk
    \<Rightarrow> failure + (Incident \<times> int \<times> ForPerson list) \<times> desk" where
  "RecordIncident e flaws told subject productID vulnerabilityID knownAt grounds d =
    checked (incident_refusal e subject productID knownAt grounds)
    (checked (refuse_if (\<not> told) ErrNoSuchIncident)
     (let recorded = \<lparr>eh_id = fresh (incidents d), eh_issue = vulnerabilityID, eh_product = productID,
            eh_known_at = fst knownAt div 1000 * 1000, eh_grounds = grounds,
            eh_recorded_by = subject_id subject, eh_recorded_at = truncated e, eh_cleared_at = None,
            eh_cleared_by = None, eh_cleared_because = None, eh_live = Some vulnerabilityID\<rparr>
      in checked (refuse_if (\<not> one_standing (incidents d @ [recorded])) ErrIncidentStands)
        (and_then (unsayWhatARecordContradicts e flaws subject productID vulnerabilityID (books d)) (\<lambda>(undone, t).
          Inr ((recorded, undone),
            d\<lparr>books := t, incidents := incidents d @ [recorded],
              trail := trail d @ [noteIncident subject productID vulnerabilityID None (Some (eh_known_at recorded))]\<rparr>)))))"

definition ClearIncident ::
  "env \<Rightarrow> (int \<Rightarrow> int \<Rightarrow> bool) \<Rightarrow> Subject \<Rightarrow> int \<Rightarrow> string \<Rightarrow> desk \<Rightarrow> failure + desk" where
  "ClearIncident e told subject i because d =
    checked (first_refusal
      [refuse_if (kind subject \<noteq> Person \<or> subject_id subject = 0) KeptAgainstAPerson,
       refuse_if (trim_space because = []) SayWhy,
       refuse_if (int (length because) > GroundsLimit) GroundsTooLong,
       map_option (Refused \<circ> AgainstPolicy) (policy e because)])
    (case find (\<lambda>r. eh_id r = i) (incidents d) of None \<Rightarrow> Inl ErrNoSuchIncident
     | Some record \<Rightarrow>
       checked (first_refusal
         [refuse_if (\<not> TriagesIn subject (eh_product record)) ErrNoSuchIncident,
          refuse_if (\<not> told (eh_product record) (eh_issue record)) ErrNoSuchIncident,
          refuse_if (\<not> Standing record) ErrNoSuchIncident])
        (let hit = (\<lambda>r. eh_id r = i \<and> eh_cleared_at r = None)
         in checked (refuse_if (matched hit (incidents d) = 0) ErrNoSuchIncident)
          (Inr (d\<lparr>incidents := change hit (\<lambda>r. r\<lparr>eh_cleared_at := Some (truncated e),
                   eh_cleared_by := Some (subject_id subject), eh_cleared_because := Some because,
                   eh_live := None\<rparr>) (incidents d),
              trail := trail d @ [noteIncident subject (eh_product record) (eh_issue record)
                 (Some (eh_known_at record)) None]\<rparr>))))"

text \<open>\<open>told\<close> is whether the reader may be told of the issue in the product.\<close>

definition IncidentAt :: "env \<Rightarrow> bool \<Rightarrow> int \<Rightarrow> int \<Rightarrow> desk \<Rightarrow> failure + Incident list" where
  "IncidentAt e told productID vulnerabilityID d =
    (if \<not> told then Inl ErrNoSuchIncident
     else Inr (rev (sort_key (\<lambda>i. (eh_recorded_at i, eh_id i)) (filter (\<lambda>i. eh_product i = productID
       \<and> reads_as d (eh_issue i) = reads_as d vulnerabilityID) (incidents d)))))"

subsection \<open>The acts at the desk\<close>

definition read_at :: "desk \<Rightarrow> env \<Rightarrow> bool" where
  "read_at d e \<longleftrightarrow> incident e = standing_incident (incidents d) \<and> issue_of e = reads_as d \<and> digest e = hashed_by d"

text \<open>
  How products come to rate an issue is not modelled: any table of claims may come to stand at the desk that
  keeps the rules the database keeps of it.
\<close>

inductive desk_act :: "desk \<Rightarrow> desk \<Rightarrow> bool" where
  triages: "read_at d e \<Longrightarrow> triage_by e (books d) t \<Longrightarrow> desk_act d (d\<lparr>books := t\<rparr>)"
| records_incident: "read_at d e \<Longrightarrow> RecordIncident e flaws told subject productID issue knownAt grounds d = Inr (kept, d')
    \<Longrightarrow> desk_act d d'"
| clears_incident: "read_at d e \<Longrightarrow> ClearIncident e may subject i because d = Inr d' \<Longrightarrow> desk_act d d'"
| rates: "claims_ok rows \<Longrightarrow> desk_act d (d\<lparr>assessments := rows\<rparr>)"

definition no_desk :: "(string \<Rightarrow> string) \<Rightarrow> desk" where
  "no_desk h = \<lparr>books = no_tables, incidents = [], trail = [], reads_as = (\<lambda>i. i), hashed_by = h,
     merges = [], superseded = [], assessments = []\<rparr>"

end
