(* ===== verification/Triage_Standing.thy ===== *)
theory Triage_Standing
  imports Triage_Incident
begin

section \<open>No product reads as exploited and as dismissed\<close>

text \<open>
  The triage store refuses what a standing incident contradicts, and an incident takes back the
  agreement under what it contradicts. Together: whatever is decided, agreed to, recorded and cleared
  in whatever order, no approved row says of an issue what a standing incident contradicts.
\<close>

subsection \<open>The rule, as decisions are added\<close>

lemma let_stand_iff: "let_stand e s r \<longleftrightarrow> (\<exists>c. decision_of (de_decision r) s = Some c
    \<and> refuseIncident e s c [(de_product r, de_issue r)] = None)"
  by (auto simp: let_stand_def split: option.splits)

lemma refuseIncident_None: "refuseIncident e s c [(p, i)] = None \<longleftrightarrow>
   (\<not> incident e p i \<and> (cl_outcome c \<noteq> NotApplicable \<and> settingAside (cl_outcome c) \<longrightarrow> (\<exists>b. overMany 64 s c = Inr b)))
   \<or> cl_outcome c \<noteq> NotApplicable \<and> (settingAside (cl_outcome c) \<longrightarrow> overMany 64 s c = Inr False)"
  by (auto simp: refuseIncident_def Let_def split: sum.splits)

definition core :: "Decision \<Rightarrow> DecisionKind \<times> Outcome \<times> int option" where
  "core c = (cl_kind c, cl_outcome c, cl_derived_from c)"

definition keeps :: "tables \<Rightarrow> tables \<Rightarrow> bool" where
  "keeps s t \<longleftrightarrow> (\<forall>i c. decision_of i s = Some c \<longrightarrow> (\<exists>c'. decision_of i t = Some c' \<and> core c' = core c))"

lemma keeps_overMany:
  "keeps s t \<Longrightarrow> core c' = core c \<Longrightarrow> overMany n s c = Inr b \<Longrightarrow> overMany n t c' = Inr b"
proof (induction n arbitrary: c c')
  case (Suc n)
  have same: "cl_kind c' = cl_kind c" "cl_derived_from c' = cl_derived_from c" using Suc.prems(2) by (simp_all add: core_def)
  have next_one: "overMany n t d' = Inr b" if found: "decision_of i s = Some d" "decision_of i t = Some d'" "overMany n s d = Inr b" for i d d'
  proof -
    obtain x where "decision_of i t = Some x" "core x = core d" using Suc.prems(1) found(1) unfolding keeps_def by blast
    then have "core d' = core d" using found(2) by simp
    then show ?thesis by (rule Suc.IH [OF Suc.prems(1) _ found(3)])
  qed
  consider "cl_kind c = BulkDecision" | "cl_kind c = ExtensionDecision"
    | "cl_kind c \<noteq> BulkDecision" "cl_kind c \<noteq> ExtensionDecision" "cl_derived_from c = None"
    | i where "cl_kind c \<noteq> BulkDecision" "cl_kind c \<noteq> ExtensionDecision" "cl_derived_from c = Some i" by fastforce
  then show ?case
  proof cases
    case 4
    then obtain d where d: "decision_of i s = Some d" "overMany n s d = Inr b"
      using Suc.prems(3) by (cases "cl_kind c") (auto split: option.splits)
    then obtain d' where d': "decision_of i t = Some d'" using Suc.prems(1) unfolding keeps_def by blast
    show ?thesis using next_one [OF d(1) d' d(2)] 4 same d' by (cases "cl_kind c") auto
  qed (use Suc.prems(3) same in \<open>cases "cl_kind c"; simp\<close>)+
qed simp

lemma keeps_let_stand:
  assumes "keeps s t" and "let_stand e s r" and "incident e' (de_product r) (de_issue r) \<Longrightarrow> incident e (de_product r) (de_issue r)"
    and "de_decision r' = de_decision r" and "de_product r' = de_product r" and "de_issue r' = de_issue r"
  shows "let_stand e' t r'"
proof -
  obtain c where c: "decision_of (de_decision r) s = Some c" "refuseIncident e s c [(de_product r, de_issue r)] = None"
    using assms(2) by (auto simp: let_stand_iff)
  obtain c' where c': "decision_of (de_decision r) t = Some c'" "core c' = core c"
    using assms(1) c(1) by (auto simp: keeps_def)
  have "overMany 64 s c = Inr b \<Longrightarrow> overMany 64 t c' = Inr b" for b by (rule keeps_overMany [OF assms(1) c'(2)])
  then have "refuseIncident e' t c' [(de_product r, de_issue r)] = None"
    using c(2) assms(3) c'(2) unfolding refuseIncident_None core_def by auto
  then show ?thesis using c'(1) assms(4-6) by (auto simp: let_stand_iff)
qed

lemma keeps_refl: "keeps s s" by (simp add: keeps_def)

lemma keeps_same: "decisions t = decisions s \<Longrightarrow> keeps s t" by (simp add: keeps_def decision_of_def)

lemma found_changed: "find p (change q f xs) = map_option (\<lambda>x. if q x then f x else x) (find p xs)"
  if "\<And>x. p (f x) = p x"
  by (induction xs) (auto simp: change_def that)

lemma writes_keeps: "writes e s t \<Longrightarrow> keeps s t"
  by (cases rule: writes.cases)
    (auto simp: keeps_def decision_of_def find_before found_changed core_def)

subsection \<open>Approved rows under the writes\<close>

definition all_stand :: "env \<Rightarrow> tables \<Rightarrow> bool" where
  "all_stand e s \<longleftrightarrow> (\<forall>r \<in> set (occurrences s). de_state r = Approved \<longrightarrow> let_stand e s r)"

lemma all_standD: "all_stand e s \<Longrightarrow> r \<in> set (occurrences s) \<Longrightarrow> de_state r = Approved \<Longrightarrow> let_stand e s r"
  by (simp add: all_stand_def)

lemma writes_stand:
  assumes "writes e s t" and "all_stand e s"
  shows "all_stand e t"
proof -
  note keeps = writes_keeps [OF assms(1)]
  have on: "let_stand e t r'" if "let_stand e s r" "de_decision r' = de_decision r" "de_product r' = de_product r" "de_issue r' = de_issue r" for r r'
    using keeps_let_stand [OF keeps that(1) _ that(2-4)] by simp
  have "\<exists>r. let_stand e s r \<and> de_decision r' = de_decision r \<and> de_product r' = de_product r \<and> de_issue r' = de_issue r"
    if r': "r' \<in> set (occurrences t)" "de_state r' = Approved" for r'
    using assms(1)
  proof (cases rule: writes.cases)
    case (records rows)
    then show ?thesis using r' all_standD [OF assms(2)] by auto
  next
    case (moves p f)
    then obtain r where "r \<in> set (occurrences s)" "r' = (if p r then f r else r)" using r'(1) by (auto simp: in_change)
    then show ?thesis using r'(2) moves all_standD [OF assms(2)] by (metis (no_types))
  next
    case (agrees p)
    then obtain r where r: "r \<in> set (occurrences s)" "r' = (if p r then r\<lparr>de_state := Approved\<rparr> else r)" using r'(1) by (auto simp: in_change)
    then show ?thesis using r'(2) agrees all_standD [OF assms(2)] by (cases "p r") auto
  qed (use r' all_standD [OF assms(2)] in auto)
  then show ?thesis using on unfolding all_stand_def by blast
qed

lemma written_stand: "written_by e s t \<Longrightarrow> all_stand e s \<Longrightarrow> all_stand e t"
  by (induction rule: rtranclp_induct) (auto intro: writes_stand)

lemma stand_fewer:
  "all_stand e s \<Longrightarrow> (\<And>p i. incident e' p i \<Longrightarrow> incident e p i) \<Longrightarrow> all_stand e' s"
  unfolding all_stand_def using keeps_let_stand [OF keeps_refl] by blast

subsection \<open>Incidents and approved rows\<close>

lemma contradicting_step:
  assumes "(if cl_outcome c = NotApplicable then and_then (contradicting s ids) (\<lambda>out. Inr (i # out))
      else and_then (overMany 64 s c) (\<lambda>bulk. and_then (contradicting s ids) (\<lambda>out. Inr (if bulk then i # out else out)))) = Inr out"
  obtains out' where "contradicting s ids = Inr out'" "set out' \<subseteq> set out"
    "i \<in> set out \<or> cl_outcome c \<noteq> NotApplicable \<and> overMany 64 s c = Inr False"
proof (cases "cl_outcome c = NotApplicable")
  case True
  then obtain out' where "contradicting s ids = Inr out'" "out = i # out'" using assms by auto
  then show thesis by (intro that) auto
next
  case False
  then obtain bulk out' where o: "overMany 64 s c = Inr bulk" "contradicting s ids = Inr out'"
    "out = (if bulk then i # out' else out')" using assms by auto
  then show thesis using False by (intro that [OF o(2)]) (cases bulk; auto)+
qed

lemma contradicting_has:
  assumes "contradicting s ids = Inr out" and "i \<in> set ids"
  shows "\<exists>c. decision_of i s = Some c
    \<and> (i \<in> set out \<or> cl_outcome c \<noteq> NotApplicable \<and> overMany 64 s c = Inr False)"
  using assms
proof (induction ids arbitrary: out)
  case (Cons x ids)
  then obtain c where c: "decision_of x s = Some c" by (auto split: option.splits)
  note made = Cons.prems(1) [unfolded contradicting.simps c option.case]
  obtain out' where out': "contradicting s ids = Inr out'" "set out' \<subseteq> set out"
    "x \<in> set out \<or> cl_outcome c \<noteq> NotApplicable \<and> overMany 64 s c = Inr False"
    by (rule contradicting_step [OF made])
  show ?case
  proof (cases "i = x")
    case True
    then show ?thesis using c out'(3) by simp
  next
    case False
    then show ?thesis using Cons.IH [OF out'(1)] Cons.prems(2) out'(2) by auto
  qed
qed simp

lemma settingAside_listed: "out = NotApplicable \<or> settingAside out \<Longrightarrow> out \<in> set Outcomes
    \<Longrightarrow> List.member settingAsideOutcomes out"
proof -
  have "settingAside NotApplicable" by code_simp
  then show "out = NotApplicable \<or> settingAside out \<Longrightarrow> out \<in> set Outcomes \<Longrightarrow> List.member settingAsideOutcomes out"
    by (auto simp: settingAsideOutcomes_def)
qed

definition outcomes_ok :: "tables \<Rightarrow> bool" where
  "outcomes_ok s \<longleftrightarrow> set (map cl_outcome (decisions s)) \<subseteq> set Outcomes"

lemma writes_outcomes: "writes e s t \<Longrightarrow> outcomes_ok s \<Longrightarrow> outcomes_ok t"
  by (cases rule: writes.cases) (auto simp: outcomes_ok_def outcome_known_def change_map simp del: set_map)

lemma written_outcomes: "written_by e s t \<Longrightarrow> outcomes_ok s \<Longrightarrow> outcomes_ok t"
  by (induction rule: rtranclp_induct) (auto intro: writes_outcomes)

text \<open>Every decision was made from nothing, or from one that is there, so its history can be followed.\<close>

definition lineage_ok :: "tables \<Rightarrow> bool" where
  "lineage_ok s \<longleftrightarrow> list_all (\<lambda>c. from_known s (cl_derived_from c)) (decisions s)"

lemma lineage_frame: "decisions t = decisions s \<Longrightarrow> lineage_ok t = lineage_ok s"
  by (simp add: lineage_ok_def from_known_def decision_of_def cong: option.case_cong)

lemma writes_lineage:
  assumes "writes e s t" and "lineage_ok s"
  shows "lineage_ok t"
proof -
  have stays: "from_known s x \<Longrightarrow> from_known t x" for x
    using found_stays [OF assms(1)] by (cases x) simp_all
  have "set (map cl_derived_from (decisions t)) \<subseteq> set (map cl_derived_from (decisions s)) \<union> {x. from_known s x}"
    using assms(1) by (cases rule: writes.cases) (auto simp: change_map simp del: set_map)
  then show ?thesis using assms(2) stays unfolding lineage_ok_def list_all_iff by fastforce
qed

lemma written_lineage: "written_by e s t \<Longrightarrow> lineage_ok s \<Longrightarrow> lineage_ok t"
  by (induction rule: rtranclp_induct) (auto intro: writes_lineage)

lemma lineage_followed:
  "lineage_ok s \<Longrightarrow> from_known s (cl_derived_from c) \<Longrightarrow> \<exists>b. overMany n s c = Inr b"
proof (induction n arbitrary: c)
  case (Suc n)
  show ?case
  proof (cases "cl_derived_from c")
    case (Some i)
    then obtain d where d: "decision_of i s = Some d" using Suc.prems(2) by auto
    then have "from_known s (cl_derived_from d)"
      using Suc.prems(1) decision_of_frame [OF d] by (auto simp: lineage_ok_def list_all_iff)
    then obtain b where "overMany n s d = Inr b" using Suc.IH Suc.prems(1) by blast
    then show ?thesis using Some d by (cases "cl_kind c") auto
  qed (cases "cl_kind c"; auto)
qed auto

lemma contradicting_answers:
  "lineage_ok s \<Longrightarrow> \<forall>i \<in> set ids. decision_of i s \<noteq> None \<Longrightarrow> \<exists>out. contradicting s ids = Inr out"
proof (induction ids)
  case (Cons i ids)
  then obtain c out where c: "decision_of i s = Some c" "contradicting s ids = Inr out" by auto
  then have "from_known s (cl_derived_from c)"
    using Cons.prems(1) decision_of_frame [OF c(1)] by (auto simp: lineage_ok_def list_all_iff)
  then obtain b where "overMany 64 s c = Inr b" using lineage_followed [OF Cons.prems(1)] by blast
  then show ?case using c by (simp add: and_then_def)
qed simp

subsection \<open>Keys under the writes\<close>

definition keys_ok :: "env \<Rightarrow> tables \<Rightarrow> bool" where
  "keys_ok e s \<longleftrightarrow> (\<forall>r \<in> set (occurrences s). keyed e s r)"

lemma keyed_stays:
  assumes "writes e s t" and "keyed e s r"
  shows "keyed e t r"
proof (cases "de_live_key r")
  case (Some k)
  then obtain c where c: "decision_of (de_decision r) s = Some c" "k = held_under e c r"
    using assms(2) by (auto simp: keyed_def)
  then obtain rv where "decision_of (de_decision r) t = Some (c\<lparr>cl_revision := rv\<rparr>)"
    using found_on [OF one_write [OF assms(1)]] by blast
  then show ?thesis using Some c(2) by (simp add: keyed_def held_under_def)
qed (simp add: keyed_def)

lemma writes_keys:
  assumes "writes e s t" and "keys_ok e s"
  shows "keys_ok e t"
proof -
  have "keyed e s r" if r: "r \<in> set (occurrences t)" for r
    using assms(1)
  proof (cases rule: writes.cases)
    case (moves p f)
    then obtain x where "x \<in> set (occurrences s)" "r = (if p x then f x else x)" using r by (auto simp: in_change)
    then show ?thesis using moves assms(2) by (auto simp: keys_ok_def)
  next
    case (agrees p)
    then obtain x where x: "x \<in> set (occurrences s)" "r = (if p x then x\<lparr>de_state := Approved\<rparr> else x)"
      using r by (auto simp: in_change)
    then have "de_live_key r = de_live_key x" "about r = about x" by (simp_all add: about_def)
    then show ?thesis using x(1) assms(2) keyed_like [of r x s s e] by (auto simp: keys_ok_def)
  qed (use r assms(2) in \<open>auto simp: keys_ok_def\<close>)
  then show ?thesis using keyed_stays [OF assms(1)] by (auto simp: keys_ok_def)
qed

lemma written_keys: "written_by e s t \<Longrightarrow> keys_ok e s \<Longrightarrow> keys_ok e t"
  by (induction rule: rtranclp_induct) (auto intro: writes_keys)

lemma known_found: "known s i \<longleftrightarrow> decision_of i s \<noteq> None"
  by (auto simp: known_def decision_of_def find_None_iff)

lemma unsay_parts:
  assumes "unsayWhatARecordContradicts e flaws subject p v s = Inr (undone, t)"
  obtains agreed where "contradicted e s p v = Inr agreed" "agreed = [] \<and> t = s
    \<or> (\<exists>n. returnToWaiting agreed (withdraw_approvals (\<lambda>a. List.member agreed (da_decision a)) subject (truncated e) s) = (n, t))"
  using assms by (auto simp: unsayWhatARecordContradicts_def Let_def split: if_splits prod.splits)

lemma unsay_ok:
  assumes "triage_ok s" and "unsayWhatARecordContradicts e flaws subject p v s = Inr (undone, t)"
  shows "triage_ok t"
  using assms(2)
proof (rule unsay_parts)
  fix agreed
  assume "agreed = [] \<and> t = s \<or> (\<exists>n. returnToWaiting agreed
      (withdraw_approvals (\<lambda>a. List.member agreed (da_decision a)) subject (truncated e) s) = (n, t))"
  then show "triage_ok t" using assms(1) returned_ok [OF assms(1), of "\<lambda>a. List.member agreed (da_decision a)" agreed] by auto
qed

lemma returned_rows:
  assumes "returnToWaiting ds (withdraw_approvals which subject now s) = (n, t)" and "\<And>a. da_decision a \<in> set ds \<Longrightarrow> which a"
  shows "decisions t = decisions s" and "\<And>r. r \<in> set (occurrences t) \<Longrightarrow> de_state r = Approved
    \<Longrightarrow> r \<in> set (occurrences s) \<and> de_decision r \<notin> set ds"
proof -
  let ?s = "withdraw_approvals which subject now s"
  let ?p = "\<lambda>r. List.member ds (de_decision r) \<and> de_state r = Approved
     \<and> \<not> list_ex (\<lambda>a. da_decision a = de_decision r \<and> da_withdrawn_at a = None) (approvals ?s)"
  let ?f = "\<lambda>r. r\<lparr>de_state := Proposed, de_sent_back_at := None\<rparr>"
  have t: "t = ?s\<lparr>occurrences := change ?p ?f (occurrences ?s)\<rparr>"
    using assms(1) by (simp add: returnToWaiting_def Let_def)
  then show "decisions t = decisions s" by (simp add: withdraw_approvals_def)
  show "r \<in> set (occurrences s) \<and> de_decision r \<notin> set ds" if r: "r \<in> set (occurrences t)" "de_state r = Approved" for r
  proof -
    from r(1) obtain y where y: "y \<in> set (occurrences s)" "r = (if ?p y then ?f y else y)" by (auto simp: t in_change)
    then have same: "r = y" "\<not> ?p y" using r(2) by (auto split: if_splits)
    have "\<not> list_ex (\<lambda>a. da_decision a = de_decision r \<and> da_withdrawn_at a = None) (approvals ?s)" if "de_decision r \<in> set ds"
      using assms(2) that by (auto simp: list_ex_iff withdraw_approvals_def in_change)
    then show ?thesis using same y(1) r(2) by auto
  qed
qed

lemma contradicted_stand:
  assumes "triage_ok s" and "outcomes_ok s" and "contradicted e s p v = Inr agreed"
    and "r \<in> set (occurrences s)" and "de_state r = Approved" and "de_decision r \<notin> set agreed"
    and "de_product r = p" and "issue_of e (de_issue r) = issue_of e v"
  shows "\<exists>c. decision_of (de_decision r) s = Some c \<and> cl_outcome c \<noteq> NotApplicable
    \<and> (settingAside (cl_outcome c) \<longrightarrow> overMany 64 s c = Inr False)"
proof -
  have "known s (de_decision r)" using assms(1,4) by (auto simp: triage_ok_def base_ok_def)
  then obtain d where "d \<in> set (decisions s)" "cl_id d = de_decision r" by (auto simp: known_def)
  then obtain c where c: "decision_of (de_decision r) s = Some c"
    unfolding decision_of_def by (cases "find (\<lambda>c. cl_id c = de_decision r) (decisions s)") (auto simp: find_None_iff)
  then have cs: "c \<in> set (decisions s)" "cl_id c = de_decision r" by (auto dest: decision_of_frame)
  show ?thesis
  proof (cases "cl_outcome c = NotApplicable \<or> settingAside (cl_outcome c)")
    case True
    have "cl_outcome c \<in> set Outcomes" using assms(2) cs(1) by (auto simp: outcomes_ok_def)
    then have "List.member settingAsideOutcomes (cl_outcome c)" by (rule settingAside_listed [OF True])
    moreover have "de_live_key r \<noteq> None" "has_agreement s (de_decision r)"
      using assms(1,4,5) by (auto simp: triage_ok_def base_ok_def rows_agreed_def Live_def)
    ultimately have "de_decision r \<in> set (remdups (map de_decision (filter (\<lambda>r. de_product r = p
        \<and> issue_of e (de_issue r) = issue_of e v \<and> de_live_key r \<noteq> None
        \<and> list_ex (\<lambda>c. cl_id c = de_decision r \<and> List.member settingAsideOutcomes (cl_outcome c)) (decisions s)
        \<and> list_ex (\<lambda>a. da_decision a = de_decision r \<and> da_withdrawn_at a = None) (approvals s)) (occurrences s))))"
      using assms(4,7,8) cs by (auto simp: list_ex_iff has_agreement_def)
    then obtain c' where "decision_of (de_decision r) s = Some c'" "cl_outcome c' \<noteq> NotApplicable" "overMany 64 s c' = Inr False"
      using contradicting_has [OF assms(3) [unfolded contradicted_def]] assms(6) by blast
    then show ?thesis using c by auto
  qed (use c in auto)
qed

subsection \<open>Whatever is done at the desk\<close>

text \<open>What the triage store is told of incidents when it acts at this desk.\<close>

definition desk_stand :: "desk \<Rightarrow> bool" where
  "desk_stand d \<longleftrightarrow> (\<forall>e. incident e = standing_incident (incidents d) \<longrightarrow> all_stand e (books d))"

text \<open>Every live row is held under the key of the issue it is read as.\<close>

definition desk_keys :: "desk \<Rightarrow> bool" where
  "desk_keys d \<longleftrightarrow> (\<forall>e. issue_of e = reads_as d \<and> digest e = hashed_by d \<longrightarrow> keys_ok e (books d))"

definition reads_settled :: "desk \<Rightarrow> bool" where
  "reads_settled d \<longleftrightarrow> (\<forall>i. reads_as d (reads_as d i) = reads_as d i)"

lemma keys_same:
  "issue_of e' = issue_of e \<Longrightarrow> digest e' = digest e \<Longrightarrow> keys_ok e s \<Longrightarrow> keys_ok e' s"
  by (simp add: keys_ok_def keyed_def held_under_def cong: option.case_cong)

definition desk_base :: "desk \<Rightarrow> bool" where
  "desk_base d \<longleftrightarrow> triage_ok (books d) \<and> desk_keys d \<and> reads_settled d \<and> outcomes_ok (books d) \<and> lineage_ok (books d)
     \<and> numbered eh_id (incidents d) \<and> one_standing (incidents d)
     \<and> list_all (\<lambda>i. Standing i \<longleftrightarrow> eh_live i \<noteq> None) (incidents d)"

definition desk_ok :: "desk \<Rightarrow> bool" where
  "desk_ok d \<longleftrightarrow> desk_base d \<and> desk_stand d"

lemma all_stand_same:
  "incident e' = incident e \<Longrightarrow> all_stand e s \<Longrightarrow> all_stand e' s"
  by (rule stand_fewer) simp_all

lemma desk_settled: "desk_base d \<Longrightarrow> read_at d e \<Longrightarrow> settled_issues e"
  by (simp add: desk_base_def read_at_def reads_settled_def settled_issues_def)

text \<open>Whatever the tables are written to is told what the desk reads, so what the writes keep holds of the desk.\<close>

lemma written_desk_base:
  assumes "desk_base d" and "read_at d e" and "written_by e (books d) t"
  shows "outcomes_ok t" and "lineage_ok t" and "keys_ok e t"
  using assms written_outcomes [OF assms(3)] written_lineage [OF assms(3)] written_keys [OF assms(3)]
  by (auto simp: desk_base_def desk_keys_def read_at_def)

lemma keys_everywhere:
  "keys_ok e t \<Longrightarrow> read_at d e \<Longrightarrow> books d' = t \<Longrightarrow> reads_as d' = reads_as d \<Longrightarrow> hashed_by d' = hashed_by d \<Longrightarrow> desk_keys d'"
  using keys_same [of _ e t] by (simp add: desk_keys_def read_at_def)

lemma triage_desk_base:
  assumes "desk_base d" and "read_at d e" and "triage_by e (books d) t"
  shows "desk_base (d\<lparr>books := t\<rparr>)"
proof -
  have ok: "triage_ok (books d)" using assms(1) by (simp add: desk_base_def)
  note all = written_desk_base [OF assms(1,2) by_written [OF assms(3) ok desk_settled [OF assms(1,2)]]]
  have "desk_keys (d\<lparr>books := t\<rparr>)" by (rule keys_everywhere [OF all(3) assms(2)]) simp_all
  then show ?thesis using assms(1) by_ok [OF assms(3) ok] all(1,2) by (simp add: desk_base_def reads_settled_def)
qed

lemma triage_desk_ok:
  assumes "desk_ok d" and "read_at d e" and "triage_by e (books d) t"
  shows "desk_ok (d\<lparr>books := t\<rparr>)"
proof -
  have base: "desk_base d" "triage_ok (books d)" "all_stand e (books d)"
    using assms(1,2) by (auto simp: desk_ok_def desk_base_def desk_stand_def read_at_def)
  have "written_by e (books d) t" by (rule by_written [OF assms(3) base(2) desk_settled [OF base(1) assms(2)]])
  then have "all_stand e t" using base(3) by (rule written_stand)
  then have "all_stand e' t" if "incident e' = standing_incident (incidents d)" for e'
    by (rule all_stand_same [rotated]) (use that assms(2) in \<open>simp add: read_at_def\<close>)
  then show ?thesis using triage_desk_base [OF base(1) assms(2,3)] by (simp add: desk_ok_def desk_stand_def)
qed

lemma record_parts:
  assumes "RecordIncident e flaws told subject p v knownAt grounds d = Inr ((kept, undone), d')"
  obtains t where "unsayWhatARecordContradicts e flaws subject p v (books d) = Inr (undone, t)"
    "books d' = t" "incidents d' = incidents d @ [kept]" "reads_as d' = reads_as d" "hashed_by d' = hashed_by d" "one_standing (incidents d')"
    "eh_id kept = fresh (incidents d)" "eh_product kept = p" "eh_live kept = Some v" "eh_cleared_at kept = None"
    "trail d' = trail d @ [noteIncident subject p v None (Some (eh_known_at kept))]"
proof -
  define new where "new = \<lparr>eh_id = fresh (incidents d), eh_issue = v, eh_product = p,
     eh_known_at = fst knownAt div 1000 * 1000, eh_grounds = grounds, eh_recorded_by = subject_id subject,
     eh_recorded_at = truncated e, eh_cleared_at = None, eh_cleared_by = None, eh_cleared_because = None, eh_live = Some v\<rparr>"
  note made = assms [unfolded RecordIncident_def Let_def, folded new_def]
  then obtain x where x: "unsayWhatARecordContradicts e flaws subject p v (books d) = Inr x" by auto
  obtain u t where t: "x = (u, t)" by (cases x)
  have "one_standing (incidents d @ [new])" using made by (auto simp: refuse_if_def split: if_splits)
  moreover have "kept = new" "u = undone"
    "d' = d\<lparr>books := t, incidents := incidents d @ [new],
       trail := trail d @ [noteIncident subject p v None (Some (eh_known_at new))]\<rparr>"
    using made unfolding x t and_then_simps by auto
  ultimately show thesis using x t by (intro that [of t]) (simp_all add: new_def)
qed

lemma unsay_written:
  assumes "unsayWhatARecordContradicts e flaws subject p v s = Inr (undone, t)"
  shows "written_by e s t"
  using assms
proof (rule unsay_parts)
  fix agreed
  let ?w = "withdraw_approvals (\<lambda>a. List.member agreed (da_decision a)) subject (truncated e) s"
  assume "agreed = [] \<and> t = s \<or> (\<exists>n. returnToWaiting agreed ?w = (n, t))"
  moreover have "writes e ?w t" if "returnToWaiting agreed ?w = (n, t)" for n
    using returnToWaiting_written that by blast
  ultimately show "written_by e s t" using write_then [OF beside_frames(5) one_write] by blast
qed

lemma recording_base:
  assumes "desk_base d" and "read_at d e" and "RecordIncident e flaws told subject p v knownAt grounds d = Inr ((kept, undone), d')"
  shows "desk_base d'"
  using assms(3)
proof (rule record_parts)
  fix t
  assume unsay: "unsayWhatARecordContradicts e flaws subject p v (books d) = Inr (undone, t)"
    and d': "books d' = t" "incidents d' = incidents d @ [kept]" "one_standing (incidents d')"
    and same_desk: "reads_as d' = reads_as d" "hashed_by d' = hashed_by d"
    and kept: "eh_id kept = fresh (incidents d)" "eh_live kept = Some v" "eh_cleared_at kept = None"
  note all = written_desk_base [OF assms(1,2) unsay_written [OF unsay]]
  have "triage_ok t" using assms(1) unsay_ok [OF _ unsay] by (simp add: desk_base_def)
  moreover have "numbered eh_id (incidents d')" using assms(1) kept(1) d'(2) by (simp add: desk_base_def numbered_append)
  moreover have "desk_keys d'" by (rule keys_everywhere [OF all(3) assms(2) d'(1) same_desk])
  ultimately show "desk_base d'" using assms(1) all(1,2) d' kept same_desk
    by (simp add: desk_base_def Standing_def reads_settled_def)
qed

lemma recording_ok:
  assumes "desk_ok d" and "read_at d e" and "RecordIncident e flaws told subject p v knownAt grounds d = Inr ((kept, undone), d')"
  shows "desk_ok d'"
  using assms(3)
proof (rule record_parts)
  fix t
  assume unsay: "unsayWhatARecordContradicts e flaws subject p v (books d) = Inr (undone, t)"
    and d': "books d' = t" "incidents d' = incidents d @ [kept]"
    and kept: "eh_product kept = p" "eh_live kept = Some v"
  have base: "desk_base d" and ok: "triage_ok (books d)" "outcomes_ok (books d)" "all_stand e (books d)"
    using assms(1,2) by (auto simp: desk_ok_def desk_base_def desk_stand_def read_at_def)
  from unsay obtain agreed where agreed: "contradicted e (books d) p v = Inr agreed" "agreed = [] \<and> t = books d
      \<or> (\<exists>n. returnToWaiting agreed (withdraw_approvals (\<lambda>a. List.member agreed (da_decision a)) subject (truncated e) (books d)) = (n, t))"
    by (rule unsay_parts)
  have same: "decisions t = decisions (books d)"
    and left: "r \<in> set (occurrences t) \<Longrightarrow> de_state r = Approved \<Longrightarrow> r \<in> set (occurrences (books d)) \<and> de_decision r \<notin> set agreed" for r
    using agreed(2) returned_rows [of agreed "\<lambda>a. List.member agreed (da_decision a)" subject "truncated e" "books d" _ t] by auto
  have "let_stand e' t r" if e': "incident e' = standing_incident (incidents d')"
    and r: "r \<in> set (occurrences t)" "de_state r = Approved" for e' r
  proof (cases "de_product r = p \<and> de_issue r = v")
    case True
    then obtain c where "decision_of (de_decision r) (books d) = Some c" "cl_outcome c \<noteq> NotApplicable"
      "settingAside (cl_outcome c) \<longrightarrow> overMany 64 (books d) c = Inr False"
      using contradicted_stand [OF ok(1,2) agreed(1)] left [OF r] r(2) by metis
    then have "let_stand e' (books d) r" by (auto simp: let_stand_iff refuseIncident_None)
    then show ?thesis using let_stand_frame [OF same] by simp
  next
    case False
    have "let_stand e (books d) r" using left [OF r] r(2) all_standD [OF ok(3)] by blast
    moreover have "incident e' (de_product r) (de_issue r) \<Longrightarrow> incident e (de_product r) (de_issue r)"
      using e' assms(2) False kept d'(2) by (auto simp: read_at_def standing_incident_def)
    ultimately show ?thesis using keeps_let_stand [OF keeps_same [OF same]] by blast
  qed
  then have "desk_stand d'" using d'(1) by (auto simp: desk_stand_def all_stand_def)
  then show "desk_ok d'" using recording_base [OF base assms(2,3)] by (simp add: desk_ok_def)
qed

lemma clear_parts:
  assumes "ClearIncident e told subject i because d = Inr d'"
  shows "books d' = books d" and "reads_as d' = reads_as d" and "hashed_by d' = hashed_by d"
    and "incidents d' = change (\<lambda>r. eh_id r = i \<and> eh_cleared_at r = None)
      (\<lambda>r. r\<lparr>eh_cleared_at := Some (truncated e), eh_cleared_by := Some (subject_id subject),
         eh_cleared_because := Some because, eh_live := None\<rparr>) (incidents d)"
  using assms by (auto simp: ClearIncident_def Let_def split: option.splits)

lemma live_incidents_Cons: "live_incidents (i # kept) = (case eh_live i of None \<Rightarrow> [] | Some v \<Rightarrow> [(eh_product i, v)]) @ live_incidents kept"
  by (simp add: live_incidents_def map_filter_simps split: option.splits)

lemma live_incidents_Nil [simp]: "live_incidents [] = []" by (simp add: live_incidents_def map_filter_simps)

lemma live_incidents_append: "live_incidents (a @ b) = live_incidents a @ live_incidents b"
  by (induction a) (simp_all add: live_incidents_Cons)

lemma in_live_incidents: "(p, v) \<in> set (live_incidents kept) \<longleftrightarrow> standing_incident kept p v"
  by (induction kept) (auto simp: live_incidents_Cons standing_incident_def live_incidents_def map_filter_simps split: option.splits)

text \<open>A change that releases records, or leaves them, leaves no product and issue with two.\<close>

lemma released_standing:
  assumes "\<And>i. i \<in> set kept \<Longrightarrow> eh_live (f i) = None \<or> eh_live (f i) = eh_live i \<and> eh_product (f i) = eh_product i"
  shows "standing_incident (map f kept) p v \<Longrightarrow> standing_incident kept p v"
    and "one_standing kept \<Longrightarrow> one_standing (map f kept)"
proof -
  show sub: "standing_incident (map f kept) p v \<Longrightarrow> standing_incident kept p v" for p v
    using assms by (fastforce simp: standing_incident_def list_ex_iff)
  show "one_standing kept \<Longrightarrow> one_standing (map f kept)"
    using assms
  proof (induction kept)
    case (Cons i kept)
    have less: "standing_incident (map f kept) p v \<Longrightarrow> standing_incident kept p v" for p v
      using Cons.prems(2) by (fastforce simp: standing_incident_def list_ex_iff)
    have "one_standing (map f kept)" using Cons by (auto simp: one_standing_def live_incidents_Cons)
    moreover have "(eh_product i, v) \<notin> set (live_incidents (map f kept))" if "eh_live i = Some v" for v
      using Cons.prems(1) that less by (auto simp: one_standing_def live_incidents_Cons in_live_incidents)
    ultimately show ?case using Cons.prems(2) [of i]
      by (auto simp: one_standing_def live_incidents_Cons split: option.splits)
  qed simp
qed

lemma clearing:
  assumes "ClearIncident e told subject i because d = Inr d'"
  shows clearing_base: "desk_base d \<Longrightarrow> desk_base d'" and clearing_ok: "desk_ok d \<Longrightarrow> desk_ok d'"
proof -
  note parts = clear_parts [OF assms]
  let ?f = "\<lambda>r. if eh_id r = i \<and> eh_cleared_at r = None then r\<lparr>eh_cleared_at := Some (truncated e),
     eh_cleared_by := Some (subject_id subject), eh_cleared_because := Some because, eh_live := None\<rparr> else r"
  have kept: "incidents d' = map ?f (incidents d)" using parts(4) by (simp add: change_def)
  note less = released_standing [of "incidents d" ?f, folded kept]
  show base: "desk_base d'" if ok: "desk_base d"
  proof -
    have "numbered eh_id (incidents d')"
      using ok parts(4) by (auto simp: desk_base_def intro: numbered_change)
    moreover have "list_all (\<lambda>i. Standing i \<longleftrightarrow> eh_live i \<noteq> None) (incidents d')"
      using ok unfolding kept desk_base_def list_all_iff by (auto simp: Standing_def)
    moreover have "desk_keys d'" using ok parts(1-3) by (simp add: desk_base_def desk_keys_def)
    ultimately show ?thesis using ok less(2) parts(1,2) by (simp add: desk_base_def reads_settled_def)
  qed
  show "desk_ok d'" if ok: "desk_ok d"
  proof -
    have "all_stand e' (books d')" if e': "incident e' = standing_incident (incidents d')" for e' :: env
    proof -
      obtain e1 :: env where "incident e1 = standing_incident (incidents d)"
        by (rule that [of "e'\<lparr>incident := standing_incident (incidents d)\<rparr>"]) simp
      moreover from this have "all_stand e1 (books d)" using ok by (auto simp: desk_ok_def desk_stand_def)
      ultimately show ?thesis using e' less(1) parts(1) by (auto intro: stand_fewer)
    qed
    then show ?thesis using base ok by (simp add: desk_ok_def desk_stand_def)
  qed
qed

end
