(* ===== verification/Triage_Props.thy ===== *)
theory Triage_Props
  imports Triage_Invariant
begin

section \<open>What the triage store promises\<close>

text \<open>
  The properties of the decisions, over any sequence of acts and any surroundings, and a sequence
  of acts at which they are seen: somebody proposes, somebody else agrees, the reasoning is
  written again, and a sweep finds the versions gone.
\<close>

subsection \<open>A sample\<close>

definition sample_person :: "int \<Rightarrow> Subject" where
  "sample_person i = \<lparr>kind = Person, subject_id = i, Identity = ''p'', Admin = False, Audits = False,
     grants = [(1, [PublicTriage, Approver])], scope = None, unnarrowed = False, delegated = False, party = 0,
     teams = [], on_cases = [], codeFindings = [], casesReadOnly = False, published = []\<rparr>"

definition sample_env :: env where
  "sample_env = \<lparr>policy = (\<lambda>_. None), digest = (\<lambda>s. s), issue_of = (\<lambda>i. i), clock = 100, threshold = 1000,
     bulk_cap = 10, deadline_at = (\<lambda>_ _ _. None), incident = (\<lambda>_ _. False), private_left = (\<lambda>_ _. None),
     is_rule = (\<lambda>_. False), flawed = (\<lambda>_. False), severity_of = (\<lambda>_ _. 550), in_support = (\<lambda>_. True),
     covers = (\<lambda>ids. int (length ids)),
     limits_set = \<lparr>BoundReview = 200, BoundAgreed = 2000, BoundOccurrences = 50000\<rparr>\<rparr>"

definition after :: "failure + 'a \<times> tables \<Rightarrow> tables" where
  "after x = (case x of Inr (_, t) \<Rightarrow> t | Inl _ \<Rightarrow> no_tables)"

definition done_well :: "failure + 'a \<times> tables \<Rightarrow> bool" where
  "done_well x = (case x of Inr _ \<Rightarrow> True | Inl _ \<Rightarrow> False)"

lemma done_wellD: "done_well x \<Longrightarrow> \<exists>y. x = Inr (y, after x)"
  by (auto simp: done_well_def after_def split: sum.splits)

definition proposed_sample :: "failure + DecisionOccurrence list \<times> tables" where
  "proposed_sample = Propose sample_env (sample_person 7) sample_proposal no_tables"

definition approved_sample :: "failure + DecisionApproved \<times> tables" where
  "approved_sample = ApproveDecision sample_env (sample_person 8) 1 ''batch'' [] [] (after proposed_sample)"

definition revised_sample :: "failure + (Revision \<times> ForPerson list) \<times> tables" where
  "revised_sample = Revise sample_env (sample_person 8) 1 ''still not reachable'' (after approved_sample)"

lemma samples_done: "done_well proposed_sample" "done_well approved_sample" "done_well revised_sample"
  by code_simp+

text \<open>How long the sample put its place off: from the microsecond it was asked for in to its date.\<close>

lemma sample_put_off: "put_off sample_env (after proposed_sample) (place_of sample_env 1 23 ''lib/app'') = {0 ..< 900}"
proof -
  have "held_at sample_env (after proposed_sample) (place_of sample_env 1 23 ''lib/app'') = [\<lparr>from_at = 0, to_at = 900\<rparr>]"
    by code_simp
  then show ?thesis using held_at_instants [of sample_env "after proposed_sample" "place_of sample_env 1 23 ''lib/app''"] by simp
qed

lemma put_off_time_counts_every_instant_once_witness:
  "DeferredSoFar sample_env (after proposed_sample) 1 23 ''lib/app'' = 900"
  using put_off_time_counts_every_instant_once [of sample_env "after proposed_sample" 1 23 "''lib/app''"]
  by (simp add: sample_put_off)

text \<open>Asked to wait another fifty it stands on its own; asked to wait past the threshold it does not.\<close>

lemma who_needs_a_second_person_witness:
  "\<not> NeedsApproval sample_env (after proposed_sample) (sample_proposal\<lparr>deferred_until := Some 950\<rparr>)
    \<and> NeedsApproval sample_env (after proposed_sample) (sample_proposal\<lparr>deferred_until := Some 1000\<rparr>)"
proof -
  let ?at = "Where_at sample_proposal"
  have at: "ProductID ?at = 1" "VulnerabilityID ?at = 23" "OccurrenceIdentity ?at = ''lib/app''"
    by (simp_all add: sample_proposal_def sample_place_def)
  have both: "{0 ..< 900} \<union> asked_for (clock sample_env) (Some u) = {0 ..< u}" if "900 \<le> u" for u
    using that by (auto simp: asked_for_def sample_env_def)
  have one: "NeedsApproval sample_env (after proposed_sample) (sample_proposal\<lparr>deferred_until := Some u\<rparr>) \<longleftrightarrow> 1000 \<le> u"
    if u: "900 \<le> u" "u < 2000" for u
  proof -
    have fits: "outcome (sample_proposal\<lparr>deferred_until := Some u\<rparr>) = Deferred \<Longrightarrow> int (card
       (put_off sample_env (after proposed_sample) (place_of sample_env (ProductID (Where_at (sample_proposal\<lparr>deferred_until := Some u\<rparr>)))
          (VulnerabilityID (Where_at (sample_proposal\<lparr>deferred_until := Some u\<rparr>))) (OccurrenceIdentity (Where_at (sample_proposal\<lparr>deferred_until := Some u\<rparr>))))
        \<union> asked_for (clock sample_env) (deferred_until (sample_proposal\<lparr>deferred_until := Some u\<rparr>)))) < 2 ^ 63"
      using u by (simp add: at sample_put_off both)
    have "HidesRisk Deferred" "\<not> Commits Deferred" by code_simp+
    then show ?thesis using who_needs_a_second_person [OF fits] u
      by (simp add: at sample_put_off both) (simp add: sample_proposal_def sample_env_def)
  qed
  show ?thesis using one [of 950] one [of 1000] by simp
qed

text \<open>
  The sum goes round: beside one stretch already over, a deferral asked for past the 292 years a
  duration can say adds up to less than nothing, and needs nobody.
\<close>

lemma a_long_enough_deferral_needs_nobody:
  "\<not> NeedsApproval (sample_env\<lparr>clock := 2000\<rparr>) (after proposed_sample) (sample_proposal\<lparr>deferred_until := Some (2000 + 2 ^ 63)\<rparr>)
    \<and> NeedsApproval (sample_env\<lparr>clock := 2000\<rparr>) (after proposed_sample) (sample_proposal\<lparr>deferred_until := Some 3000\<rparr>)
    \<and> Proposal_valid (\<lambda>_. None) 2000 (sample_proposal\<lparr>deferred_until := Some (2000 + 2 ^ 63)\<rparr>) = None"
  by code_simp

lemma samples_reached:
  "triage_act\<^sup>*\<^sup>* no_tables (after proposed_sample)" "triage_act\<^sup>*\<^sup>* no_tables (after approved_sample)"
  "triage_act\<^sup>*\<^sup>* no_tables (after revised_sample)"
proof -
  have "triage_act no_tables (after proposed_sample)"
    using done_wellD [OF samples_done(1)] unfolding proposed_sample_def by (blast intro: acts proposes)
  moreover have "triage_act (after proposed_sample) (after approved_sample)"
    using done_wellD [OF samples_done(2)] unfolding approved_sample_def by (blast intro: acts approves)
  moreover have "triage_act (after approved_sample) (after revised_sample)"
    using done_wellD [OF samples_done(3)] unfolding revised_sample_def by (auto intro: acts revises)
  ultimately show "triage_act\<^sup>*\<^sup>* no_tables (after proposed_sample)" "triage_act\<^sup>*\<^sup>* no_tables (after approved_sample)"
    "triage_act\<^sup>*\<^sup>* no_tables (after revised_sample)"
    by (blast intro: rtranclp.rtrancl_into_rtrancl rtranclp.rtrancl_refl)+
qed

subsection \<open>A second person\<close>

lemma decision_found:
  assumes "triage_ok s" and "c \<in> set (decisions s)"
  shows "decision_of (cl_id c) s = Some c"
proof -
  obtain d where d: "decision_of (cl_id c) s = Some d"
    using assms(2) by (cases "decision_of (cl_id c) s") (auto simp: decision_of_def find_None_iff)
  then have "d \<in> set (decisions s)" "cl_id d = cl_id c" using decision_of_frame by auto
  moreover have "inj_on cl_id (set (decisions s))" using assms(1) by (auto simp: triage_ok_def base_ok_def numbered_inj)
  ultimately show ?thesis using d assms(2) by (auto dest: inj_onD)
qed

text \<open>
  C1: whatever is done and in whatever order, a row that is approved has an agreement that stands,
  given for the very revision its decision now rests on, by somebody who neither recorded the
  decision, nor proposed any row of it, nor wrote any revision of its reasoning.
\<close>

theorem nothing_is_hidden_on_one_signature:
  assumes "triage_act\<^sup>*\<^sup>* no_tables s" and "r \<in> set (occurrences s)" and "de_state r = Approved"
  shows "\<exists>a \<in> set (approvals s). \<exists>d. decision_of (de_decision r) s = Some d \<and> da_decision a = de_decision r
    \<and> da_withdrawn_at a = None \<and> cl_revision d = Some (da_revision a) \<and> da_approved_by a \<noteq> cl_proposed_by d
    \<and> (\<forall>x \<in> set (occurrences s). de_decision x = de_decision r \<longrightarrow> de_proposed_by x \<noteq> da_approved_by a)
    \<and> (\<forall>v \<in> set (revisions s). dr_decision v = de_decision r \<longrightarrow> dr_written_by v \<noteq> da_approved_by a)"
proof -
  have ok: "triage_ok s" using assms(1) by (rule reachable_ok)
  then obtain a where a: "a \<in> set (approvals s)" "da_decision a = de_decision r" "da_withdrawn_at a = None"
    using assms(2,3) by (auto simp: triage_ok_def rows_agreed_def has_agreement_def)
  then have "agreement_ok s a" using ok by (simp add: triage_ok_def base_ok_def)
  then obtain c where c: "c \<in> set (decisions s)" "cl_id c = de_decision r" "cl_revision c = Some (da_revision a)"
    "cl_proposed_by c \<noteq> da_approved_by a" and sec: "second s (de_decision r) (da_approved_by a)"
    using a(2,3) by (auto simp: agreement_ok_def)
  have "decision_of (de_decision r) s = Some c" using decision_found [OF ok c(1)] c(2) by simp
  then show ?thesis using a c sec unfolding second_def by (intro bexI [OF _ a(1)] exI [of _ c]) auto
qed

theorem nothing_is_hidden_on_one_signature_witness:
  "\<exists>a \<in> set (approvals (after approved_sample)). da_approved_by a \<noteq> 7 \<and> da_withdrawn_at a = None \<and> da_revision a = 1"
proof -
  let ?r = "hd (occurrences (after approved_sample))"
  have "occurrences (after approved_sample) \<noteq> [] \<and> de_state ?r = Approved \<and> de_decision ?r = 1 \<and> de_proposed_by ?r = 7"
    and one: "map_option cl_revision (decision_of 1 (after approved_sample)) = Some (Some 1)"
    by code_simp+
  then have r: "?r \<in> set (occurrences (after approved_sample))" "de_state ?r = Approved" "de_decision ?r = 1"
    "de_proposed_by ?r = 7" by auto
  show ?thesis
    using nothing_is_hidden_on_one_signature [OF samples_reached(2) r(1,2)] r one by fastforce
qed

subsection \<open>One live decision at a place\<close>

lemma same_key_same_row:
  assumes "unique_keys rows" and "a \<in> set rows" and "b \<in> set rows" and "de_live_key a = Some k" and "de_live_key b = Some k"
  shows "a = b"
  using assms unfolding unique_keys_def
proof (induction rows)
  case (Cons r rows)
  then show ?case by (cases "de_live_key r") (auto simp: in_held_keys)
qed simp

text \<open>
  C7: in every table the acts can reach, a row holds a key exactly while it is live, and no two
  rows hold the same one: at most one decision stands at a place and a pair of versions.
\<close>

theorem one_live_decision_at_a_key:
  assumes "triage_act\<^sup>*\<^sup>* no_tables s" and "r \<in> set (occurrences s)"
  shows "(Live (de_state r) \<longleftrightarrow> de_live_key r \<noteq> None)
    \<and> (\<forall>x \<in> set (occurrences s). Live (de_state x) \<longrightarrow> de_live_key x = de_live_key r \<longrightarrow> x = r)"
proof -
  have ok: "base_ok s" using reachable_ok [OF assms(1)] by (simp add: triage_ok_def)
  then have "\<And>x. x \<in> set (occurrences s) \<Longrightarrow> Live (de_state x) \<longleftrightarrow> de_live_key x \<noteq> None" "unique_keys (occurrences s)"
    by (simp_all add: base_ok_def)
  then show ?thesis using assms(2) same_key_same_row by (metis option.collapse)
qed

theorem one_live_decision_at_a_key_witness:
  "de_live_key (hd (occurrences (after approved_sample))) \<noteq> None"
proof -
  let ?r = "hd (occurrences (after approved_sample))"
  have "occurrences (after approved_sample) \<noteq> [] \<and> Live (de_state ?r)" by code_simp
  then show ?thesis using one_live_decision_at_a_key [OF samples_reached(2), of ?r] by simp
qed

subsection \<open>Rewritten reasoning\<close>

lemma find_change:
  "(\<And>x. f (g x) = f x) \<Longrightarrow> find (\<lambda>x. f x = i) (change (\<lambda>x. f x = i) g rows) = map_option g (find (\<lambda>x. f x = i) rows)"
  by (induction rows) (auto simp: change_def)

text \<open>
  C34: writing a decision's reasoning again takes every agreement to it back and puts every row of
  it back to be argued, held by nobody and sent back to nobody; what the decision rests on from
  then on is the new text, by the one who wrote it.
\<close>

theorem revising_takes_every_agreement_back:
  assumes "Revise e subject i said s = Inr ((v, told), t)"
  shows "(\<forall>x \<in> set (occurrences t). de_decision x = i \<longrightarrow> de_state x = Proposed \<and> de_sent_back_at x = None)
    \<and> (\<forall>a \<in> set (approvals t). da_decision a = i \<longrightarrow> da_withdrawn_at a \<noteq> None)
    \<and> map_option cl_revision (decision_of i t) = Some (Some (dr_id v))
    \<and> v \<in> set (revisions t) \<and> dr_decision v = i \<and> dr_body v = said \<and> dr_written_by v = subject_id subject"
  using assms
proof (rule revise_parts)
  fix d rows s1 s2 s3
  assume w: "writableRows e mayDecideOn subject i s = Inr (d, rows, s1)"
    and v: "dr_decision v = i" "dr_body v = said" "dr_written_by v = subject_id subject"
    and s2: "s2 = withdraw_approvals (\<lambda>a. da_decision a = i) subject (truncated e) (s1\<lparr>revisions := revisions s1 @ [v]\<rparr>)"
    and s3: "s3 = s2\<lparr>decisions := change (\<lambda>c. cl_id c = i) (\<lambda>c. c\<lparr>cl_revision := Some (dr_id v)\<rparr>) (decisions s2)\<rparr>"
    and t: "retake e (StandsAtAnyVersion (cl_outcome d)) rows s3 = Inr t"
  note frame = writableRows_frame [OF w] and kept = retake_frame [OF t]
  have same: "occurrences s3 = occurrences s" "decisions s2 = decisions s" "revisions s3 = revisions s1 @ [v]"
    "approvals s3 = approvals s2" using frame(4) by (simp_all add: s3 s2)
  have "de_state x = Proposed \<and> de_sent_back_at x = None" if x: "x \<in> set (occurrences t)" "de_decision x = i" for x
  proof (rule ccontr)
    assume "\<not> (de_state x = Proposed \<and> de_sent_back_at x = None)"
    then have "x \<in> set (occurrences s)" "de_id x \<notin> set (map de_id rows)" using kept x(1) same(1) by auto
    then show False using x(2) frame(2) by (auto simp: in_rows_of)
  qed
  moreover have "\<not> has_agreement t i" using no_agreement_left kept same(4) unfolding s2 has_agreement_def by auto
  then have "\<forall>a \<in> set (approvals t). da_decision a = i \<longrightarrow> da_withdrawn_at a \<noteq> None" by (auto simp: has_agreement_def)
  moreover have "map_option cl_revision (decision_of i t) = Some (Some (dr_id v))"
  proof -
    have "decision_of i t = map_option (\<lambda>c. c\<lparr>cl_revision := Some (dr_id v)\<rparr>) (decision_of i s)"
      using kept by (simp add: s3 same(2) decision_of_def find_change)
    then show ?thesis using frame(1) by simp
  qed
  ultimately show ?thesis using v kept same(3) by auto
qed

theorem revising_takes_every_agreement_back_witness:
  "list_all (\<lambda>x. de_state x = Proposed) (filter (\<lambda>x. de_decision x = 1) (occurrences (after revised_sample)))"
proof -
  obtain v told where "revised_sample = Inr ((v, told), after revised_sample)"
    using done_wellD [OF samples_done(3)] by auto
  from revising_takes_every_agreement_back [OF this [unfolded revised_sample_def]] show ?thesis
    unfolding revised_sample_def list_all_iff by auto
qed

subsection \<open>The sweep of a build\<close>

definition lapsed_at :: "int \<Rightarrow> DecisionOccurrence \<Rightarrow> DecisionOccurrence" where
  "lapsed_at moment r = r\<lparr>de_state := LapsedState, de_ended_at := Some moment, de_live_key := None\<rparr>"

lemma filter_take_ids:
  assumes "distinct (map f xs)"
  shows "length (filter (\<lambda>x. f x \<notin> set (take n (map f xs))) xs) = length xs - n"
proof -
  have "filter (\<lambda>x. f x \<notin> set (take n (map f xs))) xs = drop n xs"
    using assms
  proof (induction xs arbitrary: n)
    case (Cons x xs)
    show ?case
    proof (cases n)
      case (Suc m)
      have "f y \<noteq> f x" if "y \<in> set xs" for y using Cons.prems that by (metis distinct.simps(2) list.map(2) image_eqI set_map)
      then have "filter (\<lambda>y. f y \<notin> set (take n (map f (x # xs)))) (x # xs)
          = filter (\<lambda>y. f y \<notin> set (take m (map f xs))) xs"
        unfolding Suc by (simp cong: filter_cong)
      then show ?thesis using Cons Suc by simp
    qed simp
  qed simp
  then show ?thesis by simp
qed

lemma change_cong: "(\<And>r. r \<in> set rows \<Longrightarrow> p r \<longleftrightarrow> q r) \<Longrightarrow> change p f rows = change q f rows"
  by (auto simp: change_def)

lemma markLapsed_change:
  "markLapsed ids moment s = s\<lparr>occurrences := change (\<lambda>r. List.member ids (de_id r) \<and> Live (de_state r))
     (lapsed_at moment) (occurrences s)\<rparr>"
  by (simp add: markLapsed_def lapsed_at_def [abs_def])

lemma lapsable_row_frame:
  "lapsable_row w (s\<lparr>occurrences := x\<rparr>) r = lapsable_row w s r" "\<not> lapsable_row w s (lapsed_at moment r)"
  "de_id (lapsed_at moment r) = de_id r"
  by (simp_all add: lapsable_row_def lapsed_at_def Live_def)

text \<open>One pass leaves what a later pass would mark, less what it marked.\<close>

lemma one_pass:
  assumes ids: "distinct (map de_id (occurrences s))" and t: "t = markLapsed (lapsable w s) moment s"
  shows "change (lapsable_row w t) (lapsed_at moment) (occurrences t)
      = change (lapsable_row w s) (lapsed_at moment) (occurrences s)"
    and "matched (lapsable_row w s) (occurrences s) = length (lapsable w s) + matched (lapsable_row w t) (occurrences t)"
    and "distinct (map de_id (occurrences t))"
proof -
  have marked: "List.member (lapsable w s) (de_id r) \<and> Live (de_state r)
      \<longleftrightarrow> lapsable_row w s r \<and> de_id r \<in> set (lapsable w s)" if r: "r \<in> set (occurrences s)" for r
  proof
    assume m: "List.member (lapsable w s) (de_id r) \<and> Live (de_state r)"
    then obtain x where "x \<in> set (occurrences s)" "lapsable_row w s x" "de_id x = de_id r"
      by (auto simp: lapsable_def dest!: in_set_takeD)
    moreover have "inj_on de_id (set (occurrences s))" using ids by (simp add: distinct_map)
    ultimately show "lapsable_row w s r \<and> de_id r \<in> set (lapsable w s)" using r m by (auto dest: inj_onD)
  qed (auto simp: lapsable_row_def)
  have occ: "occurrences t = change (\<lambda>r. lapsable_row w s r \<and> de_id r \<in> set (lapsable w s)) (lapsed_at moment) (occurrences s)"
    unfolding t markLapsed_change using marked by (auto intro: change_cong)
  have same: "lapsable_row w t = lapsable_row w s" by (simp add: t markLapsed_change lapsable_row_frame fun_eq_iff)
  show "change (lapsable_row w t) (lapsed_at moment) (occurrences t) = change (lapsable_row w s) (lapsed_at moment) (occurrences s)"
    unfolding same occ by (auto simp: change_def lapsable_row_frame)
  have left: "matched p (change q f rows) = matched (\<lambda>r. p r \<and> \<not> q r) rows"
    if "\<And>r. \<not> p (f r)" for p q and f :: "DecisionOccurrence \<Rightarrow> DecisionOccurrence" and rows
    using that by (induction rows) (auto simp: matched_def change_def)
  let ?l = "filter (lapsable_row w s) (occurrences s)"
  have "matched (lapsable_row w t) (occurrences t)
      = length (filter (\<lambda>r. de_id r \<notin> set (take (sweep_most w) (map de_id ?l))) ?l)"
    unfolding same occ by (subst left) (auto simp: lapsable_row_frame matched_def lapsable_def filter_filter intro: arg_cong [of _ _ length] filter_cong)
  also have "\<dots> = length ?l - sweep_most w" using ids by (intro filter_take_ids) (simp add: distinct_map_filter)
  finally show "matched (lapsable_row w s) (occurrences s) = length (lapsable w s) + matched (lapsable_row w t) (occurrences t)"
    by (simp add: matched_def lapsable_def)
  show "distinct (map de_id (occurrences t))" using ids by (simp add: occ change_map lapsable_row_frame)
qed

lemma lapse_loop_marks:
  assumes "0 < sweep_most w" and "distinct (map de_id (occurrences s))"
  shows "snd (lapse_loop w moment lapsed s)
      = s\<lparr>occurrences := change (lapsable_row w s) (lapsed_at moment) (occurrences s)\<rparr>
    \<and> length (fst (lapse_loop w moment lapsed s)) = length lapsed + matched (lapsable_row w s) (occurrences s)"
  using assms
proof (induction w moment lapsed s rule: lapse_loop.induct)
  case (1 w moment lapsed s)
  let ?t = "markLapsed (lapsable w s) moment s"
  note pass = one_pass [OF "1.prems"(2) refl, of w moment]
  have rest: "s\<lparr>occurrences := x\<rparr> = ?t\<lparr>occurrences := x\<rparr>" for x by (simp add: markLapsed_def)
  consider (none) "lapsable w s = []" | (full) "lapsable w s \<noteq> []" "length (lapsable w s) = sweep_most w"
    | (last) "lapsable w s \<noteq> []" "length (lapsable w s) \<noteq> sweep_most w" by blast
  then show ?case
  proof cases
    case none
    then have no: "filter (lapsable_row w s) (occurrences s) = []" using "1.prems"(1) by (simp add: lapsable_def)
    then have "change (lapsable_row w s) (lapsed_at moment) (occurrences s) = occurrences s"
      by (auto simp: change_def filter_empty_conv map_idI)
    then show ?thesis using none no by (subst (1 2) lapse_loop.simps) (simp add: Let_def matched_def)
  next
    case full
    note IH = "1.IH" [OF refl full "1.prems"(1) pass(3)]
    show ?thesis using IH full unfolding rest pass(1) [symmetric]
      by (subst (1 2) lapse_loop.simps) (simp add: Let_def pass(2))
  next
    case last
    then have less: "length (lapsable w s) < sweep_most w" by (simp add: lapsable_def)
    then have "matched (lapsable_row w s) (occurrences s) = length (lapsable w s)" by (simp add: lapsable_def matched_def)
    then have "matched (lapsable_row w ?t) (occurrences ?t) = 0" using pass(2) by linarith
    then have "filter (lapsable_row w ?t) (occurrences ?t) = []" by (simp only: matched_def length_0_conv)
    then have "change (lapsable_row w ?t) (lapsed_at moment) (occurrences ?t) = occurrences ?t"
      by (auto simp: change_def filter_empty_conv map_idI)
    then show ?thesis using last less \<open>matched _ _ = length _\<close> unfolding rest pass(1) [symmetric]
      by (subst (1 2) lapse_loop.simps) (simp add: Let_def)
  qed
qed

text \<open>
  C35: the sweep of a build, batch after batch until a batch is short, marks exactly the live rows
  the build has moved past and no build still holds, as one pass over the whole table would, each
  once; the key of each is released, and the number answered is how many there were.
\<close>

theorem sweeping_in_batches_is_one_pass:
  assumes "triage_act\<^sup>*\<^sup>* no_tables s" and "0 < sweep_most w" and "Lapse e w s = ((n, told), t)"
  shows "t = s\<lparr>occurrences := change (lapsable_row w s)
      (\<lambda>r. r\<lparr>de_state := LapsedState, de_ended_at := Some (truncated e), de_live_key := None\<rparr>) (occurrences s)\<rparr>
    \<and> n = int (matched (lapsable_row w s) (occurrences s)) \<and> matched (lapsable_row w t) (occurrences t) = 0"
proof -
  have "distinct (map de_id (occurrences s))"
    using reachable_ok [OF assms(1)] by (auto simp: triage_ok_def base_ok_def numbered_def distinct_map)
  note loop = lapse_loop_marks [OF assms(2) this, of "truncated e" "[]"]
  have "t = snd (lapse_loop w (truncated e) [] s)" "n = int (length (fst (lapse_loop w (truncated e) [] s)))"
    using assms(3) by (auto simp: Lapse_def split: prod.splits)
  then have t: "t = s\<lparr>occurrences := change (lapsable_row w s) (lapsed_at (truncated e)) (occurrences s)\<rparr>"
    and n: "n = int (matched (lapsable_row w s) (occurrences s))" using loop by simp_all
  have "\<not> lapsable_row w t x" if "x \<in> set (occurrences t)" for x
  proof -
    from that obtain r where "x = (if lapsable_row w s r then lapsed_at (truncated e) r else r)" by (auto simp: t in_change)
    then show ?thesis by (cases "lapsable_row w s r") (simp_all add: t lapsable_row_frame)
  qed
  then have "matched (lapsable_row w t) (occurrences t) = 0" by (simp add: matched_def filter_empty_conv)
  then show ?thesis using t n by (simp add: lapsed_at_def [abs_def])
qed

theorem sweeping_in_batches_is_one_pass_witness:
  "\<exists>told t. Lapse sample_env \<lparr>swept_product = 1, open_moved = (\<lambda>_. True), stillCovered = (\<lambda>_. False), sweep_most = 1\<rparr>
      (after approved_sample) = ((1, told), t) \<and> map de_state (occurrences t) = [LapsedState]"
proof -
  let ?w = "\<lparr>swept_product = 1, open_moved = (\<lambda>_. True), stillCovered = (\<lambda>_. False), sweep_most = 1\<rparr>"
  obtain n told t where l: "Lapse sample_env ?w (after approved_sample) = ((n, told), t)" by (metis prod.exhaust)
  have most: "0 < sweep_most ?w" by simp
  have "matched (lapsable_row ?w (after approved_sample)) (occurrences (after approved_sample)) = 1"
    "map (lapsable_row ?w (after approved_sample)) (occurrences (after approved_sample)) = [True]" by code_simp+
  then show ?thesis
    using sweeping_in_batches_is_one_pass [OF samples_reached(2) most l] l by (auto simp: change_def)
qed

end
