(* ===== verification/Triage_Desk.thy ===== *)
theory Triage_Desk
  imports Triage_Standing Triage_Props
begin

section \<open>Decisions beside incidents\<close>

text \<open>
  What the triage store and the records of incidents promise together, over any sequence of acts by
  anybody: decisions recorded, agreed to, revised, carried and swept, incidents recorded and cleared.
\<close>

subsection \<open>Whatever is done\<close>

lemma no_desk_ok: "desk_ok (no_desk h)"
  by (simp add: desk_ok_def desk_base_def no_desk_def no_tables_ok desk_stand_def desk_keys_def keys_ok_def reads_settled_def all_stand_def outcomes_ok_def lineage_ok_def
      one_standing_def live_incidents_def map_filter_simps no_tables_def [THEN arg_cong, of occurrences]
      no_tables_def [THEN arg_cong, of decisions])

lemma rating_base: "desk_base d \<Longrightarrow> desk_base (d\<lparr>assessments := rows\<rparr>)"
  and rating_ok: "desk_ok d \<Longrightarrow> desk_ok (d\<lparr>assessments := rows\<rparr>)"
  by (simp_all add: desk_ok_def desk_base_def desk_keys_def reads_settled_def desk_stand_def)

lemma desk_act_ok: "desk_act d d' \<Longrightarrow> desk_ok d \<Longrightarrow> desk_ok d'"
proof (induction rule: desk_act.induct)
  case (records_incident d e flaws told subject issue_product issue knownAt grounds kept d')
  then show ?case using recording_ok [of d e] by (cases kept) blast
qed (auto intro: triage_desk_ok clearing_ok rating_ok)

lemma desk_act_base: "desk_act d d' \<Longrightarrow> desk_base d \<Longrightarrow> desk_base d'"
proof (induction rule: desk_act.induct)
  case (records_incident d e flaws told subject issue_product issue knownAt grounds kept d')
  then show ?case using recording_base [of d e] by (cases kept) blast
qed (auto intro: triage_desk_base clearing_base rating_base)

lemma desk_reachable_ok: "desk_act\<^sup>*\<^sup>* (no_desk h) d \<Longrightarrow> desk_ok d"
  by (induction rule: rtranclp_induct) (auto intro: no_desk_ok desk_act_ok)

subsection \<open>A sample\<close>

text \<open>A deferral that was agreed to, and then a record that the product was exploited through its issue.\<close>

definition desk_approved :: desk where
  "desk_approved = (no_desk (\<lambda>s. s))\<lparr>books := after approved_sample\<rparr>"

definition attack_env :: env where "attack_env = sample_env\<lparr>clock := start_of_2000 + 1000000000\<rparr>"

definition attacked_sample :: "failure + (Incident \<times> int \<times> ForPerson list) \<times> desk" where
  "attacked_sample = RecordIncident attack_env [] True (sample_person 7) 1 23 (start_of_2000, 0) ''seen in the wild'' desk_approved"

definition desk_attacked :: desk where
  "desk_attacked = (case attacked_sample of Inr (_, d) \<Rightarrow> d | Inl _ \<Rightarrow> desk_approved)"

lemma attacked_done: "case attacked_sample of Inl _ \<Rightarrow> False | Inr _ \<Rightarrow> True" by code_simp

lemma desk_reached: "desk_act\<^sup>*\<^sup>* (no_desk (\<lambda>s. s)) desk_approved" "desk_act\<^sup>*\<^sup>* (no_desk (\<lambda>s. s)) desk_attacked"
proof -
  let ?n = "no_desk (\<lambda>s. s)"
  have env: "read_at (no_desk (\<lambda>s. s)) sample_env" "read_at (?n\<lparr>books := t\<rparr>) sample_env" "read_at desk_approved attack_env" for t
    by (simp_all add: read_at_def no_desk_def sample_env_def standing_incident_def desk_approved_def attack_env_def fun_eq_iff)
  have "triage_by sample_env no_tables (after proposed_sample)"
    using done_wellD [OF samples_done(1)] unfolding proposed_sample_def by (blast intro: proposes)
  then have "desk_act ?n (?n\<lparr>books := after proposed_sample\<rparr>)"
    using desk_act.triages [OF env(1)] by (simp add: no_desk_def)
  moreover have "triage_by sample_env (after proposed_sample) (after approved_sample)"
    using done_wellD [OF samples_done(2)] unfolding approved_sample_def by (blast intro: approves)
  then have "desk_act (?n\<lparr>books := after proposed_sample\<rparr>) desk_approved"
    using desk_act.triages [OF env(2)] by (simp add: no_desk_def desk_approved_def)
  ultimately show approved: "desk_act\<^sup>*\<^sup>* (no_desk (\<lambda>s. s)) desk_approved" by (blast intro: rtranclp.rtrancl_into_rtrancl rtranclp.rtrancl_refl)
  obtain x where x: "attacked_sample = Inr x" using attacked_done by (auto split: sum.splits)
  have "attacked_sample = Inr (fst x, desk_attacked)" unfolding desk_attacked_def x by (cases x) simp
  then have "desk_act desk_approved desk_attacked"
    unfolding attacked_sample_def by (rule desk_act.records_incident [OF env(3)])
  then show "desk_act\<^sup>*\<^sup>* (no_desk (\<lambda>s. s)) desk_attacked" using approved by (blast intro: rtranclp.rtrancl_into_rtrancl)
qed

subsection \<open>A selection and what comes from it\<close>

text \<open>
  A decision is a selection's where it was made over many issues, or is recorded as returned from or
  made again from one that was.
\<close>

inductive from_selection :: "tables \<Rightarrow> Decision \<Rightarrow> bool" for t where
  over_many: "cl_kind c = BulkDecision \<Longrightarrow> from_selection t c"
| came_from: "cl_kind c = ReturnedDecision \<or> cl_kind c = FindingDecision \<Longrightarrow> cl_derived_from c = Some i
    \<Longrightarrow> decision_of i t = Some earlier \<Longrightarrow> from_selection t earlier \<Longrightarrow> from_selection t c"

lemma overMany_selection: "from_selection t c \<Longrightarrow> overMany n t c \<noteq> Inr False"
proof (induction arbitrary: n rule: from_selection.induct)
  case (over_many c)
  then show ?case by (cases n) simp_all
next
  case (came_from c i earlier)
  then show ?case by (cases n) auto
qed

subsection \<open>What holds\<close>

text \<open>
  C10: whatever is decided, agreed to, revised, made again, carried and swept, and whatever incidents are recorded and
  cleared, in whatever order, an approved decision at an issue an incident stands through in its product does
  not say that the issue does not apply, and where it sets the issue aside or puts it off it was
  neither made over many issues nor is recorded as come from a decision that was. Merging issues is not among these acts,
  and a row made again by itself records nothing it came from (\<^verbatim>\<open>Triage_Again\<close>).
\<close>

theorem nothing_approved_contradicts_an_incident:
  assumes "desk_act\<^sup>*\<^sup>* (no_desk h) d" and "r \<in> set (occurrences (books d))" and "de_state r = Approved"
    and "standing_incident (incidents d) (de_product r) (de_issue r)"
  shows "\<exists>c. decision_of (de_decision r) (books d) = Some c \<and> cl_outcome c \<noteq> NotApplicable
    \<and> (settingAside (cl_outcome c) \<longrightarrow> overMany 64 (books d) c = Inr False \<and> \<not> from_selection (books d) c)"
proof -
  let ?e = "sample_env\<lparr>incident := standing_incident (incidents d)\<rparr>"
  have "all_stand ?e (books d)" using desk_reachable_ok [OF assms(1)] by (simp add: desk_ok_def desk_stand_def)
  then have "let_stand ?e (books d) r" using assms(2,3) by (rule all_standD)
  then show ?thesis using assms(4) unfolding let_stand_iff refuseIncident_None
    using overMany_selection [of "books d" _ 64] by auto
qed

theorem nothing_approved_contradicts_an_incident_witness:
  "\<exists>c. decision_of 1 (books desk_attacked) = Some c \<and> settingAside (cl_outcome c) \<and> \<not> from_selection (books desk_attacked) c"
proof -
  let ?r = "hd (occurrences (books desk_attacked))"
  have r: "?r \<in> set (occurrences (books desk_attacked))" "de_state ?r = Approved"
    "standing_incident (incidents desk_attacked) (de_product ?r) (de_issue ?r)" "de_decision ?r = 1"
    and one: "map_option (\<lambda>c. settingAside (cl_outcome c)) (decision_of 1 (books desk_attacked)) = Some True"
    by code_simp+
  show ?thesis using nothing_approved_contradicts_an_incident [OF desk_reached(2) r(1-3)] r(4) one by auto
qed

text \<open>
  C26: recording that a product was exploited is refused by nothing on record but a record that
  already stands about the issue there: no decision, agreement or history of one is in its way; and
  no product ever has two that stand about one issue.
\<close>

theorem only_a_standing_record_refuses_one:
  assumes "desk_act\<^sup>*\<^sup>* (no_desk h) d" and "incident_refusal e subject p knownAt grounds = None" and "told"
  shows "((\<exists>x. RecordIncident e flaws told subject p v knownAt grounds d = Inr x) \<longleftrightarrow> \<not> standing_incident (incidents d) p v)
    \<and> distinct (live_incidents (incidents d))"
proof -
  have ok: "triage_ok (books d)" "lineage_ok (books d)" "one_standing (incidents d)"
    using desk_reachable_ok [OF assms(1)] by (simp_all add: desk_ok_def desk_base_def)
  have "\<exists>agreed. contradicted e (books d) p v = Inr agreed"
    unfolding contradicted_def
  proof (rule contradicting_answers [OF ok(2)], rule ballI)
    fix i
    assume "i \<in> set (remdups (map de_decision (filter (\<lambda>r. de_product r = p \<and> issue_of e (de_issue r) = issue_of e v
        \<and> de_live_key r \<noteq> None
        \<and> list_ex (\<lambda>c. cl_id c = de_decision r \<and> List.member settingAsideOutcomes (cl_outcome c)) (decisions (books d))
        \<and> list_ex (\<lambda>a. da_decision a = de_decision r \<and> da_withdrawn_at a = None) (approvals (books d)))
      (occurrences (books d)))))"
    then obtain r where "r \<in> set (occurrences (books d))" "i = de_decision r" by auto
    then have "known (books d) i" using ok(1) by (simp add: triage_ok_def base_ok_def)
    then show "decision_of i (books d) \<noteq> None" by (simp only: known_found not_False_eq_True)
  qed
  then obtain agreed where agreed: "contradicted e (books d) p v = Inr agreed" by blast
  have "\<exists>y. unsayWhatARecordContradicts e flaws subject p v (books d) = Inr y"
    unfolding unsayWhatARecordContradicts_def agreed and_then_simps Let_def
    by (cases "agreed = []") (simp_all split: prod.split)
  moreover have "one_standing (incidents d @ [i]) \<longleftrightarrow> \<not> standing_incident (incidents d) p v"
    if "eh_product i = p" "eh_live i = Some v" for i
  proof -
    have "live_incidents (incidents d @ [i]) = live_incidents (incidents d) @ [(p, v)]"
      using that by (simp add: live_incidents_append live_incidents_Cons)
    then show ?thesis using ok(3) by (auto simp: one_standing_def in_live_incidents)
  qed
  ultimately have "(\<exists>x. RecordIncident e flaws told subject p v knownAt grounds d = Inr x) \<longleftrightarrow> \<not> standing_incident (incidents d) p v"
    using assms(2,3) unfolding RecordIncident_def Let_def by (auto simp: refuse_if_def checked_def and_then_def)
  then show ?thesis using ok(3) by (simp add: one_standing_def)
qed

theorem only_a_standing_record_refuses_one_witness:
  "\<not> (\<exists>x. RecordIncident attack_env [] True (sample_person 8) 1 23 (start_of_2000, 0) ''seen again'' desk_attacked = Inr x)
    \<and> (\<exists>x. RecordIncident attack_env [] True (sample_person 8) 1 5 (start_of_2000, 0) ''seen again'' desk_attacked = Inr x)"
proof -
  have allowed': "incident_refusal attack_env (sample_person 8) 1 (start_of_2000, 0) ''seen again'' = None" by code_simp
  have "standing_incident (incidents desk_attacked) 1 23" "\<not> standing_incident (incidents desk_attacked) 1 5" by code_simp+
  then show ?thesis using only_a_standing_record_refuses_one [OF desk_reached(2) allowed' TrueI] by blast
qed

end
