(* ===== verification/Triage_Again.thy ===== *)
theory Triage_Again
  imports Triage_Desk
begin

section \<open>A row made again by itself\<close>

text \<open>
  A row made again by itself is recorded as come from nothing, though the agreement it stands on was
  given to the selection: an incident leaves it standing. Here two issues are put off together and
  agreed to, the versions move, one row is made again, and the product is attacked through its issue.
\<close>

definition put_off_together :: "failure + (int \<times> int list \<times> Skipped list) \<times> tables" where
  "put_off_together = BulkDecision_act sample_env (sample_person 7)
     \<lparr>BuildID = 1, ComponentID = 1, VulnerabilityIDs = [23, 5], SkipDecided = False\<rparr>
     [\<lparr>resolved_at = sample_place, resolved_severity = 550\<rparr>,
      \<lparr>resolved_at = sample_place\<lparr>VulnerabilityID := 5\<rparr>, resolved_severity = 550\<rparr>]
     \<lparr>Contains = [], Matched = 2, Named = 2\<rparr> sample_proposal DefaultBounds no_tables"

definition together_agreed :: "failure + DecisionApproved \<times> tables" where
  "together_agreed = ApproveDecision sample_env (sample_person 8) 1 ''batch'' [] [] (after put_off_together)"

definition together_lapsed :: "(int \<times> ForPerson list) \<times> tables" where
  "together_lapsed = Lapse sample_env
     \<lparr>swept_product = 1, open_moved = (\<lambda>_. True), stillCovered = (\<lambda>_. False), sweep_most = 500\<rparr> (after together_agreed)"

definition one_made_again :: "failure + DecisionOccurrence list \<times> tables" where
  "one_made_again = Reaffirm (sample_env\<lparr>clock := 200\<rparr>) (sample_person 7)
     \<lparr>PreviousID = 1, Remade_at = sample_place, Remade_reasoning = ''still so'', Remade_by = 7\<rparr> (snd together_lapsed)"

definition attacked_after_all :: "failure + (Incident \<times> int \<times> ForPerson list) \<times> desk" where
  "attacked_after_all = RecordIncident attack_env [] True (sample_person 7) 1 23 (start_of_2000, 0) ''seen in the wild''
     ((no_desk (\<lambda>s. s))\<lparr>books := after one_made_again\<rparr>)"

definition left_standing :: desk where
  "left_standing = (case attacked_after_all of Inr (_, d) \<Rightarrow> d | Inl _ \<Rightarrow> no_desk (\<lambda>s. s))"

lemma made_again_done: "done_well put_off_together" "done_well together_agreed" "done_well one_made_again"
  "case attacked_after_all of Inl _ \<Rightarrow> False | Inr _ \<Rightarrow> True"
  by code_simp+

lemma left_standing_reached: "desk_act\<^sup>*\<^sup>* (no_desk (\<lambda>s. s)) left_standing"
proof -
  let ?d = "\<lambda>t. (no_desk (\<lambda>s. s))\<lparr>books := t\<rparr>"
  note step = rtranclp.rtrancl_into_rtrancl [of desk_act]
  have env: "read_at (?d t) (sample_env\<lparr>clock := m\<rparr>)" "read_at (?d t) attack_env" for t m
    by (simp_all add: read_at_def no_desk_def sample_env_def standing_incident_def attack_env_def fun_eq_iff)
  have same: "sample_env\<lparr>clock := 100\<rparr> = sample_env" by (simp add: sample_env_def)
  note acts' = desk_act.triages [OF env(1) [where m = 100, unfolded same]]
  have start: "desk_act\<^sup>*\<^sup>* (no_desk (\<lambda>s. s)) (?d no_tables)" by (simp add: no_desk_def)
  have "triage_by sample_env no_tables (after put_off_together)"
    using done_wellD [OF made_again_done(1)] unfolding put_off_together_def by (blast intro: decides_in_bulk)
  then have one: "desk_act\<^sup>*\<^sup>* (no_desk (\<lambda>s. s)) (?d (after put_off_together))"
    using step [OF start] acts' [of no_tables] by simp
  have "triage_by sample_env (after put_off_together) (after together_agreed)"
    using done_wellD [OF made_again_done(2)] unfolding together_agreed_def by (blast intro: approves)
  then have two: "desk_act\<^sup>*\<^sup>* (no_desk (\<lambda>s. s)) (?d (after together_agreed))"
    using step [OF one] acts' [of "after put_off_together"] by simp
  have "triage_by sample_env (after together_agreed) (snd together_lapsed)"
    by (rule lapses [of _ _ _ "fst together_lapsed"]) (simp add: together_lapsed_def)
  then have three: "desk_act\<^sup>*\<^sup>* (no_desk (\<lambda>s. s)) (?d (snd together_lapsed))"
    using step [OF two] acts' [of "after together_agreed"] by simp
  have "triage_by (sample_env\<lparr>clock := 200\<rparr>) (snd together_lapsed) (after one_made_again)"
    using done_wellD [OF made_again_done(3)] unfolding one_made_again_def by (blast intro: reaffirms)
  then have four: "desk_act\<^sup>*\<^sup>* (no_desk (\<lambda>s. s)) (?d (after one_made_again))"
    using step [OF three] desk_act.triages [OF env(1), of _ "snd together_lapsed"] by simp
  obtain x where x: "attacked_after_all = Inr x" using made_again_done(4) by (auto split: sum.splits)
  have "attacked_after_all = Inr (fst x, left_standing)" unfolding left_standing_def x by (cases x) simp
  then have "desk_act (?d (after one_made_again)) left_standing"
    unfolding attacked_after_all_def by (rule desk_act.records_incident [OF env(2)])
  then show ?thesis by (rule step [OF four])
qed

lemma a_row_made_again_alone_forgets_its_selection:
  "\<exists>d r c a given b. desk_act\<^sup>*\<^sup>* (no_desk (\<lambda>s. s)) d \<and> r \<in> set (occurrences (books d)) \<and> de_state r = Approved
    \<and> standing_incident (incidents d) (de_product r) (de_issue r)
    \<and> decision_of (de_decision r) (books d) = Some c \<and> settingAside (cl_outcome c) \<and> cl_derived_from c = None
    \<and> a \<in> set (approvals (books d)) \<and> da_decision a = cl_id c \<and> given \<in> set (approvals (books d))
    \<and> da_carried_from a = Some (da_id given) \<and> decision_of (da_decision given) (books d) = Some b \<and> cl_kind b = BulkDecision"
proof -
  let ?t = "books left_standing"
  let ?r = "last (occurrences ?t)" and ?a = "last (approvals ?t)" and ?given = "hd (approvals ?t)"
  have r: "?r \<in> set (occurrences ?t)" "de_state ?r = Approved"
    "standing_incident (incidents left_standing) (de_product ?r) (de_issue ?r)"
    "?a \<in> set (approvals ?t)" "?given \<in> set (approvals ?t)" "da_carried_from ?a = Some (da_id ?given)"
    by code_simp+
  have "map_option (\<lambda>c. (settingAside (cl_outcome c), cl_derived_from c, da_decision ?a = cl_id c)) (decision_of (de_decision ?r) ?t)
      = Some (True, None, True)"
    "map_option cl_kind (decision_of (da_decision ?given) ?t) = Some BulkDecision"
    by code_simp+
  then obtain c b where cb: "decision_of (de_decision ?r) ?t = Some c" "settingAside (cl_outcome c)" "cl_derived_from c = None"
    "da_decision ?a = cl_id c" "decision_of (da_decision ?given) ?t = Some b" "cl_kind b = BulkDecision" by auto
  show ?thesis
    by (rule exI [of _ left_standing], rule exI [of _ ?r], rule exI [of _ c], rule exI [of _ ?a], rule exI [of _ ?given], rule exI [of _ b])
      (intro conjI left_standing_reached r cb)
qed

end
