(* ===== verification/Triage_Settle.thy ===== *)
theory Triage_Settle
  imports Triage_Standing
begin

section \<open>Settling what stands when two issues merge\<close>

text \<open>
  \<^verbatim>\<open>internal/finding/settle.go\<close> and the part of \<^verbatim>\<open>merge.go\<close> that calls it: two rows turn out to be
  one issue, and what was decided and recorded under each is settled so that one of each stands.
  A decision row, a rating claim and an incident are ranked by how much standing they have; of those that would hold
  one key the highest ranked stays, the rest stop standing with the merge as the reason, and what
  stays is held under the issue it is read as. What a merge does to the names, the findings, the
  ratings in force and the labels of an issue is not here.
\<close>

subsection \<open>Groups in the order they are met\<close>

function grouped :: "('a \<Rightarrow> 'k) \<Rightarrow> 'a list \<Rightarrow> 'a list list" where
  "grouped key [] = []"
| "grouped key (x # xs) =
    (x # filter (\<lambda>y. key y = key x) xs) # grouped key (filter (\<lambda>y. key y \<noteq> key x) xs)"
  by pat_completeness auto
termination by (relation "measure (length \<circ> snd)") (auto simp: le_imp_less_Suc)

lemma in_grouped: "g \<in> set (grouped key xs) \<longleftrightarrow> (\<exists>x \<in> set xs. g = filter (\<lambda>y. key y = key x) xs)"
proof (induction key xs arbitrary: g rule: grouped.induct)
  case (2 key x xs)
  have rest: "filter (\<lambda>y. key y = key z) (filter (\<lambda>y. key y \<noteq> key x) xs) = filter (\<lambda>y. key y = key z) (x # xs)"
    if "key z \<noteq> key x" for z
    using that by (auto intro: filter_cong)
  show ?case
  proof
    assume "g \<in> set (grouped key (x # xs))"
    then consider "g = x # filter (\<lambda>y. key y = key x) xs" | "g \<in> set (grouped key (filter (\<lambda>y. key y \<noteq> key x) xs))" by auto
    then show "\<exists>z \<in> set (x # xs). g = filter (\<lambda>y. key y = key z) (x # xs)"
    proof cases
      case 2
      then obtain z where "z \<in> set xs" "key z \<noteq> key x" "g = filter (\<lambda>y. key y = key z) (filter (\<lambda>y. key y \<noteq> key x) xs)"
        using "2.IH" by auto
      then show ?thesis using rest [of z] by (intro bexI [of _ z]) simp_all
    qed (intro bexI [of _ x]; simp)
  next
    assume "\<exists>z \<in> set (x # xs). g = filter (\<lambda>y. key y = key z) (x # xs)"
    then obtain z where z: "z \<in> set (x # xs)" "g = filter (\<lambda>y. key y = key z) (x # xs)" by blast
    show "g \<in> set (grouped key (x # xs))"
    proof (cases "key z = key x")
      case False
      then have "z \<in> set (filter (\<lambda>y. key y \<noteq> key x) xs)" using z(1) by auto
      then have "g \<in> set (grouped key (filter (\<lambda>y. key y \<noteq> key x) xs))"
        using "2.IH" [of g] z(2) rest [OF False] by auto
      then show ?thesis by simp
    qed (use z in simp)
  qed
qed simp

subsection \<open>The one with the most standing\<close>

fun winner_of :: "('a \<Rightarrow> 'a \<Rightarrow> bool) \<Rightarrow> 'a list \<Rightarrow> 'a" where
  "winner_of outranks (first # rest) = fold (\<lambda>d winner. if outranks d winner then d else winner) rest first"
| "winner_of outranks [] = undefined"

text \<open>What settling asks of a rank: of two rows, one outranks the other, and that is an order.\<close>

locale ranked =
  fixes outranks :: "'a \<Rightarrow> 'a \<Rightarrow> bool" and ident :: "'a \<Rightarrow> int"
  assumes never_itself: "\<not> outranks a a"
    and follows: "outranks a b \<Longrightarrow> outranks b c \<Longrightarrow> outranks a c"
    and one_of_two: "ident a \<noteq> ident b \<Longrightarrow> outranks a b \<or> outranks b a"
begin

lemma fold_wins:
  "(let w = fold (\<lambda>d winner. if outranks d winner then d else winner) rest first
    in (w = first \<or> w \<in> set rest \<and> outranks w first) \<and> (\<forall>x \<in> set rest. ident x \<noteq> ident w \<longrightarrow> outranks w x))"
proof (induction rest arbitrary: first)
  case (Cons y rest)
  define up where "up = (if outranks y first then y else first)"
  define w where "w = fold (\<lambda>d winner. if outranks d winner then d else winner) rest up"
  have wins: "w = up \<or> w \<in> set rest \<and> outranks w up" "\<forall>x \<in> set rest. ident x \<noteq> ident w \<longrightarrow> outranks w x"
    using Cons.IH [of up] unfolding Let_def w_def [symmetric] by blast+
  have "w = first \<or> w \<in> set (y # rest) \<and> outranks w first"
    using wins(1) follows by (cases "outranks y first") (auto simp: up_def)
  moreover have "outranks w y" if other: "ident y \<noteq> ident w"
  proof (cases "outranks y first")
    case True
    then show ?thesis using wins(1) other by (auto simp: up_def)
  next
    case False
    then have "w = first \<or> outranks w first" using wins(1) by (auto simp: up_def)
    then have "\<not> outranks y w" using False follows by blast
    then show ?thesis using one_of_two [OF other] by blast
  qed
  ultimately show ?case using wins(2) unfolding fold_Cons comp_apply up_def [symmetric] w_def [symmetric] Let_def by auto
qed simp

lemma winner_wins:
  assumes "xs \<noteq> []"
  shows "winner_of outranks xs \<in> set xs"
    and "x \<in> set xs \<Longrightarrow> ident x \<noteq> ident (winner_of outranks xs) \<Longrightarrow> outranks (winner_of outranks xs) x"
proof -
  obtain first rest where xs: "xs = first # rest" using assms by (cases xs) auto
  note wins = fold_wins [of rest first, unfolded Let_def, folded winner_of.simps(1)]
  show "winner_of outranks xs \<in> set xs" using wins unfolding xs by auto
  show "x \<in> set xs \<Longrightarrow> ident x \<noteq> ident (winner_of outranks xs) \<Longrightarrow> outranks (winner_of outranks xs) x"
    using wins unfolding xs by auto
qed

end

subsection \<open>Steps that may fail\<close>

fun each :: "('a \<Rightarrow> 's \<Rightarrow> failure + 's) \<Rightarrow> 'a list \<Rightarrow> 's \<Rightarrow> failure + 's" where
  "each f [] s = Inr s"
| "each f (x # xs) s = and_then (f x s) (each f xs)"

lemma each_keeps:
  assumes "each f xs s = Inr t" and "P s" and "\<And>x s t. x \<in> set xs \<Longrightarrow> P s \<Longrightarrow> f x s = Inr t \<Longrightarrow> P t"
  shows "P t"
  using assms
proof (induction xs arbitrary: s)
  case (Cons x xs)
  then obtain u where u: "f x s = Inr u" "each f xs u = Inr t" by auto
  then have "P u" using Cons.prems(2,3) by (meson list.set_intros(1))
  then show ?case using Cons.IH [OF u(2)] Cons.prems(3) by (meson list.set_intros(2))
qed simp

lemma each_answers:
  assumes "P s" and "\<And>x s. x \<in> set xs \<Longrightarrow> P s \<Longrightarrow> \<exists>t. f x s = Inr t \<and> P t"
  shows "\<exists>t. each f xs s = Inr t \<and> P t"
  using assms
proof (induction xs arbitrary: s)
  case (Cons x xs)
  then obtain t where "f x s = Inr t" "P t" by (meson list.set_intros(1))
  then show ?case using Cons.IH [of t] Cons.prems(2) by (auto simp: and_then_simps)
qed simp

text \<open>
  \<^verbatim>\<open>settleStanding\<close>: of the rows of each product the one that outranks the others stays; each other
  is retired against it, and what stays is settled, told whether there were others.
\<close>

definition settle_here ::
  "('a \<Rightarrow> int) \<Rightarrow> ('a \<Rightarrow> 'a \<Rightarrow> bool) \<Rightarrow> ('a \<Rightarrow> 'a \<Rightarrow> 's \<Rightarrow> failure + 's)
    \<Rightarrow> ('a \<Rightarrow> bool \<Rightarrow> 's \<Rightarrow> failure + 's) \<Rightarrow> 'a list \<Rightarrow> 's \<Rightarrow> failure + 's" where
  "settle_here i outranks retire settled here s =
    (let winner = winner_of outranks here in
      and_then (each (\<lambda>r s. if i r = i winner then Inr s else retire r winner s) here s)
        (settled winner (length here > 1)))"

definition settleStanding ::
  "'a list \<Rightarrow> ('a \<Rightarrow> int) \<Rightarrow> ('a \<Rightarrow> int) \<Rightarrow> ('a \<Rightarrow> 'a \<Rightarrow> bool) \<Rightarrow> ('a \<Rightarrow> 'a \<Rightarrow> 's \<Rightarrow> failure + 's)
    \<Rightarrow> ('a \<Rightarrow> bool \<Rightarrow> 's \<Rightarrow> failure + 's) \<Rightarrow> 's \<Rightarrow> failure + 's" where
  "settleStanding rows product i outranks retire settled s =
    each (settle_here i outranks retire settled) (grouped product rows) s"

subsection \<open>Decisions\<close>

record liveDecision =
  ld_id :: int
  ld_product :: int
  ld_filed :: int
  ld_identity :: string
  ld_component :: "string option"
  ld_consumer :: "string option"
  ld_state :: State
  ld_proposed_at :: int
  ld_outcome :: Outcome

definition anyVersion :: "liveDecision \<Rightarrow> bool" where
  "anyVersion d \<longleftrightarrow> List.member AnyVersionOutcomes (ld_outcome d)"

definition outranks :: "liveDecision \<Rightarrow> liveDecision \<Rightarrow> bool" where
  "outranks d other =
    (if (ld_state d = Approved) \<noteq> (ld_state other = Approved) then ld_state d = Approved
     else if ld_proposed_at d \<noteq> ld_proposed_at other then ld_proposed_at d > ld_proposed_at other
     else ld_id d > ld_id other)"

interpretation decision_rank: ranked outranks ld_id
  by unfold_locales (auto simp: outranks_def split: if_splits)

datatype DisplacedKind = DisplacedDecisionOccurrence | DisplacedRating | DisplacedIncident

record Displaced =
  dp_kind :: DisplacedKind
  dp_product :: int
  dp_record :: int
  dp_standing :: int
  dp_merge :: int

text \<open>A merge at work: the desk, the rows it has lapsed and the records it has displaced.\<close>

record settling =
  at_desk :: desk
  lapsed_rows_of :: "int list"
  displaced :: "Displaced list"

definition live_of :: "DecisionOccurrence \<Rightarrow> Decision \<Rightarrow> liveDecision" where
  "live_of r c = \<lparr>ld_id = de_id r, ld_product = de_product r, ld_filed = de_issue r,
     ld_identity = de_identity r, ld_component = de_component_version r, ld_consumer = de_consumer_version r,
     ld_state = de_state r, ld_proposed_at = de_proposed_at r, ld_outcome = cl_outcome c\<rparr>"

definition live_as :: "desk \<Rightarrow> int \<Rightarrow> liveDecision list" where
  "live_as d kept = List.map_filter (\<lambda>r. if reads_as d (de_issue r) = kept \<and> de_live_key r \<noteq> None
     then map_option (live_of r) (decision_of (de_decision r) (books d)) else None) (occurrences (books d))"

text \<open>Nothing for a decision at any version, and the versions it is about, without the blanks, for the rest.\<close>

definition held_versions :: "liveDecision \<Rightarrow> (string \<times> string) option" where
  "held_versions d = (if anyVersion d then None
     else Some (trim_space (orEmpty (ld_component d)), trim_space (orEmpty (ld_consumer d))))"

definition colliding :: "liveDecision list \<Rightarrow> liveDecision list list" where
  "colliding here = filter (\<lambda>s. length (remdups (map ld_filed s)) > 1) (grouped held_versions here)"

definition supersede_one :: "int \<Rightarrow> int \<Rightarrow> liveDecision \<Rightarrow> liveDecision \<Rightarrow> settling \<Rightarrow> settling" where
  "supersede_one mergeID now winner d st =
    (let desk = at_desk st; disagreed = (ld_outcome d \<noteq> ld_outcome winner);
         rows = change (\<lambda>r. de_id r = ld_id d)
           (\<lambda>r. r\<lparr>de_state := LapsedState, de_ended_at := Some now, de_live_key := None\<rparr>) (occurrences (books desk))
     in st\<lparr>at_desk := desk\<lparr>books := (books desk)\<lparr>occurrences := rows\<rparr>,
            superseded := superseded desk @ [\<lparr>ds_id = fresh (superseded desk), ds_occurrence = ld_id d,
              ds_standing = ld_id winner, ds_merge = mergeID, ds_disagreed = disagreed\<rparr>]\<rparr>,
          lapsed_rows_of := lapsed_rows_of st @ [ld_id d],
          displaced := displaced st @ (if disagreed then
            [\<lparr>dp_kind = DisplacedDecisionOccurrence, dp_product = ld_product d, dp_record = ld_id d,
              dp_standing = ld_id winner, dp_merge = mergeID\<rparr>] else [])\<rparr>)"

definition supersede :: "int \<Rightarrow> int \<Rightarrow> liveDecision list \<Rightarrow> settling \<Rightarrow> settling" where
  "supersede mergeID now s st =
    (let winner = winner_of outranks s
     in fold (\<lambda>d st. if ld_id d = ld_id winner then st else supersede_one mergeID now winner d st) s st)"

text \<open>The unique index over \<^verbatim>\<open>live_key\<close> is asked at every write.\<close>

definition hold_as :: "int \<Rightarrow> liveDecision \<Rightarrow> settling \<Rightarrow> failure + settling" where
  "hold_as kept d st =
    (if List.member (lapsed_rows_of st) (ld_id d) \<or> ld_filed d = kept then Inr st
     else
       let desk = at_desk st;
           key = LiveKey (hashed_by desk) (ld_product d) kept (ld_identity d)
             (orEmpty (ld_component d)) (orEmpty (ld_consumer d)) (anyVersion d);
           rows = change (\<lambda>r. de_id r = ld_id d) (\<lambda>r. r\<lparr>de_live_key := Some key\<rparr>) (occurrences (books desk))
       in if unique_keys rows then Inr (st\<lparr>at_desk := desk\<lparr>books := (books desk)\<lparr>occurrences := rows\<rparr>\<rparr>\<rparr>)
          else Inl KeyHeld)"

definition settleDecisions :: "int \<Rightarrow> int \<Rightarrow> int \<Rightarrow> settling \<Rightarrow> failure + settling" where
  "settleDecisions kept mergeID now st =
    (let live = live_as (at_desk st) kept;
         st = fold (\<lambda>here st. fold (supersede mergeID now) (colliding here) st)
           (grouped (\<lambda>d. (ld_product d, ld_identity d)) live) st
     in each (hold_as kept) live st)"

subsection \<open>Incidents\<close>

record standingAttack =
  sa_id :: int
  sa_product :: int
  sa_live :: int
  sa_known_at :: int
  sa_recorded_at :: int

definition attack_outranks :: "standingAttack \<Rightarrow> standingAttack \<Rightarrow> bool" where
  "attack_outranks a other =
    (if sa_recorded_at a \<noteq> sa_recorded_at other then sa_recorded_at a > sa_recorded_at other
     else sa_id a > sa_id other)"

interpretation attack_rank: ranked attack_outranks sa_id
  by unfold_locales (auto simp: attack_outranks_def split: if_splits)

definition attacks_on :: "Incident list \<Rightarrow> int \<Rightarrow> int \<Rightarrow> standingAttack list" where
  "attacks_on kept_records kept gone = List.map_filter (\<lambda>i. case eh_live i of None \<Rightarrow> None
     | Some v \<Rightarrow> if v = kept \<or> v = gone
         then Some \<lparr>sa_id = eh_id i, sa_product = eh_product i, sa_live = v, sa_known_at = eh_known_at i,
                sa_recorded_at = eh_recorded_at i\<rparr>
         else None) kept_records"

definition retire_attack :: "int \<Rightarrow> int \<Rightarrow> int \<Rightarrow> string \<Rightarrow> standingAttack \<Rightarrow> standingAttack \<Rightarrow> settling \<Rightarrow> failure + settling" where
  "retire_attack kept mergeID now why a winner st =
    (let desk = at_desk st
     in Inr (st\<lparr>at_desk := desk\<lparr>incidents := change (\<lambda>i. eh_id i = sa_id a)
            (\<lambda>i. i\<lparr>eh_cleared_at := Some now, eh_cleared_by := None, eh_cleared_because := Some why, eh_live := None\<rparr>)
            (incidents desk),
          trail := trail desk @ [\<lparr>noted_by = None, noted_product = sa_product a, noted_issue = kept,
            noted_was = Some (IncidentKnown (sa_known_at a)), noted_became = Some (Because why)\<rparr>]\<rparr>,
        displaced := displaced st @ (if sa_known_at a \<noteq> sa_known_at winner then
          [\<lparr>dp_kind = DisplacedIncident, dp_product = sa_product a, dp_record = sa_id a,
            dp_standing = sa_id winner, dp_merge = mergeID\<rparr>] else [])\<rparr>))"

definition hold_attack :: "int \<Rightarrow> standingAttack \<Rightarrow> bool \<Rightarrow> settling \<Rightarrow> failure + settling" where
  "hold_attack kept winner contested st =
    (if sa_live winner = kept then Inr st
     else
       let desk = at_desk st;
           kept_records = change (\<lambda>i. eh_id i = sa_id winner) (\<lambda>i. i\<lparr>eh_live := Some kept\<rparr>) (incidents desk)
       in if one_standing kept_records then Inr (st\<lparr>at_desk := desk\<lparr>incidents := kept_records\<rparr>\<rparr>) else Inl KeyHeld)"

definition settleAttacks :: "int \<Rightarrow> int \<Rightarrow> int \<Rightarrow> int \<Rightarrow> string \<Rightarrow> settling \<Rightarrow> failure + settling" where
  "settleAttacks kept gone mergeID now why st =
    settleStanding (attacks_on (incidents (at_desk st)) kept gone) sa_product sa_id attack_outranks
      (retire_attack kept mergeID now why) (hold_attack kept) st"

subsection \<open>Rating claims\<close>

record standingClaim =
  sc_id :: int
  sc_product :: int
  sc_live :: int
  sc_severity :: string
  sc_state :: AssessmentState
  sc_proposed_at :: int

definition claim_outranks :: "standingClaim \<Rightarrow> standingClaim \<Rightarrow> bool" where
  "claim_outranks c other =
    (if (sc_state c = AssessmentLive) \<noteq> (sc_state other = AssessmentLive) then sc_state c = AssessmentLive
     else if sc_proposed_at c \<noteq> sc_proposed_at other then sc_proposed_at c > sc_proposed_at other
     else sc_id c > sc_id other)"

interpretation claim_rank: ranked claim_outranks sc_id
  by unfold_locales (auto simp: claim_outranks_def split: if_splits)

definition claims_on :: "Assessment list \<Rightarrow> int \<Rightarrow> int \<Rightarrow> standingClaim list" where
  "claims_on rows kept gone = List.map_filter (\<lambda>a. case asm_live a of None \<Rightarrow> None
     | Some v \<Rightarrow> if v = kept \<or> v = gone
         then Some \<lparr>sc_id = asm_id a, sc_product = asm_product a, sc_live = v, sc_severity = asm_severity a,
                sc_state = asm_state a, sc_proposed_at = asm_proposed_at a\<rparr>
         else None) rows"

definition retire_claim :: "int \<Rightarrow> int \<Rightarrow> int \<Rightarrow> string \<Rightarrow> standingClaim \<Rightarrow> standingClaim \<Rightarrow> settling \<Rightarrow> failure + settling" where
  "retire_claim kept mergeID now why c winner st =
    (let desk = at_desk st
     in Inr (st\<lparr>at_desk := desk\<lparr>assessments := change (\<lambda>a. asm_id a = sc_id c)
            (\<lambda>a. a\<lparr>asm_state := AssessmentWithdrawn, asm_decided_at := Some now, asm_decided_by := None,
               asm_withdrawn_because := Some why, asm_live := None\<rparr>) (assessments desk),
          trail := trail desk @ [\<lparr>noted_by = None, noted_product = sc_product c, noted_issue = kept,
            noted_was = Some (RatingClaim (sc_severity c) (sc_state c)), noted_became = Some (Because why)\<rparr>]\<rparr>,
        displaced := displaced st @ (if sc_severity c \<noteq> sc_severity winner then
          [\<lparr>dp_kind = DisplacedRating, dp_product = sc_product c, dp_record = sc_id c,
            dp_standing = sc_id winner, dp_merge = mergeID\<rparr>] else [])\<rparr>))"

text \<open>What the claim that stands then makes of the rating in force is left to the findings.\<close>

definition hold_claim :: "int \<Rightarrow> standingClaim \<Rightarrow> bool \<Rightarrow> settling \<Rightarrow> failure + settling" where
  "hold_claim kept winner contested st =
    (if sc_live winner = kept then Inr st
     else
       let desk = at_desk st;
           rows = change (\<lambda>a. asm_id a = sc_id winner) (\<lambda>a. a\<lparr>asm_live := Some kept\<rparr>) (assessments desk)
       in if one_claim rows then Inr (st\<lparr>at_desk := desk\<lparr>assessments := rows\<rparr>\<rparr>) else Inl KeyHeld)"

definition settleRatingClaims :: "int \<Rightarrow> int \<Rightarrow> int \<Rightarrow> int \<Rightarrow> string \<Rightarrow> settling \<Rightarrow> failure + settling" where
  "settleRatingClaims kept gone mergeID now why st =
    settleStanding (claims_on (assessments (at_desk st)) kept gone) sc_product sc_id claim_outranks
      (retire_claim kept mergeID now why) (hold_claim kept) st"

subsection \<open>One issue into another\<close>

text \<open>
  \<open>called\<close> is the name each issue is filed under, \<open>run\<close> the scan whose report named both (0 outside
  one), \<open>names\<close> what it named.
\<close>

definition supersededBecause :: "(int \<Rightarrow> string) \<Rightarrow> int \<Rightarrow> int \<Rightarrow> string" where
  "supersededBecause called kept gone = ''Superseded when '' @ called gone @ '' merged into '' @ called kept @ ''.''"

definition absorb ::
  "(int \<Rightarrow> string) \<Rightarrow> int \<Rightarrow> int \<Rightarrow> string list \<Rightarrow> int \<Rightarrow> int \<Rightarrow> settling \<Rightarrow> failure + settling" where
  "absorb called run now names kept gone st =
    (let desk = at_desk st; moment = now div 1000 * 1000; mergeID = fresh (merges desk);
         desk' = desk\<lparr>merges := merges desk @ [\<lparr>vm_id = mergeID, vm_absorbed = gone, vm_kept = kept,
             vm_named = strings_join '' '' names, vm_run = (if run \<noteq> 0 then Some run else None), vm_merged_at = moment\<rparr>],
           reads_as := (\<lambda>i. if reads_as desk i = gone then kept else reads_as desk i)\<rparr>;
         why = supersededBecause called kept gone
     in and_then (settleDecisions kept mergeID moment (st\<lparr>at_desk := desk', lapsed_rows_of := []\<rparr>))
          (\<lambda>st. and_then (settleRatingClaims kept gone mergeID moment why st)
            (settleAttacks kept gone mergeID moment why)))"

text \<open>
  \<open>best\<close> is whether a row is filed under the name the issues are best known by. Every row is taken as
  its own issue, or the merge starts again from what another one left.
\<close>

definition merging ::
  "(int \<Rightarrow> string) \<Rightarrow> (int \<Rightarrow> bool) \<Rightarrow> int \<Rightarrow> int \<Rightarrow> string list \<Rightarrow> int list \<Rightarrow> desk \<Rightarrow> failure + int \<times> settling" where
  "merging called best run now names rows d =
    (let rows = sort rows; kept = fold (\<lambda>i kept. if best i then i else kept) rows (hd rows)
     in checked (refuse_if (length (filter (\<lambda>i. reads_as d i = i) (remdups rows)) \<noteq> length rows) ErrGoAgain)
       (and_then (each (absorb called run now names kept) (filter (\<lambda>i. i \<noteq> kept) rows)
            \<lparr>at_desk = d, lapsed_rows_of = [], displaced = []\<rparr>) (\<lambda>st. Inr (kept, st))))"

end
