(* ===== verification/Triage_Merge.thy ===== *)
theory Triage_Merge
  imports Triage_Settle Triage_Desk
begin

section \<open>What a merge leaves\<close>

text \<open>
  After two issues merge one decision stands at each place, held under the issue it is read as, and
  a decision that stopped standing was outranked by one that stands. A merge is never stopped by the
  index that keeps one decision at a place.
\<close>

subsection \<open>The live decisions\<close>

lemma in_map_filter: "y \<in> set (List.map_filter f xs) \<longleftrightarrow> (\<exists>x \<in> set xs. f x = Some y)"
  by (induction xs) (auto simp: map_filter_simps split: option.splits)

lemma distinct_map_filter:
  assumes "distinct (map g xs)" and "\<And>x y. f x = Some y \<Longrightarrow> h y = g x"
  shows "distinct (map h (List.map_filter f xs))"
  using assms(1)
proof (induction xs)
  case (Cons x xs)
  have "h y \<noteq> g x" if y: "y \<in> set (List.map_filter f xs)" for y
  proof -
    obtain z where "z \<in> set xs" "f z = Some y" using y by (auto simp: in_map_filter)
    then have "h y \<in> g ` set xs" using assms(2) [of z y] by simp
    then show ?thesis using Cons.prems by auto
  qed
  then show ?case using Cons assms(2) by (fastforce simp: map_filter_simps split: option.splits)
qed (simp add: map_filter_simps)

lemma in_live_as: "l \<in> set (live_as d kept) \<longleftrightarrow> (\<exists>r \<in> set (occurrences (books d)). reads_as d (de_issue r) = kept
    \<and> de_live_key r \<noteq> None \<and> (\<exists>c. decision_of (de_decision r) (books d) = Some c \<and> l = live_of r c))"
  by (auto simp: live_as_def in_map_filter split: if_splits)

lemma live_of_simps [simp]:
  "ld_id (live_of r c) = de_id r" "ld_product (live_of r c) = de_product r" "ld_filed (live_of r c) = de_issue r"
  "ld_identity (live_of r c) = de_identity r" "ld_component (live_of r c) = de_component_version r"
  "ld_consumer (live_of r c) = de_consumer_version r" "ld_outcome (live_of r c) = cl_outcome c"
  "ld_state (live_of r c) = de_state r" "ld_proposed_at (live_of r c) = de_proposed_at r"
  "anyVersion (live_of r c) = StandsAtAnyVersion (cl_outcome c)"
  by (simp_all add: live_of_def anyVersion_def StandsAtAnyVersion_def)

lemma live_distinct: "numbered de_id (occurrences (books d)) \<Longrightarrow> distinct (map ld_id (live_as d kept))"
  unfolding live_as_def
  by (rule distinct_map_filter [where g = de_id])
    (auto simp: numbered_def distinct_map inj_on_def split: if_splits)

subsection \<open>Which rows lapse\<close>

abbreviation spot_of :: "liveDecision \<Rightarrow> int \<times> string" where "spot_of d \<equiv> (ld_product d, ld_identity d)"

definition beaten :: "liveDecision list \<Rightarrow> (liveDecision \<times> liveDecision) list" where
  "beaten s = map (Pair (winner_of outranks s)) (filter (\<lambda>d. ld_id d \<noteq> ld_id (winner_of outranks s)) s)"

definition losers :: "liveDecision list \<Rightarrow> (liveDecision \<times> liveDecision) list" where
  "losers live = concat (map (\<lambda>here. concat (map beaten (colliding here))) (grouped spot_of live))"

lemma fold_concat: "fold (\<lambda>x. fold f (g x)) xs = fold f (concat (map g xs))"
  by (induction xs) (simp_all add: fun_eq_iff)

lemma supersede_fold: "supersede m now s = fold (\<lambda>(w, d). supersede_one m now w d) (beaten s)"
proof -
  have "fold (\<lambda>d st. if ld_id d = ld_id w then st else supersede_one m now w d st) xs st
      = fold (\<lambda>(w, d). supersede_one m now w d) (map (Pair w) (filter (\<lambda>d. ld_id d \<noteq> ld_id w) xs)) st" for w xs st
    by (induction xs arbitrary: st) simp_all
  then show ?thesis by (simp add: fun_eq_iff supersede_def beaten_def Let_def)
qed

lemma settling_fold:
  "fold (\<lambda>here st. fold (supersede m now) (colliding here) st) (grouped spot_of live) st
    = fold (\<lambda>(w, d). supersede_one m now w d) (losers live) st"
proof -
  have "supersede m now = (\<lambda>s. fold (\<lambda>(w, d). supersede_one m now w d) (beaten s))" by (rule ext) (rule supersede_fold)
  then have "fold (supersede m now) sets = fold (\<lambda>(w, d). supersede_one m now w d) (concat (map beaten sets))" for sets
    by (simp only: fold_concat)
  then show ?thesis using fold_concat [of "\<lambda>(w, d). supersede_one m now w d" "\<lambda>here. concat (map beaten (colliding here))" "grouped spot_of live"]
    by (simp add: losers_def)
qed

text \<open>The set a live decision collides in: those at its place that hold its versions.\<close>

definition rivals :: "liveDecision list \<Rightarrow> liveDecision \<Rightarrow> liveDecision list" where
  "rivals live d = filter (\<lambda>y. held_versions y = held_versions d \<and> spot_of y = spot_of d) live"

lemma in_rivals [simp]: "y \<in> set (rivals live d) \<longleftrightarrow> y \<in> set live \<and> held_versions y = held_versions d \<and> spot_of y = spot_of d"
  by (simp add: rivals_def)

lemma rivals_same: "y \<in> set (rivals live d) \<Longrightarrow> rivals live y = rivals live d"
  by (auto simp: rivals_def intro: filter_cong)

definition contested :: "liveDecision list \<Rightarrow> bool" where
  "contested s \<longleftrightarrow> length (remdups (map ld_filed s)) > 1"

lemma contested_iff: "contested s \<longleftrightarrow> (\<exists>x \<in> set s. \<exists>y \<in> set s. ld_filed x \<noteq> ld_filed y)"
proof -
  have "length (remdups (map ld_filed s)) = card (ld_filed ` set s)" by (simp add: length_remdups_card_conv)
  then have "contested s \<longleftrightarrow> \<not> card (ld_filed ` set s) \<le> Suc 0" by (simp add: contested_def not_le)
  also have "\<dots> \<longleftrightarrow> (\<exists>x \<in> set s. \<exists>y \<in> set s. ld_filed x \<noteq> ld_filed y)"
    by (subst card_le_Suc0_iff_eq) auto
  finally show ?thesis .
qed

lemma in_losers: "(w, l) \<in> set (losers live) \<longleftrightarrow>
   l \<in> set live \<and> contested (rivals live l) \<and> w = winner_of outranks (rivals live l) \<and> ld_id l \<noteq> ld_id w"
  (is "?in \<longleftrightarrow> ?beaten")
proof -
  have sets: "s \<in> set (colliding here) \<longleftrightarrow> contested s \<and> (\<exists>y \<in> set here. s = filter (\<lambda>z. held_versions z = held_versions y) here)" for s here
    by (auto simp: colliding_def in_grouped contested_def)
  have same: "filter (\<lambda>z. held_versions z = held_versions y) (filter (\<lambda>z. spot_of z = spot_of x) live) = rivals live y"
    if "spot_of y = spot_of x" for x y
    using that by (auto simp: rivals_def intro: filter_cong)
  have lost: "(w, l) \<in> set (beaten s) \<longleftrightarrow> w = winner_of outranks s \<and> l \<in> set s \<and> ld_id l \<noteq> ld_id w" for s
    by (auto simp: beaten_def)
  have in_all: "?in \<longleftrightarrow> (\<exists>here \<in> set (grouped spot_of live). \<exists>s \<in> set (colliding here). (w, l) \<in> set (beaten s))"
    by (auto simp: losers_def)
  show ?thesis
  proof
    assume ?in
    then obtain here s where here: "here \<in> set (grouped spot_of live)" "s \<in> set (colliding here)" "(w, l) \<in> set (beaten s)"
      unfolding in_all by blast
    then obtain x where x: "here = filter (\<lambda>z. spot_of z = spot_of x) live" by (auto simp: in_grouped)
    obtain y where y: "contested s" "y \<in> set here" "s = filter (\<lambda>z. held_versions z = held_versions y) here"
      using here(2) unfolding sets by blast
    then have "s = rivals live y" using same [of y x] x by simp
    then have "rivals live l = s" "l \<in> set live" using here(3) rivals_same [of l live y] unfolding lost by auto
    moreover have "w = winner_of outranks s \<and> ld_id l \<noteq> ld_id w" using here(3) unfolding lost by blast
    ultimately show ?beaten using y(1) by blast
  next
    assume l: ?beaten
    let ?here = "filter (\<lambda>z. spot_of z = spot_of l) live"
    have "?here \<in> set (grouped spot_of live)" using l by (auto simp: in_grouped)
    moreover have "rivals live l \<in> set (colliding ?here)"
      unfolding sets using l same [of l l] by (auto intro!: bexI [of _ l])
    moreover have "(w, l) \<in> set (beaten (rivals live l))" using l unfolding lost in_rivals by blast
    ultimately show ?in unfolding in_all by blast
  qed
qed

lemma loser_facts:
  assumes "distinct (map ld_id live)" and "(w, l) \<in> set (losers live)"
  shows "w \<in> set live" and "held_versions w = held_versions l" and "spot_of w = spot_of l" and "outranks w l"
    and "ld_id w \<notin> ld_id ` snd ` set (losers live)"
proof -
  have l: "l \<in> set live" "w = winner_of outranks (rivals live l)" "ld_id l \<noteq> ld_id w"
    using assms(2) unfolding in_losers by blast+
  then have some: "rivals live l \<noteq> []" using in_rivals [of l live l] by force
  note wins = decision_rank.winner_wins [OF some, folded l(2)]
  show w: "w \<in> set live" "held_versions w = held_versions l" "spot_of w = spot_of l" using wins(1) by simp_all
  show "outranks w l" using wins(2) [of l] l by simp
  show "ld_id w \<notin> ld_id ` snd ` set (losers live)"
  proof
    assume "ld_id w \<in> ld_id ` snd ` set (losers live)"
    then obtain u y where y: "(u, y) \<in> set (losers live)" "ld_id y = ld_id w" by auto
    then have "y = w" using assms(1) w(1) in_losers by (auto simp: distinct_map inj_on_def)
    then have "u = winner_of outranks (rivals live w)" "ld_id w \<noteq> ld_id u" using y(1) unfolding in_losers by blast+
    moreover have "rivals live w = rivals live l" by (rule rivals_same) (simp add: w)
    ultimately show False using l(2) by simp
  qed
qed

lemma survivors_apart:
  assumes "distinct (map ld_id live)" and "x \<in> set live" and "y \<in> set live" and "ld_filed x \<noteq> ld_filed y"
    and "held_versions x = held_versions y" and "spot_of x = spot_of y"
    and "ld_id x \<notin> ld_id ` snd ` set (losers live)" and "ld_id y \<notin> ld_id ` snd ` set (losers live)"
  shows "ld_id x = ld_id y"
proof -
  have same: "rivals live x = rivals live y" by (rule rivals_same) (use assms in simp)
  have "contested (rivals live y)" unfolding contested_iff using assms by (intro bexI [of _ x] bexI [of _ y]) simp_all
  note contested = this
  have "ld_id z = ld_id (winner_of outranks (rivals live y))"
    if z: "z \<in> set live" "ld_id z \<notin> ld_id ` snd ` set (losers live)" "rivals live z = rivals live y" for z
  proof (rule ccontr)
    assume "ld_id z \<noteq> ld_id (winner_of outranks (rivals live y))"
    then have "(winner_of outranks (rivals live y), z) \<in> set (losers live)" using z(1,3) contested by (simp add: in_losers)
    then show False using z(2) by force
  qed
  from this [OF assms(2,7) same] this [OF assms(3,8) refl] show ?thesis by simp
qed

subsection \<open>What settling does to the rows\<close>

definition with_rows :: "DecisionOccurrence list \<Rightarrow> settling \<Rightarrow> settling" where
  "with_rows rows st = st\<lparr>at_desk := (at_desk st)\<lparr>books := (books (at_desk st))\<lparr>occurrences := rows\<rparr>\<rparr>\<rparr>"

definition rows_in :: "settling \<Rightarrow> DecisionOccurrence list" where
  "rows_in st = occurrences (books (at_desk st))"

lemma with_rows_simps [simp]:
  "rows_in (with_rows rows st) = rows" "with_rows rows (with_rows rows' st) = with_rows rows st"
  "with_rows (rows_in st) st = st" "lapsed_rows_of (with_rows rows st) = lapsed_rows_of st"
  "hashed_by (at_desk (with_rows rows st)) = hashed_by (at_desk st)"
  by (simp_all add: with_rows_def rows_in_def)

definition lapse_row :: "int \<Rightarrow> DecisionOccurrence \<Rightarrow> DecisionOccurrence" where
  "lapse_row now r = r\<lparr>de_state := LapsedState, de_ended_at := Some now, de_live_key := None\<rparr>"

lemma lapse_row_twice [simp]: "lapse_row now (lapse_row now r) = lapse_row now r" "de_id (lapse_row now r) = de_id r"
  by (simp_all add: lapse_row_def)

text \<open>Everything at the desk but the rows and what a merge records of them.\<close>

definition beside_rows :: "settling \<Rightarrow> settling \<Rightarrow> bool" where
  "beside_rows st t \<longleftrightarrow> (let d = at_desk st; d' = at_desk t in
     (incidents d', trail d', reads_as d', hashed_by d', merges d', assessments d')
       = (incidents d, trail d, reads_as d, hashed_by d, merges d, assessments d)
     \<and> (books d')\<lparr>occurrences := []\<rparr> = (books d)\<lparr>occurrences := []\<rparr>)"

lemma superseding:
  fixes pairs st m now
  defines "t \<equiv> fold (\<lambda>(w, d). supersede_one m now w d) pairs st"
  shows "rows_in t = change (\<lambda>r. de_id r \<in> ld_id ` snd ` set pairs) (lapse_row now) (rows_in st)"
    and "lapsed_rows_of t = lapsed_rows_of st @ map (ld_id \<circ> snd) pairs"
    and "beside_rows st t"
    and "(w, d) \<in> set pairs \<Longrightarrow> \<exists>x \<in> set (superseded (at_desk t)). ds_occurrence x = ld_id d
      \<and> ds_standing x = ld_id w \<and> ds_merge x = m \<and> ds_disagreed x = (ld_outcome d \<noteq> ld_outcome w)"
    and "set (superseded (at_desk st)) \<subseteq> set (superseded (at_desk t))"
proof -
  have one: "rows_in (supersede_one m now w d st) = change (\<lambda>r. de_id r = ld_id d) (lapse_row now) (rows_in st)"
    "lapsed_rows_of (supersede_one m now w d st) = lapsed_rows_of st @ [ld_id d]"
    "beside_rows st (supersede_one m now w d st)"
    "\<exists>x \<in> set (superseded (at_desk (supersede_one m now w d st))). ds_occurrence x = ld_id d
      \<and> ds_standing x = ld_id w \<and> ds_merge x = m \<and> ds_disagreed x = (ld_outcome d \<noteq> ld_outcome w)"
    "set (superseded (at_desk st)) \<subseteq> set (superseded (at_desk (supersede_one m now w d st)))" for w d st
    by (auto simp: supersede_one_def Let_def rows_in_def beside_rows_def lapse_row_def change_def)
  have both: "change (\<lambda>r. de_id r \<in> X) (lapse_row now) (change (\<lambda>r. de_id r = i) (lapse_row now) rows)
      = change (\<lambda>r. de_id r \<in> insert i X) (lapse_row now) rows" for X i rows
    by (auto simp: change_def)
  show "rows_in t = change (\<lambda>r. de_id r \<in> ld_id ` snd ` set pairs) (lapse_row now) (rows_in st)"
    unfolding t_def by (induction pairs arbitrary: st) (auto simp: one both change_def)
  show "lapsed_rows_of t = lapsed_rows_of st @ map (ld_id \<circ> snd) pairs"
    unfolding t_def by (induction pairs arbitrary: st) (auto simp: one)
  have across: "beside_rows st u \<Longrightarrow> beside_rows u v \<Longrightarrow> beside_rows st v" for st u v
    by (simp add: beside_rows_def Let_def)
  have none: "beside_rows st st" for st by (simp add: beside_rows_def)
  show "beside_rows st t"
    unfolding t_def by (induction pairs arbitrary: st) (auto simp: none intro: across one(3))
  have grows: "set (superseded (at_desk st)) \<subseteq> set (superseded (at_desk (fold (\<lambda>(w, d). supersede_one m now w d) pairs st)))" for pairs st
  proof (induction pairs arbitrary: st)
    case (Cons p pairs)
    then show ?case using one(5) [of st "fst p" "snd p"] Cons [of "supersede_one m now (fst p) (snd p) st"]
      by (auto simp: case_prod_unfold)
  qed simp
  show "set (superseded (at_desk st)) \<subseteq> set (superseded (at_desk t))"
    unfolding t_def by (rule grows)
  show "(w, d) \<in> set pairs \<Longrightarrow> \<exists>x \<in> set (superseded (at_desk t)). ds_occurrence x = ld_id d
      \<and> ds_standing x = ld_id w \<and> ds_merge x = m \<and> ds_disagreed x = (ld_outcome d \<noteq> ld_outcome w)"
    unfolding t_def
  proof (induction pairs arbitrary: st)
    case (Cons p pairs)
    show ?case
    proof (cases "p = (w, d)")
      case True
      then show ?thesis using one(4) [of w d st] grows [of "supersede_one m now w d st" pairs] by auto
    next
      case False
      then show ?thesis using Cons by (auto simp: case_prod_unfold)
    qed
  qed simp
qed

definition held_key :: "(string \<Rightarrow> string) \<Rightarrow> int \<Rightarrow> liveDecision \<Rightarrow> string" where
  "held_key h kept d = LiveKey h (ld_product d) kept (ld_identity d) (orEmpty (ld_component d)) (orEmpty (ld_consumer d)) (anyVersion d)"

definition hold_row :: "(string \<Rightarrow> string) \<Rightarrow> int \<Rightarrow> liveDecision list \<Rightarrow> DecisionOccurrence \<Rightarrow> DecisionOccurrence" where
  "hold_row h kept ds r = (case find (\<lambda>d. ld_id d = de_id r) ds of None \<Rightarrow> r
     | Some d \<Rightarrow> r\<lparr>de_live_key := Some (held_key h kept d)\<rparr>)"

lemma hold_row_id [simp]: "de_id (hold_row h kept ds r) = de_id r" "map (hold_row h kept []) rows = rows"
  by (simp_all add: hold_row_def map_idI split: option.split)

definition moving :: "int list \<Rightarrow> int \<Rightarrow> liveDecision \<Rightarrow> bool" where
  "moving lapsed kept d \<longleftrightarrow> ld_id d \<notin> set lapsed \<and> ld_filed d \<noteq> kept"

lemma hold_as_step:
  "hold_as kept d st = (if \<not> moving (lapsed_rows_of st) kept d then Inr st
     else let rows = map (hold_row (hashed_by (at_desk st)) kept [d]) (rows_in st)
       in if unique_keys rows then Inr (with_rows rows st) else Inl KeyHeld)"
proof -
  have "change (\<lambda>r. de_id r = ld_id d) (\<lambda>r. r\<lparr>de_live_key := Some (held_key (hashed_by (at_desk st)) kept d)\<rparr>) rows
      = map (hold_row (hashed_by (at_desk st)) kept [d]) rows" for rows
    by (auto simp: change_def hold_row_def)
  then show ?thesis
    by (auto simp: hold_as_def moving_def held_key_def Let_def with_rows_def rows_in_def)
qed

lemma hold_row_Cons:
  assumes "ld_id d \<notin> ld_id ` set ds"
  shows "hold_row h kept ds (hold_row h kept [d] r) = hold_row h kept (d # ds) r"
proof (cases "ld_id d = de_id r")
  case True
  then have "find (\<lambda>x. ld_id x = de_id r) ds = None" using assms by (force simp: find_None_iff)
  then show ?thesis using True by (simp add: hold_row_def)
qed (simp add: hold_row_def)

lemma holding:
  assumes "distinct (map ld_id ds)" and "each (hold_as kept) ds st = Inr t"
  shows "t = with_rows (map (hold_row (hashed_by (at_desk st)) kept (filter (moving (lapsed_rows_of st) kept) ds)) (rows_in st)) st
    \<and> (unique_keys (rows_in st) \<longrightarrow> unique_keys (rows_in t))"
  using assms
proof (induction ds arbitrary: st)
  case (Cons d ds)
  obtain u where u: "hold_as kept d st = Inr u" "each (hold_as kept) ds u = Inr t" using Cons.prems(2) by auto
  note rest = Cons.IH [OF _ u(2)]
  show ?case
  proof (cases "moving (lapsed_rows_of st) kept d")
    case True
    then have step: "u = with_rows (map (hold_row (hashed_by (at_desk st)) kept [d]) (rows_in st)) st" "unique_keys (rows_in u)"
      using u(1) by (auto simp: hold_as_step Let_def split: if_splits)
    have "ld_id d \<notin> ld_id ` set (filter (moving (lapsed_rows_of st) kept) ds)" using Cons.prems(1) by auto
    then have "map (hold_row (hashed_by (at_desk st)) kept (filter (moving (lapsed_rows_of st) kept) ds))
        (map (hold_row (hashed_by (at_desk st)) kept [d]) (rows_in st))
      = map (hold_row (hashed_by (at_desk st)) kept (filter (moving (lapsed_rows_of st) kept) (d # ds))) (rows_in st)"
      using True by (simp add: hold_row_Cons)
    moreover have same: "lapsed_rows_of u = lapsed_rows_of st" "hashed_by (at_desk u) = hashed_by (at_desk st)"
      "rows_in u = map (hold_row (hashed_by (at_desk st)) kept [d]) (rows_in st)" "with_rows rows u = with_rows rows st" for rows
      by (simp_all add: step(1))
    moreover have "distinct (map ld_id ds)" using Cons.prems(1) by simp
    note both = rest [OF this]
    ultimately have "t = with_rows (map (hold_row (hashed_by (at_desk st)) kept (filter (moving (lapsed_rows_of st) kept) (d # ds))) (rows_in st)) st"
      using conjunct1 [OF both] by (simp only:)
    moreover have "unique_keys (rows_in t)" using conjunct2 [OF both] step(2) by blast
    ultimately show ?thesis by blast
  next
    case False
    then have same: "u = st" "filter (moving (lapsed_rows_of st) kept) (d # ds) = filter (moving (lapsed_rows_of st) kept) ds"
      using u(1) by (simp_all add: hold_as_step)
    have "distinct (map ld_id ds)" using Cons.prems(1) by simp
    then show ?thesis using rest unfolding same by blast
  qed
qed simp

lemma holding_answers:
  assumes "distinct (map ld_id ds)"
    and "\<And>first rest. filter (moving (lapsed_rows_of st) kept) ds = first @ rest
      \<Longrightarrow> unique_keys (map (hold_row (hashed_by (at_desk st)) kept first) (rows_in st))"
  shows "\<exists>t. each (hold_as kept) ds st = Inr t"
  using assms
proof (induction ds arbitrary: st)
  case (Cons d ds)
  show ?case
  proof (cases "moving (lapsed_rows_of st) kept d")
    case True
    let ?u = "with_rows (map (hold_row (hashed_by (at_desk st)) kept [d]) (rows_in st)) st"
    have "unique_keys (map (hold_row (hashed_by (at_desk st)) kept [d]) (rows_in st))"
      by (rule Cons.prems(2) [of "[d]"]) (simp add: True)
    then have u: "hold_as kept d st = Inr ?u" using True by (simp add: hold_as_step)
    have "\<exists>t. each (hold_as kept) ds ?u = Inr t"
    proof (rule Cons.IH)
      fix first rest
      assume "filter (moving (lapsed_rows_of ?u) kept) ds = first @ rest"
      then have more: "filter (moving (lapsed_rows_of st) kept) (d # ds) = (d # first) @ rest" using True by simp
      then have "set first \<subseteq> set ds" by (metis append_Cons filter_is_subset filter.simps(2) list.inject set_append sup.bounded_iff True)
      then have "ld_id d \<notin> ld_id ` set first" using Cons.prems(1) by auto
      then show "unique_keys (map (hold_row (hashed_by (at_desk ?u)) kept first) (rows_in ?u))"
        using Cons.prems(2) [OF more] by (simp add: comp_def hold_row_Cons)
    qed (use Cons.prems(1) in simp)
    then show ?thesis using u by (simp add: and_then_simps)
  next
    case False
    then show ?thesis using Cons by (simp add: hold_as_step and_then_simps)
  qed
qed simp

text \<open>Both steps together.\<close>

definition settle_row :: "(string \<Rightarrow> string) \<Rightarrow> int \<Rightarrow> int \<Rightarrow> liveDecision list \<Rightarrow> DecisionOccurrence \<Rightarrow> DecisionOccurrence" where
  "settle_row h kept now live r =
    (let lost = ld_id ` snd ` set (losers live)
     in if de_id r \<in> lost then lapse_row now r
        else hold_row h kept (filter (\<lambda>d. ld_id d \<notin> lost \<and> ld_filed d \<noteq> kept) live) r)"

lemma none_left: "i \<in> lost \<Longrightarrow> find (\<lambda>d. ld_id d = i) (filter (\<lambda>d. ld_id d \<notin> lost \<and> p d) live) = None"
  by (auto simp: find_None_iff)

lemma settleDecisions_fold:
  "settleDecisions kept m now st = each (hold_as kept) (live_as (at_desk st) kept)
     (fold (\<lambda>(w, d). supersede_one m now w d) (losers (live_as (at_desk st) kept)) st)"
  unfolding settleDecisions_def Let_def settling_fold ..

lemma beside_with_rows [simp]: "beside_rows st (with_rows rows u) = beside_rows st u"
  by (simp add: beside_rows_def with_rows_def Let_def)

lemma settled:
  assumes "distinct (map ld_id (live_as (at_desk st) kept))" and "lapsed_rows_of st = []"
    and "settleDecisions kept m now st = Inr t"
  shows "rows_in t = map (settle_row (hashed_by (at_desk st)) kept now (live_as (at_desk st) kept)) (rows_in st)"
    and "unique_keys (rows_in st) \<Longrightarrow> unique_keys (rows_in t)" and "beside_rows st t"
    and "(w, d) \<in> set (losers (live_as (at_desk st) kept)) \<Longrightarrow> \<exists>x \<in> set (superseded (at_desk t)).
      ds_occurrence x = ld_id d \<and> ds_standing x = ld_id w \<and> ds_merge x = m \<and> ds_disagreed x = (ld_outcome d \<noteq> ld_outcome w)"
    and "set (superseded (at_desk st)) \<subseteq> set (superseded (at_desk t))"
proof -
  let ?live = "live_as (at_desk st) kept"
  let ?lost = "ld_id ` snd ` set (losers ?live)"
  define u where "u = fold (\<lambda>(w, d). supersede_one m now w d) (losers ?live) st"
  note u = superseding [where pairs = "losers ?live" and st = st and m = m and now = now, folded u_def]
  have hash: "hashed_by (at_desk u) = hashed_by (at_desk st)" using u(3) by (simp add: beside_rows_def Let_def)
  have "moving (lapsed_rows_of u) kept = (\<lambda>d. ld_id d \<notin> ?lost \<and> ld_filed d \<noteq> kept)"
    by (auto simp: moving_def u(2) assms(2) fun_eq_iff)
  then have t: "t = with_rows (map (hold_row (hashed_by (at_desk st)) kept (filter (\<lambda>d. ld_id d \<notin> ?lost \<and> ld_filed d \<noteq> kept) ?live)) (rows_in u)) u"
    and unique: "unique_keys (rows_in u) \<Longrightarrow> unique_keys (rows_in t)"
    using holding [OF assms(1), where st = u and t = t and kept = kept] assms(3)
    unfolding settleDecisions_fold u_def [symmetric] hash by (simp_all only:)
  have none: "hold_row h kept (filter (\<lambda>d. ld_id d \<notin> ?lost \<and> ld_filed d \<noteq> kept) ?live) (lapse_row now r) = lapse_row now r"
    if "de_id r \<in> ?lost" for h r
  proof -
    have "find (\<lambda>d. ld_id d = de_id r) (filter (\<lambda>d. ld_id d \<notin> ?lost \<and> ld_filed d \<noteq> kept) ?live) = None"
      using that by (rule none_left)
    then show ?thesis by (simp add: hold_row_def)
  qed
  show "rows_in t = map (settle_row (hashed_by (at_desk st)) kept now ?live) (rows_in st)"
    unfolding t with_rows_simps u(1) by (auto simp: change_def settle_row_def Let_def none)
  show "unique_keys (rows_in t)" if held: "unique_keys (rows_in st)"
  proof (rule unique)
    show "unique_keys (rows_in u)" unfolding u(1) by (rule held_keys_change [OF _ held]) (simp add: lapse_row_def)
  qed
  show "beside_rows st t" using u(3) by (simp add: t)
  have "superseded (at_desk t) = superseded (at_desk u)" by (simp add: t with_rows_def)
  then show "(w, d) \<in> set (losers ?live) \<Longrightarrow> \<exists>x \<in> set (superseded (at_desk t)).
      ds_occurrence x = ld_id d \<and> ds_standing x = ld_id w \<and> ds_merge x = m \<and> ds_disagreed x = (ld_outcome d \<noteq> ld_outcome w)"
    and "set (superseded (at_desk st)) \<subseteq> set (superseded (at_desk t))"
    using u(4,5) by simp_all
qed

subsection \<open>The merged desk\<close>

lemma live_found:
  assumes "distinct (map ld_id live)" and "x \<in> set live" and "p x"
  shows "find (\<lambda>d. ld_id d = ld_id x) (filter p live) = Some x"
proof -
  obtain y where "find (\<lambda>d. ld_id d = ld_id x) (filter p live) = Some y"
    using assms(2,3) by (cases "find (\<lambda>d. ld_id d = ld_id x) (filter p live)") (auto simp: find_None_iff)
  moreover from find_Some [OF this] have "y = x" using assms(1,2) by (auto simp: distinct_map inj_on_def)
  ultimately show ?thesis by simp
qed

text \<open>
  What settling does to one row: nothing where its issue is not the one kept or it holds no key; it
  lapses where it lost; and it holds the key of the issue kept where it stays.
\<close>

lemma settle_row_cases:
  fixes kept :: int
  assumes "numbered de_id (occurrences (books d))" and "keys_ok e (books d)" and "r \<in> set (occurrences (books d))"
  defines "live \<equiv> live_as d kept"
  defines "lost \<equiv> ld_id ` snd ` set (losers live)"
  obtains "de_live_key r = None \<or> reads_as d (de_issue r) \<noteq> kept" "settle_row h kept now live r = r" "de_id r \<notin> lost"
  | c where "decision_of (de_decision r) (books d) = Some c" "live_of r c \<in> set live" "de_id r \<in> lost"
      "settle_row h kept now live r = lapse_row now r"
  | c where "decision_of (de_decision r) (books d) = Some c" "live_of r c \<in> set live" "de_id r \<notin> lost" "de_issue r \<noteq> kept"
      "settle_row h kept now live r = r\<lparr>de_live_key := Some (held_key h kept (live_of r c))\<rparr>"
  | c where "decision_of (de_decision r) (books d) = Some c" "live_of r c \<in> set live" "de_id r \<notin> lost" "de_issue r = kept"
      "settle_row h kept now live r = r"
proof -
  have distinct: "distinct (map ld_id live)" unfolding live_def using assms(1) by (rule live_distinct)
  have rows: "inj_on de_id (set (occurrences (books d)))" using assms(1) by (rule numbered_inj)
  have same: "l = live_of r c" if l: "l \<in> set live" "ld_id l = de_id r" and c: "decision_of (de_decision r) (books d) = Some c" for l c
  proof -
    from l(1) obtain x y where "x \<in> set (occurrences (books d))" "decision_of (de_decision x) (books d) = Some y" "l = live_of x y"
      unfolding live_def in_live_as by blast
    then show ?thesis using l(2) c rows assms(3) by (auto simp: inj_on_def)
  qed
  have lost_live: "\<exists>l \<in> set live. ld_id l = i" if "i \<in> lost" for i
    using that unfolding lost_def by (force simp: in_losers)
  show thesis
  proof (cases "de_live_key r = None \<or> reads_as d (de_issue r) \<noteq> kept")
    case True
    have absent: "\<not> (\<exists>l \<in> set live. ld_id l = de_id r)"
    proof
      assume "\<exists>l \<in> set live. ld_id l = de_id r"
      then obtain x where "x \<in> set (occurrences (books d))" "de_id x = de_id r" "reads_as d (de_issue x) = kept" "de_live_key x \<noteq> None"
        unfolding live_def by (auto simp: in_live_as)
      then show False using True rows assms(3) by (auto simp: inj_on_def)
    qed
    then have "find (\<lambda>d. ld_id d = de_id r) (filter p live) = None" for p by (auto simp: find_None_iff)
    moreover have "de_id r \<notin> lost" using absent lost_live by blast
    ultimately have "settle_row h kept now live r = r" "de_id r \<notin> lost" by (simp_all add: settle_row_def hold_row_def lost_def)
    then show thesis by (rule that(1) [OF True])
  next
    case False
    then obtain k where "de_live_key r = Some k" by (cases "de_live_key r") auto
    then obtain c where c: "decision_of (de_decision r) (books d) = Some c"
      using assms(2,3) unfolding keys_ok_def keyed_def by fastforce
    then have l: "live_of r c \<in> set live" unfolding live_def in_live_as using False assms(3) by blast
    show thesis
    proof (cases "de_id r \<in> lost")
      case True
      then have "settle_row h kept now live r = lapse_row now r" by (simp add: settle_row_def lost_def)
      then show thesis by (rule that(2) [OF c l True])
    next
      case stays: False
      define p where "p x \<longleftrightarrow> ld_id x \<notin> lost \<and> ld_filed x \<noteq> kept" for x :: liveDecision
      have row: "settle_row h kept now live r = hold_row h kept (filter p live) r"
        using stays by (simp add: settle_row_def lost_def p_def [abs_def])
      show thesis
      proof (cases "de_issue r = kept")
        case True
        have "find (\<lambda>d. ld_id d = de_id r) (filter p live) = None"
        proof -
          have "\<not> p x" if x: "x \<in> set live" "ld_id x = de_id r" for x
            using same [OF x c] True by (simp add: p_def)
          then show ?thesis by (auto simp: find_None_iff)
        qed
        then show thesis using row by (intro that(4) [OF c l stays True]) (simp add: hold_row_def)
      next
        case other: False
        have "find (\<lambda>d. ld_id d = ld_id (live_of r c)) (filter p live) = Some (live_of r c)"
          by (rule live_found [OF distinct l]) (simp add: p_def stays other)
        then show thesis using row by (intro that(3) [OF c l stays other]) (simp add: hold_row_def)
      qed
    qed
  qed
qed

lemma live_read: "live_of r c \<in> set (live_as d kept) \<Longrightarrow> reads_as d (de_issue r) = kept"
  unfolding in_live_as by (metis live_of_simps(3))

lemma live_held: "live_of r c \<in> set (live_as d kept) \<Longrightarrow> \<exists>x \<in> set (occurrences (books d)). de_id r = de_id x \<and> de_live_key x \<noteq> None"
  unfolding in_live_as using live_of_simps(1) by (metis (no_types, lifting))

text \<open>A desk at which one issue is read as another from now on.\<close>

definition read_into :: "int \<Rightarrow> int \<Rightarrow> desk \<Rightarrow> desk \<Rightarrow> bool" where
  "read_into kept gone d d' \<longleftrightarrow> kept \<noteq> gone \<and> reads_as d kept = kept \<and> reads_as d gone = gone
     \<and> reads_as d' = (\<lambda>i. if reads_as d i = gone then kept else reads_as d i)
     \<and> books d' = books d \<and> incidents d' = incidents d \<and> hashed_by d' = hashed_by d"

lemma read_into_same: "read_into kept gone d d' \<Longrightarrow> reads_as d' i \<noteq> kept \<Longrightarrow> reads_as d' i = reads_as d i"
  by (auto simp: read_into_def split: if_splits)

lemma read_into_settled: "read_into kept gone d d' \<Longrightarrow> reads_settled d \<Longrightarrow> reads_settled d'"
  by (auto simp: read_into_def reads_settled_def)

definition key_at :: "(string \<Rightarrow> string) \<Rightarrow> int \<Rightarrow> Decision \<Rightarrow> DecisionOccurrence \<Rightarrow> string" where
  "key_at h issue c r = LiveKey h (de_product r) issue (de_identity r)
     (orEmpty (de_component_version r)) (orEmpty (de_consumer_version r)) (StandsAtAnyVersion (cl_outcome c))"

lemma keys_at:
  "held_key h kept (live_of r c) = key_at h kept c r" "held_under e c r = key_at (digest e) (issue_of e (de_issue r)) c r"
  by (simp_all add: held_key_def key_at_def held_under_def)

lemma desk_key:
  assumes "desk_base d" and "r \<in> set (occurrences (books d))" and "de_live_key r = Some k"
  shows "\<exists>c. decision_of (de_decision r) (books d) = Some c \<and> k = key_at (hashed_by d) (reads_as d (de_issue r)) c r"
proof -
  let ?e = "sample_env\<lparr>issue_of := reads_as d, digest := hashed_by d\<rparr>"
  have "keys_ok ?e (books d)" using assms(1) by (simp add: desk_base_def desk_keys_def)
  then have "keyed ?e (books d) r" using assms(2) by (simp add: keys_ok_def)
  then show ?thesis using assms(3) by (simp add: keyed_def keys_at)
qed

lemma desk_keysI:
  assumes "\<And>r k. r \<in> set (occurrences (books d)) \<Longrightarrow> de_live_key r = Some k
    \<Longrightarrow> \<exists>c. decision_of (de_decision r) (books d) = Some c \<and> k = key_at (hashed_by d) (reads_as d (de_issue r)) c r"
  shows "desk_keys d"
  unfolding desk_keys_def keys_ok_def keyed_def using assms by (auto simp: keys_at split: option.split)

lemma settled_rows:
  assumes "desk_base d" and "read_into kept gone d d'" and "at_desk st = d'" and "lapsed_rows_of st = []"
    and "settleDecisions kept m now st = Inr t"
  shows "occurrences (books (at_desk t)) = map (settle_row (hashed_by d) kept now (live_as d' kept)) (occurrences (books d))"
    and "unique_keys (occurrences (books (at_desk t)))"
    and "(books (at_desk t))\<lparr>occurrences := []\<rparr> = (books d)\<lparr>occurrences := []\<rparr>"
    and "incidents (at_desk t) = incidents d" and "reads_as (at_desk t) = reads_as d'" and "hashed_by (at_desk t) = hashed_by d"
    and "merges (at_desk t) = merges d'"
    and "(w, l) \<in> set (losers (live_as d' kept)) \<Longrightarrow> \<exists>x \<in> set (superseded (at_desk t)).
      ds_occurrence x = ld_id l \<and> ds_standing x = ld_id w \<and> ds_merge x = m \<and> ds_disagreed x = (ld_outcome l \<noteq> ld_outcome w)"
    and "set (superseded d') \<subseteq> set (superseded (at_desk t))"
    and "assessments (at_desk t) = assessments d'"
proof -
  have ok: "base_ok (books d)" using assms(1) by (simp add: desk_base_def triage_ok_def)
  have same: "books d' = books d" "hashed_by d' = hashed_by d" "incidents d' = incidents d" using assms(2) by (simp_all add: read_into_def)
  have "distinct (map ld_id (live_as d' kept))"
    using ok by (intro live_distinct) (simp add: base_ok_def same)
  note done' = settled [OF this [folded assms(3)] assms(4,5), unfolded assms(3) rows_in_def same]
  show "occurrences (books (at_desk t)) = map (settle_row (hashed_by d) kept now (live_as d' kept)) (occurrences (books d))"
    by (rule done'(1))
  show "unique_keys (occurrences (books (at_desk t)))" using done'(2) ok by (simp add: base_ok_def)
  show "(books (at_desk t))\<lparr>occurrences := []\<rparr> = (books d)\<lparr>occurrences := []\<rparr>"
    and "incidents (at_desk t) = incidents d" and "reads_as (at_desk t) = reads_as d'" and "hashed_by (at_desk t) = hashed_by d"
    and "merges (at_desk t) = merges d'" and "assessments (at_desk t) = assessments d'"
    using done'(3) by (simp_all add: beside_rows_def Let_def assms(3) same)
  show "(w, l) \<in> set (losers (live_as d' kept)) \<Longrightarrow> \<exists>x \<in> set (superseded (at_desk t)).
      ds_occurrence x = ld_id l \<and> ds_standing x = ld_id w \<and> ds_merge x = m \<and> ds_disagreed x = (ld_outcome l \<noteq> ld_outcome w)"
    by (rule done'(4))
  show "set (superseded d') \<subseteq> set (superseded (at_desk t))" by (rule done'(5))
qed

lemma settle_row_frame [simp]:
  "de_id (settle_row h kept now live r) = de_id r" "de_decision (settle_row h kept now live r) = de_decision r"
  "de_proposed_by (settle_row h kept now live r) = de_proposed_by r" "de_issue (settle_row h kept now live r) = de_issue r"
  "de_product (settle_row h kept now live r) = de_product r" "de_identity (settle_row h kept now live r) = de_identity r"
  "de_component_version (settle_row h kept now live r) = de_component_version r"
  "de_consumer_version (settle_row h kept now live r) = de_consumer_version r"
  "de_state (settle_row h kept now live r) = Approved \<Longrightarrow> de_state r = Approved"
  by (auto simp: settle_row_def Let_def lapse_row_def hold_row_def split: option.splits if_splits)

lemma key_at_row: "key_at h i c (settle_row h' kept now live r) = key_at h i c r"
  by (simp add: key_at_def)

lemma settled_desk_base:
  assumes "desk_base d" and "read_into kept gone d d'" and "at_desk st = d'" and "lapsed_rows_of st = []"
    and "settleDecisions kept m now st = Inr t"
  shows "desk_base (at_desk t)"
proof -
  note after = settled_rows [OF assms]
  let ?s = "books d" and ?t = "books (at_desk t)" and ?live = "live_as d' kept"
  let ?f = "settle_row (hashed_by d) kept now ?live"
  have same: "books d' = books d" "hashed_by d' = hashed_by d" using assms(2) by (simp_all add: read_into_def)
  have ok: "triage_ok ?s" "base_ok ?s" "rows_agreed ?s" using assms(1) by (simp_all add: desk_base_def triage_ok_def)
  let ?e = "sample_env\<lparr>issue_of := reads_as d, digest := hashed_by d\<rparr>"
  have keys: "keys_ok ?e (books d')" using assms(1) by (simp add: desk_base_def desk_keys_def same)
  note cases_of = settle_row_cases [where d = d' and kept = kept and h = "hashed_by d" and now = now, OF _ keys, unfolded same]
  have numbered: "numbered de_id (occurrences ?s)" using ok(2) by (simp add: base_ok_def)
  have t: "?t = ?s\<lparr>occurrences := change (\<lambda>_. True) ?f (occurrences ?s)\<rparr>"
  proof -
    have "?t = (?t\<lparr>occurrences := []\<rparr>)\<lparr>occurrences := occurrences ?t\<rparr>" by simp
    also have "\<dots> = (?s\<lparr>occurrences := []\<rparr>)\<lparr>occurrences := change (\<lambda>_. True) ?f (occurrences ?s)\<rparr>"
      unfolding after(1,3) by (simp add: change_def)
    finally show ?thesis by simp
  qed
  have keyed: "(Live (de_state (?f r)) \<longleftrightarrow> de_live_key (?f r) \<noteq> None) \<and> (\<forall>k. de_live_key (?f r) = Some k \<longrightarrow>
      (\<exists>c. decision_of (de_decision r) ?s = Some c \<and> k = key_at (hashed_by d) (reads_as d' (de_issue r)) c r))"
    if r: "r \<in> set (occurrences ?s)" for r
  proof -
    have live: "Live (de_state r) \<longleftrightarrow> de_live_key r \<noteq> None" using ok(2) r by (simp add: base_ok_def)
    have old: "\<exists>c. decision_of (de_decision r) ?s = Some c \<and> k = key_at (hashed_by d) (reads_as d (de_issue r)) c r"
      if "de_live_key r = Some k" for k by (rule desk_key [OF assms(1) r that])
    show ?thesis
    proof (rule cases_of [OF numbered r])
      assume "de_live_key r = None \<or> reads_as d' (de_issue r) \<noteq> kept" "?f r = r"
      then show ?thesis using live old read_into_same [OF assms(2)] by auto
    next
      fix c assume "?f r = lapse_row now r"
      then show ?thesis by (simp add: lapse_row_def Live_def)
    next
      fix c
      assume c: "decision_of (de_decision r) ?s = Some c" "live_of r c \<in> set ?live" "?f r = r\<lparr>de_live_key := Some (held_key (hashed_by d) kept (live_of r c))\<rparr>"
      have "de_live_key r \<noteq> None" using live_held [OF c(2)] numbered_inj [OF numbered] r unfolding same by (blast dest: inj_onD)
      then show ?thesis using c live live_read [OF c(2)] by (simp add: keys_at)
    next
      fix c
      assume c: "live_of r c \<in> set ?live" "de_issue r = kept" "?f r = r"
      then have "reads_as d' (de_issue r) = reads_as d (de_issue r)" using live_read [OF c(1)] assms(2) by (simp add: read_into_def)
      then show ?thesis using c live old by auto
    qed
  qed
  have "base_ok ?t"
    unfolding t using keyed after(2) by (intro rows_change_base [OF ok(2)]) (auto simp: t)
  moreover have "rows_agreed ?t"
    unfolding t by (rule rows_change_agreed [OF ok(3)]) (use ok(3) in \<open>auto simp: rows_agreed_def\<close>)
  moreover have "desk_keys (at_desk t)"
  proof (rule desk_keysI)
    fix r k
    assume r: "r \<in> set (occurrences ?t)" "de_live_key r = Some k"
    then obtain x where x: "x \<in> set (occurrences ?s)" "r = ?f x" unfolding after(1) by auto
    have "decision_of i ?t = decision_of i ?s" for i unfolding t by (simp add: decision_of_def)
    then show "\<exists>c. decision_of (de_decision r) ?t = Some c \<and> k = key_at (hashed_by (at_desk t)) (reads_as (at_desk t) (de_issue r)) c r"
      using keyed [OF x(1)] r(2) unfolding x(2) after(5,6) by (simp add: key_at_row)
  qed
  moreover have "outcomes_ok ?t = outcomes_ok ?s" "lineage_ok ?t = lineage_ok ?s"
    unfolding t by (simp add: outcomes_ok_def, rule lineage_frame, simp)
  moreover have "reads_settled (at_desk t)"
    using read_into_settled [OF assms(2)] assms(1) after(5) by (simp add: desk_base_def reads_settled_def)
  ultimately show ?thesis using assms(1) after(4) by (simp add: desk_base_def triage_ok_def)
qed

subsection \<open>The index never stops a merge\<close>

lemma unique_keys_map:
  assumes "distinct rows"
    and "\<And>x y k. x \<in> set rows \<Longrightarrow> y \<in> set rows \<Longrightarrow> de_live_key (g x) = Some k \<Longrightarrow> de_live_key (g y) = Some k \<Longrightarrow> x = y"
  shows "unique_keys (map g rows)"
  using assms
proof (induction rows)
  case (Cons r rows)
  then have rest: "unique_keys (map g rows)" by simp
  have "k \<notin> set (held_keys (map g rows))" if k: "de_live_key (g r) = Some k" for k
  proof
    assume "k \<in> set (held_keys (map g rows))"
    then obtain y where "y \<in> set rows" "de_live_key (g y) = Some k" by (auto simp: in_held_keys)
    then have "r = y" using Cons.prems(2) [of r y k] k by simp
    then show False using \<open>y \<in> set rows\<close> Cons.prems(1) by simp
  qed
  then show ?case using rest by (auto simp: unique_keys_def split: option.split)
qed (simp add: unique_keys_def)

lemma numbered_distinct: "numbered f rows \<Longrightarrow> distinct rows"
  unfolding numbered_def by (metis distinct_map distinct_upt inj_on_of_nat)

text \<open>A row whose texts hold no zero byte, which no storable text does.\<close>

definition plain :: "DecisionOccurrence \<Rightarrow> bool" where
  "plain r \<longleftrightarrow> CHR 0x00 \<notin> set (de_identity r @ orEmpty (de_component_version r) @ orEmpty (de_consumer_version r))"

definition same_spot :: "Decision \<Rightarrow> DecisionOccurrence \<Rightarrow> Decision \<Rightarrow> DecisionOccurrence \<Rightarrow> bool" where
  "same_spot c x c' y \<longleftrightarrow> de_product x = de_product y \<and> de_identity x = de_identity y
     \<and> StandsAtAnyVersion (cl_outcome c) = StandsAtAnyVersion (cl_outcome c')
     \<and> (StandsAtAnyVersion (cl_outcome c) \<or>
          trim_space (orEmpty (de_component_version x)) = trim_space (orEmpty (de_component_version y))
          \<and> trim_space (orEmpty (de_consumer_version x)) = trim_space (orEmpty (de_consumer_version y)))"

lemma key_at_same:
  "inj h \<Longrightarrow> plain x \<Longrightarrow> plain y \<Longrightarrow> key_at h i c x = key_at h j c' y \<longleftrightarrow> i = j \<and> same_spot c x c' y"
  unfolding key_at_def plain_def same_spot_def by (subst LiveKey_same) auto

lemma same_spot_key: "same_spot c x c' y \<Longrightarrow> key_at h i c x = key_at h i c' y"
  by (auto simp: key_at_def same_spot_def LiveKey_def)

lemma same_spot_live:
  "same_spot c x c' y \<Longrightarrow> held_versions (live_of x c) = held_versions (live_of y c') \<and> spot_of (live_of x c) = spot_of (live_of y c')"
  by (auto simp: held_versions_def same_spot_def)

text \<open>At no point of settling do two rows that stay hold one key: each holds its old key or its new one.\<close>

lemma between_apart:
  assumes "desk_base d" and "read_into kept gone d d'" and "inj (hashed_by d)" and "\<forall>r \<in> set (occurrences (books d)). plain r"
    and x: "x \<in> set (occurrences (books d))" "de_live_key x \<noteq> None" "decision_of (de_decision x) (books d) = Some c"
    and y: "y \<in> set (occurrences (books d))" "de_live_key y \<noteq> None" "decision_of (de_decision y) (books d) = Some c'"
    and i: "i = reads_as d (de_issue x) \<or> i = reads_as d' (de_issue x)"
    and j: "j = reads_as d (de_issue y) \<or> j = reads_as d' (de_issue y)"
    and lost: "de_id x \<notin> ld_id ` snd ` set (losers (live_as d' kept))" "de_id y \<notin> ld_id ` snd ` set (losers (live_as d' kept))"
    and key: "key_at (hashed_by d) i c x = key_at (hashed_by d) j c' y"
  shows "x = y"
proof -
  have ok: "base_ok (books d)" using assms(1) by (simp add: desk_base_def triage_ok_def)
  have same: "books d' = books d" using assms(2) by (simp add: read_into_def)
  have spot: "i = j" "same_spot c x c' y" using key key_at_same [OF assms(3)] assms(4) x(1) y(1) by blast+
  have read: "reads_as d' (de_issue r) = (if reads_as d (de_issue r) = gone then kept else reads_as d (de_issue r))" for r
    using assms(2) by (simp add: read_into_def)
  have apart: "kept \<noteq> gone" using assms(2) by (simp add: read_into_def)
  have now: "reads_as d' (de_issue x) = reads_as d' (de_issue y)"
    using i j spot(1) apart unfolding read by (auto split: if_splits)
  show ?thesis
  proof (cases "reads_as d (de_issue x) = reads_as d (de_issue y)")
    case True
    have "de_live_key r = Some (key_at (hashed_by d) (reads_as d (de_issue r)) c'' r)"
      if r: "r \<in> set (occurrences (books d))" "de_live_key r \<noteq> None" "decision_of (de_decision r) (books d) = Some c''" for r c''
      using desk_key [OF assms(1) r(1)] r(2,3) by auto
    from this [OF x] this [OF y] have "de_live_key x = de_live_key y" using True same_spot_key [OF spot(2)] by simp
    moreover have "unique_keys (occurrences (books d))" using ok by (simp add: base_ok_def)
    ultimately show ?thesis using same_key_same_row x(1,2) y(1) by (metis option.collapse)
  next
    case False
    then have at: "reads_as d' (de_issue x) = kept" "reads_as d' (de_issue y) = kept"
      using now unfolding read by (auto split: if_splits)
    have live: "live_of x c \<in> set (live_as d' kept)" "live_of y c' \<in> set (live_as d' kept)"
      unfolding in_live_as same using x y at by blast+
    have "distinct (map ld_id (live_as d' kept))" using ok by (intro live_distinct) (simp add: base_ok_def same)
    moreover have "de_issue x \<noteq> de_issue y" using False by auto
    ultimately have "de_id x = de_id y"
      using survivors_apart [OF _ live] lost same_spot_live [OF spot(2)] by auto
    then show ?thesis using numbered_inj [of de_id] ok x(1) y(1) by (auto simp: base_ok_def inj_on_def)
  qed
qed

lemma settling_answers:
  assumes "desk_base d" and "read_into kept gone d d'" and "inj (hashed_by d)" and "\<forall>r \<in> set (occurrences (books d)). plain r"
    and "at_desk st = d'" and "lapsed_rows_of st = []"
  shows "\<exists>t. settleDecisions kept m now st = Inr t"
proof -
  let ?live = "live_as d' kept"
  let ?lost = "ld_id ` snd ` set (losers ?live)"
  have ok: "base_ok (books d)" using assms(1) by (simp add: desk_base_def triage_ok_def)
  have same: "books d' = books d" "hashed_by d' = hashed_by d" using assms(2) by (simp_all add: read_into_def)
  have distinct: "distinct (map ld_id ?live)" using ok by (intro live_distinct) (simp add: base_ok_def same)
  have rows: "inj_on de_id (set (occurrences (books d)))" "distinct (occurrences (books d))"
    using ok numbered_distinct [of de_id "occurrences (books d)"] by (auto simp: base_ok_def numbered_inj)
  define u where "u = fold (\<lambda>(w, d). supersede_one m now w d) (losers ?live) st"
  note u = superseding [where pairs = "losers ?live" and st = st and m = m and now = now, folded u_def, unfolded assms(5)]
  have hash: "hashed_by (at_desk u) = hashed_by d" using u(3) by (simp add: beside_rows_def Let_def assms(5) same)
  have rows_u: "rows_in u = map (\<lambda>r. if de_id r \<in> ?lost then lapse_row now r else r) (occurrences (books d))"
    using u(1) unfolding change_def by (simp add: rows_in_def assms(5) same)
  have moves: "moving (lapsed_rows_of u) kept = (\<lambda>d. ld_id d \<notin> ?lost \<and> ld_filed d \<noteq> kept)"
    by (auto simp: moving_def u(2) assms(6) fun_eq_iff)
  have "\<exists>t. each (hold_as kept) ?live u = Inr t"
  proof (rule holding_answers [OF distinct])
    fix first rest
    assume split: "filter (moving (lapsed_rows_of u) kept) ?live = first @ rest"
    have first: "l \<in> set ?live \<and> ld_id l \<notin> ?lost" if l: "l \<in> set first" for l
    proof -
      have "l \<in> set (filter (moving (lapsed_rows_of u) kept) ?live)" unfolding split using l by simp
      then show ?thesis unfolding moves by simp
    qed
    let ?g = "\<lambda>r. hold_row (hashed_by d) kept first (if de_id r \<in> ?lost then lapse_row now r else r)"
    have held: "de_id r \<notin> ?lost \<and> de_live_key r \<noteq> None \<and> (\<exists>c i. decision_of (de_decision r) (books d) = Some c
        \<and> (i = reads_as d (de_issue r) \<or> i = reads_as d' (de_issue r)) \<and> k = key_at (hashed_by d) i c r)"
      if r: "r \<in> set (occurrences (books d))" and k: "de_live_key (?g r) = Some k" for r k
    proof (cases "find (\<lambda>l. ld_id l = de_id r) first")
      case None
      then have "de_id r \<notin> ?lost \<and> de_live_key r = Some k"
        using k by (auto simp: hold_row_def lapse_row_def split: if_splits)
      then show ?thesis using desk_key [OF assms(1) r, of k] by auto
    next
      case (Some l)
      have "l \<in> set first" "ld_id l = de_id r" using find_Some [OF Some] by blast+
      then have l: "l \<in> set ?live" "ld_id l = de_id r" "de_id r \<notin> ?lost" using first [of l] by metis+
      from l(1) obtain x c where x: "x \<in> set (occurrences (books d))" "de_live_key x \<noteq> None" "reads_as d' (de_issue x) = kept"
        "decision_of (de_decision x) (books d) = Some c" "l = live_of x c" unfolding in_live_as same by blast
      then have "x = r" using l(2) rows(1) r by (auto simp: inj_on_def)
      moreover have "k = held_key (hashed_by d) kept l" using k Some l(3) by (simp add: hold_row_def)
      ultimately show ?thesis using x l(3) by (auto simp: keys_at)
    qed
    have "unique_keys (map ?g (occurrences (books d)))"
    proof (rule unique_keys_map [OF rows(2)])
      fix x y k
      assume xy: "x \<in> set (occurrences (books d))" "y \<in> set (occurrences (books d))"
        "de_live_key (?g x) = Some k" "de_live_key (?g y) = Some k"
      from held [OF xy(1,3)] obtain c i where x: "de_id x \<notin> ?lost" "de_live_key x \<noteq> None" "decision_of (de_decision x) (books d) = Some c"
        "i = reads_as d (de_issue x) \<or> i = reads_as d' (de_issue x)" "k = key_at (hashed_by d) i c x" by blast
      from held [OF xy(2,4)] obtain c' j where y: "de_id y \<notin> ?lost" "de_live_key y \<noteq> None" "decision_of (de_decision y) (books d) = Some c'"
        "j = reads_as d (de_issue y) \<or> j = reads_as d' (de_issue y)" "k = key_at (hashed_by d) j c' y" by blast
      show "x = y"
        by (rule between_apart [OF assms(1-4) xy(1) x(2,3) xy(2) y(2,3) x(4) y(4) x(1) y(1)]) (use x(5) y(5) in simp)
    qed
    then show "unique_keys (map (hold_row (hashed_by (at_desk u)) kept first) (rows_in u))"
      unfolding hash rows_u by (simp add: comp_def)
  qed
  then show ?thesis unfolding settleDecisions_fold assms(5) u_def [symmetric] .
qed

end
