(* ===== verification/Triage_Stood.thy ===== *)
theory Triage_Stood
  imports Triage_Merge
begin

section \<open>One record stays in each product\<close>

text \<open>
  Incidents and rating claims each stand under a key, one for a product and an issue, and a merge settles both
  with \<^verbatim>\<open>settleStanding\<close>. What that leaves is proved here once, of any table of records settled so: the index
  never refuses what is written, one record stays in each product about the issue kept, and none stays about
  the issue absorbed.
\<close>

subsection \<open>Groups by product\<close>

lemma grouped_keys: "key ` hd ` set (grouped key xs) \<subseteq> key ` set xs"
proof
  fix k
  assume "k \<in> key ` hd ` set (grouped key xs)"
  then obtain x where x: "x \<in> set xs" "k = key (hd (filter (\<lambda>y. key y = key x) xs))" by (auto simp: in_grouped)
  then have "filter (\<lambda>y. key y = key x) xs \<noteq> []" by (auto simp: filter_empty_conv)
  then have "hd (filter (\<lambda>y. key y = key x) xs) \<in> set (filter (\<lambda>y. key y = key x) xs)" by (rule hd_in_set)
  then show "k \<in> key ` set xs" using x by auto
qed

lemma grouped_distinct: "distinct (map (key \<circ> hd) (grouped key xs))"
proof (induction key xs rule: grouped.induct)
  case (2 key x xs)
  moreover have "key x \<notin> key ` hd ` set (grouped key (filter (\<lambda>y. key y \<noteq> key x) xs))"
    using grouped_keys [of key "filter (\<lambda>y. key y \<noteq> key x) xs"] by fastforce
  ultimately show ?case by (simp add: image_comp)
qed simp

subsection \<open>Records that stand under a key\<close>

text \<open>
  A table of records, what a merge reads of one that stands, and the two writes: one that stops a record
  standing, and one that holds what stays under the issue kept, which the index may refuse.
\<close>

locale standing_rows = ranked ranks a_ident for ranks :: "'a \<Rightarrow> 'a \<Rightarrow> bool" and a_ident :: "'a \<Rightarrow> int" +
  fixes ident :: "'r \<Rightarrow> int" and product :: "'r \<Rightarrow> int" and live :: "'r \<Rightarrow> int option"
    and clear :: "'c \<Rightarrow> 'r \<Rightarrow> 'r" and hold :: "int \<Rightarrow> 'r \<Rightarrow> 'r" and fit :: "'r \<Rightarrow> bool"
    and view :: "int \<Rightarrow> 'r \<Rightarrow> 'a" and a_product :: "'a \<Rightarrow> int" and a_live :: "'a \<Rightarrow> int"
    and rows_of :: "'s \<Rightarrow> 'r list" and beside :: "'s \<Rightarrow> 's \<Rightarrow> bool"
    and retire :: "'c \<Rightarrow> 'a \<Rightarrow> 'a \<Rightarrow> 's \<Rightarrow> failure + 's" and settle :: "int \<Rightarrow> 'a \<Rightarrow> bool \<Rightarrow> 's \<Rightarrow> failure + 's"
  assumes fields [simp]: "ident (clear c r) = ident r" "product (clear c r) = product r" "live (clear c r) = None"
      "ident (hold k r) = ident r" "product (hold k r) = product r" "live (hold k r) = Some k"
    and clear_twice: "clear c (clear c r) = clear c r" and clear_fit: "fit (clear c r)" and hold_fit: "fit r \<Longrightarrow> live r \<noteq> None \<Longrightarrow> fit (hold k r)"
    and views [simp]: "a_ident (view v r) = ident r" "a_product (view v r) = product r" "a_live (view v r) = v"
    and beside_refl: "beside s s" and beside_trans: "beside s t \<Longrightarrow> beside t u \<Longrightarrow> beside s u"
    and retires: "\<exists>t. retire c a w s = Inr t \<and> rows_of t = change (\<lambda>r. ident r = a_ident a) (clear c) (rows_of s) \<and> beside s t"
    and settles_kept: "a_live w = k \<Longrightarrow> settle k w b s = Inr s"
    and settles_moved: "a_live w \<noteq> k \<Longrightarrow> settle k w b s = Inr t
      \<Longrightarrow> rows_of t = change (\<lambda>r. ident r = a_ident w) (hold k) (rows_of s) \<and> beside s t"
    and settles_unless: "a_live w \<noteq> k
      \<Longrightarrow> distinct (List.map_filter (\<lambda>r. map_option (Pair (product r)) (live r)) (change (\<lambda>r. ident r = a_ident w) (hold k) (rows_of s)))
      \<Longrightarrow> \<exists>t. settle k w b s = Inr t"
begin

definition one_live :: "'r list \<Rightarrow> bool" where
  "one_live rows \<longleftrightarrow> distinct (List.map_filter (\<lambda>r. map_option (Pair (product r)) (live r)) rows)"

lemma in_pairs: "(p, v) \<in> set (List.map_filter (\<lambda>r. map_option (Pair (product r)) (live r)) rows)
    \<longleftrightarrow> (\<exists>r \<in> set rows. product r = p \<and> live r = Some v)"
  by (force simp: in_map_filter)

lemma one_live_map:
  assumes "distinct rows"
    and "\<And>i j v. i \<in> set rows \<Longrightarrow> j \<in> set rows \<Longrightarrow> live (f i) = Some v \<Longrightarrow> live (f j) = Some v
      \<Longrightarrow> product (f i) = product (f j) \<Longrightarrow> i = j"
  shows "one_live (map f rows)"
  using assms
proof (induction rows)
  case (Cons r rows)
  then have rest: "one_live (map f rows)" by simp
  have "\<not> (\<exists>x \<in> set (map f rows). product x = product (f r) \<and> live x = Some v)" if v: "live (f r) = Some v" for v
    using Cons.prems v by fastforce
  then show ?case using rest in_pairs [of "product (f r)" _ "map f rows"]
    by (auto simp: one_live_def map_filter_simps split: option.split)
qed (simp add: one_live_def map_filter_simps)

lemma one_live_same:
  assumes "one_live rows" and "i \<in> set rows" and "j \<in> set rows" and "live i = Some v" and "live j = Some v" and "product i = product j"
  shows "i = j"
  using assms
proof (induction rows)
  case (Cons r rows)
  then show ?case using in_pairs [of "product r" v rows]
    by (cases "live r") (auto simp: one_live_def map_filter_simps)
qed simp

definition group_row :: "int \<Rightarrow> 'c \<Rightarrow> 'a list \<Rightarrow> 'r \<Rightarrow> 'r" where
  "group_row kept c g r =
    (let winner = winner_of ranks g
     in if ident r \<notin> a_ident ` set g then r
        else if ident r \<noteq> a_ident winner then clear c r
        else if a_live winner = kept then r else hold kept r)"

lemma group_row_frame [simp]: "ident (group_row kept c g r) = ident r" "product (group_row kept c g r) = product r"
  by (simp_all add: group_row_def Let_def)

abbreviation settle_group :: "int \<Rightarrow> 'c \<Rightarrow> 'a list \<Rightarrow> 's \<Rightarrow> failure + 's" where
  "settle_group kept c \<equiv> settle_here a_ident ranks (retire c) (settle kept)"

lemma retiring:
  "\<exists>t. each (\<lambda>a s. if a_ident a = a_ident w then Inr s else retire c a w s) g s = Inr t
    \<and> rows_of t = map (\<lambda>r. if ident r \<in> a_ident ` set g - {a_ident w} then clear c r else r) (rows_of s) \<and> beside s t"
proof (induction g arbitrary: s)
  case (Cons a g)
  show ?case
  proof (cases "a_ident a = a_ident w")
    case True
    have same: "a_ident ` set (a # g) - {a_ident w} = a_ident ` set g - {a_ident w}" using True by auto
    show ?thesis unfolding same using Cons [of s] True by (simp add: and_then_simps)
  next
    case False
    obtain u where u: "retire c a w s = Inr u" "rows_of u = change (\<lambda>r. ident r = a_ident a) (clear c) (rows_of s)" "beside s u"
      using retires by blast
    from Cons [of u] obtain t where t: "each (\<lambda>a s. if a_ident a = a_ident w then Inr s else retire c a w s) g u = Inr t"
      "rows_of t = map (\<lambda>r. if ident r \<in> a_ident ` set g - {a_ident w} then clear c r else r) (rows_of u)" "beside u t" by blast
    have "rows_of t = map (\<lambda>r. if ident r \<in> a_ident ` set (a # g) - {a_ident w} then clear c r else r) (rows_of s)"
      unfolding t(2) u(2) using False by (auto simp: change_def clear_twice)
    then show ?thesis using t(1) u(1) False beside_trans [OF u(3) t(3)] by (simp add: and_then_simps)
  qed
qed (simp add: beside_refl)

lemma group_settling:
  assumes "g \<noteq> []"
  shows "settle_group kept c g s = Inr t \<Longrightarrow> rows_of t = map (group_row kept c g) (rows_of s) \<and> beside s t"
    and "one_live (map (group_row kept c g) (rows_of s)) \<Longrightarrow> \<exists>t. settle_group kept c g s = Inr t"
proof -
  let ?w = "winner_of ranks g"
  have w: "?w \<in> set g" by (rule winner_wins(1) [OF assms])
  obtain u where u: "each (\<lambda>a s. if a_ident a = a_ident ?w then Inr s else retire c a ?w s) g s = Inr u"
    "rows_of u = map (\<lambda>r. if ident r \<in> a_ident ` set g - {a_ident ?w} then clear c r else r) (rows_of s)" "beside s u"
    using retiring by blast
  have step: "settle_group kept c g s = settle kept ?w (length g > 1) u"
    by (simp add: settle_here_def Let_def u(1) and_then_simps)
  have rows: "(if a_live ?w = kept then rows_of u else change (\<lambda>r. ident r = a_ident ?w) (hold kept) (rows_of u))
    = map (group_row kept c g) (rows_of s)"
    unfolding u(2) using w by (auto simp: change_def group_row_def Let_def)
  show "settle_group kept c g s = Inr t \<Longrightarrow> rows_of t = map (group_row kept c g) (rows_of s) \<and> beside s t"
    unfolding step rows [symmetric] using u(3) settles_kept [of ?w kept] settles_moved [of ?w kept _ u t] beside_trans [OF u(3), of t]
    by (cases "a_live ?w = kept") auto
  show "one_live (map (group_row kept c g) (rows_of s)) \<Longrightarrow> \<exists>t. settle_group kept c g s = Inr t"
    unfolding step rows [symmetric] one_live_def using settles_kept [of ?w kept] settles_unless [of ?w kept u]
    by (cases "a_live ?w = kept") auto
qed

text \<open>What the table keeps: its identifiers, its index, and what is said of a row alone.\<close>

definition kept_rows :: "'r list \<Rightarrow> bool" where
  "kept_rows rows \<longleftrightarrow> distinct (map ident rows) \<and> one_live rows \<and> list_all fit rows"

text \<open>A group still to be settled: the records that stand in its product about either issue.\<close>

abbreviation product_of :: "'a list \<Rightarrow> int" where "product_of g \<equiv> a_product (hd g)"

definition open_group :: "int \<Rightarrow> int \<Rightarrow> 'r list \<Rightarrow> 'a list \<Rightarrow> bool" where
  "open_group kept gone rows g \<longleftrightarrow> g \<noteq> [] \<and> (\<forall>r \<in> set rows.
     (ident r \<in> a_ident ` set g \<longleftrightarrow> product r = product_of g \<and> (live r = Some kept \<or> live r = Some gone))
     \<and> (\<forall>a \<in> set g. a_ident a = ident r \<longrightarrow> live r = Some (a_live a)))"

lemma group_settled_ok:
  assumes "kept_rows rows" and "open_group kept gone rows g"
  shows "kept_rows (map (group_row kept c g) rows)"
proof -
  let ?f = "group_row kept c g" and ?w = "winner_of ranks g"
  have ok: "distinct (map ident rows)" "one_live rows" "list_all fit rows"
    using assms(1) by (simp_all add: kept_rows_def)
  have w: "?w \<in> set g" using assms(2) by (intro winner_wins) (simp add: open_group_def)
  have own: "i = j" if "i \<in> set rows" "j \<in> set rows" "ident i = ident j" for i j
    using ok(1) that by (auto simp: distinct_map inj_on_def)
  have row: "?f i = i \<and> (ident i \<in> a_ident ` set g \<longrightarrow> ident i = a_ident ?w \<and> live i = Some kept)
     \<or> live (?f i) = None \<and> fit (?f i) \<or> ident i = a_ident ?w \<and> live i \<noteq> None \<and> ?f i = hold kept i"
    if "i \<in> set rows" for i
    using assms(2) that w unfolding group_row_def Let_def open_group_def by (auto simp: clear_fit)
  have "one_live (map ?f rows)"
  proof (rule one_live_map)
    show "distinct rows" using ok(1) by (simp add: distinct_map)
    fix i j v
    assume i: "i \<in> set rows" and j: "j \<in> set rows" and lives: "live (?f i) = Some v" "live (?f j) = Some v"
      and "product (?f i) = product (?f j)"
    then have product: "product i = product j" by simp
    have in_group: "ident x = a_ident ?w" if "x \<in> set rows" "live (?f x) = Some kept" "product x = product_of g" for x
    proof -
      have "?f x = x" if "ident x \<notin> a_ident ` set g" using that by (simp add: group_row_def)
      then show ?thesis using row [OF that(1)] that assms(2) by (auto simp: open_group_def)
    qed
    have moved: "v = kept \<and> product x = product_of g" if "x \<in> set rows" "?f x \<noteq> x" "live (?f x) = Some v" for x
    proof -
      have "ident x \<in> a_ident ` set g" using that(2) by (rule contrapos_np) (simp add: group_row_def)
      then show ?thesis using row [OF that(1)] that assms(2) by (auto simp: open_group_def)
    qed
    show "i = j"
    proof (cases "?f i = i \<and> ?f j = j")
      case True
      then show ?thesis using one_live_same [OF ok(2) i j] lives product by simp
    next
      case False
      then have "v = kept" "product i = product_of g" "product j = product_of g"
        using moved [OF i _ lives(1)] moved [OF j _ lives(2)] product by auto
      then show ?thesis using in_group [OF i] in_group [OF j] lives own [OF i j] by simp
    qed
  qed
  moreover have "distinct (map ident (map ?f rows))" using ok(1) by (simp add: comp_def)
  moreover have "fit (?f i)" if "i \<in> set rows" for i
    using row [OF that] ok(3) that hold_fit [of i kept] by (auto simp: list_all_iff)
  ultimately show ?thesis by (simp add: kept_rows_def list_all_iff)
qed

lemma other_group_open:
  assumes "open_group kept gone rows g" and "open_group kept gone rows g'" and "product_of g \<noteq> product_of g'"
  shows "open_group kept gone (map (group_row kept c g) rows) g'"
  unfolding open_group_def
proof (intro conjI ballI)
  show "g' \<noteq> []" using assms(2) by (simp add: open_group_def)
  fix i
  assume "i \<in> set (map (group_row kept c g) rows)"
  then obtain x where x: "x \<in> set rows" "i = group_row kept c g x" by auto
  have left: "i = x" if "product x = product_of g'"
  proof -
    have "ident x \<notin> a_ident ` set g" using that assms(1,3) x(1) by (auto simp: open_group_def)
    then show ?thesis by (simp add: x(2) group_row_def)
  qed
  show "ident i \<in> a_ident ` set g' \<longleftrightarrow> product i = product_of g' \<and> (live i = Some kept \<or> live i = Some gone)"
    using left x assms(2) unfolding open_group_def by (metis group_row_frame)
  fix a
  assume a: "a \<in> set g'"
  show "a_ident a = ident i \<longrightarrow> live i = Some (a_live a)"
  proof
    assume id_a: "a_ident a = ident i"
    then have "ident x \<in> a_ident ` set g'" using a by (metis imageI group_row_frame(1) x(2))
    then have "i = x" using left assms(2) x(1) by (auto simp: open_group_def)
    then show "live i = Some (a_live a)" using assms(2) x(1) a id_a by (auto simp: open_group_def)
  qed
qed

lemma groups_settling:
  assumes "kept_rows (rows_of s)" and "\<forall>g \<in> set gs. open_group kept gone (rows_of s) g"
    and "distinct (map product_of gs)" and "kept \<noteq> gone"
  shows "\<exists>t. each (settle_group kept c) gs s = Inr t \<and> beside s t \<and> kept_rows (rows_of t)
    \<and> map ident (rows_of t) = map ident (rows_of s)
    \<and> (\<forall>i \<in> set (rows_of t). live i = Some gone \<longrightarrow> product i \<notin> product_of ` set gs \<and> i \<in> set (rows_of s))"
  using assms
proof (induction gs arbitrary: s)
  case (Cons g gs)
  let ?rows = "rows_of s" and ?f = "group_row kept c g"
  have g: "open_group kept gone ?rows g" "g \<noteq> []" using Cons.prems(2) by (simp_all add: open_group_def)
  have ok: "kept_rows (map ?f ?rows)" by (rule group_settled_ok [OF Cons.prems(1) g(1)])
  then obtain u where u: "settle_group kept c g s = Inr u"
    using group_settling(2) [OF g(2), of kept c s] by (auto simp: kept_rows_def)
  note u2 = group_settling(1) [OF g(2) u, THEN conjunct1] group_settling(1) [OF g(2) u, THEN conjunct2]
  have "\<forall>g' \<in> set gs. open_group kept gone (rows_of u) g'"
  proof
    fix g'
    assume g': "g' \<in> set gs"
    have "product_of g \<noteq> product_of g'" using Cons.prems(3) g' by force
    then show "open_group kept gone (rows_of u) g'"
      unfolding u2(1) using other_group_open [OF g(1)] Cons.prems(2) g' by simp
  qed
  then obtain t where t: "each (settle_group kept c) gs u = Inr t" "beside u t" "kept_rows (rows_of t)"
    "map ident (rows_of t) = map ident (rows_of u)"
    "\<forall>i \<in> set (rows_of t). live i = Some gone \<longrightarrow> product i \<notin> product_of ` set gs \<and> i \<in> set (rows_of u)"
    using Cons.IH [of u] Cons.prems(3,4) ok unfolding u2(1) by auto
  have "product i \<noteq> product_of g \<and> i \<in> set ?rows" if i: "i \<in> set (map ?f ?rows)" "live i = Some gone" for i
  proof -
    obtain x where x: "x \<in> set ?rows" "i = ?f x" using i(1) by auto
    have "i = x \<and> ident x \<notin> a_ident ` set g \<or> i = x \<and> live x = Some kept"
      using x i(2) Cons.prems(4) g(1) winner_wins(1) [OF g(2)]
      unfolding group_row_def Let_def open_group_def by (auto split: if_splits)
    then show ?thesis using i(2) x(1) g(1) Cons.prems(4) by (auto simp: open_group_def)
  qed
  then have "\<forall>i \<in> set (rows_of t). live i = Some gone \<longrightarrow> product i \<notin> product_of ` set (g # gs) \<and> i \<in> set ?rows"
    using t(5) unfolding u2(1) by auto
  moreover have "map ident (rows_of t) = map ident ?rows" unfolding t(4) u2(1) by simp
  moreover have "each (settle_group kept c) (g # gs) s = Inr t" using u t(1) by (simp add: and_then_simps)
  ultimately show ?case using t(3) beside_trans [OF u2(2) t(2)] by blast
qed (simp add: beside_refl)

definition views_on :: "'r list \<Rightarrow> int \<Rightarrow> int \<Rightarrow> 'a list" where
  "views_on rows kept gone = List.map_filter (\<lambda>r. case live r of None \<Rightarrow> None
     | Some v \<Rightarrow> if v = kept \<or> v = gone then Some (view v r) else None) rows"

lemma in_views: "a \<in> set (views_on rows kept gone) \<longleftrightarrow> (\<exists>r \<in> set rows. \<exists>v. live r = Some v \<and> (v = kept \<or> v = gone) \<and> a = view v r)"
proof -
  have "(case live r of None \<Rightarrow> None | Some v \<Rightarrow> if v = kept \<or> v = gone then Some (view v r) else None) = Some a
      \<longleftrightarrow> (\<exists>v. live r = Some v \<and> (v = kept \<or> v = gone) \<and> a = view v r)" for r
    by (cases "live r") auto
  then show ?thesis unfolding views_on_def in_map_filter by blast
qed

lemma views_open:
  assumes "distinct (map ident rows)" and "g \<in> set (grouped a_product (views_on rows kept gone))"
  shows "open_group kept gone rows g"
proof -
  obtain x where x: "x \<in> set (views_on rows kept gone)" "g = filter (\<lambda>y. a_product y = a_product x) (views_on rows kept gone)"
    using assms(2) by (auto simp: in_grouped)
  have some: "g \<noteq> []" using x by (auto simp: filter_empty_conv)
  then have product: "product_of g = a_product x" using hd_in_set [OF some] x(2) by auto
  have own: "i = j" if "i \<in> set rows" "j \<in> set rows" "ident i = ident j" for i j
    using assms(1) that by (auto simp: distinct_map inj_on_def)
  have in_g: "a \<in> set g \<longleftrightarrow> a \<in> set (views_on rows kept gone) \<and> a_product a = a_product x" for a
    unfolding x(2) by auto
  have one: "product i = a_product a \<and> live i = Some (a_live a) \<and> (a_live a = kept \<or> a_live a = gone)"
    if a: "a \<in> set (views_on rows kept gone)" "a_ident a = ident i" and i: "i \<in> set rows" for a i
  proof -
    obtain j v where j: "j \<in> set rows" "live j = Some v" "v = kept \<or> v = gone" "a = view v j" using a(1) unfolding in_views by auto
    then have "i = j" using own [OF i j(1)] a(2) by simp
    then show ?thesis using j by simp
  qed
  show ?thesis
    unfolding open_group_def
  proof (intro conjI ballI impI some)
    fix i
    assume i: "i \<in> set rows"
    show "ident i \<in> a_ident ` set g \<longleftrightarrow> product i = product_of g \<and> (live i = Some kept \<or> live i = Some gone)"
    proof
      assume "ident i \<in> a_ident ` set g"
      then obtain a where a: "a \<in> set g" "a_ident a = ident i" by auto
      then show "product i = product_of g \<and> (live i = Some kept \<or> live i = Some gone)"
        using one [OF _ a(2) i] in_g product by auto
    next
      assume stands: "product i = product_of g \<and> (live i = Some kept \<or> live i = Some gone)"
      then obtain v where v: "live i = Some v" "v = kept \<or> v = gone" by auto
      have "view v i \<in> set g" unfolding in_g in_views using i v stands product by auto
      then show "ident i \<in> a_ident ` set g" by force
    qed
    fix a
    assume "a \<in> set g" "a_ident a = ident i"
    then show "live i = Some (a_live a)" using one [OF _ _ i] in_g by auto
  qed
qed

lemma settling:
  assumes "kept_rows (rows_of s)" and "kept \<noteq> gone"
  shows "\<exists>t. settleStanding (views_on (rows_of s) kept gone) a_product a_ident ranks (retire c) (settle kept) s = Inr t
    \<and> beside s t \<and> kept_rows (rows_of t) \<and> map ident (rows_of t) = map ident (rows_of s)
    \<and> (\<forall>r \<in> set (rows_of t). live r \<noteq> Some gone)"
proof -
  let ?rows = "rows_of s"
  let ?gs = "grouped a_product (views_on ?rows kept gone)"
  have ids: "distinct (map ident ?rows)" using assms(1) by (simp add: kept_rows_def)
  have "\<forall>g \<in> set ?gs. open_group kept gone ?rows g" using views_open [OF ids] by blast
  moreover have "distinct (map product_of ?gs)" using grouped_distinct [of a_product] by (simp add: comp_def)
  ultimately obtain t where t: "each (settle_group kept c) ?gs s = Inr t" "beside s t" "kept_rows (rows_of t)"
    "map ident (rows_of t) = map ident ?rows"
    "\<forall>i \<in> set (rows_of t). live i = Some gone \<longrightarrow> product i \<notin> product_of ` set ?gs \<and> i \<in> set ?rows"
    using groups_settling [OF assms(1) _ _ assms(2)] by blast
  have "live i \<noteq> Some gone" if i: "i \<in> set (rows_of t)" for i
  proof
    assume gone: "live i = Some gone"
    then have old: "i \<in> set ?rows" "product i \<notin> product_of ` set ?gs" using t(5) i by auto
    let ?a = "view gone i"
    have "?a \<in> set (views_on ?rows kept gone)" unfolding in_views using old(1) gone by blast
    then have g: "filter (\<lambda>y. a_product y = a_product ?a) (views_on ?rows kept gone) \<in> set ?gs" unfolding in_grouped by blast
    have "open_group kept gone ?rows (filter (\<lambda>y. a_product y = a_product ?a) (views_on ?rows kept gone))"
      by (rule views_open [OF ids g])
    then have "filter (\<lambda>y. a_product y = a_product ?a) (views_on ?rows kept gone) \<noteq> []" by (simp add: open_group_def)
    from hd_in_set [OF this] have "product_of (filter (\<lambda>y. a_product y = a_product ?a) (views_on ?rows kept gone)) = a_product ?a" by simp
    then have "a_product ?a \<in> product_of ` set ?gs" using g by force
    then show False using old(2) by simp
  qed
  then show ?thesis using t(1-4) unfolding settleStanding_def by blast
qed

end

subsection \<open>Incidents\<close>

definition clear_by :: "int \<Rightarrow> string \<Rightarrow> Incident \<Rightarrow> Incident" where
  "clear_by now why i = i\<lparr>eh_cleared_at := Some now, eh_cleared_by := None, eh_cleared_because := Some why, eh_live := None\<rparr>"

definition beside_incidents :: "settling \<Rightarrow> settling \<Rightarrow> bool" where
  "beside_incidents st t \<longleftrightarrow> (let d = at_desk st; d' = at_desk t in
     (books d', reads_as d', hashed_by d', merges d', superseded d', assessments d')
       = (books d, reads_as d, hashed_by d, merges d, superseded d, assessments d))"

interpretation attack_rows: standing_rows attack_outranks sa_id eh_id eh_product eh_live
  "\<lambda>(kept, m, now, why). clear_by now why" "\<lambda>k i. i\<lparr>eh_live := Some k\<rparr>" "\<lambda>i. Standing i \<longleftrightarrow> eh_live i \<noteq> None"
  "\<lambda>v i. \<lparr>sa_id = eh_id i, sa_product = eh_product i, sa_live = v, sa_known_at = eh_known_at i, sa_recorded_at = eh_recorded_at i\<rparr>"
  sa_product sa_live "\<lambda>st. incidents (at_desk st)" beside_incidents
  "\<lambda>(kept, m, now, why). retire_attack kept m now why" hold_attack
  by unfold_locales
    (auto simp: clear_by_def Standing_def beside_incidents_def Let_def retire_attack_def hold_attack_def change_def
      one_standing_def live_incidents_def map_option_case split: if_splits option.splits)

definition incidents_ok :: "Incident list \<Rightarrow> bool" where
  "incidents_ok rows \<longleftrightarrow> numbered eh_id rows \<and> one_standing rows \<and> list_all (\<lambda>i. Standing i \<longleftrightarrow> eh_live i \<noteq> None) rows"

lemma attacks_settling:
  assumes "incidents_ok (incidents (at_desk st))" and "kept \<noteq> gone"
  shows "\<exists>t. settleAttacks kept gone m now why st = Inr t \<and> beside_incidents st t \<and> incidents_ok (incidents (at_desk t))
    \<and> (\<forall>i \<in> set (incidents (at_desk t)). eh_live i \<noteq> Some gone)"
proof -
  have rows: "attack_rows.kept_rows (incidents (at_desk u)) \<longleftrightarrow> distinct (map eh_id (incidents (at_desk u)))
      \<and> one_standing (incidents (at_desk u)) \<and> list_all (\<lambda>i. Standing i \<longleftrightarrow> eh_live i \<noteq> None) (incidents (at_desk u))" for u
    unfolding attack_rows.kept_rows_def attack_rows.one_live_def one_standing_def live_incidents_def by (rule refl)
  have "distinct (map eh_id (incidents (at_desk st)))" using assms(1) numbered_inj numbered_distinct
    by (auto simp: incidents_ok_def distinct_map)
  then have "attack_rows.kept_rows (incidents (at_desk st))" using assms(1) unfolding rows by (simp add: incidents_ok_def)
  from attack_rows.settling [OF this assms(2), of "(kept, m, now, why)"] obtain t where
    t: "settleAttacks kept gone m now why st = Inr t" "beside_incidents st t" "attack_rows.kept_rows (incidents (at_desk t))"
      "map eh_id (incidents (at_desk t)) = map eh_id (incidents (at_desk st))" "\<forall>i \<in> set (incidents (at_desk t)). eh_live i \<noteq> Some gone"
    by (auto simp: settleAttacks_def attacks_on_def attack_rows.views_on_def)
  have "numbered eh_id (incidents (at_desk t))"
    using assms(1) t(4) map_eq_imp_length_eq [OF t(4)] by (simp add: incidents_ok_def numbered_def)
  then show ?thesis using t(1,2,3,5) unfolding rows by (auto simp: incidents_ok_def)
qed

subsection \<open>Rating claims\<close>

definition withdraw_by :: "int \<Rightarrow> string \<Rightarrow> Assessment \<Rightarrow> Assessment" where
  "withdraw_by now why a = a\<lparr>asm_state := AssessmentWithdrawn, asm_decided_at := Some now, asm_decided_by := None,
     asm_withdrawn_because := Some why, asm_live := None\<rparr>"

definition beside_claims :: "settling \<Rightarrow> settling \<Rightarrow> bool" where
  "beside_claims st t \<longleftrightarrow> (let d = at_desk st; d' = at_desk t in
     (books d', incidents d', reads_as d', hashed_by d', merges d', superseded d')
       = (books d, incidents d, reads_as d, hashed_by d, merges d, superseded d))"

interpretation claim_rows: standing_rows claim_outranks sc_id asm_id asm_product asm_live
  "\<lambda>(kept, m, now, why). withdraw_by now why" "\<lambda>k a. a\<lparr>asm_live := Some k\<rparr>" "\<lambda>_. True"
  "\<lambda>v a. \<lparr>sc_id = asm_id a, sc_product = asm_product a, sc_live = v, sc_severity = asm_severity a,
     sc_state = asm_state a, sc_proposed_at = asm_proposed_at a\<rparr>"
  sc_product sc_live "\<lambda>st. assessments (at_desk st)" beside_claims
  "\<lambda>(kept, m, now, why). retire_claim kept m now why" hold_claim
  by unfold_locales
    (auto simp: withdraw_by_def beside_claims_def Let_def retire_claim_def hold_claim_def change_def one_claim_def split: if_splits)

lemma claims_settling:
  assumes "claims_ok (assessments (at_desk st))" and "kept \<noteq> gone"
  shows "\<exists>t. settleRatingClaims kept gone m now why st = Inr t \<and> beside_claims st t \<and> claims_ok (assessments (at_desk t))
    \<and> (\<forall>a \<in> set (assessments (at_desk t)). asm_live a \<noteq> Some gone)"
proof -
  have rows: "claim_rows.kept_rows rows \<longleftrightarrow> claims_ok rows" for rows
    by (simp add: claim_rows.kept_rows_def claim_rows.one_live_def claims_ok_def one_claim_def list_all_iff)
  from claim_rows.settling [of st, unfolded rows, OF assms, of "(kept, m, now, why)"] show ?thesis
    by (auto simp: settleRatingClaims_def claims_on_def claim_rows.views_on_def)
qed

end
