(* ===== verification/Triage_Merging.thy ===== *)
theory Triage_Merging
  imports Triage_Stood
begin

section \<open>Merging issues, beside everything else\<close>

text \<open>
  The incidents a merge settles, whole merges, and what holds of the desk whatever is decided,
  recorded, cleared and merged in whatever order.
\<close>

subsection \<open>A merge\<close>

text \<open>What merging keeps of the desk: what triage keeps of it, and the rules the database keeps of the claims.\<close>

definition desk_kept :: "desk \<Rightarrow> bool" where
  "desk_kept d \<longleftrightarrow> desk_base d \<and> claims_ok (assessments d)"

lemma desk_incidents_ok: "desk_base d \<Longrightarrow> incidents_ok (incidents d)"
  by (simp add: desk_base_def incidents_ok_def)

definition beside_records :: "settling \<Rightarrow> settling \<Rightarrow> bool" where
  "beside_records st t \<longleftrightarrow> (let d = at_desk st; d' = at_desk t in
     (books d', reads_as d', hashed_by d', merges d', superseded d') = (books d, reads_as d, hashed_by d, merges d, superseded d))"

text \<open>No claim and no incident stands about the issue absorbed.\<close>

definition none_about :: "int \<Rightarrow> desk \<Rightarrow> bool" where
  "none_about gone d \<longleftrightarrow> (\<forall>i \<in> set (incidents d). eh_live i \<noteq> Some gone) \<and> (\<forall>a \<in> set (assessments d). asm_live a \<noteq> Some gone)"

lemma records_settling:
  assumes "desk_kept (at_desk u)" and "kept \<noteq> gone"
  shows "\<exists>t. and_then (settleRatingClaims kept gone m now why u) (settleAttacks kept gone m now why) = Inr t
    \<and> beside_records u t \<and> desk_kept (at_desk t) \<and> none_about gone (at_desk t)"
proof -
  have base: "desk_base (at_desk u)" and claims: "claims_ok (assessments (at_desk u))" using assms(1) by (simp_all add: desk_kept_def)
  obtain v where v: "settleRatingClaims kept gone m now why u = Inr v" "beside_claims u v" "claims_ok (assessments (at_desk v))"
    "\<forall>a \<in> set (assessments (at_desk v)). asm_live a \<noteq> Some gone"
    using claims_settling [OF claims assms(2)] by blast
  have "incidents_ok (incidents (at_desk v))" using desk_incidents_ok [OF base] v(2) by (simp add: beside_claims_def Let_def)
  from attacks_settling [OF this assms(2)] obtain t where t: "settleAttacks kept gone m now why v = Inr t" "beside_incidents v t"
    "incidents_ok (incidents (at_desk t))" "\<forall>i \<in> set (incidents (at_desk t)). eh_live i \<noteq> Some gone" by blast
  have "beside_records u t" using v(2) t(2) by (simp add: beside_records_def beside_claims_def beside_incidents_def Let_def)
  moreover have "claims_ok (assessments (at_desk t))" "none_about gone (at_desk t)"
    using v(3,4) t(2,4) by (simp_all add: beside_incidents_def Let_def none_about_def)
  moreover have "desk_base (at_desk t)" using base t(3) \<open>beside_records u t\<close>
    by (simp add: beside_records_def Let_def desk_base_def incidents_ok_def desk_keys_def reads_settled_def)
  ultimately show ?thesis using v(1) t(1) by (auto simp: and_then_simps desk_kept_def)
qed

definition started :: "int \<Rightarrow> int \<Rightarrow> Merge \<Rightarrow> desk \<Rightarrow> desk" where
  "started kept gone merge d = d\<lparr>merges := merges d @ [merge],
     reads_as := (\<lambda>i. if reads_as d i = gone then kept else reads_as d i)\<rparr>"

lemma started_into:
  "kept \<noteq> gone \<Longrightarrow> reads_as d kept = kept \<Longrightarrow> reads_as d gone = gone \<Longrightarrow> read_into kept gone d (started kept gone merge d)"
  by (simp add: read_into_def started_def)

lemma absorb_parts:
  assumes "absorb called run now names kept gone st = Inr t"
  obtains u merge where "settleDecisions kept (fresh (merges (at_desk st))) (now div 1000 * 1000)
      (st\<lparr>at_desk := started kept gone merge (at_desk st), lapsed_rows_of := []\<rparr>) = Inr u"
    "and_then (settleRatingClaims kept gone (fresh (merges (at_desk st))) (now div 1000 * 1000) (supersededBecause called kept gone) u)
      (settleAttacks kept gone (fresh (merges (at_desk st))) (now div 1000 * 1000) (supersededBecause called kept gone)) = Inr t"
    "vm_id merge = fresh (merges (at_desk st))" "vm_kept merge = kept" "vm_absorbed merge = gone"
proof -
  define merge where "merge = \<lparr>vm_id = fresh (merges (at_desk st)), vm_absorbed = gone, vm_kept = kept,
    vm_named = strings_join '' '' names, vm_run = (if run \<noteq> 0 then Some run else None), vm_merged_at = now div 1000 * 1000\<rparr>"
  have "vm_id merge = fresh (merges (at_desk st))" "vm_kept merge = kept" "vm_absorbed merge = gone" by (simp_all add: merge_def)
  then show ?thesis using assms that [of merge] unfolding absorb_def Let_def started_def merge_def
    by (auto simp: and_then_def split: sum.splits)
qed

lemma settled_desk_kept:
  assumes "desk_kept (at_desk st)" and "read_into kept gone (at_desk st) (started kept gone merge (at_desk st))"
    and "settleDecisions kept m now (st\<lparr>at_desk := started kept gone merge (at_desk st), lapsed_rows_of := []\<rparr>) = Inr u"
  shows "desk_kept (at_desk u)"
proof -
  have base: "desk_base (at_desk st)" using assms(1) by (simp add: desk_kept_def)
  have "desk_base (at_desk u)" by (rule settled_desk_base [OF base assms(2) _ _ assms(3)]) simp_all
  moreover have "assessments (at_desk u) = assessments (at_desk st)"
    using settled_rows(10) [OF base assms(2) _ _ assms(3)] by (simp add: started_def)
  ultimately show ?thesis using assms(1) by (simp add: desk_kept_def)
qed

lemma absorb_base:
  assumes "absorb called run now names kept gone st = Inr t" and "desk_kept (at_desk st)" and "kept \<noteq> gone"
    and "reads_as (at_desk st) kept = kept" and "reads_as (at_desk st) gone = gone"
  shows "desk_kept (at_desk t)" and "reads_as (at_desk t) = (\<lambda>i. if reads_as (at_desk st) i = gone then kept else reads_as (at_desk st) i)"
    and "none_about gone (at_desk t)"
    and "hashed_by (at_desk t) = hashed_by (at_desk st)"
proof -
  from assms(1) obtain u merge where
    u: "settleDecisions kept (fresh (merges (at_desk st))) (now div 1000 * 1000)
      (st\<lparr>at_desk := started kept gone merge (at_desk st), lapsed_rows_of := []\<rparr>) = Inr u" and
    t: "and_then (settleRatingClaims kept gone (fresh (merges (at_desk st))) (now div 1000 * 1000) (supersededBecause called kept gone) u)
      (settleAttacks kept gone (fresh (merges (at_desk st))) (now div 1000 * 1000) (supersededBecause called kept gone)) = Inr t"
    by (rule absorb_parts)
  note into = started_into [OF assms(3-5), of merge]
  have base: "desk_base (at_desk st)" using assms(2) by (simp add: desk_kept_def)
  have same: "reads_as (at_desk u) = reads_as (started kept gone merge (at_desk st))" "hashed_by (at_desk u) = hashed_by (at_desk st)"
    using settled_rows(5,6) [OF base into _ _ u] by simp_all
  obtain t' where t': "and_then (settleRatingClaims kept gone (fresh (merges (at_desk st))) (now div 1000 * 1000) (supersededBecause called kept gone) u)
      (settleAttacks kept gone (fresh (merges (at_desk st))) (now div 1000 * 1000) (supersededBecause called kept gone)) = Inr t'"
    "beside_records u t'" "desk_kept (at_desk t')" "none_about gone (at_desk t')"
    using records_settling [OF settled_desk_kept [OF assms(2) into u] assms(3)] by blast
  have is_t: "t' = t" using t t'(1) by simp
  show "desk_kept (at_desk t)" and "none_about gone (at_desk t)" using t'(3,4) is_t by simp_all
  show "reads_as (at_desk t) = (\<lambda>i. if reads_as (at_desk st) i = gone then kept else reads_as (at_desk st) i)"
    and "hashed_by (at_desk t) = hashed_by (at_desk st)"
    using t'(2) same is_t by (simp_all add: beside_records_def Let_def started_def)
qed

lemma absorb_answers:
  assumes "desk_kept (at_desk st)" and "inj (hashed_by (at_desk st))" and "\<forall>r \<in> set (occurrences (books (at_desk st))). plain r"
    and "kept \<noteq> gone" and "reads_as (at_desk st) kept = kept" and "reads_as (at_desk st) gone = gone"
  shows "\<exists>t. absorb called run now names kept gone st = Inr t \<and> (\<forall>r \<in> set (occurrences (books (at_desk t))). plain r)"
proof -
  define merge where "merge = \<lparr>vm_id = fresh (merges (at_desk st)), vm_absorbed = gone, vm_kept = kept,
    vm_named = strings_join '' '' names, vm_run = (if run \<noteq> 0 then Some run else None), vm_merged_at = now div 1000 * 1000\<rparr>"
  let ?st = "st\<lparr>at_desk := started kept gone merge (at_desk st), lapsed_rows_of := []\<rparr>"
  note into = started_into [OF assms(4-6), of merge]
  have base: "desk_base (at_desk st)" using assms(1) by (simp add: desk_kept_def)
  obtain u where u: "settleDecisions kept (fresh (merges (at_desk st))) (now div 1000 * 1000) ?st = Inr u"
    using settling_answers [OF base into assms(2,3), of ?st] by auto
  obtain t where t: "and_then (settleRatingClaims kept gone (fresh (merges (at_desk st))) (now div 1000 * 1000) (supersededBecause called kept gone) u)
      (settleAttacks kept gone (fresh (merges (at_desk st))) (now div 1000 * 1000) (supersededBecause called kept gone)) = Inr t"
    "beside_records u t" using records_settling [OF settled_desk_kept [OF assms(1) into u] assms(4)] by blast
  have "absorb called run now names kept gone st = Inr t"
    using u t(1) by (simp add: absorb_def Let_def started_def merge_def and_then_simps)
  moreover have "occurrences (books (at_desk t)) = map (settle_row (hashed_by (at_desk st)) kept (now div 1000 * 1000)
      (live_as (started kept gone merge (at_desk st)) kept)) (occurrences (books (at_desk st)))"
    using settled_rows(1) [OF base into _ _ u] t(2) by (simp add: beside_records_def Let_def)
  ultimately show ?thesis using assms(3) by (auto simp: plain_def)
qed

text \<open>What the rows of a report are while they are merged into the one kept.\<close>

definition to_absorb :: "int \<Rightarrow> int list \<Rightarrow> settling \<Rightarrow> bool" where
  "to_absorb kept gs st \<longleftrightarrow> desk_kept (at_desk st) \<and> reads_as (at_desk st) kept = kept \<and> kept \<notin> set gs \<and> distinct gs
     \<and> (\<forall>g \<in> set gs. reads_as (at_desk st) g = g)"

lemma absorb_next:
  assumes "to_absorb kept (g # gs) st" and "absorb called run now names kept g st = Inr u"
  shows "to_absorb kept gs u" and "hashed_by (at_desk u) = hashed_by (at_desk st)"
    and "reads_as (at_desk u) = (\<lambda>i. if reads_as (at_desk st) i = g then kept else reads_as (at_desk st) i)"
  using absorb_base [OF assms(2)] assms(1) by (auto simp: to_absorb_def)

lemma absorbs_base:
  assumes "each (absorb called run now names kept) gs st = Inr t" and "to_absorb kept gs st"
  shows "desk_kept (at_desk t) \<and> hashed_by (at_desk t) = hashed_by (at_desk st)
    \<and> reads_as (at_desk t) = (\<lambda>i. if reads_as (at_desk st) i \<in> set gs then kept else reads_as (at_desk st) i)"
  using assms
proof (induction gs arbitrary: st)
  case Nil
  then show ?case by (simp add: to_absorb_def)
next
  case (Cons g gs)
  then obtain u where u: "absorb called run now names kept g st = Inr u" "each (absorb called run now names kept) gs u = Inr t" by auto
  note step = absorb_next [OF Cons.prems(2) u(1)]
  have "kept \<notin> set gs" using Cons.prems(2) by (simp add: to_absorb_def)
  then show ?case using Cons.IH [OF u(2) step(1)] step(2,3) by (auto simp: fun_eq_iff)
qed

lemma absorbs_answer:
  assumes "to_absorb kept gs st" and "inj (hashed_by (at_desk st))" and "\<forall>r \<in> set (occurrences (books (at_desk st))). plain r"
  shows "\<exists>t. each (absorb called run now names kept) gs st = Inr t"
  using assms
proof (induction gs arbitrary: st)
  case (Cons g gs)
  then obtain u where u: "absorb called run now names kept g st = Inr u" "\<forall>r \<in> set (occurrences (books (at_desk u))). plain r"
    using absorb_answers [of st kept g called run now names] by (auto simp: to_absorb_def)
  note step = absorb_next [OF Cons.prems(1) u(1)]
  have "\<exists>t. each (absorb called run now names kept) gs u = Inr t"
    by (rule Cons.IH [OF step(1) _ u(2)]) (use Cons.prems(2) step(2) in simp)
  then show ?case using u(1) by (simp add: and_then_simps)
qed simp

lemma last_best_in: "fold (\<lambda>i kept. if best i then i else kept) xs k \<in> insert k (set xs)"
proof (induction xs arbitrary: k)
  case (Cons x xs)
  then show ?case using Cons [of "if best x then x else k"] by (auto split: if_splits)
qed simp

definition own_rows :: "desk \<Rightarrow> int list \<Rightarrow> bool" where
  "own_rows d rows \<longleftrightarrow> distinct rows \<and> (\<forall>i \<in> set rows. reads_as d i = i)"

lemma own_rows_iff: "length (filter (\<lambda>i. reads_as d i = i) (remdups rows)) = length rows \<longleftrightarrow> own_rows d rows"
proof
  assume len: "length (filter (\<lambda>i. reads_as d i = i) (remdups rows)) = length rows"
  have all: "length (filter (\<lambda>i. reads_as d i = i) (remdups rows)) \<le> length (remdups rows)" "length (remdups rows) \<le> length rows"
    by simp_all
  then have distinct: "distinct rows" using len by (simp flip: remdups_id_iff_distinct length_remdups_eq)
  have "reads_as d i = i" if "i \<in> set rows" for i
  proof (rule ccontr)
    assume "reads_as d i \<noteq> i"
    then have "length (filter (\<lambda>i. reads_as d i = i) (remdups rows)) < length (remdups rows)"
      using that by (intro length_filter_less) simp_all
    then show False using len all by simp
  qed
  then show "own_rows d rows" using distinct by (simp add: own_rows_def)
next
  assume "own_rows d rows"
  then show "length (filter (\<lambda>i. reads_as d i = i) (remdups rows)) = length rows"
    by (simp add: own_rows_def distinct_remdups_id)
qed

lemma merging_parts:
  assumes "rows \<noteq> []"
  obtains kept gs where "kept \<in> set rows" "set gs = set rows - {kept}"
    "merging called best run now names rows d = checked (refuse_if (\<not> own_rows d rows) ErrGoAgain)
      (and_then (each (absorb called run now names kept) gs \<lparr>at_desk = d, lapsed_rows_of = [], displaced = []\<rparr>) (\<lambda>st. Inr (kept, st)))"
    "desk_kept d \<Longrightarrow> own_rows d rows \<Longrightarrow> to_absorb kept gs \<lparr>at_desk = d, lapsed_rows_of = [], displaced = []\<rparr>"
proof -
  define kept where "kept = fold (\<lambda>i kept. if best i then i else kept) (sort rows) (hd (sort rows))"
  have "sort rows \<noteq> []" using assms by (metis length_0_conv length_sort)
  then have kept: "kept \<in> set rows" using last_best_in [of best "sort rows" "hd (sort rows)"] hd_in_set [of "sort rows"]
    unfolding kept_def by auto
  have "own_rows d (sort rows) = own_rows d rows" by (simp add: own_rows_def)
  then show thesis
    using kept by (intro that [of kept "filter (\<lambda>i. i \<noteq> kept) (sort rows)"])
      (auto simp: merging_def Let_def kept_def [symmetric] own_rows_iff to_absorb_def own_rows_def)
qed

lemma merging_base:
  assumes "merging called best run now names rows d = Inr (kept, st)" and "desk_kept d"
  shows "desk_kept (at_desk st)" and "hashed_by (at_desk st) = hashed_by d"
    and "rows \<noteq> [] \<Longrightarrow> kept \<in> set rows \<and> reads_as (at_desk st) = (\<lambda>i. if reads_as d i \<in> set rows then kept else reads_as d i)"
proof -
  have "desk_kept (at_desk st) \<and> hashed_by (at_desk st) = hashed_by d
    \<and> (rows \<noteq> [] \<longrightarrow> kept \<in> set rows \<and> reads_as (at_desk st) = (\<lambda>i. if reads_as d i \<in> set rows then kept else reads_as d i))"
  proof (cases "rows = []")
    case True
    then have "st = \<lparr>at_desk = d, lapsed_rows_of = [], displaced = []\<rparr>" using assms(1) by (simp add: merging_def Let_def)
    then show ?thesis using True assms(2) by simp
  next
    case False
    obtain k gs where parts: "k \<in> set rows" "set gs = set rows - {k}"
      "merging called best run now names rows d = checked (refuse_if (\<not> own_rows d rows) ErrGoAgain)
      (and_then (each (absorb called run now names k) gs \<lparr>at_desk = d, lapsed_rows_of = [], displaced = []\<rparr>) (\<lambda>st. Inr (k, st)))"
      "desk_kept d \<Longrightarrow> own_rows d rows \<Longrightarrow> to_absorb k gs \<lparr>at_desk = d, lapsed_rows_of = [], displaced = []\<rparr>"
      using merging_parts [OF False, where d = d and called = called and best = best and run = run and now = now and names = names] by blast
    have own: "own_rows d rows" and k: "k = kept"
      and all: "each (absorb called run now names k) gs \<lparr>at_desk = d, lapsed_rows_of = [], displaced = []\<rparr> = Inr st"
      using assms(1) unfolding parts(3) by (auto simp: refuse_if_def split: if_splits)
    have same: "(\<lambda>i. if reads_as d i \<in> set gs then kept else reads_as d i) = (\<lambda>i. if reads_as d i \<in> set rows then kept else reads_as d i)"
      using parts(1,2) k by (auto simp: fun_eq_iff)
    show ?thesis using absorbs_base [OF all parts(4) [OF assms(2) own], unfolded settling.select_convs k same] parts(1) k by blast
  qed
  then show "desk_kept (at_desk st)" and "hashed_by (at_desk st) = hashed_by d"
    and "rows \<noteq> [] \<Longrightarrow> kept \<in> set rows \<and> reads_as (at_desk st) = (\<lambda>i. if reads_as d i \<in> set rows then kept else reads_as d i)"
    by blast+
qed

subsection \<open>Whatever is done at the desk, and whatever merges\<close>

inductive merging_act :: "desk \<Rightarrow> desk \<Rightarrow> bool" where
  does: "desk_act d d' \<Longrightarrow> merging_act d d'"
| merges_rows: "merging called best run now names rows d = Inr (kept, st) \<Longrightarrow> merging_act d (at_desk st)"

lemma desk_act_claims: "desk_act d d' \<Longrightarrow> claims_ok (assessments d) \<Longrightarrow> claims_ok (assessments d')"
proof (induction rule: desk_act.induct)
  case (records_incident d e flaws told subject p v knownAt grounds kept d')
  then have "assessments d' = assessments d"
    by (auto simp: RecordIncident_def Let_def and_then_def checked_def split: option.splits sum.splits if_splits)
  then show ?case using records_incident.prems by simp
next
  case (clears_incident d e may subject i because d')
  then have "assessments d' = assessments d"
    by (auto simp: ClearIncident_def Let_def checked_def split: option.splits)
  then show ?case using clears_incident.prems by simp
qed simp_all

lemma merging_act_kept: "merging_act d d' \<Longrightarrow> desk_kept d \<Longrightarrow> desk_kept d'"
proof (induction rule: merging_act.induct)
  case (does d d')
  then show ?case using desk_act_base desk_act_claims by (simp add: desk_kept_def)
qed (rule merging_base(1))

lemma merged_desk_kept: "merging_act\<^sup>*\<^sup>* (no_desk h) d \<Longrightarrow> desk_kept d"
proof (induction rule: rtranclp_induct)
  case base
  show ?case using no_desk_ok [of h] by (simp add: desk_ok_def desk_kept_def claims_ok_def one_claim_def no_desk_def map_filter_simps)
qed (rule merging_act_kept)

lemma merged_desk_base: "merging_act\<^sup>*\<^sup>* (no_desk h) d \<Longrightarrow> desk_base d"
  using merged_desk_kept by (simp add: desk_kept_def)

lemma merged_hash: "merging_act\<^sup>*\<^sup>* (no_desk h) d \<Longrightarrow> hashed_by d = h"
proof (induction rule: rtranclp_induct)
  case (step d d')
  have "hashed_by d' = hashed_by d" using step.hyps(2)
  proof (cases rule: merging_act.cases)
    case does
    then show ?thesis by (cases rule: desk_act.cases) (auto elim: record_parts dest: clear_parts(3))
  next
    case (merges_rows called best run now names rows kept st)
    then show ?thesis using merging_base(2) merged_desk_kept [OF step.hyps(1)] by blast
  qed
  then show ?case using step.IH by simp
qed (simp add: no_desk_def)

subsection \<open>What absorbing one issue does to a row\<close>

lemma same_spot_iff: "same_spot c x c' y \<longleftrightarrow> held_versions (live_of x c) = held_versions (live_of y c')
    \<and> spot_of (live_of x c) = spot_of (live_of y c')"
  by (auto simp: held_versions_def same_spot_def)

lemma settle_row_state:
  "de_id r \<notin> ld_id ` snd ` set (losers live) \<Longrightarrow> de_state (settle_row h kept now live r) = de_state r"
proof -
  have held: "de_state (hold_row h kept ds r) = de_state r" for ds by (simp add: hold_row_def split: option.split)
  assume "de_id r \<notin> ld_id ` snd ` set (losers live)"
  then show ?thesis by (simp only: settle_row_def Let_def if_False held)
qed

text \<open>That one row stood above another at the same place, both about the issue kept.\<close>

definition stood_above :: "desk \<Rightarrow> desk \<Rightarrow> int \<Rightarrow> DecisionOccurrence \<Rightarrow> DecisionOccurrence \<Rightarrow> bool" where
  "stood_above d d' kept w r \<longleftrightarrow> (\<exists>c c'. decision_of (de_decision w) (books d) = Some c \<and> decision_of (de_decision r) (books d) = Some c'
     \<and> outranks (live_of w c) (live_of r c') \<and> same_spot c w c' r \<and> reads_as d' (de_issue w) = kept)"

lemma absorbed_row:
  assumes "desk_kept (at_desk st)" and "absorb called run now names kept gone st = Inr t" and "kept \<noteq> gone"
    and "reads_as (at_desk st) kept = kept" and "reads_as (at_desk st) gone = gone"
    and "r' \<in> set (occurrences (books (at_desk t)))"
  shows "\<exists>r \<in> set (occurrences (books (at_desk st))). r' = r
    \<or> Live (de_state r) \<and> reads_as (at_desk t) (de_issue r) = kept \<and> (\<exists>k. r' = r\<lparr>de_live_key := Some k\<rparr>)
    \<or> Live (de_state r) \<and> reads_as (at_desk t) (de_issue r) = kept \<and> r' = lapse_row (now div 1000 * 1000) r
      \<and> (\<exists>w \<in> set (occurrences (books (at_desk st))). stood_above (at_desk st) (at_desk t) kept w r
          \<and> (\<exists>w' \<in> set (occurrences (books (at_desk t))). de_id w' = de_id w \<and> Live (de_state w'))
          \<and> (\<exists>x \<in> set (superseded (at_desk t)). ds_occurrence x = de_id r \<and> ds_standing x = de_id w))"
proof -
  let ?d = "at_desk st"
  from assms(2) obtain u merge where
    u: "settleDecisions kept (fresh (merges ?d)) (now div 1000 * 1000)
      (st\<lparr>at_desk := started kept gone merge ?d, lapsed_rows_of := []\<rparr>) = Inr u" and
    t: "and_then (settleRatingClaims kept gone (fresh (merges ?d)) (now div 1000 * 1000) (supersededBecause called kept gone) u)
      (settleAttacks kept gone (fresh (merges ?d)) (now div 1000 * 1000) (supersededBecause called kept gone)) = Inr t"
    by (rule absorb_parts)
  let ?s = "started kept gone merge ?d" and ?now = "now div 1000 * 1000"
  let ?live = "live_as ?s kept"
  note into = started_into [OF assms(3-5), of merge]
  have base: "desk_base ?d" using assms(1) by (simp add: desk_kept_def)
  have "beside_records u t" using records_settling [OF settled_desk_kept [OF assms(1) into u] assms(3),
    where m = "fresh (merges ?d)" and now = ?now and why = "supersededBecause called kept gone"] t by auto
  then have after: "books (at_desk t) = books (at_desk u)" "reads_as (at_desk t) = reads_as ?s" "superseded (at_desk t) = superseded (at_desk u)"
    using settled_rows(5) [OF base into _ _ u] by (simp_all add: beside_records_def Let_def)
  have rows: "occurrences (books (at_desk t)) = map (settle_row (hashed_by ?d) kept ?now ?live) (occurrences (books ?d))"
    using settled_rows(1) [OF base into _ _ u] after(1) by simp
  have ok: "base_ok (books ?d)" using base by (simp add: desk_base_def triage_ok_def)
  have same: "books ?s = books ?d" by (simp add: started_def)
  have numbered: "numbered de_id (occurrences (books ?s))" using ok by (simp add: base_ok_def same)
  let ?e = "sample_env\<lparr>issue_of := reads_as ?d, digest := hashed_by ?d\<rparr>"
  have keys: "keys_ok ?e (books ?s)" using base by (simp add: desk_base_def desk_keys_def same)
  note cases_of = settle_row_cases [where d = ?s and kept = kept and h = "hashed_by ?d" and now = ?now, OF numbered keys, unfolded same]
  have live_row: "\<exists>x \<in> set (occurrences (books ?d)). \<exists>c. l = live_of x c \<and> decision_of (de_decision x) (books ?d) = Some c
      \<and> Live (de_state x) \<and> reads_as ?s (de_issue x) = kept" if l: "l \<in> set ?live" for l
  proof -
    obtain x c where x: "x \<in> set (occurrences (books ?d))" "reads_as ?s (de_issue x) = kept" "de_live_key x \<noteq> None"
      "decision_of (de_decision x) (books ?d) = Some c" "l = live_of x c" using l unfolding in_live_as same by blast
    then have "Live (de_state x)" using ok by (simp add: base_ok_def)
    then show ?thesis using x by blast
  qed
  have own: "x = y" if "x \<in> set (occurrences (books ?d))" "y \<in> set (occurrences (books ?d))" "de_id x = de_id y" for x y
    using numbered_inj [OF numbered] that unfolding same by (auto simp: inj_on_def)
  have live_of_row: "Live (de_state r) \<and> reads_as ?s (de_issue r) = kept"
    if r: "r \<in> set (occurrences (books ?d))" "live_of r c \<in> set ?live" for r c
  proof -
    obtain x y where x: "x \<in> set (occurrences (books ?d))" "live_of r c = live_of x y" "Live (de_state x)" "reads_as ?s (de_issue x) = kept"
      using live_row [OF r(2)] by blast
    have "de_id r = de_id x" using arg_cong [OF x(2), of ld_id] unfolding live_of_simps .
    then have "r = x" by (rule own [OF r(1) x(1)])
    then show ?thesis using x(3,4) by blast
  qed
  obtain r where r: "r \<in> set (occurrences (books ?d))" "r' = settle_row (hashed_by ?d) kept ?now ?live r"
    using assms(6) unfolding rows by auto
  have "r' = r
      \<or> Live (de_state r) \<and> reads_as (at_desk t) (de_issue r) = kept \<and> (\<exists>k. r' = r\<lparr>de_live_key := Some k\<rparr>)
      \<or> Live (de_state r) \<and> reads_as (at_desk t) (de_issue r) = kept \<and> r' = lapse_row (now div 1000 * 1000) r
        \<and> (\<exists>w \<in> set (occurrences (books ?d)). stood_above ?d (at_desk t) kept w r
            \<and> (\<exists>w' \<in> set (occurrences (books (at_desk t))). de_id w' = de_id w \<and> Live (de_state w'))
            \<and> (\<exists>x \<in> set (superseded (at_desk t)). ds_occurrence x = de_id r \<and> ds_standing x = de_id w))"
    (is ?same_or_held_or_lost)
  proof (rule cases_of [OF r(1)])
    assume "settle_row (hashed_by ?d) kept ?now ?live r = r"
    then show ?same_or_held_or_lost using r(2) by (intro disjI1) simp
  next
    fix c
    assume "settle_row (hashed_by ?d) kept ?now ?live r = r"
    then show ?same_or_held_or_lost using r(2) by (intro disjI1) simp
  next
    fix c
    assume c: "live_of r c \<in> set ?live"
      "settle_row (hashed_by ?d) kept ?now ?live r = r\<lparr>de_live_key := Some (held_key (hashed_by ?d) kept (live_of r c))\<rparr>"
    have "\<exists>k. r' = r\<lparr>de_live_key := Some k\<rparr>" unfolding r(2) c(2) by (rule exI, rule refl)
    moreover have "Live (de_state r)" "reads_as (at_desk t) (de_issue r) = kept"
      using live_of_row [OF r(1) c(1)] unfolding after(2) by (rule conjunct1, rule conjunct2)
    ultimately show ?same_or_held_or_lost by - (rule disjI2, rule disjI1, intro conjI)
  next
    fix c
    assume c: "decision_of (de_decision r) (books ?d) = Some c" "live_of r c \<in> set ?live" "de_id r \<in> ld_id ` snd ` set (losers ?live)"
      "settle_row (hashed_by ?d) kept ?now ?live r = lapse_row ?now r"
    have distinct: "distinct (map ld_id ?live)" using numbered by (rule live_distinct)
    from c(3) obtain wl l where l: "(wl, l) \<in> set (losers ?live)" "ld_id l = de_id r" by auto
    then have "l \<in> set ?live" using in_losers by blast
    then have is_l: "l = live_of r c" using distinct c(2) l(2) by (auto simp: distinct_map inj_on_def)
    note lost = loser_facts [OF distinct l(1)]
    obtain w cw where w: "w \<in> set (occurrences (books ?d))" "wl = live_of w cw" "decision_of (de_decision w) (books ?d) = Some cw"
      "Live (de_state w)" "reads_as ?s (de_issue w) = kept" using live_row [OF lost(1)] by blast
    have above: "stood_above ?d (at_desk t) kept w r"
      unfolding stood_above_def same_spot_iff after(2) using w(3,5) c(1) lost(2-4) unfolding w(2) is_l by blast
    have "de_state (settle_row (hashed_by ?d) kept ?now ?live w) = de_state w"
      by (rule settle_row_state) (use lost(5) in \<open>simp only: w(2) live_of_simps not_False_eq_True\<close>)
    then have stays: "\<exists>w' \<in> set (occurrences (books (at_desk t))). de_id w' = de_id w \<and> Live (de_state w')"
      unfolding rows using w(1,4) by (intro bexI [of _ "settle_row (hashed_by ?d) kept ?now ?live w"]) simp_all
    have said: "\<exists>x \<in> set (superseded (at_desk t)). ds_occurrence x = de_id r \<and> ds_standing x = de_id w"
      using settled_rows(8) [OF base into _ _ u l(1)] l(2) w(2) after(3) by auto
    have "\<exists>w \<in> set (occurrences (books ?d)). stood_above ?d (at_desk t) kept w r
        \<and> (\<exists>w' \<in> set (occurrences (books (at_desk t))). de_id w' = de_id w \<and> Live (de_state w'))
        \<and> (\<exists>x \<in> set (superseded (at_desk t)). ds_occurrence x = de_id r \<and> ds_standing x = de_id w)"
      by (intro bexI [OF _ w(1)] conjI above stays said)
    moreover have "Live (de_state r)" "reads_as (at_desk t) (de_issue r) = kept"
      using live_of_row [OF r(1) c(2)] unfolding after(2) by (rule conjunct1, rule conjunct2)
    moreover have "r' = lapse_row ?now r" using c(4) r(2) by (rule trans [rotated])
    ultimately show ?same_or_held_or_lost
      by (intro disjI2 conjI)
  qed
  then show ?thesis using r(1) by (rule bexI)
qed

end
