(* ===== verification/Triage_Merge_Props.thy ===== *)
theory Triage_Merge_Props
  imports Triage_Merging
begin

section \<open>What merging issues promises\<close>

text \<open>
  The properties of decisions beside merges, over any sequence of acts at the desk and merges, and
  what a merge leaves of an agreement that a standing incident contradicts.
\<close>

subsection \<open>Samples\<close>

text \<open>Two issues each set aside at one place and each rated by the product, and then found to be one.\<close>

definition at_issue :: "int \<Rightarrow> Proposal \<Rightarrow> Proposal" where
  "at_issue i p = p\<lparr>Where_at := (Where_at p)\<lparr>VulnerabilityID := i\<rparr>\<rparr>"

definition second_set_aside :: "failure + DecisionOccurrence list \<times> tables" where
  "second_set_aside = Propose sample_env (sample_person 9) (at_issue 5 (sample_proposal\<lparr>By := 9\<rparr>)) (after approved_sample)"

definition sample_names :: "int \<Rightarrow> string" where
  "sample_names i = (if i = 5 then ''CVE-2024-5'' else ''GHSA-23'')"

definition sample_claim :: "int \<Rightarrow> int \<Rightarrow> string \<Rightarrow> Assessment" where
  "sample_claim i issue severity = \<lparr>asm_id = i, asm_issue = issue, asm_product = 1, asm_severity = severity, asm_published = ''high'',
     asm_reasoning = ''as we build it'', asm_state = AssessmentLive, asm_needs_approval = False, asm_proposed_by = 7,
     asm_proposed_at = 100, asm_decided_by = None, asm_decided_at = None, asm_withdrawn_because = None, asm_live = Some issue\<rparr>"

definition two_claims :: "Assessment list" where
  "two_claims = [sample_claim 1 23 ''low'', sample_claim 2 5 ''high'']"

definition two_issues :: desk where
  "two_issues = (no_desk (\<lambda>s. s))\<lparr>books := after second_set_aside, assessments := two_claims\<rparr>"

definition merged_at :: "desk \<Rightarrow> failure + int \<times> settling" where
  "merged_at d = merging sample_names (\<lambda>i. i = 5) 1 start_of_2000 [''GHSA-23'', ''CVE-2024-5''] [23, 5] d"

definition left_by :: "failure + int \<times> settling \<Rightarrow> desk" where
  "left_by x = (case x of Inr (_, st) \<Rightarrow> at_desk st | Inl _ \<Rightarrow> no_desk (\<lambda>s. s))"

text \<open>An issue said not to apply, agreed to, and merged into one the product was attacked through.\<close>

definition dismissed :: Proposal where
  "dismissed = sample_proposal\<lparr>outcome := NotApplicable, justification := CodeNotPresent, deferred_until := None\<rparr>"

definition dismissal :: "failure + DecisionOccurrence list \<times> tables" where
  "dismissal = Propose sample_env (sample_person 7) dismissed no_tables"

definition dismissal_agreed :: "failure + DecisionApproved \<times> tables" where
  "dismissal_agreed = ApproveDecision sample_env (sample_person 8) 1 [] [] [] (after dismissal)"

definition attacked_beside :: "failure + (Incident \<times> int \<times> ForPerson list) \<times> desk" where
  "attacked_beside = RecordIncident attack_env [] True (sample_person 7) 1 5 (start_of_2000, 0) ''seen in the wild''
     ((no_desk (\<lambda>s. s))\<lparr>books := after dismissal_agreed\<rparr>)"

definition desk_of :: "failure + 'a \<times> desk \<Rightarrow> desk" where
  "desk_of x = (case x of Inr (_, d) \<Rightarrow> d | Inl _ \<Rightarrow> no_desk (\<lambda>s. s))"

lemma samples_merge: "done_well second_set_aside" "done_well dismissal" "done_well dismissal_agreed"
  "case attacked_beside of Inl _ \<Rightarrow> False | Inr _ \<Rightarrow> True" "case merged_at two_issues of Inl _ \<Rightarrow> False | Inr (kept, _) \<Rightarrow> kept = 5"
  "case merged_at (desk_of attacked_beside) of Inl _ \<Rightarrow> False | Inr _ \<Rightarrow> True"
  by code_simp+

lemma sample_reads: "read_at ((no_desk (\<lambda>s. s))\<lparr>books := t\<rparr>) sample_env" "read_at ((no_desk (\<lambda>s. s))\<lparr>books := t\<rparr>) attack_env"
  by (simp_all add: read_at_def no_desk_def sample_env_def standing_incident_def attack_env_def fun_eq_iff)

lemma triaged: "triage_by sample_env s t \<Longrightarrow> merging_act ((no_desk (\<lambda>s. s))\<lparr>books := s\<rparr>) ((no_desk (\<lambda>s. s))\<lparr>books := t\<rparr>)"
  using does [OF desk_act.triages [OF sample_reads(1)], of s t] by simp

lemma no_tables_desk: "(no_desk h)\<lparr>books := no_tables\<rparr> = no_desk h" by (simp add: no_desk_def)

lemma merged_reached: "merging_act\<^sup>*\<^sup>* (no_desk h) d \<Longrightarrow> merged_at d = Inr x \<Longrightarrow> merging_act\<^sup>*\<^sup>* (no_desk h) (left_by (merged_at d))"
  by (cases x) (auto simp: left_by_def merged_at_def intro: rtranclp.rtrancl_into_rtrancl merges_rows)

lemma samples_merge_reached:
  "merging_act\<^sup>*\<^sup>* (no_desk (\<lambda>s. s)) two_issues" "merging_act\<^sup>*\<^sup>* (no_desk (\<lambda>s. s)) (left_by (merged_at two_issues))"
  "merging_act\<^sup>*\<^sup>* (no_desk (\<lambda>s. s)) (desk_of attacked_beside)"
  "merging_act\<^sup>*\<^sup>* (no_desk (\<lambda>s. s)) (left_by (merged_at (desk_of attacked_beside)))"
proof -
  let ?d = "\<lambda>t. (no_desk (\<lambda>s. s))\<lparr>books := t\<rparr>"
  note step = rtranclp.rtrancl_into_rtrancl [of merging_act]
  have start: "merging_act\<^sup>*\<^sup>* (no_desk (\<lambda>s. s)) (?d no_tables)" by (simp add: no_tables_desk)
  have "triage_by sample_env no_tables (after proposed_sample)"
    using done_wellD [OF samples_done(1)] unfolding proposed_sample_def by (blast intro: proposes)
  moreover have "triage_by sample_env (after proposed_sample) (after approved_sample)"
    using done_wellD [OF samples_done(2)] unfolding approved_sample_def by (blast intro: approves)
  moreover have "triage_by sample_env (after approved_sample) (after second_set_aside)"
    using done_wellD [OF samples_merge(1)] unfolding second_set_aside_def by (blast intro: proposes)
  ultimately have "merging_act\<^sup>*\<^sup>* (no_desk (\<lambda>s. s)) (?d (after second_set_aside))"
    using start by (blast intro: step triaged)
  moreover have "claims_ok two_claims" by code_simp
  then have "merging_act (?d (after second_set_aside)) two_issues"
    unfolding two_issues_def using does [OF desk_act.rates [of two_claims "?d (after second_set_aside)"]] by simp
  ultimately show two: "merging_act\<^sup>*\<^sup>* (no_desk (\<lambda>s. s)) two_issues" by (rule step)
  obtain x where x: "merged_at two_issues = Inr x" using samples_merge(5) by (auto split: sum.splits)
  show "merging_act\<^sup>*\<^sup>* (no_desk (\<lambda>s. s)) (left_by (merged_at two_issues))" by (rule merged_reached [OF two x])
  have "triage_by sample_env no_tables (after dismissal)"
    using done_wellD [OF samples_merge(2)] unfolding dismissal_def by (blast intro: proposes)
  moreover have "triage_by sample_env (after dismissal) (after dismissal_agreed)"
    using done_wellD [OF samples_merge(3)] unfolding dismissal_agreed_def by (blast intro: approves)
  ultimately have agreed: "merging_act\<^sup>*\<^sup>* (no_desk (\<lambda>s. s)) (?d (after dismissal_agreed))"
    using start by (blast intro: step triaged)
  obtain z where z: "attacked_beside = Inr z" using samples_merge(4) by (auto split: sum.splits)
  have "attacked_beside = Inr (fst z, desk_of attacked_beside)" unfolding desk_of_def z by (cases z) simp
  then have "desk_act (?d (after dismissal_agreed)) (desk_of attacked_beside)"
    unfolding attacked_beside_def by (rule desk_act.records_incident [OF sample_reads(2)])
  then show attacked: "merging_act\<^sup>*\<^sup>* (no_desk (\<lambda>s. s)) (desk_of attacked_beside)" by (blast intro: step agreed does)
  obtain y where y: "merged_at (desk_of attacked_beside) = Inr y" using samples_merge(6) by (auto split: sum.splits)
  show "merging_act\<^sup>*\<^sup>* (no_desk (\<lambda>s. s)) (left_by (merged_at (desk_of attacked_beside)))" by (rule merged_reached [OF attacked y])
qed

text \<open>
  What a merge does not do: an agreement to a decision that an incident about the issue kept
  contradicts is not taken back, and stands beside it.
\<close>

lemma a_merge_leaves_a_contradicted_agreement:
  "\<exists>d r c. merging_act\<^sup>*\<^sup>* (no_desk (\<lambda>s. s)) d \<and> r \<in> set (occurrences (books d)) \<and> de_state r = Approved
    \<and> decision_of (de_decision r) (books d) = Some c \<and> cl_outcome c = NotApplicable
    \<and> standing_incident (incidents d) (de_product r) (reads_as d (de_issue r))"
proof -
  let ?d = "left_by (merged_at (desk_of attacked_beside))"
  let ?r = "hd (occurrences (books ?d))"
  have r: "?r \<in> set (occurrences (books ?d))" "de_state ?r = Approved"
    "standing_incident (incidents ?d) (de_product ?r) (reads_as ?d (de_issue ?r))"
    and c: "map_option cl_outcome (decision_of (de_decision ?r) (books ?d)) = Some NotApplicable"
    by code_simp+
  then obtain c where "decision_of (de_decision ?r) (books ?d) = Some c" "cl_outcome c = NotApplicable" by auto
  then show ?thesis using samples_merge_reached(4) r by blast
qed

subsection \<open>What holds\<close>

text \<open>
  C11: whatever is decided, recorded, cleared and merged, and in whatever order, no two decisions stand
  at one product and occurrence about one issue, as each is read now, and the same versions or any.
\<close>

theorem one_decision_stands_at_a_place:
  assumes "merging_act\<^sup>*\<^sup>* (no_desk h) d"
    and "x \<in> set (occurrences (books d))" and "Live (de_state x)" and "decision_of (de_decision x) (books d) = Some c"
    and "y \<in> set (occurrences (books d))" and "Live (de_state y)" and "decision_of (de_decision y) (books d) = Some c'"
    and "reads_as d (de_issue x) = reads_as d (de_issue y)" and "same_spot c x c' y"
  shows "x = y"
proof -
  have base: "desk_base d" using assms(1) by (rule merged_desk_base)
  then have ok: "base_ok (books d)" by (simp add: desk_base_def triage_ok_def)
  have "de_live_key r = Some (key_at (hashed_by d) (reads_as d (de_issue r)) c'' r)"
    if r: "r \<in> set (occurrences (books d))" "Live (de_state r)" "decision_of (de_decision r) (books d) = Some c''" for r c''
  proof -
    obtain k where "de_live_key r = Some k" using ok r(1,2) by (auto simp: base_ok_def)
    then show ?thesis using desk_key [OF base r(1)] r(3) by auto
  qed
  from this [OF assms(2-4)] this [OF assms(5-7)] have "de_live_key x = Some (key_at (hashed_by d) (reads_as d (de_issue x)) c x)"
    "de_live_key y = Some (key_at (hashed_by d) (reads_as d (de_issue x)) c x)"
    using assms(8) same_spot_key [OF assms(9)] by simp_all
  moreover have "unique_keys (occurrences (books d))" using ok by (simp add: base_ok_def)
  ultimately show ?thesis using same_key_same_row assms(2,5) by metis
qed

theorem one_decision_stands_at_a_place_witness:
  "\<not> Live (de_state (occurrences (books (left_by (merged_at two_issues))) ! 1))"
proof
  let ?d = "left_by (merged_at two_issues)"
  let ?x = "occurrences (books ?d) ! 0" and ?y = "occurrences (books ?d) ! 1"
  assume live: "Live (de_state ?y)"
  have rows: "?x \<in> set (occurrences (books ?d))" "?y \<in> set (occurrences (books ?d))" "Live (de_state ?x)"
    "reads_as ?d (de_issue ?x) = reads_as ?d (de_issue ?y)" "de_id ?x \<noteq> de_id ?y"
    and found: "case decision_of (de_decision ?x) (books ?d) of None \<Rightarrow> False | Some c \<Rightarrow>
      (case decision_of (de_decision ?y) (books ?d) of None \<Rightarrow> False | Some c' \<Rightarrow> same_spot c ?x c' ?y)"
    by code_simp+
  obtain c c' where c: "decision_of (de_decision ?x) (books ?d) = Some c" "decision_of (de_decision ?y) (books ?d) = Some c'"
    "same_spot c ?x c' ?y" using found by (auto split: option.splits)
  have "?x = ?y" by (rule one_decision_stands_at_a_place [OF samples_merge_reached(2) rows(1,3) c(1) rows(2) live c(2) rows(4) c(3)])
  then show False using rows(5) by simp
qed

text \<open>
  C24: What settling writes when rows a report names together merge is never refused by an index: not by the
  one that keeps one live decision at a place and versions, not by the one that keeps one rating claim about an issue in a
  product, nor by the one that keeps one incident there; afterwards each of the three still holds, and the rows
  are read as one of them. It is asked that each row is still its own issue, or the merge starts again,
  that the digest a key is made with tells two texts apart, and that no identity or version of a row holds the
  character a key's parts are joined with.
\<close>

theorem a_merge_is_never_refused:
  assumes "merging_act\<^sup>*\<^sup>* (no_desk h) d" and "inj h" and "\<forall>r \<in> set (occurrences (books d)). plain r"
    and "rows \<noteq> []" and "distinct rows" and "\<forall>i \<in> set rows. reads_as d i = i"
  shows "\<exists>kept st. merging called best run now names rows d = Inr (kept, st) \<and> kept \<in> set rows
    \<and> reads_as (at_desk st) = (\<lambda>i. if reads_as d i \<in> set rows then kept else reads_as d i)
    \<and> unique_keys (occurrences (books (at_desk st))) \<and> one_claim (assessments (at_desk st)) \<and> one_standing (incidents (at_desk st))"
proof -
  have base: "desk_kept d" using assms(1) by (rule merged_desk_kept)
  have own: "own_rows d rows" using assms(5,6) by (simp add: own_rows_def)
  have hash: "hashed_by d = h" using assms(1) by (rule merged_hash)
  obtain kept gs where parts: "kept \<in> set rows"
    "merging called best run now names rows d = checked (refuse_if (\<not> own_rows d rows) ErrGoAgain)
      (and_then (each (absorb called run now names kept) gs \<lparr>at_desk = d, lapsed_rows_of = [], displaced = []\<rparr>) (\<lambda>st. Inr (kept, st)))"
    "desk_kept d \<Longrightarrow> own_rows d rows \<Longrightarrow> to_absorb kept gs \<lparr>at_desk = d, lapsed_rows_of = [], displaced = []\<rparr>"
    using merging_parts [OF assms(4), where d = d and called = called and best = best and run = run and now = now and names = names] by blast
  obtain st where "each (absorb called run now names kept) gs \<lparr>at_desk = d, lapsed_rows_of = [], displaced = []\<rparr> = Inr st"
    using absorbs_answer [OF parts(3) [OF base own]] assms(2,3) hash by fastforce
  then have merged: "merging called best run now names rows d = Inr (kept, st)"
    using parts(2) own by (simp add: refuse_if_def checked_simps and_then_simps)
  have "unique_keys (occurrences (books (at_desk st))) \<and> one_claim (assessments (at_desk st)) \<and> one_standing (incidents (at_desk st))"
    using merging_base(1) [OF merged base] by (simp add: desk_kept_def claims_ok_def desk_base_def triage_ok_def base_ok_def)
  then show ?thesis using merged merging_base(3) [OF merged base assms(4)] by blast
qed

theorem a_merge_is_never_refused_witness:
  "\<exists>kept st. merged_at two_issues = Inr (kept, st) \<and> (kept = 23 \<or> kept = 5) \<and> reads_as (at_desk st) 23 = reads_as (at_desk st) 5
    \<and> one_claim (assessments (at_desk st))"
proof -
  have "list_all plain (occurrences (books two_issues))" by code_simp
  then have plain: "\<forall>r \<in> set (occurrences (books two_issues)). plain r" by (simp add: list_all_iff)
  have reads: "reads_as two_issues = (\<lambda>i. i)" by (simp add: two_issues_def no_desk_def)
  show ?thesis
    using a_merge_is_never_refused [OF samples_merge_reached(1) _ plain, of "[23, 5]" sample_names "\<lambda>i. i = 5" 1 start_of_2000 "[''GHSA-23'', ''CVE-2024-5'']"]
    unfolding merged_at_def [symmetric] reads by (auto simp: inj_on_def)
qed

text \<open>Of the two claims of the sample one is left standing, under the issue kept, and the other is withdrawn.\<close>

lemma one_claim_is_left:
  "map (\<lambda>a. (asm_state a, asm_live a)) (assessments (left_by (merged_at two_issues)))
    = [(AssessmentWithdrawn, None), (AssessmentLive, Some 5)]"
  by code_simp

text \<open>
  C25: absorbing one issue into another leaves every row as it was, or holds a live row about the issue
  kept under another key and changes nothing else of it, or lapses a live row about the issue kept; it
  lapses one only where another live row at the same place and versions had more standing, still
  stands afterwards, and is recorded as what stands in its place.
\<close>

theorem a_merge_ends_only_what_is_outranked:
  assumes "merging_act\<^sup>*\<^sup>* (no_desk h) (at_desk st)" and "absorb called run now names kept gone st = Inr t" and "kept \<noteq> gone"
    and "reads_as (at_desk st) kept = kept" and "reads_as (at_desk st) gone = gone"
    and "r' \<in> set (occurrences (books (at_desk t)))"
  shows "\<exists>r \<in> set (occurrences (books (at_desk st))). r' = r
    \<or> Live (de_state r) \<and> reads_as (at_desk t) (de_issue r) = kept \<and> (\<exists>k. r' = r\<lparr>de_live_key := Some k\<rparr>)
    \<or> Live (de_state r) \<and> reads_as (at_desk t) (de_issue r) = kept \<and> r' = lapse_row (now div 1000 * 1000) r
      \<and> (\<exists>w \<in> set (occurrences (books (at_desk st))). stood_above (at_desk st) (at_desk t) kept w r
          \<and> (\<exists>w' \<in> set (occurrences (books (at_desk t))). de_id w' = de_id w \<and> Live (de_state w'))
          \<and> (\<exists>x \<in> set (superseded (at_desk t)). ds_occurrence x = de_id r \<and> ds_standing x = de_id w))"
  by (rule absorbed_row [OF merged_desk_kept [OF assms(1)] assms(2-6)])

definition before_absorbing :: settling where
  "before_absorbing = \<lparr>at_desk = two_issues, lapsed_rows_of = [], displaced = []\<rparr>"

definition absorbed_sample :: "failure + settling" where
  "absorbed_sample = absorb sample_names 1 start_of_2000 [''GHSA-23''] 5 23 before_absorbing"

theorem a_merge_ends_only_what_is_outranked_witness:
  "\<exists>t w. absorbed_sample = Inr t \<and> w \<in> set (occurrences (books two_issues)) \<and> (\<exists>x \<in> set (superseded (at_desk t)). ds_standing x = de_id w)"
proof -
  have seen: "case absorbed_sample of Inl _ \<Rightarrow> False | Inr t \<Rightarrow> list_ex (\<lambda>y. de_state y = LapsedState) (occurrences (books (at_desk t)))
      \<and> list_all (\<lambda>r. de_state r \<noteq> LapsedState) (occurrences (books two_issues))" by code_simp
  then obtain t where done': "absorbed_sample = Inr t" by (auto split: sum.splits)
  obtain y where t: "absorbed_sample = Inr t" "y \<in> set (occurrences (books (at_desk t)))" "de_state y = LapsedState"
    "\<forall>r \<in> set (occurrences (books two_issues)). de_state r \<noteq> LapsedState"
    using seen [unfolded done' sum.case] done' by (auto simp: list_ex_iff list_all_iff)
  have reads: "reads_as two_issues i = i" for i by (simp add: two_issues_def no_desk_def)
  have at: "at_desk before_absorbing = two_issues" by (simp add: before_absorbing_def)
  obtain r where r: "r \<in> set (occurrences (books two_issues))" and cases: "y = r
    \<or> Live (de_state r) \<and> reads_as (at_desk t) (de_issue r) = 5 \<and> (\<exists>k. y = r\<lparr>de_live_key := Some k\<rparr>)
    \<or> Live (de_state r) \<and> reads_as (at_desk t) (de_issue r) = 5 \<and> y = lapse_row (start_of_2000 div 1000 * 1000) r
      \<and> (\<exists>w \<in> set (occurrences (books two_issues)). stood_above two_issues (at_desk t) 5 w r
          \<and> (\<exists>w' \<in> set (occurrences (books (at_desk t))). de_id w' = de_id w \<and> Live (de_state w'))
          \<and> (\<exists>x \<in> set (superseded (at_desk t)). ds_occurrence x = de_id r \<and> ds_standing x = de_id w))"
    using a_merge_ends_only_what_is_outranked [of "\<lambda>s. s" before_absorbing sample_names 1 start_of_2000 "[''GHSA-23'']" 5 23 t y]
      samples_merge_reached(1) t(1,2) reads unfolding absorbed_sample_def at by auto
  have "y \<noteq> r" "y \<noteq> r\<lparr>de_live_key := Some k\<rparr>" for k using t(3,4) r by auto
  then show ?thesis using cases t(1) by blast
qed

end
