(* ===== verification/Finding_Rank.thy ===== *)
theory Finding_Rank
  imports Access
begin

section \<open>How urgent a finding is, and how long it may stay open\<close>

text \<open>
  What a scan orders and clocks a finding by: the severity words and how they fold
  (\<^verbatim>\<open>rating/rating.go\<close>), the rating in force and the packed rank (\<^verbatim>\<open>finding/rank.go\<close>), the windows
  and the deadline (\<^verbatim>\<open>finding/due.go\<close>), and the least severity worth triaging
  (\<^verbatim>\<open>finding/minimumseverity.go\<close>). A moment and a duration are a number of nanoseconds, and an
  absent moment (a nil pointer) is \<^const>\<open>None\<close>. A rank is an \<^verbatim>\<open>int64\<close>; that no sum leaves it is
  proved with the order it gives.
\<close>

subsection \<open>Severity words\<close>

definition Unfolded :: string where "Unfolded = ''medium''"

definition folds :: "string \<rightharpoonup> string" where
  "folds = map_of [(''critical'', ''critical''), (''high'', ''high''), (''medium'', ''medium''),
     (''low'', ''low''), (''negligible'', ''low''), (''none'', ''low'')]"

definition Folded :: "string \<Rightarrow> string \<times> bool" where
  "Folded word = (case folds word of Some band \<Rightarrow> (band, True) | None \<Rightarrow> (Unfolded, False))"

definition Fold :: "string \<Rightarrow> string" where
  "Fold word = fst (Folded word)"

definition Band :: "string \<Rightarrow> string" where
  "Band severity = Fold severity"

definition cvss_Bands :: "string list" where
  "cvss_Bands = [''none'', ''low'', ''medium'', ''high'', ''critical'']"

text \<open>\<^verbatim>\<open>ranked\<close>, the four rated words, least first, and the same worst first.\<close>

definition ranked_words :: "string list" where
  "ranked_words = tl cvss_Bands"

definition Bands :: "string list" where
  "Bands = rev ranked_words"

definition Recordable :: "string list" where
  "Recordable = Bands @ [''negligible'', ''none'']"

definition wordAt :: "int \<Rightarrow> string" where
  "wordAt r = (if r < 1 \<or> r > int (length ranked_words) then [] else ranked_words ! nat (r - 1))"

definition SeverityScore :: "string \<Rightarrow> int" where
  "SeverityScore word = (let (band, recognized) = Folded word in
     if \<not> recognized then 0
     else if band = ''critical'' then 950
     else if band = ''high'' then 800
     else if band = ''low'' then 300
     else 550)"

text \<open>
  \<^verbatim>\<open>SeverityWord\<close>, with \<^verbatim>\<open>cvss.BandOf\<close> of the score over a hundred: the score is a whole number of
  hundredths, so each comparison of the quotient with a whole bound is one of the score itself.
\<close>

definition SeverityWord :: "int \<Rightarrow> string" where
  "SeverityWord centi = (if centi \<le> 0 then []
     else if centi < 400 then ''low''
     else if centi < 700 then ''medium''
     else if centi < 900 then ''high''
     else ''critical'')"


subsection \<open>The rating in force\<close>

record Rating =
  Published :: string
  Assessed :: string
  Exploited :: bool
  Incident :: bool
  ScoreCenti :: int
  LikelihoodPPM :: int
  ExploitedOn :: "int option"

definition Severity :: "Rating \<Rightarrow> string" where
  "Severity r = (if Assessed r \<noteq> [] then Assessed r else Published r)"

definition Score :: "Rating \<Rightarrow> int" where
  "Score r = (if Assessed r \<noteq> [] then SeverityScore (Assessed r)
     else if ScoreCenti r = 0 then SeverityScore (Published r)
     else ScoreCenti r)"

text \<open>The zero value: what the map of ratings answers for an issue it does not hold.\<close>

definition no_rating :: Rating where
  "no_rating = \<lparr>Published = [], Assessed = [], Exploited = False, Incident = False, ScoreCenti = 0,
     LikelihoodPPM = 0, ExploitedOn = None\<rparr>"


subsection \<open>The rank\<close>

definition incidentBand :: int where "incidentBand = 10000000000000"
definition exploitedBand :: int where "exploitedBand = 1000000000000"
definition shippedBand :: int where "shippedBand = 100000000000"
definition severityStep :: int where "severityStep = 10000000"
definition maxScore :: int where "maxScore = 1000"
definition maxLikelihood :: int where "maxLikelihood = 1000000"

definition exploiting :: int where "exploiting = exploitedBand"

lemmas bands = incidentBand_def exploitedBand_def shippedBand_def severityStep_def maxScore_def
  maxLikelihood_def

record Ranked =
  r_Incident :: bool
  r_Exploited :: bool
  r_Shipped :: bool
  r_LikelihoodPPM :: int
  r_ScoreCenti :: int

definition bounded :: "int \<Rightarrow> int \<Rightarrow> int" where
  "bounded v limit = (if v < 0 then 0 else if v > limit then limit else v)"

definition Rank :: "Ranked \<Rightarrow> int" where
  "Rank r = (if r_Incident r then incidentBand else 0)
     + (if r_Exploited r then exploitedBand else 0)
     + (if r_Shipped r then shippedBand else 0)
     + bounded (r_ScoreCenti r) maxScore * severityStep
     + bounded (r_LikelihoodPPM r) maxLikelihood"

lemma bounded_range: "0 \<le> limit \<Longrightarrow> 0 \<le> bounded v limit \<and> bounded v limit \<le> limit"
  by (auto simp: bounded_def)

lemmas bounded_score = bounded_range [of maxScore, unfolded maxScore_def, simplified]
lemmas bounded_likelihood = bounded_range [of maxLikelihood, unfolded maxLikelihood_def, simplified]

text \<open>The signals a rank was packed from, most telling first, read as one tuple in their order.\<close>

definition signals_of :: "Ranked \<Rightarrow> bool \<times> bool \<times> bool \<times> int \<times> int" where
  "signals_of r = (r_Incident r, r_Exploited r, r_Shipped r,
     bounded (r_ScoreCenti r) maxScore, bounded (r_LikelihoodPPM r) maxLikelihood)"

fun ranks_below :: "bool \<times> bool \<times> bool \<times> int \<times> int \<Rightarrow> bool \<times> bool \<times> bool \<times> int \<times> int \<Rightarrow> bool" where
  "ranks_below (i, e, s, c, l) (i', e', s', c', l') =
     (i < i' \<or> i = i' \<and> (e < e' \<or> e = e' \<and> (s < s' \<or> s = s' \<and> (c < c' \<or> c = c' \<and> l < l'))))"

lemma packed_less:
  fixes c c' l l' :: int
  assumes "0 \<le> c" "c \<le> 1000" "0 \<le> c'" "c' \<le> 1000" "0 \<le> l" "l \<le> 1000000" "0 \<le> l'" "l' \<le> 1000000"
  shows "c * 10000000 + l < c' * 10000000 + l' \<longleftrightarrow> c < c' \<or> c = c' \<and> l < l'"
proof (cases c c' rule: linorder_cases)
  case less then show ?thesis using assms by linarith
next
  case greater then show ?thesis using assms by linarith
qed simp

lemma rank_less:
  "Rank r < Rank r' \<longleftrightarrow> ranks_below (signals_of r) (signals_of r')"
proof -
  obtain c l where c: "bounded (r_ScoreCenti r) maxScore = c" and l: "bounded (r_LikelihoodPPM r) maxLikelihood = l"
    by blast
  obtain c' l' where c': "bounded (r_ScoreCenti r') maxScore = c'"
    and l': "bounded (r_LikelihoodPPM r') maxLikelihood = l'" by blast
  have lims: "0 \<le> c" "c \<le> 1000" "0 \<le> c'" "c' \<le> 1000" "0 \<le> l" "l \<le> 1000000" "0 \<le> l'" "l' \<le> 1000000"
    using c c' l l' bounded_score bounded_likelihood by (auto simp: maxScore_def maxLikelihood_def)
  have packed: "c * 10000000 + l < c' * 10000000 + l' \<longleftrightarrow> c < c' \<or> c = c' \<and> l < l'"
    using lims by (rule packed_less)
  show ?thesis
    unfolding Rank_def signals_of_def c l c' l' ranks_below.simps bands(1-4)
    using lims packed
    by (cases "r_Incident r"; cases "r_Incident r'"; cases "r_Exploited r"; cases "r_Exploited r'";
        cases "r_Shipped r"; cases "r_Shipped r'"; simp; linarith?)
qed

lemma rank_range: "0 \<le> Rank r \<and> Rank r < 2 ^ 63"
  using bounded_score [of "r_ScoreCenti r"] bounded_likelihood [of "r_LikelihoodPPM r"]
  unfolding Rank_def bands by (auto simp: bands)

lemma rank_exploiting: "exploiting \<le> Rank r \<longleftrightarrow> r_Incident r \<or> r_Exploited r"
  using bounded_score [of "r_ScoreCenti r"] bounded_likelihood [of "r_LikelihoodPPM r"]
  unfolding Rank_def exploiting_def bands by (auto simp: bands)

text \<open>
  C32: a finding ranks below another exactly when the first signal they differ in, read from being
  attacked here down to how likely it is, is the lower one; no signal carries into the band above
  it whatever numbers a source reports, the rank fits its 64 bits, and it reaches the threshold
  every query asks exploitation by exactly when either exploitation signal is on it.
\<close>

theorem a_rank_never_trades_one_signal_for_another:
  "(Rank r < Rank r' \<longleftrightarrow> ranks_below (signals_of r) (signals_of r'))
   \<and> 0 \<le> Rank r \<and> Rank r < 2 ^ 63
   \<and> (exploiting \<le> Rank r \<longleftrightarrow> r_Incident r \<or> r_Exploited r)"
  using rank_less rank_range rank_exploiting by blast


subsection \<open>Windows and deadlines\<close>

type_synonym FixState = string

definition NoFix :: FixState where "NoFix = ''none''"
definition WontFix :: FixState where "WontFix = ''wont-fix''"
definition FixedUpstream :: FixState where "FixedUpstream = ''fixed''"
definition FixUnknown :: FixState where "FixUnknown = ''unknown''"

record Windows =
  w_Exploited :: int
  w_Critical :: int
  w_High :: int
  w_Medium :: int
  w_Low :: int

definition day :: int where "day = 24 * 3600 * 1000000000"

definition DefaultWindows :: Windows where
  "DefaultWindows = \<lparr>w_Exploited = 3 * day, w_Critical = 7 * day, w_High = 30 * day,
     w_Medium = 90 * day, w_Low = 180 * day\<rparr>"

definition DefaultOwnWindows :: Windows where
  "DefaultOwnWindows = \<lparr>w_Exploited = 7 * day, w_Critical = 30 * day, w_High = 90 * day,
     w_Medium = 180 * day, w_Low = 365 * day\<rparr>"

definition For :: "Windows \<Rightarrow> bool \<Rightarrow> string \<Rightarrow> int" where
  "For w exploited severity = (if exploited then w_Exploited w
     else if Band severity = ''critical'' then w_Critical w
     else if Band severity = ''high'' then w_High w
     else if Band severity = ''low'' then w_Low w
     else w_Medium w)"

definition Closable :: "FixState \<Rightarrow> bool" where
  "Closable st \<longleftrightarrow> \<not> (st = NoFix \<or> st = WontFix)"

definition Clocked :: "FixState \<Rightarrow> bool \<Rightarrow> bool" where
  "Clocked st exploited \<longleftrightarrow> Closable st \<or> (st = WontFix \<and> exploited)"

text \<open>A moment, or a later one where one is on record.\<close>

definition later_of :: "int \<Rightarrow> int option \<Rightarrow> int" where
  "later_of from_moment t = (case t of None \<Rightarrow> from_moment
     | Some m \<Rightarrow> if m > from_moment then m else from_moment)"

definition Deadline ::
  "FixState \<Rightarrow> bool \<Rightarrow> int \<Rightarrow> int \<Rightarrow> int option \<Rightarrow> int option \<Rightarrow> int \<Rightarrow> int option" where
  "Deadline st exploited openedAt observedAt exploitedLearnedAt fixedAt window =
    (if \<not> Clocked st exploited then None
     else let fixedAt' = (case fixedAt of None \<Rightarrow> None
                | Some m \<Rightarrow> if m > observedAt then None else Some m) in
       Some (later_of (later_of openedAt exploitedLearnedAt) fixedAt' + window))"


subsection \<open>The least severity worth triaging\<close>

definition NoMinimumSeverity :: string where "NoMinimumSeverity = ''everything''"

record MinimumSeverity =
  Word :: string
  FromProduct :: bool
  ms_ProductID :: int

definition Hides :: "MinimumSeverity \<Rightarrow> bool" where
  "Hides f \<longleftrightarrow> Word f \<noteq> [] \<and> Word f \<noteq> NoMinimumSeverity"

definition admits :: "MinimumSeverity \<Rightarrow> string list" where
  "admits f = (if \<not> Hides f then [] else dropWhile (\<lambda>word. word \<noteq> Word f) ranked_words)"

definition Admits :: "MinimumSeverity \<Rightarrow> bool \<Rightarrow> string \<Rightarrow> bool" where
  "Admits f exploited severity = (let words = admits f in
     if words = [] \<or> exploited then True else list_ex (\<lambda>word. word = Band severity) words)"

definition MinimumSeverities :: "string list" where
  "MinimumSeverities = NoMinimumSeverity # ranked_words"


subsection \<open>When exploitation counts from\<close>

definition exploitationKnown :: "int option \<Rightarrow> int \<Rightarrow> int" where
  "exploitationKnown listedOn learnedAt = (case listedOn of None \<Rightarrow> learnedAt
     | Some t \<Rightarrow> if t < learnedAt then t else learnedAt)"

definition learnedExploitation :: "bool \<Rightarrow> int option \<Rightarrow> int \<Rightarrow> int option" where
  "learnedExploitation rankExploited listedOn startedAt =
     (if \<not> rankExploited then None else Some (exploitationKnown listedOn startedAt))"

text \<open>How bad a word is, as its place among the four bands.\<close>

definition band_place :: "string \<Rightarrow> nat" where
  "band_place severity = (if Band severity = ''critical'' then 4 else if Band severity = ''high'' then 3
     else if Band severity = ''low'' then 1 else 2)"

lemma band_cases: "Band s \<in> {''critical'', ''high'', ''medium'', ''low''}"
  by (auto simp: Band_def Fold_def Folded_def folds_def Unfolded_def split: option.splits
      dest!: map_of_SomeD)

lemma ranked_words_eq: "ranked_words = [''low'', ''medium'', ''high'', ''critical'']"
  by (simp add: ranked_words_def cvss_Bands_def)

lemma band_place_eqs:
  "Band ''critical'' = ''critical''" "Band ''high'' = ''high''" "Band ''medium'' = ''medium''"
  "Band ''low'' = ''low''"
  by (simp_all add: Band_def Fold_def Folded_def folds_def)

lemma admits_nil_iff: "admits f = [] \<longleftrightarrow> Word f \<notin> set ranked_words"
proof
  assume "admits f = []"
  then show "Word f \<notin> set ranked_words"
    by (auto simp: admits_def Hides_def NoMinimumSeverity_def ranked_words_eq split: if_splits)
next
  assume "Word f \<notin> set ranked_words"
  then show "admits f = []" by (auto simp: admits_def ranked_words_eq)
qed

lemma admits_by_place:
  assumes "Word f \<in> set ranked_words"
  shows "Admits f exploited severity \<longleftrightarrow> exploited \<or> band_place (Word f) \<le> band_place severity"
proof -
  from assms have w: "Word f \<in> {''low'', ''medium'', ''high'', ''critical''}"
    by (simp add: ranked_words_eq)
  have b: "Band severity \<in> {''critical'', ''high'', ''medium'', ''low''}" by (rule band_cases)
  show ?thesis using w b
    by (elim insertE emptyE)
      (simp_all add: Admits_def admits_def Hides_def NoMinimumSeverity_def ranked_words_eq
        band_place_def band_place_eqs)
qed

text \<open>
  The minimum severity lets an issue through exactly when nothing is set aside by it (its word
  is none of the four), when either exploitation signal is on the issue, or when the issue's band
  is at least as bad as the word, an unrated issue counting as a medium.
\<close>

theorem the_minimum_severity_admits_what_is_as_bad:
  "Admits f exploited severity \<longleftrightarrow>
     Word f \<notin> set ranked_words \<or> exploited \<or> band_place (Word f) \<le> band_place severity"
proof (cases "Word f \<in> set ranked_words")
  case True then show ?thesis using admits_by_place by simp
next
  case False then have "admits f = []" using admits_nil_iff by simp
  with False show ?thesis by (simp add: Admits_def)
qed


subsection \<open>What a deadline counts from\<close>

lemma later_of_max: "later_of m None = m" "later_of m (Some t) = max m t"
  by (auto simp: later_of_def max_def)

lemma Deadline_clocked:
  "Deadline st e opened observed learned fixed window =
     (if Clocked st e then Some (Max ({opened} \<union> set_option learned \<union> {m \<in> set_option fixed. m \<le> observed}) + window)
      else None)"
proof -
  have f: "{m \<in> set_option fixed. m \<le> observed} =
      set_option (case fixed of None \<Rightarrow> None | Some m \<Rightarrow> if m > observed then None else Some m)"
    by (auto split: option.splits if_splits)
  show ?thesis unfolding Deadline_def f Let_def
    by (cases learned; cases "case fixed of None \<Rightarrow> None | Some m \<Rightarrow> if m > observed then None else Some m")
      (auto simp: later_of_max max.assoc max.left_commute max.commute)
qed

text \<open>
  C33: a deadline exists exactly where something can be done about the finding (upstream has not
  answered with nothing, or has declined on an issue somebody is exploiting), it is the window
  counted from the latest of the opening, the learning of exploitation and a fix's date that had
  passed when the fix was observed, and recounting it at any later moment answers the same unless
  the fix is dated between the two.
\<close>

theorem a_deadline_is_counted_from_the_latest_fact:
  "Deadline st e opened observed learned fixed window =
     (if st = NoFix \<or> st = WontFix \<and> \<not> e then None
      else Some (Max ({opened} \<union> set_option learned \<union> {m \<in> set_option fixed. m \<le> observed}) + window))
   \<and> (Deadline st e opened (observed + int n) learned fixed window = Deadline st e opened observed learned fixed window
      \<or> (\<exists>m. fixed = Some m \<and> observed < m \<and> m \<le> observed + int n))"
proof
  have "Clocked st e \<longleftrightarrow> \<not> (st = NoFix \<or> st = WontFix \<and> \<not> e)"
    by (auto simp: Clocked_def Closable_def NoFix_def WontFix_def)
  then show "Deadline st e opened observed learned fixed window =
     (if st = NoFix \<or> st = WontFix \<and> \<not> e then None
      else Some (Max ({opened} \<union> set_option learned \<union> {m \<in> set_option fixed. m \<le> observed}) + window))"
    by (simp add: Deadline_clocked)
  show "Deadline st e opened (observed + int n) learned fixed window = Deadline st e opened observed learned fixed window
      \<or> (\<exists>m. fixed = Some m \<and> observed < m \<and> m \<le> observed + int n)"
    by (cases fixed) (auto simp: Deadline_def)
qed

end
