(* ===== verification/Graph_Purl.thy ===== *)
theory Graph_Purl
  imports Bound
begin

section \<open>Package identifiers, components, and what a claim points at\<close>

text \<open>
  How a package identifier is reduced and split (\<^verbatim>\<open>graph/component.go\<close>), the component row a build
  holds, and when the target of a claim is a component (\<^verbatim>\<open>sbom/suppression.go\<close>). Go folds letters
  over the whole of Unicode; those tables are the record \<open>letters\<close> every definition that folds
  takes, and nothing here depends on what they hold. The instance on the letters of ASCII is what
  the witnesses compute with.
\<close>

record letters =
  to_lower :: "string \<Rightarrow> string"
  to_upper :: "string \<Rightarrow> string"
  equal_fold :: "string \<Rightarrow> string \<Rightarrow> bool"

definition ascii_lower :: "char \<Rightarrow> char" where
  "ascii_lower c = (if CHR ''A'' \<le> c \<and> c \<le> CHR ''Z'' then char_of (of_char c + (32::nat)) else c)"

definition ascii_upper :: "char \<Rightarrow> char" where
  "ascii_upper c = (if CHR ''a'' \<le> c \<and> c \<le> CHR ''z'' then char_of (of_char c - (32::nat)) else c)"

definition ascii :: letters where
  "ascii = \<lparr>to_lower = map ascii_lower, to_upper = map ascii_upper,
     equal_fold = (\<lambda>a b. map ascii_lower a = map ascii_lower b)\<rparr>"


subsection \<open>Escapes\<close>

definition hex_digit :: "char \<Rightarrow> nat option" where
  "hex_digit c = (if CHR ''0'' \<le> c \<and> c \<le> CHR ''9'' then Some (of_char c - 48)
     else if CHR ''a'' \<le> c \<and> c \<le> CHR ''f'' then Some (of_char c - 87)
     else if CHR ''A'' \<le> c \<and> c \<le> CHR ''F'' then Some (of_char c - 55)
     else None)"

text \<open>\<^verbatim>\<open>url.PathUnescape\<close>: each escape is a byte, and a malformed escape is an error.\<close>

fun path_unescape :: "string \<Rightarrow> string option" where
  "path_unescape [] = Some []"
| "path_unescape (c # cs) =
    (if c = CHR ''%'' then
       (case cs of a # b # rest \<Rightarrow>
          (case (hex_digit a, hex_digit b) of
             (Some h, Some l) \<Rightarrow> map_option (Cons (char_of (16 * h + l))) (path_unescape rest)
           | _ \<Rightarrow> None)
        | _ \<Rightarrow> None)
     else map_option (Cons c) (path_unescape cs))"

text \<open>
  \<^verbatim>\<open>Printable\<close>: the control characters of Unicode are the bytes below a space and the delete byte,
  and the runes U+0080 to U+009F, whose encoding is the byte 0xC2 before one from 0x80 to 0x9F. The
  byte 0xC2 never continues another rune, so the pair is that rune wherever it stands.
\<close>

fun Printable :: "string \<Rightarrow> string" where
  "Printable [] = []"
| "Printable (c # cs) =
    (if c < CHR 0x20 \<or> c = CHR 0x7F then Printable cs
     else case cs of
         d # rest \<Rightarrow> if c = CHR 0xC2 \<and> CHR 0x80 \<le> d \<and> d \<le> CHR 0x9F then Printable rest
            else c # Printable cs
       | [] \<Rightarrow> [c])"

definition decoded :: "string \<Rightarrow> string" where
  "decoded s = (case path_unescape s of None \<Rightarrow> s | Some t \<Rightarrow> Printable t)"


subsection \<open>One package under its spellings\<close>

text \<open>The text before the first byte of a set, which is the whole of it where none occurs.\<close>

definition before_any :: "char list \<Rightarrow> string \<Rightarrow> string" where
  "before_any stops s = takeWhile (\<lambda>c. c \<notin> set stops) s"

definition canonicalPurl :: "letters \<Rightarrow> string \<Rightarrow> string" where
  "canonicalPurl u given =
    (let purl = trim_space given in
     if purl = [] then []
     else let purl = before_any ''?#'' purl in
       case cut_first CHR '':'' purl of
         None \<Rightarrow> decoded purl
       | Some (scheme, rest) \<Rightarrow>
           (case cut_first CHR ''/'' rest of
              None \<Rightarrow> to_lower u scheme @ '':'' @ decoded rest
            | Some (kind, path) \<Rightarrow> to_lower u scheme @ '':'' @ to_lower u kind @ ''/'' @ decoded path))"

text \<open>
  The last \<^verbatim>\<open>@\<close> of an identifier where something stands before it other than a slash: the text
  before and after it, or the whole and nothing.
\<close>

definition cut_version :: "string \<Rightarrow> string \<times> string" where
  "cut_version base = (case cut_last CHR ''@'' base of
     None \<Rightarrow> (base, [])
   | Some (front, version) \<Rightarrow>
       if front \<noteq> [] \<and> last front \<noteq> CHR ''/'' then (front, decoded version) else (base, []))"

definition PackageOf :: "letters \<Rightarrow> string \<Rightarrow> string \<times> string" where
  "PackageOf u purl =
    (let (base, version) = cut_version (before_any ''?#'' (trim_space purl)) in
     (canonicalPurl u base, version))"

record Parts =
  Type :: string
  Namespace :: string
  pt_Name :: string
  pt_Version :: string
  Distro :: string
  DistroStated :: bool

definition no_parts :: Parts where
  "no_parts = \<lparr>Type = [], Namespace = [], pt_Name = [], pt_Version = [], Distro = [], DistroStated = False\<rparr>"

definition before_byte :: "char \<Rightarrow> string \<Rightarrow> string \<times> string" where
  "before_byte c s = (case cut_first c s of None \<Rightarrow> (s, []) | Some p \<Rightarrow> p)"

fun read_qualifiers :: "letters \<Rightarrow> string list \<Rightarrow> Parts \<Rightarrow> string \<Rightarrow> string \<Rightarrow> Parts \<times> string \<times> string" where
  "read_qualifiers u [] parts osName osVersion = (parts, osName, osVersion)"
| "read_qualifiers u (pair # pairs) parts osName osVersion =
    (case cut_first CHR ''='' pair of
       None \<Rightarrow> read_qualifiers u pairs parts osName osVersion
     | Some (key, v) \<Rightarrow>
         if equal_fold u key ''distro'' then
           read_qualifiers u pairs (parts\<lparr>Distro := decoded v, DistroStated := True\<rparr>) osName osVersion
         else if equal_fold u key ''os_name'' then read_qualifiers u pairs parts (decoded v) osVersion
         else if equal_fold u key ''os_version'' then read_qualifiers u pairs parts osName (decoded v)
         else read_qualifiers u pairs parts osName osVersion)"

text \<open>\<^verbatim>\<open>strings.Trim\<close> of one byte.\<close>

definition trim_byte :: "char \<Rightarrow> string \<Rightarrow> string" where
  "trim_byte c s = rev (dropWhile (\<lambda>x. x = c) (rev (dropWhile (\<lambda>x. x = c) s)))"

definition PartsOfPurl :: "letters \<Rightarrow> string \<Rightarrow> Parts" where
  "PartsOfPurl u given =
    (let purl = trim_space given in
     if purl = [] then no_parts
     else
       let purl = fst (before_byte CHR ''#'' purl);
           (body, qualifiers) = before_byte CHR ''?'' purl;
           (parts, osName, osVersion) = read_qualifiers u (split_on CHR ''&'' qualifiers) no_parts [] [];
           parts = (if \<not> DistroStated parts \<and> osName \<noteq> [] \<and> osVersion \<noteq> []
                    then parts\<lparr>Distro := to_lower u osName @ ''-'' @ osVersion\<rparr> else parts)
       in case cut_first CHR '':'' body of
         None \<Rightarrow> no_parts
       | Some (scheme, rest) \<Rightarrow>
           if \<not> equal_fold u scheme ''pkg'' then no_parts
           else let (path, version) = cut_version rest;
                    segments = split_on CHR ''/'' (trim_byte CHR ''/'' path)
             in if length segments < 2 then no_parts
                else parts\<lparr>Type := to_lower u (decoded (hd segments)),
                       pt_Name := decoded (last segments), pt_Version := version,
                       Namespace := strings_join ''/'' (map decoded (butlast (tl segments)))\<rparr>)"


subsection \<open>Components\<close>

text \<open>
  The columns of a component row that findings, claims and statements read, as a build states them.
  The identifier zero is no component: a Go map answers the zero row for a key it does not hold.
\<close>

record Component =
  c_ID :: int
  Identity :: string
  c_Purl :: string
  CPE :: string
  c_Name :: string
  c_Version :: string
  UpstreamName :: string
  UpstreamVersion :: string

definition no_component :: Component where
  "no_component = \<lparr>c_ID = 0, Identity = [], c_Purl = [], CPE = [], c_Name = [], c_Version = [],
     UpstreamName = [], UpstreamVersion = []\<rparr>"

text \<open>\<^verbatim>\<open>graph.Described\<close>\<close>

record Described =
  d_Purl :: string
  d_CPE :: string
  d_Name :: string
  d_Version :: string
  d_UpstreamName :: string
  d_UpstreamVersion :: string
  d_Supplier :: string
  d_License :: string
  d_Container :: bool
  d_Repository :: string

text \<open>A description that states nothing.\<close>

definition nothing_described :: Described where
  "nothing_described = \<lparr>d_Purl = [], d_CPE = [], d_Name = [], d_Version = [], d_UpstreamName = [],
     d_UpstreamVersion = [], d_Supplier = [], d_License = [], d_Container = False, d_Repository = []\<rparr>"

definition describedOf :: "Component \<Rightarrow> Described" where
  "describedOf c = nothing_described\<lparr>d_Purl := c_Purl c, d_CPE := CPE c, d_Name := c_Name c,
     d_Version := c_Version c, d_UpstreamName := UpstreamName c, d_UpstreamVersion := UpstreamVersion c\<rparr>"

text \<open>\<^verbatim>\<open>graph.Folded\<close>, which \<^verbatim>\<open>folded\<close> of the finding package is.\<close>

definition Folded_name :: "letters \<Rightarrow> string \<Rightarrow> string" where
  "Folded_name u name = HeadRunes (to_lower u (trim_space name)) 191"

text \<open>The key a described component is deduplicated by; \<open>digest\<close> is the hexadecimal SHA-256.\<close>

definition Described_Identity :: "letters \<Rightarrow> (string \<Rightarrow> string) \<Rightarrow> Described \<Rightarrow> string" where
  "Described_Identity u digest d =
    (let basis = canonicalPurl u (d_Purl d) in
     if basis = [] then
       let name = trim_space (d_Name d) in
       digest (''name'' @ [CHR 0x00] @ decimal (int (length name)) @ [CHR 0x00] @ name @ trim_space (d_Version d))
     else digest (''purl'' @ [CHR 0x00] @ basis))"

definition AsRoot :: "Described \<Rightarrow> Described" where
  "AsRoot d = nothing_described\<lparr>d_Name := d_Name d\<rparr>"


subsection \<open>What a claim says and what it points at\<close>

type_synonym Status = string

definition NotAffected :: Status where "NotAffected = ''not_affected''"
definition st_Affected :: Status where "st_Affected = ''affected''"
definition st_AlreadyFixed :: Status where "st_AlreadyFixed = ''fixed''"
definition UnderInvestigation :: Status where "UnderInvestigation = ''under_investigation''"

definition Status_known :: "Status \<Rightarrow> bool" where
  "Status_known s \<longleftrightarrow> s \<in> {NotAffected, st_Affected, st_AlreadyFixed, UnderInvestigation}"

definition Suppresses :: "Status \<Rightarrow> bool" where
  "Suppresses s \<longleftrightarrow> s = NotAffected \<or> s = st_AlreadyFixed"

definition Fixes :: "Status \<Rightarrow> bool" where
  "Fixes s \<longleftrightarrow> s = st_AlreadyFixed"

definition FromStatement :: string where "FromStatement = ''statement''"
definition FromPedigree :: string where "FromPedigree = ''pedigree''"

record Target =
  t_Purl :: string
  t_Name :: string
  t_Version :: string

definition VersionNamed :: "letters \<Rightarrow> Target \<Rightarrow> string" where
  "VersionNamed u t = (let version = pt_Version (PartsOfPurl u (t_Purl t)) in
     if version \<noteq> [] then version else t_Version t)"

definition nameOf :: "letters \<Rightarrow> string \<Rightarrow> string" where
  "nameOf u purl = (let name = pt_Name (PartsOfPurl u purl) in
     if name \<noteq> [] then name
     else let base = fst (PackageOf u purl) in
       case cut_last CHR ''/'' base of None \<Rightarrow> base | Some (_, after) \<Rightarrow> after)"

definition ComponentNamed :: "letters \<Rightarrow> Target \<Rightarrow> string" where
  "ComponentNamed u t = (if t_Name t \<noteq> [] then t_Name t else nameOf u (t_Purl t))"

definition equalName :: "letters \<Rightarrow> string \<Rightarrow> string \<Rightarrow> bool" where
  "equalName u a b \<longleftrightarrow> a \<noteq> [] \<and> b \<noteq> [] \<and> equal_fold u a b"

definition coversNamed :: "letters \<Rightarrow> string \<Rightarrow> string \<Rightarrow> Described \<Rightarrow> bool" where
  "coversNamed u named version d \<longleftrightarrow>
    (if \<not> equalName u named (d_Name d) \<and> \<not> equalName u named (d_UpstreamName d) then False
     else if version = [] then True
     else version = d_Version d \<or> version = d_UpstreamVersion d)"

definition GenericNamespaceAgrees :: "letters \<Rightarrow> string \<Rightarrow> string \<Rightarrow> bool" where
  "GenericNamespaceAgrees u claimed component \<longleftrightarrow>
    (let named = Namespace (PartsOfPurl u claimed); held = PartsOfPurl u component in
     if named = [] then True
     else if Type held \<noteq> ''generic'' \<or> Namespace held = [] then True
     else equal_fold u named (Namespace held))"

definition Covers :: "letters \<Rightarrow> Target \<Rightarrow> Described \<Rightarrow> bool" where
  "Covers u t d \<longleftrightarrow>
    (let (base, stated) = PackageOf u (t_Purl t);
         version = (if stated = [] then t_Version t else stated) in
     if base = [] then coversNamed u (t_Name t) version d
     else if begins ''pkg:generic/'' base then
       (if \<not> GenericNamespaceAgrees u base (d_Purl d) then False
        else coversNamed u (nameOf u base) version d)
     else let (componentBase, componentVersion) = PackageOf u (d_Purl d) in
       if componentBase \<noteq> base then False
       else if version = [] then True
       else version = (if componentVersion = [] then d_Version d else componentVersion))"

text \<open>
  Whether a component is the product a claim or a statement names (\<^verbatim>\<open>isProduct\<close> of
  \<^verbatim>\<open>finding/disclaim.go\<close>): never by what it was built from.
\<close>

definition isProduct :: "letters \<Rightarrow> Target \<Rightarrow> Component \<Rightarrow> bool \<Rightarrow> bool" where
  "isProduct u product c atVersion \<longleftrightarrow>
    (let (base, stated) = PackageOf u (t_Purl product);
         version = (if stated = [] then t_Version product else stated);
         (held, heldStated) = PackageOf u (c_Purl c);
         heldVersion = (if heldStated = [] then c_Version c else heldStated);
         named = (if base \<noteq> [] \<and> \<not> begins ''pkg:generic/'' base then base = held
                  else if base \<noteq> [] \<and> base = held then True
                  else if base \<noteq> [] \<and> \<not> GenericNamespaceAgrees u base (c_Purl c) then False
                  else \<not> (t_Name product = [] \<or> \<not> equal_fold u (t_Name product) (c_Name c)))
     in named \<and> (\<not> atVersion \<or> version \<noteq> [] \<and> version = heldVersion))"


subsection \<open>Spellings that do not matter\<close>

lemma before_any_stop: "c \<in> set stops \<Longrightarrow> before_any stops (s @ c # t) = before_any stops s"
  by (induction s) (auto simp: before_any_def)

lemma before_any_twice: "before_any stops (before_any stops s) = before_any stops s"
  by (simp add: before_any_def takeWhile_idem)


text \<open>Escaped or not, in capitals or not, with qualifiers or without: one package and one version.\<close>

lemma one_package_under_its_spellings:
  "PackageOf ascii ''pkg:deb/debian/curl@2.3.2-2%2Bb1?arch=amd64'' = (''pkg:deb/debian/curl'', ''2.3.2-2+b1'')"
  "PackageOf ascii ''PKG:Deb/debian/curl@2.3.2-2+b1#sub'' = (''pkg:deb/debian/curl'', ''2.3.2-2+b1'')"
  "PackageOf ascii ''pkg:npm/%40babel/core'' = (''pkg:npm/@babel/core'', [])"
  "PackageOf ascii ''pkg:npm/@babel/core@7.1'' = (''pkg:npm/@babel/core'', ''7.1'')"
  by code_simp+

end
