(* ===== verification/Tables.thy ===== *)
theory Tables
  imports Prelude "HOL-Library.AList"
begin

section \<open>Maps and tables\<close>

text \<open>
  What the component theories share about Go maps, held as the association lists of their entries,
  and about tables whose rows are numbered as they are inserted.
\<close>

subsection \<open>Maps\<close>

lemma at_key_update:
  "at_key (AList.update k xs m) k' = (if k' = k then xs else at_key m k')"
  by (simp add: at_key_def update_conv)

lemma set_update_sub: "set (AList.update k v m) \<subseteq> insert (k, v) (set m)"
  by (induction m) auto

lemma update_old: "distinct (map fst m) \<Longrightarrow> (k', v') \<in> set (AList.update k v m) \<Longrightarrow> (k' = k \<and> v' = v) \<or> (k' \<noteq> k \<and> (k', v') \<in> set m)"
  by (induction m) (auto simp: image_iff split: if_splits)

lemma update_new: "k \<notin> fst ` set m \<Longrightarrow> AList.update k v m = m @ [(k, v)]"
  by (induction m) auto

lemma fold_update_map:
  assumes "distinct (map fst m @ map h fs)"
  shows "fold (\<lambda>f. AList.update (h f) f) fs m = m @ map (\<lambda>f. (h f, f)) fs"
  using assms
proof (induction fs arbitrary: m)
  case (Cons f fs)
  have "AList.update (h f) f m = m @ [(h f, f)]" using Cons.prems by (intro update_new) auto
  then show ?case using Cons by simp
qed simp

definition append_at :: "'k \<Rightarrow> 'v \<Rightarrow> ('k \<times> 'v list) list \<Rightarrow> ('k \<times> 'v list) list" where
  "append_at k x m = AList.update k (at_key m k @ [x]) m"

text \<open>Values appended to a map's slices, pair by pair.\<close>

definition grouping :: "('k \<times> 'v) list \<Rightarrow> ('k \<times> 'v list) list \<Rightarrow> ('k \<times> 'v list) list" where
  "grouping ps m = fold (\<lambda>(k, x). append_at k x) ps m"

lemma append_at_distinct: "distinct (map fst m) \<Longrightarrow> distinct (map fst (append_at k x m))"
  by (simp add: append_at_def distinct_update)

lemma grouping_distinct: "distinct (map fst m) \<Longrightarrow> distinct (map fst (grouping ps m))"
  unfolding grouping_def by (induction ps arbitrary: m) (auto simp: append_at_distinct split: prod.splits)

lemma at_key_append: "at_key (append_at k x m) k' = (if k' = k then at_key m k @ [x] else at_key m k')"
  by (simp add: append_at_def at_key_update)

lemma grouping_at: "at_key (grouping ps m) k = at_key m k @ map snd (filter (\<lambda>p. fst p = k) ps)"
  unfolding grouping_def
  by (induction ps arbitrary: m) (auto simp: at_key_append split: prod.splits)

lemma at_key_entry: "distinct (map fst m) \<Longrightarrow> (k, xs) \<in> set m \<Longrightarrow> at_key m k = xs"
  by (simp add: at_key_def)

lemma grouping_pairs: "(k, xs) \<in> set (grouping ps []) \<Longrightarrow> x \<in> set xs \<longleftrightarrow> (k, x) \<in> set ps"
  using at_key_entry [OF grouping_distinct [of "[]" ps]] grouping_at [of ps "[]" k]
  by (auto simp: image_iff)

lemma grouping_mem: "(k, x) \<in> set ps \<Longrightarrow> \<exists>xs. (k, xs) \<in> set (grouping ps []) \<and> x \<in> set xs"
proof -
  assume "(k, x) \<in> set ps"
  then have "x \<in> set (at_key (grouping ps []) k)" by (auto simp: grouping_at image_iff)
  then show ?thesis
    by (cases "map_of (grouping ps []) k") (auto simp: at_key_def dest: map_of_SomeD)
qed


subsection \<open>Rows numbered as they are inserted\<close>

record 'r table =
  stored :: "'r list"
  next_id :: int

fun numbering :: "(int \<Rightarrow> 'r \<Rightarrow> 'r) \<Rightarrow> int \<Rightarrow> 'r list \<Rightarrow> 'r list" where
  "numbering put n [] = []"
| "numbering put n (r # rs) = put n r # numbering put (n + 1) rs"

definition insert_rows :: "(int \<Rightarrow> 'r \<Rightarrow> 'r) \<Rightarrow> 'r list \<Rightarrow> 'r table \<Rightarrow> 'r table" where
  "insert_rows put rs t = t\<lparr>stored := stored t @ numbering put (next_id t) rs, next_id := next_id t + int (length rs)\<rparr>"

definition update_rows :: "('r \<Rightarrow> int) \<Rightarrow> ('r \<Rightarrow> 'r) \<Rightarrow> int list \<Rightarrow> 'r table \<Rightarrow> 'r table" where
  "update_rows ident g ids t = t\<lparr>stored := set_in_batches ident g ids (stored t)\<rparr>"

text \<open>Identifiers are given once and in order.\<close>

definition numbers :: "('r \<Rightarrow> int) \<Rightarrow> 'r table \<Rightarrow> bool" where
  "numbers ident t \<longleftrightarrow> distinct (map ident (stored t)) \<and> (\<forall>r \<in> set (stored t). ident r < next_id t)"

lemma numbering_length [simp]: "length (numbering put n rs) = length rs"
  by (induction rs arbitrary: n) auto

lemma numbering_map: "(\<And>i r. h (put i r) = h r) \<Longrightarrow> map h (numbering put n rs) = map h rs"
  by (induction rs arbitrary: n) auto

lemma numbering_filter_map:
  "(\<And>i r. h (put i r) = h r) \<Longrightarrow> (\<And>i r. P (put i r) = P r)
    \<Longrightarrow> map h (filter P (numbering put n rs)) = map h (filter P rs)"
  by (induction rs arbitrary: n) auto

lemma numbering_range:
  assumes "\<And>i r. ident (put i r) = i"
  shows "r \<in> set (numbering put n rs) \<Longrightarrow> n \<le> ident r \<and> ident r < n + int (length rs)"
proof (induction rs arbitrary: n)
  case (Cons a rs)
  from Cons.prems have "r = put n a \<or> r \<in> set (numbering put (n + 1) rs)" by simp
  then show ?case using Cons.IH [of "n + 1"] assms by auto
qed simp

lemma numbering_distinct:
  assumes "\<And>i r. ident (put i r) = i"
  shows "distinct (map ident (numbering put n rs))"
proof (induction rs arbitrary: n)
  case (Cons a rs)
  then show ?case using numbering_range [of ident put _ "n + 1" rs, OF assms] assms by fastforce
qed simp

lemma numbering_from: "r \<in> set (numbering put n rs) \<Longrightarrow> \<exists>i. \<exists>r0 \<in> set rs. r = put i r0"
proof (induction rs arbitrary: n)
  case (Cons a rs)
  show ?case
  proof (cases "r = put n a")
    case False
    then obtain i r0 where "r0 \<in> set rs" "r = put i r0" using Cons.IH [of "n + 1"] Cons.prems by auto
    then show ?thesis by auto
  qed auto
qed simp

lemma numbers_insert:
  assumes "\<And>i r. ident (put i r) = i" and "numbers ident t"
  shows "numbers ident (insert_rows put rs t)"
proof -
  have "ident r \<noteq> ident r'" if "r \<in> set (stored t)" "r' \<in> set (numbering put (next_id t) rs)" for r r'
    using that assms(2) numbering_range [of ident put r', OF assms(1) that(2)] by (auto simp: numbers_def)
  then have disj: "set (map ident (stored t)) \<inter> set (map ident (numbering put (next_id t) rs)) = {}" by auto
  show ?thesis
    unfolding numbers_def insert_rows_def
  proof (intro conjI ballI)
    show "distinct (map ident (stored (t\<lparr>stored := stored t @ numbering put (next_id t) rs, next_id := next_id t + int (length rs)\<rparr>)))"
      using assms(2) disj numbering_distinct [of ident put, OF assms(1)] by (simp add: numbers_def)
    fix r assume "r \<in> set (stored (t\<lparr>stored := stored t @ numbering put (next_id t) rs, next_id := next_id t + int (length rs)\<rparr>))"
    then have "r \<in> set (stored t) \<or> r \<in> set (numbering put (next_id t) rs)" by simp
    then show "ident r < next_id (t\<lparr>stored := stored t @ numbering put (next_id t) rs, next_id := next_id t + int (length rs)\<rparr>)"
      using assms(2) numbering_range [of ident put r "next_id t" rs, OF assms(1)] by (auto simp: numbers_def)
  qed
qed

lemma numbers_rows:
  assumes "map ident rs = map ident (stored t)" and "numbers ident t"
  shows "numbers ident (t\<lparr>stored := rs\<rparr>)"
proof -
  have "ident ` set rs = ident ` set (stored t)" using assms(1) by (metis list.set_map)
  then have "ident r < next_id t" if "r \<in> set rs" for r
    using assms(2) that by (auto simp: numbers_def) (metis imageE imageI)
  then show ?thesis using assms by (simp add: numbers_def)
qed

end
