(* ===== verification/Finding_Place.thy ===== *)
theory Finding_Place
  imports Graph_Purl Tables
begin

section \<open>What a build holds, and where a product sits in it\<close>

text \<open>
  The inventory a scan is applied against and what explains a component going away
  (\<^verbatim>\<open>finding/occurrences.go\<close>), and the placement of a product in the build's graph: its components,
  what is beneath them, and what the root reaches around them (\<^verbatim>\<open>placer\<close> of
  \<^verbatim>\<open>finding/disclaim.go\<close>). A Go map is the association list of its entries. The placer keeps what
  it worked out per product and asks again for nothing; the model works it out each time, which is
  the same answer because a placement reads nothing that changes.
\<close>

subsection \<open>The inventory\<close>

record inventory =
  byID :: "(int \<times> Component) list"
  byIdentity :: "(string \<times> Component) list"
  byName :: "(string \<times> Component list) list"

text \<open>The rows the build holds, each already carrying what the build stated for it.\<close>

definition openComponents :: "Component list \<Rightarrow> inventory" where
  "openComponents rows = \<lparr>byID = fold (\<lambda>r. AList.update (c_ID r) r) rows [],
     byIdentity = fold (\<lambda>r. AList.update (Identity r) r) rows [],
     byName = fold (\<lambda>r m. AList.update (c_Name r) (at_key m (c_Name r) @ [r]) m) rows []\<rparr>"

definition component_at :: "inventory \<Rightarrow> int \<Rightarrow> Component" where
  "component_at i n = (case map_of (byID i) n of Some c \<Rightarrow> c | None \<Rightarrow> no_component)"

text \<open>\<^verbatim>\<open>inventory.nameOf\<close>: the name of a consumer, or nothing where it is the product.\<close>

definition consumer_name :: "inventory \<Rightarrow> int \<Rightarrow> string" where
  "consumer_name i consumerID = (if consumerID = 0 then [] else c_Name (component_at i consumerID))"

definition upstreamOf :: "Component \<Rightarrow> string" where
  "upstreamOf c = (if UpstreamVersion c \<noteq> [] then UpstreamVersion c else c_Version c)"

type_synonym Closure = string

definition Removed :: Closure where "Removed = ''removed''"
definition Upgraded :: Closure where "Upgraded = ''upgraded''"
definition Revised :: Closure where "Revised = ''revised''"
definition Superseded :: Closure where "Superseded = ''superseded''"
definition Unexplained :: Closure where "Unexplained = ''unexplained''"
definition Invalid :: Closure where "Invalid = ''invalid''"
definition Fixed :: Closure where "Fixed = ''fixed''"
definition Patched :: Closure where "Patched = ''patched''"
definition Unaffected :: Closure where "Unaffected = ''unaffected''"
definition Disclaimed :: Closure where "Disclaimed = ''disclaimed''"

lemmas closure_words = Removed_def Upgraded_def Revised_def Superseded_def Unexplained_def Invalid_def
  Fixed_def Patched_def Unaffected_def Disclaimed_def

definition Closures :: "Closure list" where
  "Closures = [Removed, Upgraded, Revised, Patched, Superseded, Unexplained, Invalid, Unaffected,
     Disclaimed, Fixed]"

definition NeverPresent :: "Closure list" where
  "NeverPresent = [Invalid, Unaffected]"

definition MetNothing :: "Closure list" where
  "MetNothing = NeverPresent @ [Disclaimed]"

definition Resolving :: "Closure list" where
  "Resolving = [Removed, Upgraded, Revised, Patched, Fixed]"

definition Resolves :: "Closure \<Rightarrow> bool" where
  "Resolves c \<longleftrightarrow> list_ex (\<lambda>each. c = each) Resolving"

text \<open>\<^verbatim>\<open>inventory.why\<close>: why a finding on this component is no longer reported, and what it moved to.\<close>

fun why_among :: "Component \<Rightarrow> Component list \<Rightarrow> (Closure \<times> string) option" where
  "why_among gone [] = None"
| "why_among gone (now # rest) =
    (if upstreamOf now \<noteq> upstreamOf gone then Some (Upgraded, upstreamOf now)
     else if c_Version now \<noteq> c_Version gone then Some (Revised, c_Version now)
     else why_among gone rest)"

definition why :: "inventory \<Rightarrow> Component \<Rightarrow> Closure \<times> string" where
  "why i gone =
    (if map_of (byID i) (c_ID gone) \<noteq> None then (Unexplained, [])
     else case why_among gone (at_key (byName i) (c_Name gone)) of
         Some answer \<Rightarrow> answer
       | None \<Rightarrow> if length (at_key (byName i) (c_Name gone)) > 0 then (Unexplained, []) else (Removed, []))"

lemma why_among_None:
  "why_among gone ns = None \<longleftrightarrow> (\<forall>n \<in> set ns. upstreamOf n = upstreamOf gone \<and> c_Version n = c_Version gone)"
  by (induction ns) auto

lemma why_reason: "fst (why i gone) \<in> {Removed, Upgraded, Revised, Unexplained}"
proof -
  have "fst a \<in> {Upgraded, Revised}" if "why_among gone ns = Some a" for ns a
    using that by (induction ns) (auto split: if_splits)
  then show ?thesis by (fastforce simp: why_def split: option.splits)
qed


subsection \<open>Where components sit\<close>

record edge =
  ChildComponentID :: int
  ParentComponentID :: int
  ParentIsRoot :: bool

type_synonym consumers = "(int \<times> int list) list"

definition consumers_of :: "consumers \<Rightarrow> int \<Rightarrow> int list" where
  "consumers_of c componentID = (case map_of c componentID of Some at \<Rightarrow> at | None \<Rightarrow> [0])"

fun occurrence_loop :: "edge list \<Rightarrow> (int \<times> int) list \<Rightarrow> consumers \<Rightarrow> consumers" where
  "occurrence_loop [] seen at = at"
| "occurrence_loop (e # es) seen at =
    (let consumer = (if ParentIsRoot e then 0 else ParentComponentID e);
         pair = (ChildComponentID e, consumer) in
     if pair \<in> set seen then occurrence_loop es seen at
     else occurrence_loop es (pair # seen)
       (AList.update (ChildComponentID e) (at_key at (ChildComponentID e) @ [consumer]) at))"

definition occurrenceEdges :: "edge list \<Rightarrow> consumers" where
  "occurrenceEdges edges = occurrence_loop edges [] []"

text \<open>A component sits under each of its consumers once.\<close>

lemma occurrence_loop_at:
  assumes "\<And>c. distinct (at_key at c) \<and> set (at_key at c) = {p. (c, p) \<in> set seen}"
  shows "distinct (at_key (occurrence_loop es seen at) c)
     \<and> set (at_key (occurrence_loop es seen at) c)
         = {p. (c, p) \<in> set seen} \<union> {if ParentIsRoot e then 0 else ParentComponentID e |e. e \<in> set es \<and> ChildComponentID e = c}"
  using assms
proof (induction es seen at rule: occurrence_loop.induct)
  case (1 seen at) then show ?case by simp
next
  case (2 e es seen at)
  let ?p = "if ParentIsRoot e then 0 else ParentComponentID e"
  let ?at = "AList.update (ChildComponentID e) (at_key at (ChildComponentID e) @ [?p]) at"
  show ?case
  proof (cases "(ChildComponentID e, ?p) \<in> set seen")
    case True
    have step: "occurrence_loop (e # es) seen at = occurrence_loop es seen at"
      using True by (simp add: Let_def)
    have "distinct (at_key (occurrence_loop es seen at) c)
     \<and> set (at_key (occurrence_loop es seen at) c)
         = {p. (c, p) \<in> set seen} \<union> {if ParentIsRoot e then 0 else ParentComponentID e |e. e \<in> set es \<and> ChildComponentID e = c}"
      using "2.IH"(1) [OF refl refl True] "2.prems" by blast
    then show ?thesis unfolding step using True by (auto split: if_splits)
  next
    case False
    have step: "occurrence_loop (e # es) seen at = occurrence_loop es ((ChildComponentID e, ?p) # seen) ?at"
      using False by (simp add: Let_def)
    have "distinct (at_key ?at k) \<and> set (at_key ?at k) = {p. (k, p) \<in> set ((ChildComponentID e, ?p) # seen)}" for k
      using "2.prems" [of k] False by (auto simp: at_key_update)
    then have "distinct (at_key (occurrence_loop (e # es) seen at) c)
     \<and> set (at_key (occurrence_loop (e # es) seen at) c)
         = {p. (c, p) \<in> set ((ChildComponentID e, ?p) # seen)}
           \<union> {if ParentIsRoot e then 0 else ParentComponentID e |e. e \<in> set es \<and> ChildComponentID e = c}"
      unfolding step using "2.IH"(2) [OF refl refl False] by blast
    then show ?thesis by auto
  qed
qed


subsection \<open>The placer\<close>

record placer =
  inv :: inventory
  places :: consumers
  root :: int
  images :: "(int \<times> string \<times> string) list"

text \<open>
  The edges read downward, a consumer and what it pulls in, in the order the places are ranged
  over, and what one consumer pulls in. Zero is the root.
\<close>

definition below :: "consumers \<Rightarrow> (int \<times> int) list" where
  "below ps = concat (map (\<lambda>(child, above). map (\<lambda>consumer. (consumer, child)) above) ps)"

definition children :: "(int \<times> int) list \<Rightarrow> int \<Rightarrow> int list" where
  "children b c = map snd (filter (\<lambda>e. fst e = c) b)"

definition asStated :: "placer \<Rightarrow> Component \<Rightarrow> Component" where
  "asStated p c = (case map_of (images p) (c_ID c) of
     None \<Rightarrow> c
   | Some (version, purl) \<Rightarrow> c\<lparr>c_Version := version, c_Purl := (if purl \<noteq> [] then purl else c_Purl c)\<rparr>)"

definition ships :: "letters \<Rightarrow> placer \<Rightarrow> Target \<Rightarrow> bool" where
  "ships u p product = list_ex (\<lambda>(n, c). n \<noteq> root p \<and> isProduct u product c False) (byID (inv p))"

lemma children_below: "y \<in> set (children b x) \<longleftrightarrow> (x, y) \<in> set b"
  by (force simp: children_def)

text \<open>
  One walk: the queue is taken from its end, so the model holds it with the end first. A component
  already seen, or one the walk stops at, is passed over.
\<close>

function walk :: "(int \<times> int) list \<Rightarrow> int set \<Rightarrow> int list \<Rightarrow> int set \<Rightarrow> int set" where
  "walk b stop [] seen = seen"
| "walk b stop (at # queue) seen =
    (if at \<in> seen \<or> at \<in> stop then walk b stop queue seen
     else walk b stop (rev (children b at) @ queue) (insert at seen))"
  by pat_completeness auto

termination
proof (relation "measures [\<lambda>(b, stop, q, seen). card ((set q \<union> snd ` set b) - seen), \<lambda>(b, stop, q, seen). length q]",
    goal_cases)
  case (2 b stop at queue seen)
  have "card ((set queue \<union> snd ` set b) - seen) \<le> card ((set (at # queue) \<union> snd ` set b) - seen)"
    by (rule card_mono) auto
  then show ?case by auto
next
  case (3 b stop at queue seen)
  have "set (rev (children b at) @ queue) \<union> snd ` set b \<subseteq> set (at # queue) \<union> snd ` set b"
    by (force simp: children_below)
  then have "(set (rev (children b at) @ queue) \<union> snd ` set b) - insert at seen
      \<subset> (set (at # queue) \<union> snd ` set b) - seen"
    using 3 by auto
  then have "card ((set (rev (children b at) @ queue) \<union> snd ` set b) - insert at seen)
      < card ((set (at # queue) \<union> snd ` set b) - seen)"
    by (intro psubset_card_mono) auto
  then show ?case by simp
qed simp

record placement =
  product :: "int set"
  under :: "int set"
  outside :: "int set"

definition nowhere :: placement where
  "nowhere = \<lparr>product = {}, under = {}, outside = {}\<rparr>"

definition product_ids :: "letters \<Rightarrow> placer \<Rightarrow> Target \<Rightarrow> int list" where
  "product_ids u p target =
     map fst (filter (\<lambda>(n, c). n \<noteq> root p \<and> isProduct u target (asStated p c) True) (byID (inv p)))"

definition place :: "letters \<Rightarrow> placer \<Rightarrow> Target \<Rightarrow> placement" where
  "place u p target =
    (if VersionNamed u target = [] then nowhere
     else let b = below (places p); ids = product_ids u p target in
       if ids = [] then nowhere
       else \<lparr>product = set ids,
              under = walk b {} (rev (concat (map (children b) ids))) {},
              outside = walk b (set ids) (rev (children b 0)) {}\<rparr>)"

datatype answer = answersNone | answersSome | answersAll

text \<open>\<^verbatim>\<open>placement.at\<close>\<close>

definition stands_at :: "placement \<Rightarrow> int \<Rightarrow> answer" where
  "stands_at p consumerID =
    (if consumerID \<in> product p then answersAll
     else if consumerID \<notin> under p then answersNone
     else if consumerID \<in> outside p then answersSome
     else answersAll)"

definition reaches :: "letters \<Rightarrow> placer \<Rightarrow> Target option \<Rightarrow> Component \<Rightarrow> int \<Rightarrow> bool" where
  "reaches u p named component consumerID =
    (case named of None \<Rightarrow> True
     | Some target \<Rightarrow>
         if \<not> ships u p target then True
         else if consumerID = 0 then False
         else if c_ID component \<in> product (place u p target) then False
         else stands_at (place u p target) consumerID = answersAll)"


subsection \<open>Routes\<close>

text \<open>A route from a component down the edges, as the components it passes, the start left out.\<close>

fun is_route :: "(int \<times> int) list \<Rightarrow> int \<Rightarrow> int list \<Rightarrow> bool" where
  "is_route b x [] = True"
| "is_route b x (y # ys) = ((x, y) \<in> set b \<and> is_route b y ys)"

definition leads :: "(int \<times> int) list \<Rightarrow> int \<Rightarrow> int list \<Rightarrow> int \<Rightarrow> bool" where
  "leads b x ps y \<longleftrightarrow> ps \<noteq> [] \<and> is_route b x ps \<and> last ps = y"

inductive reached :: "(int \<times> int) list \<Rightarrow> int set \<Rightarrow> int set \<Rightarrow> int \<Rightarrow> bool"
  for b :: "(int \<times> int) list" and stop from_set :: "int set" where
  start: "y \<in> from_set \<Longrightarrow> y \<notin> stop \<Longrightarrow> reached b stop from_set y"
| step: "reached b stop from_set x \<Longrightarrow> (x, y) \<in> set b \<Longrightarrow> y \<notin> stop \<Longrightarrow> reached b stop from_set y"

lemma reached_mono: "reached b stop A y \<Longrightarrow> A \<subseteq> B \<Longrightarrow> reached b stop B y"
  by (induction rule: reached.induct) (auto intro: reached.intros)

lemma reached_children:
  assumes "reached b stop (set (children b x) \<union> A) y" and "x \<in> A" and "x \<notin> stop"
  shows "reached b stop A y"
  using assms
proof (induction rule: reached.induct)
  case (start y)
  then show ?case using reached.step [OF reached.start [of x A stop b]]
    by (auto simp: children_below intro: reached.start)
next
  case (step x' y) then show ?case by (blast intro: reached.step)
qed

lemma walk_sound: "y \<in> walk b stop q seen \<Longrightarrow> y \<in> seen \<or> reached b stop (set q) y"
proof (induction b stop q seen rule: walk.induct)
  case (1 b stop seen) then show ?case by simp
next
  case (2 b stop at queue seen)
  show ?case
  proof (cases "at \<in> seen \<or> at \<in> stop")
    case True
    then show ?thesis using "2.IH"(1) [OF True] "2.prems" by (auto intro: reached_mono)
  next
    case False
    then have "y \<in> insert at seen \<or> reached b stop (set (rev (children b at) @ queue)) y"
      using "2.IH"(2) "2.prems" by auto
    moreover have "reached b stop (set (rev (children b at) @ queue)) y \<Longrightarrow> reached b stop (set (at # queue)) y"
      by (rule reached_children [of b stop at]) (use False in \<open>auto intro: reached_mono\<close>)
    ultimately show ?thesis using False by (auto intro: reached.start)
  qed
qed

lemma walk_keeps: "seen \<subseteq> walk b stop q seen"
  by (induction b stop q seen rule: walk.induct) auto

lemma walk_queue: "x \<in> set q \<Longrightarrow> x \<notin> stop \<Longrightarrow> x \<in> walk b stop q seen"
proof (induction b stop q seen rule: walk.induct)
  case (2 b stop at queue seen)
  then show ?case using walk_keeps [of "insert at seen" b stop "rev (children b at) @ queue"]
      walk_keeps [of seen b stop queue] by auto
qed simp

lemma walk_closed:
  assumes "\<And>x y. x \<in> seen \<Longrightarrow> (x, y) \<in> set b \<Longrightarrow> y \<notin> stop \<Longrightarrow> y \<in> seen \<union> set q"
    and "x \<in> walk b stop q seen" and "(x, y) \<in> set b" and "y \<notin> stop"
  shows "y \<in> walk b stop q seen"
  using assms
proof (induction b stop q seen arbitrary: x y rule: walk.induct)
  case (1 b stop seen) then show ?case by auto
next
  case (2 b stop at queue seen)
  show ?case
  proof (cases "at \<in> seen \<or> at \<in> stop")
    case True
    then show ?thesis using "2.IH"(1) [OF True, of x y] "2.prems" by fastforce
  next
    case False
    have "y' \<in> insert at seen \<union> set (rev (children b at) @ queue)"
      if "x' \<in> insert at seen" "(x', y') \<in> set b" "y' \<notin> stop" for x' y'
      using that "2.prems"(1) [of x' y'] by (auto simp: children_below)
    then show ?thesis using "2.IH"(2) [OF False, of x y] "2.prems"(2-4) False by simp
  qed
qed

lemma walk_reached: "y \<in> walk b stop q {} \<longleftrightarrow> reached b stop (set q) y"
proof
  assume "y \<in> walk b stop q {}" then show "reached b stop (set q) y" using walk_sound by fastforce
next
  assume "reached b stop (set q) y"
  then show "y \<in> walk b stop q {}"
  proof (induction rule: reached.induct)
    case (start y) then show ?case by (simp add: walk_queue)
  next
    case (step x y) then show ?case using walk_closed [of "{}" b stop q x y] by simp
  qed
qed

text \<open>What the walk reaches from the children of some components is what some route leads to.\<close>

lemma is_route_snoc: "is_route b x (ps @ [z]) \<longleftrightarrow> is_route b x ps \<and> (last (x # ps), z) \<in> set b"
  by (induction ps arbitrary: x) auto

lemma reached_routes:
  "reached b stop {y. \<exists>x\<in>X. (x, y) \<in> set b} y \<longleftrightarrow>
     (\<exists>x\<in>X. \<exists>ps. leads b x ps y \<and> set ps \<inter> stop = {})" (is "?l y \<longleftrightarrow> ?r y")
proof
  assume "?l y"
  then show "?r y"
  proof (induction rule: reached.induct)
    case (start y)
    then obtain x where "x \<in> X" "(x, y) \<in> set b" by auto
    then have "leads b x [y] y \<and> set [y] \<inter> stop = {}" using start by (simp add: leads_def)
    then show ?case using \<open>x \<in> X\<close> by blast
  next
    case (step x y)
    then obtain x0 ps where "x0 \<in> X" "leads b x0 ps x" "set ps \<inter> stop = {}" by blast
    then have "leads b x0 (ps @ [y]) y \<and> set (ps @ [y]) \<inter> stop = {}"
      using step by (auto simp: leads_def is_route_snoc)
    then show ?case using \<open>x0 \<in> X\<close> by blast
  qed
next
  assume "?r y"
  then obtain x ps where x: "x \<in> X" and ps: "leads b x ps y" "set ps \<inter> stop = {}" by blast
  have "?l (last ps)" if "ps \<noteq> []" "is_route b x ps" "set ps \<inter> stop = {}" for ps
    using that
  proof (induction ps rule: rev_induct)
    case (snoc z qs)
    show ?case
    proof (cases "qs = []")
      case True
      then show ?thesis using snoc.prems x by (auto intro!: reached.start)
    next
      case False
      then have "?l (last qs)" using snoc by (simp add: is_route_snoc)
      then show ?thesis using snoc.prems False by (auto simp: is_route_snoc intro: reached.step)
    qed
  qed simp
  then show "?l y" using ps by (auto simp: leads_def)
qed

lemma walk_children:
  "y \<in> walk b stop (rev (concat (map (children b) xs))) {} \<longleftrightarrow>
     (\<exists>x \<in> set xs. \<exists>ps. leads b x ps y \<and> set ps \<inter> stop = {})"
proof -
  have "set (rev (concat (map (children b) xs))) = {y. \<exists>x \<in> set xs. (x, y) \<in> set b}"
    by (auto simp: children_below)
  then show ?thesis unfolding walk_reached by (simp only: reached_routes)
qed

text \<open>The components of the build that are the product at the version named.\<close>

definition product_of :: "letters \<Rightarrow> placer \<Rightarrow> Target \<Rightarrow> int set" where
  "product_of u p target = {n. \<exists>c. (n, c) \<in> set (byID (inv p)) \<and> n \<noteq> root p \<and> VersionNamed u target \<noteq> []
     \<and> isProduct u target (asStated p c) True}"

lemma product_ids_set: "VersionNamed u target \<noteq> [] \<Longrightarrow> set (product_ids u p target) = product_of u p target"
  by (force simp: product_of_def product_ids_def)

lemma product_of_empty: "VersionNamed u target = [] \<Longrightarrow> product_of u p target = {}"
  by (simp add: product_of_def)

lemma place_nowhere: "product_of u p target = {} \<Longrightarrow> place u p target = nowhere"
  using product_ids_set [of u target p] by (auto simp: place_def Let_def)

lemma place_somewhere:
  assumes "product_of u p target \<noteq> {}"
  shows "place u p target = \<lparr>product = product_of u p target,
      under = walk (below (places p)) {} (rev (concat (map (children (below (places p))) (product_ids u p target)))) {},
      outside = walk (below (places p)) (product_of u p target)
        (rev (concat (map (children (below (places p))) [0]))) {}\<rparr>"
    and "set (product_ids u p target) = product_of u p target"
proof -
  have v: "VersionNamed u target \<noteq> []" using assms product_of_empty by blast
  then show ids: "set (product_ids u p target) = product_of u p target" by (rule product_ids_set)
  then have "product_ids u p target \<noteq> []" using assms by auto
  then show "place u p target = \<lparr>product = product_of u p target,
      under = walk (below (places p)) {} (rev (concat (map (children (below (places p))) (product_ids u p target)))) {},
      outside = walk (below (places p)) (product_of u p target)
        (rev (concat (map (children (below (places p))) [0]))) {}\<rparr>"
    using v ids by (simp add: place_def Let_def)
qed

lemma product_place: "product (place u p target) = product_of u p target"
  by (cases "product_of u p target = {}") (simp_all add: place_nowhere place_somewhere nowhere_def)

lemma under_place:
  "y \<in> under (place u p target) \<longleftrightarrow>
     (\<exists>x \<in> product_of u p target. \<exists>ps. leads (below (places p)) x ps y)"
proof (cases "product_of u p target = {}")
  case True
  then show ?thesis by (simp add: place_nowhere nowhere_def)
next
  case False
  show ?thesis unfolding place_somewhere(1) [OF False] placement.simps walk_children
    unfolding place_somewhere(2) [OF False] by simp
qed

lemma outside_place:
  assumes "product_of u p target \<noteq> {}"
  shows "y \<in> outside (place u p target) \<longleftrightarrow>
     (\<exists>ps. leads (below (places p)) 0 ps y \<and> set ps \<inter> product_of u p target = {})"
  unfolding place_somewhere(1) [OF assms] placement.simps walk_children by simp

text \<open>
  C29: a product answers everything at an occurrence exactly when what pulls the component in is the
  product, or sits beneath it and every route from the root to it passes through the product; it
  answers some of the routes exactly when a route beneath the product and one around it both lead
  there; and it says nothing otherwise.
\<close>

theorem a_product_answers_only_the_routes_through_it:
  "stands_at (place u p target) c =
     (let P = product_of u p target; b = below (places p) in
      if c \<in> P then answersAll
      else if \<not> (\<exists>x \<in> P. \<exists>ps. leads b x ps c) then answersNone
      else if \<exists>ps. leads b 0 ps c \<and> set ps \<inter> P = {} then answersSome
      else answersAll)"
proof (cases "product_of u p target = {}")
  case True
  then show ?thesis by (simp add: stands_at_def product_place under_place Let_def)
next
  case False
  then show ?thesis by (auto simp: stands_at_def product_place under_place outside_place [OF False] Let_def)
qed

end
