(* ===== verification/Finding_Claims.thy ===== *)
theory Finding_Claims
  imports Finding_Place Bound
begin

section \<open>What a build and its suppliers say about an issue\<close>

text \<open>
  The build's own claims as applying a scan reads them (\<^verbatim>\<open>finding/claims.go\<close>, and the claim itself in
  \<^verbatim>\<open>finding/suppression.go\<close>), and the statements of suppliers and upstreams (\<^verbatim>\<open>finding/disclaim.go\<close>).
  A moment is counted from Go's zero time, so the zero moment is 0.
\<close>

record Named =
  Identifier :: string
  Aliases :: "string list"

definition identifierLimit :: int where "identifierLimit = 191"

definition normalize :: "letters \<Rightarrow> string \<Rightarrow> string" where
  "normalize u identifier = HeadRunes (to_upper u (trim_space identifier)) identifierLimit"

subsection \<open>Claims\<close>

definition Published_origin :: string where "Published_origin = ''published''"

record Claim =
  cl_ID :: int
  cl_BuildID :: int
  cl_Identity :: string
  cl_Vulnerability :: string
  cl_Status :: Status
  cl_Justification :: string
  cl_StatementID :: "int option"
  cl_Statement :: string
  Origin :: string
  SubjectPurl :: string
  SubjectName :: string
  SubjectFolded :: string
  SubjectVersion :: string
  WithinPurl :: string
  WithinName :: string
  WithinVersion :: string
  cl_StatedBy :: "int option"
  OpenedScanID :: int
  ClosedScanID :: "int option"
  Said :: int

definition claim_within :: "Claim \<Rightarrow> Target option" where
  "claim_within c = (if WithinPurl c = [] \<and> WithinName c = [] then None
     else Some \<lparr>t_Purl = WithinPurl c, t_Name = WithinName c, t_Version = WithinVersion c\<rparr>)"

definition covers :: "letters \<Rightarrow> Claim \<Rightarrow> Described \<Rightarrow> bool" where
  "covers u c d = Covers u \<lparr>t_Purl = SubjectPurl c, t_Name = SubjectName c, t_Version = SubjectVersion c\<rparr> d"

definition suppresses :: "Claim \<Rightarrow> bool" where
  "suppresses c = Suppresses (cl_Status c)"

definition fixes_it :: "Claim \<Rightarrow> bool" where
  "fixes_it c = Fixes (cl_Status c)"

text \<open>The claims by the name each argues about: a claim's place in the list, under its name.\<close>

type_synonym claimsByName = "(string \<times> nat list) list"

fun index_from :: "letters \<Rightarrow> nat \<Rightarrow> Claim list \<Rightarrow> claimsByName \<Rightarrow> claimsByName" where
  "index_from u i [] index = index"
| "index_from u i (claim # claims) index =
    (let name = normalize u (cl_Vulnerability claim) in
     index_from u (Suc i) claims (AList.update name (at_key index name @ [i]) index))"

definition indexClaims :: "letters \<Rightarrow> Claim list \<Rightarrow> claimsByName" where
  "indexClaims u claims = index_from u 0 claims []"

fun naming_loop :: "letters \<Rightarrow> claimsByName \<Rightarrow> string list \<Rightarrow> string list \<Rightarrow> nat list" where
  "naming_loop u index [] seen = []"
| "naming_loop u index (name # names) seen =
    (let name = normalize u name in
     if name \<in> set seen then naming_loop u index names seen
     else at_key index name @ naming_loop u index names (name # seen))"

text \<open>\<^verbatim>\<open>claimsByName.naming\<close>: the places found under any of the issue's names, sorted, read back.\<close>

definition claims_naming :: "letters \<Rightarrow> claimsByName \<Rightarrow> Claim list \<Rightarrow> Named \<Rightarrow> Claim list" where
  "claims_naming u index claims issue =
     map (\<lambda>i. claims ! i) (sort (naming_loop u index (Identifier issue # Aliases issue) []))"

subsection \<open>The claim that covers an occurrence\<close>

text \<open>When each origin last spoke, over the covering claims; an origin not yet heard is at zero.\<close>

fun latest_said :: "Claim list \<Rightarrow> (string \<rightharpoonup> int) \<Rightarrow> (string \<rightharpoonup> int)" where
  "latest_said [] latest = latest"
| "latest_said (claim # claims) latest =
    (let heard = (case latest (Origin claim) of Some t \<Rightarrow> t | None \<Rightarrow> 0) in
     latest_said claims (if Said claim > heard then latest(Origin claim \<mapsto> Said claim) else latest))"

definition stale_origin :: "(string \<rightharpoonup> int) \<Rightarrow> string" where
  "stale_origin latest = (case (latest Published_origin, latest FromStatement) of
     (Some published, Some sent) \<Rightarrow> if published > sent then FromStatement else Published_origin
   | _ \<Rightarrow> [])"

fun covering_loop :: "string \<Rightarrow> Claim list \<Rightarrow> int option \<Rightarrow> int option \<Rightarrow> int option \<times> int option" where
  "covering_loop stale [] found informing =
     (case found of Some i \<Rightarrow> (Some i, Some i) | None \<Rightarrow> (None, informing))"
| "covering_loop stale (claim # covering) found informing =
    (if Origin claim = stale then covering_loop stale covering found informing
     else if \<not> suppresses claim then
       covering_loop stale covering found (if informing = None then Some (cl_ID claim) else informing)
     else if Origin claim = FromPedigree then (Some (cl_ID claim), Some (cl_ID claim))
     else covering_loop stale covering (if found = None then Some (cl_ID claim) else found) informing)"

definition covering_claims :: "letters \<Rightarrow> placer \<Rightarrow> Claim list \<Rightarrow> Component \<Rightarrow> int \<Rightarrow> Claim list" where
  "covering_claims u p claims component consumerID =
     filter (\<lambda>claim. covers u claim (describedOf component) \<and> reaches u p (claim_within claim) component consumerID) claims"

definition coveringClaim :: "letters \<Rightarrow> placer \<Rightarrow> Claim list \<Rightarrow> Component \<Rightarrow> int \<Rightarrow> int option \<times> int option" where
  "coveringClaim u p claims component consumerID =
     (let covering = covering_claims u p claims component consumerID in
      covering_loop (stale_origin (latest_said covering Map.empty)) covering None None)"

text \<open>\<^verbatim>\<open>claimsReaching\<close>: how many claims land on something the build ships, and how many on nothing.\<close>

definition claim_lands :: "letters \<Rightarrow> placer \<Rightarrow> consumers \<Rightarrow> inventory \<Rightarrow> Claim \<Rightarrow> bool" where
  "claim_lands u p occurrences present claim =
     list_ex (\<lambda>(_, component). covers u claim (describedOf component)
        \<and> list_ex (\<lambda>consumerID. reaches u p (claim_within claim) component consumerID)
            (consumers_of occurrences (c_ID component))) (byID present)"

definition claimsReaching :: "letters \<Rightarrow> Claim list \<Rightarrow> inventory \<Rightarrow> consumers \<Rightarrow> placer \<Rightarrow> int \<times> int" where
  "claimsReaching u claims present occurrences p =
     (int (length (filter (claim_lands u p occurrences present) claims)),
      int (length (filter (\<lambda>c. \<not> claim_lands u p occurrences present c) claims)))"


subsection \<open>Suppliers' statements\<close>

definition PlacedInside :: string where "PlacedInside = ''inside''"
definition PlacedProduct :: string where "PlacedProduct = ''product''"
definition PlacedAnybody :: string where "PlacedAnybody = ''anybody''"
definition FromUpstream :: string where "FromUpstream = ''upstream''"

record Statement =
  s_ID :: int
  s_ProductID :: int
  s_Vulnerability :: string
  s_Purl :: string
  s_Component :: string
  About :: string
  s_WithinPurl :: string
  s_Within :: string
  s_WithinAbout :: "string option"
  Placement :: string
  s_Status :: Status
  Source :: string
  superseded_at :: "int option"
  declined_at :: "int option"

record affectedAt =
  af_vulnerabilityID :: int
  af_occurrenceIdentity :: string
  af_component :: string
  af_consumer :: string

definition OccurrenceIdentity :: "(string \<Rightarrow> string) \<Rightarrow> string \<Rightarrow> string \<Rightarrow> string" where
  "OccurrenceIdentity digest component consumer =
     (let c = trim_space consumer in
      digest ((if c \<noteq> [] then c @ [CHR 0x00] else []) @ trim_space component))"

text \<open>
  What a run reads to apply statements. \<open>affected\<close> and \<open>decided\<close> are the occurrences people have said
  an issue applies at, and decided about at all.
\<close>

record disclaiming =
  said :: "Statement list"
  byIssue :: "(string \<times> nat list) list"
  affected :: "affectedAt list"
  decided :: "affectedAt list"
  placed_in :: placer

definition upstreamCloses :: "Status list" where
  "upstreamCloses = [NotAffected, st_AlreadyFixed]"

text \<open>Which statements \<^verbatim>\<open>disclaimers\<close> reads, and in which order.\<close>

definition can_close :: "Statement \<Rightarrow> bool" where
  "can_close s \<longleftrightarrow>
     s_Status s = NotAffected \<and> Placement s = PlacedInside \<and> s_WithinAbout s \<noteq> None
   \<or> s_Status s = NotAffected \<and> Placement s = PlacedProduct \<and> About s \<noteq> []
   \<or> s_Status s \<in> set upstreamCloses \<and> Placement s = PlacedAnybody \<and> Source s = FromUpstream \<and> About s \<noteq> []"

definition issue_names :: "letters \<Rightarrow> Named list \<Rightarrow> string list" where
  "issue_names u issues = filter (\<lambda>n. n \<noteq> [])
     (remdups (concat (map (\<lambda>issue. map (Folded_name u) (Identifier issue # Aliases issue)) issues)))"

definition statements_read :: "letters \<Rightarrow> int \<Rightarrow> Named list \<Rightarrow> Statement list \<Rightarrow> Statement list" where
  "statements_read u productID issues rows = sort_key s_ID
     (filter (\<lambda>s. s_ProductID s = productID \<and> superseded_at s = None \<and> declined_at s = None
        \<and> s_Vulnerability s \<in> set (issue_names u issues) \<and> can_close s) rows)"

fun statements_by_issue :: "nat \<Rightarrow> Statement list \<Rightarrow> (string \<times> nat list) list \<Rightarrow> (string \<times> nat list) list" where
  "statements_by_issue i [] index = index"
| "statements_by_issue i (one # rest) index =
     statements_by_issue (Suc i) rest (AList.update (s_Vulnerability one) (at_key index (s_Vulnerability one) @ [i]) index)"

definition disclaimers :: "letters \<Rightarrow> int \<Rightarrow> Named list \<Rightarrow> Statement list \<Rightarrow> affectedAt list \<Rightarrow> affectedAt list \<Rightarrow> placer \<Rightarrow> disclaiming" where
  "disclaimers u productID issues rows affected_rows decided_rows p =
     (let found = statements_read u productID issues rows in
      if found = [] then \<lparr>said = [], byIssue = [], affected = [], decided = [], placed_in = p\<rparr>
      else \<lparr>said = found, byIssue = statements_by_issue 0 found [], affected = affected_rows,
             decided = (if list_ex (\<lambda>one. Placement one = PlacedAnybody) found then decided_rows else []),
             placed_in = p\<rparr>)"

definition sameComponent :: "letters \<Rightarrow> Statement \<Rightarrow> Component \<Rightarrow> bool" where
  "sameComponent u one c \<longleftrightarrow>
    (let (base, stated) = PackageOf u (s_Purl one);
         version = (if stated = [] then About one else stated);
         (held, heldStated) = PackageOf u (c_Purl c);
         heldVersion = (if heldStated = [] then c_Version c else heldStated)
     in base \<noteq> [] \<and> base = held \<and> version \<noteq> [] \<and> version = heldVersion)"

definition suppliedProduct :: "Statement \<Rightarrow> Target" where
  "suppliedProduct one = (if Placement one = PlacedInside
     then \<lparr>t_Purl = s_WithinPurl one, t_Name = s_Within one,
            t_Version = (case s_WithinAbout one of Some v \<Rightarrow> v | None \<Rightarrow> [])\<rparr>
     else \<lparr>t_Purl = s_Purl one, t_Name = s_Component one, t_Version = About one\<rparr>)"

text \<open>How one statement stands at one occurrence: one turn of the loop of \<^verbatim>\<open>answering\<close>.\<close>

definition verdict :: "letters \<Rightarrow> disclaiming \<Rightarrow> affectedAt \<Rightarrow> Component \<Rightarrow> int \<Rightarrow> Statement \<Rightarrow> answer" where
  "verdict u d here component consumerID one =
    (if Placement one = PlacedAnybody then
       (if here \<in> set (decided d) \<or> here\<lparr>af_component := [], af_consumer := []\<rparr> \<in> set (decided d)
           \<or> \<not> sameComponent u one (asStated (placed_in d) component)
        then answersNone else answersAll)
     else if consumerID = 0 then answersNone
     else if Placement one = PlacedInside
         \<and> \<not> Covers u \<lparr>t_Purl = s_Purl one, t_Name = s_Component one, t_Version = About one\<rparr> (describedOf component)
       then answersNone
     else let p = place u (placed_in d) (suppliedProduct one) in
       if c_ID component \<in> product p then answersNone
       else stands_at p consumerID)"

fun answering_loop :: "(Statement \<Rightarrow> answer) \<Rightarrow> Statement list \<Rightarrow> int option \<Rightarrow> int option \<times> answer" where
  "answering_loop v [] some = (case some of Some i \<Rightarrow> (Some i, answersSome) | None \<Rightarrow> (None, answersNone))"
| "answering_loop v (one # rest) some =
    (case v one of
       answersAll \<Rightarrow> (Some (s_ID one), answersAll)
     | answersSome \<Rightarrow> answering_loop v rest (if some = None then Some (s_ID one) else some)
     | answersNone \<Rightarrow> answering_loop v rest some)"

definition candidates :: "letters \<Rightarrow> disclaiming \<Rightarrow> Named \<Rightarrow> Statement list" where
  "candidates u d issue = map (\<lambda>i. said d ! i) (remdups_adj (sort
     (concat (map (\<lambda>name. at_key (byIssue d) (Folded_name u name)) (Identifier issue # Aliases issue)))))"

definition occurrence_here :: "(string \<Rightarrow> string) \<Rightarrow> disclaiming \<Rightarrow> int \<Rightarrow> Component \<Rightarrow> int \<Rightarrow> affectedAt" where
  "occurrence_here digest d vulnerabilityID component consumerID =
    (let consumer = component_at (inv (placed_in d)) consumerID in
     \<lparr>af_vulnerabilityID = vulnerabilityID,
      af_occurrenceIdentity = OccurrenceIdentity digest (c_Name component) (c_Name consumer),
      af_component = upstreamOf component, af_consumer = upstreamOf consumer\<rparr>)"

definition answering ::
  "letters \<Rightarrow> (string \<Rightarrow> string) \<Rightarrow> disclaiming \<Rightarrow> Named \<Rightarrow> int \<Rightarrow> Component \<Rightarrow> int \<Rightarrow> int option \<times> answer" where
  "answering u digest d issue vulnerabilityID component consumerID =
    (if said d = [] then (None, answersNone)
     else if candidates u d issue = [] then (None, answersNone)
     else let here = occurrence_here digest d vulnerabilityID component consumerID in
       if here \<in> set (affected d) then (None, answersNone)
       else answering_loop (verdict u d here component consumerID) (candidates u d issue) None)"


subsection \<open>Which claim covers\<close>

definition speaks_for :: "Claim list \<Rightarrow> Claim list" where
  "speaks_for covering = filter (\<lambda>c. Origin c \<noteq> stale_origin (latest_said covering Map.empty)) covering"

lemma covering_loop_eq:
  "covering_loop stale cs found informing =
    (let live = filter (\<lambda>c. Origin c \<noteq> stale) cs in
     case find (\<lambda>c. suppresses c \<and> Origin c = FromPedigree) live of
       Some c \<Rightarrow> (Some (cl_ID c), Some (cl_ID c))
     | None \<Rightarrow>
         (case (if found = None then map_option cl_ID (find suppresses live) else found) of
            Some i \<Rightarrow> (Some i, Some i)
          | None \<Rightarrow> (None, if informing = None then map_option cl_ID (find (\<lambda>c. \<not> suppresses c) live)
                else informing)))"
  unfolding Let_def
  by (induction cs arbitrary: found informing) (auto split: option.splits)

text \<open>
  C31: of the claims that cover an occurrence, less those of an origin the build has since restated
  elsewhere, the first patch attached to the component suppresses the finding, failing that the
  first claim that suppresses at all, and where none suppresses the finding still names the first
  claim that says the flaw applies.
\<close>

theorem the_claim_that_covers:
  "coveringClaim u p claims component consumerID =
    (let live = speaks_for (covering_claims u p claims component consumerID) in
     case find (\<lambda>c. suppresses c \<and> Origin c = FromPedigree) live of
       Some c \<Rightarrow> (Some (cl_ID c), Some (cl_ID c))
     | None \<Rightarrow>
         (case find suppresses live of
            Some c \<Rightarrow> (Some (cl_ID c), Some (cl_ID c))
          | None \<Rightarrow> (None, map_option cl_ID (find (\<lambda>c. \<not> suppresses c) live))))"
  unfolding coveringClaim_def covering_loop_eq speaks_for_def Let_def
  by (auto split: option.splits)


subsection \<open>Which statement answers\<close>

lemma answering_loop_find:
  "answering_loop v cs some =
    (case find (\<lambda>s. v s = answersAll) cs of
       Some s \<Rightarrow> (Some (s_ID s), answersAll)
     | None \<Rightarrow> (case (if some = None then map_option s_ID (find (\<lambda>s. v s = answersSome) cs) else some) of
          Some i \<Rightarrow> (Some i, answersSome)
        | None \<Rightarrow> (None, answersNone)))"
  by (induction cs arbitrary: some) (auto split: option.splits answer.splits)

lemma answering_eq:
  "answering u digest d issue vulnerabilityID component consumerID =
    (let here = occurrence_here digest d vulnerabilityID component consumerID;
         v = verdict u d here component consumerID in
     if said d = [] \<or> here \<in> set (affected d) then (None, answersNone)
     else case find (\<lambda>s. v s = answersAll) (candidates u d issue) of
         Some s \<Rightarrow> (Some (s_ID s), answersAll)
       | None \<Rightarrow> (case find (\<lambda>s. v s = answersSome) (candidates u d issue) of
            Some s \<Rightarrow> (Some (s_ID s), answersSome)
          | None \<Rightarrow> (None, answersNone)))"
  unfolding answering_def answering_loop_find Let_def
  by (auto split: option.splits)

lemma answering_some: "answering u digest d issue v c at = (s, how) \<Longrightarrow> how \<noteq> answersNone \<Longrightarrow> s \<noteq> None"
  unfolding answering_eq Let_def by (auto split: if_splits option.splits)

end
