(* ===== verification/Finding_Apply.thy ===== *)
theory Finding_Apply
  imports Finding_Rank Finding_Claims
begin

section \<open>Applying what a scan found\<close>

text \<open>
  \<^verbatim>\<open>finding/apply.go\<close> with \<^verbatim>\<open>finding/held.go\<close>: a run's reports are placed at every occurrence their
  components sit, compared with what is held open in the build, and only the difference is written.
  The finding table holds the columns a run reads or writes. An identifier that may be absent (a nil
  pointer, a NULL column) is an option. A Go map is an association list or a function; where the code
  ranges over one, the order is whatever \<open>visits\<close> makes of the list, since the language leaves it open.
\<close>

subsection \<open>Rows\<close>

definition Vulnerable :: string where "Vulnerable = ''vulnerability''"

record Finding =
  f_ID :: int
  f_BuildID :: int
  f_Kind :: string
  f_Visibility :: Visibility
  f_VulnerabilityID :: int
  f_ComponentID :: int
  f_ConsumerID :: "int option"
  f_OccurrenceIdentity :: string
  f_FixState :: FixState
  f_FixedIn :: string
  f_FixedAt :: "int option"
  f_Matched :: string
  f_MatchedFrom :: string
  f_MatchedIn :: string
  f_MatchedRange :: string
  f_SuppressedBy :: "int option"
  f_StatedBy :: "int option"
  f_ClaimedBy :: "int option"
  f_Urgency :: int
  f_RankExploited :: bool
  f_RankIncident :: bool
  f_RankShipped :: bool
  f_ExploitedLearnedAt :: "int option"
  f_DueAt :: "int option"
  f_ArrivedFrom :: string
  f_MovedTo :: string
  f_UnaffectedBy :: string
  f_OpenedAt :: int
  f_OpenedRunID :: "int option"
  f_ClosedAt :: "int option"
  f_ClosedRunID :: "int option"
  f_ClosedBecause :: Closure

record findings =
  rows :: "Finding list"
  next_finding :: int

text \<open>An issue, a component and what pulls it in; and an issue where it sits by name.\<close>

type_synonym key = "int \<times> int \<times> int"
type_synonym at = "int \<times> string"

definition value_of :: "int option \<Rightarrow> int" where
  "value_of i = (case i of None \<Rightarrow> 0 | Some n \<Rightarrow> n)"

definition optional :: "int \<Rightarrow> int option" where
  "optional n = (if n = 0 then None else Some n)"

lemma value_optional [simp]: "value_of (optional n) = n"
  by (simp add: value_of_def optional_def)

definition key_of :: "Finding \<Rightarrow> key" where
  "key_of f = (f_VulnerabilityID f, f_ComponentID f, value_of (f_ConsumerID f))"

definition at_of :: "Finding \<Rightarrow> at" where
  "at_of f = (f_VulnerabilityID f, f_OccurrenceIdentity f)"


subsection \<open>What a run reads\<close>

record Reported =
  Issue :: Named
  r_Component :: Described
  r_FixState :: FixState
  r_FixedIn :: string
  r_FixedAt :: "int option"
  r_Matched :: string
  r_MatchedFrom :: string
  r_MatchedIn :: string
  r_MatchedRange :: string
  r_Unaffected :: string

text \<open>
  \<^verbatim>\<open>applyRun\<close>. Beside what the code keeps there, it carries the case tables and the hash the process
  uses, the component catalog as this build states it (what \<^verbatim>\<open>componentsByID\<close> reads), which runs are
  checks of a replaced inventory, and the order a range visits a map in.
\<close>

record applyRun =
  buildID :: int
  runID :: int
  vulnerabilities :: "(string \<times> int) list"
  ratings :: "(int \<times> Rating) list"
  shipped :: bool
  present :: inventory
  occurrences :: consumers
  claims :: "Claim list"
  placed :: placer
  suppliers :: disclaiming
  named_by :: claimsByName
  fixing :: "int list"
  windows :: Windows
  startedAt :: int
  lowest :: MinimumSeverity
  onTheClock :: bool
  cases :: letters
  digest :: "string \<Rightarrow> string"
  catalog :: "(int \<times> Component) list"
  checks :: "int list"
  visits :: "nat \<Rightarrow> (key \<times> Finding) list \<Rightarrow> (key \<times> Finding) list"

text \<open>The claims that fix what they cover, by identifier (the end of \<^verbatim>\<open>readRun\<close>'s reading of claims).\<close>

definition fixing_claims :: "Claim list \<Rightarrow> int list" where
  "fixing_claims cs = map cl_ID (filter fixes_it cs)"

definition rating_of :: "applyRun \<Rightarrow> int \<Rightarrow> Rating" where
  "rating_of run v = (case map_of (ratings run) v of Some r \<Rightarrow> r | None \<Rightarrow> no_rating)"

definition catalog_at :: "applyRun \<Rightarrow> int \<Rightarrow> Component" where
  "catalog_at run n = (case map_of (catalog run) n of Some c \<Rightarrow> c | None \<Rightarrow> no_component)"


subsection \<open>What a report wants\<close>

record wantedSet =
  wanted_findings :: "(key \<times> Finding) list"
  patched :: "key \<Rightarrow> bool"
  cleared :: "key \<Rightarrow> string"
  disclaimed :: "key \<rightharpoonup> int"
  windowFor :: "key \<rightharpoonup> int"
  unplaced :: nat

definition nothing_wanted :: wantedSet where
  "nothing_wanted = \<lparr>wanted_findings = [], patched = (\<lambda>_. False), cleared = (\<lambda>_. []),
     disclaimed = Map.empty, windowFor = Map.empty, unplaced = 0\<rparr>"

text \<open>The finding wanted at one occurrence, before it is clocked.\<close>

definition wanted_entry ::
  "applyRun \<Rightarrow> Reported \<Rightarrow> int \<Rightarrow> Component \<Rightarrow> int \<Rightarrow> int option \<Rightarrow> int option \<Rightarrow> int option \<Rightarrow> Finding" where
  "wanted_entry run r vulnerabilityID component consumerID covering claimedBy answeredBy =
    (let rated = rating_of run vulnerabilityID;
         ranked = \<lparr>r_Incident = Incident rated, r_Exploited = Exploited rated, r_Shipped = shipped run,
                   r_LikelihoodPPM = LikelihoodPPM rated, r_ScoreCenti = Score rated\<rparr> in
     \<lparr>f_ID = 0, f_BuildID = buildID run, f_Kind = Vulnerable, f_Visibility = Public,
      f_VulnerabilityID = vulnerabilityID, f_ComponentID = c_ID component, f_ConsumerID = optional consumerID,
      f_OccurrenceIdentity = OccurrenceIdentity (digest run) (c_Name component) (consumer_name (present run) consumerID),
      f_FixState = r_FixState r, f_FixedIn = r_FixedIn r, f_FixedAt = r_FixedAt r,
      f_Matched = r_Matched r, f_MatchedFrom = r_MatchedFrom r, f_MatchedIn = r_MatchedIn r,
      f_MatchedRange = r_MatchedRange r,
      f_SuppressedBy = covering, f_StatedBy = answeredBy, f_ClaimedBy = claimedBy,
      f_Urgency = Rank ranked, f_RankExploited = r_Exploited ranked, f_RankIncident = r_Incident ranked,
      f_RankShipped = r_Shipped ranked,
      f_ExploitedLearnedAt = learnedExploitation (r_Exploited ranked) (ExploitedOn rated) (startedAt run),
      f_DueAt = None, f_ArrivedFrom = [], f_MovedTo = [], f_UnaffectedBy = [],
      f_OpenedAt = startedAt run, f_OpenedRunID = Some (runID run),
      f_ClosedAt = None, f_ClosedRunID = None, f_ClosedBecause = []\<rparr>)"

text \<open>One occurrence of one report: one turn of the inner loop of \<^verbatim>\<open>wanted\<close>.\<close>

definition want_at :: "applyRun \<Rightarrow> Reported \<Rightarrow> int \<Rightarrow> Component \<Rightarrow> Claim list \<Rightarrow> int \<Rightarrow> wantedSet \<Rightarrow> wantedSet" where
  "want_at run r vulnerabilityID component naming consumerID w =
    (let k = (vulnerabilityID, c_ID component, consumerID);
         (covering, claimedBy) = coveringClaim (cases run) (placed run) naming component consumerID;
         is_patched = (case covering of None \<Rightarrow> False | Some c \<Rightarrow> c \<in> set (fixing run));
         lines = (if is_patched then [] else r_Unaffected r);
         (statement, how) = (if \<not> is_patched \<and> lines = []
            then answering (cases run) (digest run) (suppliers run) (Issue r) vulnerabilityID component consumerID
            else (None, answersNone));
         answeredBy = (if how = answersSome then statement else None);
         rated = rating_of run vulnerabilityID;
         entry = wanted_entry run r vulnerabilityID component consumerID covering claimedBy answeredBy;
         clocked = onTheClock run \<and> answeredBy = None
            \<and> Admits (lowest run) (Exploited rated \<or> Incident rated) (Severity rated);
         window = For (windows run) (Exploited rated) (Severity rated)
     in w\<lparr>patched := (patched w)(k := is_patched),
          cleared := (cleared w)(k := lines),
          disclaimed := (disclaimed w)(k := (if how = answersAll then statement else None)),
          windowFor := (if clocked then (windowFor w)(k \<mapsto> window) else windowFor w),
          wanted_findings := AList.update k
            (if clocked then entry\<lparr>f_DueAt := Deadline (f_FixState entry) (Exploited rated \<or> Incident rated)
                 (startedAt run) (startedAt run) (f_ExploitedLearnedAt entry) (f_FixedAt entry) window\<rparr>
             else entry) (wanted_findings w)\<rparr>)"

text \<open>A report whose issue was not recorded is an error, and nothing is applied.\<close>

datatype apply_error = NotRecorded string

fun wanted_loop :: "applyRun \<Rightarrow> Reported list \<Rightarrow> wantedSet \<Rightarrow> apply_error + wantedSet" where
  "wanted_loop run [] w = Inr w"
| "wanted_loop run (r # reported) w =
    (case map_of (byIdentity (present run)) (Described_Identity (cases run) (digest run) (r_Component r)) of
       None \<Rightarrow> wanted_loop run reported (w\<lparr>unplaced := unplaced w + 1\<rparr>)
     | Some component \<Rightarrow>
         (case map_of (vulnerabilities run) (normalize (cases run) (Identifier (Issue r))) of
            None \<Rightarrow> Inl (NotRecorded (Identifier (Issue r)))
          | Some vulnerabilityID \<Rightarrow>
              wanted_loop run reported
                (fold (want_at run r vulnerabilityID component
                         (claims_naming (cases run) (named_by run) (claims run) (Issue r)))
                   (consumers_of (occurrences run) (c_ID component)) w)))"

definition wanted :: "applyRun \<Rightarrow> Reported list \<Rightarrow> apply_error + wantedSet" where
  "wanted run reported = wanted_loop run reported nothing_wanted"


subsection \<open>What is held\<close>

text \<open>A run's sweep covers the rows of its build that a scan of the inventory produces.\<close>

definition governed :: "int \<Rightarrow> Finding \<Rightarrow> bool" where
  "governed build f \<longleftrightarrow> f_BuildID f = build \<and> f_Kind f = Vulnerable"

definition is_open :: "Finding \<Rightarrow> bool" where
  "is_open f \<longleftrightarrow> f_ClosedAt f = None"

definition held_rows :: "int \<Rightarrow> Finding list \<Rightarrow> Finding list" where
  "held_rows build fs = filter (\<lambda>f. governed build f \<and> is_open f) fs"

definition heldOpen :: "int \<Rightarrow> Finding list \<Rightarrow> (key \<times> Finding) list \<times> (at \<times> Finding) list" where
  "heldOpen build fs =
    (fold (\<lambda>f. AList.update (key_of f) f) (held_rows build fs) [],
     fold (\<lambda>f. AList.update (at_of f) f) (held_rows build fs) [])"


subsection \<open>What moved under an open finding\<close>

definition same_finding :: "Finding \<Rightarrow> Finding \<Rightarrow> bool" where
  "same_finding held found \<longleftrightarrow>
     f_FixState held = f_FixState found \<and> f_FixedIn held = f_FixedIn found \<and> f_FixedAt held = f_FixedAt found
   \<and> f_Matched held = f_Matched found \<and> f_MatchedFrom held = f_MatchedFrom found
   \<and> f_MatchedIn held = f_MatchedIn found \<and> f_MatchedRange held = f_MatchedRange found
   \<and> f_SuppressedBy held = f_SuppressedBy found \<and> f_StatedBy held = f_StatedBy found
   \<and> f_ClaimedBy held = f_ClaimedBy found"

definition ranking :: "Finding \<Rightarrow> Finding \<Rightarrow> bool \<times> bool" where
  "ranking held found =
    (f_Urgency held \<noteq> f_Urgency found \<or> f_RankExploited held \<noteq> f_RankExploited found
       \<or> f_RankShipped held \<noteq> f_RankShipped found,
     f_RankExploited held \<noteq> f_RankExploited found)"

record moving =
  m_f :: Finding
  m_described :: bool
  m_moved :: bool
  m_exploitationMoved :: bool
  m_learned :: "int option"
  m_clockMoved :: bool
  m_ids :: "int list"
  m_urgencies :: "int list"

text \<open>
  Every value an update writes to every row it names. A column the update leaves alone is at its
  zero value. A moment is compared as the text it is written as, which the model takes for the
  moment.
\<close>

record changeKey =
  ck_described_as :: "FixState \<times> string \<times> int option \<times> string \<times> string \<times> string \<times> string"
  ck_answered_by :: "int option \<times> int option \<times> int option"
  ck_described :: bool
  ck_moved :: bool
  ck_rankExploited :: bool
  ck_rankShipped :: bool
  ck_exploitationMoved :: bool
  ck_learned :: "int option"
  ck_clockMoved :: bool
  ck_dueAt :: "int option"

definition change_key :: "moving \<Rightarrow> changeKey" where
  "change_key m = (let f = m_f m in
    \<lparr>ck_described_as = (if m_described m
       then (f_FixState f, f_FixedIn f, f_FixedAt f, f_Matched f, f_MatchedFrom f, f_MatchedIn f, f_MatchedRange f)
       else ([], [], None, [], [], [], [])),
     ck_answered_by = (if m_described m then (f_SuppressedBy f, f_StatedBy f, f_ClaimedBy f) else (None, None, None)),
     ck_described = m_described m, ck_moved = m_moved m,
     ck_rankExploited = (m_moved m \<and> f_RankExploited f), ck_rankShipped = (m_moved m \<and> f_RankShipped f),
     ck_exploitationMoved = m_exploitationMoved m,
     ck_learned = (if m_exploitationMoved m then m_learned m else None),
     ck_clockMoved = m_clockMoved m,
     ck_dueAt = (if m_clockMoved m then f_DueAt f else None)\<rparr>)"

definition add_id :: "int \<Rightarrow> int \<Rightarrow> moving \<Rightarrow> moving" where
  "add_id n urgency m = m\<lparr>m_ids := m_ids m @ [n], m_urgencies := m_urgencies m @ [urgency]\<rparr>"

text \<open>What \<^verbatim>\<open>moving.update\<close> sets on a row it names, the order chosen by the row's identifier.\<close>

definition set_described :: "moving \<Rightarrow> Finding \<Rightarrow> Finding" where
  "set_described m r = (if m_described m then
     (let f = m_f m in r\<lparr>f_FixState := f_FixState f, f_FixedIn := f_FixedIn f,
        f_FixedAt := f_FixedAt f, f_Matched := f_Matched f, f_MatchedFrom := f_MatchedFrom f,
        f_MatchedIn := f_MatchedIn f, f_MatchedRange := f_MatchedRange f,
        f_SuppressedBy := f_SuppressedBy f, f_StatedBy := f_StatedBy f,
        f_ClaimedBy := f_ClaimedBy f\<rparr>) else r)"

definition set_order :: "moving \<Rightarrow> Finding \<Rightarrow> Finding" where
  "set_order m r = (if m_moved m then
     r\<lparr>f_Urgency := (case map_of (zip (m_ids m) (m_urgencies m)) (f_ID r) of Some n \<Rightarrow> n | None \<Rightarrow> f_Urgency r),
        f_RankExploited := f_RankExploited (m_f m), f_RankShipped := f_RankShipped (m_f m)\<rparr> else r)"

definition set_learned :: "moving \<Rightarrow> Finding \<Rightarrow> Finding" where
  "set_learned m r = (if m_exploitationMoved m then r\<lparr>f_ExploitedLearnedAt := m_learned m\<rparr> else r)"

definition set_clock :: "moving \<Rightarrow> Finding \<Rightarrow> Finding" where
  "set_clock m r = (if m_clockMoved m then r\<lparr>f_DueAt := f_DueAt (m_f m)\<rparr> else r)"

definition set_moving :: "moving \<Rightarrow> Finding \<Rightarrow> Finding" where
  "set_moving m r = set_clock m (set_learned m (set_order m (set_described m r)))"


subsection \<open>The plan\<close>

record applyPlan =
  plan_opening :: "(Finding \<times> int option) list"
  updates :: "(changeKey \<times> moving) list"
  patching :: "(int \<times> int list) list"
  clearing :: "(string \<times> int list) list"
  disclaiming_by :: "(int \<times> int list) list"
  arrivedPatched :: "key list"
  arrivedCleared :: "key list"
  arrivedDisclaimed :: "key list"
  departing :: "(Finding \<times> bool) list"
  updated :: nat
  suppressed :: nat

definition empty_plan :: applyPlan where
  "empty_plan = \<lparr>plan_opening = [], updates = [], patching = [], clearing = [], disclaiming_by = [],
     arrivedPatched = [], arrivedCleared = [], arrivedDisclaimed = [], departing = [],
     updated = 0, suppressed = 0\<rparr>"

text \<open>The claim a patched finding names; it always names one.\<close>

definition patching_claim :: "Finding \<Rightarrow> int" where
  "patching_claim f = value_of (f_SuppressedBy f)"

text \<open>What moved between a held row and the finding wanted at its key: what the update writes.\<close>

definition change_of :: "applyRun \<Rightarrow> wantedSet \<Rightarrow> key \<Rightarrow> Finding \<Rightarrow> Finding \<Rightarrow> moving" where
  "change_of run w k already f =
    (let (moved, exploitationMoved) = ranking already f;
         learned = (if exploitationMoved
            then learnedExploitation (f_RankExploited f) (ExploitedOn (rating_of run (f_VulnerabilityID f))) (startedAt run)
            else f_ExploitedLearnedAt already);
         f' = (case windowFor w k of None \<Rightarrow> f
               | Some window \<Rightarrow> f\<lparr>f_DueAt := Deadline (f_FixState f) (f_RankExploited f \<or> f_RankIncident f)
                    (f_OpenedAt already) (startedAt run) learned (f_FixedAt f) window\<rparr>)
     in \<lparr>m_f = f', m_described = (\<not> same_finding already f'), m_moved = moved,
         m_exploitationMoved = exploitationMoved, m_learned = learned,
         m_clockMoved = (f_DueAt already \<noteq> f_DueAt f'), m_ids = [], m_urgencies = []\<rparr>)"

definition changes :: "moving \<Rightarrow> bool" where
  "changes m \<longleftrightarrow> m_described m \<or> m_moved m \<or> m_clockMoved m"

text \<open>One turn of the first loop of \<^verbatim>\<open>diffOpen\<close>.\<close>

definition plan_wanted ::
  "applyRun \<Rightarrow> wantedSet \<Rightarrow> (key \<times> Finding) list \<Rightarrow> (at \<times> Finding) list \<Rightarrow> key \<times> Finding \<Rightarrow> applyPlan \<Rightarrow> applyPlan" where
  "plan_wanted run w held heldAt entry plan =
    (case entry of (k, f) \<Rightarrow>
     if patched w k then
       (case map_of held k of
          Some already \<Rightarrow> plan\<lparr>patching := append_at (patching_claim f) (f_ID already) (patching plan)\<rparr>
        | None \<Rightarrow> plan\<lparr>arrivedPatched := arrivedPatched plan @ [k]\<rparr>)
     else if cleared w k \<noteq> [] then
       (case map_of held k of
          Some already \<Rightarrow> plan\<lparr>clearing := append_at (cleared w k) (f_ID already) (clearing plan)\<rparr>
        | None \<Rightarrow> plan\<lparr>arrivedCleared := arrivedCleared plan @ [k]\<rparr>)
     else case disclaimed w k of
       Some statement \<Rightarrow>
         (case map_of held k of
            Some already \<Rightarrow> plan\<lparr>disclaiming_by := append_at statement (f_ID already) (disclaiming_by plan)\<rparr>
          | None \<Rightarrow> plan\<lparr>arrivedDisclaimed := arrivedDisclaimed plan @ [k]\<rparr>)
     | None \<Rightarrow>
       (let plan = (if f_SuppressedBy f \<noteq> None then plan\<lparr>suppressed := suppressed plan + 1\<rparr> else plan) in
        case map_of held k of
          None \<Rightarrow>
            plan\<lparr>plan_opening := plan_opening plan @ [(f, case map_of heldAt (at_of f) of
                None \<Rightarrow> None
              | Some was \<Rightarrow> if f_ComponentID was \<noteq> f_ComponentID f then Some (f_ComponentID was) else None)]\<rparr>
        | Some already \<Rightarrow>
            (let change = change_of run w k already f in
             if \<not> changes change then plan
             else let group = (case map_of (updates plan) (change_key change) of Some g \<Rightarrow> g | None \<Rightarrow> change) in
               plan\<lparr>updates := AList.update (change_key change) (add_id (f_ID already) (f_Urgency f) group) (updates plan),
                    updated := updated plan + 1\<rparr>)))"

text \<open>Where an issue is still wanted, patched or disclaimed by where it sits: the second loop.\<close>

record stillThere =
  wantedAt :: "at \<Rightarrow> bool"
  patchedAt :: "at \<rightharpoonup> int"
  disclaimedAt :: "at \<rightharpoonup> int"

definition still_there :: "wantedSet \<Rightarrow> key \<times> Finding \<Rightarrow> stillThere \<Rightarrow> stillThere" where
  "still_there w entry s = (case entry of (k, f) \<Rightarrow>
     if cleared w k \<noteq> [] then s
     else case disclaimed w k of
       Some statement \<Rightarrow> s\<lparr>disclaimedAt := (disclaimedAt s)(at_of f \<mapsto> statement)\<rparr>
     | None \<Rightarrow>
         (let s = s\<lparr>wantedAt := (wantedAt s)(at_of f := True)\<rparr> in
          if patched w k then s\<lparr>patchedAt := (patchedAt s)(at_of f \<mapsto> patching_claim f)\<rparr> else s))"

definition nothing_there :: stillThere where
  "nothing_there = \<lparr>wantedAt = (\<lambda>_. False), patchedAt = Map.empty, disclaimedAt = Map.empty\<rparr>"

text \<open>One turn of the last loop: an open finding no longer wanted at its key.\<close>

definition plan_held :: "wantedSet \<Rightarrow> stillThere \<Rightarrow> key \<times> Finding \<Rightarrow> applyPlan \<Rightarrow> applyPlan" where
  "plan_held w s entry plan = (case entry of (k, f) \<Rightarrow>
     if map_of (wanted_findings w) k \<noteq> None then plan
     else case patchedAt s (at_of f) of
       Some claimID \<Rightarrow> plan\<lparr>patching := append_at claimID (f_ID f) (patching plan)\<rparr>
     | None \<Rightarrow>
         (case disclaimedAt s (at_of f) of
            Some statement \<Rightarrow> plan\<lparr>disclaiming_by := append_at statement (f_ID f) (disclaiming_by plan)\<rparr>
          | None \<Rightarrow> plan\<lparr>departing := departing plan @ [(f, wantedAt s (at_of f))]\<rparr>))"

definition diffOpen ::
  "applyRun \<Rightarrow> wantedSet \<Rightarrow> (key \<times> Finding) list \<Rightarrow> (at \<times> Finding) list \<Rightarrow> applyPlan" where
  "diffOpen run w held heldAt =
    (let plan = fold (plan_wanted run w held heldAt) (visits run 0 (wanted_findings w)) empty_plan;
         s = fold (still_there w) (visits run 1 (wanted_findings w)) nothing_there
     in fold (plan_held w s) (visits run 2 held) plan)"


subsection \<open>What was last recorded closed\<close>

text \<open>
  A row a replaced inventory's check wrote is opened and closed by one run that is a check. Negated
  in SQL: a row closed by no run passes, and one opened by no run and closed by a check does not.
\<close>

definition not_check_recorded :: "applyRun \<Rightarrow> Finding \<Rightarrow> bool" where
  "not_check_recorded run f = (case f_ClosedRunID f of
     None \<Rightarrow> True
   | Some c \<Rightarrow> c \<notin> set (checks run) \<or> (case f_OpenedRunID f of None \<Rightarrow> False | Some o' \<Rightarrow> o' \<noteq> c))"

definition closed_rows :: "int \<Rightarrow> int list \<Rightarrow> Finding list \<Rightarrow> Finding list" where
  "closed_rows build issues fs =
     filter (\<lambda>f. governed build f \<and> \<not> is_open f \<and> f_VulnerabilityID f \<in> set issues) fs"

text \<open>A row with the greatest identifier of those it shares its group with.\<close>

definition last_of :: "(Finding \<Rightarrow> 'g) \<Rightarrow> Finding list \<Rightarrow> Finding \<Rightarrow> bool" where
  "last_of group_at fs f = list_all (\<lambda>g. group_at g = group_at f \<longrightarrow> f_ID g \<le> f_ID f) fs"

definition latest_rows :: "applyRun \<Rightarrow> int list \<Rightarrow> Finding list \<Rightarrow> Finding list" where
  "latest_rows run issues fs =
    (let closed = closed_rows (buildID run) issues fs in
     sort_key (\<lambda>f. value_of (f_ClosedAt f)) (sort_key f_ID
       (filter (\<lambda>f. last_of key_of closed f
          \<or> not_check_recorded run f \<and> last_of key_of (filter (not_check_recorded run) closed) f
          \<or> last_of at_of closed f) closed)))"

definition latestClosed :: "applyRun \<Rightarrow> int list \<Rightarrow> Finding list \<Rightarrow> (key \<rightharpoonup> Finding) \<times> (at \<rightharpoonup> Finding)" where
  "latestClosed run issues fs =
    (map_of (rev (map (\<lambda>f. (key_of f, f)) (latest_rows run issues fs))),
     map_of (rev (map (\<lambda>f. (at_of f, f)) (latest_rows run issues fs))))"


subsection \<open>Writing the plan\<close>

text \<open>Rows inserted take the next identifiers in their order.\<close>

fun insert_findings :: "Finding list \<Rightarrow> findings \<Rightarrow> findings" where
  "insert_findings [] t = t"
| "insert_findings (f # fs) t =
     insert_findings fs (t\<lparr>rows := rows t @ [f\<lparr>f_ID := next_finding t\<rparr>], next_finding := next_finding t + 1\<rparr>)"

definition update_findings :: "(Finding \<Rightarrow> Finding) \<Rightarrow> int list \<Rightarrow> findings \<Rightarrow> findings" where
  "update_findings g ids t = t\<lparr>rows := set_in_batches f_ID g ids (rows t)\<rparr>"

text \<open>
  The updates of a group go out a batch of its identifiers at a time, each with the orders of the
  identifiers it names.
\<close>

fun update_group :: "moving \<Rightarrow> (int \<times> int) list list \<Rightarrow> findings \<Rightarrow> findings" where
  "update_group m [] t = t"
| "update_group m (b # bs) t =
     update_group m bs (t\<lparr>rows := set_where f_ID (set_moving (m\<lparr>m_ids := map fst b, m_urgencies := map snd b\<rparr>))
        (map fst b) (rows t)\<rparr>)"

definition update_moved :: "moving \<Rightarrow> findings \<Rightarrow> findings" where
  "update_moved m t = update_group m (batches_of BatchSize (zip (m_ids m) (m_urgencies m))) t"

text \<open>\<^verbatim>\<open>closeIDs\<close> with what it writes beside the closing, and how many rows its statements matched.\<close>

definition close_row :: "applyRun \<Rightarrow> Closure \<Rightarrow> (Finding \<Rightarrow> Finding) \<Rightarrow> Finding \<Rightarrow> Finding" where
  "close_row run reason rest r =
     (rest r)\<lparr>f_ClosedAt := Some (startedAt run), f_ClosedRunID := Some (runID run), f_ClosedBecause := reason\<rparr>"

definition matched :: "int list \<Rightarrow> findings \<Rightarrow> nat" where
  "matched ids t = sum_list (map (\<lambda>b. length (filter (\<lambda>r. f_ID r \<in> set b) (rows t))) (batches_of BatchSize ids))"

definition closeIDs :: "applyRun \<Rightarrow> Closure \<Rightarrow> (Finding \<Rightarrow> Finding) \<Rightarrow> int list \<Rightarrow> findings \<Rightarrow> nat \<times> findings" where
  "closeIDs run reason rest ids t = (matched ids t, update_findings (close_row run reason rest) ids t)"

text \<open>How a finding first seen closed for one reason is recorded.\<close>

record 'by arrivedAs =
  as_reason :: Closure
  as_by :: "key \<Rightarrow> 'by"
  as_set :: "Finding \<Rightarrow> 'by \<Rightarrow> Finding"
  as_same :: "Finding \<Rightarrow> 'by \<Rightarrow> bool"
  as_repoint :: "'by \<Rightarrow> Finding \<Rightarrow> Finding"

definition recorded_closed :: "applyRun \<Rightarrow> 'by arrivedAs \<Rightarrow> key \<Rightarrow> Finding \<Rightarrow> Finding" where
  "recorded_closed run how k f =
     (as_set how (f\<lparr>f_ClosedAt := Some (startedAt run), f_ClosedRunID := Some (runID run),
        f_ClosedBecause := as_reason how\<rparr>) (as_by how k))\<lparr>f_DueAt := None\<rparr>"

fun sort_arrived :: "applyRun \<Rightarrow> 'by arrivedAs \<Rightarrow> (key \<times> Finding) list \<Rightarrow> (key \<rightharpoonup> Finding) \<Rightarrow> key list
    \<Rightarrow> Finding list \<Rightarrow> ('by \<times> int list) list \<Rightarrow> Finding list \<times> ('by \<times> int list) list" where
  "sort_arrived run how want latest [] recording repointing = (recording, repointing)"
| "sort_arrived run how want latest (k # ks) recording repointing =
    (let f = the (map_of want k) in
     case latest k of
       Some was \<Rightarrow>
         if f_ClosedBecause was = as_reason how then
           (if as_same how was (as_by how k) then sort_arrived run how want latest ks recording repointing
            else sort_arrived run how want latest ks recording (append_at (as_by how k) (f_ID was) repointing))
         else sort_arrived run how want latest ks (recording @ [recorded_closed run how k f]) repointing
     | None \<Rightarrow> sort_arrived run how want latest ks (recording @ [recorded_closed run how k f]) repointing)"

definition recordArrived :: "applyRun \<Rightarrow> 'by arrivedAs \<Rightarrow> (key \<times> Finding) list \<Rightarrow> (key \<rightharpoonup> Finding) \<Rightarrow> key list
    \<Rightarrow> findings \<Rightarrow> nat \<times> findings" where
  "recordArrived run how want latest ks t =
    (let (recording, repointing) = sort_arrived run how want latest ks [] [];
         t1 = insert_findings recording t
     in (length recording, fold (\<lambda>(by, ids). update_findings (as_repoint how by) ids) repointing t1))"

definition as_patched :: "(key \<times> Finding) list \<Rightarrow> int arrivedAs" where
  "as_patched want = \<lparr>as_reason = Patched,
     as_by = (\<lambda>k. case map_of want k of Some f \<Rightarrow> patching_claim f | None \<Rightarrow> 0),
     as_set = (\<lambda>f _. f),
     as_same = (\<lambda>was claimID. f_SuppressedBy was = Some claimID),
     as_repoint = (\<lambda>claimID r. r\<lparr>f_SuppressedBy := Some claimID, f_ClaimedBy := Some claimID\<rparr>)\<rparr>"

definition as_cleared :: "wantedSet \<Rightarrow> string arrivedAs" where
  "as_cleared w = \<lparr>as_reason = Unaffected, as_by = cleared w,
     as_set = (\<lambda>f lines. f\<lparr>f_UnaffectedBy := lines\<rparr>),
     as_same = (\<lambda>was lines. f_UnaffectedBy was = lines),
     as_repoint = (\<lambda>lines r. r\<lparr>f_UnaffectedBy := lines\<rparr>)\<rparr>"

definition as_disclaimed :: "wantedSet \<Rightarrow> int arrivedAs" where
  "as_disclaimed w = \<lparr>as_reason = Disclaimed, as_by = (\<lambda>k. value_of (disclaimed w k)),
     as_set = (\<lambda>f statement. f\<lparr>f_StatedBy := Some statement\<rparr>),
     as_same = (\<lambda>was statement. f_StatedBy was = Some statement),
     as_repoint = (\<lambda>statement r. r\<lparr>f_StatedBy := Some statement\<rparr>)\<rparr>"

text \<open>
  An opening finding names the version its occurrence held: from the component it moved from, or
  failing that from a patched row the patch was dropped from as its version moved.
\<close>

definition arrived_from :: "applyRun \<Rightarrow> (at \<rightharpoonup> Finding) \<Rightarrow> Finding \<times> int option \<Rightarrow> Finding" where
  "arrived_from run latestAt entry = (case entry of (f, moved) \<Rightarrow>
     let f = (case moved of None \<Rightarrow> f | Some c \<Rightarrow> f\<lparr>f_ArrivedFrom := upstreamOf (catalog_at run c)\<rparr>) in
     case latestAt (at_of f) of
       None \<Rightarrow> f
     | Some was \<Rightarrow>
         if f_ArrivedFrom f = [] \<and> f_ClosedBecause was = Patched \<and> f_ComponentID was \<noteq> f_ComponentID f
         then f\<lparr>f_ArrivedFrom := upstreamOf (catalog_at run (f_ComponentID was))\<rparr> else f)"

definition departure_reason :: "applyRun \<Rightarrow> Finding \<times> bool \<Rightarrow> Closure \<times> string" where
  "departure_reason run d = (case d of (f, superseded) \<Rightarrow>
     if superseded then (Superseded, []) else why (present run) (catalog_at run (f_ComponentID f)))"

definition departures_by_reason :: "applyRun \<Rightarrow> (Finding \<times> bool) list \<Rightarrow> ((Closure \<times> string) \<times> int list) list" where
  "departures_by_reason run ds = fold (\<lambda>d. append_at (departure_reason run d) (f_ID (fst d))) ds []"

record applyWritten =
  w_opened :: nat
  w_closed :: nat
  w_unexplained :: nat
  w_patched :: nat
  w_unaffected :: nat
  w_disclaimed :: nat

text \<open>One closing group: the rows closed, added to the counts a run keeps.\<close>

definition close_departed :: "applyRun \<Rightarrow> (Closure \<times> string) \<times> int list \<Rightarrow> applyWritten \<times> findings \<Rightarrow> applyWritten \<times> findings" where
  "close_departed run g s = (case g of ((reason, movedTo), ids) \<Rightarrow>
     let (n, t) = closeIDs run reason (\<lambda>r. r\<lparr>f_StatedBy := None, f_MovedTo := movedTo\<rparr>) ids (snd s)
     in ((fst s)\<lparr>w_closed := w_closed (fst s) + n,
           w_unexplained := (if reason = Unexplained then w_unexplained (fst s) + n else w_unexplained (fst s))\<rparr>, t))"

definition close_cleared :: "applyRun \<Rightarrow> string \<times> int list \<Rightarrow> applyWritten \<times> findings \<Rightarrow> applyWritten \<times> findings" where
  "close_cleared run g s = (case g of (lines, ids) \<Rightarrow>
     let (n, t) = closeIDs run Unaffected (\<lambda>r. r\<lparr>f_StatedBy := None, f_MovedTo := [], f_UnaffectedBy := lines\<rparr>) ids (snd s)
     in ((fst s)\<lparr>w_closed := w_closed (fst s) + n, w_unaffected := w_unaffected (fst s) + n\<rparr>, t))"

definition close_disclaimed :: "applyRun \<Rightarrow> int \<times> int list \<Rightarrow> applyWritten \<times> findings \<Rightarrow> applyWritten \<times> findings" where
  "close_disclaimed run g s = (case g of (statement, ids) \<Rightarrow>
     let (n, t) = closeIDs run Disclaimed (\<lambda>r. r\<lparr>f_MovedTo := [], f_StatedBy := Some statement\<rparr>) ids (snd s)
     in ((fst s)\<lparr>w_closed := w_closed (fst s) + n, w_disclaimed := w_disclaimed (fst s) + n\<rparr>, t))"

definition close_patched :: "applyRun \<Rightarrow> int \<times> int list \<Rightarrow> applyWritten \<times> findings \<Rightarrow> applyWritten \<times> findings" where
  "close_patched run g s = (case g of (claimID, ids) \<Rightarrow>
     let (n, t) = closeIDs run Patched (\<lambda>r. r\<lparr>f_StatedBy := None, f_MovedTo := [],
           f_SuppressedBy := Some claimID, f_ClaimedBy := Some claimID\<rparr>) ids (snd s)
     in ((fst s)\<lparr>w_closed := w_closed (fst s) + n, w_patched := w_patched (fst s) + n\<rparr>, t))"

definition plan_issues :: "applyPlan \<Rightarrow> int list" where
  "plan_issues plan = map (\<lambda>(f, _). f_VulnerabilityID f) (plan_opening plan)
     @ map fst (arrivedPatched plan @ arrivedCleared plan @ arrivedDisclaimed plan)"

definition writePlan :: "applyRun \<Rightarrow> wantedSet \<Rightarrow> applyPlan \<Rightarrow> findings \<Rightarrow> applyWritten \<times> findings" where
  "writePlan run w plan t =
    (let t1 = fold (\<lambda>(_, m). update_moved m) (updates plan) t;
         (latest, latestAt) = latestClosed run (plan_issues plan) (rows t1);
         opens = map (arrived_from run latestAt) (plan_opening plan);
         t2 = insert_findings opens t1;
         want = wanted_findings w;
         (p, t3) = recordArrived run (as_patched want) want latest (arrivedPatched plan) t2;
         (c, t4) = recordArrived run (as_cleared w) want latest (arrivedCleared plan) t3;
         (d, t5) = recordArrived run (as_disclaimed w) want latest (arrivedDisclaimed plan) t4;
         s0 = (\<lparr>w_opened = length opens, w_closed = 0, w_unexplained = 0, w_patched = p, w_unaffected = c,
                w_disclaimed = d\<rparr>, t5);
         s1 = fold (close_departed run) (departures_by_reason run (departing plan)) s0;
         s2 = fold (close_cleared run) (clearing plan) s1;
         s3 = fold (close_disclaimed run) (disclaiming_by plan) s2
     in fold (close_patched run) (patching plan) s3)"

record Applied =
  Opened :: nat
  a_Closed :: nat
  a_Unexplained :: nat
  Updated :: nat
  Suppressed :: nat
  a_Patched :: nat
  a_Unaffected :: nat
  a_Disclaimed :: nat
  Unplaced :: nat

text \<open>\<^verbatim>\<open>Store.Apply\<close>, from what the run has read to what it answers.\<close>

definition Apply :: "applyRun \<Rightarrow> Reported list \<Rightarrow> findings \<Rightarrow> apply_error + Applied \<times> findings" where
  "Apply run reported t =
    (case wanted run reported of
       Inl e \<Rightarrow> Inl e
     | Inr w \<Rightarrow>
         (let (held, heldAt) = heldOpen (buildID run) (rows t);
              plan = diffOpen run w held heldAt;
              (wrote, t') = writePlan run w plan t
          in Inr (\<lparr>Opened = w_opened wrote, a_Closed = w_closed wrote, a_Unexplained = w_unexplained wrote,
               Updated = updated plan, Suppressed = suppressed plan, a_Patched = w_patched wrote,
               a_Unaffected = w_unaffected wrote, a_Disclaimed = w_disclaimed wrote,
               Unplaced = unplaced w\<rparr>, t')))"

end
