(* ===== verification/Finding_Written.thy ===== *)
theory Finding_Written
  imports Finding_Apply
begin

section \<open>What applying a scan does to each row\<close>

text \<open>
  The statements a plan is written with, read row by row. Each statement names rows by identifier
  and sets columns of them, so the table afterwards is the rows that were there, each passed through
  the statements naming it, and the rows inserted after them. What a held row passes through is one
  change, its \<open>fate\<close>; a row of another build, of another kind, or closed, passes through none but
  the repointing of a closed row at what closes it now.
\<close>

subsection \<open>Statements, row by row\<close>

type_synonym statement = "int list \<times> (Finding \<Rightarrow> Finding)"

definition on_row :: "statement \<Rightarrow> Finding \<Rightarrow> Finding" where
  "on_row s r = (case s of (ids, g) \<Rightarrow> if f_ID r \<in> set ids then g r else r)"

definition through :: "statement list \<Rightarrow> Finding \<Rightarrow> Finding" where
  "through ss r = fold on_row ss r"

definition keeps_id :: "statement \<Rightarrow> bool" where
  "keeps_id s \<longleftrightarrow> (\<forall>r. f_ID (snd s r) = f_ID r)"

definition names :: "statement list \<Rightarrow> int set" where
  "names ss = (\<Union>s \<in> set ss. set (fst s))"

lemma names_simps [simp]: "names [] = {}" "names (s # ss) = set (fst s) \<union> names ss"
  "names (ss @ ss') = names ss \<union> names ss'"
  by (auto simp: names_def)

lemma through_simps [simp]: "through [] r = r" "through (ss @ ss') r = through ss' (through ss r)"
  by (simp_all add: through_def)

lemma through_Cons: "through (s # ss) r = through ss (on_row s r)"
  by (simp add: through_def)

lemma on_row_id: "keeps_id s \<Longrightarrow> f_ID (on_row s r) = f_ID r"
  by (auto simp: on_row_def keeps_id_def split: prod.splits)

lemma through_id: "list_all keeps_id ss \<Longrightarrow> f_ID (through ss r) = f_ID r"
  by (induction ss arbitrary: r) (auto simp: through_Cons on_row_id)

lemma through_unnamed: "f_ID r \<notin> names ss \<Longrightarrow> through ss r = r"
  by (induction ss) (auto simp: through_Cons on_row_def split: prod.splits)

text \<open>Where one statement of a list names a row, it is all the list does to it.\<close>

lemma through_one:
  assumes "ss = pre @ s # post" and "f_ID r \<in> set (fst s)" and "f_ID r \<notin> names pre" and "f_ID r \<notin> names post"
    and "keeps_id s"
  shows "through ss r = snd s r"
proof -
  have "on_row s r = snd s r" using assms(2) by (auto simp: on_row_def split: prod.splits)
  moreover have "f_ID (snd s r) = f_ID r" using assms(5) by (simp add: keeps_id_def)
  ultimately show ?thesis using assms by (simp add: through_Cons through_unnamed)
qed

lemma through_of:
  assumes "s \<in> set ss" and "f_ID r \<in> set (fst s)" and "keeps_id s"
    and "\<And>s'. s' \<in> set ss \<Longrightarrow> f_ID r \<in> set (fst s') \<Longrightarrow> s' = s" and "distinct ss"
  shows "through ss r = snd s r"
proof -
  obtain pre post where ss: "ss = pre @ s # post" using assms(1) by (meson split_list)
  have "f_ID r \<notin> names pre" "f_ID r \<notin> names post"
    using assms(4,5) unfolding ss names_def by auto
  then show ?thesis using through_one [OF ss assms(2)] assms(3) by blast
qed

lemma update_findings_through:
  assumes "\<And>r. f_ID (g r) = f_ID r" and "\<And>r. g (g r) = g r"
  shows "update_findings g ids t = t\<lparr>rows := map (through [(ids, g)]) (rows t)\<rparr>"
  unfolding update_findings_def set_in_batches [of f_ID g, OF assms]
  by (simp add: set_where_def through_def on_row_def)

lemma map_through: "map (through ss') (map (through ss) rs) = map (through (ss @ ss')) rs"
  by simp


subsection \<open>Rows inserted\<close>

fun numbered :: "int \<Rightarrow> Finding list \<Rightarrow> Finding list" where
  "numbered n [] = []"
| "numbered n (f # fs) = f\<lparr>f_ID := n\<rparr> # numbered (n + 1) fs"

lemma insert_findings_eq:
  "insert_findings fs t = t\<lparr>rows := rows t @ numbered (next_finding t) fs, next_finding := next_finding t + int (length fs)\<rparr>"
  by (induction fs arbitrary: t) simp_all

lemma findings_numbered_append: "numbered n (xs @ ys) = numbered n xs @ numbered (n + int (length xs)) ys"
  by (induction xs arbitrary: n) (simp_all add: algebra_simps)

lemma numbered_ids: "map f_ID (numbered n fs) = map (\<lambda>i. n + int i) [0..<length fs]"
proof (induction fs arbitrary: n)
  case (Cons f fs)
  have "map (\<lambda>i. n + int i) [0..<Suc (length fs)] = n # map (\<lambda>i. n + 1 + int i) [0..<length fs]"
    by (subst upt_conv_Cons) (auto simp: map_Suc_upt [symmetric] simp del: upt_Suc)
  then show ?case using Cons by simp
qed simp

lemma numbered_least: "r \<in> set (numbered n fs) \<Longrightarrow> n \<le> f_ID r \<and> f_ID r < n + int (length fs)"
  by (induction fs arbitrary: n) (auto, fastforce+)

lemma findings_numbered_distinct: "distinct (map f_ID (numbered n fs))"
  by (simp add: numbered_ids distinct_map inj_on_def)

lemma numbered_map: "(\<And>f n. h (f\<lparr>f_ID := n\<rparr>) = h f) \<Longrightarrow> map h (numbered n fs) = map h fs"
  by (induction fs arbitrary: n) simp_all

lemma through_numbered:
  assumes "\<And>n. n \<in> names ss \<Longrightarrow> n < next"
  shows "map (through ss) (numbered next fs) = numbered next fs"
  by (rule map_idI, rule through_unnamed) (use assms numbered_least in force)


subsection \<open>Groups\<close>

text \<open>
  The statements of the groups of one map: a row named under one key passes through the statement
  of that key, and a row named under none through nothing.
\<close>

definition group_statements :: "('k \<Rightarrow> Finding \<Rightarrow> Finding) \<Rightarrow> ('k \<times> int list) list \<Rightarrow> statement list" where
  "group_statements g m = map (\<lambda>(k, ids). (ids, g k)) m"

lemma names_groups: "names (group_statements g (grouping ps [])) = snd ` set ps"
proof -
  have "names (group_statements g (grouping ps [])) = (\<Union>e \<in> set (grouping ps []). set (snd e))"
    by (auto simp: names_def group_statements_def split: prod.splits)
  also have "\<dots> = snd ` set ps"
  proof (rule set_eqI, rule iffI)
    fix n assume "n \<in> (\<Union>e \<in> set (grouping ps []). set (snd e))"
    then obtain k xs where "(k, xs) \<in> set (grouping ps [])" "n \<in> set xs" by auto
    then show "n \<in> snd ` set ps" using grouping_pairs [of k xs ps n] by force
  next
    fix n assume "n \<in> snd ` set ps"
    then obtain k where "(k, n) \<in> set ps" by auto
    from grouping_mem [OF this] show "n \<in> (\<Union>e \<in> set (grouping ps []). set (snd e))" by force
  qed
  finally show ?thesis .
qed

lemma through_groups:
  assumes "(k, f_ID r) \<in> set ps" and "\<And>k'. (k', f_ID r) \<in> set ps \<Longrightarrow> k' = k"
    and "\<And>k r. f_ID (g k r) = f_ID r"
  shows "through (group_statements g (grouping ps [])) r = g k r"
proof -
  obtain xs where xs: "(k, xs) \<in> set (grouping ps [])" "f_ID r \<in> set xs"
    using grouping_mem [OF assms(1)] by blast
  then obtain pre post where m: "grouping ps [] = pre @ (k, xs) # post" by (meson split_list)
  have "k' \<noteq> k" if "(k', ys) \<in> set (pre @ post)" for k' ys
    using grouping_distinct [of "[]" ps] that unfolding m by force
  then have none: "f_ID r \<notin> set ys" if "(k', ys) \<in> set (pre @ post)" for k' ys
  proof -
    have "(k', ys) \<in> set (grouping ps [])" using that unfolding m by auto
    then show ?thesis using grouping_pairs [of k' ys ps "f_ID r"] assms(2) that
        \<open>\<And>k' ys. (k', ys) \<in> set (pre @ post) \<Longrightarrow> k' \<noteq> k\<close> by blast
  qed
  have split: "group_statements g (grouping ps []) = group_statements g pre @ (xs, g k) # group_statements g post"
    unfolding m by (simp add: group_statements_def)
  show ?thesis
    using through_one [OF split, of r] none xs(2) assms(3)
    by (fastforce simp: names_def group_statements_def keeps_id_def)
qed

end
