(* ===== verification/Finding_Diff.thy ===== *)
theory Finding_Diff
  imports Finding_Written "HOL-Library.Multiset"
begin

section \<open>The difference a report makes\<close>

text \<open>
  What \<open>wanted\<close> keeps of the findings it places, and what \<open>diffOpen\<close> plans for each row held open:
  every held row has one fate, whatever order the maps are ranged over in, and the plan lists it
  under that fate and no other.
\<close>

subsection \<open>Findings wanted\<close>

definition wanted_ok :: "applyRun \<Rightarrow> wantedSet \<Rightarrow> bool" where
  "wanted_ok run w \<longleftrightarrow> distinct (map fst (wanted_findings w))
     \<and> (\<forall>(k, f) \<in> set (wanted_findings w). key_of f = k \<and> governed (buildID run) f \<and> is_open f
          \<and> f_OpenedAt f = startedAt run \<and> f_OpenedRunID f = Some (runID run)
          \<and> (patched w k \<longrightarrow> f_SuppressedBy f \<noteq> None))"

lemma wanted_entry_facts:
  "key_of (wanted_entry run r v c p covering claimedBy answeredBy) = (v, c_ID c, p)"
  "governed (buildID run) (wanted_entry run r v c p covering claimedBy answeredBy)"
  "is_open (wanted_entry run r v c p covering claimedBy answeredBy)"
  "f_OpenedAt (wanted_entry run r v c p covering claimedBy answeredBy) = startedAt run"
  "f_OpenedRunID (wanted_entry run r v c p covering claimedBy answeredBy) = Some (runID run)"
  "f_SuppressedBy (wanted_entry run r v c p covering claimedBy answeredBy) = covering"
  by (simp_all add: wanted_entry_def Let_def key_of_def governed_def is_open_def)

lemma due_facts:
  "key_of (f\<lparr>f_DueAt := d\<rparr>) = key_of f" "governed b (f\<lparr>f_DueAt := d\<rparr>) = governed b f"
  "is_open (f\<lparr>f_DueAt := d\<rparr>) = is_open f" "at_of (f\<lparr>f_DueAt := d\<rparr>) = at_of f"
  by (simp_all add: key_of_def governed_def is_open_def at_of_def)

lemma want_at_wants:
  "\<exists>e b. wanted_findings (want_at run r v c naming p w) = AList.update (v, c_ID c, p) e (wanted_findings w)
     \<and> patched (want_at run r v c naming p w) = (patched w)((v, c_ID c, p) := b)
     \<and> key_of e = (v, c_ID c, p) \<and> governed (buildID run) e \<and> is_open e \<and> f_OpenedAt e = startedAt run
     \<and> f_OpenedRunID e = Some (runID run) \<and> (b \<longrightarrow> f_SuppressedBy e \<noteq> None)"
proof -
  obtain covering claimedBy where c: "coveringClaim (cases run) (placed run) naming c p = (covering, claimedBy)"
    by fastforce
  have b: "(case covering of None \<Rightarrow> False | Some c \<Rightarrow> c \<in> set (fixing run)) \<longrightarrow> covering \<noteq> None"
    by (auto split: option.splits)
  show ?thesis
    unfolding want_at_def c Let_def prod.case
    by (split prod.split, intro allI impI)
      (rule exI, rule exI, intro conjI, (simp; fail), (simp; fail),
        insert b, auto simp: wanted_entry_facts due_facts)
qed

lemma want_at_ok:
  assumes "wanted_ok run w"
  shows "wanted_ok run (want_at run r v component naming consumerID w)"
proof -
  obtain e b where e: "wanted_findings (want_at run r v component naming consumerID w)
        = AList.update (v, c_ID component, consumerID) e (wanted_findings w)"
      "patched (want_at run r v component naming consumerID w) = (patched w)((v, c_ID component, consumerID) := b)"
    and f: "key_of e = (v, c_ID component, consumerID)" "governed (buildID run) e" "is_open e"
      "f_OpenedAt e = startedAt run" "f_OpenedRunID e = Some (runID run)" "b \<longrightarrow> f_SuppressedBy e \<noteq> None"
    using want_at_wants [of run r v component naming consumerID w] by blast
  have d: "distinct (map fst (wanted_findings w))" using assms by (simp add: wanted_ok_def)
  show ?thesis unfolding wanted_ok_def e
  proof (intro conjI ballI)
    show "distinct (map fst (AList.update (v, c_ID component, consumerID) e (wanted_findings w)))"
      by (rule distinct_update [OF d])
    fix x assume x: "x \<in> set (AList.update (v, c_ID component, consumerID) e (wanted_findings w))"
    obtain k f' where k: "x = (k, f')" by fastforce
    from update_old [OF d x [unfolded k]] show "case x of (k, f) \<Rightarrow> key_of f = k \<and> governed (buildID run) f \<and> is_open f
        \<and> f_OpenedAt f = startedAt run \<and> f_OpenedRunID f = Some (runID run)
        \<and> (((patched w)((v, c_ID component, consumerID) := b)) k \<longrightarrow> f_SuppressedBy f \<noteq> None)"
      using assms f unfolding k wanted_ok_def by auto
  qed
qed

lemma fold_want_at_ok: "wanted_ok run w \<Longrightarrow> wanted_ok run (fold (want_at run r v component naming) cs w)"
  by (induction cs arbitrary: w) (auto intro: want_at_ok)

lemma wanted_loop_ok: "wanted_ok run w \<Longrightarrow> wanted_loop run reported w = Inr w' \<Longrightarrow> wanted_ok run w'"
proof (induction run reported w rule: wanted_loop.induct)
  case (2 run r reported w)
  show ?case
  proof (cases "map_of (byIdentity (present run)) (Described_Identity (cases run) (digest run) (r_Component r))")
    case None
    have "wanted_ok run (w\<lparr>unplaced := unplaced w + 1\<rparr>)" using "2.prems"(1) by (simp add: wanted_ok_def)
    then show ?thesis using "2.IH"(1) [OF None] "2.prems"(2) None by simp
  next
    case (Some component)
    then obtain v where v: "map_of (vulnerabilities run) (normalize (cases run) (Identifier (Issue r))) = Some v"
      using "2.prems"(2) by (auto split: option.splits)
    show ?thesis using "2.IH"(2) [OF Some v] fold_want_at_ok [OF "2.prems"(1)] "2.prems"(2) Some v by simp
  qed
qed simp

lemma wanted_wanted_ok: "wanted run reported = Inr w \<Longrightarrow> wanted_ok run w"
  using wanted_loop_ok [of run nothing_wanted reported w] by (simp add: wanted_def wanted_ok_def nothing_wanted_def)

lemma wanted_okD:
  assumes "wanted_ok run w" and "map_of (wanted_findings w) k = Some f"
  shows "key_of f = k" "governed (buildID run) f" "is_open f" "f_OpenedAt f = startedAt run"
    "f_OpenedRunID f = Some (runID run)" "patched w k \<Longrightarrow> f_SuppressedBy f \<noteq> None"
  using assms map_of_SomeD [OF assms(2)] by (auto simp: wanted_ok_def)


subsection \<open>Rows held\<close>

text \<open>No two rows share an identifier, none is yet to be given, and a build holds a key once.\<close>

definition table_ok :: "findings \<Rightarrow> bool" where
  "table_ok t \<longleftrightarrow> distinct (map f_ID (rows t)) \<and> (\<forall>r \<in> set (rows t). f_ID r < next_finding t)
     \<and> (\<forall>build. distinct (map key_of (held_rows build (rows t))))"

lemma held_list:
  assumes "table_ok t"
  shows "fst (heldOpen build (rows t)) = map (\<lambda>f. (key_of f, f)) (held_rows build (rows t))"
  using assms fold_update_map [of "[]" key_of "held_rows build (rows t)"]
  by (simp add: heldOpen_def table_ok_def)

text \<open>What the proofs below need of the list of held rows.\<close>

definition held_ok :: "(key \<times> Finding) list \<Rightarrow> bool" where
  "held_ok held \<longleftrightarrow> distinct (map fst held) \<and> distinct (map (f_ID \<circ> snd) held) \<and> (\<forall>(k, f) \<in> set held. key_of f = k)"

lemma heldOpen_ok: "table_ok t \<Longrightarrow> held_ok (fst (heldOpen build (rows t)))"
  unfolding held_ok_def held_list
  by (auto simp: comp_def table_ok_def held_rows_def distinct_map_filter)

lemma held_okD:
  assumes "held_ok held"
  shows "map_of held k = Some f \<longleftrightarrow> (k, f) \<in> set held"
    "(k, f) \<in> set held \<Longrightarrow> key_of f = k"
    "(k, f) \<in> set held \<Longrightarrow> (k', f') \<in> set held \<Longrightarrow> f_ID f = f_ID f' \<Longrightarrow> k' = k \<and> f' = f"
  using assms by (auto simp: held_ok_def distinct_map inj_on_def) (metis comp_apply snd_conv fst_conv)+


subsection \<open>Fates\<close>

datatype fate = Stays | Changes moving int | Patches int | Clears string | Disclaims int | Departs bool

definition fate_of :: "applyRun \<Rightarrow> wantedSet \<Rightarrow> stillThere \<Rightarrow> key \<Rightarrow> Finding \<Rightarrow> fate" where
  "fate_of run w s k f =
    (case map_of (wanted_findings w) k of
       Some want_f \<Rightarrow>
         if patched w k then Patches (patching_claim want_f)
         else if cleared w k \<noteq> [] then Clears (cleared w k)
         else (case disclaimed w k of
             Some statement \<Rightarrow> Disclaims statement
           | None \<Rightarrow> let m = change_of run w k f want_f in if changes m then Changes m (f_Urgency want_f) else Stays)
     | None \<Rightarrow>
         (case patchedAt s (at_of f) of
            Some claimID \<Rightarrow> Patches claimID
          | None \<Rightarrow> (case disclaimedAt s (at_of f) of
               Some statement \<Rightarrow> Disclaims statement
             | None \<Rightarrow> Departs (wantedAt s (at_of f)))))"

text \<open>What each turn of the loops adds to each list of the plan.\<close>

definition patch_pairs :: "wantedSet \<Rightarrow> (key \<times> Finding) list \<Rightarrow> key \<times> Finding \<Rightarrow> (int \<times> int) list" where
  "patch_pairs w held e = (case e of (k, f) \<Rightarrow>
     if patched w k then (case map_of held k of Some a \<Rightarrow> [(patching_claim f, f_ID a)] | None \<Rightarrow> []) else [])"

definition clear_pairs :: "wantedSet \<Rightarrow> (key \<times> Finding) list \<Rightarrow> key \<times> Finding \<Rightarrow> (string \<times> int) list" where
  "clear_pairs w held e = (case e of (k, f) \<Rightarrow>
     if \<not> patched w k \<and> cleared w k \<noteq> [] then (case map_of held k of Some a \<Rightarrow> [(cleared w k, f_ID a)] | None \<Rightarrow> []) else [])"

definition disclaim_pairs :: "wantedSet \<Rightarrow> (key \<times> Finding) list \<Rightarrow> key \<times> Finding \<Rightarrow> (int \<times> int) list" where
  "disclaim_pairs w held e = (case e of (k, f) \<Rightarrow>
     if \<not> patched w k \<and> cleared w k = [] then
       (case (disclaimed w k, map_of held k) of (Some st, Some a) \<Rightarrow> [(st, f_ID a)] | _ \<Rightarrow> []) else [])"

definition standing_key :: "wantedSet \<Rightarrow> key \<Rightarrow> bool" where
  "standing_key w k \<longleftrightarrow> \<not> patched w k \<and> cleared w k = [] \<and> disclaimed w k = None"

definition moved_from :: "(at \<times> Finding) list \<Rightarrow> Finding \<Rightarrow> int option" where
  "moved_from heldAt f = (case map_of heldAt (at_of f) of
     None \<Rightarrow> None
   | Some was \<Rightarrow> if f_ComponentID was \<noteq> f_ComponentID f then Some (f_ComponentID was) else None)"

definition open_entries :: "wantedSet \<Rightarrow> (key \<times> Finding) list \<Rightarrow> (at \<times> Finding) list \<Rightarrow> key \<times> Finding \<Rightarrow> (Finding \<times> int option) list" where
  "open_entries w held heldAt e = (case e of (k, f) \<Rightarrow>
     if standing_key w k \<and> map_of held k = None then [(f, moved_from heldAt f)] else [])"

definition change_pairs :: "applyRun \<Rightarrow> wantedSet \<Rightarrow> (key \<times> Finding) list \<Rightarrow> key \<times> Finding \<Rightarrow> (moving \<times> int \<times> int) list" where
  "change_pairs run w held e = (case e of (k, f) \<Rightarrow>
     if standing_key w k then
       (case map_of held k of
          Some a \<Rightarrow> let m = change_of run w k a f in if changes m then [(m, f_ID a, f_Urgency f)] else []
        | None \<Rightarrow> [])
     else [])"

definition add_change :: "moving \<times> int \<times> int \<Rightarrow> (changeKey \<times> moving) list \<Rightarrow> (changeKey \<times> moving) list" where
  "add_change c us = (case c of (change, n, urgency) \<Rightarrow>
     AList.update (change_key change)
       (add_id n urgency (case map_of us (change_key change) of Some g \<Rightarrow> g | None \<Rightarrow> change)) us)"

definition held_patch :: "wantedSet \<Rightarrow> stillThere \<Rightarrow> key \<times> Finding \<Rightarrow> (int \<times> int) list" where
  "held_patch w s e = (case e of (k, f) \<Rightarrow>
     if map_of (wanted_findings w) k \<noteq> None then []
     else case patchedAt s (at_of f) of Some c \<Rightarrow> [(c, f_ID f)] | None \<Rightarrow> [])"

definition held_disclaim :: "wantedSet \<Rightarrow> stillThere \<Rightarrow> key \<times> Finding \<Rightarrow> (int \<times> int) list" where
  "held_disclaim w s e = (case e of (k, f) \<Rightarrow>
     if map_of (wanted_findings w) k \<noteq> None then []
     else case (patchedAt s (at_of f), disclaimedAt s (at_of f)) of (None, Some c) \<Rightarrow> [(c, f_ID f)] | _ \<Rightarrow> [])"

definition held_depart :: "wantedSet \<Rightarrow> stillThere \<Rightarrow> key \<times> Finding \<Rightarrow> (Finding \<times> bool) list" where
  "held_depart w s e = (case e of (k, f) \<Rightarrow>
     if map_of (wanted_findings w) k \<noteq> None \<or> patchedAt s (at_of f) \<noteq> None \<or> disclaimedAt s (at_of f) \<noteq> None then []
     else [(f, wantedAt s (at_of f))])"

lemmas plan_pairs = patch_pairs_def clear_pairs_def disclaim_pairs_def open_entries_def change_pairs_def
  held_patch_def held_disclaim_def held_depart_def standing_key_def moved_from_def

lemma plan_wanted_fields:
  "patching (plan_wanted run w held heldAt e p) = grouping (patch_pairs w held e) (patching p)"
  "clearing (plan_wanted run w held heldAt e p) = grouping (clear_pairs w held e) (clearing p)"
  "disclaiming_by (plan_wanted run w held heldAt e p) = grouping (disclaim_pairs w held e) (disclaiming_by p)"
  "plan_opening (plan_wanted run w held heldAt e p) = plan_opening p @ open_entries w held heldAt e"
  "updates (plan_wanted run w held heldAt e p) = fold add_change (change_pairs run w held e) (updates p)"
  "departing (plan_wanted run w held heldAt e p) = departing p"
  by (auto simp: plan_wanted_def plan_pairs grouping_def add_change_def Let_def
      split: prod.splits option.splits if_splits)

lemma plan_held_fields:
  "patching (plan_held w s e p) = grouping (held_patch w s e) (patching p)"
  "clearing (plan_held w s e p) = clearing p"
  "disclaiming_by (plan_held w s e p) = grouping (held_disclaim w s e) (disclaiming_by p)"
  "plan_opening (plan_held w s e p) = plan_opening p"
  "updates (plan_held w s e p) = updates p"
  "departing (plan_held w s e p) = departing p @ held_depart w s e"
  "arrivedPatched (plan_held w s e p) = arrivedPatched p"
  "arrivedCleared (plan_held w s e p) = arrivedCleared p"
  "arrivedDisclaimed (plan_held w s e p) = arrivedDisclaimed p"
  "updated (plan_held w s e p) = updated p"
  "suppressed (plan_held w s e p) = suppressed p"
  by (auto simp: plan_held_def plan_pairs grouping_def split: prod.splits option.splits)

lemma grouping_append: "grouping (xs @ ys) m = grouping ys (grouping xs m)"
  by (simp add: grouping_def)

lemma fold_wanted_fields:
  "patching (fold (plan_wanted run w held heldAt) vs p) = grouping (concat (map (patch_pairs w held) vs)) (patching p)"
  "clearing (fold (plan_wanted run w held heldAt) vs p) = grouping (concat (map (clear_pairs w held) vs)) (clearing p)"
  "disclaiming_by (fold (plan_wanted run w held heldAt) vs p) = grouping (concat (map (disclaim_pairs w held) vs)) (disclaiming_by p)"
  "plan_opening (fold (plan_wanted run w held heldAt) vs p) = plan_opening p @ concat (map (open_entries w held heldAt) vs)"
  "updates (fold (plan_wanted run w held heldAt) vs p) = fold add_change (concat (map (change_pairs run w held) vs)) (updates p)"
  "departing (fold (plan_wanted run w held heldAt) vs p) = departing p"
  by (induction vs arbitrary: p) (simp_all add: plan_wanted_fields grouping_append, simp_all add: grouping_def)

lemma fold_held_fields:
  "patching (fold (plan_held w s) hs p) = grouping (concat (map (held_patch w s) hs)) (patching p)"
  "clearing (fold (plan_held w s) hs p) = clearing p"
  "disclaiming_by (fold (plan_held w s) hs p) = grouping (concat (map (held_disclaim w s) hs)) (disclaiming_by p)"
  "plan_opening (fold (plan_held w s) hs p) = plan_opening p"
  "updates (fold (plan_held w s) hs p) = updates p"
  "departing (fold (plan_held w s) hs p) = departing p @ concat (map (held_depart w s) hs)"
  "arrivedPatched (fold (plan_held w s) hs p) = arrivedPatched p"
  "arrivedCleared (fold (plan_held w s) hs p) = arrivedCleared p"
  "arrivedDisclaimed (fold (plan_held w s) hs p) = arrivedDisclaimed p"
  by (induction hs arbitrary: p) (simp_all add: plan_held_fields grouping_append, simp_all add: grouping_def)

subsection \<open>Every held row is planned for by its fate\<close>

text \<open>Ranging over a map visits its entries, each once, in some order.\<close>

definition visits_ok :: "applyRun \<Rightarrow> bool" where
  "visits_ok run \<longleftrightarrow> (\<forall>n m. mset (visits run n m) = mset m)"

lemma visits_set: "visits_ok run \<Longrightarrow> set (visits run n m) = set m"
  by (metis visits_ok_def set_mset_mset)

definition there :: "applyRun \<Rightarrow> wantedSet \<Rightarrow> stillThere" where
  "there run w = fold (still_there w) (visits run 1 (wanted_findings w)) nothing_there"

lemma diffOpen_fields:
  "patching (diffOpen run w held heldAt) = grouping
     (concat (map (patch_pairs w held) (visits run 0 (wanted_findings w))) @ concat (map (held_patch w (there run w)) (visits run 2 held))) []"
  "clearing (diffOpen run w held heldAt) = grouping (concat (map (clear_pairs w held) (visits run 0 (wanted_findings w)))) []"
  "disclaiming_by (diffOpen run w held heldAt) = grouping
     (concat (map (disclaim_pairs w held) (visits run 0 (wanted_findings w))) @ concat (map (held_disclaim w (there run w)) (visits run 2 held))) []"
  "plan_opening (diffOpen run w held heldAt) = concat (map (open_entries w held heldAt) (visits run 0 (wanted_findings w)))"
  "updates (diffOpen run w held heldAt) = fold add_change (concat (map (change_pairs run w held) (visits run 0 (wanted_findings w)))) []"
  "departing (diffOpen run w held heldAt) = concat (map (held_depart w (there run w)) (visits run 2 held))"
  by (simp_all add: diffOpen_def there_def Let_def fold_held_fields fold_wanted_fields empty_plan_def grouping_append)

lemma entry_mem:
  assumes "wanted_ok run w" and "visits_ok run"
  shows "(k, f) \<in> set (visits run n (wanted_findings w)) \<longleftrightarrow> map_of (wanted_findings w) k = Some f"
  using assms by (auto simp: visits_set wanted_ok_def dest: map_of_SomeD)

lemma pair_mem:
  assumes "held_ok held"
  shows "(c, n) \<in> set (patch_pairs w held (k, f)) \<longleftrightarrow>
      patched w k \<and> (\<exists>a. (k, a) \<in> set held \<and> f_ID a = n) \<and> c = patching_claim f"
    "(l, n) \<in> set (clear_pairs w held (k, f)) \<longleftrightarrow>
      \<not> patched w k \<and> cleared w k \<noteq> [] \<and> (\<exists>a. (k, a) \<in> set held \<and> f_ID a = n) \<and> l = cleared w k"
    "(c, n) \<in> set (disclaim_pairs w held (k, f)) \<longleftrightarrow>
      \<not> patched w k \<and> cleared w k = [] \<and> (\<exists>a. (k, a) \<in> set held \<and> f_ID a = n) \<and> disclaimed w k = Some c"
    "(m, n, u) \<in> set (change_pairs run w held (k, f)) \<longleftrightarrow>
      standing_key w k \<and> (\<exists>a. (k, a) \<in> set held \<and> f_ID a = n \<and> m = change_of run w k a f) \<and> changes m \<and> u = f_Urgency f"
    "(c, n) \<in> set (held_patch w s (k, a)) \<longleftrightarrow>
      map_of (wanted_findings w) k = None \<and> patchedAt s (at_of a) = Some c \<and> n = f_ID a"
    "(c, n) \<in> set (held_disclaim w s (k, a)) \<longleftrightarrow>
      map_of (wanted_findings w) k = None \<and> patchedAt s (at_of a) = None \<and> disclaimedAt s (at_of a) = Some c \<and> n = f_ID a"
proof -
  have h: "(k, b) \<in> set held \<longleftrightarrow> map_of held k = Some b" for b
    by (rule held_okD(1) [OF assms, symmetric])
  have some: "(\<exists>a. (k, a) \<in> set held \<and> P a) \<longleftrightarrow> (case map_of held k of Some a \<Rightarrow> P a | None \<Rightarrow> False)" for P
  proof (cases "map_of held k")
    case None show ?thesis unfolding h None by (simp only: option.case option.distinct(1) simp_thms)
  next
    case (Some a0) show ?thesis unfolding h Some option.case option.inject by blast
  qed
  show "(c, n) \<in> set (patch_pairs w held (k, f)) \<longleftrightarrow>
      patched w k \<and> (\<exists>a. (k, a) \<in> set held \<and> f_ID a = n) \<and> c = patching_claim f"
    unfolding some patch_pairs_def prod.case by (cases "map_of held k"; cases "patched w k"; simp; blast)
  show "(l, n) \<in> set (clear_pairs w held (k, f)) \<longleftrightarrow>
      \<not> patched w k \<and> cleared w k \<noteq> [] \<and> (\<exists>a. (k, a) \<in> set held \<and> f_ID a = n) \<and> l = cleared w k"
    unfolding some clear_pairs_def prod.case
    by (cases "map_of held k"; cases "patched w k"; cases "cleared w k"; simp; blast)
  show "(c, n) \<in> set (disclaim_pairs w held (k, f)) \<longleftrightarrow>
      \<not> patched w k \<and> cleared w k = [] \<and> (\<exists>a. (k, a) \<in> set held \<and> f_ID a = n) \<and> disclaimed w k = Some c"
    unfolding some disclaim_pairs_def prod.case by (cases "map_of held k"; cases "disclaimed w k"; cases "patched w k"; cases "cleared w k"; simp; blast)
  show "(m, n, u) \<in> set (change_pairs run w held (k, f)) \<longleftrightarrow>
      standing_key w k \<and> (\<exists>a. (k, a) \<in> set held \<and> f_ID a = n \<and> m = change_of run w k a f) \<and> changes m \<and> u = f_Urgency f"
    unfolding some change_pairs_def prod.case Let_def
    by (cases "map_of held k"; cases "standing_key w k"; simp; blast)
  show "(c, n) \<in> set (held_patch w s (k, a)) \<longleftrightarrow>
      map_of (wanted_findings w) k = None \<and> patchedAt s (at_of a) = Some c \<and> n = f_ID a"
    by (auto simp: held_patch_def split: option.splits)
  show "(c, n) \<in> set (held_disclaim w s (k, a)) \<longleftrightarrow>
      map_of (wanted_findings w) k = None \<and> patchedAt s (at_of a) = None \<and> disclaimedAt s (at_of a) = Some c \<and> n = f_ID a"
    by (auto simp: held_disclaim_def split: option.splits)
qed

lemma fate_mem:
  "fate_of run w s k a = Patches c \<longleftrightarrow>
     (\<exists>f. map_of (wanted_findings w) k = Some f \<and> patched w k \<and> c = patching_claim f)
   \<or> map_of (wanted_findings w) k = None \<and> patchedAt s (at_of a) = Some c"
  "fate_of run w s k a = Clears l \<longleftrightarrow>
     (\<exists>f. map_of (wanted_findings w) k = Some f) \<and> \<not> patched w k \<and> cleared w k \<noteq> [] \<and> l = cleared w k"
  "fate_of run w s k a = Disclaims c \<longleftrightarrow>
     (\<exists>f. map_of (wanted_findings w) k = Some f) \<and> \<not> patched w k \<and> cleared w k = [] \<and> disclaimed w k = Some c
   \<or> map_of (wanted_findings w) k = None \<and> patchedAt s (at_of a) = None \<and> disclaimedAt s (at_of a) = Some c"
  "fate_of run w s k a = Changes m u \<longleftrightarrow>
     (\<exists>f. map_of (wanted_findings w) k = Some f \<and> m = change_of run w k a f \<and> u = f_Urgency f)
     \<and> standing_key w k \<and> changes m"
  "fate_of run w s k a = Departs b \<longleftrightarrow>
     map_of (wanted_findings w) k = None \<and> patchedAt s (at_of a) = None \<and> disclaimedAt s (at_of a) = None
     \<and> b = wantedAt s (at_of a)"
  "fate_of run w s k a = Stays \<longleftrightarrow>
     (\<exists>f. map_of (wanted_findings w) k = Some f \<and> \<not> changes (change_of run w k a f)) \<and> standing_key w k"
  by (auto simp: fate_of_def standing_key_def Let_def split: option.splits)

lemma patching_fate:
  assumes "wanted_ok run w" and "held_ok held" and "visits_ok run"
  shows "(c, n) \<in> set (concat (map (patch_pairs w held) (visits run 0 (wanted_findings w))) @ concat (map (held_patch w (there run w)) (visits run 2 held)))
    \<longleftrightarrow> (\<exists>k f. (k, f) \<in> set held \<and> f_ID f = n \<and> fate_of run w (there run w) k f = Patches c)" (is "?l \<longleftrightarrow> ?r")
proof -
  have "?l \<longleftrightarrow> (\<exists>k f. (k, f) \<in> set (visits run 0 (wanted_findings w)) \<and> (c, n) \<in> set (patch_pairs w held (k, f)))
      \<or> (\<exists>k f. (k, f) \<in> set (visits run 2 held) \<and> (c, n) \<in> set (held_patch w (there run w) (k, f)))"
    by auto
  also have "\<dots> \<longleftrightarrow> ?r"
    unfolding entry_mem [OF assms(1,3)] visits_set [OF assms(3), of 2] pair_mem [OF assms(2)] fate_mem by blast
  finally show ?thesis .
qed

lemma clearing_fate:
  assumes "wanted_ok run w" and "held_ok held" and "visits_ok run"
  shows "(c, n) \<in> set (concat (map (clear_pairs w held) (visits run 0 (wanted_findings w))))
    \<longleftrightarrow> (\<exists>k f. (k, f) \<in> set held \<and> f_ID f = n \<and> fate_of run w (there run w) k f = Clears c)" (is "?l \<longleftrightarrow> ?r")
proof -
  have "?l \<longleftrightarrow> (\<exists>k f. (k, f) \<in> set (visits run 0 (wanted_findings w)) \<and> (c, n) \<in> set (clear_pairs w held (k, f)))"
    by auto
  also have "\<dots> \<longleftrightarrow> ?r"
    unfolding entry_mem [OF assms(1,3)] pair_mem [OF assms(2)] fate_mem by blast
  finally show ?thesis .
qed

lemma disclaiming_fate:
  assumes "wanted_ok run w" and "held_ok held" and "visits_ok run"
  shows "(c, n) \<in> set (concat (map (disclaim_pairs w held) (visits run 0 (wanted_findings w))) @ concat (map (held_disclaim w (there run w)) (visits run 2 held)))
    \<longleftrightarrow> (\<exists>k f. (k, f) \<in> set held \<and> f_ID f = n \<and> fate_of run w (there run w) k f = Disclaims c)" (is "?l \<longleftrightarrow> ?r")
proof -
  have "?l \<longleftrightarrow> (\<exists>k f. (k, f) \<in> set (visits run 0 (wanted_findings w)) \<and> (c, n) \<in> set (disclaim_pairs w held (k, f)))
      \<or> (\<exists>k f. (k, f) \<in> set (visits run 2 held) \<and> (c, n) \<in> set (held_disclaim w (there run w) (k, f)))"
    by auto
  also have "\<dots> \<longleftrightarrow> ?r"
    unfolding entry_mem [OF assms(1,3)] visits_set [OF assms(3), of 2] pair_mem [OF assms(2)] fate_mem by blast
  finally show ?thesis .
qed

lemma departing_fate:
  assumes "visits_ok run"
  shows "(f, b) \<in> set (departing (diffOpen run w held heldAt))
    \<longleftrightarrow> (\<exists>k. (k, f) \<in> set held \<and> fate_of run w (there run w) k f = Departs b)"
proof -
  have "(f, b) \<in> set (departing (diffOpen run w held heldAt)) \<longleftrightarrow>
      (\<exists>k f'. (k, f') \<in> set held \<and> (f, b) \<in> set (held_depart w (there run w) (k, f')))"
    unfolding diffOpen_fields set_concat set_map visits_set [OF assms] by auto
  also have "\<dots> \<longleftrightarrow> (\<exists>k. (k, f) \<in> set held \<and> fate_of run w (there run w) k f = Departs b)"
    unfolding fate_mem by (auto simp: held_depart_def split: if_splits)
  finally show ?thesis .
qed

lemma changing_fate:
  assumes "wanted_ok run w" and "held_ok held" and "visits_ok run"
  shows "(m, n, urgency) \<in> set (concat (map (change_pairs run w held) (visits run 0 (wanted_findings w))))
    \<longleftrightarrow> (\<exists>k f. (k, f) \<in> set held \<and> f_ID f = n \<and> fate_of run w (there run w) k f = Changes m urgency)" (is "?l \<longleftrightarrow> ?r")
proof -
  have "?l \<longleftrightarrow> (\<exists>k f. (k, f) \<in> set (visits run 0 (wanted_findings w)) \<and> (m, n, urgency) \<in> set (change_pairs run w held (k, f)))"
    by auto
  also have "\<dots> \<longleftrightarrow> ?r"
    unfolding entry_mem [OF assms(1,3)] pair_mem [OF assms(2)] fate_mem by blast
  finally show ?thesis .
qed

lemma opening_entries:
  assumes "wanted_ok run w" and "visits_ok run"
  shows "(f, moved) \<in> set (plan_opening (diffOpen run w held heldAt)) \<longleftrightarrow>
    (\<exists>k. map_of (wanted_findings w) k = Some f \<and> standing_key w k \<and> map_of held k = None \<and> moved = moved_from heldAt f)"
proof -
  have "(f, moved) \<in> set (plan_opening (diffOpen run w held heldAt)) \<longleftrightarrow>
      (\<exists>k f'. (k, f') \<in> set (visits run 0 (wanted_findings w)) \<and> (f, moved) \<in> set (open_entries w held heldAt (k, f')))"
    unfolding diffOpen_fields by auto
  also have "\<dots> \<longleftrightarrow> (\<exists>k. map_of (wanted_findings w) k = Some f \<and> standing_key w k \<and> map_of held k = None \<and> moved = moved_from heldAt f)"
    unfolding entry_mem [OF assms] by (auto simp: open_entries_def split: if_splits)
  finally show ?thesis .
qed

lemma opening_distinct:
  assumes "wanted_ok run w" and "visits_ok run"
  shows "distinct (map (key_of \<circ> fst) (plan_opening (diffOpen run w held heldAt)))"
proof -
  have eq: "map (key_of \<circ> fst) (concat (map (open_entries w held heldAt) vs))
      = map fst (filter (\<lambda>(k, f). standing_key w k \<and> map_of held k = None) vs)"
    if "\<forall>(k, f) \<in> set vs. key_of f = k" for vs
    using that by (induction vs) (force simp: open_entries_def)+
  have keys: "\<forall>(k, f) \<in> set (visits run 0 (wanted_findings w)). key_of f = k"
    using assms by (auto simp: visits_set wanted_ok_def)
  have "mset (map fst (visits run 0 (wanted_findings w))) = mset (map fst (wanted_findings w))"
    using assms(2) by (simp add: visits_ok_def)
  then have "distinct (map fst (visits run 0 (wanted_findings w)))"
    using assms(1) mset_eq_imp_distinct_iff unfolding wanted_ok_def by blast
  then show ?thesis unfolding diffOpen_fields eq [OF keys] by (simp add: distinct_map_filter)
qed


subsection \<open>Updates are grouped without loss\<close>

definition group_ok :: "(changeKey \<times> moving) list \<Rightarrow> bool" where
  "group_ok us \<longleftrightarrow> distinct (map fst us)
     \<and> (\<forall>(ck, m) \<in> set us. change_key m = ck \<and> length (m_ids m) = length (m_urgencies m))"

lemma change_key_add [simp]: "change_key (add_id n u m) = change_key m"
  by (simp add: change_key_def add_id_def Let_def)

lemma add_change_ok:
  assumes "group_ok us" and "m_ids (fst c) = []" and "m_urgencies (fst c) = []"
  shows "group_ok (add_change c us)"
proof -
  obtain change n u where c: "c = (change, n, u)" by (cases c)
  let ?g = "case map_of us (change_key change) of Some g \<Rightarrow> g | None \<Rightarrow> change"
  have g: "change_key ?g = change_key change \<and> length (m_ids ?g) = length (m_urgencies ?g)"
    using assms by (cases "map_of us (change_key change)") (auto simp: group_ok_def c dest!: map_of_SomeD)
  have d: "distinct (map fst us)" using assms(1) by (simp add: group_ok_def)
  show ?thesis
    unfolding group_ok_def add_change_def c prod.case
  proof (intro conjI ballI)
    show "distinct (map fst (AList.update (change_key change) (add_id n u ?g) us))" by (rule distinct_update [OF d])
    fix x assume x: "x \<in> set (AList.update (change_key change) (add_id n u ?g) us)"
    obtain ck m where xe: "x = (ck, m)" by fastforce
    from update_old [OF d x [unfolded xe]] assms(1) g
    show "case x of (ck, m) \<Rightarrow> change_key m = ck \<and> length (m_ids m) = length (m_urgencies m)"
      unfolding xe by (auto simp: group_ok_def add_id_def change_key_add [unfolded add_id_def])
  qed
qed

definition zipped :: "(changeKey \<times> moving) list \<Rightarrow> (changeKey \<times> (int \<times> int) list) list" where
  "zipped us = map (\<lambda>(ck, m). (ck, zip (m_ids m) (m_urgencies m))) us"

lemma map_update: "map (\<lambda>(k, m). (k, h m)) (AList.update k x us) = AList.update k (h x) (map (\<lambda>(k, m). (k, h m)) us)"
  by (induction us) auto

lemma zipped_add:
  assumes "group_ok us" and "m_ids change = []" and "m_urgencies change = []"
  shows "zipped (add_change (change, n, u) us) = append_at (change_key change) (n, u) (zipped us)"
proof (cases "map_of us (change_key change)")
  case None
  have "map_of (zipped us) (change_key change) = None" unfolding zipped_def using None
    by (simp add: map_of_eq_None_iff image_image split_beta)
  then show ?thesis using None assms(2,3)
    by (simp add: add_change_def zipped_def map_update append_at_def at_key_def add_id_def)
next
  case (Some g)
  then have l: "length (m_ids g) = length (m_urgencies g)" using assms(1) by (auto simp: group_ok_def dest!: map_of_SomeD)
  have "map_of (zipped us) (change_key change) = Some (zip (m_ids g) (m_urgencies g))"
    unfolding zipped_def using Some by (simp add: map_of_map)
  then show ?thesis using Some l
    by (simp add: add_change_def zipped_def map_update append_at_def at_key_def add_id_def)
qed

lemma fold_add_change:
  assumes "group_ok us" and "\<forall>c \<in> set cs. m_ids (fst c) = [] \<and> m_urgencies (fst c) = []"
  shows "group_ok (fold add_change cs us)
    \<and> zipped (fold add_change cs us) = grouping (map (\<lambda>(m, e). (change_key m, e)) cs) (zipped us)"
  using assms
proof (induction cs arbitrary: us)
  case (Cons c cs)
  obtain change n u where c: "c = (change, n, u)" by (cases c)
  have ok: "group_ok (add_change c us)" using Cons.prems add_change_ok by simp
  have z: "zipped (add_change c us) = append_at (change_key change) (n, u) (zipped us)"
    unfolding c using Cons.prems by (intro zipped_add) (auto simp: c)
  show ?case using Cons.IH [OF ok] Cons.prems(2) by (simp add: z grouping_def) (simp add: c)
qed (simp add: grouping_def)

end
