(* ===== verification/Finding_Rows.thy ===== *)
theory Finding_Rows
  imports Finding_Diff
begin

section \<open>The table after a plan is written\<close>

subsection \<open>Each write as statements\<close>

lemma set_parts_id [simp]:
  "f_ID (set_described m r) = f_ID r" "f_ID (set_order m r) = f_ID r" "f_ID (set_learned m r) = f_ID r"
  "f_ID (set_clock m r) = f_ID r"
  by (simp_all add: set_described_def set_order_def set_learned_def set_clock_def Let_def)

lemma set_moving_id [simp]: "f_ID (set_moving m r) = f_ID r"
  by (simp add: set_moving_def)

lemma change_key_parts:
  "ck_described (change_key m) = m_described m"
  "ck_moved (change_key m) = m_moved m"
  "ck_exploitationMoved (change_key m) = m_exploitationMoved m"
  "ck_clockMoved (change_key m) = m_clockMoved m"
  "ck_rankExploited (change_key m) = (m_moved m \<and> f_RankExploited (m_f m))"
  "ck_rankShipped (change_key m) = (m_moved m \<and> f_RankShipped (m_f m))"
  "m_exploitationMoved m \<Longrightarrow> ck_learned (change_key m) = m_learned m"
  "m_clockMoved m \<Longrightarrow> ck_dueAt (change_key m) = f_DueAt (m_f m)"
  "m_described m \<Longrightarrow> ck_answered_by (change_key m) = (f_SuppressedBy (m_f m), f_StatedBy (m_f m), f_ClaimedBy (m_f m))"
  "m_described m \<Longrightarrow> ck_described_as (change_key m) = (f_FixState (m_f m), f_FixedIn (m_f m), f_FixedAt (m_f m),
     f_Matched (m_f m), f_MatchedFrom (m_f m), f_MatchedIn (m_f m), f_MatchedRange (m_f m))"
  by (simp_all add: change_key_def Let_def)

text \<open>
  Two updates writing the same values write the same to a row, where they give it the same order:
  a group can carry the values of whichever finding it was made for.
\<close>

lemma set_moving_cong:
  assumes k: "change_key m = change_key m'"
    and o': "map_of (zip (m_ids m) (m_urgencies m)) (f_ID r) = map_of (zip (m_ids m') (m_urgencies m')) (f_ID r)"
  shows "set_moving m r = set_moving m' r"
proof -
  note part = change_key_parts(1-4) [of m, unfolded k change_key_parts(1-4)]
  have d: "set_described m x = set_described m' x" for x
  proof (cases "m_described m")
    case True
    with part(1) have t: "m_described m'" by simp
    show ?thesis
      using change_key_parts(9,10) [OF True, unfolded k] change_key_parts(9,10) [OF t] True t
      by (simp add: set_described_def Let_def)
  next
    case False with part(1) show ?thesis by (simp add: set_described_def)
  qed
  have l: "set_learned m x = set_learned m' x" for x
    using part(3) change_key_parts(7) [of m, unfolded k] change_key_parts(7) [of m'] by (simp add: set_learned_def)
  have c: "set_clock m x = set_clock m' x" for x
    using part(4) change_key_parts(8) [of m, unfolded k] change_key_parts(8) [of m'] by (simp add: set_clock_def)
  have "set_order m x = set_order m' x" if "f_ID x = f_ID r" for x
    using part(2) change_key_parts(5,6) [of m, unfolded k change_key_parts(5,6)] o' that
    by (cases "m_moved m") (simp_all add: set_order_def)
  then have "set_order m (set_described m' r) = set_order m' (set_described m' r)" by simp
  then show ?thesis unfolding set_moving_def d l c by simp
qed

lemma update_group_eq:
  assumes "distinct (map fst (concat bs))"
  shows "update_group m bs t = t\<lparr>rows := map (\<lambda>r. if f_ID r \<in> fst ` set (concat bs)
      then set_moving (m\<lparr>m_ids := map fst (concat bs), m_urgencies := map snd (concat bs)\<rparr>) r else r) (rows t)\<rparr>"
  using assms
proof (induction bs arbitrary: t)
  case Nil then show ?case by simp
next
  case (Cons b bs)
  let ?mb = "m\<lparr>m_ids := map fst b, m_urgencies := map snd b\<rparr>"
  let ?mr = "m\<lparr>m_ids := map fst (concat bs), m_urgencies := map snd (concat bs)\<rparr>"
  let ?mz = "m\<lparr>m_ids := map fst (concat (b # bs)), m_urgencies := map snd (concat (b # bs))\<rparr>"
  have k: "change_key ?mb = change_key ?mz" "change_key ?mr = change_key ?mz"
    by (simp_all add: change_key_def Let_def)
  have z: "zip (map fst xs) (map snd xs) = xs" for xs :: "(int \<times> int) list"
    by (induction xs) auto
  have d: "distinct (map fst b)" "distinct (map fst (concat bs))" "fst ` set b \<inter> fst ` set (concat bs) = {}"
    using Cons.prems by auto
  have first: "set_moving ?mb r = set_moving ?mz r" if "f_ID r \<in> fst ` set b" for r
  proof (rule set_moving_cong [OF k(1)])
    have "f_ID r \<notin> fst ` set (concat bs)" using that d(3) by blast
    then have "map_of (concat bs) (f_ID r) = None" by (simp add: map_of_eq_None_iff)
    then show "map_of (zip (m_ids ?mb) (m_urgencies ?mb)) (f_ID r) = map_of (zip (m_ids ?mz) (m_urgencies ?mz)) (f_ID r)"
      by (simp add: z map_add_def split: option.splits)
  qed
  have later: "set_moving ?mr r = set_moving ?mz r" if "f_ID r \<notin> fst ` set b" for r
  proof (rule set_moving_cong [OF k(2)])
    have "map_of b (f_ID r) = None" using that by (simp add: map_of_eq_None_iff)
    then show "map_of (zip (m_ids ?mr) (m_urgencies ?mr)) (f_ID r) = map_of (zip (m_ids ?mz) (m_urgencies ?mz)) (f_ID r)"
      by (simp add: z map_add_def split: option.splits)
  qed
  have row: "(if f_ID r' \<in> fst ` set (concat bs) then set_moving ?mr r' else r')
      = (if f_ID r \<in> fst ` set (concat (b # bs)) then set_moving ?mz r else r)"
    if "r' = (if f_ID r \<in> set (map fst b) then set_moving ?mb r else r)" for r r'
  proof (cases "f_ID r \<in> fst ` set b")
    case True
    then have "r' = set_moving ?mz r" using that first by simp
    moreover have "f_ID r \<notin> fst ` set (concat bs)" using True d(3) by blast
    ultimately show ?thesis using True by auto
  next
    case False then show ?thesis using that later by auto
  qed
  show ?case
    using Cons.IH [OF d(2)] row
    by (simp add: set_where_def comp_def del: concat.simps)
qed

lemma update_moved_eq:
  assumes "distinct (m_ids m)" and "length (m_ids m) = length (m_urgencies m)"
  shows "update_moved m t = t\<lparr>rows := map (through [(m_ids m, set_moving m)]) (rows t)\<rparr>"
proof -
  let ?z = "zip (m_ids m) (m_urgencies m)"
  have c: "concat (batches_of BatchSize ?z) = ?z" by (rule concat_batches_of) (simp add: BatchSize_def)
  have f: "map fst ?z = m_ids m" "map snd ?z = m_urgencies m" using assms(2) by simp_all
  have s: "fst ` set ?z = set (m_ids m)" using f(1) by (metis set_map)
  have "update_moved m t = t\<lparr>rows := map (\<lambda>r. if f_ID r \<in> set (m_ids m)
      then set_moving (m\<lparr>m_ids := m_ids m, m_urgencies := m_urgencies m\<rparr>) r else r) (rows t)\<rparr>"
    using update_group_eq [of "batches_of BatchSize ?z" m t] assms(1) unfolding update_moved_def c f s by simp
  then show ?thesis by (simp add: through_def on_row_def)
qed

definition update_statements :: "(changeKey \<times> moving) list \<Rightarrow> statement list" where
  "update_statements us = map (\<lambda>(_, m). (m_ids m, set_moving m)) us"

lemma fold_update_moved:
  assumes "\<forall>(ck, m) \<in> set us. distinct (m_ids m) \<and> length (m_ids m) = length (m_urgencies m)"
  shows "fold (\<lambda>(_, m). update_moved m) us t = t\<lparr>rows := map (through (update_statements us)) (rows t)\<rparr>"
  using assms
proof (induction us arbitrary: t)
  case Nil then show ?case by (simp add: update_statements_def)
next
  case (Cons u us)
  obtain ck m where u: "u = (ck, m)" by fastforce
  have m: "update_moved m t = t\<lparr>rows := map (through [(m_ids m, set_moving m)]) (rows t)\<rparr>"
    by (rule update_moved_eq) (use Cons.prems u in auto)
  show ?case using Cons.IH Cons.prems
    by (simp add: u m update_statements_def) (simp add: through_def)
qed

lemma fold_update_findings:
  assumes "\<And>k r. f_ID (g k r) = f_ID r" and "\<And>k r. g k (g k r) = g k r"
  shows "fold (\<lambda>(k, ids). update_findings (g k) ids) m t = t\<lparr>rows := map (through (group_statements g m)) (rows t)\<rparr>"
proof (induction m arbitrary: t)
  case Nil then show ?case by (simp add: group_statements_def)
next
  case (Cons e m)
  obtain k ids where e: "e = (k, ids)" by fastforce
  have u: "update_findings (g k) ids t = t\<lparr>rows := map (through [(ids, g k)]) (rows t)\<rparr>"
    by (rule update_findings_through [of "g k", OF assms])
  show ?case using Cons.IH by (simp add: e u group_statements_def) (simp add: through_def)
qed

text \<open>What each closing writes beside the closing itself.\<close>

definition rest_departed :: "Closure \<times> string \<Rightarrow> Finding \<Rightarrow> Finding" where
  "rest_departed d r = r\<lparr>f_StatedBy := None, f_MovedTo := snd d\<rparr>"

definition rest_cleared :: "string \<Rightarrow> Finding \<Rightarrow> Finding" where
  "rest_cleared lines r = r\<lparr>f_StatedBy := None, f_MovedTo := [], f_UnaffectedBy := lines\<rparr>"

definition rest_disclaimed :: "int \<Rightarrow> Finding \<Rightarrow> Finding" where
  "rest_disclaimed statement r = r\<lparr>f_MovedTo := [], f_StatedBy := Some statement\<rparr>"

definition rest_patched :: "int \<Rightarrow> Finding \<Rightarrow> Finding" where
  "rest_patched claimID r = r\<lparr>f_StatedBy := None, f_MovedTo := [], f_SuppressedBy := Some claimID, f_ClaimedBy := Some claimID\<rparr>"

lemmas rests = rest_departed_def rest_cleared_def rest_disclaimed_def rest_patched_def

lemma closing_laws:
  "f_ID (close_row run (fst d) (rest_departed d) r) = f_ID r"
  "f_ID (close_row run reason (rest_cleared l) r) = f_ID r"
  "f_ID (close_row run reason (rest_disclaimed c) r) = f_ID r"
  "f_ID (close_row run reason (rest_patched c) r) = f_ID r"
  "close_row run (fst d) (rest_departed d) (close_row run (fst d) (rest_departed d) r) = close_row run (fst d) (rest_departed d) r"
  "close_row run reason (rest_cleared l) (close_row run reason (rest_cleared l) r) = close_row run reason (rest_cleared l) r"
  "close_row run reason (rest_disclaimed c) (close_row run reason (rest_disclaimed c) r) = close_row run reason (rest_disclaimed c) r"
  "close_row run reason (rest_patched c) (close_row run reason (rest_patched c) r) = close_row run reason (rest_patched c) r"
  by (simp_all add: close_row_def rests)

lemma snd_closings:
  "snd (fold (close_departed run) ds s) = fold (\<lambda>(d, ids). update_findings (close_row run (fst d) (rest_departed d)) ids) ds (snd s)"
  "snd (fold (close_cleared run) cs s) = fold (\<lambda>(l, ids). update_findings (close_row run Unaffected (rest_cleared l)) ids) cs (snd s)"
  "snd (fold (close_disclaimed run) xs s) = fold (\<lambda>(c, ids). update_findings (close_row run Disclaimed (rest_disclaimed c)) ids) xs (snd s)"
  "snd (fold (close_patched run) xs s) = fold (\<lambda>(c, ids). update_findings (close_row run Patched (rest_patched c)) ids) xs (snd s)"
proof -
  show "snd (fold (close_departed run) ds s) = fold (\<lambda>(d, ids). update_findings (close_row run (fst d) (rest_departed d)) ids) ds (snd s)"
    by (induction ds arbitrary: s)
      (auto simp: close_departed_def closeIDs_def Let_def rest_departed_def [abs_def] split: prod.splits)
  show "snd (fold (close_cleared run) cs s) = fold (\<lambda>(l, ids). update_findings (close_row run Unaffected (rest_cleared l)) ids) cs (snd s)"
    by (induction cs arbitrary: s)
      (auto simp: close_cleared_def closeIDs_def Let_def rest_cleared_def [abs_def] split: prod.splits)
  show "snd (fold (close_disclaimed run) xs s) = fold (\<lambda>(c, ids). update_findings (close_row run Disclaimed (rest_disclaimed c)) ids) xs (snd s)"
    by (induction xs arbitrary: s)
      (auto simp: close_disclaimed_def closeIDs_def Let_def rest_disclaimed_def [abs_def] split: prod.splits)
  show "snd (fold (close_patched run) xs s) = fold (\<lambda>(c, ids). update_findings (close_row run Patched (rest_patched c)) ids) xs (snd s)"
    by (induction xs arbitrary: s)
      (auto simp: close_patched_def closeIDs_def Let_def rest_patched_def [abs_def] split: prod.splits)
qed

definition departure_statements :: "applyRun \<Rightarrow> ((Closure \<times> string) \<times> int list) list \<Rightarrow> statement list" where
  "departure_statements run = group_statements (\<lambda>d. close_row run (fst d) (rest_departed d))"

definition clearing_statements :: "applyRun \<Rightarrow> (string \<times> int list) list \<Rightarrow> statement list" where
  "clearing_statements run = group_statements (\<lambda>l. close_row run Unaffected (rest_cleared l))"

definition disclaiming_statements :: "applyRun \<Rightarrow> (int \<times> int list) list \<Rightarrow> statement list" where
  "disclaiming_statements run = group_statements (\<lambda>c. close_row run Disclaimed (rest_disclaimed c))"

definition patching_statements :: "applyRun \<Rightarrow> (int \<times> int list) list \<Rightarrow> statement list" where
  "patching_statements run = group_statements (\<lambda>c. close_row run Patched (rest_patched c))"

definition closing_statements :: "applyRun \<Rightarrow> applyPlan \<Rightarrow> statement list" where
  "closing_statements run plan = departure_statements run (departures_by_reason run (departing plan))
     @ clearing_statements run (clearing plan) @ disclaiming_statements run (disclaiming_by plan)
     @ patching_statements run (patching plan)"

lemma closings_rows:
  "snd (fold (close_patched run) (patching plan) (fold (close_disclaimed run) (disclaiming_by plan)
     (fold (close_cleared run) (clearing plan) (fold (close_departed run) (departures_by_reason run (departing plan)) s))))
   = (snd s)\<lparr>rows := map (through (closing_statements run plan)) (rows (snd s))\<rparr>"
  unfolding snd_closings closing_statements_def departure_statements_def clearing_statements_def
    disclaiming_statements_def patching_statements_def
  by (simp add: fold_update_findings [of "\<lambda>d. close_row run (fst d) (rest_departed d)"]
      fold_update_findings [of "\<lambda>l. close_row run Unaffected (rest_cleared l)"]
      fold_update_findings [of "\<lambda>c. close_row run Disclaimed (rest_disclaimed c)"]
      fold_update_findings [of "\<lambda>c. close_row run Patched (rest_patched c)"] closing_laws)


subsection \<open>Rows recorded closed\<close>

definition arrivals :: "applyRun \<Rightarrow> 'by arrivedAs \<Rightarrow> (key \<times> Finding) list \<Rightarrow> (key \<rightharpoonup> Finding) \<Rightarrow> key list \<Rightarrow> Finding list" where
  "arrivals run how want latest ks = map (\<lambda>k. recorded_closed run how k (the (map_of want k)))
     (filter (\<lambda>k. case latest k of None \<Rightarrow> True | Some was \<Rightarrow> f_ClosedBecause was \<noteq> as_reason how) ks)"

definition repoints :: "'by arrivedAs \<Rightarrow> (key \<rightharpoonup> Finding) \<Rightarrow> key list \<Rightarrow> ('by \<times> int) list" where
  "repoints how latest ks = concat (map (\<lambda>k. case latest k of None \<Rightarrow> []
     | Some was \<Rightarrow> if f_ClosedBecause was = as_reason how \<and> \<not> as_same how was (as_by how k)
         then [(as_by how k, f_ID was)] else []) ks)"

lemma sort_arrived_eq:
  "sort_arrived run how want latest ks rec rep
    = (rec @ arrivals run how want latest ks, grouping (repoints how latest ks) rep)"
  by (induction ks arbitrary: rec rep)
    (auto simp: arrivals_def repoints_def grouping_def Let_def split: option.splits)

lemma recordArrived_eq:
  assumes "\<And>b r. f_ID (as_repoint how b r) = f_ID r" and "\<And>b r. as_repoint how b (as_repoint how b r) = as_repoint how b r"
  shows "recordArrived run how want latest ks t =
    (length (arrivals run how want latest ks),
     t\<lparr>rows := map (through (group_statements (as_repoint how) (grouping (repoints how latest ks) [])))
          (rows t @ numbered (next_finding t) (arrivals run how want latest ks)),
       next_finding := next_finding t + int (length (arrivals run how want latest ks))\<rparr>)"
  by (simp add: recordArrived_def sort_arrived_eq Let_def insert_findings_eq
      fold_update_findings [of "as_repoint how", OF assms])

lemma repoint_laws:
  "f_ID (as_repoint (as_patched want) c r) = f_ID r"
  "as_repoint (as_patched want) c (as_repoint (as_patched want) c r) = as_repoint (as_patched want) c r"
  "f_ID (as_repoint (as_cleared w) l r) = f_ID r"
  "as_repoint (as_cleared w) l (as_repoint (as_cleared w) l r) = as_repoint (as_cleared w) l r"
  "f_ID (as_repoint (as_disclaimed w) c r) = f_ID r"
  "as_repoint (as_disclaimed w) c (as_repoint (as_disclaimed w) c r) = as_repoint (as_disclaimed w) c r"
  by (simp_all add: as_patched_def as_cleared_def as_disclaimed_def)

lemma repoints_ids: "n \<in> snd ` set (repoints how latest ks) \<Longrightarrow> \<exists>k was. latest k = Some was \<and> f_ID was = n"
  by (auto simp: repoints_def split: option.splits if_splits) metis


subsection \<open>The whole write\<close>

definition updated_rows :: "applyPlan \<Rightarrow> Finding list \<Rightarrow> Finding list" where
  "updated_rows plan rs = map (through (update_statements (updates plan))) rs"

definition latest_at_write :: "applyRun \<Rightarrow> applyPlan \<Rightarrow> Finding list \<Rightarrow> (key \<rightharpoonup> Finding) \<times> (at \<rightharpoonup> Finding)" where
  "latest_at_write run plan rs = latestClosed run (plan_issues plan) (updated_rows plan rs)"

definition repoint_statements :: "applyRun \<Rightarrow> wantedSet \<Rightarrow> applyPlan \<Rightarrow> Finding list \<Rightarrow> statement list" where
  "repoint_statements run w plan rs = (let latest = fst (latest_at_write run plan rs); want = wanted_findings w in
     group_statements (as_repoint (as_patched want)) (grouping (repoints (as_patched want) latest (arrivedPatched plan)) [])
   @ group_statements (as_repoint (as_cleared w)) (grouping (repoints (as_cleared w) latest (arrivedCleared plan)) [])
   @ group_statements (as_repoint (as_disclaimed w)) (grouping (repoints (as_disclaimed w) latest (arrivedDisclaimed plan)) []))"

definition new_rows :: "applyRun \<Rightarrow> wantedSet \<Rightarrow> applyPlan \<Rightarrow> Finding list \<Rightarrow> Finding list" where
  "new_rows run w plan rs = (let (latest, latestAt) = latest_at_write run plan rs; want = wanted_findings w in
     map (arrived_from run latestAt) (plan_opening plan)
   @ arrivals run (as_patched want) want latest (arrivedPatched plan)
   @ arrivals run (as_cleared w) want latest (arrivedCleared plan)
   @ arrivals run (as_disclaimed w) want latest (arrivedDisclaimed plan))"

definition row_statements :: "applyRun \<Rightarrow> wantedSet \<Rightarrow> applyPlan \<Rightarrow> Finding list \<Rightarrow> statement list" where
  "row_statements run w plan rs =
     update_statements (updates plan) @ repoint_statements run w plan rs @ closing_statements run plan"

lemma writePlan_rows:
  assumes "\<forall>(ck, m) \<in> set (updates plan). distinct (m_ids m) \<and> length (m_ids m) = length (m_urgencies m)"
    and "\<And>n. n \<in> names (repoint_statements run w plan (rows t)) \<Longrightarrow> n < next_finding t"
    and "\<And>n. n \<in> names (closing_statements run plan) \<Longrightarrow> n < next_finding t"
  shows "snd (writePlan run w plan t) =
    t\<lparr>rows := map (through (row_statements run w plan (rows t))) (rows t)
         @ numbered (next_finding t) (new_rows run w plan (rows t)),
      next_finding := next_finding t + int (length (new_rows run w plan (rows t)))\<rparr>"
proof -
  obtain latest latestAt where l: "latestClosed run (plan_issues plan) (updated_rows plan (rows t)) = (latest, latestAt)"
    by fastforce
  let ?N = "next_finding t"
  let ?want = "wanted_findings w"
  let ?opens = "map (arrived_from run latestAt) (plan_opening plan)"
  let ?P = "arrivals run (as_patched ?want) ?want latest (arrivedPatched plan)"
  let ?C = "arrivals run (as_cleared w) ?want latest (arrivedCleared plan)"
  let ?D = "arrivals run (as_disclaimed w) ?want latest (arrivedDisclaimed plan)"
  let ?rp = "group_statements (as_repoint (as_patched ?want)) (grouping (repoints (as_patched ?want) latest (arrivedPatched plan)) [])"
  let ?rc = "group_statements (as_repoint (as_cleared w)) (grouping (repoints (as_cleared w) latest (arrivedCleared plan)) [])"
  let ?rd = "group_statements (as_repoint (as_disclaimed w)) (grouping (repoints (as_disclaimed w) latest (arrivedDisclaimed plan)) [])"
  have rps: "repoint_statements run w plan (rows t) = ?rp @ ?rc @ ?rd"
    by (simp add: repoint_statements_def latest_at_write_def l Let_def)
  have news: "new_rows run w plan (rows t) = ?opens @ ?P @ ?C @ ?D"
    by (simp add: new_rows_def latest_at_write_def l Let_def)
  have small: "n \<in> names ?rp \<or> n \<in> names ?rc \<or> n \<in> names ?rd \<Longrightarrow> n < ?N" for n
    using assms(2) [of n] unfolding rps by auto
  have small_rp: "n \<in> names ?rp \<Longrightarrow> n < ?N + int a" and small_rc: "n \<in> names ?rc \<Longrightarrow> n < ?N + int a"
    and small_rd: "n \<in> names ?rd \<Longrightarrow> n < ?N + int a" and small_cl: "n \<in> names (closing_statements run plan) \<Longrightarrow> n < ?N + int a" for n a
    using small [of n] assms(3) [of n] by auto
  have t1: "fold (\<lambda>(_, m). update_moved m) (updates plan) t = t\<lparr>rows := updated_rows plan (rows t)\<rparr>"
    by (simp add: fold_update_moved [OF assms(1)] updated_rows_def)
  define U where "U = updated_rows plan (rows t)"
  have keep: "map (through ss) (numbered (?N + int a) fs) = numbered (?N + int a) fs"
    if "\<And>n. n \<in> names ss \<Longrightarrow> n < ?N + int a" for ss fs and a :: nat
    by (rule through_numbered) (rule that)
  have keep0: "map (through ss) (numbered ?N fs) = numbered ?N fs"
    if "\<And>n. n \<in> names ss \<Longrightarrow> n < ?N" for ss fs
    by (rule through_numbered) (rule that)
  have m1: "map (through ?rp) (U @ numbered ?N (?opens @ ?P)) = map (through ?rp) U @ numbered ?N (?opens @ ?P)"
    using keep0 [of ?rp "?opens @ ?P"] small by (simp del: map_append add: map_append [of _ U])
  have m2: "map (through ?rc) (numbered ?N (?opens @ ?P @ ?C)) = numbered ?N (?opens @ ?P @ ?C)"
    using keep0 [of ?rc] small by blast
  have m3: "map (through ?rd) (numbered ?N (?opens @ ?P @ ?C @ ?D)) = numbered ?N (?opens @ ?P @ ?C @ ?D)"
    using keep0 [of ?rd] small by blast
  have m4: "map (through (closing_statements run plan)) (numbered ?N (?opens @ ?P @ ?C @ ?D)) = numbered ?N (?opens @ ?P @ ?C @ ?D)"
    using keep0 [of "closing_statements run plan"] assms(3) by blast
  let ?t2 = "insert_findings ?opens (t\<lparr>rows := U\<rparr>)"
  have t2: "?t2 = t\<lparr>rows := U @ numbered ?N ?opens, next_finding := ?N + int (length ?opens)\<rparr>"
    by (simp add: insert_findings_eq)
  let ?t3 = "snd (recordArrived run (as_patched ?want) ?want latest (arrivedPatched plan) ?t2)"
  have t3: "?t3 = t\<lparr>rows := map (through ?rp) U @ numbered ?N (?opens @ ?P), next_finding := ?N + int (length (?opens @ ?P))\<rparr>"
    unfolding t2 recordArrived_eq [of "as_patched ?want", OF repoint_laws(1,2)]
    using m1 by (simp add: findings_numbered_append)
  let ?t4 = "snd (recordArrived run (as_cleared w) ?want latest (arrivedCleared plan) ?t3)"
  have t4: "?t4 = t\<lparr>rows := map (through ?rc) (map (through ?rp) U) @ numbered ?N (?opens @ ?P @ ?C),
      next_finding := ?N + int (length (?opens @ ?P @ ?C))\<rparr>"
    unfolding t3 recordArrived_eq [of "as_cleared w", OF repoint_laws(3,4)]
    using m2 by (simp add: findings_numbered_append algebra_simps)
  let ?t5 = "snd (recordArrived run (as_disclaimed w) ?want latest (arrivedDisclaimed plan) ?t4)"
  have t5: "?t5 = t\<lparr>rows := map (through ?rd) (map (through ?rc) (map (through ?rp) U)) @ numbered ?N (?opens @ ?P @ ?C @ ?D),
      next_finding := ?N + int (length (?opens @ ?P @ ?C @ ?D))\<rparr>"
    unfolding t4 recordArrived_eq [of "as_disclaimed w", OF repoint_laws(5,6)]
    using m3 by (simp add: findings_numbered_append algebra_simps)
  have all: "snd (writePlan run w plan t) = ?t5\<lparr>rows := map (through (closing_statements run plan)) (rows ?t5)\<rparr>"
    unfolding writePlan_def t1 Let_def
    by (simp add: l U_def split_beta closings_rows)
  show ?thesis
    unfolding all t5 news
    by (simp add: m4 [simplified] row_statements_def rps U_def updated_rows_def comp_def)
qed

end
