(* ===== verification/Finding_After.thy ===== *)
theory Finding_After
  imports Finding_Rows
begin

section \<open>Each row after a scan is applied\<close>

text \<open>
  The rows of the table after \<open>Apply\<close>: a held row has passed through what its fate asks and nothing
  else, a closed row of the build was at most pointed at what closes it now, every other row is as
  it was, and the rows inserted are the findings that open and those recorded closed on sight.
\<close>

subsection \<open>Which rows the statements name\<close>

definition differs :: "applyRun \<Rightarrow> wantedSet \<Rightarrow> findings \<Rightarrow> applyPlan" where
  "differs run w t = (let (held, heldAt) = heldOpen (buildID run) (rows t) in diffOpen run w held heldAt)"

definition held_at_key :: "applyRun \<Rightarrow> findings \<Rightarrow> (key \<times> Finding) list" where
  "held_at_key run t = fst (heldOpen (buildID run) (rows t))"

definition my_fate :: "applyRun \<Rightarrow> wantedSet \<Rightarrow> Finding \<Rightarrow> fate" where
  "my_fate run w f = fate_of run w (there run w) (key_of f) f"

text \<open>What a scan is applied under: an order of ranging, findings wanted, a table in order.\<close>

definition applying :: "applyRun \<Rightarrow> wantedSet \<Rightarrow> findings \<Rightarrow> bool" where
  "applying run w t \<longleftrightarrow> visits_ok run \<and> wanted_ok run w \<and> table_ok t"

lemma applyingD:
  assumes "applying run w t"
  shows "visits_ok run" "wanted_ok run w" "table_ok t" "held_ok (held_at_key run t)"
    "(k, f) \<in> set (held_at_key run t) \<longleftrightarrow> f \<in> set (held_rows (buildID run) (rows t)) \<and> k = key_of f"
proof -
  show v: "visits_ok run" "wanted_ok run w" and t: "table_ok t" using assms by (auto simp: applying_def)
  show "held_ok (held_at_key run t)" unfolding held_at_key_def by (rule heldOpen_ok [OF t])
  show "(k, f) \<in> set (held_at_key run t) \<longleftrightarrow> f \<in> set (held_rows (buildID run) (rows t)) \<and> k = key_of f"
    unfolding held_at_key_def held_list [OF t] by auto
qed

lemma differs_eq: "differs run w t = diffOpen run w (held_at_key run t) (snd (heldOpen (buildID run) (rows t)))"
  by (simp add: differs_def held_at_key_def split_beta)

lemma fate_pairs:
  assumes "applying run w t"
  shows "(c, n) \<in> set (concat (map (patch_pairs w (held_at_key run t)) (visits run 0 (wanted_findings w)))
        @ concat (map (held_patch w (there run w)) (visits run 2 (held_at_key run t))))
      \<longleftrightarrow> (\<exists>f \<in> set (held_rows (buildID run) (rows t)). f_ID f = n \<and> my_fate run w f = Patches c)"
    "(l, n) \<in> set (concat (map (clear_pairs w (held_at_key run t)) (visits run 0 (wanted_findings w))))
      \<longleftrightarrow> (\<exists>f \<in> set (held_rows (buildID run) (rows t)). f_ID f = n \<and> my_fate run w f = Clears l)"
    "(c, n) \<in> set (concat (map (disclaim_pairs w (held_at_key run t)) (visits run 0 (wanted_findings w)))
        @ concat (map (held_disclaim w (there run w)) (visits run 2 (held_at_key run t))))
      \<longleftrightarrow> (\<exists>f \<in> set (held_rows (buildID run) (rows t)). f_ID f = n \<and> my_fate run w f = Disclaims c)"
    "(m, n, u) \<in> set (concat (map (change_pairs run w (held_at_key run t)) (visits run 0 (wanted_findings w))))
      \<longleftrightarrow> (\<exists>f \<in> set (held_rows (buildID run) (rows t)). f_ID f = n \<and> my_fate run w f = Changes m u)"
    "(f, b) \<in> set (departing (differs run w t))
      \<longleftrightarrow> f \<in> set (held_rows (buildID run) (rows t)) \<and> my_fate run w f = Departs b"
  unfolding patching_fate [OF applyingD(2,4,1) [OF assms]] clearing_fate [OF applyingD(2,4,1) [OF assms]]
    disclaiming_fate [OF applyingD(2,4,1) [OF assms]] changing_fate [OF applyingD(2,4,1) [OF assms]]
    differs_eq departing_fate [OF applyingD(1) [OF assms]] applyingD(5) [OF assms] my_fate_def
  by blast+

lemma departures_grouping:
  "departures_by_reason run ds = grouping (map (\<lambda>d. (departure_reason run d, f_ID (fst d))) ds) []"
  by (simp add: departures_by_reason_def grouping_def fold_map comp_def)

lemma held_id:
  assumes "applying run w t" and "f \<in> set (held_rows (buildID run) (rows t))" and "r \<in> set (rows t)" and "f_ID r = f_ID f"
  shows "r = f"
proof -
  have "f \<in> set (rows t)" using assms(2) by (simp add: held_rows_def)
  then show ?thesis using assms applyingD(3) [OF assms(1)] by (auto simp: table_ok_def distinct_map inj_on_def)
qed

lemma id_small: "applying run w t \<Longrightarrow> r \<in> set (rows t) \<Longrightarrow> f_ID r < next_finding t"
  by (auto simp: applying_def table_ok_def)

text \<open>The statements that close, each under the fate it belongs to.\<close>

lemma closing_names:
  assumes "applying run w t"
  shows "names (departure_statements run (departures_by_reason run (departing (differs run w t))))
      = {n. \<exists>f \<in> set (held_rows (buildID run) (rows t)). f_ID f = n \<and> (\<exists>b. my_fate run w f = Departs b)}"
    "names (clearing_statements run (clearing (differs run w t)))
      = {n. \<exists>f \<in> set (held_rows (buildID run) (rows t)). f_ID f = n \<and> (\<exists>l. my_fate run w f = Clears l)}"
    "names (disclaiming_statements run (disclaiming_by (differs run w t)))
      = {n. \<exists>f \<in> set (held_rows (buildID run) (rows t)). f_ID f = n \<and> (\<exists>c. my_fate run w f = Disclaims c)}"
    "names (patching_statements run (patching (differs run w t)))
      = {n. \<exists>f \<in> set (held_rows (buildID run) (rows t)). f_ID f = n \<and> (\<exists>c. my_fate run w f = Patches c)}"
proof -
  have img: "snd ` set ps = {n. \<exists>k. (k, n) \<in> set ps}" for ps :: "('k \<times> int) list"
    by force
  show "names (departure_statements run (departures_by_reason run (departing (differs run w t))))
      = {n. \<exists>f \<in> set (held_rows (buildID run) (rows t)). f_ID f = n \<and> (\<exists>b. my_fate run w f = Departs b)}"
    unfolding departure_statements_def departures_grouping names_groups set_map image_image snd_conv
  proof (rule set_eqI, rule iffI)
    fix n assume "n \<in> (\<lambda>x. f_ID (fst x)) ` set (departing (differs run w t))"
    then obtain f b where "(f, b) \<in> set (departing (differs run w t))" "n = f_ID f" by (metis imageE prod.collapse)
    then show "n \<in> {n. \<exists>f \<in> set (held_rows (buildID run) (rows t)). f_ID f = n \<and> (\<exists>b. my_fate run w f = Departs b)}"
      unfolding fate_pairs(5) [OF assms] by blast
  next
    fix n assume "n \<in> {n. \<exists>f \<in> set (held_rows (buildID run) (rows t)). f_ID f = n \<and> (\<exists>b. my_fate run w f = Departs b)}"
    then obtain f b where "(f, b) \<in> set (departing (differs run w t))" "f_ID f = n"
      unfolding fate_pairs(5) [OF assms] by blast
    then show "n \<in> (\<lambda>x. f_ID (fst x)) ` set (departing (differs run w t))" by (metis fst_conv imageI)
  qed
  show "names (clearing_statements run (clearing (differs run w t)))
      = {n. \<exists>f \<in> set (held_rows (buildID run) (rows t)). f_ID f = n \<and> (\<exists>l. my_fate run w f = Clears l)}"
    unfolding clearing_statements_def differs_eq diffOpen_fields names_groups img fate_pairs(2) [OF assms] by blast
  show "names (disclaiming_statements run (disclaiming_by (differs run w t)))
      = {n. \<exists>f \<in> set (held_rows (buildID run) (rows t)). f_ID f = n \<and> (\<exists>c. my_fate run w f = Disclaims c)}"
    unfolding disclaiming_statements_def differs_eq diffOpen_fields names_groups img fate_pairs(3) [OF assms] by blast
  show "names (patching_statements run (patching (differs run w t)))
      = {n. \<exists>f \<in> set (held_rows (buildID run) (rows t)). f_ID f = n \<and> (\<exists>c. my_fate run w f = Patches c)}"
    unfolding patching_statements_def differs_eq diffOpen_fields names_groups img fate_pairs(1) [OF assms] by blast
qed


subsection \<open>The updates\<close>

lemma change_of_ids: "m_ids (change_of run w k a f) = []" "m_urgencies (change_of run w k a f) = []"
  by (simp_all add: change_of_def split_beta Let_def)

lemma fate_changes_ids: "my_fate run w f = Changes m u \<Longrightarrow> m_ids m = [] \<and> m_urgencies m = []"
  unfolding my_fate_def fate_mem by (auto simp: change_of_ids)

lemma updates_grouped:
  assumes "applying run w t"
  defines "us \<equiv> updates (differs run w t)"
  defines "cs \<equiv> concat (map (change_pairs run w (held_at_key run t)) (visits run 0 (wanted_findings w)))"
  shows "group_ok us" and "zipped us = grouping (map (\<lambda>(m, e). (change_key m, e)) cs) []"
proof -
  have us: "us = fold add_change cs []" unfolding us_def cs_def differs_eq diffOpen_fields ..
  have "\<forall>c \<in> set cs. m_ids (fst c) = [] \<and> m_urgencies (fst c) = []"
  proof
    fix c assume c: "c \<in> set cs"
    obtain m n u where e: "c = (m, n, u)" by (cases c)
    then obtain f where "my_fate run w f = Changes m u"
      using c fate_pairs(4) [OF assms(1), of m n u] unfolding cs_def by blast
    then show "m_ids (fst c) = [] \<and> m_urgencies (fst c) = []" using fate_changes_ids e by auto
  qed
  moreover have "group_ok []" by (simp add: group_ok_def)
  ultimately have "group_ok us \<and> zipped us = grouping (map (\<lambda>(m, e). (change_key m, e)) cs) (zipped [])"
    unfolding us by (intro fold_add_change)
  then show "group_ok us" and "zipped us = grouping (map (\<lambda>(m, e). (change_key m, e)) cs) []"
    by (simp_all add: zipped_def)
qed

lemma first_image: "(c, e) \<in> set (map (\<lambda>(m, e). (h m, e)) cs) \<longleftrightarrow> (\<exists>m. (m, e) \<in> set cs \<and> h m = c)"
  by force

lemma update_mem:
  assumes "applying run w t" and "(ck, m) \<in> set (updates (differs run w t))"
  shows "(n, u) \<in> set (zip (m_ids m) (m_urgencies m)) \<longleftrightarrow>
    (\<exists>f \<in> set (held_rows (buildID run) (rows t)). f_ID f = n \<and> (\<exists>m'. my_fate run w f = Changes m' u \<and> change_key m' = ck))"
    and "change_key m = ck" and "length (m_ids m) = length (m_urgencies m)"
proof -
  let ?us = "updates (differs run w t)"
  let ?cs = "concat (map (change_pairs run w (held_at_key run t)) (visits run 0 (wanted_findings w)))"
  note g = updates_grouped [OF assms(1)]
  show k: "change_key m = ck" and "length (m_ids m) = length (m_urgencies m)"
    using g(1) assms(2) by (auto simp: group_ok_def)
  have "(ck, zip (m_ids m) (m_urgencies m)) \<in> set (zipped ?us)" using assms(2) by (force simp: zipped_def)
  then have "(n, u) \<in> set (zip (m_ids m) (m_urgencies m)) \<longleftrightarrow> (ck, n, u) \<in> set (map (\<lambda>(m, e). (change_key m, e)) ?cs)"
    unfolding g(2) by (rule grouping_pairs)
  also have "\<dots> \<longleftrightarrow> (\<exists>m'. (m', n, u) \<in> set ?cs \<and> change_key m' = ck)" by (rule first_image)
  also have "\<dots> \<longleftrightarrow> (\<exists>f \<in> set (held_rows (buildID run) (rows t)). f_ID f = n \<and> (\<exists>m'. my_fate run w f = Changes m' u \<and> change_key m' = ck))"
    unfolding fate_pairs(4) [OF assms(1)] by blast
  finally show "(n, u) \<in> set (zip (m_ids m) (m_urgencies m)) \<longleftrightarrow>
    (\<exists>f \<in> set (held_rows (buildID run) (rows t)). f_ID f = n \<and> (\<exists>m'. my_fate run w f = Changes m' u \<and> change_key m' = ck))" .
qed

text \<open>No update names a row twice: a key is visited once and a row is held at one.\<close>

lemma distinct_map_concat:
  assumes "distinct (map fst vs)" and "\<And>e. e \<in> set vs \<Longrightarrow> length (g e) \<le> 1"
    and "\<And>e e' x x'. e \<in> set vs \<Longrightarrow> e' \<in> set vs \<Longrightarrow> x \<in> set (g e) \<Longrightarrow> x' \<in> set (g e') \<Longrightarrow> h x = h x' \<Longrightarrow> fst e = fst e'"
  shows "distinct (map h (concat (map g vs)))"
  using assms
proof (induction vs)
  case (Cons e vs)
  have "distinct (map h (concat (map g vs)))" using Cons.IH Cons.prems by auto
  moreover have "distinct (map h (g e))"
    using Cons.prems(2) [of e] by (cases "g e"; cases "tl (g e)") auto
  moreover have "h ` set (g e) \<inter> h ` set (concat (map g vs)) = {}"
  proof -
    have "fst e \<noteq> fst e'" if "e' \<in> set vs" for e' using Cons.prems(1) that by auto
    then have "h x \<noteq> h x'" if "x \<in> set (g e)" "e' \<in> set vs" "x' \<in> set (g e')" for x e' x'
      using Cons.prems(3) [of e e' x x'] that by auto
    then show ?thesis by fastforce
  qed
  ultimately show ?case by auto
qed simp

lemma visited_keys:
  assumes "applying run w t"
  shows "distinct (map fst (visits run n (wanted_findings w)))"
proof -
  have "mset (map fst (visits run n (wanted_findings w))) = mset (map fst (wanted_findings w))"
    using applyingD(1) [OF assms] by (simp add: visits_ok_def)
  then show ?thesis
    using applyingD(2) [OF assms] mset_eq_imp_distinct_iff unfolding wanted_ok_def by blast
qed

lemma update_distinct:
  assumes "applying run w t" and "(ck, m) \<in> set (updates (differs run w t))"
  shows "distinct (m_ids m)"
proof -
  let ?vs = "visits run 0 (wanted_findings w)"
  let ?held = "held_at_key run t"
  let ?cs = "concat (map (change_pairs run w ?held) ?vs)"
  note g = updates_grouped [OF assms(1)]
  have ids: "distinct (map (\<lambda>(m, n, u). n) ?cs)"
  proof (rule distinct_map_concat [OF visited_keys [OF assms(1)]])
    show "length (change_pairs run w ?held e) \<le> 1" for e
      by (auto simp: change_pairs_def Let_def split: prod.splits option.splits)
    fix e e' x x' assume x: "x \<in> set (change_pairs run w ?held e)" "x' \<in> set (change_pairs run w ?held e')"
      and eq: "(case x of (m, n, u) \<Rightarrow> n) = (case x' of (m, n, u) \<Rightarrow> n)"
    obtain k f where e: "e = (k, f)" by fastforce
    obtain k' f' where e': "e' = (k', f')" by fastforce
    obtain m n u where xe: "x = (m, n, u)" by (cases x)
    obtain m' n' u' where xe': "x' = (m', n', u')" by (cases x')
    from x(1) obtain a where a: "(k, a) \<in> set ?held" "f_ID a = n"
      unfolding e xe pair_mem(4) [OF applyingD(4) [OF assms(1)]] by blast
    from x(2) obtain a' where a': "(k', a') \<in> set ?held" "f_ID a' = n'"
      unfolding e' xe' pair_mem(4) [OF applyingD(4) [OF assms(1)]] by blast
    have "n = n'" using eq by (simp add: xe xe')
    then show "fst e = fst e'"
      using held_okD(3) [OF applyingD(4) [OF assms(1)] a(1) a'(1)] a(2) a'(2) by (simp add: e e')
  qed
  have mem: "(ck, zip (m_ids m) (m_urgencies m)) \<in> set (zipped (updates (differs run w t)))"
    using assms(2) by (force simp: zipped_def)
  have z: "zip (m_ids m) (m_urgencies m)
      = map snd (filter (\<lambda>p. fst p = ck) (map (\<lambda>(m, e). (change_key m, e)) ?cs))"
    using at_key_entry [OF grouping_distinct [of "[]"] mem [unfolded g(2)]] by (simp add: grouping_at)
  have "m_ids m = map fst (zip (m_ids m) (m_urgencies m))" using update_mem(3) [OF assms] by simp
  also have "\<dots> = map (\<lambda>(m, n, u). n) (filter (\<lambda>c. change_key (fst c) = ck) ?cs)"
    unfolding z filter_map map_map comp_def by (simp add: split_beta)
  finally show ?thesis using ids by (simp add: distinct_map_filter)
qed

lemma update_names:
  assumes "applying run w t"
  shows "names (update_statements (updates (differs run w t)))
      = {n. \<exists>f \<in> set (held_rows (buildID run) (rows t)). f_ID f = n \<and> (\<exists>m u. my_fate run w f = Changes m u)}"
proof (rule set_eqI, rule iffI)
  fix n assume "n \<in> names (update_statements (updates (differs run w t)))"
  then obtain ck m where m: "(ck, m) \<in> set (updates (differs run w t))" "n \<in> set (m_ids m)"
    by (auto simp: names_def update_statements_def)
  then obtain u where "(n, u) \<in> set (zip (m_ids m) (m_urgencies m))"
    using update_mem(3) [OF assms m(1)] by (metis in_set_impl_in_set_zip1)
  then show "n \<in> {n. \<exists>f \<in> set (held_rows (buildID run) (rows t)). f_ID f = n \<and> (\<exists>m u. my_fate run w f = Changes m u)}"
    using update_mem(1) [OF assms m(1)] by blast
next
  fix n assume "n \<in> {n. \<exists>f \<in> set (held_rows (buildID run) (rows t)). f_ID f = n \<and> (\<exists>m u. my_fate run w f = Changes m u)}"
  then obtain f m u where f: "f \<in> set (held_rows (buildID run) (rows t))" "f_ID f = n" "my_fate run w f = Changes m u" by blast
  let ?cs = "concat (map (change_pairs run w (held_at_key run t)) (visits run 0 (wanted_findings w)))"
  have "(m, n, u) \<in> set ?cs" unfolding fate_pairs(4) [OF assms] using f by blast
  then have "(change_key m, n, u) \<in> set (map (\<lambda>(m, e). (change_key m, e)) ?cs)" unfolding first_image by blast
  from grouping_mem [OF this] obtain xs where
    "(change_key m, xs) \<in> set (zipped (updates (differs run w t)))" "(n, u) \<in> set xs"
    unfolding updates_grouped(2) [OF assms] by blast
  then obtain m' where "(change_key m, m') \<in> set (updates (differs run w t))" "(n, u) \<in> set (zip (m_ids m') (m_urgencies m'))"
    by (auto simp: zipped_def)
  then show "n \<in> names (update_statements (updates (differs run w t)))"
    by (force simp: names_def update_statements_def dest: set_zip_leftD)
qed

text \<open>A row that changes gets what its own change writes, whichever finding its group was made for.\<close>

lemma through_updates:
  assumes "applying run w t" and "r \<in> set (held_rows (buildID run) (rows t))" and "my_fate run w r = Changes m u"
  shows "through (update_statements (updates (differs run w t))) r = set_moving (add_id (f_ID r) u m) r"
proof -
  let ?us = "updates (differs run w t)"
  have "f_ID r \<in> names (update_statements ?us)" unfolding update_names [OF assms(1)] using assms(2,3) by blast
  then obtain ck g where g: "(ck, g) \<in> set ?us" "f_ID r \<in> set (m_ids g)"
    by (auto simp: names_def update_statements_def)
  obtain u' where u': "(f_ID r, u') \<in> set (zip (m_ids g) (m_urgencies g))"
    using update_mem(3) [OF assms(1) g(1)] g(2) by (metis in_set_impl_in_set_zip1)
  have rt: "r \<in> set (rows t)" using assms(2) by (simp add: held_rows_def)
  have mine: "ck' = change_key m \<and> v = u" if mem: "(ck', g') \<in> set ?us" "(f_ID r, v) \<in> set (zip (m_ids g') (m_urgencies g'))" for ck' g' v
  proof -
    obtain f m' where f: "f \<in> set (held_rows (buildID run) (rows t))" "f_ID f = f_ID r"
        "my_fate run w f = Changes m' v" "change_key m' = ck'"
      using update_mem(1) [OF assms(1) mem(1)] mem(2) by blast
    have "r = f" using held_id [OF assms(1) f(1) rt] f(2) by simp
    then show ?thesis using f(3,4) assms(3) by simp
  qed
  have ck: "ck = change_key m" and u: "u' = u" using mine [OF g(1) u'] by auto
  have d: "distinct (map fst ?us)" using updates_grouped(1) [OF assms(1)] by (simp add: group_ok_def)
  obtain pre post where split: "?us = pre @ (ck, g) # post" using g(1) by (meson split_list)
  have none: "f_ID r \<notin> names (update_statements xs)" if xs: "xs = pre \<or> xs = post" for xs
  proof
    assume "f_ID r \<in> names (update_statements xs)"
    then obtain ck' g' where g': "(ck', g') \<in> set xs" "f_ID r \<in> set (m_ids g')"
      by (auto simp: names_def update_statements_def)
    have in_us: "(ck', g') \<in> set ?us" using g'(1) xs unfolding split by auto
    obtain v where "(f_ID r, v) \<in> set (zip (m_ids g') (m_urgencies g'))"
      using update_mem(3) [OF assms(1) in_us] g'(2) by (metis in_set_impl_in_set_zip1)
    then have "ck' = ck" using mine [OF in_us] ck by blast
    then show False using d g'(1) xs unfolding split by force
  qed
  have st: "update_statements ?us = update_statements pre @ (m_ids g, set_moving g) # update_statements post"
    unfolding split by (simp add: update_statements_def)
  have "through (update_statements ?us) r = set_moving g r"
    using through_one [OF st, of r] none g(2) by (simp add: keeps_id_def)
  also have "\<dots> = set_moving (add_id (f_ID r) u m) r"
  proof (rule set_moving_cong)
    show "change_key g = change_key (add_id (f_ID r) u m)" using update_mem(2) [OF assms(1) g(1)] ck by simp
    have "map_of (zip (m_ids g) (m_urgencies g)) (f_ID r) = Some u"
      using update_distinct [OF assms(1) g(1)] update_mem(3) [OF assms(1) g(1)] u' u by simp
    then show "map_of (zip (m_ids g) (m_urgencies g)) (f_ID r)
        = map_of (zip (m_ids (add_id (f_ID r) u m)) (m_urgencies (add_id (f_ID r) u m))) (f_ID r)"
      using fate_changes_ids [OF assms(3)] by (simp add: add_id_def)
  qed
  finally show ?thesis .
qed


subsection \<open>What each row becomes\<close>

definition after_fate :: "applyRun \<Rightarrow> Finding \<Rightarrow> fate \<Rightarrow> Finding" where
  "after_fate run r fate = (case fate of
     Stays \<Rightarrow> r
   | Changes m u \<Rightarrow> set_moving (add_id (f_ID r) u m) r
   | Patches c \<Rightarrow> close_row run Patched (rest_patched c) r
   | Clears lines \<Rightarrow> close_row run Unaffected (rest_cleared lines) r
   | Disclaims c \<Rightarrow> close_row run Disclaimed (rest_disclaimed c) r
   | Departs b \<Rightarrow> close_row run (fst (departure_reason run (r, b))) (rest_departed (departure_reason run (r, b))) r)"

lemma set_parts_keep:
  "key_of (set_moving m r) = key_of r" "at_of (set_moving m r) = at_of r"
  "governed b (set_moving m r) = governed b r" "is_open (set_moving m r) = is_open r"
  "f_VulnerabilityID (set_moving m r) = f_VulnerabilityID r"
  "f_OpenedAt (set_moving m r) = f_OpenedAt r" "f_ClosedAt (set_moving m r) = f_ClosedAt r"
  by (simp_all add: set_moving_def set_described_def set_order_def set_learned_def set_clock_def Let_def
      key_of_def at_of_def governed_def is_open_def)

lemma held_rowsD: "r \<in> set (held_rows build rs) \<longleftrightarrow> r \<in> set rs \<and> governed build r \<and> is_open r"
  by (auto simp: held_rows_def)

lemma updated_row:
  assumes "applying run w t" and "r \<in> set (rows t)"
  shows "through (update_statements (updates (differs run w t))) r = r
    \<or> r \<in> set (held_rows (buildID run) (rows t)) \<and> (\<exists>m. through (update_statements (updates (differs run w t))) r = set_moving m r)"
proof (cases "f_ID r \<in> names (update_statements (updates (differs run w t)))")
  case False then show ?thesis by (simp add: through_unnamed)
next
  case True
  then obtain f m u where f: "f \<in> set (held_rows (buildID run) (rows t))" "f_ID f = f_ID r" "my_fate run w f = Changes m u"
    unfolding update_names [OF assms(1)] by blast
  have "r = f" using held_id [OF assms(1) f(1) assms(2)] f(2) by simp
  then show ?thesis using f through_updates [OF assms(1) f(1,3)] by blast
qed

lemma closed_rows_updated:
  assumes "applying run w t"
  shows "closed_rows (buildID run) issues (updated_rows (differs run w t) (rows t)) = closed_rows (buildID run) issues (rows t)"
proof -
  let ?g = "through (update_statements (updates (differs run w t)))"
  let ?P = "\<lambda>f. governed (buildID run) f \<and> \<not> is_open f \<and> f_VulnerabilityID f \<in> set issues"
  have each: "?P (?g r) = ?P r \<and> (?P r \<longrightarrow> ?g r = r)" if r: "r \<in> set (rows t)" for r
    using updated_row [OF assms r] by (auto simp: set_parts_keep held_rowsD)
  have "filter ?P (map ?g rs) = filter ?P rs" if "\<And>r. r \<in> set rs \<Longrightarrow> ?P (?g r) = ?P r \<and> (?P r \<longrightarrow> ?g r = r)" for rs
    using that by (induction rs) auto
  then show ?thesis using each unfolding closed_rows_def updated_rows_def by blast
qed

lemma latest_row:
  assumes "applying run w t"
    and "fst (latest_at_write run (differs run w t) (rows t)) k = Some was
      \<or> snd (latest_at_write run (differs run w t) (rows t)) a = Some was"
  shows "was \<in> set (rows t) \<and> governed (buildID run) was \<and> \<not> is_open was"
proof -
  have "was \<in> set (latest_rows run (plan_issues (differs run w t)) (updated_rows (differs run w t) (rows t)))"
    using assms(2) by (auto simp: latest_at_write_def latestClosed_def dest!: map_of_SomeD)
  then have "was \<in> set (closed_rows (buildID run) (plan_issues (differs run w t)) (updated_rows (differs run w t) (rows t)))"
    by (auto simp: latest_rows_def Let_def)
  then show ?thesis unfolding closed_rows_updated [OF assms(1)] by (simp add: closed_rows_def)
qed

lemma repoint_names:
  assumes "applying run w t" and "n \<in> names (repoint_statements run w (differs run w t) (rows t))"
  shows "\<exists>was \<in> set (rows t). f_ID was = n \<and> governed (buildID run) was \<and> \<not> is_open was"
proof -
  let ?l = "fst (latest_at_write run (differs run w t) (rows t))"
  obtain k was where "?l k = Some was" "f_ID was = n"
    using assms(2) unfolding repoint_statements_def Let_def names_simps names_groups
    by (auto simp: image_iff dest!: repoints_ids [of _ _ ?l, OF image_eqI, rotated])
  then show ?thesis using latest_row [OF assms(1), of k was] by blast
qed

lemma held_after:
  assumes "applying run w t" and "r \<in> set (held_rows (buildID run) (rows t))"
  shows "through (row_statements run w (differs run w t) (rows t)) r = after_fate run r (my_fate run w r)"
proof -
  let ?p = "differs run w t"
  let ?held = "held_rows (buildID run) (rows t)"
  have rt: "r \<in> set (rows t)" and ro: "is_open r" using assms(2) by (auto simp: held_rowsD)
  have only: "f = r" if "f \<in> set ?held" "f_ID f = f_ID r" for f
    using held_id [OF assms(1) that(1) rt] that(2) by simp
  have rep: "f_ID r \<notin> names (repoint_statements run w ?p (rows t))"
  proof
    assume "f_ID r \<in> names (repoint_statements run w ?p (rows t))"
    then obtain was where "was \<in> set (rows t)" "f_ID was = f_ID r" "\<not> is_open was"
      using repoint_names [OF assms(1)] by blast
    then show False using held_id [OF assms(1,2)] ro by blast
  qed
  have named: "f_ID r \<in> names (update_statements (updates ?p)) \<longleftrightarrow> (\<exists>m u. my_fate run w r = Changes m u)"
    "f_ID r \<in> names (departure_statements run (departures_by_reason run (departing ?p))) \<longleftrightarrow> (\<exists>b. my_fate run w r = Departs b)"
    "f_ID r \<in> names (clearing_statements run (clearing ?p)) \<longleftrightarrow> (\<exists>l. my_fate run w r = Clears l)"
    "f_ID r \<in> names (disclaiming_statements run (disclaiming_by ?p)) \<longleftrightarrow> (\<exists>c. my_fate run w r = Disclaims c)"
    "f_ID r \<in> names (patching_statements run (patching ?p)) \<longleftrightarrow> (\<exists>c. my_fate run w r = Patches c)"
    unfolding update_names [OF assms(1)] closing_names [OF assms(1)] mem_Collect_eq
    using only assms(2) by blast+
  show ?thesis
  proof (cases "my_fate run w r")
    case Stays
    then show ?thesis
      by (simp add: row_statements_def closing_statements_def through_unnamed named rep after_fate_def)
  next
    case (Changes m u)
    have "through (update_statements (updates ?p)) r = set_moving (add_id (f_ID r) u m) r"
      by (rule through_updates [OF assms Changes])
    then show ?thesis using Changes
      by (simp add: row_statements_def closing_statements_def through_unnamed named rep after_fate_def)
  next
    case (Patches c)
    have "through (patching_statements run (patching ?p)) r = close_row run Patched (rest_patched c) r"
      unfolding patching_statements_def differs_eq diffOpen_fields
    proof (rule through_groups)
      show "(c, f_ID r) \<in> set (concat (map (patch_pairs w (held_at_key run t)) (visits run 0 (wanted_findings w)))
        @ concat (map (held_patch w (there run w)) (visits run 2 (held_at_key run t))))"
        unfolding fate_pairs(1) [OF assms(1)] using assms(2) Patches by blast
      show "k' = c" if "(k', f_ID r) \<in> set (concat (map (patch_pairs w (held_at_key run t)) (visits run 0 (wanted_findings w)))
        @ concat (map (held_patch w (there run w)) (visits run 2 (held_at_key run t))))" for k'
        using that only Patches unfolding fate_pairs(1) [OF assms(1)] by fastforce
    qed (rule closing_laws)
    then show ?thesis using Patches
      by (simp add: row_statements_def closing_statements_def through_unnamed named rep after_fate_def)
  next
    case (Clears l)
    have "through (clearing_statements run (clearing ?p)) r = close_row run Unaffected (rest_cleared l) r"
      unfolding clearing_statements_def differs_eq diffOpen_fields
    proof (rule through_groups)
      show "(l, f_ID r) \<in> set (concat (map (clear_pairs w (held_at_key run t)) (visits run 0 (wanted_findings w))))"
        unfolding fate_pairs(2) [OF assms(1)] using assms(2) Clears by blast
      show "k' = l" if "(k', f_ID r) \<in> set (concat (map (clear_pairs w (held_at_key run t)) (visits run 0 (wanted_findings w))))" for k'
        using that only Clears unfolding fate_pairs(2) [OF assms(1)] by fastforce
    qed (rule closing_laws)
    then show ?thesis using Clears
      by (simp add: row_statements_def closing_statements_def through_unnamed named rep after_fate_def
          close_row_def rest_cleared_def)
  next
    case (Disclaims c)
    have "through (disclaiming_statements run (disclaiming_by ?p)) r = close_row run Disclaimed (rest_disclaimed c) r"
      unfolding disclaiming_statements_def differs_eq diffOpen_fields
    proof (rule through_groups)
      show "(c, f_ID r) \<in> set (concat (map (disclaim_pairs w (held_at_key run t)) (visits run 0 (wanted_findings w)))
        @ concat (map (held_disclaim w (there run w)) (visits run 2 (held_at_key run t))))"
        unfolding fate_pairs(3) [OF assms(1)] using assms(2) Disclaims by blast
      show "k' = c" if "(k', f_ID r) \<in> set (concat (map (disclaim_pairs w (held_at_key run t)) (visits run 0 (wanted_findings w)))
        @ concat (map (held_disclaim w (there run w)) (visits run 2 (held_at_key run t))))" for k'
        using that only Disclaims unfolding fate_pairs(3) [OF assms(1)] by fastforce
    qed (rule closing_laws)
    then show ?thesis using Disclaims
      by (simp add: row_statements_def closing_statements_def through_unnamed named rep after_fate_def
          close_row_def rest_disclaimed_def)
  next
    case (Departs b)
    let ?d = "departure_reason run (r, b)"
    let ?ps = "map (\<lambda>d. (departure_reason run d, f_ID (fst d))) (departing ?p)"
    have "through (departure_statements run (departures_by_reason run (departing ?p))) r
        = close_row run (fst ?d) (rest_departed ?d) r"
      unfolding departure_statements_def departures_grouping
    proof (rule through_groups [of ?d r ?ps "\<lambda>d. close_row run (fst d) (rest_departed d)"])
      have "(r, b) \<in> set (departing ?p)" unfolding fate_pairs(5) [OF assms(1)] using assms(2) Departs by blast
      then show "(?d, f_ID r) \<in> set ?ps" by force
      fix k' assume "(k', f_ID r) \<in> set ?ps"
      then obtain f b' where f: "(f, b') \<in> set (departing ?p)" "k' = departure_reason run (f, b')" "f_ID f = f_ID r" by auto
      then have "f = r" using only unfolding fate_pairs(5) [OF assms(1)] by blast
      then show "k' = ?d" using f Departs unfolding fate_pairs(5) [OF assms(1)] by simp
    qed (rule closing_laws)
    then show ?thesis using Departs
      by (simp add: row_statements_def closing_statements_def through_unnamed named rep after_fate_def
          close_row_def rest_departed_def)
  qed
qed

text \<open>A closed row is at most pointed at what closes it now; nothing else of it ever moves.\<close>

definition pointed :: "Finding \<Rightarrow> Finding \<Rightarrow> bool" where
  "pointed r r' \<longleftrightarrow> r' = r\<lparr>f_SuppressedBy := f_SuppressedBy r', f_ClaimedBy := f_ClaimedBy r',
     f_UnaffectedBy := f_UnaffectedBy r', f_StatedBy := f_StatedBy r'\<rparr>"

lemma pointed_refl: "pointed r r" by (simp add: pointed_def)

lemma pointed_trans:
  assumes "pointed a b" and "pointed b c"
  shows "pointed a c"
proof -
  have "c = b\<lparr>f_SuppressedBy := f_SuppressedBy c, f_ClaimedBy := f_ClaimedBy c,
     f_UnaffectedBy := f_UnaffectedBy c, f_StatedBy := f_StatedBy c\<rparr>" using assms(2) by (simp add: pointed_def)
  also have "\<dots> = (a\<lparr>f_SuppressedBy := f_SuppressedBy b, f_ClaimedBy := f_ClaimedBy b,
     f_UnaffectedBy := f_UnaffectedBy b, f_StatedBy := f_StatedBy b\<rparr>)\<lparr>f_SuppressedBy := f_SuppressedBy c, f_ClaimedBy := f_ClaimedBy c,
     f_UnaffectedBy := f_UnaffectedBy c, f_StatedBy := f_StatedBy c\<rparr>"
    using arg_cong [OF assms(1) [unfolded pointed_def], of "\<lambda>x. x\<lparr>f_SuppressedBy := f_SuppressedBy c, f_ClaimedBy := f_ClaimedBy c,
     f_UnaffectedBy := f_UnaffectedBy c, f_StatedBy := f_StatedBy c\<rparr>"] .
  also have "\<dots> = a\<lparr>f_SuppressedBy := f_SuppressedBy c, f_ClaimedBy := f_ClaimedBy c,
     f_UnaffectedBy := f_UnaffectedBy c, f_StatedBy := f_StatedBy c\<rparr>" by simp
  finally show ?thesis unfolding pointed_def .
qed

lemma through_pointed:
  assumes "\<And>s r. s \<in> set ss \<Longrightarrow> pointed r (snd s r)"
  shows "pointed r (through ss r)"
  using assms
proof (induction ss arbitrary: r)
  case Nil then show ?case by (simp add: pointed_refl)
next
  case (Cons s ss)
  have "pointed r (on_row s r)" using Cons.prems [of s r] by (auto simp: on_row_def pointed_refl split: prod.splits)
  moreover have "pointed (on_row s r) (through ss (on_row s r))" by (rule Cons.IH) (use Cons.prems in auto)
  ultimately show ?case unfolding through_Cons by (rule pointed_trans)
qed

lemma repoints_pointed: "s \<in> set (repoint_statements run w plan rs) \<Longrightarrow> pointed r (snd s r)"
  by (auto simp: repoint_statements_def Let_def group_statements_def as_patched_def as_cleared_def
      as_disclaimed_def pointed_def)

lemma pointedD:
  assumes "pointed r r'"
  shows "f_ID r' = f_ID r" "is_open r' = is_open r" "f_ClosedAt r' = f_ClosedAt r"
    "f_ClosedBecause r' = f_ClosedBecause r" "f_ClosedRunID r' = f_ClosedRunID r"
  by (subst assms [unfolded pointed_def], simp add: is_open_def)+

definition row_after :: "applyRun \<Rightarrow> wantedSet \<Rightarrow> findings \<Rightarrow> Finding \<Rightarrow> Finding" where
  "row_after run w t r = through (row_statements run w (differs run w t) (rows t)) r"

lemma row_after_held:
  "applying run w t \<Longrightarrow> r \<in> set (held_rows (buildID run) (rows t)) \<Longrightarrow> row_after run w t r = after_fate run r (my_fate run w r)"
  unfolding row_after_def by (rule held_after)

lemma closing_small:
  assumes "applying run w t" and "n \<in> names (closing_statements run (differs run w t))"
  shows "\<exists>f \<in> set (held_rows (buildID run) (rows t)). f_ID f = n"
  using assms(2) unfolding closing_statements_def names_simps closing_names [OF assms(1)] by blast

lemma row_after_other:
  assumes "applying run w t" and "r \<in> set (rows t)" and "r \<notin> set (held_rows (buildID run) (rows t))"
  shows "pointed r (row_after run w t r)" and "\<not> governed (buildID run) r \<or> is_open r \<Longrightarrow> row_after run w t r = r"
proof -
  have u: "f_ID r \<notin> names (update_statements (updates (differs run w t)))"
    unfolding update_names [OF assms(1)] using held_id [OF assms(1) _ assms(2)] assms(3) by fastforce
  have c: "f_ID r \<notin> names (closing_statements run (differs run w t))"
    using closing_small [OF assms(1)] held_id [OF assms(1) _ assms(2)] assms(3) by fastforce
  let ?q = "through (repoint_statements run w (differs run w t) (rows t)) r"
  have p: "pointed r ?q" by (rule through_pointed) (rule repoints_pointed)
  have e: "row_after run w t r = ?q"
    using c pointedD(1) [OF p] by (simp add: row_after_def row_statements_def through_unnamed u)
  show "pointed r (row_after run w t r)" unfolding e by (rule p)
  show "row_after run w t r = r" if "\<not> governed (buildID run) r \<or> is_open r"
  proof -
    have "f_ID r \<notin> names (repoint_statements run w (differs run w t) (rows t))"
    proof
      assume "f_ID r \<in> names (repoint_statements run w (differs run w t) (rows t))"
      then obtain was where was: "was \<in> set (rows t)" "f_ID was = f_ID r" "governed (buildID run) was" "\<not> is_open was"
        using repoint_names [OF assms(1)] by blast
      have "was = r" using was(1,2) assms(1,2) by (auto simp: applying_def table_ok_def distinct_map inj_on_def)
      then show False using was that by blast
    qed
    then show ?thesis unfolding e by (rule through_unnamed)
  qed
qed

text \<open>What says where a row is and when it opened: no write touches any of it.\<close>

definition place_of :: "Finding \<Rightarrow> int \<times> key \<times> at \<times> int \<times> string \<times> int" where
  "place_of r = (f_ID r, key_of r, at_of r, f_BuildID r, f_Kind r, f_OpenedAt r)"

lemma place_eqD:
  assumes "place_of r = place_of r'"
  shows "f_ID r = f_ID r'" "key_of r = key_of r'" "at_of r = at_of r'" "governed b r = governed b r'"
    "f_OpenedAt r = f_OpenedAt r'" "f_BuildID r = f_BuildID r'"
  using assms by (simp_all add: place_of_def governed_def)

lemma place_set_parts:
  "place_of (set_described m r) = place_of r" "place_of (set_order m r) = place_of r"
  "place_of (set_learned m r) = place_of r" "place_of (set_clock m r) = place_of r"
  by (simp_all add: place_of_def set_described_def set_order_def set_learned_def set_clock_def Let_def key_of_def at_of_def)

lemma place_set_moving: "place_of (set_moving m r) = place_of r"
  by (simp add: set_moving_def place_set_parts)

lemma place_rests:
  "place_of (rest_departed d r) = place_of r" "place_of (rest_cleared l r) = place_of r"
  "place_of (rest_disclaimed c r) = place_of r" "place_of (rest_patched c r) = place_of r"
  by (simp_all add: place_of_def rests key_of_def at_of_def)

lemma place_close_row: "place_of (close_row run reason rest r) = place_of (rest r)"
  by (simp add: place_of_def close_row_def key_of_def at_of_def)

lemma place_after_fate: "place_of (after_fate run r f) = place_of r"
  by (cases f) (simp_all add: after_fate_def place_set_moving place_close_row place_rests)

lemma place_pointed: "pointed r r' \<Longrightarrow> place_of r' = place_of r"
  by (subst pointed_def [THEN iffD1], assumption) (simp add: place_of_def key_of_def at_of_def)

lemma place_row_after:
  assumes "applying run w t" and "r \<in> set (rows t)"
  shows "place_of (row_after run w t r) = place_of r"
  using row_after_held [OF assms(1)] row_after_other(1) [OF assms] place_after_fate place_pointed by metis

lemmas row_after_keeps = place_row_after [THEN place_eqD(1)] place_row_after [THEN place_eqD(2)]
  place_row_after [THEN place_eqD(3)] place_row_after [THEN place_eqD(4)] place_row_after [THEN place_eqD(5)]


subsection \<open>The table applied\<close>

definition inserted :: "applyRun \<Rightarrow> wantedSet \<Rightarrow> findings \<Rightarrow> Finding list" where
  "inserted run w t = new_rows run w (differs run w t) (rows t)"

definition applied_table :: "applyRun \<Rightarrow> wantedSet \<Rightarrow> findings \<Rightarrow> findings" where
  "applied_table run w t = t\<lparr>rows := map (row_after run w t) (rows t) @ numbered (next_finding t) (inserted run w t),
     next_finding := next_finding t + int (length (inserted run w t))\<rparr>"

lemma writePlan_applied:
  assumes "applying run w t"
  shows "snd (writePlan run w (differs run w t) t) = applied_table run w t"
  unfolding applied_table_def inserted_def row_after_def [abs_def]
proof (rule writePlan_rows)
  show "\<forall>(ck, m) \<in> set (updates (differs run w t)). distinct (m_ids m) \<and> length (m_ids m) = length (m_urgencies m)"
    using update_distinct [OF assms] update_mem(3) [OF assms] by blast
  show "n < next_finding t" if "n \<in> names (repoint_statements run w (differs run w t) (rows t))" for n
    using repoint_names [OF assms that] id_small [OF assms] by blast
  show "n < next_finding t" if "n \<in> names (closing_statements run (differs run w t))" for n
    using closing_small [OF assms that] id_small [OF assms] by (auto simp: held_rowsD)
qed

lemma Apply_applied:
  assumes "visits_ok run" and "table_ok t" and "Apply run reported t = Inr (a, t')"
  obtains w where "wanted run reported = Inr w" "applying run w t" "t' = applied_table run w t"
proof -
  obtain w where w: "wanted run reported = Inr w" using assms(3) by (auto simp: Apply_def split: sum.splits)
  have ap: "applying run w t" using assms(1,2) wanted_wanted_ok [OF w] by (simp add: applying_def)
  have "t' = snd (writePlan run w (differs run w t) t)"
    using assms(3) by (simp add: Apply_def w differs_def split_beta Let_def)
  then show ?thesis using that [OF w ap] writePlan_applied [OF ap] by simp
qed

end
