(* ===== verification/Finding_Apply_Props.thy ===== *)
theory Finding_Apply_Props
  imports Finding_After
begin

section \<open>What applying a scan leaves\<close>

subsection \<open>Open findings\<close>

lemma my_fate_open:
  "(my_fate run w r = Stays \<or> (\<exists>m u. my_fate run w r = Changes m u)) \<longleftrightarrow>
     map_of (wanted_findings w) (key_of r) \<noteq> None \<and> standing_key w (key_of r)"
  unfolding my_fate_def fate_mem by blast

lemma open_after_fate:
  "is_open (after_fate run r f) \<longleftrightarrow> is_open r \<and> (f = Stays \<or> (\<exists>m u. f = Changes m u))"
  by (cases f) (simp_all add: after_fate_def close_row_def is_open_def set_parts_keep set_parts_keep(4) [unfolded is_open_def])

lemma held_after_run:
  assumes "applying run w t" and "r \<in> set (rows t)"
  shows "governed (buildID run) (row_after run w t r) \<and> is_open (row_after run w t r) \<longleftrightarrow>
    governed (buildID run) r \<and> is_open r \<and> map_of (wanted_findings w) (key_of r) \<noteq> None \<and> standing_key w (key_of r)"
proof (cases "r \<in> set (held_rows (buildID run) (rows t))")
  case True
  then show ?thesis
    using row_after_keeps(4) [OF assms] row_after_held [OF assms(1) True] open_after_fate my_fate_open
    by (auto simp: held_rowsD)
next
  case False
  then show ?thesis
    using row_after_keeps(4) [OF assms] pointedD(2) [OF row_after_other(1) [OF assms False]] assms(2)
    by (auto simp: held_rowsD)
qed

lemma other_builds_after_run:
  assumes "applying run w t" and "r \<in> set (rows t)" and "build \<noteq> buildID run"
  shows "governed build r \<Longrightarrow> row_after run w t r = r"
  using row_after_other(2) [OF assms(1,2)] assms(3) by (auto simp: governed_def held_rowsD)

lemma arrived_from_place: "place_of (arrived_from run l (f, m)) = place_of f" "is_open (arrived_from run l (f, m)) = is_open f"
  by (auto simp: arrived_from_def place_of_def key_of_def at_of_def is_open_def Let_def split: option.splits)

lemma arrivals_closed: "f \<in> set (arrivals run how want latest ks) \<Longrightarrow> \<forall>f b. f_ClosedAt (as_set how f b) = f_ClosedAt f
    \<Longrightarrow> f_ClosedAt f = Some (startedAt run)"
  by (auto simp: arrivals_def recorded_closed_def)

lemma arrived_closed:
  assumes "f \<in> set (arrivals run (as_patched want) want latest ks @ arrivals run (as_cleared w) want' latest' ks'
    @ arrivals run (as_disclaimed w) want'' latest'' ks'')"
  shows "\<not> is_open f"
proof -
  have "\<forall>f b. f_ClosedAt (as_set (as_patched want) f b) = f_ClosedAt f"
    "\<forall>f b. f_ClosedAt (as_set (as_cleared w) f b) = f_ClosedAt f"
    "\<forall>f b. f_ClosedAt (as_set (as_disclaimed w) f b) = f_ClosedAt f" for want
    by (simp_all add: as_patched_def as_cleared_def as_disclaimed_def)
  then have "f_ClosedAt f = Some (startedAt run)"
    using assms unfolding set_append Un_iff by (elim disjE) (blast intro: arrivals_closed)+
  then show ?thesis by (simp add: is_open_def)
qed

lemma inserted_open:
  assumes "f \<in> set (inserted run w t)" and "is_open f"
  obtains latestAt e where "e \<in> set (plan_opening (differs run w t))" "f = arrived_from run latestAt e"
proof -
  obtain latest latestAt where l: "latest_at_write run (differs run w t) (rows t) = (latest, latestAt)" by fastforce
  have "f \<in> set (map (arrived_from run latestAt) (plan_opening (differs run w t)))"
    using assms arrived_closed unfolding inserted_def new_rows_def l Let_def by fastforce
  then show ?thesis using that by auto
qed

text \<open>The rows inserted open are the findings that open; all the others are inserted closed.\<close>

lemma held_inserted:
  assumes "applying run w t"
  shows "map key_of (held_rows build (numbered n (inserted run w t)))
    = (if build = buildID run then map (key_of \<circ> fst) (plan_opening (differs run w t)) else [])"
proof -
  obtain latest latestAt where l: "latest_at_write run (differs run w t) (rows t) = (latest, latestAt)" by fastforce
  let ?opens = "map (arrived_from run latestAt) (plan_opening (differs run w t))"
  let ?rest = "arrivals run (as_patched (wanted_findings w)) (wanted_findings w) latest (arrivedPatched (differs run w t))
     @ arrivals run (as_cleared w) (wanted_findings w) latest (arrivedCleared (differs run w t))
     @ arrivals run (as_disclaimed w) (wanted_findings w) latest (arrivedDisclaimed (differs run w t))"
  have ins: "inserted run w t = ?opens @ ?rest" by (simp add: inserted_def new_rows_def l Let_def)
  have num: "map key_of (filter P (numbered n fs)) = map key_of (filter P fs)"
    if "\<And>f i. P (f\<lparr>f_ID := i\<rparr>) = P f" for P n fs
    using that by (induction fs arbitrary: n) (auto simp: key_of_def)
  have opens: "governed (buildID run) f \<and> is_open f" if "(f, m) \<in> set (plan_opening (differs run w t))" for f m
    using that opening_entries [OF applyingD(2,1) [OF assms]] wanted_okD [OF applyingD(2) [OF assms]]
    unfolding differs_eq by blast
  have op: "governed b (arrived_from run latestAt (f, m)) = (b = buildID run)"
    "is_open (arrived_from run latestAt (f, m))"
    "key_of (arrived_from run latestAt (f, m)) = key_of f" if "(f, m) \<in> set (plan_opening (differs run w t))" for f m b
    using opens [OF that] place_eqD [OF arrived_from_place(1) [of run latestAt f m]] arrived_from_place(2)
    by (auto simp: governed_def)
  have "map key_of (filter (\<lambda>f. governed build f \<and> is_open f) ?opens)
      = (if build = buildID run then map (key_of \<circ> fst) (plan_opening (differs run w t)) else [])"
  proof -
    have "map key_of (filter (\<lambda>f. governed build f \<and> is_open f) (map (arrived_from run latestAt) ps))
      = (if build = buildID run then map (key_of \<circ> fst) ps else [])"
      if "set ps \<subseteq> set (plan_opening (differs run w t))" for ps
      using that by (induction ps) (auto simp: op)
    then show ?thesis by blast
  qed
  moreover have "filter (\<lambda>f. governed build f \<and> is_open f) ?rest = []"
    using arrived_closed unfolding filter_empty_conv by blast
  moreover have "map key_of (held_rows build (numbered n (inserted run w t))) = map key_of (held_rows build (inserted run w t))"
    unfolding held_rows_def by (rule num) (simp add: governed_def is_open_def)
  ultimately show ?thesis unfolding ins held_rows_def by simp
qed

lemma held_rows_append: "held_rows b (xs @ ys) = held_rows b xs @ held_rows b ys"
  by (simp add: held_rows_def)

lemma held_mapped:
  assumes "applying run w t"
  shows "map key_of (held_rows build (map (row_after run w t) (rows t)))
    = (if build = buildID run
       then filter (\<lambda>k. map_of (wanted_findings w) k \<noteq> None \<and> standing_key w k) (map key_of (held_rows build (rows t)))
       else map key_of (held_rows build (rows t)))"
proof -
  let ?g = "row_after run w t"
  have "map key_of (filter (\<lambda>f. governed build f \<and> is_open f) (map ?g rs))
    = (if build = buildID run
       then filter (\<lambda>k. map_of (wanted_findings w) k \<noteq> None \<and> standing_key w k)
              (map key_of (filter (\<lambda>f. governed build f \<and> is_open f) rs))
       else map key_of (filter (\<lambda>f. governed build f \<and> is_open f) rs))" if "set rs \<subseteq> set (rows t)" for rs
    using that
  proof (induction rs)
    case (Cons r rs)
    then have r: "r \<in> set (rows t)" by simp
    note k = row_after_keeps(2,4) [OF assms r]
    show ?case
    proof (cases "build = buildID run")
      case True
      then show ?thesis using Cons held_after_run [OF assms r] k by auto
    next
      case False
      then show ?thesis using Cons other_builds_after_run [OF assms r False] k by auto
    qed
  qed simp
  then show ?thesis unfolding held_rows_def by blast
qed

lemma held_applied:
  assumes "applying run w t"
  shows "map key_of (held_rows build (rows (applied_table run w t)))
    = (if build = buildID run
       then filter (\<lambda>k. map_of (wanted_findings w) k \<noteq> None \<and> standing_key w k) (map key_of (held_rows build (rows t)))
         @ map (key_of \<circ> fst) (plan_opening (differs run w t))
       else map key_of (held_rows build (rows t)))"
  unfolding applied_table_def using held_mapped [OF assms] held_inserted [OF assms]
  by (simp add: held_rows_append)

lemma opening_keys:
  assumes "applying run w t"
  shows "set (map (key_of \<circ> fst) (plan_opening (differs run w t)))
    = {k. map_of (wanted_findings w) k \<noteq> None \<and> standing_key w k \<and> k \<notin> set (map key_of (held_rows (buildID run) (rows t)))}"
    (is "?l = ?r")
proof -
  note e = opening_entries [OF applyingD(2,1) [OF assms], of _ _ "held_at_key run t" "snd (heldOpen (buildID run) (rows t))",
      folded differs_eq]
  have h: "map_of (held_at_key run t) k = None \<longleftrightarrow> k \<notin> set (map key_of (held_rows (buildID run) (rows t)))" for k
    unfolding held_at_key_def held_list [OF applyingD(3) [OF assms]] by (simp add: map_of_eq_None_iff image_image)
  have "k \<in> ?l \<longleftrightarrow> (\<exists>f m. (f, m) \<in> set (plan_opening (differs run w t)) \<and> key_of f = k)" for k by force
  also have "\<dots> k \<longleftrightarrow> (\<exists>f. map_of (wanted_findings w) k = Some f \<and> standing_key w k
      \<and> k \<notin> set (map key_of (held_rows (buildID run) (rows t))))" for k
    unfolding e h using wanted_okD(1) [OF applyingD(2) [OF assms]] by blast
  finally show ?thesis by blast
qed

lemma applied_keys:
  assumes "applying run w t"
  shows "distinct (map key_of (held_rows (buildID run) (rows (applied_table run w t))))"
    and "set (map key_of (held_rows (buildID run) (rows (applied_table run w t))))
      = {k. map_of (wanted_findings w) k \<noteq> None \<and> standing_key w k}"
proof -
  have d: "distinct (map key_of (held_rows (buildID run) (rows t)))"
    using applyingD(3) [OF assms] by (simp add: table_ok_def)
  have o': "distinct (map (key_of \<circ> fst) (plan_opening (differs run w t)))"
    unfolding differs_eq by (rule opening_distinct [OF applyingD(2,1) [OF assms]])
  show "distinct (map key_of (held_rows (buildID run) (rows (applied_table run w t))))"
    unfolding held_applied [OF assms] if_P [OF refl] distinct_append
    using distinct_filter [OF d] o' opening_keys [OF assms] by auto
  show "set (map key_of (held_rows (buildID run) (rows (applied_table run w t))))
      = {k. map_of (wanted_findings w) k \<noteq> None \<and> standing_key w k}"
    unfolding held_applied [OF assms] if_P [OF refl] set_append opening_keys [OF assms] by auto
qed

lemma table_ok_applied:
  assumes "applying run w t"
  shows "table_ok (applied_table run w t)"
  unfolding table_ok_def
proof (intro conjI allI ballI)
  let ?t = "applied_table run w t"
  have t: "table_ok t" by (rule applyingD(3) [OF assms])
  have ids: "map f_ID (map (row_after run w t) (rows t)) = map f_ID (rows t)"
    using row_after_keeps(1) [OF assms] by simp
  have small: "n < next_finding t" if "n \<in> set (map f_ID (rows t))" for n
    using that t by (auto simp: table_ok_def)
  have rs: "rows ?t = map (row_after run w t) (rows t) @ numbered (next_finding t) (inserted run w t)"
    by (simp add: applied_table_def)
  have "set (map f_ID (rows t)) \<inter> set (map f_ID (numbered (next_finding t) (inserted run w t))) = {}"
    using small numbered_least by fastforce
  then show "distinct (map f_ID (rows ?t))"
    unfolding rs map_append ids distinct_append
    using t findings_numbered_distinct [of "next_finding t" "inserted run w t"] by (simp add: table_ok_def)
  show "f_ID r < next_finding ?t" if "r \<in> set (rows ?t)" for r
  proof -
    from that consider r' where "r' \<in> set (rows t)" "r = row_after run w t r'"
      | "r \<in> set (numbered (next_finding t) (inserted run w t))"
      unfolding applied_table_def by auto
    then show ?thesis
    proof cases
      case 1
      then have "f_ID r < next_finding t" using row_after_keeps(1) [OF assms 1(1)] small [of "f_ID r'"] by simp
      then show ?thesis unfolding applied_table_def by simp
    next
      case 2 then show ?thesis using numbered_least unfolding applied_table_def by fastforce
    qed
  qed
  show "distinct (map key_of (held_rows build (rows ?t)))" for build
  proof (cases "build = buildID run")
    case True then show ?thesis using applied_keys(1) [OF assms] by simp
  next
    case False then show ?thesis using t unfolding held_applied [OF assms] by (simp add: table_ok_def)
  qed
qed

lemma applied_row:
  assumes "applying run w t" and "r \<in> set (rows t)" and "r' \<in> set (rows (applied_table run w t))" and "f_ID r' = f_ID r"
  shows "r' = row_after run w t r"
proof -
  have "row_after run w t r \<in> set (rows (applied_table run w t))"
    using assms(2) by (simp add: applied_table_def)
  moreover have "f_ID (row_after run w t r) = f_ID r'" using row_after_keeps(1) [OF assms(1,2)] assms(4) by simp
  moreover have "inj_on f_ID (set (rows (applied_table run w t)))"
    using table_ok_applied [OF assms(1)] by (simp add: table_ok_def distinct_map)
  ultimately show ?thesis using assms(3) by (auto dest: inj_onD)
qed

text \<open>
  C3: after a run is applied, the findings a scan governs that are open in its build are exactly
  those it wants and finds no patch, no record and no supplier's statement against, each held open
  once, whatever was open before and in whatever order the maps are ranged over.
\<close>

theorem a_scan_leaves_open_exactly_what_stands:
  assumes "visits_ok run" and "table_ok t" and "wanted run reported = Inr w" and "Apply run reported t = Inr (a, t')"
  shows "mset (map key_of (held_rows (buildID run) (rows t')))
    = mset (filter (\<lambda>k. \<not> patched w k \<and> cleared w k = [] \<and> disclaimed w k = None) (map fst (wanted_findings w)))"
proof -
  obtain w' where "wanted run reported = Inr w'" and ap: "applying run w' t" and t': "t' = applied_table run w' t"
    using Apply_applied [OF assms(1,2,4)] by blast
  then have ap: "applying run w t" and t': "t' = applied_table run w t" using assms(3) by auto
  have "distinct (map fst (wanted_findings w))" using applyingD(2) [OF ap] by (simp add: wanted_ok_def)
  then have "distinct (filter (standing_key w) (map fst (wanted_findings w)))" by (rule distinct_filter)
  moreover have "set (map key_of (held_rows (buildID run) (rows t'))) = set (filter (standing_key w) (map fst (wanted_findings w)))"
    unfolding t' applied_keys(2) [OF ap] by (auto simp: map_of_eq_None_iff)
  ultimately have "mset (map key_of (held_rows (buildID run) (rows t'))) = mset (filter (standing_key w) (map fst (wanted_findings w)))"
    using applied_keys(1) [OF ap] unfolding t' by (metis set_eq_iff_mset_eq_distinct)
  then show ?thesis unfolding standing_key_def [abs_def] .
qed


subsection \<open>Why a finding closes\<close>

text \<open>What a run says of a key it wants, in the order the code asks.\<close>

definition says :: "wantedSet \<Rightarrow> key \<Rightarrow> Closure" where
  "says w k = (if patched w k then Patched else if cleared w k \<noteq> [] then Unaffected
     else if disclaimed w k \<noteq> None then Disclaimed else [])"

text \<open>Whether the run wants a finding where one sat, of which it says one of some things.\<close>

definition wants_there :: "wantedSet \<Rightarrow> at \<Rightarrow> Closure list \<Rightarrow> bool" where
  "wants_there w a cs = list_ex (\<lambda>(k, f). at_of f = a \<and> says w k \<in> set cs) (wanted_findings w)"

definition closing_reason :: "applyRun \<Rightarrow> wantedSet \<Rightarrow> Finding \<Rightarrow> Closure" where
  "closing_reason run w r =
    (if map_of (wanted_findings w) (key_of r) \<noteq> None then says w (key_of r)
     else if wants_there w (at_of r) [Patched] then Patched
     else if wants_there w (at_of r) [Disclaimed] then Disclaimed
     else if wants_there w (at_of r) [[]] then Superseded
     else fst (why (present run) (catalog_at run (f_ComponentID r))))"

text \<open>What is patched is neither cleared nor disclaimed, so the three never meet at a key.\<close>

definition says_one :: "wantedSet \<Rightarrow> bool" where
  "says_one w \<longleftrightarrow> (\<forall>k. (patched w k \<longrightarrow> cleared w k = [] \<and> disclaimed w k = None) \<and> (cleared w k \<noteq> [] \<longrightarrow> disclaimed w k = None))"

lemma want_at_one: "says_one w \<Longrightarrow> says_one (want_at run r v component naming consumerID w)"
  by (auto simp: says_one_def want_at_def Let_def split: prod.splits option.splits if_splits)

lemma fold_want_at_one: "says_one w \<Longrightarrow> says_one (fold (want_at run r v component naming) cs w)"
  by (induction cs arbitrary: w) (simp_all add: want_at_one)

lemma wanted_loop_one: "says_one w \<Longrightarrow> wanted_loop run reported w = Inr w' \<Longrightarrow> says_one w'"
proof (induction run reported w rule: wanted_loop.induct)
  case (2 run r reported w)
  have "says_one (w\<lparr>unplaced := unplaced w + 1\<rparr>)" using 2(3) by (simp add: says_one_def)
  then show ?case using 2 fold_want_at_one by (auto split: option.splits)
qed simp

lemma wanted_one: "wanted run reported = Inr w \<Longrightarrow> says_one w"
  unfolding wanted_def by (rule wanted_loop_one) (simp_all add: says_one_def nothing_wanted_def)

lemma still_there_fields:
  "wantedAt (fold (still_there w) es s) a \<longleftrightarrow> wantedAt s a \<or> (\<exists>(k, f) \<in> set es. at_of f = a \<and> cleared w k = [] \<and> disclaimed w k = None)"
  "patchedAt (fold (still_there w) es s) a = None \<longleftrightarrow>
     patchedAt s a = None \<and> \<not> (\<exists>(k, f) \<in> set es. at_of f = a \<and> cleared w k = [] \<and> disclaimed w k = None \<and> patched w k)"
  "disclaimedAt (fold (still_there w) es s) a = None \<longleftrightarrow>
     disclaimedAt s a = None \<and> \<not> (\<exists>(k, f) \<in> set es. at_of f = a \<and> cleared w k = [] \<and> disclaimed w k \<noteq> None)"
  by (induction es arbitrary: s) (auto simp: still_there_def Let_def split: option.splits if_splits)

lemma there_says:
  assumes "visits_ok run" and "says_one w"
  shows "patchedAt (there run w) a = None \<longleftrightarrow> \<not> wants_there w a [Patched]"
    "disclaimedAt (there run w) a = None \<longleftrightarrow> \<not> wants_there w a [Disclaimed]"
    "wantedAt (there run w) a \<longleftrightarrow> wants_there w a [[], Patched]"
proof -
  have says: "says w k = Patched \<longleftrightarrow> patched w k" "says w k = Disclaimed \<longleftrightarrow> disclaimed w k \<noteq> None"
    "says w k = [] \<longleftrightarrow> \<not> patched w k \<and> cleared w k = [] \<and> disclaimed w k = None"
    "patched w k \<longrightarrow> cleared w k = [] \<and> disclaimed w k = None" "disclaimed w k \<noteq> None \<longrightarrow> cleared w k = []" for k
    using assms(2) [unfolded says_one_def, rule_format, of k]
    by (auto simp: says_def Patched_def Unaffected_def Disclaimed_def)
  have eqs: "(cleared w k = [] \<and> disclaimed w k = None \<and> patched w k) = (says w k \<in> set [Patched])"
    "(cleared w k = [] \<and> disclaimed w k \<noteq> None) = (says w k \<in> set [Disclaimed])"
    "(cleared w k = [] \<and> disclaimed w k = None) = (says w k \<in> set [[], Patched])" for k
    using says [of k] by auto
  show "patchedAt (there run w) a = None \<longleftrightarrow> \<not> wants_there w a [Patched]"
    "disclaimedAt (there run w) a = None \<longleftrightarrow> \<not> wants_there w a [Disclaimed]"
    "wantedAt (there run w) a \<longleftrightarrow> wants_there w a [[], Patched]"
    unfolding there_def still_there_fields wants_there_def list_ex_iff visits_set [OF assms(1)] eqs
    by (simp_all add: nothing_there_def)
qed

lemma fate_closes:
  assumes "applying run w t" and "says_one w"
  shows "my_fate run w r = Patches c \<Longrightarrow> closing_reason run w r = Patched"
    "my_fate run w r = Clears l \<Longrightarrow> closing_reason run w r = Unaffected"
    "my_fate run w r = Disclaims c \<Longrightarrow> closing_reason run w r = Disclaimed"
    "my_fate run w r = Departs b \<Longrightarrow> closing_reason run w r = fst (departure_reason run (r, b))"
proof -
  note th = there_says [OF applyingD(1) [OF assms(1)] assms(2)]
  have both: "wants_there w a [[], Patched] \<longleftrightarrow> wants_there w a [[]] \<or> wants_there w a [Patched]" for a
    by (auto simp: wants_there_def list_ex_iff)
  show "my_fate run w r = Patches c \<Longrightarrow> closing_reason run w r = Patched"
    using th(1) [of "at_of r"] by (auto simp: my_fate_def fate_mem closing_reason_def says_def)
  show "my_fate run w r = Clears l \<Longrightarrow> closing_reason run w r = Unaffected"
    by (auto simp: my_fate_def fate_mem closing_reason_def says_def)
  show "my_fate run w r = Disclaims c \<Longrightarrow> closing_reason run w r = Disclaimed"
    using th(1,2) [of "at_of r"] by (auto simp: my_fate_def fate_mem closing_reason_def says_def)
  show "my_fate run w r = Departs b \<Longrightarrow> closing_reason run w r = fst (departure_reason run (r, b))"
    using th [of "at_of r"] both [of "at_of r"]
    by (auto simp: my_fate_def fate_mem closing_reason_def departure_reason_def)
qed

lemma after_fate_closing:
  assumes "applying run w t" and "says_one w" and "is_open r"
  shows "(f_ClosedAt (after_fate run r (my_fate run w r)), f_ClosedRunID (after_fate run r (my_fate run w r)),
      f_ClosedBecause (after_fate run r (my_fate run w r)))
    = (if map_of (wanted_findings w) (key_of r) \<noteq> None \<and> standing_key w (key_of r)
       then (None, f_ClosedRunID r, f_ClosedBecause r)
       else (Some (startedAt run), Some (runID run), closing_reason run w r))"
proof -
  note c = fate_closes [OF assms(1,2), of r]
  have keep: "f_ClosedRunID (set_moving m r) = f_ClosedRunID r" "f_ClosedBecause (set_moving m r) = f_ClosedBecause r" for m
    by (simp_all add: set_moving_def set_described_def set_order_def set_learned_def set_clock_def Let_def)
  show ?thesis
    using my_fate_open [of run w r] assms(3)
    by (cases "my_fate run w r") (auto simp: after_fate_def close_row_def c keep set_parts_keep is_open_def)
qed

text \<open>
  C4: a finding a run does not find standing is closed at the run's start, by the run, for one
  reason: patched where the run finds a patch at its key or, once its key is gone, where it sits;
  then unaffected or disclaimed as the record or the supplier says; superseded where the issue is
  still wanted at that place; and otherwise for what happened to its component. One still standing
  keeps its closing columns as they were.
\<close>

theorem a_finding_closes_for_one_reason:
  assumes "visits_ok run" and "table_ok t" and "wanted run reported = Inr w" and "Apply run reported t = Inr (a, t')"
    and "r \<in> set (held_rows (buildID run) (rows t))" and "r' \<in> set (rows t')" and "f_ID r' = f_ID r"
  shows "(f_ClosedAt r', f_ClosedRunID r', f_ClosedBecause r') =
    (if map_of (wanted_findings w) (key_of r) \<noteq> None \<and> says w (key_of r) = []
     then (None, f_ClosedRunID r, f_ClosedBecause r)
     else (Some (startedAt run), Some (runID run), closing_reason run w r))"
proof -
  obtain w' where "wanted run reported = Inr w'" and ap: "applying run w' t" and t': "t' = applied_table run w' t"
    using Apply_applied [OF assms(1,2,4)] by blast
  then have ap: "applying run w t" and t': "t' = applied_table run w t" using assms(3) by auto
  have rt: "r \<in> set (rows t)" and open_r: "is_open r" using assms(5) by (auto simp: held_rowsD)
  have "r' = row_after run w t r"
    using applied_row [OF ap rt] assms(6,7) unfolding t' by blast
  then have "r' = after_fate run r (my_fate run w r)" using row_after_held [OF ap assms(5)] by simp
  moreover have "standing_key w k \<longleftrightarrow> says w k = []" for k
    by (auto simp: standing_key_def says_def Patched_def Unaffected_def Disclaimed_def)
  ultimately show ?thesis using after_fate_closing [OF ap wanted_one [OF assms(3)] open_r] by simp
qed

subsection \<open>What a run leaves alone\<close>

text \<open>
  C13: applying a run removes no row and moves none to another issue, component, place, build or
  opening; a row of another build or of a kind no scan finds is left exactly as it was; and a row
  already closed keeps everything but what it is pointed at as the cause.
\<close>

theorem a_scan_touches_only_what_it_governs:
  assumes "visits_ok run" and "table_ok t" and "Apply run reported t = Inr (a, t')"
  shows "list_all2 (\<lambda>r r'. place_of r' = place_of r \<and> (governed (buildID run) r \<or> r' = r) \<and> (is_open r \<or> pointed r r'))
    (rows t) (take (length (rows t)) (rows t'))"
proof -
  obtain w where ap: "applying run w t" and t': "t' = applied_table run w t"
    using Apply_applied [OF assms(1,2,3)] by blast
  have "take (length (rows t)) (rows t') = map (row_after run w t) (rows t)"
    unfolding t' applied_table_def by simp
  moreover have "place_of (row_after run w t r) = place_of r \<and> (governed (buildID run) r \<or> row_after run w t r = r)
      \<and> (is_open r \<or> pointed r (row_after run w t r))" if "r \<in> set (rows t)" for r
    using place_row_after [OF ap that] row_after_other [OF ap that] by (auto simp: held_rowsD)
  ultimately show ?thesis by (simp add: list_all2_map2 list_all2_same)
qed

subsection \<open>Every table a run can meet\<close>

text \<open>The tables runs leave, each applied to what the last left, over any builds and in any order.\<close>

inductive scanned :: "findings \<Rightarrow> bool" where
  scanned_none: "scanned \<lparr>rows = [], next_finding = 1\<rparr>"
| scanned_run: "scanned t \<Longrightarrow> visits_ok run \<Longrightarrow> Apply run reported t = Inr (a, t') \<Longrightarrow> scanned t'"

lemma table_ok_Apply: "visits_ok run \<Longrightarrow> table_ok t \<Longrightarrow> Apply run reported t = Inr (a, t') \<Longrightarrow> table_ok t'"
  using Apply_applied table_ok_applied by metis

text \<open>
  C12: whatever runs have been applied, to whatever builds, in whatever order, no two rows share an
  identifier and no build holds the same issue in the same component pulled in by the same one open
  twice.
\<close>

theorem a_key_is_open_once:
  assumes "scanned t"
  shows "distinct (map f_ID (rows t)) \<and> distinct (map key_of (held_rows build (rows t)))"
proof -
  have "table_ok t"
    using assms
  proof induction
    case scanned_none then show ?case by (simp add: table_ok_def held_rows_def)
  next
    case scanned_run then show ?case using table_ok_Apply by blast
  qed
  then show ?thesis by (simp add: table_ok_def)
qed

end
