(* ===== verification/Finding_Again.thy ===== *)
theory Finding_Again
  imports Finding_Apply_Props
begin

section \<open>A scan applied again\<close>

text \<open>
  Applying the same reports of the same run a second time: what the first application wrote is what
  the second compares with, so it opens, closes and updates nothing. The one exception is a window
  a report left behind for an occurrence a later report finds answered on some routes.
\<close>

subsection \<open>Deadlines wanted\<close>

definition due_of :: "applyRun \<Rightarrow> Finding \<Rightarrow> int \<Rightarrow> int option" where
  "due_of run f window = Deadline (f_FixState f) (f_RankExploited f \<or> f_RankIncident f) (startedAt run)
     (startedAt run) (f_ExploitedLearnedAt f) (f_FixedAt f) window"

definition on_clock :: "applyRun \<Rightarrow> int \<Rightarrow> bool" where
  "on_clock run v \<longleftrightarrow> onTheClock run
     \<and> Admits (lowest run) (Exploited (rating_of run v) \<or> Incident (rating_of run v)) (Severity (rating_of run v))"

definition clock_ok :: "applyRun \<Rightarrow> wantedSet \<Rightarrow> bool" where
  "clock_ok run w \<longleftrightarrow>
     (\<forall>k window. windowFor w k = Some window \<longrightarrow> on_clock run (fst k)
        \<and> window = For (windows run) (Exploited (rating_of run (fst k))) (Severity (rating_of run (fst k))))
   \<and> (\<forall>(k, f) \<in> set (wanted_findings w). case windowFor w k of
        None \<Rightarrow> True
      | Some window \<Rightarrow> f_StatedBy f = None \<longrightarrow> f_DueAt f = due_of run f window)"

lemma entry_signals:
  "f_RankExploited (wanted_entry run r v c p covering claimedBy answeredBy) = Exploited (rating_of run v)"
  "f_RankIncident (wanted_entry run r v c p covering claimedBy answeredBy) = Incident (rating_of run v)"
  "f_StatedBy (wanted_entry run r v c p covering claimedBy answeredBy) = answeredBy"
  by (simp_all add: wanted_entry_def Let_def)

lemma want_at_clock:
  assumes "clock_ok run w" and "distinct (map fst (wanted_findings w))"
  shows "clock_ok run (want_at run r v component naming c w)"
proof -
  let ?w = "want_at run r v component naming c w"
  let ?k = "(v, c_ID component, c)"
  let ?win = "For (windows run) (Exploited (rating_of run v)) (Severity (rating_of run v))"
  obtain covering claimedBy where c: "coveringClaim (cases run) (placed run) naming component c = (covering, claimedBy)"
    by fastforce
  let ?patched = "case covering of None \<Rightarrow> False | Some c \<Rightarrow> c \<in> set (fixing run)"
  obtain st how where sh: "(if \<not> ?patched \<and> (if ?patched then [] else r_Unaffected r) = []
      then answering (cases run) (digest run) (suppliers run) (Issue r) v component c else (None, answersNone)) = (st, how)"
    by fastforce
  obtain answeredBy e where e: "e = wanted_entry run r v component c covering claimedBy answeredBy"
    and at: "wanted_findings ?w = AList.update ?k
        (if on_clock run v \<and> answeredBy = None then e\<lparr>f_DueAt := due_of run e ?win\<rparr> else e) (wanted_findings w)"
    and win: "windowFor ?w = (if on_clock run v \<and> answeredBy = None then (windowFor w)(?k \<mapsto> ?win) else windowFor w)"
  proof (rule that [of _ "if how = answersSome then st else None", OF refl])
  qed (unfold want_at_def Let_def c prod.case sh on_clock_def due_of_def, simp_all add: entry_signals)
  have old: "on_clock run (fst k) \<and> window = For (windows run) (Exploited (rating_of run (fst k))) (Severity (rating_of run (fst k)))"
    if "windowFor w k = Some window" for k window
    using assms(1) that unfolding clock_ok_def by blast
  show ?thesis
  proof (unfold clock_ok_def, intro conjI allI impI ballI)
    fix k window assume k: "windowFor ?w k = Some window"
    have "on_clock run (fst k) \<and> window = For (windows run) (Exploited (rating_of run (fst k))) (Severity (rating_of run (fst k)))"
      using k old unfolding win by (cases "k = ?k") (auto simp del: split_paired_All split: if_splits)
    then show "on_clock run (fst k)" and "window = For (windows run) (Exploited (rating_of run (fst k))) (Severity (rating_of run (fst k)))"
      by auto
  next
    fix x assume x: "x \<in> set (wanted_findings ?w)"
    obtain k f where xk: "x = (k, f)" by fastforce
    have stated: "f_StatedBy e = answeredBy" by (simp add: e entry_signals)
    from update_old [OF assms(2) x [unfolded at xk]] consider
        "k = ?k" "f = (if on_clock run v \<and> answeredBy = None then e\<lparr>f_DueAt := due_of run e ?win\<rparr> else e)"
      | "k \<noteq> ?k" "(k, f) \<in> set (wanted_findings w)" by blast
    then show "case x of (k, f) \<Rightarrow> case windowFor ?w k of None \<Rightarrow> True
        | Some window \<Rightarrow> f_StatedBy f = None \<longrightarrow> f_DueAt f = due_of run f window"
    proof cases
      case 1
      show ?thesis
      proof (cases "on_clock run v \<and> answeredBy = None")
        case True then show ?thesis using 1 unfolding xk win by (simp add: due_of_def)
      next
        case False
        then have "f = e" "windowFor ?w k = windowFor w ?k" using 1 win by auto
        moreover have "windowFor w ?k = None \<or> answeredBy \<noteq> None"
          using False old [of ?k] by (cases "windowFor w ?k") auto
        ultimately show ?thesis unfolding xk by (auto simp: stated split: option.splits)
      qed
    next
      case 2
      have "windowFor ?w k = windowFor w k" using 2(1) unfolding win by simp
      then show ?thesis using assms(1) 2(2) unfolding xk clock_ok_def by auto
    qed
  qed
qed

lemma fold_want_at_clock:
  "clock_ok run w \<Longrightarrow> wanted_ok run w \<Longrightarrow> clock_ok run (fold (want_at run r v component naming) cs w)"
proof (induction cs arbitrary: w)
  case (Cons c cs)
  then have "distinct (map fst (wanted_findings w))" by (simp add: wanted_ok_def)
  then show ?case using Cons want_at_clock want_at_ok by simp
qed simp

lemma wanted_loop_clock:
  "clock_ok run w \<Longrightarrow> wanted_ok run w \<Longrightarrow> wanted_loop run reported w = Inr w' \<Longrightarrow> clock_ok run w'"
proof (induction run reported w rule: wanted_loop.induct)
  case (2 run r reported w)
  have "clock_ok run (w\<lparr>unplaced := unplaced w + 1\<rparr>)" "wanted_ok run (w\<lparr>unplaced := unplaced w + 1\<rparr>)"
    using 2(3,4) by (simp_all add: clock_ok_def wanted_ok_def)
  then show ?case using 2 fold_want_at_clock fold_want_at_ok by (auto split: option.splits)
qed simp

lemma wanted_clock: "wanted run reported = Inr w \<Longrightarrow> clock_ok run w"
  unfolding wanted_def
  by (rule wanted_loop_clock) (simp_all add: clock_ok_def wanted_ok_def nothing_wanted_def)


subsection \<open>What moves under a row already brought up to date\<close>

lemma set_moving_fields:
  "f_FixState (set_moving m r) = (if m_described m then f_FixState (m_f m) else f_FixState r)"
  "f_FixedIn (set_moving m r) = (if m_described m then f_FixedIn (m_f m) else f_FixedIn r)"
  "f_FixedAt (set_moving m r) = (if m_described m then f_FixedAt (m_f m) else f_FixedAt r)"
  "f_Matched (set_moving m r) = (if m_described m then f_Matched (m_f m) else f_Matched r)"
  "f_MatchedFrom (set_moving m r) = (if m_described m then f_MatchedFrom (m_f m) else f_MatchedFrom r)"
  "f_MatchedIn (set_moving m r) = (if m_described m then f_MatchedIn (m_f m) else f_MatchedIn r)"
  "f_MatchedRange (set_moving m r) = (if m_described m then f_MatchedRange (m_f m) else f_MatchedRange r)"
  "f_SuppressedBy (set_moving m r) = (if m_described m then f_SuppressedBy (m_f m) else f_SuppressedBy r)"
  "f_StatedBy (set_moving m r) = (if m_described m then f_StatedBy (m_f m) else f_StatedBy r)"
  "f_ClaimedBy (set_moving m r) = (if m_described m then f_ClaimedBy (m_f m) else f_ClaimedBy r)"
  "f_RankExploited (set_moving m r) = (if m_moved m then f_RankExploited (m_f m) else f_RankExploited r)"
  "f_RankShipped (set_moving m r) = (if m_moved m then f_RankShipped (m_f m) else f_RankShipped r)"
  "f_Urgency (set_moving (add_id (f_ID r) u m0) r) = (if m_moved m0 \<and> m_ids m0 = [] \<and> m_urgencies m0 = [] then u else f_Urgency (set_moving (add_id (f_ID r) u m0) r))"
  "f_ExploitedLearnedAt (set_moving m r) = (if m_exploitationMoved m then m_learned m else f_ExploitedLearnedAt r)"
  "f_DueAt (set_moving m r) = (if m_clockMoved m then f_DueAt (m_f m) else f_DueAt r)"
  "f_OpenedAt (set_moving m r) = f_OpenedAt r"
  by (simp_all add: set_moving_def set_described_def set_order_def set_learned_def set_clock_def Let_def add_id_def)

lemma change_of_fields:
  "m_moved (change_of run w k a f) = fst (ranking a f)"
  "m_exploitationMoved (change_of run w k a f) = snd (ranking a f)"
  "m_described (change_of run w k a f) = (\<not> same_finding a f)"
  "m_clockMoved (change_of run w k a f) = (f_DueAt a \<noteq> f_DueAt (m_f (change_of run w k a f)))"
  "m_learned (change_of run w k a f) = (if snd (ranking a f)
     then learnedExploitation (f_RankExploited f) (ExploitedOn (rating_of run (f_VulnerabilityID f))) (startedAt run)
     else f_ExploitedLearnedAt a)"
  "f_DueAt (m_f (change_of run w k a f)) = (case windowFor w k of None \<Rightarrow> f_DueAt f
     | Some window \<Rightarrow> Deadline (f_FixState f) (f_RankExploited f \<or> f_RankIncident f) (f_OpenedAt a) (startedAt run)
         (m_learned (change_of run w k a f)) (f_FixedAt f) window)"
  by (simp_all add: change_of_def Let_def split_beta same_finding_def split: option.splits)

lemma change_of_written:
  "m_f (change_of run w k a f) = f\<lparr>f_DueAt := f_DueAt (m_f (change_of run w k a f))\<rparr>"
  by (simp add: change_of_def Let_def split_beta split: option.splits)


lemma written_fields:
  fixes run w k r f
  defines "m \<equiv> change_of run w k r f"
  defines "r' \<equiv> set_moving (add_id (f_ID r) (f_Urgency f) m) r"
  shows "same_finding r' f" and "ranking r' f = (False, False)" and "f_ExploitedLearnedAt r' = m_learned m"
    and "f_OpenedAt r' = f_OpenedAt r" and "f_DueAt r' = f_DueAt (m_f m)"
proof -
  have add: "m_f (add_id n u m) = m_f m" "m_described (add_id n u m) = m_described m" "m_moved (add_id n u m) = m_moved m"
    "m_exploitationMoved (add_id n u m) = m_exploitationMoved m" "m_learned (add_id n u m) = m_learned m"
    "m_clockMoved (add_id n u m) = m_clockMoved m" for n u m
    by (simp_all add: add_id_def)
  have mf: "f_FixState (m_f m) = f_FixState f" "f_FixedIn (m_f m) = f_FixedIn f" "f_FixedAt (m_f m) = f_FixedAt f"
    "f_Matched (m_f m) = f_Matched f" "f_MatchedFrom (m_f m) = f_MatchedFrom f" "f_MatchedIn (m_f m) = f_MatchedIn f"
    "f_MatchedRange (m_f m) = f_MatchedRange f" "f_SuppressedBy (m_f m) = f_SuppressedBy f"
    "f_StatedBy (m_f m) = f_StatedBy f" "f_ClaimedBy (m_f m) = f_ClaimedBy f"
    "f_RankExploited (m_f m) = f_RankExploited f" "f_RankShipped (m_f m) = f_RankShipped f"
    unfolding m_def by (subst change_of_written, simp)+
  have d: "m_described m = (\<not> same_finding r f)" unfolding m_def by (rule change_of_fields)
  show "same_finding r' f"
  proof (cases "same_finding r f")
    case True then show ?thesis unfolding r'_def same_finding_def set_moving_fields add d by (simp add: same_finding_def)
  next
    case False then show ?thesis unfolding r'_def same_finding_def [of "set_moving _ _"] set_moving_fields add d by (simp add: mf)
  qed
  have mv: "m_moved m = fst (ranking r f)" "m_exploitationMoved m = snd (ranking r f)" unfolding m_def by (simp_all add: change_of_fields)
  have "m_ids m = []" "m_urgencies m = []" unfolding m_def by (rule change_of_ids)+
  then have u: "f_Urgency r' = (if m_moved m then f_Urgency f else f_Urgency r)"
    unfolding r'_def set_moving_def by (simp add: set_described_def set_order_def set_learned_def set_clock_def Let_def add_id_def)
  have x: "f_RankExploited r' = (if m_moved m then f_RankExploited f else f_RankExploited r)"
    "f_RankShipped r' = (if m_moved m then f_RankShipped f else f_RankShipped r)"
    unfolding r'_def set_moving_fields add mf by simp_all
  show "ranking r' f = (False, False)"
    unfolding ranking_def u x mv by (auto simp: ranking_def)
  show "f_ExploitedLearnedAt r' = m_learned m"
    unfolding r'_def set_moving_fields add mv unfolding m_def change_of_fields by simp
  show "f_OpenedAt r' = f_OpenedAt r" unfolding r'_def set_moving_fields ..
  show "f_DueAt r' = f_DueAt (m_f m)"
    unfolding r'_def set_moving_fields add using change_of_fields(4) [of run w k r f] by (simp add: m_def)
qed

lemma nothing_moves:
  assumes "same_finding a f" and "ranking a f = (False, False)"
    and "case windowFor w k of None \<Rightarrow> f_DueAt a = f_DueAt f
      | Some window \<Rightarrow> f_DueAt a = Deadline (f_FixState f) (f_RankExploited f \<or> f_RankIncident f) (f_OpenedAt a) (startedAt run)
         (f_ExploitedLearnedAt a) (f_FixedAt f) window"
  shows "\<not> changes (change_of run w k a f)"
  using assms by (auto simp: changes_def change_of_fields split: option.splits)

lemma settled_after_change:
  "\<not> changes (change_of run w k (set_moving (add_id (f_ID r) (f_Urgency f) (change_of run w k r f)) r) f)"
  by (rule nothing_moves, rule written_fields(1), rule written_fields(2), unfold written_fields(3-5) change_of_fields(6))
    (auto split: option.splits)

text \<open>A row that has just opened differs from what was wanted by where it arrived from and no more.\<close>

lemma arrived_from_fields:
  "same_finding (arrived_from run l (f, m)) g = same_finding f g"
  "ranking (arrived_from run l (f, m)) g = ranking f g"
  "f_DueAt (arrived_from run l (f, m)) = f_DueAt f"
  "f_ExploitedLearnedAt (arrived_from run l (f, m)) = f_ExploitedLearnedAt f"
  "f_OpenedAt (arrived_from run l (f, m)) = f_OpenedAt f"
  by (auto simp: arrived_from_def Let_def same_finding_def ranking_def split: option.splits)

lemma numbered_from: "r \<in> set (numbered n fs) \<Longrightarrow> \<exists>f \<in> set fs. \<exists>i. r = f\<lparr>f_ID := i\<rparr>"
  by (induction fs arbitrary: n) auto

lemma change_of_numbered: "changes (change_of run w k (a\<lparr>f_ID := i\<rparr>) f) = changes (change_of run w k a f)"
  by (simp add: changes_def change_of_fields same_finding_def ranking_def split: option.splits)


subsection \<open>Nothing left to do\<close>

definition answers_clocked :: "wantedSet \<Rightarrow> bool" where
  "answers_clocked w \<longleftrightarrow> list_ex (\<lambda>(k, f). windowFor w k \<noteq> None \<and> f_StatedBy f \<noteq> None) (wanted_findings w)"

lemma opened_stays:
  assumes "applying run w t" and "clock_ok run w" and "\<not> answers_clocked w" and "map_of (wanted_findings w) k = Some f"
  shows "\<not> changes (change_of run w k (arrived_from run l (f, m)) f)"
proof (rule nothing_moves, unfold arrived_from_fields)
  have mem: "(k, f) \<in> set (wanted_findings w)" by (rule map_of_SomeD [OF assms(4)])
  have "f_OpenedAt f = startedAt run" by (rule wanted_okD(4) [OF applyingD(2) [OF assms(1)] assms(4)])
  moreover have "windowFor w k = Some window \<Longrightarrow> f_DueAt f = due_of run f window" for window
    using assms(2,3) mem by (fastforce simp: clock_ok_def answers_clocked_def list_ex_iff)
  ultimately show "case windowFor w k of None \<Rightarrow> f_DueAt f = f_DueAt f
      | Some window \<Rightarrow> f_DueAt f = Deadline (f_FixState f) (f_RankExploited f \<or> f_RankIncident f) (f_OpenedAt f) (startedAt run)
         (f_ExploitedLearnedAt f) (f_FixedAt f) window"
    by (simp add: due_of_def split: option.splits)
qed (simp_all add: same_finding_def ranking_def)

lemma all_stay:
  assumes "applying run w t" and "clock_ok run w" and "\<not> answers_clocked w"
    and "r \<in> set (held_rows (buildID run) (rows (applied_table run w t)))"
  shows "my_fate run w r = Stays"
proof -
  have "key_of r \<in> set (map key_of (held_rows (buildID run) (rows (applied_table run w t))))" using assms(4) by simp
  then have k: "map_of (wanted_findings w) (key_of r) \<noteq> None" "standing_key w (key_of r)"
    unfolding applied_keys(2) [OF assms(1)] by blast+
  then obtain f where f: "map_of (wanted_findings w) (key_of r) = Some f" by blast
  have open_r: "is_open r" and r_in: "r \<in> set (rows (applied_table run w t))" using assms(4) by (auto simp: held_rowsD)
  have "\<not> changes (change_of run w (key_of r) r f)"
  proof -
    from r_in consider r0 where "r0 \<in> set (rows t)" "r = row_after run w t r0"
      | "r \<in> set (numbered (next_finding t) (inserted run w t))" by (auto simp: applied_table_def)
    then show ?thesis
    proof cases
      case 1
      have key: "key_of r = key_of r0" unfolding 1(2) by (rule row_after_keeps(2) [OF assms(1) 1(1)])
      have "governed (buildID run) r \<and> is_open r" using assms(4) by (simp add: held_rowsD)
      then have "r0 \<in> set (held_rows (buildID run) (rows t))"
        using held_after_run [OF assms(1) 1(1)] 1 by (simp add: held_rowsD)
      then have r: "r = after_fate run r0 (my_fate run w r0)" using row_after_held [OF assms(1)] 1(2) by simp
      have "my_fate run w r0 = Stays \<or> (\<exists>m u. my_fate run w r0 = Changes m u)"
        unfolding my_fate_open using k key by simp
      then show ?thesis
      proof (elim disjE exE)
        assume stays: "my_fate run w r0 = Stays"
        then have "r = r0" using r by (simp add: after_fate_def)
        then show ?thesis using stays f unfolding my_fate_def fate_mem by simp
      next
        fix m u assume c: "my_fate run w r0 = Changes m u"
        then have "m = change_of run w (key_of r0) r0 f" "u = f_Urgency f"
          using f key unfolding my_fate_def fate_mem by auto
        then show ?thesis using r c key settled_after_change by (simp add: after_fate_def)
      qed
    next
      case 2
      then obtain f' i where f': "f' \<in> set (inserted run w t)" "r = f'\<lparr>f_ID := i\<rparr>" using numbered_from by blast
      then have "is_open f'" using open_r by (simp add: is_open_def)
      with f'(1) obtain l e where e: "e \<in> set (plan_opening (differs run w t))" "f' = arrived_from run l e"
        by (rule inserted_open)
      obtain g m where gm: "e = (g, m)" by fastforce
      obtain k where "map_of (wanted_findings w) k = Some g"
        using e(1) unfolding gm differs_eq opening_entries [OF applyingD(2,1) [OF assms(1)]] by blast
      then have g: "map_of (wanted_findings w) (key_of g) = Some g"
        using wanted_okD(1) [OF applyingD(2) [OF assms(1)]] by simp
      have "key_of r = key_of g" using place_eqD(2) [OF arrived_from_place(1)] unfolding f'(2) e(2) gm by (simp add: key_of_def)
      then have "g = f" using f g by simp
      then have "\<not> changes (change_of run w (key_of r) (arrived_from run l (g, m)) f)"
        using opened_stays [OF assms(1-3) f] by simp
      then show ?thesis using change_of_numbered [where a = f' and i = i] unfolding f'(2) e(2) gm by simp
    qed
  qed
  then show ?thesis using f k(2) unfolding my_fate_def fate_mem by blast
qed


lemma updated_count:
  "updated (diffOpen run w held heldAt) = length (concat (map (change_pairs run w held) (visits run 0 (wanted_findings w))))"
proof -
  have one: "updated (plan_wanted run w held heldAt e p) = updated p + length (change_pairs run w held e)" for e p
    by (auto simp: plan_wanted_def plan_pairs Let_def split: prod.splits option.splits)
  have "updated (fold (plan_wanted run w held heldAt) vs p) = updated p + length (concat (map (change_pairs run w held) vs))" for vs p
    by (induction vs arbitrary: p) (simp_all add: one)
  moreover have "updated (fold (plan_held w s) hs p) = updated p" for s hs p
    by (induction hs arbitrary: p) (simp_all add: plan_held_fields)
  ultimately show ?thesis by (simp add: diffOpen_def Let_def empty_plan_def)
qed

lemma no_pairs:
  assumes "\<And>a b. (a, b) \<notin> set xs"
  shows "xs = []"
proof (cases xs)
  case (Cons x ys)
  then show ?thesis using assms [of "fst x" "snd x"] by simp
qed simp

lemma nothing_planned:
  assumes "applying run w t" and "\<And>r. r \<in> set (held_rows (buildID run) (rows t)) \<Longrightarrow> my_fate run w r = Stays"
    and "\<And>k. map_of (wanted_findings w) k \<noteq> None \<Longrightarrow> standing_key w k \<Longrightarrow> k \<in> set (map key_of (held_rows (buildID run) (rows t)))"
  shows "plan_opening (differs run w t) = []" "departing (differs run w t) = []" "patching (differs run w t) = []"
    "clearing (differs run w t) = []" "disclaiming_by (differs run w t) = []" "updated (differs run w t) = 0"
proof -
  note p = fate_pairs [OF assms(1)]
  have "set (map (key_of \<circ> fst) (plan_opening (differs run w t))) = {}"
    unfolding opening_keys [OF assms(1)] using assms(3) by blast
  then show "plan_opening (differs run w t) = []" by simp
  show "departing (differs run w t) = []" by (rule no_pairs) (use assms(2) p(5) in auto)
  have "concat (map (patch_pairs w (held_at_key run t)) (visits run 0 (wanted_findings w)))
        @ concat (map (held_patch w (there run w)) (visits run 2 (held_at_key run t))) = []"
    by (rule no_pairs, unfold p(1)) (use assms(2) in auto)
  then show "patching (differs run w t) = []"
    unfolding differs_eq diffOpen_fields by (simp only: grouping_def fold_simps)
  have "concat (map (clear_pairs w (held_at_key run t)) (visits run 0 (wanted_findings w))) = []"
    by (rule no_pairs, unfold p(2)) (use assms(2) in auto)
  then show "clearing (differs run w t) = []"
    unfolding differs_eq diffOpen_fields by (simp only: grouping_def fold_simps)
  have "concat (map (disclaim_pairs w (held_at_key run t)) (visits run 0 (wanted_findings w)))
        @ concat (map (held_disclaim w (there run w)) (visits run 2 (held_at_key run t))) = []"
    by (rule no_pairs, unfold p(3)) (use assms(2) in auto)
  then show "disclaiming_by (differs run w t) = []"
    unfolding differs_eq diffOpen_fields by (simp only: grouping_def fold_simps)
  have "concat (map (change_pairs run w (held_at_key run t)) (visits run 0 (wanted_findings w))) = []"
  proof (rule no_pairs)
    fix m :: moving and e :: "int \<times> int"
    obtain n u where "e = (n, u)" by fastforce
    then show "(m, e) \<notin> set (concat (map (change_pairs run w (held_at_key run t)) (visits run 0 (wanted_findings w))))"
      using p(4) [of m n u] assms(2) by auto
  qed
  then show "updated (differs run w t) = 0" unfolding differs_eq updated_count by simp
qed

text \<open>
  C14: applying the reports of a run a second time opens nothing, closes nothing and updates nothing,
  unless some finding wanted carries a window and is answered on some of its routes too.
\<close>

theorem a_scan_applied_again_changes_nothing:
  assumes "visits_ok run" and "table_ok t" and "wanted run reported = Inr w"
    and "Apply run reported t = Inr (a, t')" and "Apply run reported t' = Inr (b, t'')" and "\<not> answers_clocked w"
  shows "(Opened b, a_Closed b, Updated b) = (0, 0, 0)"
proof -
  obtain w' where "wanted run reported = Inr w'" and ap: "applying run w' t" and t': "t' = applied_table run w' t"
    using Apply_applied [OF assms(1,2,4)] by blast
  then have ap: "applying run w t" and t': "t' = applied_table run w t" using assms(3) by auto
  have ap': "applying run w t'" using ap table_ok_applied [OF ap] unfolding t' applying_def by simp
  have stays: "my_fate run w r = Stays" if "r \<in> set (held_rows (buildID run) (rows t'))" for r
    using all_stay [OF ap wanted_clock [OF assms(3)] assms(6)] that unfolding t' by blast
  have held: "k \<in> set (map key_of (held_rows (buildID run) (rows t')))"
    if "map_of (wanted_findings w) k \<noteq> None" "standing_key w k" for k
    unfolding t' applied_keys(2) [OF ap] using that by blast
  have none: "plan_opening (differs run w t') = []" "departing (differs run w t') = []" "patching (differs run w t') = []"
    "clearing (differs run w t') = []" "disclaiming_by (differs run w t') = []" "updated (differs run w t') = 0"
    by (rule nothing_planned [OF ap'], erule stays, erule (1) held)+
  obtain wrote t3 where w3: "writePlan run w (differs run w t') t' = (wrote, t3)" by fastforce
  have eq: "(case heldOpen (buildID run) (rows t') of (held, heldAt) \<Rightarrow> F (diffOpen run w held heldAt)) = F (differs run w t')" for F
    by (simp add: differs_def split_beta)
  have b: "Opened b = w_opened wrote" "a_Closed b = w_closed wrote" "Updated b = updated (differs run w t')"
    using assms(5) unfolding Apply_def assms(3) sum.case Let_def eq [of "\<lambda>plan. case writePlan run w plan t' of (wrote, t'') \<Rightarrow> Inr (\<lparr>Opened = w_opened wrote, a_Closed = w_closed wrote,
        a_Unexplained = w_unexplained wrote, Updated = updated plan, Suppressed = suppressed plan, a_Patched = w_patched wrote,
        a_Unaffected = w_unaffected wrote, a_Disclaimed = w_disclaimed wrote, Unplaced = unplaced w\<rparr>, t'')"] w3 prod.case by auto
  have "w_opened wrote = 0 \<and> w_closed wrote = 0"
    unfolding arg_cong [OF w3, of fst, simplified, symmetric] writePlan_def none departures_by_reason_def Let_def
    by (simp add: split_beta)
  then show ?thesis using b none(6) by simp
qed

end
