(* ===== verification/Finding_Apply_Small.thy ===== *)
theory Finding_Apply_Small
  imports Finding_Again
begin

section \<open>A small scan\<close>

text \<open>
  A build that ships one component, in which a scan finds two issues. One of them is held open
  already, and so is a third one in a component the build no longer ships.
\<close>

definition small_component :: Component where
  "small_component = no_component\<lparr>c_ID := 7, c_Name := ''curl'', c_Version := ''8'',
     Identity := Described_Identity ascii (\<lambda>s. s) (nothing_described\<lparr>d_Name := ''curl'', d_Version := ''8''\<rparr>)\<rparr>"

definition small_places :: placer where
  "small_places = \<lparr>inv = openComponents [small_component], places = [(7, [0])], root = 1, images = []\<rparr>"

definition small_run :: applyRun where
  "small_run = \<lparr>buildID = 3, runID = 5, vulnerabilities = [(''CVE-1'', 1), (''CVE-2'', 2)], ratings = [],
     shipped = True, present = openComponents [small_component], occurrences = [(7, [0])], claims = [],
     placed = small_places,
     suppliers = \<lparr>said = [], byIssue = [], affected = [], decided = [], placed_in = small_places\<rparr>,
     named_by = [], fixing = [], windows = DefaultWindows, startedAt = 100,
     lowest = \<lparr>Word = [], FromProduct = False, ms_ProductID = 0\<rparr>, onTheClock = False,
     cases = ascii, digest = (\<lambda>s. s), catalog = [(7, small_component)], checks = [], visits = (\<lambda>_ m. m)\<rparr>"

definition small_report :: "string \<Rightarrow> Reported" where
  "small_report issue = \<lparr>Issue = \<lparr>Identifier = issue, Aliases = []\<rparr>,
     r_Component = nothing_described\<lparr>d_Name := ''curl'', d_Version := ''8''\<rparr>,
     r_FixState = [], r_FixedIn = [], r_FixedAt = None, r_Matched = [], r_MatchedFrom = [], r_MatchedIn = [],
     r_MatchedRange = [], r_Unaffected = []\<rparr>"

definition small_row :: "int \<Rightarrow> int \<Rightarrow> int \<Rightarrow> Finding" where
  "small_row n v c = (wanted_entry small_run (small_report []) v (small_component\<lparr>c_ID := c\<rparr>) 0 None None None)
     \<lparr>f_ID := n, f_OpenedAt := 20, f_OpenedRunID := Some 4\<rparr>"

definition small_table :: findings where
  "small_table = \<lparr>rows = [small_row 1 1 7, small_row 2 9 8], next_finding = 3\<rparr>"

definition small_reports :: "Reported list" where
  "small_reports = [small_report ''CVE-1'', small_report ''CVE-2'']"

text \<open>One opens, one closes because its component is gone, one stays.\<close>

lemma small_applied:
  "(case Apply small_run small_reports small_table of
      Inl _ \<Rightarrow> False
    | Inr (a, t) \<Rightarrow> Opened a = 1 \<and> a_Closed a = 1 \<and>
        map (\<lambda>r. (f_ID r, key_of r, f_ClosedAt r, f_ClosedBecause r)) (rows t)
      = [(1, (1, 7, 0), None, []), (2, (9, 8, 0), Some 100, Removed), (3, (2, 7, 0), None, [])])"
  by code_simp

lemma small_scan:
  obtains w a t where "wanted small_run small_reports = Inr w" "Apply small_run small_reports small_table = Inr (a, t)"
    "map (\<lambda>r. (f_ID r, key_of r, f_ClosedAt r, f_ClosedBecause r)) (rows t)
      = [(1, (1, 7, 0), None, []), (2, (9, 8, 0), Some 100, Removed), (3, (2, 7, 0), None, [])]"
proof -
  obtain a t where a: "Apply small_run small_reports small_table = Inr (a, t)"
    using small_applied by (auto split: sum.splits)
  then obtain w where "wanted small_run small_reports = Inr w" by (auto simp: Apply_def split: sum.splits)
  then show ?thesis using a small_applied that by simp
qed

lemma small_visits: "visits_ok small_run"
  by (simp add: visits_ok_def small_run_def)

lemma small_table_ok: "table_ok small_table"
  by (simp add: table_ok_def small_table_def small_row_def wanted_entry_def Let_def held_rows_def key_of_def
      small_component_def no_component_def optional_def value_of_def)

lemma small_held: "held_rows (buildID small_run) (rows small_table) = rows small_table"
  by (simp add: held_rows_def small_table_def small_row_def wanted_entry_def Let_def governed_def is_open_def small_run_def)

lemma a_scan_leaves_open_exactly_what_stands_witness:
  "\<exists>w a t. wanted small_run small_reports = Inr w \<and> Apply small_run small_reports small_table = Inr (a, t)
    \<and> mset (map key_of (held_rows (buildID small_run) (rows t)))
      = mset (filter (\<lambda>k. \<not> patched w k \<and> cleared w k = [] \<and> disclaimed w k = None) (map fst (wanted_findings w)))"
proof -
  obtain w a t where w: "wanted small_run small_reports = Inr w" "Apply small_run small_reports small_table = Inr (a, t)"
    by (rule small_scan)
  show ?thesis
    by (intro exI conjI, rule w(1), rule w(2),
        rule a_scan_leaves_open_exactly_what_stands [OF small_visits small_table_ok w])
qed

lemma a_finding_closes_for_one_reason_witness:
  "\<exists>w a t r r'. wanted small_run small_reports = Inr w \<and> Apply small_run small_reports small_table = Inr (a, t)
    \<and> r \<in> set (held_rows (buildID small_run) (rows small_table)) \<and> r' \<in> set (rows t) \<and> f_ID r' = f_ID r
    \<and> (f_ClosedAt r', f_ClosedRunID r', f_ClosedBecause r') =
    (if map_of (wanted_findings w) (key_of r) \<noteq> None \<and> says w (key_of r) = []
     then (None, f_ClosedRunID r, f_ClosedBecause r)
     else (Some (startedAt small_run), Some (runID small_run), closing_reason small_run w r))"
proof -
  obtain w a t where w: "wanted small_run small_reports = Inr w" "Apply small_run small_reports small_table = Inr (a, t)"
    and r: "map (\<lambda>r. (f_ID r, key_of r, f_ClosedAt r, f_ClosedBecause r)) (rows t)
      = [(1, (1, 7, 0), None, []), (2, (9, 8, 0), Some 100, Removed), (3, (2, 7, 0), None, [])]"
    by (rule small_scan)
  have "2 \<in> set (map fst (map (\<lambda>r. (f_ID r, key_of r, f_ClosedAt r, f_ClosedBecause r)) (rows t)))"
    unfolding r by simp
  then obtain r' where r': "r' \<in> set (rows t)" "f_ID r' = f_ID (small_row 2 9 8)" by (auto simp: small_row_def)
  have "small_row 2 9 8 \<in> set (held_rows (buildID small_run) (rows small_table))"
    unfolding small_held by (simp add: small_table_def)
  note held = this
  show ?thesis
    by (intro exI conjI, rule w(1), rule w(2), rule held, rule r'(1), rule r'(2),
        rule a_finding_closes_for_one_reason [OF small_visits small_table_ok w held r'])
qed

lemma a_scan_touches_only_what_it_governs_witness:
  "\<exists>a t. Apply small_run small_reports small_table = Inr (a, t)
    \<and> list_all2 (\<lambda>r r'. place_of r' = place_of r \<and> (governed (buildID small_run) r \<or> r' = r) \<and> (is_open r \<or> pointed r r'))
      (rows small_table) (take (length (rows small_table)) (rows t))"
proof -
  obtain a t where t: "Apply small_run small_reports small_table = Inr (a, t)" by (rule small_scan)
  show ?thesis
    by (intro exI conjI, rule t, rule a_scan_touches_only_what_it_governs [OF small_visits small_table_ok t])
qed

lemma a_key_is_open_once_witness:
  "\<exists>a t. Apply small_run small_reports \<lparr>rows = [], next_finding = 1\<rparr> = Inr (a, t)
    \<and> distinct (map f_ID (rows t)) \<and> distinct (map key_of (held_rows 3 (rows t)))"
proof -
  obtain a' t' where "Apply small_run small_reports small_table = Inr (a', t')" by (rule small_scan)
  then obtain w where "wanted small_run small_reports = Inr w" by (auto simp: Apply_def split: sum.splits)
  then obtain a t where t: "Apply small_run small_reports \<lparr>rows = [], next_finding = 1\<rparr> = Inr (a, t)"
    by (simp add: Apply_def split_beta Let_def)
  have "scanned t" by (rule scanned_run [OF scanned_none small_visits t])
  note both = a_key_is_open_once [OF this, of 3]
  show ?thesis by (intro exI, rule conjI [OF t both])
qed

lemma small_unanswered: "(case wanted small_run small_reports of Inl _ \<Rightarrow> False | Inr w \<Rightarrow> \<not> answers_clocked w)"
  by code_simp

lemma a_scan_applied_again_changes_nothing_witness:
  "\<exists>w a t b t'. wanted small_run small_reports = Inr w \<and> Apply small_run small_reports small_table = Inr (a, t)
    \<and> Apply small_run small_reports t = Inr (b, t') \<and> \<not> answers_clocked w \<and> (Opened b, a_Closed b, Updated b) = (0, 0, 0)"
proof -
  obtain w a t where w: "wanted small_run small_reports = Inr w" "Apply small_run small_reports small_table = Inr (a, t)"
    by (rule small_scan)
  have u: "\<not> answers_clocked w" using small_unanswered w(1) by simp
  obtain b t' where b: "Apply small_run small_reports t = Inr (b, t')"
    using w(1) by (simp add: Apply_def split_beta Let_def)
  show ?thesis
    by (intro exI conjI, rule w(1), rule w(2), rule b, rule u,
        rule a_scan_applied_again_changes_nothing [OF small_visits small_table_ok w b u])
qed

subsection \<open>A window kept past an answer\<close>

text \<open>
  A later report at a key replaces what an earlier one patched, cleared or had disclaimed, but not the
  window it was clocked with: an occurrence the later report finds answered on some routes is wanted
  with no deadline, and the window left behind gives the open row one.
\<close>

lemma a_window_outlives_the_answer:
  assumes "coveringClaim (cases run) (placed run) naming component c = (None, claimedBy)" and "r_Unaffected r = []"
    and "answering (cases run) (digest run) (suppliers run) (Issue r) v component c = (Some s, answersSome)"
    and "windowFor w (v, c_ID component, c) = Some window"
  shows "windowFor (want_at run r v component naming c w) (v, c_ID component, c) = Some window"
    and "map_option f_DueAt (map_of (wanted_findings (want_at run r v component naming c w)) (v, c_ID component, c)) = Some None"
    and "f_DueAt (m_f (change_of run (want_at run r v component naming c w) (v, c_ID component, c) already f))
      = Deadline (f_FixState f) (f_RankExploited f \<or> f_RankIncident f) (f_OpenedAt already) (startedAt run)
          (if snd (ranking already f)
           then learnedExploitation (f_RankExploited f) (ExploitedOn (rating_of run (f_VulnerabilityID f))) (startedAt run)
           else f_ExploitedLearnedAt already) (f_FixedAt f) window"
proof -
  show *: "windowFor (want_at run r v component naming c w) (v, c_ID component, c) = Some window"
    using assms by (simp add: want_at_def Let_def)
  show "map_option f_DueAt (map_of (wanted_findings (want_at run r v component naming c w)) (v, c_ID component, c)) = Some None"
    using assms by (simp add: want_at_def Let_def update_conv' wanted_entry_def)
  show "f_DueAt (m_f (change_of run (want_at run r v component naming c w) (v, c_ID component, c) already f))
      = Deadline (f_FixState f) (f_RankExploited f \<or> f_RankIncident f) (f_OpenedAt already) (startedAt run)
          (if snd (ranking already f)
           then learnedExploitation (f_RankExploited f) (ExploitedOn (rating_of run (f_VulnerabilityID f))) (startedAt run)
           else f_ExploitedLearnedAt already) (f_FixedAt f) window"
    using * by (simp add: change_of_def Let_def split_beta)
qed

end
