(* ===== verification/Graph_Snapshot.thy ===== *)
theory Graph_Snapshot
  imports Graph_Purl Tables
begin

section \<open>Storing the graph a scan describes\<close>

text \<open>
  \<^verbatim>\<open>graph/snapshot.go\<close> and \<^verbatim>\<open>graph/reconcile.go\<close>, with the images of \<^verbatim>\<open>graph/image.go\<close>, the component
  catalog of \<^verbatim>\<open>graph/component.go\<close> and the moments of \<^verbatim>\<open>graph/moment.go\<close>: what a scan says is in a
  build is compared with the rows open there, and only the difference is written. A nullable text
  column reads as the empty text where it is null, as the code reads it. A Go map is the association
  list of its entries, visited in the order the record \<open>graphing\<close> gives; where the order in which
  statements are sent cannot show, because they name different rows, the list's own order is used.
\<close>

text \<open>
  What the process brings: the case tables, the hash, \<^verbatim>\<open>url.Parse\<close> followed by writing the address
  back without its user and query, the clock, and the order a range visits each kind of map in.
\<close>

record stated =
  isRoot :: bool
  said_purl :: string
  said_cpe :: string
  said_upstreamName :: string
  said_upstreamVersion :: string
  said_repository :: string

record edgeAt =
  at_Parent :: int
  at_Child :: int
  at_Kind :: string

record statedImage =
  si_version :: string
  si_purl :: string

record graphing =
  tables_of_case :: letters
  hash :: "string \<Rightarrow> string"
  rewritten :: "string \<Rightarrow> string option"
  seen_now :: int
  visit_described :: "nat \<Rightarrow> (string \<times> Described) list \<Rightarrow> (string \<times> Described) list"
  visit_images :: "(string \<times> Described list) list \<Rightarrow> (string \<times> Described list) list"
  visit_nodes :: "(int \<times> stated) list \<Rightarrow> (int \<times> stated) list"
  visit_versions :: "(int \<times> statedImage) list \<Rightarrow> (int \<times> statedImage) list"
  visit_edges :: "edgeAt list \<Rightarrow> edgeAt list"

definition identity_of :: "graphing \<Rightarrow> Described \<Rightarrow> string" where
  "identity_of g d = Described_Identity (tables_of_case g) (hash g) d"


subsection \<open>Moments\<close>

text \<open>Zero is now, and a scan's identifier is the moment it was applied.\<close>

type_synonym Moment = int

definition Now :: Moment where "Now = 0"

definition AtScan :: "int \<Rightarrow> Moment" where "AtScan scanID = scanID"

definition IsNow :: "Moment \<Rightarrow> bool" where "IsNow m \<longleftrightarrow> m = 0"

definition Held :: "Moment \<Rightarrow> int \<Rightarrow> int option \<Rightarrow> bool" where
  "Held m opened closed \<longleftrightarrow>
    (if m = 0 then closed = None
     else opened \<le> m \<and> (case closed of None \<Rightarrow> True | Some c \<Rightarrow> c > m))"


subsection \<open>Rows\<close>

record Node =
  n_ID :: int
  n_BuildID :: int
  n_ComponentID :: int
  n_IsRoot :: bool
  n_OpenedScanID :: int
  n_ClosedScanID :: "int option"
  n_Purl :: string
  n_CPE :: string
  n_UpstreamName :: string
  n_UpstreamVersion :: string
  n_Repository :: string

record Edge =
  e_ID :: int
  e_BuildID :: int
  e_ParentID :: int
  e_ChildID :: int
  e_Kind :: string
  e_OpenedScanID :: int
  e_ClosedScanID :: "int option"

record ImageVersion =
  iv_ID :: int
  iv_NodeID :: int
  iv_Version :: string
  iv_Purl :: string
  iv_OpenedScanID :: int
  iv_ClosedScanID :: "int option"

text \<open>A row of the component catalog, the columns interning writes.\<close>

record Interned = Component +
  NameFolded :: string
  UpstreamFolded :: string
  FoldKey_of :: string
  c_Supplier :: string
  c_License :: string
  FirstSeenAt :: int

text \<open>The tables, and the scan each build was last given, which taking the build writes first.\<close>

record graph_tables =
  last_scan_id :: "int \<Rightarrow> int option"
  nodes :: "Node table"
  edges :: "Edge table"
  versions :: "ImageVersion table"
  interned :: "Interned table"

datatype graph_error = NoName | NotListed string string | CameBack nat nat


subsection \<open>Descriptions\<close>

definition Valid :: "Described \<Rightarrow> bool" where
  "Valid d \<longleftrightarrow> trim_space (d_Name d) \<noteq> []"

definition trimmed :: "Described \<Rightarrow> Described" where
  "trimmed d = d\<lparr>d_Purl := trim_space (d_Purl d), d_CPE := trim_space (d_CPE d), d_Name := trim_space (d_Name d),
     d_Version := trim_space (d_Version d), d_UpstreamName := trim_space (d_UpstreamName d),
     d_UpstreamVersion := trim_space (d_UpstreamVersion d), d_Supplier := trim_space (d_Supplier d),
     d_License := trim_space (d_License d)\<rparr>"

definition statedWidth :: int where "statedWidth = 4096"

definition Source :: "Described \<Rightarrow> string \<times> string" where
  "Source d =
    (if trim_space (d_UpstreamName d) = [] then d_Name d else d_UpstreamName d,
     if trim_space (d_UpstreamVersion d) = [] then d_Version d else d_UpstreamVersion d)"

definition FoldKey :: "graphing \<Rightarrow> Described \<Rightarrow> string" where
  "FoldKey g d =
    (let parts = PartsOfPurl (tables_of_case g) (d_Purl d); (name, version) = Source d in
     hash g (strings_join [CHR 0x00] (map (Folded_name (tables_of_case g)) [Type parts, Distro parts, name, version])))"

text \<open>Whether a text holds another (\<^verbatim>\<open>strings.Contains\<close>).\<close>

fun holds_text :: "string \<Rightarrow> string \<Rightarrow> bool" where
  "holds_text pat [] = (pat = [])"
| "holds_text pat (c # cs) = (begins pat (c # cs) \<or> holds_text pat cs)"

definition WithoutCredential :: "graphing \<Rightarrow> string \<Rightarrow> string" where
  "WithoutCredential g remote =
    (let s = trim_space remote in
     if \<not> holds_text ''://'' s then s
     else case rewritten g s of None \<Rightarrow> [] | Some address \<Rightarrow> address)"

definition statedRepository :: "graphing \<Rightarrow> string \<Rightarrow> string" where
  "statedRepository g remote = HeadRunes (WithoutCredential g remote) statedWidth"


subsection \<open>Images\<close>

definition imageTypes :: "string list" where "imageTypes = [''oci'', ''docker'']"

definition IsImage :: "graphing \<Rightarrow> Described \<Rightarrow> bool" where
  "IsImage g d = (if trim_space (d_Purl d) \<noteq> []
     then Type (PartsOfPurl (tables_of_case g) (d_Purl d)) \<in> set imageTypes
     else d_Container d)"

definition withoutVersion :: "string \<Rightarrow> string" where
  "withoutVersion given =
    (let purl = trim_space given;
         head = before_any ''?#'' purl;
         tail = drop (length head) purl
     in case cut_last CHR ''@'' head of
          None \<Rightarrow> purl
        | Some (front, _) \<Rightarrow> if front = [] \<or> last front = CHR ''/'' then purl else front @ tail)"

definition AsImage :: "Described \<Rightarrow> Described" where
  "AsImage d = d\<lparr>d_Version := [], d_Purl := withoutVersion (d_Purl d)\<rparr>"

definition imagesByName :: "graphing \<Rightarrow> Described list \<Rightarrow> (string \<times> Described) list" where
  "imagesByName g components =
    (let held = fold (\<lambda>d m. if IsImage g d then append_at (identity_of g (AsImage d)) d m else m) components []
     in fold (\<lambda>(_, said) out. if length said = 1
            then AList.update (identity_of g (hd said)) (AsImage (hd said)) out else out)
          (visit_images g held) [])"


subsection \<open>The component catalog\<close>

text \<open>What \<^verbatim>\<open>Intern\<close> reads of the descriptions: each trimmed, the last under an identity kept.\<close>

fun read_described :: "graphing \<Rightarrow> Described list \<Rightarrow> (string \<times> Described) list \<Rightarrow> graph_error + (string \<times> Described) list" where
  "read_described g [] m = Inr m"
| "read_described g (d # ds) m =
    (if \<not> Valid d then Inl NoName
     else let t = trimmed d;
              t = t\<lparr>d_Supplier := HeadRunes (d_Supplier t) statedWidth, d_License := HeadRunes (d_License t) statedWidth\<rparr>
       in read_described g ds (AList.update (identity_of g t) t m))"

definition byIdentities :: "Interned table \<Rightarrow> string list \<Rightarrow> (string \<times> int) list" where
  "byIdentities t identities =
     fold (\<lambda>b found. fold (\<lambda>r. AList.update (Identity r) (c_ID r)) (filter (\<lambda>r. Identity r \<in> set b) (stored t)) found)
       (batches_of BatchSize identities) []"

definition component_row :: "graphing \<Rightarrow> string \<Rightarrow> Described \<Rightarrow> Interned" where
  "component_row g identity d =
     \<lparr>c_ID = 0, Identity = identity, c_Purl = d_Purl d, CPE = d_CPE d, c_Name = d_Name d, c_Version = d_Version d,
      UpstreamName = d_UpstreamName d, UpstreamVersion = d_UpstreamVersion d,
      NameFolded = Folded_name (tables_of_case g) (d_Name d),
      UpstreamFolded = Folded_name (tables_of_case g) (d_UpstreamName d),
      FoldKey_of = FoldKey g d, c_Supplier = d_Supplier d, c_License = d_License d, FirstSeenAt = seen_now g\<rparr>"

definition new_component :: "graphing \<Rightarrow> string \<times> Described \<Rightarrow> Interned" where
  "new_component g e = component_row g (fst e) (snd e)"

text \<open>One column a later report fills in where no earlier one stated it, a value at a time.\<close>

definition blank_values :: "(Described \<Rightarrow> string) \<Rightarrow> (string \<times> int) list \<Rightarrow> (string \<times> Described) list \<Rightarrow> (string \<times> int list) list" where
  "blank_values said known described =
     fold (\<lambda>(identity, d) m.
         let v = trim_space (said d) in
         if v = [] then m
         else case map_of known identity of None \<Rightarrow> m | Some i \<Rightarrow> append_at v i m)
       described []"

definition fillBlank ::
  "(Interned \<Rightarrow> string) \<Rightarrow> (string \<Rightarrow> Interned \<Rightarrow> Interned) \<Rightarrow> (Described \<Rightarrow> string) \<Rightarrow> (string \<times> int) list
    \<Rightarrow> (string \<times> Described) list \<Rightarrow> Interned table \<Rightarrow> Interned table" where
  "fillBlank get put said known described t =
     fold (\<lambda>(v, ids). update_rows c_ID (\<lambda>r. if get r = [] then put v r else r) ids) (blank_values said known described) t"

definition keep_row :: "Interned \<Rightarrow> Interned table \<Rightarrow> Interned table" where
  "keep_row r t = (if Identity r \<in> Identity ` set (stored t) then t
     else insert_rows (\<lambda>i r. r\<lparr>c_ID := i\<rparr>) [r] t)"

definition Intern :: "graphing \<Rightarrow> Described list \<Rightarrow> Interned table \<Rightarrow> graph_error + (string \<times> int) list \<times> Interned table" where
  "Intern g described t =
    (case read_described g described [] of
       Inl e \<Rightarrow> Inl e
     | Inr byIdentity \<Rightarrow>
         if byIdentity = [] then Inr ([], t)
         else let known = byIdentities t (map fst (visit_described g 0 byIdentity));
                  missing = map (new_component g) (filter (\<lambda>(i, _). map_of known i = None) (visit_described g 1 byIdentity));
                  t = fillBlank c_Supplier (\<lambda>v r. r\<lparr>c_Supplier := v\<rparr>) d_Supplier known (visit_described g 2 byIdentity) t;
                  t = fillBlank c_License (\<lambda>v r. r\<lparr>c_License := v\<rparr>) d_License known (visit_described g 3 byIdentity) t
           in if missing = [] then Inr (known, t)
              else let t = fold keep_row missing t;
                       written = map Identity missing;
                       found = byIdentities t written
                in if length found \<noteq> length written then Inl (CameBack (length written) (length found))
                   else Inr (fold (\<lambda>(identity, i). AList.update identity i) found known, t))"


subsection \<open>What a scan describes\<close>

record Dependency =
  Parent :: Described
  Child :: Described
  dp_Kind :: string

record Snapshot =
  Components :: "Described list"
  Root :: Described
  Dependencies :: "Dependency list"

text \<open>
  How a description is stored: the product without what moves with every build, an image the document
  states once by its name, and anything else as it stands.
\<close>

definition asStored :: "graphing \<Rightarrow> Snapshot \<Rightarrow> Described \<Rightarrow> Described" where
  "asStored g snap d =
    (if identity_of g d = identity_of g (Root snap) then AsRoot (Root snap)
     else case map_of (imagesByName g (Components snap)) (identity_of g d) of
         Some stored_image \<Rightarrow> stored_image
       | None \<Rightarrow> d)"

definition all_described :: "graphing \<Rightarrow> Snapshot \<Rightarrow> Described list" where
  "all_described g snap =
     AsRoot (Root snap) # map (asStored g snap) (Components snap)
     @ concat (map (\<lambda>dep. [asStored g snap (Parent dep), asStored g snap (Child dep)]) (Dependencies snap))"

text \<open>The identifier of a description, zero where none was interned.\<close>

definition id_in :: "graphing \<Rightarrow> (string \<times> int) list \<Rightarrow> Described \<Rightarrow> int" where
  "id_in g ids d = (case map_of ids (identity_of g d) of Some i \<Rightarrow> i | None \<Rightarrow> 0)"

definition root_stated :: stated where
  "root_stated = \<lparr>isRoot = True, said_purl = [], said_cpe = [], said_upstreamName = [], said_upstreamVersion = [],
     said_repository = []\<rparr>"

definition stated_of :: "graphing \<Rightarrow> Described \<Rightarrow> stated" where
  "stated_of g d = \<lparr>isRoot = False, said_purl = trim_space (d_Purl d), said_cpe = trim_space (d_CPE d),
     said_upstreamName = trim_space (d_UpstreamName d), said_upstreamVersion = trim_space (d_UpstreamVersion d),
     said_repository = statedRepository g (d_Repository d)\<rparr>"

definition wanted_nodes :: "graphing \<Rightarrow> (string \<times> int) list \<Rightarrow> Snapshot \<Rightarrow> (int \<times> stated) list" where
  "wanted_nodes g ids snap =
     fold (\<lambda>d wanted. let st = asStored g snap d; i = id_in g ids st in
         if map_of wanted i = None then AList.update i (stated_of g st) wanted else wanted)
       (Components snap) (AList.update (id_in g ids (AsRoot (Root snap))) root_stated [])"


subsection \<open>Nodes\<close>

definition node_open :: "int \<Rightarrow> Node \<Rightarrow> bool" where
  "node_open build n \<longleftrightarrow> n_BuildID n = build \<and> n_ClosedScanID n = None"

definition says_of :: "Node \<Rightarrow> stated" where
  "says_of n = \<lparr>isRoot = n_IsRoot n, said_purl = n_Purl n, said_cpe = n_CPE n, said_upstreamName = n_UpstreamName n,
     said_upstreamVersion = n_UpstreamVersion n, said_repository = n_Repository n\<rparr>"

record node_plan =
  nodeIDs :: "(int \<times> int) list"
  reroot :: "(int \<times> bool) list"
  restated :: "(int \<times> stated) list"
  gone_nodes :: "int list"

definition plan_node :: "(int \<times> stated) list \<Rightarrow> Node \<Rightarrow> node_plan \<Rightarrow> node_plan" where
  "plan_node wanted n p =
    (case map_of wanted (n_ComponentID n) of
       None \<Rightarrow> p\<lparr>gone_nodes := gone_nodes p @ [n_ID n]\<rparr>
     | Some says \<Rightarrow>
         (let p = p\<lparr>nodeIDs := AList.update (n_ComponentID n) (n_ID n) (nodeIDs p)\<rparr>;
              p = (if n_IsRoot n \<noteq> isRoot says then p\<lparr>reroot := AList.update (n_ID n) (isRoot says) (reroot p)\<rparr> else p)
          in if n_Purl n \<noteq> said_purl says \<or> n_CPE n \<noteq> said_cpe says \<or> n_UpstreamName n \<noteq> said_upstreamName says
               \<or> n_UpstreamVersion n \<noteq> said_upstreamVersion says \<or> n_Repository n \<noteq> said_repository says
             then p\<lparr>restated := AList.update (n_ID n) says (restated p)\<rparr> else p))"

definition new_node :: "int \<Rightarrow> int \<Rightarrow> int \<times> stated \<Rightarrow> Node" where
  "new_node build scan e = (case e of (componentID, says) \<Rightarrow>
     \<lparr>n_ID = 0, n_BuildID = build, n_ComponentID = componentID, n_IsRoot = isRoot says, n_OpenedScanID = scan,
      n_ClosedScanID = None, n_Purl = said_purl says, n_CPE = said_cpe says, n_UpstreamName = said_upstreamName says,
      n_UpstreamVersion = said_upstreamVersion says, n_Repository = said_repository says\<rparr>)"

definition restate :: "stated \<Rightarrow> Node \<Rightarrow> Node" where
  "restate says n = n\<lparr>n_Purl := said_purl says, n_CPE := said_cpe says, n_UpstreamName := said_upstreamName says,
     n_UpstreamVersion := said_upstreamVersion says, n_Repository := said_repository says\<rparr>"

definition put_node :: "int \<Rightarrow> Node \<Rightarrow> Node" where "put_node i n = n\<lparr>n_ID := i\<rparr>"

definition close_node :: "int \<Rightarrow> Node \<Rightarrow> Node" where "close_node scan n = n\<lparr>n_ClosedScanID := Some scan\<rparr>"

definition reconcileNodes ::
  "graphing \<Rightarrow> int \<Rightarrow> int \<Rightarrow> (int \<times> stated) list \<Rightarrow> Node table \<Rightarrow> (int \<times> int) list \<times> nat \<times> nat \<times> Node table" where
  "reconcileNodes g build scan wanted t =
    (let p = fold (plan_node wanted) (filter (node_open build) (stored t))
           \<lparr>nodeIDs = [], reroot = [], restated = [], gone_nodes = []\<rparr>;
         missing = map (new_node build scan) (filter (\<lambda>(c, _). map_of (nodeIDs p) c = None) (visit_nodes g wanted));
         t1 = fold (\<lambda>(i, says) t. t\<lparr>stored := set_where n_ID (restate says) [i] (stored t)\<rparr>) (restated p) t;
         added = numbering put_node (next_id t1) missing;
         t2 = insert_rows put_node missing t1;
         ids = fold (\<lambda>n. AList.update (n_ComponentID n) (n_ID n)) added (nodeIDs p);
         t3 = fold (\<lambda>becomes. update_rows n_ID (\<lambda>n. n\<lparr>n_IsRoot := becomes\<rparr>)
                 (map fst (filter (\<lambda>(_, b). b = becomes) (reroot p)))) [True, False] t2;
         t4 = update_rows n_ID (close_node scan) (gone_nodes p) t3
     in (ids, length missing, length (gone_nodes p), t4))"


subsection \<open>Edges\<close>

definition edge_open :: "int \<Rightarrow> Edge \<Rightarrow> bool" where
  "edge_open build e \<longleftrightarrow> e_BuildID e = build \<and> e_ClosedScanID e = None"

definition edge_key :: "Edge \<Rightarrow> edgeAt" where
  "edge_key e = \<lparr>at_Parent = e_ParentID e, at_Child = e_ChildID e, at_Kind = e_Kind e\<rparr>"

definition new_edge :: "int \<Rightarrow> int \<Rightarrow> edgeAt \<Rightarrow> Edge" where
  "new_edge build scan k = \<lparr>e_ID = 0, e_BuildID = build, e_ParentID = at_Parent k, e_ChildID = at_Child k,
     e_Kind = at_Kind k, e_OpenedScanID = scan, e_ClosedScanID = None\<rparr>"

definition put_edge :: "int \<Rightarrow> Edge \<Rightarrow> Edge" where "put_edge i e = e\<lparr>e_ID := i\<rparr>"

definition close_edge :: "int \<Rightarrow> Edge \<Rightarrow> Edge" where "close_edge scan e = e\<lparr>e_ClosedScanID := Some scan\<rparr>"

definition reconcileEdges :: "graphing \<Rightarrow> int \<Rightarrow> int \<Rightarrow> edgeAt list \<Rightarrow> Edge table \<Rightarrow> nat \<times> nat \<times> Edge table" where
  "reconcileEdges g build scan wanted t =
    (let op = filter (edge_open build) (stored t);
         have = map edge_key (filter (\<lambda>e. edge_key e \<in> set wanted) op);
         gone = map e_ID (filter (\<lambda>e. edge_key e \<notin> set wanted) op);
         missing = map (new_edge build scan) (filter (\<lambda>k. k \<notin> set have) (visit_edges g wanted));
         t1 = insert_rows put_edge missing t
     in (length missing, length gone, update_rows e_ID (close_edge scan) gone t1))"

text \<open>The edges a snapshot states, or the first that names a component it does not list.\<close>

fun wanted_edges ::
  "graphing \<Rightarrow> Snapshot \<Rightarrow> (string \<times> int) list \<Rightarrow> (int \<times> int) list \<Rightarrow> Dependency list \<Rightarrow> edgeAt list \<Rightarrow> graph_error + edgeAt list" where
  "wanted_edges g snap ids nodeids [] wanted = Inr wanted"
| "wanted_edges g snap ids nodeids (dep # deps) wanted =
    (case (map_of nodeids (id_in g ids (asStored g snap (Parent dep))),
           map_of nodeids (id_in g ids (asStored g snap (Child dep)))) of
       (Some parent, Some child) \<Rightarrow>
         wanted_edges g snap ids nodeids deps
           (List.insert \<lparr>at_Parent = parent, at_Child = child, at_Kind = dp_Kind dep\<rparr> wanted)
     | _ \<Rightarrow> Inl (NotListed (d_Name (Parent dep)) (d_Name (Child dep))))"


subsection \<open>Versions of images\<close>

definition version_row :: "int \<Rightarrow> int \<times> statedImage \<Rightarrow> ImageVersion" where
  "version_row scan e = (case e of (nodeID, says) \<Rightarrow>
     \<lparr>iv_ID = 0, iv_NodeID = nodeID, iv_Version = si_version says, iv_Purl = si_purl says,
      iv_OpenedScanID = scan, iv_ClosedScanID = None\<rparr>)"

definition put_version :: "int \<Rightarrow> ImageVersion \<Rightarrow> ImageVersion" where "put_version i v = v\<lparr>iv_ID := i\<rparr>"

definition close_version :: "int \<Rightarrow> ImageVersion \<Rightarrow> ImageVersion" where
  "close_version scan v = v\<lparr>iv_ClosedScanID := Some scan\<rparr>"

definition version_open :: "int \<Rightarrow> Node list \<Rightarrow> ImageVersion \<Rightarrow> bool" where
  "version_open build ns v \<longleftrightarrow> iv_ClosedScanID v = None \<and> list_ex (\<lambda>n. n_ID n = iv_NodeID v \<and> n_BuildID n = build) ns"

definition still_states :: "(int \<times> statedImage) list \<Rightarrow> ImageVersion \<Rightarrow> bool" where
  "still_states said v \<longleftrightarrow> map_of said (iv_NodeID v) = Some \<lparr>si_version = iv_Version v, si_purl = iv_Purl v\<rparr>"

definition reconcileImageVersions ::
  "graphing \<Rightarrow> int \<Rightarrow> int \<Rightarrow> (int \<times> statedImage) list \<Rightarrow> Node list \<Rightarrow> ImageVersion table \<Rightarrow> nat \<times> nat \<times> ImageVersion table" where
  "reconcileImageVersions g build scan said ns t =
    (let op = filter (version_open build ns) (stored t);
         have = map iv_NodeID (filter (still_states said) op);
         gone = map iv_ID (filter (\<lambda>v. \<not> still_states said v) op);
         missing = map (version_row scan) (filter (\<lambda>(n, _). n \<notin> set have) (visit_versions g said));
         t1 = update_rows iv_ID (close_version scan) gone t
     in (length missing, length gone, insert_rows put_version missing t1))"

definition stated_images :: "graphing \<Rightarrow> Snapshot \<Rightarrow> (string \<times> int) list \<Rightarrow> (int \<times> int) list \<Rightarrow> (int \<times> statedImage) list" where
  "stated_images g snap ids nodeids =
     fold (\<lambda>d said.
         case map_of (imagesByName g (Components snap)) (identity_of g d) of
           None \<Rightarrow> said
         | Some stored_image \<Rightarrow>
             if identity_of g d = identity_of g (Root snap) then said
             else AList.update (case map_of nodeids (id_in g ids stored_image) of Some n \<Rightarrow> n | None \<Rightarrow> 0)
                    \<lparr>si_version = trim_space (d_Version d), si_purl = trim_space (d_Purl d)\<rparr> said)
       (Components snap) []"


subsection \<open>Applying a snapshot\<close>

record Applied_graph =
  NodesOpened :: nat
  NodesClosed :: nat
  EdgesOpened :: nat
  EdgesClosed :: nat
  VersionsOpened :: nat
  VersionsClosed :: nat

definition ApplyWithin :: "graphing \<Rightarrow> int \<Rightarrow> int \<Rightarrow> Snapshot \<Rightarrow> graph_tables \<Rightarrow> graph_error + Applied_graph \<times> graph_tables" where
  "ApplyWithin g build scan snap t =
    (case Intern g (all_described g snap) (interned t) of
       Inl e \<Rightarrow> Inl e
     | Inr (ids, catalog') \<Rightarrow>
         (let (nodeids, nodes_opened, nodes_closed, ns) = reconcileNodes g build scan (wanted_nodes g ids snap) (nodes t);
              (versions_opened, versions_closed, vs) =
                reconcileImageVersions g build scan (stated_images g snap ids nodeids) (stored ns) (versions t)
          in case wanted_edges g snap ids nodeids (Dependencies snap) [] of
               Inl e \<Rightarrow> Inl e
             | Inr wanted \<Rightarrow>
                 (let (edges_opened, edges_closed, es) = reconcileEdges g build scan wanted (edges t)
                  in Inr (\<lparr>NodesOpened = nodes_opened, NodesClosed = nodes_closed, EdgesOpened = edges_opened,
                       EdgesClosed = edges_closed, VersionsOpened = versions_opened, VersionsClosed = versions_closed\<rparr>,
                     \<lparr>last_scan_id = (last_scan_id t)(build := Some scan), nodes = ns, edges = es, versions = vs,
                       interned = catalog'\<rparr>))))"

end
