(* ===== verification/Graph_Intern.thy ===== *)
theory Graph_Intern
  imports Graph_Snapshot "HOL-Library.Multiset"
begin

section \<open>What interning answers\<close>

text \<open>
  The lemmas of \<^verbatim>\<open>Components.Intern\<close>: each description is found again by the identity of what it
  says, whatever order a range visits the descriptions in, every identity has one row, and no row
  already there changes its identifier or its identity.
\<close>

subsection \<open>Maps built by a fold\<close>

lemma map_of_update: "map_of (AList.update k v m) = (map_of m)(k \<mapsto> v)"
  by (rule update_conv')

lemma map_of_mset:
  assumes "mset m' = mset m" and "distinct (map fst m)"
  shows "map_of m' = map_of m" and "distinct (map fst m')" and "set m' = set m"
proof -
  have "mset (map fst m') = mset (map fst m)" using assms(1) by simp
  then show d: "distinct (map fst m')" using assms(2) by (rule mset_eq_imp_distinct_iff [THEN iffD2])
  show s: "set m' = set m" using assms(1) by (rule mset_eq_setD)
  show "map_of m' = map_of m"
  proof
    fix k
    have "\<And>v. map_of m' k = Some v \<longleftrightarrow> map_of m k = Some v" using d assms(2) s by simp
    then show "map_of m' k = map_of m k" by (metis not_None_eq)
  qed
qed

text \<open>Updates in a row: at each key the last value given to it.\<close>

lemma fold_updates:
  "map_of (fold (\<lambda>d m. if P d then AList.update (k d) (v d) m else m) ds m) x
    = (case filter (\<lambda>d. P d \<and> k d = x) ds of [] \<Rightarrow> map_of m x | l \<Rightarrow> Some (v (last l)))"
proof (induction ds arbitrary: m)
  case (Cons d ds)
  show ?case
    by (auto simp: Cons map_of_update split: list.splits)
qed simp

lemma fold_updates_distinct:
  "distinct (map fst m) \<Longrightarrow> distinct (map fst (fold (\<lambda>d m. if P d then AList.update (k d) (v d) m else m) ds m))"
  by (induction ds arbitrary: m) (auto simp: distinct_update)

lemma fold_pairs:
  "distinct (map fst ps) \<Longrightarrow> map_of (fold (\<lambda>(k, v). AList.update k v) ps m) x
    = (case map_of ps x of Some v \<Rightarrow> Some v | None \<Rightarrow> map_of m x)"
proof (induction ps arbitrary: m)
  case (Cons p ps)
  obtain k v where p: "p = (k, v)" by fastforce
  have "map_of ps k = None" using Cons.prems p by (simp add: map_of_eq_None_iff)
  then show ?case using Cons p by (auto simp: map_of_update split: option.split)
qed simp

text \<open>First values kept: at each key the first value given to it.\<close>

lemma fold_firsts:
  "map_of (fold (\<lambda>d m. if map_of m (k d) = None then AList.update (k d) (v d) m else m) ds m) x
    = (case map_of m x of Some y \<Rightarrow> Some y
       | None \<Rightarrow> map_option v (find (\<lambda>d. k d = x) ds))"
proof (induction ds arbitrary: m)
  case Nil
  show ?case by (simp split: option.split)
next
  case (Cons d ds)
  show ?case
    by (auto simp: Cons map_of_update split: option.splits)
qed

lemma fold_firsts_distinct:
  "distinct (map fst m)
    \<Longrightarrow> distinct (map fst (fold (\<lambda>d m. if map_of m (k d) = None then AList.update (k d) (v d) m else m) ds m))"
  by (induction ds arbitrary: m) (auto simp: distinct_update)

lemma keys_of_map: "dom (map_of m) = fst ` set m"
  by (rule dom_map_of_conv_image_fst)


lemma image_of_map: "map f xs = map f ys \<Longrightarrow> f ` set xs = f ` set ys"
  by (drule arg_cong [where f = set]) simp


subsection \<open>Identities\<close>

lemma canonical_trim: "canonicalPurl u (trim_space p) = canonicalPurl u p"
  by (simp add: canonicalPurl_def)

lemma identity_reads:
  "canonicalPurl u (d_Purl d') = canonicalPurl u (d_Purl d) \<Longrightarrow> trim_space (d_Name d') = trim_space (d_Name d)
    \<Longrightarrow> trim_space (d_Version d') = trim_space (d_Version d) \<Longrightarrow> Described_Identity u h d' = Described_Identity u h d"
  unfolding Described_Identity_def Let_def by simp

lemma identity_trimmed:
  "identity_of g ((trimmed d)\<lparr>d_Supplier := s, d_License := l\<rparr>) = identity_of g d"
  unfolding identity_of_def by (rule identity_reads) (simp_all add: trimmed_def canonical_trim)


subsection \<open>What is read\<close>

lemma read_described_refuses: "(\<exists>e. read_described g ds m = Inl e) \<longleftrightarrow> (\<exists>d \<in> set ds. \<not> Valid d)"
  by (induction ds arbitrary: m) (auto simp: Let_def)

lemma read_described_error: "read_described g ds m = Inl e \<Longrightarrow> e = NoName"
  by (induction ds arbitrary: m) (auto simp: Let_def split: if_splits)

lemma read_described_keys:
  "read_described g ds m = Inr m' \<Longrightarrow> distinct (map fst m)
    \<Longrightarrow> distinct (map fst m') \<and> fst ` set m' = fst ` set m \<union> identity_of g ` set ds"
proof (induction ds arbitrary: m)
  case (Cons d ds)
  let ?t = "(trimmed d)\<lparr>d_Supplier := HeadRunes (d_Supplier (trimmed d)) statedWidth,
    d_License := HeadRunes (d_License (trimmed d)) statedWidth\<rparr>"
  have rest: "read_described g ds (AList.update (identity_of g d) ?t m) = Inr m'"
    using Cons.prems(1) by (simp add: Let_def identity_trimmed split: if_splits)
  have "fst ` set (AList.update (identity_of g d) ?t m) = insert (identity_of g d) (fst ` set m)"
    by (simp flip: dom_map_of_conv_image_fst add: map_of_update)
  then show ?case using Cons.IH [OF rest] Cons.prems(2) by (simp add: distinct_update)
qed simp


subsection \<open>The catalog\<close>

definition catalog_of :: "Interned table \<Rightarrow> (string \<times> int) list" where
  "catalog_of t = map (\<lambda>r. (Identity r, c_ID r)) (stored t)"

definition catalog_ok :: "Interned table \<Rightarrow> bool" where
  "catalog_ok t \<longleftrightarrow> numbers c_ID t \<and> distinct (map Identity (stored t))"

lemma catalog_of_keys: "map fst (catalog_of t) = map Identity (stored t)"
  by (simp add: catalog_of_def comp_def)

lemma fold_found:
  assumes "distinct (map Identity rs)"
  shows "map_of (fold (\<lambda>r. AList.update (Identity r) (c_ID r)) rs m) i
    = (case map_of (map (\<lambda>r. (Identity r, c_ID r)) rs) i of Some c \<Rightarrow> Some c | None \<Rightarrow> map_of m i)"
  using assms
proof (induction rs arbitrary: m)
  case (Cons r rs)
  have "map_of (map (\<lambda>r. (Identity r, c_ID r)) rs) (Identity r) = None"
    using Cons.prems by (auto simp: map_of_eq_None_iff image_iff)
  then show ?case using Cons by (auto simp: map_of_update split: option.splits)
qed simp

lemma map_of_filtered:
  "map_of (map (\<lambda>r. (k r, v r)) (filter (\<lambda>r. k r \<in> B) rs)) x = (if x \<in> B then map_of (map (\<lambda>r. (k r, v r)) rs) x else None)"
  by (induction rs) auto

lemma byIdentities_map:
  assumes "distinct (map Identity (stored t))"
  shows "map_of (byIdentities t is) i = (if i \<in> set is then map_of (catalog_of t) i else None)"
proof -
  have one: "map_of (fold (\<lambda>r. AList.update (Identity r) (c_ID r)) (filter (\<lambda>r. Identity r \<in> set b) (stored t)) m) i
      = (if i \<in> set b then (case map_of (catalog_of t) i of Some c \<Rightarrow> Some c | None \<Rightarrow> map_of m i) else map_of m i)" for b m
  proof -
    have "distinct (map Identity (filter (\<lambda>r. Identity r \<in> set b) (stored t)))"
      using assms by (rule distinct_map_filter)
    then show ?thesis by (simp only: fold_found map_of_filtered) (simp add: catalog_of_def)
  qed
  have "map_of (fold (\<lambda>b found. fold (\<lambda>r. AList.update (Identity r) (c_ID r))
      (filter (\<lambda>r. Identity r \<in> set b) (stored t)) found) bs m) i
    = (if i \<in> set (concat bs) \<and> map_of (catalog_of t) i \<noteq> None then map_of (catalog_of t) i else map_of m i)" for bs m
    by (induction bs arbitrary: m) (auto simp: one split: option.splits)
  from this [of "batches_of BatchSize is" "[]"] concat_batches_of [of BatchSize "is"]
  show ?thesis by (auto simp: byIdentities_def BatchSize_def simp del: set_concat)
qed

lemma fold_distinct_keys:
  "distinct (map fst m) \<Longrightarrow> distinct (map fst (fold (\<lambda>r. AList.update (Identity r) (c_ID r)) rs m))"
  by (induction rs arbitrary: m) (auto simp: distinct_update)

lemma byIdentities_distinct: "distinct (map fst (byIdentities t is))"
proof -
  have "distinct (map fst m) \<Longrightarrow> distinct (map fst (fold (\<lambda>b found. fold (\<lambda>r. AList.update (Identity r) (c_ID r))
      (filter (\<lambda>r. Identity r \<in> set b) (stored t)) found) bs m))" for bs m
    by (induction bs arbitrary: m) (auto simp: fold_distinct_keys)
  then show ?thesis by (simp add: byIdentities_def)
qed

lemma fold_keep:
  assumes "distinct (map Identity (stored t @ rs))"
  shows "fold keep_row rs t = insert_rows (\<lambda>i r. r\<lparr>c_ID := i\<rparr>) rs t"
  using assms
proof (induction rs arbitrary: t)
  case Nil
  show ?case by (simp add: insert_rows_def)
next
  case (Cons r rs)
  let ?put = "\<lambda>i (r :: Interned). r\<lparr>c_ID := i\<rparr>"
  have new: "keep_row r t = insert_rows ?put [r] t" using Cons.prems by (auto simp: keep_row_def)
  have "distinct (map Identity (stored (insert_rows ?put [r] t) @ rs))" using Cons.prems by (auto simp: insert_rows_def)
  from Cons.IH [OF this] show ?case by (simp add: new insert_rows_def)
qed


subsection \<open>Columns filled in where they were blank\<close>

text \<open>A column of a catalog row, and how it is written.\<close>

definition column :: "(Interned \<Rightarrow> string) \<Rightarrow> (string \<Rightarrow> Interned \<Rightarrow> Interned) \<Rightarrow> bool" where
  "column get put \<longleftrightarrow> (\<forall>v w r. get (put v r) = v \<and> put v (put w r) = put v r \<and> c_ID (put v r) = c_ID r
     \<and> Identity (put v r) = Identity r)"

lemma supplier_column: "column c_Supplier (\<lambda>v r. r\<lparr>c_Supplier := v\<rparr>)"
  and license_column: "column c_License (\<lambda>v r. r\<lparr>c_License := v\<rparr>)"
  by (simp_all add: column_def)

lemma fill_one:
  assumes "column get put"
  shows "update_rows c_ID (\<lambda>r. if get r = [] then put v r else r) ids t
    = t\<lparr>stored := map (\<lambda>r. if c_ID r \<in> set ids \<and> get r = [] then put v r else r) (stored t)\<rparr>"
proof -
  have "set_in_batches c_ID (\<lambda>r. if get r = [] then put v r else r) ids (stored t)
      = set_where c_ID (\<lambda>r. if get r = [] then put v r else r) ids (stored t)"
    using assms by (intro set_in_batches) (auto simp: column_def)
  then show ?thesis by (auto simp: update_rows_def set_where_def)
qed

lemma fill_frame:
  assumes "column get put"
  shows "catalog_of (fillBlank get put said known described t) = catalog_of t"
    and "next_id (fillBlank get put said known described t) = next_id t"
    and "map c_ID (stored (fillBlank get put said known described t)) = map c_ID (stored t)"
    and "map Identity (stored (fillBlank get put said known described t)) = map Identity (stored t)"
proof -
  have "catalog_of (fold (\<lambda>(v, ids). update_rows c_ID (\<lambda>r. if get r = [] then put v r else r) ids) bs t) = catalog_of t
      \<and> next_id (fold (\<lambda>(v, ids). update_rows c_ID (\<lambda>r. if get r = [] then put v r else r) ids) bs t) = next_id t" for bs
    using assms by (induction bs arbitrary: t) (auto simp: fill_one column_def catalog_of_def)
  then show c: "catalog_of (fillBlank get put said known described t) = catalog_of t"
    and "next_id (fillBlank get put said known described t) = next_id t" by (simp_all add: fillBlank_def)
  from arg_cong [OF c, of "map snd"] arg_cong [OF c, of "map fst"]
  show "map c_ID (stored (fillBlank get put said known described t)) = map c_ID (stored t)"
    and "map Identity (stored (fillBlank get put said known described t)) = map Identity (stored t)"
    by (simp_all add: catalog_of_def comp_def)
qed


subsection \<open>Interning\<close>

definition graphing_ok :: "graphing \<Rightarrow> bool" where
  "graphing_ok g \<longleftrightarrow> (\<forall>n m. mset (visit_described g n m) = mset m) \<and> (\<forall>m. mset (visit_images g m) = mset m)
     \<and> (\<forall>m. mset (visit_nodes g m) = mset m) \<and> (\<forall>m. mset (visit_versions g m) = mset m)
     \<and> (\<forall>m. mset (visit_edges g m) = mset m)"

definition missing_of :: "graphing \<Rightarrow> (string \<times> Described) list \<Rightarrow> Interned table \<Rightarrow> Interned list" where
  "missing_of g m t = map (new_component g)
     (filter (\<lambda>(i, _). map_of (byIdentities t (map fst (visit_described g 0 m))) i = None) (visit_described g 1 m))"

definition filled_in :: "graphing \<Rightarrow> (string \<times> Described) list \<Rightarrow> Interned table \<Rightarrow> Interned table" where
  "filled_in g m t = (let known = byIdentities t (map fst (visit_described g 0 m)) in
     fillBlank c_License (\<lambda>v r. r\<lparr>c_License := v\<rparr>) d_License known (visit_described g 3 m)
       (fillBlank c_Supplier (\<lambda>v r. r\<lparr>c_Supplier := v\<rparr>) d_Supplier known (visit_described g 2 m) t))"

lemma filled_frame:
  "catalog_of (filled_in g m t) = catalog_of t" "next_id (filled_in g m t) = next_id t"
  "map c_ID (stored (filled_in g m t)) = map c_ID (stored t)"
  "map Identity (stored (filled_in g m t)) = map Identity (stored t)"
  by (simp_all add: filled_in_def Let_def fill_frame [OF supplier_column] fill_frame [OF license_column])

lemma new_component_identity [simp]: "Identity (new_component g e) = fst e"
  by (simp add: new_component_def component_row_def split: prod.splits)

lemma visits_described:
  assumes "graphing_ok g" and "distinct (map fst m)"
  shows "map_of (visit_described g n m) = map_of m" "distinct (map fst (visit_described g n m))"
    "set (visit_described g n m) = set m"
  using map_of_mset [of "visit_described g n m" m] assms by (simp_all add: graphing_ok_def)

lemma missing_identities:
  assumes g: "graphing_ok g" and m: "distinct (map fst m)" and t: "catalog_ok t"
  shows "distinct (map Identity (stored (filled_in g m t) @ missing_of g m t))"
    and "set (map Identity (missing_of g m t)) = fst ` set m - Identity ` set (stored t)"
proof -
  note v = visits_described [OF g m]
  have known: "map_of (byIdentities t (map fst (visit_described g 0 m))) i = None \<longleftrightarrow> i \<notin> Identity ` set (stored t)"
    if "i \<in> fst ` set m" for i
  proof -
    have "set (map fst (visit_described g 0 m)) = fst ` set m" by (simp add: v(3))
    moreover have "fst ` set (catalog_of t) = Identity ` set (stored t)"
      using arg_cong [OF catalog_of_keys, of set t] by simp
    ultimately show ?thesis
      using that t by (simp only: byIdentities_map catalog_ok_def map_of_eq_None_iff if_True)
  qed
  have d: "distinct (map Identity (missing_of g m t))"
    using distinct_map_filter [OF v(2) [of 1]] by (simp add: missing_of_def comp_def)
  show s: "set (map Identity (missing_of g m t)) = fst ` set m - Identity ` set (stored t)"
    using known v(3) [of 1] by (force simp: missing_of_def)
  show "distinct (map Identity (stored (filled_in g m t) @ missing_of g m t))"
    using d s t image_of_map [OF filled_frame(4), of g m t] by (auto simp: filled_frame catalog_ok_def)
qed

text \<open>What interning leaves and answers, for descriptions that have a name.\<close>

lemma Intern_answers:
  assumes g: "graphing_ok g" and t: "catalog_ok t"
    and read: "read_described g ds [] = Inr m"
  obtains ids where "Intern g ds t = Inr (ids, insert_rows (\<lambda>i r. r\<lparr>c_ID := i\<rparr>) (missing_of g m t) (filled_in g m t))"
    and "\<And>i. i \<in> identity_of g ` set ds
      \<Longrightarrow> map_of ids i = map_of (catalog_of (insert_rows (\<lambda>i r. r\<lparr>c_ID := i\<rparr>) (missing_of g m t) (filled_in g m t))) i"
proof -
  let ?put = "\<lambda>i (r :: Interned). r\<lparr>c_ID := i\<rparr>"
  let ?t = "filled_in g m t" and ?rs = "missing_of g m t"
  let ?t' = "insert_rows ?put ?rs ?t"
  let ?known = "byIdentities t (map fst (visit_described g 0 m))"
  from read_described_keys [OF read] have m: "distinct (map fst m)" and keys: "fst ` set m = identity_of g ` set ds" by auto
  note v = visits_described [OF g m]
  note ids = missing_identities [OF g m t]
  have numbered: "Identity ` set (numbering ?put n rs) = Identity ` set rs" for n and rs :: "Interned list"
  proof -
    have "map Identity (numbering ?put n rs) = map Identity rs" by (rule numbering_map) simp
    from arg_cong [OF this, of set] show ?thesis by simp
  qed
  have kept: "fold keep_row ?rs ?t = ?t'" using ids(1) by (rule fold_keep)
  have known: "map_of ?known i = map_of (catalog_of t) i" if "i \<in> fst ` set m" for i
  proof -
    have "set (map fst (visit_described g 0 m)) = fst ` set m" by (simp add: v(3))
    then show ?thesis using that t by (simp only: byIdentities_map catalog_ok_def if_True)
  qed
  have cat': "catalog_of ?t' = catalog_of t @ map (\<lambda>r. (Identity r, c_ID r)) (numbering ?put (next_id ?t) ?rs)"
    using filled_frame(1) [of g m t] by (simp add: catalog_of_def insert_rows_def)
  show ?thesis
  proof (cases "m = []")
    case True
    then have nothing: "visit_described g n m = []" for n using v(3) [of n] by simp
    then have "?rs = []" and "?t = t"
      by (simp_all add: missing_of_def filled_in_def fillBlank_def blank_values_def)
    then show ?thesis using that [of "[]"] True keys read by (simp add: Intern_def insert_rows_def)
  next
    case False
    show ?thesis
    proof (cases "?rs = []")
      case True
      then have "Intern g ds t = Inr (?known, ?t)"
        using False read by (simp add: Intern_def Let_def missing_of_def filled_in_def)
      then show ?thesis using that [of ?known] True known keys filled_frame(1) [of g m t]
        by (simp add: insert_rows_def catalog_of_def)
    next
      case rs: False
      let ?found = "byIdentities ?t' (map Identity ?rs)"
      have d': "distinct (map Identity (stored ?t'))"
        using ids(1) numbering_map [of Identity ?put] by (simp add: insert_rows_def)
      have found: "map_of ?found i = (if i \<in> set (map Identity ?rs) then map_of (catalog_of ?t') i else None)" for i
        using d' by (rule byIdentities_map)
      have there: "set (map Identity ?rs) \<subseteq> fst ` set (catalog_of ?t')"
        using numbered arg_cong [OF catalog_of_keys, of set ?t']
        by (auto simp: insert_rows_def)
      have "fst ` set ?found = dom (map_of ?found)" by (simp add: dom_map_of_conv_image_fst)
      also have "\<dots> = set (map Identity ?rs)"
        using there by (auto simp only: found dom_def map_of_eq_None_iff subset_iff mem_Collect_eq split: if_splits) 
      finally have "set (map fst ?found) = set (map Identity ?rs)" by simp
      moreover have "distinct (map fst ?found)" by (rule byIdentities_distinct)
      moreover have "distinct (map Identity ?rs)" using ids(1) by simp
      ultimately have len: "length ?found = length (map Identity ?rs)"
        by (metis distinct_card length_map)
      let ?ids = "fold (\<lambda>(identity, i). AList.update identity i) ?found ?known"
      have "Intern g ds t = Inr (?ids, ?t')"
        using False rs read len kept by (simp add: Intern_def Let_def missing_of_def filled_in_def)
      moreover have "map_of ?ids i = map_of (catalog_of ?t') i" if "i \<in> identity_of g ` set ds" for i
      proof (cases "i \<in> set (map Identity ?rs)")
        case True
        then have "map_of (catalog_of ?t') i \<noteq> None" using there by (auto simp only: map_of_eq_None_iff)
        then show ?thesis using True by (auto simp only: fold_pairs [OF byIdentities_distinct] found if_True split: option.split)
      next
        case False
        then have "map_of (map (\<lambda>r. (Identity r, c_ID r)) (numbering ?put (next_id ?t) ?rs)) i = None"
          using numbered [of "next_id ?t" ?rs] unfolding map_of_eq_None_iff
          by (simp add: image_image)
        then have "map_of (catalog_of ?t') i = map_of (catalog_of t) i"
          unfolding cat' by (simp add: map_add_def split: option.split)
        then show ?thesis using False that keys known
          by (simp only: fold_pairs [OF byIdentities_distinct] found if_False option.case)
      qed
      ultimately show ?thesis by (rule that)
    qed
  qed
qed

text \<open>What holds of the catalog after it, as the rest of the graph uses it.\<close>

definition component_named :: "Interned table \<Rightarrow> int \<Rightarrow> string" where
  "component_named t c = (case map_of (map (\<lambda>r. (c_ID r, Identity r)) (stored t)) c of Some i \<Rightarrow> i | None \<Rightarrow> [])"

definition component_ids :: "Interned table \<Rightarrow> int set" where
  "component_ids t = c_ID ` set (stored t)"

lemma component_named_row: "catalog_ok t \<Longrightarrow> r \<in> set (stored t) \<Longrightarrow> component_named t (c_ID r) = Identity r"
proof -
  assume t: "catalog_ok t" and r: "r \<in> set (stored t)"
  have "distinct (map fst (map (\<lambda>r. (c_ID r, Identity r)) (stored t)))"
    using t by (simp add: catalog_ok_def numbers_def comp_def)
  moreover have "(c_ID r, Identity r) \<in> set (map (\<lambda>r. (c_ID r, Identity r)) (stored t))" using r by auto
  ultimately show ?thesis unfolding component_named_def by (simp only: map_of_is_SomeI option.case)
qed

lemma catalog_row: "map_of (catalog_of t) i = Some c \<Longrightarrow> \<exists>r \<in> set (stored t). c_ID r = c \<and> Identity r = i"
  by (auto simp: catalog_of_def dest!: map_of_SomeD)

lemma named_in: "catalog_ok t \<Longrightarrow> map_of (catalog_of t) i = Some c \<Longrightarrow> component_named t c = i \<and> c \<in> component_ids t"
  using catalog_row component_named_row by (fastforce simp: component_ids_def)

lemma named_injective:
  assumes "catalog_ok t" "c \<in> component_ids t" "c' \<in> component_ids t" "component_named t c = component_named t c'"
  shows "c = c'"
proof -
  from assms(2,3) obtain r r' where r: "r \<in> set (stored t)" "r' \<in> set (stored t)" "c = c_ID r" "c' = c_ID r'"
    by (auto simp: component_ids_def)
  then have "Identity r = Identity r'" using assms(1,4) by (simp add: component_named_row)
  then have "r = r'" using assms(1) r(1,2) by (auto simp: catalog_ok_def distinct_map dest: inj_onD)
  then show ?thesis using r by simp
qed

lemma Intern_catalog:
  assumes g: "graphing_ok g" and t: "catalog_ok t" and int: "Intern g ds t = Inr (ids, t')"
  shows "catalog_ok t'"
    and "component_ids t \<subseteq> component_ids t'"
    and "c \<in> component_ids t \<Longrightarrow> component_named t' c = component_named t c"
    and "i \<in> identity_of g ` set ds \<Longrightarrow> \<exists>c \<in> component_ids t'. map_of ids i = Some c \<and> component_named t' c = i"
proof -
  let ?put = "\<lambda>i (r :: Interned). r\<lparr>c_ID := i\<rparr>"
  obtain m where read: "read_described g ds [] = Inr m"
    using int by (cases "read_described g ds []") (auto simp: Intern_def)
  from read_described_keys [OF read] have m: "distinct (map fst m)" and keys: "fst ` set m = identity_of g ` set ds" by auto
  let ?t = "filled_in g m t" and ?rs = "missing_of g m t"
  have t': "t' = insert_rows ?put ?rs ?t"
    and ids: "\<And>i. i \<in> identity_of g ` set ds \<Longrightarrow> map_of ids i = map_of (catalog_of t') i"
    using Intern_answers [OF g t read] int by auto
  note fr = filled_frame [of g m t]
  note new = missing_identities [OF g m t]
  have "numbers c_ID ?t" using t fr(2,3) image_of_map [OF fr(3)]
    by (simp add: catalog_ok_def numbers_def) (metis imageE imageI)
  then have num: "numbers c_ID t'" unfolding t' by (intro numbers_insert) simp_all
  have ident: "map Identity (stored t') = map Identity (stored t) @ map Identity ?rs"
  proof -
    have "map Identity (numbering ?put (next_id ?t) ?rs) = map Identity ?rs" by (rule numbering_map) simp
    then show ?thesis by (simp add: t' insert_rows_def fr)
  qed
  then have "distinct (map Identity (stored t'))" using new(1) fr(4) by simp
  with num show ok: "catalog_ok t'" by (simp add: catalog_ok_def)
  have pairs: "(\<lambda>r. (Identity r, c_ID r)) ` set (stored ?t) = (\<lambda>r. (Identity r, c_ID r)) ` set (stored t)"
    using arg_cong [OF fr(1), of set] by (simp add: catalog_of_def)
  have row: "\<exists>r' \<in> set (stored t'). c_ID r' = c_ID r \<and> Identity r' = Identity r" if "r \<in> set (stored t)" for r
  proof -
    have "(Identity r, c_ID r) \<in> (\<lambda>r. (Identity r, c_ID r)) ` set (stored ?t)" using that pairs by blast
    then obtain r' where "r' \<in> set (stored ?t)" "Identity r' = Identity r" "c_ID r' = c_ID r" by auto
    then show ?thesis by (auto simp: t' insert_rows_def intro: bexI [of _ r'])
  qed
  show "component_ids t \<subseteq> component_ids t'" 
  proof
    fix c assume "c \<in> component_ids t"
    then obtain r where "r \<in> set (stored t)" "c = c_ID r" by (auto simp: component_ids_def)
    then show "c \<in> component_ids t'" using row [of r] unfolding component_ids_def by (metis imageI)
  qed
  show "component_named t' c = component_named t c" if "c \<in> component_ids t"
  proof -
    from that obtain r where r: "r \<in> set (stored t)" "c = c_ID r" by (auto simp: component_ids_def)
    from row [OF r(1)] obtain r' where r': "r' \<in> set (stored t')" "c_ID r' = c_ID r" "Identity r' = Identity r" by blast
    show ?thesis using component_named_row [OF ok r'(1)] component_named_row [OF t r(1)] r r' by simp
  qed
  show "\<exists>c \<in> component_ids t'. map_of ids i = Some c \<and> component_named t' c = i" if i: "i \<in> identity_of g ` set ds"
  proof -
    have "i \<in> Identity ` set (stored t')"
      using i keys new(2) arg_cong [OF ident, of set] by auto
    then have "i \<in> fst ` set (catalog_of t')" by (force simp: catalog_of_def)
    then obtain c where c: "map_of (catalog_of t') i = Some c" by (metis map_of_eq_None_iff not_None_eq)
    then show ?thesis using named_in [OF ok c] ids [OF i] by (intro bexI [of _ c]) simp_all
  qed
qed

lemma Intern_refuses:
  assumes g: "graphing_ok g" and t: "catalog_ok t"
  shows "(\<exists>e. Intern g ds t = Inl e) \<longleftrightarrow> (\<exists>d \<in> set ds. \<not> Valid d)"
    and "Intern g ds t = Inl e \<Longrightarrow> e = NoName"
proof -
  show "(\<exists>e. Intern g ds t = Inl e) \<longleftrightarrow> (\<exists>d \<in> set ds. \<not> Valid d)"
  proof (cases "read_described g ds []")
    case (Inl e)
    then show ?thesis using read_described_refuses [of g ds "[]"] by (simp add: Intern_def)
  next
    case (Inr m)
    then show ?thesis using read_described_refuses [of g ds "[]"] Intern_answers [OF g t Inr] by auto
  qed
  show "Intern g ds t = Inl e \<Longrightarrow> e = NoName"
  proof (cases "read_described g ds []")
    case (Inl e')
    then show "Intern g ds t = Inl e \<Longrightarrow> e = NoName" using read_described_error [OF Inl] by (simp add: Intern_def)
  next
    case (Inr m)
    then show "Intern g ds t = Inl e \<Longrightarrow> e = NoName" using Intern_answers [OF g t Inr] by auto
  qed
qed

end
