(* ===== verification/Graph_Rows.thy ===== *)
theory Graph_Rows
  imports Graph_Intern
begin

section \<open>Rows held over an interval of scans\<close>

text \<open>
  A node, an edge and the version of an image are each held from the scan that opened the row until
  the scan that closed it. What a scan does to any of the three tables has one shape, and what
  follows from the shape is proved once here: what an earlier moment reads is not changed, and what
  is open afterwards is what stayed and what was added.
\<close>

locale interval_rows =
  fixes ident :: "'r \<Rightarrow> int"
    and put :: "int \<Rightarrow> 'r \<Rightarrow> 'r"
    and close :: "int \<Rightarrow> 'r \<Rightarrow> 'r"
    and opened :: "'r \<Rightarrow> int"
    and closed :: "'r \<Rightarrow> int option"
    and what :: "'r \<Rightarrow> 'k"
  assumes ident_put [simp]: "ident (put i r) = i"
    and opened_put [simp]: "opened (put i r) = opened r"
    and closed_put [simp]: "closed (put i r) = closed r"
    and what_put [simp]: "what (put i r) = what r"
    and ident_close [simp]: "ident (close s r) = ident r"
    and opened_close [simp]: "opened (close s r) = opened r"
    and closed_close [simp]: "closed (close s r) = Some s"
    and what_close [simp]: "what (close s r) = what r"
begin

definition kept_by :: "int \<Rightarrow> int set \<Rightarrow> ('r \<Rightarrow> 'r) \<Rightarrow> 'r \<Rightarrow> bool" where
  "kept_by s gone h r \<longleftrightarrow> ident (h r) = ident r \<and> what (h r) = what r \<and> opened (h r) = opened r
     \<and> closed (h r) = (if ident r \<in> gone then Some s else closed r) \<and> (ident r \<in> gone \<longrightarrow> closed r = None)"

text \<open>A scan's writes: rows closed, rows added, and nothing else that an interval shows.\<close>

definition scan_wrote :: "int \<Rightarrow> int set \<Rightarrow> 'r list \<Rightarrow> 'r table \<Rightarrow> 'r table \<Rightarrow> bool" where
  "scan_wrote s gone new t t' \<longleftrightarrow> (\<exists>h. stored t' = map h (stored t) @ numbering put (next_id t) new
     \<and> next_id t' = next_id t + int (length new) \<and> (\<forall>r \<in> set (stored t). kept_by s gone h r))
     \<and> (\<forall>r \<in> set new. opened r = s \<and> closed r = None)"

lemma written_numbers:
  assumes w: "scan_wrote s gone new t t'" and t: "numbers ident t"
  shows "numbers ident t'"
proof -
  from w obtain h where st: "stored t' = map h (stored t) @ numbering put (next_id t) new"
    and n: "next_id t' = next_id t + int (length new)" and k: "\<forall>r \<in> set (stored t). kept_by s gone h r"
    unfolding scan_wrote_def by auto
  let ?u = "t\<lparr>stored := map h (stored t)\<rparr>"
  have "map ident (map h (stored t)) = map ident (stored t)" using k by (simp add: kept_by_def)
  then have "numbers ident ?u" using t by (rule numbers_rows)
  then have "numbers ident (insert_rows put new ?u)" by (intro numbers_insert) simp_all
  then show ?thesis by (simp add: numbers_def insert_rows_def st n)
qed

lemma written_ids: "scan_wrote s gone new t t' \<Longrightarrow> ident ` set (stored t) \<subseteq> ident ` set (stored t')"
  by (auto simp: scan_wrote_def kept_by_def image_iff) (metis Un_iff image_eqI)

text \<open>The rows there before, and what became of each.\<close>

lemma written_row:
  assumes "scan_wrote s gone new t t'" and "r' \<in> set (stored t')"
  obtains (kept) r where "r \<in> set (stored t)" "ident r' = ident r" "what r' = what r" "opened r' = opened r"
      "closed r' = (if ident r \<in> gone then Some s else closed r)" "ident r \<in> gone \<longrightarrow> closed r = None"
  | (new) i r where "r \<in> set new" "r' = put i r" "what r' = what r" "opened r' = s" "closed r' = None"
      "next_id t \<le> ident r'"
proof -
  from assms(1) obtain h where st: "stored t' = map h (stored t) @ numbering put (next_id t) new"
    and k: "\<forall>r \<in> set (stored t). kept_by s gone h r" and n: "\<forall>r \<in> set new. opened r = s \<and> closed r = None"
    unfolding scan_wrote_def by auto
  from assms(2) st consider r where "r \<in> set (stored t)" "r' = h r" | "r' \<in> set (numbering put (next_id t) new)" by auto
  then show ?thesis
  proof cases
    case 1
    then show ?thesis using k by (intro kept [of r]) (auto simp: kept_by_def)
  next
    case 2
    from numbering_from [OF 2] obtain i r where r: "r \<in> set new" "r' = put i r" by auto
    show ?thesis
    proof (rule new [OF r])
      show "what r' = what r" "opened r' = s" "closed r' = None" using r n by simp_all
      show "next_id t \<le> ident r'" using numbering_range [of ident put r', OF ident_put 2] by simp
    qed
  qed
qed

lemma written_old:
  assumes "scan_wrote s gone new t t'" and "r \<in> set (stored t)"
  obtains r' where "r' \<in> set (stored t')" "ident r' = ident r" "what r' = what r" "opened r' = opened r"
      "closed r' = (if ident r \<in> gone then Some s else closed r)"
proof -
  from assms(1) obtain h where "stored t' = map h (stored t) @ numbering put (next_id t) new"
    and "\<forall>r \<in> set (stored t). kept_by s gone h r" unfolding scan_wrote_def by auto
  then show ?thesis using that [of "h r"] assms(2) by (simp add: kept_by_def)
qed

lemma written_new:
  assumes "scan_wrote s gone new t t'" and "r \<in> set new"
  obtains r' where "r' \<in> set (stored t')" "what r' = what r" "opened r' = s" "closed r' = None"
proof -
  from assms(1) obtain h where st: "stored t' = map h (stored t) @ numbering put (next_id t) new"
    and n: "\<forall>r \<in> set new. opened r = s \<and> closed r = None" unfolding scan_wrote_def by auto
  have "r \<in> set new \<Longrightarrow> \<exists>i. put i r \<in> set (numbering put n new)" for n
    by (induction new arbitrary: n) auto
  with assms(2) obtain i where "put i r \<in> set (numbering put (next_id t) new)" by blast
  then show ?thesis using that [of "put i r"] st n assms(2) by simp
qed

text \<open>What a row is held over, as a moment reads it.\<close>

definition rows_held :: "('k \<Rightarrow> bool) \<Rightarrow> Moment \<Rightarrow> 'r table \<Rightarrow> (int \<times> 'k) set" where
  "rows_held P m t = {(ident r, what r) | r. r \<in> set (stored t) \<and> P (what r) \<and> Held m (opened r) (closed r)}"

lemma heldI: "r \<in> set (stored t) \<Longrightarrow> P (what r) \<Longrightarrow> Held m (opened r) (closed r) \<Longrightarrow> i = ident r \<Longrightarrow> k = what r
    \<Longrightarrow> (i, k) \<in> rows_held P m t"
  unfolding rows_held_def by blast

text \<open>
  A moment before the scan reads what it read, and so does every moment where the scan wrote no row
  the reader asks for.
\<close>

lemma written_before:
  assumes w: "scan_wrote s gone new t t'"
    and gone: "\<And>r. r \<in> set (stored t) \<Longrightarrow> ident r \<in> gone \<Longrightarrow> P (what r) \<Longrightarrow> m \<noteq> 0 \<and> m < s"
    and new: "\<And>r. r \<in> set new \<Longrightarrow> P (what r) \<Longrightarrow> m \<noteq> 0 \<and> m < s"
  shows "rows_held P m t' = rows_held P m t"
proof (intro set_eqI iffI)
  fix x assume "x \<in> rows_held P m t'"
  then obtain r' where r': "r' \<in> set (stored t')" "P (what r')" "Held m (opened r') (closed r')" "x = (ident r', what r')"
    by (auto simp: rows_held_def)
  from w r'(1) show "x \<in> rows_held P m t"
  proof (cases rule: written_row)
    case (kept r)
    have "Held m (opened r) (closed r)"
      using r'(3) kept(4,5,6) gone [OF kept(1)] kept(3) r'(2) by (auto simp: Held_def split: if_splits)
    then show ?thesis using kept r' by (auto simp: rows_held_def)
  next
    case (new i r)
    then have "m \<noteq> 0 \<and> m < s" using assms(3) [of r] r'(2) by simp
    then show ?thesis using r'(3) new(4) by (simp add: Held_def)
  qed
next
  fix x assume "x \<in> rows_held P m t"
  then obtain r where r: "r \<in> set (stored t)" "P (what r)" "Held m (opened r) (closed r)" "x = (ident r, what r)"
    by (auto simp: rows_held_def)
  from w r(1) obtain r' where r': "r' \<in> set (stored t')" "ident r' = ident r" "what r' = what r" "opened r' = opened r"
      "closed r' = (if ident r \<in> gone then Some s else closed r)" by (rule written_old)
  have "ident r \<in> gone \<longrightarrow> closed r = None" using w r(1) by (auto simp: scan_wrote_def kept_by_def)
  then have "Held m (opened r') (closed r')"
    using r(3) r'(4,5) gone [OF r(1)] r(2) by (auto simp: Held_def)
  then show "x \<in> rows_held P m t'" unfolding r(4) using r r' by (intro heldI [of r']) simp_all
qed

text \<open>What is open afterwards: what was and stayed, and what was added.\<close>

lemma written_now:
  assumes w: "scan_wrote s gone new t t'"
  shows "snd ` rows_held P 0 t' = {what r | r. r \<in> set (stored t) \<and> P (what r) \<and> closed r = None \<and> ident r \<notin> gone}
    \<union> {what r | r. r \<in> set new \<and> P (what r)}"
proof (intro set_eqI iffI)
  fix x assume "x \<in> snd ` rows_held P 0 t'"
  then obtain r' where r': "r' \<in> set (stored t')" "P (what r')" "closed r' = None" "x = what r'"
    by (auto simp: rows_held_def Held_def)
  from w r'(1) show "x \<in> {what r | r. r \<in> set (stored t) \<and> P (what r) \<and> closed r = None \<and> ident r \<notin> gone}
    \<union> {what r | r. r \<in> set new \<and> P (what r)}"
    by (cases rule: written_row) (use r' in \<open>auto split: if_splits\<close>)
next
  fix x assume "x \<in> {what r | r. r \<in> set (stored t) \<and> P (what r) \<and> closed r = None \<and> ident r \<notin> gone}
    \<union> {what r | r. r \<in> set new \<and> P (what r)}"
  then consider r where "r \<in> set (stored t)" "P (what r)" "closed r = None" "ident r \<notin> gone" "x = what r"
    | r where "r \<in> set new" "P (what r)" "x = what r" by blast
  then show "x \<in> snd ` rows_held P 0 t'"
  proof cases
    case 1
    from w 1(1) obtain r' where "r' \<in> set (stored t')" "what r' = what r"
      "closed r' = (if ident r \<in> gone then Some s else closed r)" by (rule written_old)
    then have "(ident r', what r) \<in> rows_held P 0 t'" using 1 by (intro heldI [of r']) (simp_all add: Held_def)
    then show ?thesis using 1 by (force simp: image_iff)
  next
    case 2
    from w 2(1) obtain r' where "r' \<in> set (stored t')" "what r' = what r" "closed r' = None"
      by (rule written_new)
    then have "(ident r', what r) \<in> rows_held P 0 t'" using 2 by (intro heldI [of r']) (simp_all add: Held_def)
    then show ?thesis using 2 by (force simp: image_iff)
  qed
qed

text \<open>Where no row names a scan after the last, the last scan's moment is now.\<close>

lemma held_latest:
  assumes "s \<noteq> 0" and "\<And>r. r \<in> set (stored t) \<Longrightarrow> P (what r) \<Longrightarrow> opened r \<le> s \<and> (\<forall>c. closed r = Some c \<longrightarrow> c \<le> s)"
  shows "rows_held P s t = rows_held P 0 t"
proof -
  have "Held s (opened r) (closed r) \<longleftrightarrow> Held 0 (opened r) (closed r)" if "r \<in> set (stored t)" "P (what r)" for r
    using assms(1) assms(2) [OF that] by (auto simp: Held_def split: option.splits)
  then show ?thesis unfolding rows_held_def by blast
qed

end


subsection \<open>The three tables\<close>

definition node_what :: "Node \<Rightarrow> int \<times> int" where
  "node_what n = (n_BuildID n, n_ComponentID n)"

definition edge_what :: "Edge \<Rightarrow> int \<times> edgeAt" where
  "edge_what e = (e_BuildID e, edge_key e)"

definition version_what :: "ImageVersion \<Rightarrow> int \<times> statedImage" where
  "version_what v = (iv_NodeID v, \<lparr>si_version = iv_Version v, si_purl = iv_Purl v\<rparr>)"

interpretation node_rows: interval_rows n_ID put_node close_node n_OpenedScanID n_ClosedScanID node_what
  by unfold_locales (simp_all add: put_node_def close_node_def node_what_def)

interpretation edge_rows: interval_rows e_ID put_edge close_edge e_OpenedScanID e_ClosedScanID edge_what
  by unfold_locales (simp_all add: put_edge_def close_edge_def edge_what_def edge_key_def)

interpretation version_rows: interval_rows iv_ID put_version close_version iv_OpenedScanID iv_ClosedScanID version_what
  by unfold_locales (simp_all add: put_version_def close_version_def version_what_def)

end
