(* ===== verification/Graph_Reconcile.thy ===== *)
theory Graph_Reconcile
  imports Graph_Rows
begin

section \<open>What reconciling leaves\<close>

text \<open>
  \<^verbatim>\<open>reconcileNodes\<close>, \<^verbatim>\<open>reconcileEdges\<close> and \<^verbatim>\<open>reconcileImageVersions\<close>, each as the one pass over the
  table it amounts to: which rows it closes, which it rewrites, which it adds.
\<close>

subsection \<open>Lists and plans\<close>

lemma filter_one:
  assumes "distinct (map f xs)" and "x \<in> set xs"
  shows "filter (\<lambda>y. P y \<and> f y = f x) xs = (if P x then [x] else [])"
  using assms
proof (induction xs)
  case (Cons a xs)
  show ?case
  proof (cases "a = x")
    case True
    then have "filter (\<lambda>y. P y \<and> f y = f x) xs = []" using Cons.prems(1) by (auto simp: filter_empty_conv image_iff)
    then show ?thesis using True by simp
  next
    case False
    then have "x \<in> set xs" "f a \<noteq> f x" using Cons.prems by auto
    then show ?thesis using Cons by simp
  qed
qed simp

lemma fold_set_pairs:
  assumes "\<And>v r. ident (g v r) = ident r" and "distinct (map fst ps)"
  shows "fold (\<lambda>(i, v) t. t\<lparr>stored := set_where ident (g v) [i] (stored t)\<rparr>) ps t
    = t\<lparr>stored := map (\<lambda>r. case map_of ps (ident r) of Some v \<Rightarrow> g v r | None \<Rightarrow> r) (stored t)\<rparr>"
  using assms(2)
proof (induction ps arbitrary: t)
  case (Cons p ps)
  obtain i v where p: "p = (i, v)" by fastforce
  have "map_of ps i = None" using Cons.prems p by (simp add: map_of_eq_None_iff)
  then show ?case using Cons p assms(1) by (auto simp: set_where_def)
qed simp

lemma update_rows_where:
  assumes "\<And>r. ident (g r) = ident r" and "\<And>r. g (g r) = g r"
  shows "update_rows ident g ids t = t\<lparr>stored := map (\<lambda>r. if ident r \<in> set ids then g r else r) (stored t)\<rparr>"
  by (simp add: update_rows_def set_in_batches [of ident g, OF assms] set_where_def)


subsection \<open>The plan of the nodes\<close>

definition restates :: "Node \<Rightarrow> stated \<Rightarrow> bool" where
  "restates n says \<longleftrightarrow> n_Purl n \<noteq> said_purl says \<or> n_CPE n \<noteq> said_cpe says \<or> n_UpstreamName n \<noteq> said_upstreamName says
     \<or> n_UpstreamVersion n \<noteq> said_upstreamVersion says \<or> n_Repository n \<noteq> said_repository says"

definition kept_node :: "(int \<times> stated) list \<Rightarrow> Node \<Rightarrow> bool" where
  "kept_node wanted n \<longleftrightarrow> map_of wanted (n_ComponentID n) \<noteq> None"

definition says_for :: "(int \<times> stated) list \<Rightarrow> Node \<Rightarrow> stated" where
  "says_for wanted n = the (map_of wanted (n_ComponentID n))"

lemma plan_fields:
  "nodeIDs (fold (plan_node wanted) ns p)
    = fold (\<lambda>n m. if kept_node wanted n then AList.update (n_ComponentID n) (n_ID n) m else m) ns (nodeIDs p)"
  "reroot (fold (plan_node wanted) ns p)
    = fold (\<lambda>n m. if kept_node wanted n \<and> n_IsRoot n \<noteq> isRoot (says_for wanted n)
        then AList.update (n_ID n) (isRoot (says_for wanted n)) m else m) ns (reroot p)"
  "restated (fold (plan_node wanted) ns p)
    = fold (\<lambda>n m. if kept_node wanted n \<and> restates n (says_for wanted n)
        then AList.update (n_ID n) (says_for wanted n) m else m) ns (restated p)"
  "gone_nodes (fold (plan_node wanted) ns p) = gone_nodes p @ map n_ID (filter (\<lambda>n. \<not> kept_node wanted n) ns)"
  by (induction ns arbitrary: p)
    (auto simp: plan_node_def kept_node_def says_for_def restates_def Let_def split: option.splits)

definition empty_node_plan :: node_plan where
  "empty_node_plan = \<lparr>nodeIDs = [], reroot = [], restated = [], gone_nodes = []\<rparr>"

definition planned :: "int \<Rightarrow> (int \<times> stated) list \<Rightarrow> Node table \<Rightarrow> node_plan" where
  "planned build wanted t = fold (plan_node wanted) (filter (node_open build) (stored t)) empty_node_plan"

lemma planned_at:
  assumes "distinct (map n_ID (stored t))" and "n \<in> set (stored t)"
  shows "map_of (restated (planned build wanted t)) (n_ID n)
      = (if node_open build n \<and> kept_node wanted n \<and> restates n (says_for wanted n) then Some (says_for wanted n) else None)"
    and "map_of (reroot (planned build wanted t)) (n_ID n)
      = (if node_open build n \<and> kept_node wanted n \<and> n_IsRoot n \<noteq> isRoot (says_for wanted n)
         then Some (isRoot (says_for wanted n)) else None)"
    and "n_ID n \<in> set (gone_nodes (planned build wanted t)) \<longleftrightarrow> node_open build n \<and> \<not> kept_node wanted n"
proof -
  have one: "filter (\<lambda>m. P m \<and> n_ID m = n_ID n) (filter (node_open build) (stored t))
      = (if node_open build n \<and> P n then [n] else [])" for P
    using filter_one [OF assms, of "\<lambda>m. node_open build m \<and> P m"] by (simp add: filter_filter conj_ac)
  show "map_of (restated (planned build wanted t)) (n_ID n)
      = (if node_open build n \<and> kept_node wanted n \<and> restates n (says_for wanted n) then Some (says_for wanted n) else None)"
    by (simp only: planned_def plan_fields fold_updates one) (simp add: empty_node_plan_def)
  show "map_of (reroot (planned build wanted t)) (n_ID n)
      = (if node_open build n \<and> kept_node wanted n \<and> n_IsRoot n \<noteq> isRoot (says_for wanted n)
         then Some (isRoot (says_for wanted n)) else None)"
    by (simp only: planned_def plan_fields fold_updates one) (simp add: empty_node_plan_def)
  have "m = n" if "m \<in> set (stored t)" "n_ID m = n_ID n" for m
    using assms that by (auto simp: distinct_map dest: inj_onD)
  then show "n_ID n \<in> set (gone_nodes (planned build wanted t)) \<longleftrightarrow> node_open build n \<and> \<not> kept_node wanted n"
    using assms(2) by (auto simp: planned_def plan_fields empty_node_plan_def image_iff) 
qed

lemma planned_distinct:
  "distinct (map fst (restated (planned build wanted t)))" "distinct (map fst (reroot (planned build wanted t)))"
  by (simp_all add: planned_def plan_fields empty_node_plan_def fold_updates_distinct)

text \<open>The identifiers a plan writes are those of rows already there.\<close>

lemma planned_range:
  "map_of (reroot (planned build wanted t)) i \<noteq> None \<Longrightarrow> i \<in> n_ID ` set (stored t)"
  "i \<in> set (gone_nodes (planned build wanted t)) \<Longrightarrow> i \<in> n_ID ` set (stored t)"
proof -
  assume "map_of (reroot (planned build wanted t)) i \<noteq> None"
  then have "filter (\<lambda>n. (kept_node wanted n \<and> n_IsRoot n \<noteq> isRoot (says_for wanted n)) \<and> n_ID n = i)
      (filter (node_open build) (stored t)) \<noteq> []"
    by (auto simp: planned_def plan_fields fold_updates empty_node_plan_def split: list.splits)
  then show "i \<in> n_ID ` set (stored t)" by (auto simp: filter_empty_conv)
next
  show "i \<in> set (gone_nodes (planned build wanted t)) \<Longrightarrow> i \<in> n_ID ` set (stored t)"
    by (auto simp: planned_def plan_fields empty_node_plan_def)
qed


subsection \<open>Nodes\<close>

text \<open>What becomes of one row.\<close>

definition node_saying :: "stated \<Rightarrow> Node \<Rightarrow> Node" where
  "node_saying says n = (restate says n)\<lparr>n_IsRoot := isRoot says\<rparr>"

definition node_after :: "int \<Rightarrow> int \<Rightarrow> (int \<times> stated) list \<Rightarrow> Node \<Rightarrow> Node" where
  "node_after build scan wanted n =
    (if \<not> node_open build n then n
     else case map_of wanted (n_ComponentID n) of None \<Rightarrow> close_node scan n | Some says \<Rightarrow> node_saying says n)"

definition missing_nodes :: "graphing \<Rightarrow> int \<Rightarrow> int \<Rightarrow> (int \<times> stated) list \<Rightarrow> Node table \<Rightarrow> Node list" where
  "missing_nodes g build scan wanted t = map (new_node build scan)
     (filter (\<lambda>(c, _). map_of (nodeIDs (planned build wanted t)) c = None) (visit_nodes g wanted))"

lemma restate_same: "\<not> restates n says \<Longrightarrow> restate says n = n"
  by (cases n) (simp add: restates_def restate_def)

lemma reroot_same: "n_IsRoot n = b \<Longrightarrow> n\<lparr>n_IsRoot := b\<rparr> = n"
  by (cases n) simp

lemma restate_fields [simp]:
  "n_ID (restate says n) = n_ID n" "n_ComponentID (restate says n) = n_ComponentID n"
  "n_BuildID (restate says n) = n_BuildID n" "n_IsRoot (restate says n) = n_IsRoot n"
  by (simp_all add: restate_def)

text \<open>Two passes over the root flags, the one that sets it first.\<close>

lemma two_passes:
  assumes "distinct (map fst ps)"
  shows "fold (\<lambda>becomes. update_rows n_ID (\<lambda>n. n\<lparr>n_IsRoot := becomes\<rparr>) (map fst (filter (\<lambda>(_, b). b = becomes) ps)))
      [True, False] t
    = t\<lparr>stored := map (\<lambda>n. case map_of ps (n_ID n) of Some b \<Rightarrow> n\<lparr>n_IsRoot := b\<rparr> | None \<Rightarrow> n) (stored t)\<rparr>"
proof -
  have mem: "i \<in> set (map fst (filter (\<lambda>(_, b). b = becomes) ps)) \<longleftrightarrow> map_of ps i = Some becomes" for i becomes
    using assms by (force simp: image_iff)
  have one: "update_rows n_ID (\<lambda>n. n\<lparr>n_IsRoot := becomes\<rparr>) (map fst (filter (\<lambda>(_, b). b = becomes) ps)) t
      = t\<lparr>stored := map (\<lambda>n. if map_of ps (n_ID n) = Some becomes then n\<lparr>n_IsRoot := becomes\<rparr> else n) (stored t)\<rparr>" for becomes t
    by (subst update_rows_where) (simp_all add: mem del: set_map set_filter)
  show ?thesis unfolding fold_simps one by (auto split: option.split)
qed

lemma reconcileNodes_table:
  assumes "numbers n_ID t" and rec: "reconcileNodes g build scan wanted t = (ids, opened, closed, t')"
  shows "stored t' = map (node_after build scan wanted) (stored t)
      @ numbering put_node (next_id t) (missing_nodes g build scan wanted t)"
    and "next_id t' = next_id t + int (length (missing_nodes g build scan wanted t))"
    and "opened = length (missing_nodes g build scan wanted t)"
    and "closed = length (gone_nodes (planned build wanted t))"
    and "ids = fold (\<lambda>n. AList.update (n_ComponentID n) (n_ID n))
      (numbering put_node (next_id t) (missing_nodes g build scan wanted t)) (nodeIDs (planned build wanted t))"
proof -
  let ?p = "planned build wanted t" and ?m = "missing_nodes g build scan wanted t"
  let ?t1 = "fold (\<lambda>(i, says) t. t\<lparr>stored := set_where n_ID (restate says) [i] (stored t)\<rparr>) (restated ?p) t"
  let ?t2 = "insert_rows put_node ?m ?t1"
  let ?t3 = "fold (\<lambda>becomes. update_rows n_ID (\<lambda>n. n\<lparr>n_IsRoot := becomes\<rparr>)
      (map fst (filter (\<lambda>(_, b). b = becomes) (reroot ?p)))) [True, False] ?t2"
  let ?t4 = "update_rows n_ID (close_node scan) (gone_nodes ?p) ?t3"
  have res: "(ids, opened, closed, t') = (fold (\<lambda>n. AList.update (n_ComponentID n) (n_ID n))
      (numbering put_node (next_id ?t1) ?m) (nodeIDs ?p), length ?m, length (gone_nodes ?p), ?t4)"
    using rec unfolding reconcileNodes_def planned_def empty_node_plan_def missing_nodes_def Let_def by simp
  have t1: "?t1 = t\<lparr>stored := map (\<lambda>r. case map_of (restated ?p) (n_ID r) of Some v \<Rightarrow> restate v r | None \<Rightarrow> r) (stored t)\<rparr>"
    by (rule fold_set_pairs) (simp_all add: planned_distinct)
  then have n1: "next_id ?t1 = next_id t" by simp
  from res n1 show "opened = length ?m" and "closed = length (gone_nodes ?p)"
    and "ids = fold (\<lambda>n. AList.update (n_ComponentID n) (n_ID n)) (numbering put_node (next_id t) ?m) (nodeIDs ?p)" by auto
  let ?f1 = "\<lambda>r. case map_of (restated ?p) (n_ID r) of Some v \<Rightarrow> restate v r | None \<Rightarrow> r"
  let ?f3 = "\<lambda>n. case map_of (reroot ?p) (n_ID n) of Some b \<Rightarrow> n\<lparr>n_IsRoot := b\<rparr> | None \<Rightarrow> n"
  let ?f4 = "\<lambda>n. if n_ID n \<in> set (gone_nodes ?p) then close_node scan n else n"
  have t4: "?t4 = ?t2\<lparr>stored := map (?f4 \<circ> ?f3) (stored ?t2)\<rparr>"
    unfolding two_passes [OF planned_distinct(2)]
    by (subst update_rows_where) (simp_all add: close_node_def comp_def)
  have st2: "stored ?t2 = map ?f1 (stored t) @ numbering put_node (next_id t) ?m"
    unfolding t1 insert_rows_def by simp
  have new: "(?f4 \<circ> ?f3) r = r" if r: "r \<in> set (numbering put_node (next_id t) ?m)" for r
  proof -
    have "next_id t \<le> n_ID r" using numbering_range [of n_ID put_node, OF _ r] by (simp add: put_node_def)
    then have "n_ID r \<notin> n_ID ` set (stored t)" using assms(1) by (auto simp: numbers_def)
    then have "map_of (reroot ?p) (n_ID r) = None" and "n_ID r \<notin> set (gone_nodes ?p)"
      using planned_range by blast+
    then show ?thesis by simp
  qed
  have old: "(?f4 \<circ> ?f3) (?f1 n) = node_after build scan wanted n" if n: "n \<in> set (stored t)" for n
  proof -
    have d: "distinct (map n_ID (stored t))" using assms(1) by (simp add: numbers_def)
    note at = planned_at [OF d n, of build wanted]
    show ?thesis
    proof (cases "node_open build n \<and> kept_node wanted n")
      case True
      then obtain says where says: "map_of wanted (n_ComponentID n) = Some says" by (auto simp: kept_node_def)
      have "?f1 n = restate says n"
        using True says by (auto simp: at says_for_def restate_same)
      moreover have "?f3 (restate says n) = node_saying says n"
        using True says by (auto simp: at says_for_def node_saying_def intro!: reroot_same [symmetric])
      ultimately show ?thesis using True says at(3) by (simp add: node_after_def node_saying_def)
    next
      case False
      then have "?f1 n = n" and "?f3 n = n" by (auto simp: at)
      then show ?thesis using False at(3) by (auto simp: node_after_def kept_node_def)
    qed
  qed
  have "stored t' = stored ?t4" using res by simp
  also have "\<dots> = map (?f4 \<circ> ?f3) (map ?f1 (stored t)) @ map (?f4 \<circ> ?f3) (numbering put_node (next_id t) ?m)"
    unfolding t4 st2 by simp
  also have "map (?f4 \<circ> ?f3) (map ?f1 (stored t)) = map (node_after build scan wanted) (stored t)"
    unfolding map_map by (rule map_cong [OF refl]) (use old in \<open>simp only: o_def\<close>)
  also have "map (?f4 \<circ> ?f3) (numbering put_node (next_id t) ?m) = numbering put_node (next_id t) ?m"
    by (rule map_idI) (rule new)
  finally show "stored t' = map (node_after build scan wanted) (stored t) @ numbering put_node (next_id t) ?m" .
  have "t' = ?t4" using res by simp
  then show "next_id t' = next_id t + int (length ?m)" unfolding t4 by (simp add: insert_rows_def t1)
qed


lemma node_after_fields [simp]:
  "n_ID (node_after build scan wanted n) = n_ID n" "n_ComponentID (node_after build scan wanted n) = n_ComponentID n"
  "n_BuildID (node_after build scan wanted n) = n_BuildID n"
  "n_OpenedScanID (node_after build scan wanted n) = n_OpenedScanID n"
  "n_ClosedScanID (node_after build scan wanted n)
    = (if node_open build n \<and> \<not> kept_node wanted n then Some scan else n_ClosedScanID n)"
  by (auto simp: node_after_def node_saying_def restate_def close_node_def kept_node_def split: option.split)

lemma node_after_open: "node_open b (node_after build scan wanted n) \<longleftrightarrow> node_open b n \<and> (b = build \<longrightarrow> kept_node wanted n)"
  by (auto simp: node_open_def)

lemma new_node_fields [simp]:
  "n_ComponentID (new_node build scan e) = fst e" "n_BuildID (new_node build scan e) = build"
  "n_OpenedScanID (new_node build scan e) = scan" "n_ClosedScanID (new_node build scan e) = None"
  "says_of (new_node build scan e) = snd e"
  by (auto simp: new_node_def says_of_def split: prod.split)

lemma put_node_fields [simp]:
  "n_ID (put_node i n) = i" "n_ComponentID (put_node i n) = n_ComponentID n" "n_BuildID (put_node i n) = n_BuildID n"
  "n_OpenedScanID (put_node i n) = n_OpenedScanID n" "n_ClosedScanID (put_node i n) = n_ClosedScanID n"
  "says_of (put_node i n) = says_of n"
  by (simp_all add: put_node_def says_of_def)

lemma fold_updates_all:
  "map_of (fold (\<lambda>d. AList.update (k d) (v d)) ds m) x
    = (case filter (\<lambda>d. k d = x) ds of [] \<Rightarrow> map_of m x | l \<Rightarrow> Some (v (last l)))"
  using fold_updates [of "\<lambda>_. True" k v ds m x] by simp

definition unwanted_nodes :: "int \<Rightarrow> (int \<times> stated) list \<Rightarrow> Node table \<Rightarrow> int set" where
  "unwanted_nodes build wanted t = n_ID ` {n \<in> set (stored t). node_open build n \<and> \<not> kept_node wanted n}"

lemma visits_nodes:
  assumes "graphing_ok g" and "distinct (map fst m)"
  shows "map_of (visit_nodes g m) = map_of m" "distinct (map fst (visit_nodes g m))" "set (visit_nodes g m) = set m"
  using map_of_mset [of "visit_nodes g m" m] assms by (simp_all add: graphing_ok_def)

lemma kept_components:
  "map_of (nodeIDs (planned build wanted t)) c = None
    \<longleftrightarrow> c \<notin> n_ComponentID ` set (filter (kept_node wanted) (filter (node_open build) (stored t)))"
proof -
  have "map_of (nodeIDs (planned build wanted t)) c = None
      \<longleftrightarrow> filter (\<lambda>n. kept_node wanted n \<and> n_ComponentID n = c) (filter (node_open build) (stored t)) = []"
    unfolding planned_def plan_fields fold_updates by (auto simp: empty_node_plan_def split: list.split)
  then show ?thesis by (auto simp: filter_empty_conv)
qed

text \<open>What the lemmas below are about: one call, on a table that is in order.\<close>

definition nodes_reconciled ::
  "graphing \<Rightarrow> int \<Rightarrow> int \<Rightarrow> (int \<times> stated) list \<Rightarrow> Node table \<Rightarrow> (int \<times> int) list \<Rightarrow> nat \<Rightarrow> nat \<Rightarrow> Node table \<Rightarrow> bool" where
  "nodes_reconciled g build scan wanted t ids opened closed' t' \<longleftrightarrow>
     graphing_ok g \<and> distinct (map fst wanted) \<and> numbers n_ID t
     \<and> distinct (map n_ComponentID (filter (node_open build) (stored t)))
     \<and> reconcileNodes g build scan wanted t = (ids, opened, closed', t')"

lemma nodes_reconciledD:
  assumes "nodes_reconciled g build scan wanted t ids opened closed' t'"
  shows "graphing_ok g" "distinct (map fst wanted)" "numbers n_ID t"
    "distinct (map n_ComponentID (filter (node_open build) (stored t)))"
    "reconcileNodes g build scan wanted t = (ids, opened, closed', t')"
  using assms by (simp_all add: nodes_reconciled_def)


lemma missing_components:
  assumes r: "nodes_reconciled g build scan wanted t ids opened closed' t'"
  shows "set (map n_ComponentID (missing_nodes g build scan wanted t))
    = fst ` set wanted - n_ComponentID ` set (filter (kept_node wanted) (filter (node_open build) (stored t)))"
  "distinct (map n_ComponentID (missing_nodes g build scan wanted t))"
proof -
  note g = nodes_reconciledD(1) [OF r] and w = nodes_reconciledD(2) [OF r] and t = nodes_reconciledD(3) [OF r]
    and once = nodes_reconciledD(4) [OF r] and rec = nodes_reconciledD(5) [OF r]
  note v = visits_nodes [OF g w]
  show "set (map n_ComponentID (missing_nodes g build scan wanted t))
    = fst ` set wanted - n_ComponentID ` set (filter (kept_node wanted) (filter (node_open build) (stored t)))"
    by (auto simp: missing_nodes_def kept_components v(3) image_iff split: prod.splits)
  show "distinct (map n_ComponentID (missing_nodes g build scan wanted t))"
    using distinct_map_filter [OF v(2)] by (simp add: missing_nodes_def comp_def)
qed

lemma nodes_written:
  assumes r: "nodes_reconciled g build scan wanted t ids opened closed' t'"
  shows "node_rows.scan_wrote scan (unwanted_nodes build wanted t) (missing_nodes g build scan wanted t) t t'"
proof -
  note g = nodes_reconciledD(1) [OF r] and w = nodes_reconciledD(2) [OF r] and t = nodes_reconciledD(3) [OF r]
    and once = nodes_reconciledD(4) [OF r] and rec = nodes_reconciledD(5) [OF r]
  have "node_rows.kept_by scan (unwanted_nodes build wanted t) (node_after build scan wanted) n" if "n \<in> set (stored t)" for n
  proof -
    have "m = n" if "m \<in> set (stored t)" "n_ID m = n_ID n" for m
      using t \<open>n \<in> set (stored t)\<close> that by (auto simp: numbers_def distinct_map dest: inj_onD)
    then have "n_ID n \<in> unwanted_nodes build wanted t \<longleftrightarrow> node_open build n \<and> \<not> kept_node wanted n"
      using that by (auto simp: unwanted_nodes_def)
    then show ?thesis by (auto simp: node_rows.kept_by_def node_what_def node_open_def)
  qed
  moreover have "\<forall>n \<in> set (missing_nodes g build scan wanted t). n_OpenedScanID n = scan \<and> n_ClosedScanID n = None"
    by (auto simp: missing_nodes_def)
  ultimately show ?thesis
    unfolding node_rows.scan_wrote_def using reconcileNodes_table(1,2) [OF t rec] by blast
qed

lemma open_left:
  assumes r: "nodes_reconciled g build scan wanted t ids opened closed' t'"
  shows "filter (node_open build) (stored t')
    = map (node_after build scan wanted) (filter (kept_node wanted) (filter (node_open build) (stored t)))
      @ numbering put_node (next_id t) (missing_nodes g build scan wanted t)"
proof -
  note g = nodes_reconciledD(1) [OF r] and w = nodes_reconciledD(2) [OF r] and t = nodes_reconciledD(3) [OF r]
    and once = nodes_reconciledD(4) [OF r] and rec = nodes_reconciledD(5) [OF r]
  have "filter (node_open build) (numbering put_node n (missing_nodes g build scan wanted t))
      = numbering put_node n (missing_nodes g build scan wanted t)" for n
    by (rule filter_True) (auto simp: node_open_def missing_nodes_def dest!: numbering_from)
  moreover have "filter (node_open build) (map (node_after build scan wanted) ns)
      = map (node_after build scan wanted) (filter (kept_node wanted) (filter (node_open build) ns))" for ns
    by (induction ns) (auto simp: node_after_open)
  ultimately show ?thesis by (simp add: reconcileNodes_table(1) [OF t rec])
qed

lemma open_components:
  assumes r: "nodes_reconciled g build scan wanted t ids opened closed' t'"
  shows "map n_ComponentID (filter (node_open build) (stored t'))
    = map n_ComponentID (filter (kept_node wanted) (filter (node_open build) (stored t)))
      @ map n_ComponentID (missing_nodes g build scan wanted t)"
proof -
  note g = nodes_reconciledD(1) [OF r] and w = nodes_reconciledD(2) [OF r] and t = nodes_reconciledD(3) [OF r]
    and once = nodes_reconciledD(4) [OF r] and rec = nodes_reconciledD(5) [OF r]
  have "map n_ComponentID (numbering put_node n ms) = map n_ComponentID ms" for n ms by (rule numbering_map) simp
  then show ?thesis unfolding open_left [OF r] by (simp add: comp_def)
qed

lemma nodes_once:
  assumes r: "nodes_reconciled g build scan wanted t ids opened closed' t'"
  shows "distinct (map n_ComponentID (filter (node_open build) (stored t')))"
proof -
  note g = nodes_reconciledD(1) [OF r] and w = nodes_reconciledD(2) [OF r] and t = nodes_reconciledD(3) [OF r]
    and once = nodes_reconciledD(4) [OF r] and rec = nodes_reconciledD(5) [OF r]
  have "distinct (map n_ComponentID (filter (kept_node wanted) (filter (node_open build) (stored t))))"
    using once by (rule distinct_map_filter)
  then show ?thesis using missing_components [OF r] unfolding open_components [OF r] by auto
qed

lemma nodes_other:
  assumes r: "nodes_reconciled g build scan wanted t ids opened closed' t'"
  shows "b \<noteq> build \<Longrightarrow> filter (node_open b) (stored t') = filter (node_open b) (stored t)"
proof -
  note g = nodes_reconciledD(1) [OF r] and w = nodes_reconciledD(2) [OF r] and t = nodes_reconciledD(3) [OF r]
    and once = nodes_reconciledD(4) [OF r] and rec = nodes_reconciledD(5) [OF r]
  assume b: "b \<noteq> build"
  have "filter (node_open b) (numbering put_node n (missing_nodes g build scan wanted t)) = []" for n
    using b by (auto simp: filter_empty_conv node_open_def missing_nodes_def dest!: numbering_from)
  moreover have "filter (node_open b) (map (node_after build scan wanted) ns) = filter (node_open b) ns" for ns
    using b by (induction ns) (auto simp: node_after_open, auto simp: node_after_def node_open_def)
  ultimately show ?thesis by (simp add: reconcileNodes_table(1) [OF t rec])
qed

lemma nodes_are_wanted:
  assumes r: "nodes_reconciled g build scan wanted t ids opened closed' t'"
  shows "n_ComponentID ` set (filter (node_open build) (stored t')) = fst ` set wanted"
proof -
  note g = nodes_reconciledD(1) [OF r] and w = nodes_reconciledD(2) [OF r] and t = nodes_reconciledD(3) [OF r]
    and once = nodes_reconciledD(4) [OF r] and rec = nodes_reconciledD(5) [OF r]
  have "n_ComponentID ` set (filter (kept_node wanted) (filter (node_open build) (stored t))) \<subseteq> fst ` set wanted"
    by (auto simp: kept_node_def) (metis map_of_eq_None_iff option.distinct(1))
  then show ?thesis
    using arg_cong [OF open_components [OF r], of set] missing_components(1) [OF r] by auto
qed

lemma nodes_say:
  assumes r: "nodes_reconciled g build scan wanted t ids opened closed' t'"
  shows "n \<in> set (stored t') \<Longrightarrow> node_open build n \<Longrightarrow> map_of wanted (n_ComponentID n) = Some (says_of n)"
proof -
  note g = nodes_reconciledD(1) [OF r] and w = nodes_reconciledD(2) [OF r] and t = nodes_reconciledD(3) [OF r]
    and once = nodes_reconciledD(4) [OF r] and rec = nodes_reconciledD(5) [OF r]
  assume "n \<in> set (stored t')" "node_open build n"
  then have "n \<in> set (filter (node_open build) (stored t'))" by simp
  then consider m where "m \<in> set (stored t)" "node_open build m" "kept_node wanted m" "n = node_after build scan wanted m"
    | "n \<in> set (numbering put_node (next_id t) (missing_nodes g build scan wanted t))"
    unfolding open_left [OF r] by auto
  then show ?thesis
  proof cases
    case 1
    then show ?thesis
      by (auto simp: kept_node_def node_after_def node_saying_def restate_def says_of_def split: option.splits)
  next
    case 2
    from numbering_from [OF 2] obtain i m where "m \<in> set (missing_nodes g build scan wanted t)" "n = put_node i m" by auto
    then obtain c says where "(c, says) \<in> set (visit_nodes g wanted)" "n_ComponentID n = c" "says_of n = says"
      by (auto simp: missing_nodes_def)
    then show ?thesis using w visits_nodes(3) [OF g w] by simp
  qed
qed

lemma nodes_found:
  assumes r: "nodes_reconciled g build scan wanted t ids opened closed' t'"
  shows "map_of ids c = Some i \<longleftrightarrow> (\<exists>n \<in> set (stored t'). node_open build n \<and> n_ComponentID n = c \<and> n_ID n = i)"
proof -
  note g = nodes_reconciledD(1) [OF r] and w = nodes_reconciledD(2) [OF r] and t = nodes_reconciledD(3) [OF r]
    and once = nodes_reconciledD(4) [OF r] and rec = nodes_reconciledD(5) [OF r]
  let ?kept = "filter (kept_node wanted) (filter (node_open build) (stored t))"
  let ?new = "numbering put_node (next_id t) (missing_nodes g build scan wanted t)"
  let ?left = "filter (node_open build) (stored t')"
  have left: "?left = map (node_after build scan wanted) ?kept @ ?new" by (rule open_left [OF r])
  have nodeids: "map_of (nodeIDs (planned build wanted t)) c
      = (case filter (\<lambda>n. n_ComponentID n = c) ?kept of [] \<Rightarrow> None | l \<Rightarrow> Some (n_ID (last l)))"
    by (simp only: planned_def plan_fields fold_updates filter_filter conj_ac)
      (simp add: empty_node_plan_def cong: list.case_cong)
  have kept: "filter (\<lambda>n. n_ComponentID n = c) (map (node_after build scan wanted) ns)
      = map (node_after build scan wanted) (filter (\<lambda>n. n_ComponentID n = c) ns)" for ns
    by (induction ns) auto
  have ids: "map_of ids c = (case filter (\<lambda>n. n_ComponentID n = c) ?left of [] \<Rightarrow> None | l \<Rightarrow> Some (n_ID (last l)))"
    unfolding reconcileNodes_table(5) [OF t rec] fold_updates_all nodeids left filter_append kept
    by (auto split: list.split simp: last_map)
  show ?thesis
  proof
    assume "map_of ids c = Some i"
    then obtain l where l: "filter (\<lambda>n. n_ComponentID n = c) ?left = l" "l \<noteq> []" "n_ID (last l) = i"
      unfolding ids by (auto split: list.splits)
    then have "last l \<in> set (filter (\<lambda>n. n_ComponentID n = c) ?left)" by auto
    then show "\<exists>n \<in> set (stored t'). node_open build n \<and> n_ComponentID n = c \<and> n_ID n = i" using l(3) by auto
  next
    assume "\<exists>n \<in> set (stored t'). node_open build n \<and> n_ComponentID n = c \<and> n_ID n = i"
    then obtain n where n: "n \<in> set ?left" "n_ComponentID n = c" "n_ID n = i" by auto
    have "filter (\<lambda>m. True \<and> n_ComponentID m = n_ComponentID n) ?left = (if True then [n] else [])"
      using nodes_once [OF r] n(1) by (rule filter_one)
    then show "map_of ids c = Some i" unfolding ids using n by simp
  qed
qed

end
