(* ===== verification/Graph_Links.thy ===== *)
theory Graph_Links
  imports Graph_Reconcile
begin

section \<open>What reconciling leaves of the edges and the versions of images\<close>

subsection \<open>Edges\<close>

definition missing_edges :: "graphing \<Rightarrow> int \<Rightarrow> int \<Rightarrow> edgeAt list \<Rightarrow> Edge table \<Rightarrow> Edge list" where
  "missing_edges g build scan wanted t = map (new_edge build scan)
     (filter (\<lambda>k. k \<notin> edge_key ` set (filter (\<lambda>e. edge_key e \<in> set wanted) (filter (edge_open build) (stored t))))
        (visit_edges g wanted))"

definition unwanted_edges :: "int \<Rightarrow> edgeAt list \<Rightarrow> Edge table \<Rightarrow> int set" where
  "unwanted_edges build wanted t = e_ID ` {e \<in> set (stored t). edge_open build e \<and> edge_key e \<notin> set wanted}"

definition edge_after :: "int \<Rightarrow> int \<Rightarrow> edgeAt list \<Rightarrow> Edge \<Rightarrow> Edge" where
  "edge_after build scan wanted e = (if edge_open build e \<and> edge_key e \<notin> set wanted then close_edge scan e else e)"

lemma new_edge_fields [simp]:
  "edge_key (new_edge build scan k) = k" "e_BuildID (new_edge build scan k) = build"
  "e_OpenedScanID (new_edge build scan k) = scan" "e_ClosedScanID (new_edge build scan k) = None"
  by (simp_all add: new_edge_def edge_key_def)

lemma put_edge_fields [simp]:
  "edge_key (put_edge i e) = edge_key e" "e_BuildID (put_edge i e) = e_BuildID e"
  "e_ClosedScanID (put_edge i e) = e_ClosedScanID e" "e_ID (put_edge i e) = i"
  by (simp_all add: put_edge_def edge_key_def)

lemma edge_after_fields [simp]:
  "edge_key (edge_after build scan wanted e) = edge_key e" "e_BuildID (edge_after build scan wanted e) = e_BuildID e"
  "e_OpenedScanID (edge_after build scan wanted e) = e_OpenedScanID e" "e_ID (edge_after build scan wanted e) = e_ID e"
  "e_ClosedScanID (edge_after build scan wanted e)
    = (if edge_open build e \<and> edge_key e \<notin> set wanted then Some scan else e_ClosedScanID e)"
  by (simp_all add: edge_after_def close_edge_def edge_key_def)

lemma edge_after_open:
  "edge_open b (edge_after build scan wanted e) \<longleftrightarrow> edge_open b e \<and> (b = build \<longrightarrow> edge_key e \<in> set wanted)"
  by (auto simp: edge_open_def)

lemma unique_row:
  assumes "distinct (map f xs)" "x \<in> set xs" "y \<in> set xs" "f x = f y"
  shows "x = y"
  using assms by (auto simp: distinct_map dest: inj_onD)

lemma unwanted_edge:
  assumes "numbers e_ID t" and "e \<in> set (stored t)"
  shows "e_ID e \<in> unwanted_edges build wanted t \<longleftrightarrow> edge_open build e \<and> edge_key e \<notin> set wanted"
  using unique_row [of e_ID "stored t" _ e] assms by (auto simp: unwanted_edges_def numbers_def)

definition edges_reconciled :: "graphing \<Rightarrow> int \<Rightarrow> int \<Rightarrow> edgeAt list \<Rightarrow> Edge table \<Rightarrow> nat \<Rightarrow> nat \<Rightarrow> Edge table \<Rightarrow> bool" where
  "edges_reconciled g build scan wanted t opened closed' t' \<longleftrightarrow>
     graphing_ok g \<and> distinct wanted \<and> numbers e_ID t \<and> distinct (map edge_key (filter (edge_open build) (stored t)))
     \<and> reconcileEdges g build scan wanted t = (opened, closed', t')"

lemma edges_reconciledD:
  assumes "edges_reconciled g build scan wanted t opened closed' t'"
  shows "graphing_ok g" "distinct wanted" "numbers e_ID t"
    "distinct (map edge_key (filter (edge_open build) (stored t)))"
    "reconcileEdges g build scan wanted t = (opened, closed', t')"
  using assms by (simp_all add: edges_reconciled_def)

lemma reconcileEdges_table:
  assumes r: "edges_reconciled g build scan wanted t opened closed' t'"
  shows "stored t' = map (edge_after build scan wanted) (stored t)
      @ numbering put_edge (next_id t) (missing_edges g build scan wanted t)"
    and "next_id t' = next_id t + int (length (missing_edges g build scan wanted t))"
    and "opened = length (missing_edges g build scan wanted t)"
    and "closed' = length (filter (\<lambda>e. edge_key e \<notin> set wanted) (filter (edge_open build) (stored t)))"
proof -
  note t = edges_reconciledD(3) [OF r] and rec = edges_reconciledD(5) [OF r]
  let ?gone = "map e_ID (filter (\<lambda>e. edge_key e \<notin> set wanted) (filter (edge_open build) (stored t)))"
  let ?m = "missing_edges g build scan wanted t"
  have res: "opened = length ?m" "closed' = length ?gone" "t' = update_rows e_ID (close_edge scan) ?gone (insert_rows put_edge ?m t)"
    using rec by (simp_all add: reconcileEdges_def missing_edges_def Let_def)
  then show "opened = length ?m" "closed' = length (filter (\<lambda>e. edge_key e \<notin> set wanted) (filter (edge_open build) (stored t)))"
    by simp_all
  have upd: "update_rows e_ID (close_edge scan) ?gone u
      = u\<lparr>stored := map (\<lambda>e. if e_ID e \<in> set ?gone then close_edge scan e else e) (stored u)\<rparr>" for u
    by (rule update_rows_where) (simp_all add: close_edge_def)
  show "next_id t' = next_id t + int (length ?m)" unfolding res(3) upd by (simp add: insert_rows_def)
  have gone: "set ?gone = unwanted_edges build wanted t" by (auto simp: unwanted_edges_def)
  have new: "(if e_ID e \<in> set ?gone then close_edge scan e else e) = e" if e: "e \<in> set (numbering put_edge (next_id t) ?m)" for e
  proof -
    have "next_id t \<le> e_ID e" using numbering_range [of e_ID put_edge, OF _ e] by simp
    then have "e_ID e \<notin> e_ID ` set (stored t)" using t by (auto simp: numbers_def)
    then show ?thesis unfolding gone by (auto simp: unwanted_edges_def)
  qed
  have "stored t' = map (\<lambda>e. if e_ID e \<in> set ?gone then close_edge scan e else e) (stored t)
      @ map (\<lambda>e. if e_ID e \<in> set ?gone then close_edge scan e else e) (numbering put_edge (next_id t) ?m)"
    unfolding res(3) upd by (simp add: insert_rows_def)
  also have "map (\<lambda>e. if e_ID e \<in> set ?gone then close_edge scan e else e) (numbering put_edge (next_id t) ?m)
      = numbering put_edge (next_id t) ?m"
    by (rule map_idI) (rule new)
  also have "map (\<lambda>e. if e_ID e \<in> set ?gone then close_edge scan e else e) (stored t) = map (edge_after build scan wanted) (stored t)"
    unfolding gone by (rule map_cong [OF refl]) (simp add: unwanted_edge [OF t] edge_after_def)
  finally show "stored t' = map (edge_after build scan wanted) (stored t) @ numbering put_edge (next_id t) ?m" .
qed

lemma edges_written:
  assumes r: "edges_reconciled g build scan wanted t opened closed' t'"
  shows "edge_rows.scan_wrote scan (unwanted_edges build wanted t) (missing_edges g build scan wanted t) t t'"
proof -
  note t = edges_reconciledD(3) [OF r]
  have "edge_rows.kept_by scan (unwanted_edges build wanted t) (edge_after build scan wanted) e" if "e \<in> set (stored t)" for e
    using unwanted_edge [OF t that] by (auto simp: edge_rows.kept_by_def edge_what_def edge_open_def)
  moreover have "\<forall>e \<in> set (missing_edges g build scan wanted t). e_OpenedScanID e = scan \<and> e_ClosedScanID e = None"
    by (auto simp: missing_edges_def)
  ultimately show ?thesis unfolding edge_rows.scan_wrote_def using reconcileEdges_table(1,2) [OF r] by blast
qed

lemma edges_left:
  assumes r: "edges_reconciled g build scan wanted t opened closed' t'"
  shows "edge_key ` set (filter (edge_open build) (stored t')) = set wanted"
    and "distinct (map edge_key (filter (edge_open build) (stored t')))"
    and "b \<noteq> build \<Longrightarrow> filter (edge_open b) (stored t') = filter (edge_open b) (stored t)"
proof -
  note g = edges_reconciledD(1) [OF r] and w = edges_reconciledD(2) [OF r] and once = edges_reconciledD(4) [OF r]
  let ?kept = "filter (\<lambda>e. edge_key e \<in> set wanted) (filter (edge_open build) (stored t))"
  let ?m = "missing_edges g build scan wanted t"
  have "mset (visit_edges g wanted) = mset wanted" using g by (simp add: graphing_ok_def)
  then have v: "set (visit_edges g wanted) = set wanted" "distinct (visit_edges g wanted)"
    using w by (auto dest: mset_eq_setD mset_eq_imp_distinct_iff)
  have here: "filter (edge_open build) (numbering put_edge n ?m) = numbering put_edge n ?m" for n
    by (rule filter_True) (auto simp: edge_open_def missing_edges_def dest!: numbering_from)
  have other: "b \<noteq> build \<Longrightarrow> filter (edge_open b) (numbering put_edge n ?m) = []" for n b
    by (auto simp: filter_empty_conv edge_open_def missing_edges_def dest!: numbering_from)
  have keys: "map edge_key (numbering put_edge n ?m) = filter (\<lambda>k. k \<notin> edge_key ` set ?kept) (visit_edges g wanted)" for n
  proof -
    have "map edge_key (numbering put_edge n ?m) = map edge_key ?m" by (rule numbering_map) simp
    then show ?thesis by (simp add: missing_edges_def comp_def)
  qed
  have "filter (edge_open build) (map (edge_after build scan wanted) es)
      = map (edge_after build scan wanted) (filter (\<lambda>e. edge_key e \<in> set wanted) (filter (edge_open build) es))" for es
    by (induction es) (auto simp: edge_after_open)
  then have open': "map edge_key (filter (edge_open build) (stored t'))
      = map edge_key ?kept @ filter (\<lambda>k. k \<notin> edge_key ` set ?kept) (visit_edges g wanted)"
    unfolding reconcileEdges_table(1) [OF r] by (simp add: here keys comp_def del: filter_filter)
  show "edge_key ` set (filter (edge_open build) (stored t')) = set wanted"
    using arg_cong [OF open', of set] v(1) by auto
  have "distinct (map edge_key ?kept)" using once by (rule distinct_map_filter)
  then show "distinct (map edge_key (filter (edge_open build) (stored t')))"
    unfolding open' using v(2) by auto
  have "b \<noteq> build \<Longrightarrow> filter (edge_open b) (map (edge_after build scan wanted) es) = filter (edge_open b) es" for es
    by (induction es) (auto simp: edge_after_open, auto simp: edge_after_def edge_open_def)
  then show "b \<noteq> build \<Longrightarrow> filter (edge_open b) (stored t') = filter (edge_open b) (stored t)"
    unfolding reconcileEdges_table(1) [OF r] by (simp add: other)
qed


subsection \<open>Versions of images\<close>

definition missing_versions ::
  "graphing \<Rightarrow> int \<Rightarrow> int \<Rightarrow> (int \<times> statedImage) list \<Rightarrow> Node list \<Rightarrow> ImageVersion table \<Rightarrow> ImageVersion list" where
  "missing_versions g build scan said ns t = map (version_row scan)
     (filter (\<lambda>(n, _). n \<notin> iv_NodeID ` set (filter (still_states said) (filter (version_open build ns) (stored t))))
        (visit_versions g said))"

definition unsaid_versions :: "int \<Rightarrow> (int \<times> statedImage) list \<Rightarrow> Node list \<Rightarrow> ImageVersion table \<Rightarrow> int set" where
  "unsaid_versions build said ns t = iv_ID ` {v \<in> set (stored t). version_open build ns v \<and> \<not> still_states said v}"

definition version_after :: "int \<Rightarrow> int \<Rightarrow> (int \<times> statedImage) list \<Rightarrow> Node list \<Rightarrow> ImageVersion \<Rightarrow> ImageVersion" where
  "version_after build scan said ns v = (if version_open build ns v \<and> \<not> still_states said v then close_version scan v else v)"

lemma version_row_fields [simp]:
  "iv_NodeID (version_row scan e) = fst e" "version_what (version_row scan e) = e"
  "iv_OpenedScanID (version_row scan e) = scan" "iv_ClosedScanID (version_row scan e) = None"
  by (auto simp: version_row_def version_what_def split: prod.split)

lemma put_version_fields [simp]:
  "iv_NodeID (put_version i v) = iv_NodeID v" "version_what (put_version i v) = version_what v"
  "iv_ClosedScanID (put_version i v) = iv_ClosedScanID v" "iv_ID (put_version i v) = i"
  by (simp_all add: put_version_def version_what_def)

lemma version_after_fields [simp]:
  "iv_NodeID (version_after build scan said ns v) = iv_NodeID v"
  "version_what (version_after build scan said ns v) = version_what v"
  "iv_OpenedScanID (version_after build scan said ns v) = iv_OpenedScanID v"
  "iv_ID (version_after build scan said ns v) = iv_ID v"
  "iv_ClosedScanID (version_after build scan said ns v)
    = (if version_open build ns v \<and> \<not> still_states said v then Some scan else iv_ClosedScanID v)"
  by (simp_all add: version_after_def close_version_def version_what_def)

lemma version_after_open:
  "version_open build ns (version_after build scan said ns v) \<longleftrightarrow> version_open build ns v \<and> still_states said v"
  by (auto simp: version_open_def)

lemma unsaid_version:
  assumes "numbers iv_ID t" and "v \<in> set (stored t)"
  shows "iv_ID v \<in> unsaid_versions build said ns t \<longleftrightarrow> version_open build ns v \<and> \<not> still_states said v"
  using unique_row [of iv_ID "stored t" _ v] assms by (auto simp: unsaid_versions_def numbers_def)

definition version_now :: "ImageVersion \<Rightarrow> bool" where
  "version_now v \<longleftrightarrow> iv_ClosedScanID v = None"

definition versions_reconciled ::
  "graphing \<Rightarrow> int \<Rightarrow> int \<Rightarrow> (int \<times> statedImage) list \<Rightarrow> Node list \<Rightarrow> ImageVersion table \<Rightarrow> nat \<Rightarrow> nat \<Rightarrow> ImageVersion table \<Rightarrow> bool" where
  "versions_reconciled g build scan said ns t opened closed' t' \<longleftrightarrow>
     graphing_ok g \<and> distinct (map fst said) \<and> numbers iv_ID t
     \<and> distinct (map iv_NodeID (filter version_now (stored t)))
     \<and> (\<forall>n \<in> fst ` set said. list_ex (\<lambda>m. n_ID m = n \<and> n_BuildID m = build) ns)
     \<and> reconcileImageVersions g build scan said ns t = (opened, closed', t')"

lemma versions_reconciledD:
  assumes "versions_reconciled g build scan said ns t opened closed' t'"
  shows "graphing_ok g" "distinct (map fst said)" "numbers iv_ID t"
    "distinct (map iv_NodeID (filter version_now (stored t)))"
    "\<And>n. n \<in> fst ` set said \<Longrightarrow> list_ex (\<lambda>m. n_ID m = n \<and> n_BuildID m = build) ns"
    "reconcileImageVersions g build scan said ns t = (opened, closed', t')"
  using assms by (auto simp: versions_reconciled_def)

lemma reconcileVersions_table:
  assumes r: "versions_reconciled g build scan said ns t opened closed' t'"
  shows "stored t' = map (version_after build scan said ns) (stored t)
      @ numbering put_version (next_id t) (missing_versions g build scan said ns t)"
    and "next_id t' = next_id t + int (length (missing_versions g build scan said ns t))"
    and "opened = length (missing_versions g build scan said ns t)"
    and "closed' = length (filter (\<lambda>v. \<not> still_states said v) (filter (version_open build ns) (stored t)))"
proof -
  note t = versions_reconciledD(3) [OF r] and rec = versions_reconciledD(6) [OF r]
  let ?gone = "map iv_ID (filter (\<lambda>v. \<not> still_states said v) (filter (version_open build ns) (stored t)))"
  let ?m = "missing_versions g build scan said ns t"
  have res: "opened = length ?m" "closed' = length ?gone" "t' = insert_rows put_version ?m (update_rows iv_ID (close_version scan) ?gone t)"
    using rec by (simp_all add: reconcileImageVersions_def missing_versions_def Let_def)
  then show "opened = length ?m" "closed' = length (filter (\<lambda>v. \<not> still_states said v) (filter (version_open build ns) (stored t)))"
    by simp_all
  have upd: "update_rows iv_ID (close_version scan) ?gone t
      = t\<lparr>stored := map (\<lambda>v. if iv_ID v \<in> set ?gone then close_version scan v else v) (stored t)\<rparr>"
    by (rule update_rows_where) (simp_all add: close_version_def)
  show "next_id t' = next_id t + int (length ?m)" unfolding res(3) upd by (simp add: insert_rows_def)
  have gone: "set ?gone = unsaid_versions build said ns t" by (auto simp: unsaid_versions_def)
  have "map (\<lambda>v. if iv_ID v \<in> set ?gone then close_version scan v else v) (stored t) = map (version_after build scan said ns) (stored t)"
    unfolding gone by (rule map_cong [OF refl]) (simp add: unsaid_version [OF t] version_after_def)
  then show "stored t' = map (version_after build scan said ns) (stored t) @ numbering put_version (next_id t) ?m"
    unfolding res(3) upd by (simp add: insert_rows_def)
qed

lemma versions_written:
  assumes r: "versions_reconciled g build scan said ns t opened closed' t'"
  shows "version_rows.scan_wrote scan (unsaid_versions build said ns t) (missing_versions g build scan said ns t) t t'"
proof -
  note t = versions_reconciledD(3) [OF r]
  have "version_rows.kept_by scan (unsaid_versions build said ns t) (version_after build scan said ns) v" if "v \<in> set (stored t)" for v
    using unsaid_version [OF t that] by (auto simp: version_rows.kept_by_def version_open_def)
  moreover have "\<forall>v \<in> set (missing_versions g build scan said ns t). iv_OpenedScanID v = scan \<and> iv_ClosedScanID v = None"
    by (auto simp: missing_versions_def)
  ultimately show ?thesis unfolding version_rows.scan_wrote_def using reconcileVersions_table(1,2) [OF r] by blast
qed

lemma still_states_what: "distinct (map fst said) \<Longrightarrow> still_states said v \<longleftrightarrow> version_what v \<in> set said"
  by (simp add: still_states_def version_what_def)

lemma versions_left:
  assumes r: "versions_reconciled g build scan said ns t opened closed' t'"
  shows "version_what ` set (filter (version_open build ns) (stored t')) = set said"
    and "distinct (map iv_NodeID (filter version_now (stored t')))"
proof -
  note g = versions_reconciledD(1) [OF r] and d = versions_reconciledD(2) [OF r] and once = versions_reconciledD(4) [OF r]
    and at = versions_reconciledD(5) [OF r]
  let ?m = "missing_versions g build scan said ns t"
  let ?kept = "filter (still_states said) (filter (version_open build ns) (stored t))"
  have v: "set (visit_versions g said) = set said" "distinct (map fst (visit_versions g said))"
    using map_of_mset [of "visit_versions g said" said] g d by (simp_all add: graphing_ok_def)
  have new: "map version_what (numbering put_version n ?m) = map version_what ?m"
    "map iv_NodeID (numbering put_version n ?m) = map iv_NodeID ?m" for n
    by (rule numbering_map, simp)+
  have newset: "version_what ` set ?m = {e \<in> set said. fst e \<notin> iv_NodeID ` set ?kept}"
    "iv_NodeID ` set ?m = fst ` {e \<in> set said. fst e \<notin> iv_NodeID ` set ?kept}"
    by (auto simp: missing_versions_def v(1) image_image split: prod.splits)
  have here: "filter (version_open build ns) (numbering put_version n ?m) = numbering put_version n ?m" for n
  proof (rule filter_True, rule ballI)
    fix x assume "x \<in> set (numbering put_version n ?m)"
    from numbering_from [OF this] obtain i e where "x = put_version i (version_row scan e)" "e \<in> set said"
      by (auto simp: missing_versions_def v(1))
    then show "version_open build ns x" using at [of "fst e"] by (auto simp: version_open_def)
  qed
  have "filter (version_open build ns) (map (version_after build scan said ns) vs)
      = map (version_after build scan said ns) (filter (still_states said) (filter (version_open build ns) vs))" for vs
    by (induction vs) (auto simp: version_after_open)
  then have open': "filter (version_open build ns) (stored t')
      = map (version_after build scan said ns) ?kept @ numbering put_version (next_id t) ?m"
    unfolding reconcileVersions_table(1) [OF r] by (simp add: here del: filter_filter)
  have "version_what ` set (filter (version_open build ns) (stored t')) = version_what ` set ?kept \<union> version_what ` set ?m"
    using arg_cong [OF new(1), of set] unfolding open' by (simp add: image_Un image_image)
  also have "\<dots> = set said"
  proof (intro set_eqI iffI)
    fix e assume "e \<in> version_what ` set ?kept \<union> version_what ` set ?m"
    then show "e \<in> set said" unfolding newset using d by (auto simp: still_states_what)
  next
    fix e assume e: "e \<in> set said"
    show "e \<in> version_what ` set ?kept \<union> version_what ` set ?m"
    proof (cases "fst e \<in> iv_NodeID ` set ?kept")
      case True
      then obtain x where x: "x \<in> set ?kept" "fst e = iv_NodeID x" by auto
      then have "version_what x \<in> set said" using d by (auto simp: still_states_what)
      moreover have "fst (version_what x) = fst e" using x by (simp add: version_what_def)
      ultimately have "version_what x = e" using d e by (metis eq_key_imp_eq_value prod.collapse)
      then show ?thesis using x(1) by blast
    next
      case False
      then show ?thesis unfolding newset using e by blast
    qed
  qed
  finally show "version_what ` set (filter (version_open build ns) (stored t')) = set said" .
  let ?still = "filter (\<lambda>v. version_now v \<and> (version_open build ns v \<longrightarrow> still_states said v)) (stored t)"
  have "filter version_now (map (version_after build scan said ns) vs)
      = map (version_after build scan said ns) (filter (\<lambda>v. version_now v \<and> (version_open build ns v \<longrightarrow> still_states said v)) vs)" for vs
    by (induction vs) (auto simp: version_now_def)
  moreover have "filter version_now (numbering put_version n ?m) = numbering put_version n ?m" for n
    by (rule filter_True) (auto simp: version_now_def missing_versions_def dest!: numbering_from)
  ultimately have ids: "map iv_NodeID (filter version_now (stored t')) = map iv_NodeID ?still @ map iv_NodeID ?m"
    unfolding reconcileVersions_table(1) [OF r] by (simp add: new comp_def)
  have "distinct (map iv_NodeID ?still)"
    using distinct_map_filter [OF once, of "\<lambda>v. version_open build ns v \<longrightarrow> still_states said v"] by (simp add: conj_ac)
  moreover have "distinct (map iv_NodeID ?m)"
    using distinct_map_filter [OF v(2)] by (simp add: missing_versions_def comp_def)
  moreover have "iv_NodeID x \<notin> iv_NodeID ` set ?m" if x: "x \<in> set ?still" for x
  proof
    assume "iv_NodeID x \<in> iv_NodeID ` set ?m"
    then obtain e where e: "e \<in> set said" "iv_NodeID x = fst e" "fst e \<notin> iv_NodeID ` set ?kept" unfolding newset by auto
    have "version_open build ns x" using x at [of "fst e"] e by (auto simp: version_open_def version_now_def)
    then have "x \<in> set ?kept" using x by auto
    then have "iv_NodeID x \<in> iv_NodeID ` set ?kept" by (rule imageI)
    then show False using e(3) unfolding e(2) by contradiction
  qed
  ultimately show "distinct (map iv_NodeID (filter version_now (stored t')))" unfolding ids by auto
qed

end
