(* ===== verification/Graph_Applied.thy ===== *)
theory Graph_Applied
  imports Graph_Links
begin

section \<open>A scan applied to the graph\<close>

subsection \<open>What a build holds at a moment\<close>

text \<open>
  A build's inventory is read by identity, never by row: its components, its dependencies with the
  scope each was declared in, and what it states for the images it holds by name.
\<close>

definition held_nodes :: "graph_tables \<Rightarrow> int \<Rightarrow> Moment \<Rightarrow> (int \<times> int \<times> int) set" where
  "held_nodes t b m = node_rows.rows_held (\<lambda>w. fst w = b) m (nodes t)"

definition held_edges :: "graph_tables \<Rightarrow> int \<Rightarrow> Moment \<Rightarrow> (int \<times> int \<times> edgeAt) set" where
  "held_edges t b m = edge_rows.rows_held (\<lambda>w. fst w = b) m (edges t)"

definition build_nodes :: "graph_tables \<Rightarrow> int \<Rightarrow> int set" where
  "build_nodes t b = n_ID ` {n \<in> set (stored (nodes t)). n_BuildID n = b}"

definition held_images :: "graph_tables \<Rightarrow> int \<Rightarrow> Moment \<Rightarrow> (int \<times> int \<times> statedImage) set" where
  "held_images t b m = version_rows.rows_held (\<lambda>w. fst w \<in> build_nodes t b) m (versions t)"

definition node_named :: "graph_tables \<Rightarrow> int \<Rightarrow> string" where
  "node_named t i = (case find (\<lambda>n. n_ID n = i) (stored (nodes t)) of
     Some n \<Rightarrow> component_named (interned t) (n_ComponentID n) | None \<Rightarrow> [])"

definition components_at :: "graph_tables \<Rightarrow> int \<Rightarrow> Moment \<Rightarrow> string set" where
  "components_at t b m = (\<lambda>(_, _, c). component_named (interned t) c) ` held_nodes t b m"

definition dependencies_at :: "graph_tables \<Rightarrow> int \<Rightarrow> Moment \<Rightarrow> (string \<times> string \<times> string) set" where
  "dependencies_at t b m = (\<lambda>(_, _, k). (node_named t (at_Parent k), node_named t (at_Child k), at_Kind k)) ` held_edges t b m"

definition images_at :: "graph_tables \<Rightarrow> int \<Rightarrow> Moment \<Rightarrow> (string \<times> statedImage) set" where
  "images_at t b m = (\<lambda>(_, n, says). (node_named t n, says)) `
     {v \<in> held_images t b m. fst (snd v) \<in> fst ` held_nodes t b m}"


subsection \<open>What a snapshot says\<close>

definition said_components :: "graphing \<Rightarrow> Snapshot \<Rightarrow> string set" where
  "said_components g snap = insert (identity_of g (AsRoot (Root snap)))
     ((\<lambda>d. identity_of g (asStored g snap d)) ` set (Components snap))"

definition said_dependencies :: "graphing \<Rightarrow> Snapshot \<Rightarrow> (string \<times> string \<times> string) set" where
  "said_dependencies g snap =
     (\<lambda>dep. (identity_of g (asStored g snap (Parent dep)), identity_of g (asStored g snap (Child dep)), dp_Kind dep))
       ` set (Dependencies snap)"

text \<open>A component stored as an image by its name, and what the last of those stored alike states.\<close>

definition by_name :: "graphing \<Rightarrow> Snapshot \<Rightarrow> Described \<Rightarrow> bool" where
  "by_name g snap d \<longleftrightarrow> map_of (imagesByName g (Components snap)) (identity_of g d) \<noteq> None
     \<and> identity_of g d \<noteq> identity_of g (Root snap)"

definition image_says :: "Described \<Rightarrow> statedImage" where
  "image_says d = \<lparr>si_version = trim_space (d_Version d), si_purl = trim_space (d_Purl d)\<rparr>"

definition said_images :: "graphing \<Rightarrow> Snapshot \<Rightarrow> (string \<times> statedImage) set" where
  "said_images g snap = {(i, image_says (last l)) | i l.
     l = filter (\<lambda>d. by_name g snap d \<and> identity_of g (asStored g snap d) = i) (Components snap) \<and> l \<noteq> []}"

text \<open>What the build states about one of its components: the first description of it counts.\<close>

definition said_of :: "graphing \<Rightarrow> Snapshot \<Rightarrow> string \<Rightarrow> stated option" where
  "said_of g snap i = (if i = identity_of g (AsRoot (Root snap)) then Some root_stated
     else map_option (\<lambda>d. stated_of g (asStored g snap d)) (find (\<lambda>d. identity_of g (asStored g snap d) = i) (Components snap)))"


subsection \<open>Tables in order\<close>

definition graph_ok :: "graph_tables \<Rightarrow> bool" where
  "graph_ok t \<longleftrightarrow> catalog_ok (interned t) \<and> numbers n_ID (nodes t) \<and> numbers e_ID (edges t) \<and> numbers iv_ID (versions t)
     \<and> (\<forall>b. distinct (map n_ComponentID (filter (node_open b) (stored (nodes t)))))
     \<and> (\<forall>b. distinct (map edge_key (filter (edge_open b) (stored (edges t)))))
     \<and> distinct (map iv_NodeID (filter version_now (stored (versions t))))
     \<and> (\<forall>n \<in> set (stored (nodes t)). n_ComponentID n \<in> component_ids (interned t))
     \<and> (\<forall>e \<in> set (stored (edges t)). e_ParentID e \<in> build_nodes t (e_BuildID e) \<and> e_ChildID e \<in> build_nodes t (e_BuildID e))
     \<and> (\<forall>v \<in> set (stored (versions t)). iv_NodeID v \<in> n_ID ` set (stored (nodes t)))"

lemma graph_okD:
  assumes "graph_ok t"
  shows "catalog_ok (interned t)" "numbers n_ID (nodes t)" "numbers e_ID (edges t)" "numbers iv_ID (versions t)"
    "distinct (map n_ComponentID (filter (node_open b) (stored (nodes t))))"
    "distinct (map edge_key (filter (edge_open b) (stored (edges t))))"
    "distinct (map iv_NodeID (filter version_now (stored (versions t))))"
    "n \<in> set (stored (nodes t)) \<Longrightarrow> n_ComponentID n \<in> component_ids (interned t)"
    "e \<in> set (stored (edges t)) \<Longrightarrow> e_ParentID e \<in> build_nodes t (e_BuildID e)"
    "e \<in> set (stored (edges t)) \<Longrightarrow> e_ChildID e \<in> build_nodes t (e_BuildID e)"
    "v \<in> set (stored (versions t)) \<Longrightarrow> iv_NodeID v \<in> n_ID ` set (stored (nodes t))"
  using assms by (simp_all add: graph_ok_def)

lemma node_named_row:
  assumes "graph_ok t" and "n \<in> set (stored (nodes t))"
  shows "node_named t (n_ID n) = component_named (interned t) (n_ComponentID n)"
proof -
  have "find (\<lambda>m. n_ID m = n_ID n) ns = Some n" if "distinct (map n_ID ns)" "n \<in> set ns" for ns
    using that by (induction ns) auto
  then show ?thesis using assms graph_okD(2) [OF assms(1)] by (simp add: node_named_def numbers_def)
qed


subsection \<open>The steps of one scan\<close>

lemma id_in_named:
  assumes g: "graphing_ok g" and t: "catalog_ok t" and int: "Intern g ds t = Inr (ids, t')"
    and d: "d \<in> set ds"
  shows "id_in g ids d \<in> component_ids t'" and "component_named t' (id_in g ids d) = identity_of g d"
  using Intern_catalog(4) [OF g t int, of "identity_of g d"] d by (auto simp: id_in_def)

lemma wanted_nodes_map:
  "map_of (wanted_nodes g ids snap) x = (if x = id_in g ids (AsRoot (Root snap)) then Some root_stated
     else map_option (\<lambda>d. stated_of g (asStored g snap d)) (find (\<lambda>d. id_in g ids (asStored g snap d) = x) (Components snap)))"
  and wanted_nodes_distinct: "distinct (map fst (wanted_nodes g ids snap))"
proof -
  have eq: "wanted_nodes g ids snap = fold (\<lambda>d m. if map_of m (id_in g ids (asStored g snap d)) = None
      then AList.update (id_in g ids (asStored g snap d)) (stated_of g (asStored g snap d)) m else m)
      (Components snap) [(id_in g ids (AsRoot (Root snap)), root_stated)]"
    by (simp add: wanted_nodes_def Let_def)
  show "map_of (wanted_nodes g ids snap) x = (if x = id_in g ids (AsRoot (Root snap)) then Some root_stated
     else map_option (\<lambda>d. stated_of g (asStored g snap d)) (find (\<lambda>d. id_in g ids (asStored g snap d) = x) (Components snap)))"
    unfolding eq fold_firsts by auto
  show "distinct (map fst (wanted_nodes g ids snap))"
    unfolding eq by (rule fold_firsts_distinct) simp
qed

lemma wanted_nodes_keys:
  "fst ` set (wanted_nodes g ids snap)
    = insert (id_in g ids (AsRoot (Root snap))) ((\<lambda>d. id_in g ids (asStored g snap d)) ` set (Components snap))"
proof -
  have "fst ` set (wanted_nodes g ids snap) = dom (map_of (wanted_nodes g ids snap))"
    by (rule dom_map_of_conv_image_fst [symmetric])
  also have "\<dots> = insert (id_in g ids (AsRoot (Root snap))) ((\<lambda>d. id_in g ids (asStored g snap d)) ` set (Components snap))"
  proof -
    have "find P xs \<noteq> None \<longleftrightarrow> (\<exists>x \<in> set xs. P x)" for P :: "Described \<Rightarrow> bool" and xs by (auto simp: find_None_iff)
    then show ?thesis by (auto simp: dom_def wanted_nodes_map image_iff simp del: not_None_eq)
  qed
  finally show ?thesis .
qed

lemma wanted_edges_ok:
  "wanted_edges g snap ids nodeids deps acc = Inr w \<Longrightarrow> distinct acc \<Longrightarrow> distinct w
    \<and> set w = set acc \<union> {\<lparr>at_Parent = p, at_Child = c, at_Kind = dp_Kind dep\<rparr> | dep p c. dep \<in> set deps
        \<and> map_of nodeids (id_in g ids (asStored g snap (Parent dep))) = Some p
        \<and> map_of nodeids (id_in g ids (asStored g snap (Child dep))) = Some c}
    \<and> (\<forall>dep \<in> set deps. map_of nodeids (id_in g ids (asStored g snap (Parent dep))) \<noteq> None
        \<and> map_of nodeids (id_in g ids (asStored g snap (Child dep))) \<noteq> None)"
proof (induction deps arbitrary: acc)
  case (Cons dep deps)
  then obtain p c where pc: "map_of nodeids (id_in g ids (asStored g snap (Parent dep))) = Some p"
      "map_of nodeids (id_in g ids (asStored g snap (Child dep))) = Some c"
    by (auto split: option.splits)
  let ?k = "\<lparr>at_Parent = p, at_Child = c, at_Kind = dp_Kind dep\<rparr>"
  have "wanted_edges g snap ids nodeids deps (List.insert ?k acc) = Inr w" using Cons.prems(1) pc by simp
  from Cons.IH [OF this] Cons.prems(2) pc show ?case by auto
qed simp

lemma wanted_edges_refuses:
  "(\<exists>e. wanted_edges g snap ids nodeids deps acc = Inl e) \<longleftrightarrow>
    (\<exists>dep \<in> set deps. map_of nodeids (id_in g ids (asStored g snap (Parent dep))) = None
        \<or> map_of nodeids (id_in g ids (asStored g snap (Child dep))) = None)"
  by (induction deps arbitrary: acc) (auto split: option.splits)


text \<open>The images the snapshot states by name, at the nodes they are held at.\<close>

definition image_node :: "graphing \<Rightarrow> Snapshot \<Rightarrow> (string \<times> int) list \<Rightarrow> (int \<times> int) list \<Rightarrow> Described \<Rightarrow> int" where
  "image_node g snap ids nodeids d = (case map_of nodeids (id_in g ids (asStored g snap d)) of Some n \<Rightarrow> n | None \<Rightarrow> 0)"

lemma stated_images_fold:
  "stated_images g snap ids nodeids
    = fold (\<lambda>d m. if by_name g snap d then AList.update (image_node g snap ids nodeids d) (image_says d) m else m) (Components snap) []"
proof -
  have "(case map_of (imagesByName g (Components snap)) (identity_of g d) of
           None \<Rightarrow> said
         | Some stored_image \<Rightarrow>
             if identity_of g d = identity_of g (Root snap) then said
             else AList.update (case map_of nodeids (id_in g ids stored_image) of Some n \<Rightarrow> n | None \<Rightarrow> 0)
                    \<lparr>si_version = trim_space (d_Version d), si_purl = trim_space (d_Purl d)\<rparr> said)
      = (if by_name g snap d then AList.update (image_node g snap ids nodeids d) (image_says d) said else said)" for d said
    by (auto simp: by_name_def image_node_def asStored_def image_says_def split: option.split)
  then show ?thesis by (simp add: stated_images_def)
qed

lemma stated_images_distinct: "distinct (map fst (stated_images g snap ids nodeids))"
  unfolding stated_images_fold by (rule fold_updates_distinct) simp

lemma stated_images_mem:
  "(n, says) \<in> set (stated_images g snap ids nodeids) \<longleftrightarrow>
    (\<exists>l. l = filter (\<lambda>d. by_name g snap d \<and> image_node g snap ids nodeids d = n) (Components snap) \<and> l \<noteq> [] \<and> says = image_says (last l))"
proof -
  have "(n, says) \<in> set (stated_images g snap ids nodeids) \<longleftrightarrow> map_of (stated_images g snap ids nodeids) n = Some says"
    using stated_images_distinct by simp
  also have "\<dots> \<longleftrightarrow> (\<exists>l. l = filter (\<lambda>d. by_name g snap d \<and> image_node g snap ids nodeids d = n) (Components snap) \<and> l \<noteq> []
      \<and> says = image_says (last l))"
    unfolding stated_images_fold fold_updates by (auto split: list.split)
  finally show ?thesis .
qed


subsection \<open>One scan\<close>

text \<open>
  What applying a snapshot does, step by step: the record of one call, which every lemma about the
  call starts from.
\<close>

record graph_call =
  gc_ids :: "(string \<times> int) list"
  gc_nodeids :: "(int \<times> int) list"
  gc_edges :: "edgeAt list"

definition applied_by ::
  "graphing \<Rightarrow> int \<Rightarrow> int \<Rightarrow> Snapshot \<Rightarrow> graph_tables \<Rightarrow> graph_call \<Rightarrow> Applied_graph \<Rightarrow> graph_tables \<Rightarrow> bool" where
  "applied_by g b s snap t c a t' \<longleftrightarrow>
     Intern g (all_described g snap) (interned t) = Inr (gc_ids c, interned t')
     \<and> nodes_reconciled g b s (wanted_nodes g (gc_ids c) snap) (nodes t) (gc_nodeids c) (NodesOpened a) (NodesClosed a) (nodes t')
     \<and> reconcileImageVersions g b s (stated_images g snap (gc_ids c) (gc_nodeids c)) (stored (nodes t')) (versions t)
         = (VersionsOpened a, VersionsClosed a, versions t')
     \<and> wanted_edges g snap (gc_ids c) (gc_nodeids c) (Dependencies snap) [] = Inr (gc_edges c)
     \<and> edges_reconciled g b s (gc_edges c) (edges t) (EdgesOpened a) (EdgesClosed a) (edges t')"

lemma ApplyWithin_steps:
  assumes g: "graphing_ok g" and t: "graph_ok t" and ap: "ApplyWithin g b s snap t = Inr (a, t')"
  obtains c where "applied_by g b s snap t c a t'"
proof -
  obtain ids cat where int: "Intern g (all_described g snap) (interned t) = Inr (ids, cat)"
    using ap by (auto simp: ApplyWithin_def split: sum.splits)
  obtain nodeids no nc ns where rn: "reconcileNodes g b s (wanted_nodes g ids snap) (nodes t) = (nodeids, no, nc, ns)"
    by (metis prod_cases4)
  obtain vo vc vs where rv: "reconcileImageVersions g b s (stated_images g snap ids nodeids) (stored ns) (versions t) = (vo, vc, vs)"
    by (metis prod_cases3)
  obtain w where we: "wanted_edges g snap ids nodeids (Dependencies snap) [] = Inr w"
    using ap int rn rv by (auto simp: ApplyWithin_def split: sum.splits)
  obtain eo ec es where re: "reconcileEdges g b s w (edges t) = (eo, ec, es)" by (metis prod_cases3)
  have res: "a = \<lparr>NodesOpened = no, NodesClosed = nc, EdgesOpened = eo, EdgesClosed = ec, VersionsOpened = vo, VersionsClosed = vc\<rparr>"
    "t' = \<lparr>last_scan_id = (last_scan_id t)(b := Some s), nodes = ns, edges = es, versions = vs, interned = cat\<rparr>"
    using ap int rn rv we re by (simp_all add: ApplyWithin_def)
  have "distinct w" using wanted_edges_ok [OF we] by simp
  then have "applied_by g b s snap t \<lparr>gc_ids = ids, gc_nodeids = nodeids, gc_edges = w\<rparr> a t'"
    using g int rn rv we re graph_okD(2,3,5,6) [OF t] wanted_nodes_distinct
    by (simp add: applied_by_def nodes_reconciled_def edges_reconciled_def res)
  then show ?thesis by (rule that)
qed


lemma ApplyWithin_takes: "ApplyWithin g b s snap t = Inr (a, t') \<Longrightarrow> last_scan_id t' = (last_scan_id t)(b := Some s)"
  by (auto simp: ApplyWithin_def split: sum.splits prod.splits)

end
