(* ===== verification/Graph_Held.thy ===== *)
theory Graph_Held
  imports Graph_Applied
begin

section \<open>What one scan leaves a build holding\<close>

subsection \<open>Identifiers and identities\<close>

lemma described_in:
  "AsRoot (Root snap) \<in> set (all_described g snap)"
  "d \<in> set (Components snap) \<Longrightarrow> asStored g snap d \<in> set (all_described g snap)"
  "dep \<in> set (Dependencies snap) \<Longrightarrow> asStored g snap (Parent dep) \<in> set (all_described g snap)"
  "dep \<in> set (Dependencies snap) \<Longrightarrow> asStored g snap (Child dep) \<in> set (all_described g snap)"
  by (auto simp: all_described_def)

text \<open>The hypotheses every lemma about a call has, and the facts its steps give.\<close>

definition good_call ::
  "graphing \<Rightarrow> int \<Rightarrow> int \<Rightarrow> Snapshot \<Rightarrow> graph_tables \<Rightarrow> graph_call \<Rightarrow> Applied_graph \<Rightarrow> graph_tables \<Rightarrow> bool" where
  "good_call g b s snap t c a t' \<longleftrightarrow> graphing_ok g \<and> graph_ok t \<and> applied_by g b s snap t c a t'"

lemma good_callD:
  assumes "good_call g b s snap t c a t'"
  shows "graphing_ok g" "graph_ok t"
    "Intern g (all_described g snap) (interned t) = Inr (gc_ids c, interned t')"
    "nodes_reconciled g b s (wanted_nodes g (gc_ids c) snap) (nodes t) (gc_nodeids c) (NodesOpened a) (NodesClosed a) (nodes t')"
    "reconcileImageVersions g b s (stated_images g snap (gc_ids c) (gc_nodeids c)) (stored (nodes t')) (versions t)
         = (VersionsOpened a, VersionsClosed a, versions t')"
    "wanted_edges g snap (gc_ids c) (gc_nodeids c) (Dependencies snap) [] = Inr (gc_edges c)"
    "edges_reconciled g b s (gc_edges c) (edges t) (EdgesOpened a) (EdgesClosed a) (edges t')"
  using assms by (simp_all add: good_call_def applied_by_def)

lemma call_catalog:
  assumes r: "good_call g b s snap t c a t'"
  shows "catalog_ok (interned t')" "component_ids (interned t) \<subseteq> component_ids (interned t')"
    "x \<in> component_ids (interned t) \<Longrightarrow> component_named (interned t') x = component_named (interned t) x"
    "d \<in> set (all_described g snap) \<Longrightarrow> id_in g (gc_ids c) d \<in> component_ids (interned t')"
    "d \<in> set (all_described g snap) \<Longrightarrow> component_named (interned t') (id_in g (gc_ids c) d) = identity_of g d"
  using Intern_catalog(1,2,3) [OF good_callD(1) [OF r] graph_okD(1) [OF good_callD(2) [OF r]] good_callD(3) [OF r]]
    id_in_named [OF good_callD(1) [OF r] graph_okD(1) [OF good_callD(2) [OF r]] good_callD(3) [OF r]]
  by auto

lemma id_in_iff:
  assumes r: "good_call g b s snap t c a t'" and d: "d \<in> set (all_described g snap)" and x: "x \<in> component_ids (interned t')"
  shows "id_in g (gc_ids c) d = x \<longleftrightarrow> identity_of g d = component_named (interned t') x"
  using named_injective [OF call_catalog(1) [OF r] call_catalog(4) [OF r d] x] call_catalog(5) [OF r d] by auto

text \<open>The nodes a call found or made, by component.\<close>

lemma call_node:
  assumes r: "good_call g b s snap t c a t'"
  shows "map_of (gc_nodeids c) x = Some i \<longleftrightarrow> (\<exists>n \<in> set (stored (nodes t')). node_open b n \<and> n_ComponentID n = x \<and> n_ID n = i)"
  by (rule nodes_found [OF good_callD(4) [OF r]])

lemma call_listed:
  assumes r: "good_call g b s snap t c a t'"
  shows "map_of (gc_nodeids c) x \<noteq> None \<longleftrightarrow> x \<in> insert (id_in g (gc_ids c) (AsRoot (Root snap)))
      ((\<lambda>d. id_in g (gc_ids c) (asStored g snap d)) ` set (Components snap))"
proof -
  have "map_of (gc_nodeids c) x \<noteq> None \<longleftrightarrow> x \<in> n_ComponentID ` set (filter (node_open b) (stored (nodes t')))"
    using call_node [OF r, of x] by auto
  then show ?thesis unfolding nodes_are_wanted [OF good_callD(4) [OF r]] wanted_nodes_keys .
qed

lemma image_node_open:
  assumes r: "good_call g b s snap t c a t'" and d: "d \<in> set (Components snap)"
  obtains n where "n \<in> set (stored (nodes t'))" "node_open b n"
    "n_ComponentID n = id_in g (gc_ids c) (asStored g snap d)" "n_ID n = image_node g snap (gc_ids c) (gc_nodeids c) d"
proof -
  have "map_of (gc_nodeids c) (id_in g (gc_ids c) (asStored g snap d)) \<noteq> None"
    using call_listed [OF r] d by blast
  then obtain i where i: "map_of (gc_nodeids c) (id_in g (gc_ids c) (asStored g snap d)) = Some i" by auto
  then show ?thesis using call_node [OF r, of "id_in g (gc_ids c) (asStored g snap d)" i] that
    by (auto simp: image_node_def)
qed

lemma call_versions:
  assumes r: "good_call g b s snap t c a t'"
  shows "versions_reconciled g b s (stated_images g snap (gc_ids c) (gc_nodeids c)) (stored (nodes t')) (versions t)
    (VersionsOpened a) (VersionsClosed a) (versions t')"
proof -
  have "list_ex (\<lambda>m. n_ID m = n \<and> n_BuildID m = b) (stored (nodes t'))"
    if "n \<in> fst ` set (stated_images g snap (gc_ids c) (gc_nodeids c))" for n
  proof -
    from that obtain says where "(n, says) \<in> set (stated_images g snap (gc_ids c) (gc_nodeids c))" by auto
    then obtain d where "d \<in> set (Components snap)" "image_node g snap (gc_ids c) (gc_nodeids c) d = n"
      by (auto simp: stated_images_mem filter_empty_conv)
    with image_node_open [OF r, of d] obtain m where "m \<in> set (stored (nodes t'))" "node_open b m" "n_ID m = n" by metis
    then show ?thesis by (auto simp: list_ex_iff node_open_def)
  qed
  then show ?thesis unfolding versions_reconciled_def
    using good_callD(1,5) [OF r] graph_okD(4,7) [OF good_callD(2) [OF r]] stated_images_distinct by blast
qed


subsection \<open>The tables stay in order\<close>

lemma written_by_call:
  assumes r: "good_call g b s snap t c a t'"
  shows "node_rows.scan_wrote s (unwanted_nodes b (wanted_nodes g (gc_ids c) snap) (nodes t))
      (missing_nodes g b s (wanted_nodes g (gc_ids c) snap) (nodes t)) (nodes t) (nodes t')"
    and "edge_rows.scan_wrote s (unwanted_edges b (gc_edges c) (edges t)) (missing_edges g b s (gc_edges c) (edges t)) (edges t) (edges t')"
    and "version_rows.scan_wrote s
      (unsaid_versions b (stated_images g snap (gc_ids c) (gc_nodeids c)) (stored (nodes t')) (versions t))
      (missing_versions g b s (stated_images g snap (gc_ids c) (gc_nodeids c)) (stored (nodes t')) (versions t)) (versions t) (versions t')"
  by (rule nodes_written [OF good_callD(4) [OF r]], rule edges_written [OF good_callD(7) [OF r]],
      rule versions_written [OF call_versions [OF r]])

lemma call_nodes_stay:
  assumes r: "good_call g b s snap t c a t'"
  shows "build_nodes t x \<subseteq> build_nodes t' x"
    and "n_ID ` set (stored (nodes t)) \<subseteq> n_ID ` set (stored (nodes t'))"
proof -
  note w = written_by_call(1) [OF r]
  show "build_nodes t x \<subseteq> build_nodes t' x"
  proof
    fix i assume "i \<in> build_nodes t x"
    then obtain n where n: "n \<in> set (stored (nodes t))" "n_BuildID n = x" "n_ID n = i" by (auto simp: build_nodes_def)
    from w n(1) obtain n' where "n' \<in> set (stored (nodes t'))" "n_ID n' = n_ID n" "node_what n' = node_what n"
      by (rule node_rows.written_old)
    then show "i \<in> build_nodes t' x" using n by (auto simp: build_nodes_def node_what_def)
  qed
  show "n_ID ` set (stored (nodes t)) \<subseteq> n_ID ` set (stored (nodes t'))"
    using w by (rule node_rows.written_ids)
qed

lemma call_edge_ends:
  assumes r: "good_call g b s snap t c a t'" and k: "k \<in> set (gc_edges c)"
  obtains dep p q where "dep \<in> set (Dependencies snap)" "at_Kind k = dp_Kind dep"
    "p \<in> set (stored (nodes t'))" "node_open b p" "n_ID p = at_Parent k" "n_ComponentID p = id_in g (gc_ids c) (asStored g snap (Parent dep))"
    "q \<in> set (stored (nodes t'))" "node_open b q" "n_ID q = at_Child k" "n_ComponentID q = id_in g (gc_ids c) (asStored g snap (Child dep))"
proof -
  from wanted_edges_ok [OF good_callD(6) [OF r]] k obtain dep p q where dep: "dep \<in> set (Dependencies snap)"
      "k = \<lparr>at_Parent = p, at_Child = q, at_Kind = dp_Kind dep\<rparr>"
      "map_of (gc_nodeids c) (id_in g (gc_ids c) (asStored g snap (Parent dep))) = Some p"
      "map_of (gc_nodeids c) (id_in g (gc_ids c) (asStored g snap (Child dep))) = Some q" by auto
  from dep(3) obtain m where "m \<in> set (stored (nodes t'))" "node_open b m" "n_ID m = p"
      "n_ComponentID m = id_in g (gc_ids c) (asStored g snap (Parent dep))" unfolding call_node [OF r] by blast
  moreover from dep(4) obtain m' where "m' \<in> set (stored (nodes t'))" "node_open b m'" "n_ID m' = q"
      "n_ComponentID m' = id_in g (gc_ids c) (asStored g snap (Child dep))" unfolding call_node [OF r] by blast
  ultimately show ?thesis using that [of dep m m'] dep(1,2) by simp
qed

lemma call_graph_ok:
  assumes r: "good_call g b s snap t c a t'"
  shows "graph_ok t'"
proof -
  note g = good_callD(1) [OF r] and t = good_callD(2) [OF r] and nr = good_callD(4) [OF r]
    and vr = call_versions [OF r] and er = good_callD(7) [OF r]
  note w = written_by_call [OF r]
  have 1: "numbers n_ID (nodes t')" using w(1) graph_okD(2) [OF t] by (rule node_rows.written_numbers)
  have 2: "numbers e_ID (edges t')" using w(2) graph_okD(3) [OF t] by (rule edge_rows.written_numbers)
  have 3: "numbers iv_ID (versions t')" using w(3) graph_okD(4) [OF t] by (rule version_rows.written_numbers)
  have 4: "distinct (map n_ComponentID (filter (node_open x) (stored (nodes t'))))" for x
    using nodes_once [OF nr] nodes_other [OF nr, of x] graph_okD(5) [OF t, of x] by (cases "x = b") auto
  have 5: "distinct (map edge_key (filter (edge_open x) (stored (edges t'))))" for x
    using edges_left(2) [OF er] edges_left(3) [OF er, of x] graph_okD(6) [OF t, of x] by (cases "x = b") auto
  have 6: "n_ComponentID n \<in> component_ids (interned t')" if "n \<in> set (stored (nodes t'))" for n
    using w(1) that
  proof (cases rule: node_rows.written_row)
    case (kept m)
    then show ?thesis using graph_okD(8) [OF t, of m] call_catalog(2) [OF r] by (auto simp: node_what_def)
  next
    case (new i m)
    then have "n_ComponentID n \<in> fst ` set (wanted_nodes g (gc_ids c) snap)"
      using missing_components(1) [OF nr] by (auto simp: node_what_def)
    then show ?thesis unfolding wanted_nodes_keys
      using call_catalog(4) [OF r] described_in(1,2) by auto
  qed
  have 7: "e_ParentID e \<in> build_nodes t' (e_BuildID e) \<and> e_ChildID e \<in> build_nodes t' (e_BuildID e)"
    if "e \<in> set (stored (edges t'))" for e
    using w(2) that
  proof (cases rule: edge_rows.written_row)
    case (kept m)
    then show ?thesis using graph_okD(9,10) [OF t] call_nodes_stay(1) [OF r]
      by (auto simp: edge_what_def edge_key_def)
  next
    case (new i m)
    have "mset (visit_edges g (gc_edges c)) = mset (gc_edges c)" using g by (simp add: graphing_ok_def)
    then have "set (visit_edges g (gc_edges c)) = set (gc_edges c)" by (rule mset_eq_setD)
    then have "edge_key m \<in> set (gc_edges c)" "e_BuildID m = b"
      using new(1) by (auto simp: missing_edges_def)
    from call_edge_ends [OF r this(1)] obtain p q where "p \<in> set (stored (nodes t'))" "node_open b p" "n_ID p = at_Parent (edge_key m)"
       "q \<in> set (stored (nodes t'))" "node_open b q" "n_ID q = at_Child (edge_key m)" by metis
    then show ?thesis using new \<open>e_BuildID m = b\<close>
      by (auto simp: build_nodes_def node_open_def edge_what_def edge_key_def image_iff)
  qed
  have 8: "iv_NodeID v \<in> n_ID ` set (stored (nodes t'))" if "v \<in> set (stored (versions t'))" for v
    using w(3) that
  proof (cases rule: version_rows.written_row)
    case (kept m)
    then show ?thesis using graph_okD(11) [OF t, of m] call_nodes_stay(2) [OF r] by (auto simp: version_what_def)
  next
    case (new i m)
    let ?said = "stated_images g snap (gc_ids c) (gc_nodeids c)"
    have "mset (visit_versions g ?said) = mset ?said" using g by (simp add: graphing_ok_def)
    then have "set (visit_versions g ?said) = set ?said" by (rule mset_eq_setD)
    then have "iv_NodeID m \<in> fst ` set ?said" using new(1) by (auto simp: missing_versions_def intro: rev_image_eqI)
    moreover have "iv_NodeID v = iv_NodeID m" using new(2) by simp
    ultimately have "iv_NodeID v \<in> fst ` set ?said" by simp
    then show ?thesis using versions_reconciledD(5) [OF vr, of "iv_NodeID v"] by (auto simp: list_ex_iff image_iff intro: sym)
  qed
  show ?thesis unfolding graph_ok_def
    using call_catalog(1) [OF r] 1 2 3 4 5 6 7 8 versions_left(2) [OF vr] by blast
qed



subsection \<open>What is held afterwards\<close>

lemma held_now_nodes: "(i, x, k) \<in> held_nodes t b 0 \<longleftrightarrow>
    x = b \<and> (\<exists>n \<in> set (stored (nodes t)). node_open b n \<and> n_ID n = i \<and> n_ComponentID n = k)"
  by (auto simp: held_nodes_def node_rows.rows_held_def node_what_def node_open_def Held_def)

lemma held_now_edges: "(i, x, k) \<in> held_edges t b 0 \<longleftrightarrow>
    x = b \<and> (\<exists>e \<in> set (stored (edges t)). edge_open b e \<and> e_ID e = i \<and> edge_key e = k)"
  by (auto simp: held_edges_def edge_rows.rows_held_def edge_what_def edge_open_def Held_def)

lemma version_open_what: "version_open b (stored (nodes t)) v \<longleftrightarrow> iv_ClosedScanID v = None \<and> fst (version_what v) \<in> build_nodes t b"
  by (auto simp: version_open_def build_nodes_def list_ex_iff version_what_def image_iff)

lemma held_now_versions: "(i, w) \<in> held_images t b 0 \<longleftrightarrow>
    (\<exists>v \<in> set (stored (versions t)). version_open b (stored (nodes t)) v \<and> iv_ID v = i \<and> version_what v = w)"
  unfolding held_images_def version_rows.rows_held_def version_open_what Held_def by auto

lemma triples_image: "x \<in> (\<lambda>(_, _, k). f k) ` A \<longleftrightarrow> (\<exists>i y k. (i, y, k) \<in> A \<and> x = f k)"
  by force

lemma now_components:
  "components_at t b 0 = component_named (interned t) ` n_ComponentID ` set (filter (node_open b) (stored (nodes t)))"
  unfolding components_at_def by (rule set_eqI) (auto simp: triples_image held_now_nodes)

lemma now_dependencies:
  "dependencies_at t b 0
    = (\<lambda>k. (node_named t (at_Parent k), node_named t (at_Child k), at_Kind k)) ` edge_key ` set (filter (edge_open b) (stored (edges t)))"
  unfolding dependencies_at_def by (rule set_eqI) (auto simp: triples_image held_now_edges)

lemma call_components:
  assumes r: "good_call g b s snap t c a t'"
  shows "components_at t' b 0 = said_components g snap"
proof -
  have "components_at t' b 0 = component_named (interned t') ` n_ComponentID ` set (filter (node_open b) (stored (nodes t')))"
    by (rule now_components)
  also have "\<dots> = component_named (interned t') ` insert (id_in g (gc_ids c) (AsRoot (Root snap)))
      ((\<lambda>d. id_in g (gc_ids c) (asStored g snap d)) ` set (Components snap))"
    unfolding nodes_are_wanted [OF good_callD(4) [OF r]] wanted_nodes_keys ..
  also have "\<dots> = said_components g snap"
    using call_catalog(5) [OF r] described_in(1,2) unfolding said_components_def image_insert image_image
    by (intro arg_cong2 [where f = insert] image_cong) auto
  finally show ?thesis .
qed

lemma call_dependencies:
  assumes r: "good_call g b s snap t c a t'"
  shows "dependencies_at t' b 0 = said_dependencies g snap"
proof -
  note ok = call_graph_ok [OF r]
  have "dependencies_at t' b 0
      = (\<lambda>k. (node_named t' (at_Parent k), node_named t' (at_Child k), at_Kind k)) ` edge_key ` set (filter (edge_open b) (stored (edges t')))"
    by (rule now_dependencies)
  also have "\<dots> = (\<lambda>k. (node_named t' (at_Parent k), node_named t' (at_Child k), at_Kind k)) ` set (gc_edges c)"
    unfolding edges_left(1) [OF good_callD(7) [OF r]] ..
  also have "\<dots> = said_dependencies g snap"
  proof (intro set_eqI iffI)
    fix x assume "x \<in> (\<lambda>k. (node_named t' (at_Parent k), node_named t' (at_Child k), at_Kind k)) ` set (gc_edges c)"
    then obtain k where k: "k \<in> set (gc_edges c)" "x = (node_named t' (at_Parent k), node_named t' (at_Child k), at_Kind k)" by auto
    from call_edge_ends [OF r k(1)] obtain dep p q where dep: "dep \<in> set (Dependencies snap)" "at_Kind k = dp_Kind dep"
        "p \<in> set (stored (nodes t'))" "n_ID p = at_Parent k" "n_ComponentID p = id_in g (gc_ids c) (asStored g snap (Parent dep))"
        "q \<in> set (stored (nodes t'))" "n_ID q = at_Child k" "n_ComponentID q = id_in g (gc_ids c) (asStored g snap (Child dep))"
      by metis
    have "node_named t' (at_Parent k) = identity_of g (asStored g snap (Parent dep))"
      using node_named_row [OF ok dep(3)] dep(4,5) call_catalog(5) [OF r described_in(3) [OF dep(1)]] by simp
    moreover have "node_named t' (at_Child k) = identity_of g (asStored g snap (Child dep))"
      using node_named_row [OF ok dep(6)] dep(7,8) call_catalog(5) [OF r described_in(4) [OF dep(1)]] by simp
    ultimately show "x \<in> said_dependencies g snap" using k(2) dep(1,2) by (auto simp: said_dependencies_def)
  next
    fix x assume "x \<in> said_dependencies g snap"
    then obtain dep where dep: "dep \<in> set (Dependencies snap)"
        "x = (identity_of g (asStored g snap (Parent dep)), identity_of g (asStored g snap (Child dep)), dp_Kind dep)"
      by (auto simp: said_dependencies_def)
    from wanted_edges_ok [OF good_callD(6) [OF r]] dep(1) obtain i j where ij:
        "map_of (gc_nodeids c) (id_in g (gc_ids c) (asStored g snap (Parent dep))) = Some i"
        "map_of (gc_nodeids c) (id_in g (gc_ids c) (asStored g snap (Child dep))) = Some j"
      by fastforce
    let ?k = "\<lparr>at_Parent = i, at_Child = j, at_Kind = dp_Kind dep\<rparr>"
    have "set (gc_edges c) = {\<lparr>at_Parent = p, at_Child = q, at_Kind = dp_Kind dep\<rparr> | dep p q. dep \<in> set (Dependencies snap)
        \<and> map_of (gc_nodeids c) (id_in g (gc_ids c) (asStored g snap (Parent dep))) = Some p
        \<and> map_of (gc_nodeids c) (id_in g (gc_ids c) (asStored g snap (Child dep))) = Some q}"
      using wanted_edges_ok [OF good_callD(6) [OF r]] by simp
    then have k: "?k \<in> set (gc_edges c)" using dep(1) ij by auto
    from ij(1) obtain p where p: "p \<in> set (stored (nodes t'))" "n_ID p = i"
        "n_ComponentID p = id_in g (gc_ids c) (asStored g snap (Parent dep))" unfolding call_node [OF r] by blast
    from ij(2) obtain q where q: "q \<in> set (stored (nodes t'))" "n_ID q = j"
        "n_ComponentID q = id_in g (gc_ids c) (asStored g snap (Child dep))" unfolding call_node [OF r] by blast
    have "x = (node_named t' (at_Parent ?k), node_named t' (at_Child ?k), at_Kind ?k)"
      using node_named_row [OF ok p(1)] node_named_row [OF ok q(1)] p q dep
        call_catalog(5) [OF r described_in(3) [OF dep(1)]] call_catalog(5) [OF r described_in(4) [OF dep(1)]] by simp
    then show "x \<in> (\<lambda>k. (node_named t' (at_Parent k), node_named t' (at_Child k), at_Kind k)) ` set (gc_edges c)" using k by blast
  qed
  finally show ?thesis .
qed

text \<open>The node of an image tells the image, and the image its node.\<close>

lemma image_node_iff:
  assumes r: "good_call g b s snap t c a t'" and d: "d \<in> set (Components snap)"
    and n: "n \<in> set (stored (nodes t'))" "node_open b n"
  shows "image_node g snap (gc_ids c) (gc_nodeids c) d = n_ID n \<longleftrightarrow> identity_of g (asStored g snap d) = node_named t' (n_ID n)"
proof -
  note ok = call_graph_ok [OF r]
  from image_node_open [OF r d] obtain m where m: "m \<in> set (stored (nodes t'))" "node_open b m"
    "n_ComponentID m = id_in g (gc_ids c) (asStored g snap d)" "n_ID m = image_node g snap (gc_ids c) (gc_nodeids c) d" .
  have named: "node_named t' (n_ID n) = component_named (interned t') (n_ComponentID n)" using node_named_row [OF ok n(1)] .
  have "image_node g snap (gc_ids c) (gc_nodeids c) d = n_ID n \<longleftrightarrow> m = n"
    using unique_row [of n_ID "stored (nodes t')" m n] m(1,4) n(1) graph_okD(2) [OF ok] by (auto simp: numbers_def)
  also have "\<dots> \<longleftrightarrow> n_ComponentID m = n_ComponentID n"
    using unique_row [of n_ComponentID "filter (node_open b) (stored (nodes t'))" m n] m n graph_okD(5) [OF ok] by auto
  also have "\<dots> \<longleftrightarrow> identity_of g (asStored g snap d) = node_named t' (n_ID n)"
    unfolding m(3) named by (rule id_in_iff [OF r described_in(2) [OF d] graph_okD(8) [OF ok n(1)]])
  finally show ?thesis .
qed

lemma call_images:
  assumes r: "good_call g b s snap t c a t'"
  shows "images_at t' b 0 = said_images g snap"
proof -
  let ?said = "stated_images g snap (gc_ids c) (gc_nodeids c)"
  have open_node: "\<exists>m \<in> set (stored (nodes t')). node_open b m \<and> n_ID m = n" if "(n, says) \<in> set ?said" for n says
  proof -
    from that obtain d where "d \<in> set (Components snap)" "image_node g snap (gc_ids c) (gc_nodeids c) d = n"
      by (auto simp: stated_images_mem filter_empty_conv)
    with image_node_open [OF r, of d] show ?thesis by metis
  qed
  have "images_at t' b 0 = (\<lambda>(n, says). (node_named t' n, says)) ` {w. \<exists>i. (i, w) \<in> held_images t' b 0 \<and> fst w \<in> fst ` held_nodes t' b 0}"
    unfolding images_at_def by (force simp: image_iff)
  also have "{w. \<exists>i. (i, w) \<in> held_images t' b 0 \<and> fst w \<in> fst ` held_nodes t' b 0} = set ?said"
  proof (intro set_eqI iffI)
    fix w assume "w \<in> {w. \<exists>i. (i, w) \<in> held_images t' b 0 \<and> fst w \<in> fst ` held_nodes t' b 0}"
    then show "w \<in> set ?said" using versions_left(1) [OF call_versions [OF r]] by (auto simp: held_now_versions)
  next
    fix w assume w: "w \<in> set ?said"
    obtain n says where ns: "w = (n, says)" by fastforce
    from open_node w ns obtain m where "m \<in> set (stored (nodes t'))" "node_open b m" "n_ID m = n" by blast
    then have "(n, b, n_ComponentID m) \<in> held_nodes t' b 0" by (auto simp: held_now_nodes)
    then have "n \<in> fst ` held_nodes t' b 0" by force
    moreover have "w \<in> version_what ` set (filter (version_open b (stored (nodes t'))) (stored (versions t')))"
      using w versions_left(1) [OF call_versions [OF r]] by simp
    then obtain v where "v \<in> set (stored (versions t'))" "version_open b (stored (nodes t')) v" "version_what v = w" by auto
    then have "(iv_ID v, w) \<in> held_images t' b 0" unfolding held_now_versions by blast
    ultimately show "w \<in> {w. \<exists>i. (i, w) \<in> held_images t' b 0 \<and> fst w \<in> fst ` held_nodes t' b 0}"
      using ns by auto
  qed
  also have "(\<lambda>(n, says). (node_named t' n, says)) ` set ?said = said_images g snap"
  proof (intro set_eqI iffI)
    fix x assume "x \<in> (\<lambda>(n, says). (node_named t' n, says)) ` set ?said"
    then obtain n says where x: "(n, says) \<in> set ?said" "x = (node_named t' n, says)" by auto
    from open_node [OF x(1)] obtain m where m: "m \<in> set (stored (nodes t'))" "node_open b m" "n_ID m = n" by blast
    have "filter (\<lambda>d. by_name g snap d \<and> image_node g snap (gc_ids c) (gc_nodeids c) d = n) (Components snap)
        = filter (\<lambda>d. by_name g snap d \<and> identity_of g (asStored g snap d) = node_named t' n) (Components snap)"
      using image_node_iff [OF r _ m(1,2)] m(3) by (intro filter_cong) auto
    then show "x \<in> said_images g snap" using x by (auto simp: stated_images_mem said_images_def)
  next
    fix x assume "x \<in> said_images g snap"
    then obtain i l where l: "l = filter (\<lambda>d. by_name g snap d \<and> identity_of g (asStored g snap d) = i) (Components snap)"
        "l \<noteq> []" "x = (i, image_says (last l))" by (auto simp: said_images_def)
    from l(2) have "last l \<in> set l" by (rule last_in_set)
    then have d: "last l \<in> set (Components snap)" "identity_of g (asStored g snap (last l)) = i" using l(1) by auto
    from image_node_open [OF r d(1)] obtain m where m: "m \<in> set (stored (nodes t'))" "node_open b m"
      "n_ID m = image_node g snap (gc_ids c) (gc_nodeids c) (last l)" by metis
    have i: "node_named t' (n_ID m) = i" using image_node_iff [OF r d(1) m(1,2)] m(3) d(2) by simp
    have "l = filter (\<lambda>d. by_name g snap d \<and> image_node g snap (gc_ids c) (gc_nodeids c) d = n_ID m) (Components snap)"
      unfolding l(1) using image_node_iff [OF r _ m(1,2)] i by (intro filter_cong) auto
    then have "(n_ID m, image_says (last l)) \<in> set ?said" using l(2) unfolding stated_images_mem by blast
    then show "x \<in> (\<lambda>(n, says). (node_named t' n, says)) ` set ?said" using l(3) i by force
  qed
  finally show ?thesis .
qed

text \<open>And each open node carries what the build states about its component.\<close>

lemma find_cong_set: "(\<And>x. x \<in> set xs \<Longrightarrow> P x = Q x) \<Longrightarrow> find P xs = find Q xs"
  by (induction xs) auto

lemma call_says:
  assumes r: "good_call g b s snap t c a t'" and n: "n \<in> set (stored (nodes t'))" "node_open b n"
  shows "said_of g snap (component_named (interned t') (n_ComponentID n)) = Some (says_of n)"
proof -
  let ?x = "n_ComponentID n"
  have x: "?x \<in> component_ids (interned t')" using graph_okD(8) [OF call_graph_ok [OF r] n(1)] .
  have says: "map_of (wanted_nodes g (gc_ids c) snap) ?x = Some (says_of n)"
    using good_callD(4) [OF r] n by (rule nodes_say)
  have rt: "?x = id_in g (gc_ids c) (AsRoot (Root snap)) \<longleftrightarrow> component_named (interned t') ?x = identity_of g (AsRoot (Root snap))"
    using id_in_iff [OF r described_in(1) x] by auto
  have fd: "find (\<lambda>d. id_in g (gc_ids c) (asStored g snap d) = ?x) (Components snap)
      = find (\<lambda>d. identity_of g (asStored g snap d) = component_named (interned t') ?x) (Components snap)"
    by (rule find_cong_set) (rule id_in_iff [OF r described_in(2) x])
  show ?thesis using says unfolding wanted_nodes_map said_of_def rt fd .
qed

text \<open>Nothing open hangs off what is closed.\<close>

definition links_open :: "graph_tables \<Rightarrow> int \<Rightarrow> bool" where
  "links_open t b \<longleftrightarrow> (\<forall>e \<in> set (stored (edges t)). edge_open b e \<longrightarrow>
      e_ParentID e \<in> n_ID ` set (filter (node_open b) (stored (nodes t))) \<and> e_ChildID e \<in> n_ID ` set (filter (node_open b) (stored (nodes t))))"

lemma call_links:
  assumes r: "good_call g b s snap t c a t'"
  shows "links_open t' b" and "x \<noteq> b \<Longrightarrow> links_open t x \<Longrightarrow> links_open t' x"
proof -
  have "e_ParentID e \<in> n_ID ` set (filter (node_open b) (stored (nodes t'))) \<and> e_ChildID e \<in> n_ID ` set (filter (node_open b) (stored (nodes t')))"
    if "e \<in> set (stored (edges t'))" "edge_open b e" for e
  proof -
    have "edge_key e \<in> set (gc_edges c)" using edges_left(1) [OF good_callD(7) [OF r]] that by auto
    from call_edge_ends [OF r this] obtain p q where "p \<in> set (stored (nodes t'))" "node_open b p" "n_ID p = at_Parent (edge_key e)"
       "q \<in> set (stored (nodes t'))" "node_open b q" "n_ID q = at_Child (edge_key e)" by metis
    then show ?thesis by (auto simp: edge_key_def image_iff)
  qed
  then show "links_open t' b" by (auto simp: links_open_def)
  assume x: "x \<noteq> b" and l: "links_open t x"
  have "filter (edge_open x) (stored (edges t')) = filter (edge_open x) (stored (edges t))"
    by (rule edges_left(3) [OF good_callD(7) [OF r] x])
  then have "set (filter (edge_open x) (stored (edges t'))) = set (filter (edge_open x) (stored (edges t)))" by simp
  then show "links_open t' x"
    using l nodes_other [OF good_callD(4) [OF r] x] unfolding links_open_def by (auto simp del: set_filter) (auto simp: set_eq_iff)
qed

end
