(* ===== verification/Graph_History.thy ===== *)
theory Graph_History
  imports Graph_Held
begin

section \<open>One scan after another\<close>

text \<open>
  The graph tables as scans make them: every scan of a build has a greater identifier than the scans
  of that build before it, and the scans of different builds come in any order. A scan that is
  refused writes nothing, so the history lists those that were stored, the latest first.
\<close>

type_synonym graph_entry = "graphing \<times> int \<times> int \<times> Snapshot"

definition empty_graph :: graph_tables where
  "empty_graph = \<lparr>last_scan_id = (\<lambda>_. None), nodes = \<lparr>stored = [], next_id = 1\<rparr>, edges = \<lparr>stored = [], next_id = 1\<rparr>,
     versions = \<lparr>stored = [], next_id = 1\<rparr>, interned = \<lparr>stored = [], next_id = 1\<rparr>\<rparr>"

definition scans_of :: "graph_entry list \<Rightarrow> int \<Rightarrow> int set" where
  "scans_of h b = {s. \<exists>g snap. (g, b, s, snap) \<in> set h}"

inductive graphed :: "graph_entry list \<Rightarrow> graph_tables \<Rightarrow> bool" where
  nothing: "graphed [] empty_graph"
| another: "graphed h t \<Longrightarrow> graphing_ok g \<Longrightarrow> 0 < s \<Longrightarrow> (\<And>s'. s' \<in> scans_of h b \<Longrightarrow> s' < s)
    \<Longrightarrow> ApplyWithin g b s snap t = Inr (a, t') \<Longrightarrow> graphed ((g, b, s, snap) # h) t'"

inductive_cases graphed_step: "graphed (e # h) t"


subsection \<open>What another scan does not change\<close>

lemma call_names:
  assumes r: "good_call g b s snap t c a t'" and i: "i \<in> n_ID ` set (stored (nodes t))"
  shows "node_named t' i = node_named t i"
proof -
  note t = good_callD(2) [OF r]
  from i obtain n where n: "n \<in> set (stored (nodes t))" "n_ID n = i" by auto
  from written_by_call(1) [OF r] n(1) obtain n' where n': "n' \<in> set (stored (nodes t'))" "n_ID n' = n_ID n" "node_what n' = node_what n"
    by (rule node_rows.written_old)
  show ?thesis
    using node_named_row [OF t n(1)] node_named_row [OF call_graph_ok [OF r] n'(1)] n n' call_catalog(3) [OF r graph_okD(8) [OF t n(1)]]
    by (simp add: node_what_def)
qed

lemma unwanted_node:
  assumes "numbers n_ID t" and "n \<in> set (stored t)"
  shows "n_ID n \<in> unwanted_nodes build wanted t \<longleftrightarrow> node_open build n \<and> \<not> kept_node wanted n"
  using unique_row [of n_ID "stored t" _ n] assms by (auto simp: unwanted_nodes_def numbers_def)

text \<open>The rows a call closes and adds are the build's.\<close>

lemma call_builds:
  assumes r: "good_call g b s snap t c a t'"
  shows "n \<in> set (stored (nodes t)) \<Longrightarrow> n_ID n \<in> unwanted_nodes b (wanted_nodes g (gc_ids c) snap) (nodes t) \<Longrightarrow> n_BuildID n = b"
    and "n \<in> set (missing_nodes g b s (wanted_nodes g (gc_ids c) snap) (nodes t)) \<Longrightarrow> n_BuildID n = b"
    and "e \<in> set (stored (edges t)) \<Longrightarrow> e_ID e \<in> unwanted_edges b (gc_edges c) (edges t) \<Longrightarrow> e_BuildID e = b"
    and "e \<in> set (missing_edges g b s (gc_edges c) (edges t)) \<Longrightarrow> e_BuildID e = b"
    and "v \<in> set (stored (versions t)) \<Longrightarrow> iv_ID v \<in> unsaid_versions b (stated_images g snap (gc_ids c) (gc_nodeids c)) (stored (nodes t')) (versions t)
      \<Longrightarrow> iv_NodeID v \<in> build_nodes t' b"
    and "v \<in> set (missing_versions g b s (stated_images g snap (gc_ids c) (gc_nodeids c)) (stored (nodes t')) (versions t))
      \<Longrightarrow> iv_NodeID v \<in> build_nodes t' b"
proof -
  note t = good_callD(2) [OF r] and vr = call_versions [OF r]
  let ?said = "stated_images g snap (gc_ids c) (gc_nodeids c)"
  show "n \<in> set (stored (nodes t)) \<Longrightarrow> n_ID n \<in> unwanted_nodes b (wanted_nodes g (gc_ids c) snap) (nodes t) \<Longrightarrow> n_BuildID n = b"
    using unwanted_node [OF graph_okD(2) [OF t], of n b "wanted_nodes g (gc_ids c) snap"] by (auto simp: node_open_def)
  show "n \<in> set (missing_nodes g b s (wanted_nodes g (gc_ids c) snap) (nodes t)) \<Longrightarrow> n_BuildID n = b"
    by (auto simp: missing_nodes_def)
  show "e \<in> set (stored (edges t)) \<Longrightarrow> e_ID e \<in> unwanted_edges b (gc_edges c) (edges t) \<Longrightarrow> e_BuildID e = b"
    using unwanted_edge [OF graph_okD(3) [OF t], of e b "gc_edges c"] by (auto simp: edge_open_def)
  show "e \<in> set (missing_edges g b s (gc_edges c) (edges t)) \<Longrightarrow> e_BuildID e = b"
    by (auto simp: missing_edges_def)
  show "v \<in> set (stored (versions t)) \<Longrightarrow> iv_ID v \<in> unsaid_versions b ?said (stored (nodes t')) (versions t) \<Longrightarrow> iv_NodeID v \<in> build_nodes t' b"
    using unsaid_version [OF graph_okD(4) [OF t], of v b ?said "stored (nodes t')"] version_open_what [of b t' v]
    by (auto simp: version_what_def)
  have "mset (visit_versions g ?said) = mset ?said" using good_callD(1) [OF r] by (simp add: graphing_ok_def)
  then have v: "set (visit_versions g ?said) = set ?said" by (rule mset_eq_setD)
  show "iv_NodeID v \<in> build_nodes t' b" if "v \<in> set (missing_versions g b s ?said (stored (nodes t')) (versions t))"
  proof -
    have "iv_NodeID v \<in> fst ` set ?said" using that v by (auto simp: missing_versions_def intro: rev_image_eqI)
    then show ?thesis using versions_reconciledD(5) [OF vr, of "iv_NodeID v"]
      by (auto simp: list_ex_iff build_nodes_def image_iff intro: sym)
  qed
qed

text \<open>Each node is one build's.\<close>

lemma build_nodes_apart:
  assumes "graph_ok t" and "i \<in> build_nodes t x" and "i \<in> build_nodes t y"
  shows "x = y"
  using assms graph_okD(2) [OF assms(1)] unique_row [of n_ID "stored (nodes t)"]
  by (auto simp: build_nodes_def numbers_def)

lemma call_build_nodes:
  assumes r: "good_call g b s snap t c a t'" and i: "i \<in> n_ID ` set (stored (nodes t))"
  shows "i \<in> build_nodes t' x \<longleftrightarrow> i \<in> build_nodes t x"
proof -
  from i obtain n where n: "n \<in> set (stored (nodes t))" "n_ID n = i" by auto
  then have here: "i \<in> build_nodes t (n_BuildID n)" by (auto simp: build_nodes_def)
  then have "i \<in> build_nodes t' (n_BuildID n)" using call_nodes_stay(1) [OF r] by blast
  then show ?thesis
    using here build_nodes_apart [OF call_graph_ok [OF r]] build_nodes_apart [OF good_callD(2) [OF r]]
      call_nodes_stay(1) [OF r, of x] by blast
qed

text \<open>
  What a build held at an earlier moment, or what another build holds at any, reads as it read.
\<close>

lemma call_history:
  assumes r: "good_call g b s snap t c a t'" and m: "x = b \<Longrightarrow> m \<noteq> 0 \<and> m < s"
  shows "held_nodes t' x m = held_nodes t x m"
    and "held_edges t' x m = held_edges t x m"
    and "held_images t' x m = held_images t x m"
proof -
  note t = good_callD(2) [OF r] and w = written_by_call [OF r] and at = call_builds [OF r]
  show "held_nodes t' x m = held_nodes t x m"
    unfolding held_nodes_def using at(1,2) m by (intro node_rows.written_before [OF w(1)]) (auto simp: node_what_def)
  show "held_edges t' x m = held_edges t x m"
    unfolding held_edges_def using at(3,4) m by (intro edge_rows.written_before [OF w(2)]) (auto simp: edge_what_def)
  have apart: "x = b" if "i \<in> build_nodes t' x" "i \<in> build_nodes t' b" for i
    using build_nodes_apart [OF call_graph_ok [OF r] that] .
  have node_of: "fst (version_what v) = iv_NodeID v" for v by (simp add: version_what_def)
  have "held_images t' x m = version_rows.rows_held (\<lambda>w. fst w \<in> build_nodes t' x) m (versions t)"
    unfolding held_images_def
  proof (rule version_rows.written_before [OF w(3)])
    fix v assume "v \<in> set (stored (versions t))"
      "iv_ID v \<in> unsaid_versions b (stated_images g snap (gc_ids c) (gc_nodeids c)) (stored (nodes t')) (versions t)"
      "fst (version_what v) \<in> build_nodes t' x"
    then show "m \<noteq> 0 \<and> m < s" using at(5) apart m node_of by metis
  next
    fix v assume "v \<in> set (missing_versions g b s (stated_images g snap (gc_ids c) (gc_nodeids c)) (stored (nodes t')) (versions t))"
      "fst (version_what v) \<in> build_nodes t' x"
    then show "m \<noteq> 0 \<and> m < s" using at(6) apart m node_of by metis
  qed
  also have "\<dots> = held_images t x m"
  proof -
    have "fst (version_what v) \<in> build_nodes t' x \<longleftrightarrow> fst (version_what v) \<in> build_nodes t x" if "v \<in> set (stored (versions t))" for v
      unfolding node_of by (rule call_build_nodes [OF r graph_okD(11) [OF t that]])
    then show ?thesis unfolding held_images_def version_rows.rows_held_def by blast
  qed
  finally show "held_images t' x m = held_images t x m" .
qed

lemma call_reads:
  assumes r: "good_call g b s snap t c a t'" and m: "x = b \<Longrightarrow> m \<noteq> 0 \<and> m < s"
  shows "components_at t' x m = components_at t x m"
    and "dependencies_at t' x m = dependencies_at t x m"
    and "images_at t' x m = images_at t x m"
proof -
  note t = good_callD(2) [OF r]
  have h1: "held_nodes t' x m = held_nodes t x m" by (rule call_history(1) [OF r m])
  have h2: "held_edges t' x m = held_edges t x m" by (rule call_history(2) [OF r m])
  have h3: "held_images t' x m = held_images t x m" by (rule call_history(3) [OF r m])
  have "component_named (interned t') k = component_named (interned t) k" if "(i, y, k) \<in> held_nodes t x m" for i y k
    using that call_catalog(3) [OF r] graph_okD(8) [OF t] by (auto simp: held_nodes_def node_rows.rows_held_def node_what_def)
  then show "components_at t' x m = components_at t x m"
    unfolding components_at_def h1 by (intro image_cong) auto
  have stay: "build_nodes t y \<subseteq> n_ID ` set (stored (nodes t))" for y by (auto simp: build_nodes_def)
  have "node_named t' (at_Parent k) = node_named t (at_Parent k) \<and> node_named t' (at_Child k) = node_named t (at_Child k)"
    if "(i, y, k) \<in> held_edges t x m" for i y k
  proof -
    from that obtain e where "e \<in> set (stored (edges t))" "edge_key e = k"
      by (auto simp: held_edges_def edge_rows.rows_held_def edge_what_def)
    then have "at_Parent k \<in> n_ID ` set (stored (nodes t))" "at_Child k \<in> n_ID ` set (stored (nodes t))"
      using graph_okD(9) [OF t, of e, THEN subsetD [OF stay]] graph_okD(10) [OF t, of e, THEN subsetD [OF stay]]
      by (auto simp: edge_key_def)
    then show ?thesis using call_names [OF r] by blast
  qed
  then show "dependencies_at t' x m = dependencies_at t x m"
    unfolding dependencies_at_def h2 by (intro image_cong) auto
  have "node_named t' n = node_named t n" if "(i, n, says) \<in> held_images t x m" for i n says
  proof -
    from that obtain v where "(n, says) = version_what v" "fst (version_what v) \<in> build_nodes t x"
      by (auto simp: held_images_def version_rows.rows_held_def)
    then have "n \<in> build_nodes t x" by (metis fst_conv)
    then show ?thesis using call_names [OF r] stay by blast
  qed
  then show "images_at t' x m = images_at t x m"
    unfolding images_at_def h1 h3 by (intro image_cong) auto
qed


subsection \<open>Every row names scans of its build\<close>

definition rows_of :: "graph_entry list \<Rightarrow> graph_tables \<Rightarrow> bool" where
  "rows_of h t \<longleftrightarrow>
     (\<forall>n \<in> set (stored (nodes t)). n_OpenedScanID n \<in> scans_of h (n_BuildID n) \<and> set_option (n_ClosedScanID n) \<subseteq> scans_of h (n_BuildID n))
     \<and> (\<forall>e \<in> set (stored (edges t)). e_OpenedScanID e \<in> scans_of h (e_BuildID e) \<and> set_option (e_ClosedScanID e) \<subseteq> scans_of h (e_BuildID e))
     \<and> (\<forall>v \<in> set (stored (versions t)). \<forall>b. iv_NodeID v \<in> build_nodes t b
          \<longrightarrow> iv_OpenedScanID v \<in> scans_of h b \<and> set_option (iv_ClosedScanID v) \<subseteq> scans_of h b)"

lemma scans_of_more [simp]: "s' \<in> scans_of ((g, b, s, snap) # h) x \<longleftrightarrow> (x = b \<and> s' = s) \<or> s' \<in> scans_of h x"
  by (auto simp: scans_of_def)

lemma call_rows:
  assumes r: "good_call g b s snap t c a t'" and h: "rows_of h t"
  shows "rows_of ((g, b, s, snap) # h) t'"
proof -
  note t = good_callD(2) [OF r] and w = written_by_call [OF r] and at = call_builds [OF r]
  let ?h = "(g, b, s, snap) # h"
  have more: "scans_of h x \<subseteq> scans_of ?h x" for x by auto
  have 1: "n_OpenedScanID n \<in> scans_of ?h (n_BuildID n) \<and> set_option (n_ClosedScanID n) \<subseteq> scans_of ?h (n_BuildID n)"
    if "n \<in> set (stored (nodes t'))" for n
    using w(1) that
  proof (cases rule: node_rows.written_row)
    case (kept m)
    then show ?thesis using h at(1) [OF kept(1)] by (auto simp: rows_of_def node_what_def)
  next
    case (new i m)
    then show ?thesis using at(2) [OF new(1)] by (auto simp: node_what_def)
  qed
  have 2: "e_OpenedScanID e \<in> scans_of ?h (e_BuildID e) \<and> set_option (e_ClosedScanID e) \<subseteq> scans_of ?h (e_BuildID e)"
    if "e \<in> set (stored (edges t'))" for e
    using w(2) that
  proof (cases rule: edge_rows.written_row)
    case (kept m)
    then show ?thesis using h at(3) [OF kept(1)] by (auto simp: rows_of_def edge_what_def)
  next
    case (new i m)
    then show ?thesis using at(4) [OF new(1)] by (auto simp: edge_what_def)
  qed
  have 3: "iv_OpenedScanID v \<in> scans_of ?h x \<and> set_option (iv_ClosedScanID v) \<subseteq> scans_of ?h x"
    if v: "v \<in> set (stored (versions t'))" and x: "iv_NodeID v \<in> build_nodes t' x" for v x
    using w(3) v
  proof (cases rule: version_rows.written_row)
    case (kept m)
    have node: "iv_NodeID v = iv_NodeID m" using kept(3) by (simp add: version_what_def)
    then have "iv_NodeID m \<in> build_nodes t x"
      using x call_build_nodes [OF r graph_okD(11) [OF t kept(1)]] by simp
    then have "iv_OpenedScanID m \<in> scans_of h x" "set_option (iv_ClosedScanID m) \<subseteq> scans_of h x"
      using h kept(1) by (auto simp: rows_of_def)
    moreover have "x = b" if "iv_ID m \<in> unsaid_versions b (stated_images g snap (gc_ids c) (gc_nodeids c)) (stored (nodes t')) (versions t)"
      using at(5) [OF kept(1) that] x node build_nodes_apart [OF call_graph_ok [OF r]] by simp
    ultimately show ?thesis using kept(4,5) by auto
  next
    case (new i m)
    have "iv_NodeID v = iv_NodeID m" using new(3) by (simp add: version_what_def)
    then have "x = b" using at(6) [OF new(1)] x build_nodes_apart [OF call_graph_ok [OF r]] by simp
    then show ?thesis using new(4,5) by simp
  qed
  show ?thesis unfolding rows_of_def using 1 2 3 by blast
qed

lemma latest_moment:
  assumes h: "rows_of h t" and s: "s \<noteq> 0" and le: "\<And>s'. s' \<in> scans_of h b \<Longrightarrow> s' \<le> s"
  shows "components_at t b s = components_at t b 0" "dependencies_at t b s = dependencies_at t b 0"
    "images_at t b s = images_at t b 0"
proof -
  have 1: "held_nodes t b s = held_nodes t b 0"
    unfolding held_nodes_def using h le s by (intro node_rows.held_latest) (auto simp: rows_of_def node_what_def)
  have 2: "held_edges t b s = held_edges t b 0"
    unfolding held_edges_def using h le s by (intro edge_rows.held_latest) (auto simp: rows_of_def edge_what_def)
  have 3: "held_images t b s = held_images t b 0"
    unfolding held_images_def using h le s by (intro version_rows.held_latest) (auto simp: rows_of_def version_what_def)
  show "components_at t b s = components_at t b 0" "dependencies_at t b s = dependencies_at t b 0"
    "images_at t b s = images_at t b 0"
    by (simp_all add: components_at_def dependencies_at_def images_at_def 1 2 3)
qed


subsection \<open>Over a history\<close>

definition answers :: "graph_tables \<Rightarrow> graph_entry \<Rightarrow> bool" where
  "answers t e = (case e of (g, b, s, snap) \<Rightarrow> components_at t b (AtScan s) = said_components g snap
     \<and> dependencies_at t b (AtScan s) = said_dependencies g snap \<and> images_at t b (AtScan s) = said_images g snap)"

lemma empty_in_order: "graph_ok empty_graph" "rows_of [] empty_graph" "links_open empty_graph b"
  by (simp_all add: graph_ok_def empty_graph_def catalog_ok_def numbers_def rows_of_def links_open_def)

lemma graphed_invariant:
  "graphed h t \<Longrightarrow> graph_ok t \<and> rows_of h t \<and> (\<forall>b. links_open t b) \<and> (\<forall>e \<in> set h. 0 < fst (snd (snd e)) \<and> answers t e)"
proof (induction rule: graphed.induct)
  case nothing
  then show ?case using empty_in_order by simp
next
  case (another h t g s b snap a t')
  then have t: "graph_ok t" and rows: "rows_of h t" and links: "\<And>x. links_open t x"
    and old: "\<And>e. e \<in> set h \<Longrightarrow> 0 < fst (snd (snd e)) \<and> answers t e" by auto
  obtain c where "applied_by g b s snap t c a t'"
    using ApplyWithin_steps [OF another.hyps(2) t another.hyps(5)] .
  then have r: "good_call g b s snap t c a t'" using another.hyps(2) t by (simp add: good_call_def)
  have rows': "rows_of ((g, b, s, snap) # h) t'" by (rule call_rows [OF r rows])
  have lt: "\<And>s'. s' \<in> scans_of h b \<Longrightarrow> s' < s" by (rule another.hyps(4))
  have le: "\<And>s'. s' \<in> scans_of ((g, b, s, snap) # h) b \<Longrightarrow> s' \<le> s" using lt by (auto intro: less_imp_le)
  have nz: "s \<noteq> 0" using another.hyps(3) by simp
  have now: "components_at t' b s = components_at t' b 0" by (rule latest_moment(1) [OF rows' nz le])
  have now': "dependencies_at t' b s = dependencies_at t' b 0" by (rule latest_moment(2) [OF rows' nz le])
  have now'': "images_at t' b s = images_at t' b 0" by (rule latest_moment(3) [OF rows' nz le])
  have latest: "answers t' (g, b, s, snap)"
    using now now' now'' another.hyps(3) call_components [OF r] call_dependencies [OF r] call_images [OF r]
    by (simp add: answers_def AtScan_def)
  have that: "answers t' e" if e: "e \<in> set h" for e
  proof -
    obtain g0 b0 s0 snap0 where e0: "e = (g0, b0, s0, snap0)" by (cases e)
    have "b0 = b \<Longrightarrow> s0 \<in> scans_of h b" using e e0 by (auto simp: scans_of_def)
    then have "b0 = b \<Longrightarrow> s0 \<noteq> 0 \<and> s0 < s" using lt old [OF e] e0 by auto
    then have m: "b0 = b \<Longrightarrow> s0 \<noteq> 0 \<and> s0 < s" .
    have "components_at t' b0 s0 = components_at t b0 s0" by (rule call_reads(1) [OF r m])
    moreover have "dependencies_at t' b0 s0 = dependencies_at t b0 s0" by (rule call_reads(2) [OF r m])
    moreover have "images_at t' b0 s0 = images_at t b0 s0" by (rule call_reads(3) [OF r m])
    ultimately show ?thesis using old [OF e] e0 by (simp add: answers_def AtScan_def)
  qed
  have "links_open t' x" for x using call_links [OF r] links by (cases "x = b") auto
  then show ?case using call_graph_ok [OF r] rows' latest that old another.hyps(3) by auto
qed

end
