(* ===== verification/Graph_Again.thy ===== *)
theory Graph_Again
  imports Graph_History
begin

section \<open>A snapshot refused, and a snapshot applied again\<close>

subsection \<open>When a snapshot is refused\<close>

lemma listed_nodes:
  assumes nr: "nodes_reconciled g b s (wanted_nodes g ids snap) t nodeids o' c' t'"
  shows "map_of nodeids x \<noteq> None \<longleftrightarrow> x \<in> insert (id_in g ids (AsRoot (Root snap)))
      ((\<lambda>d. id_in g ids (asStored g snap d)) ` set (Components snap))"
proof -
  have "map_of nodeids x \<noteq> None \<longleftrightarrow> x \<in> n_ComponentID ` set (filter (node_open b) (stored t'))"
    using nodes_found [OF nr, of x] by auto
  then show ?thesis unfolding nodes_are_wanted [OF nr] wanted_nodes_keys .
qed

text \<open>A description is listed where its stored form is one of those the snapshot names.\<close>

definition listed :: "graphing \<Rightarrow> Snapshot \<Rightarrow> Described \<Rightarrow> bool" where
  "listed g snap d \<longleftrightarrow> identity_of g (asStored g snap d) \<in> said_components g snap"

lemma ApplyWithin_refuses:
  assumes g: "graphing_ok g" and t: "graph_ok t"
  shows "(\<exists>e. ApplyWithin g b s snap t = Inl e) \<longleftrightarrow> (\<exists>d \<in> set (all_described g snap). \<not> Valid d)
      \<or> (\<exists>dep \<in> set (Dependencies snap). \<not> listed g snap (Parent dep) \<or> \<not> listed g snap (Child dep))"
    and "ApplyWithin g b s snap t = Inl (CameBack m n) \<Longrightarrow> False"
proof -
  note refuses = Intern_refuses [OF g graph_okD(1) [OF t], of "all_described g snap"]
  have both: "((\<exists>e. ApplyWithin g b s snap t = Inl e) \<longleftrightarrow> (\<exists>d \<in> set (all_described g snap). \<not> Valid d)
      \<or> (\<exists>dep \<in> set (Dependencies snap). \<not> listed g snap (Parent dep) \<or> \<not> listed g snap (Child dep)))
    \<and> ApplyWithin g b s snap t \<noteq> Inl (CameBack m n)" for m n
  proof (cases "Intern g (all_described g snap) (interned t)")
    case (Inl e)
    then have "ApplyWithin g b s snap t = Inl e" by (simp add: ApplyWithin_def)
    then show ?thesis using refuses Inl by auto
  next
    case (Inr p)
    obtain ids cat where p: "p = (ids, cat)" by fastforce
    then have int: "Intern g (all_described g snap) (interned t) = Inr (ids, cat)" using Inr by simp
    then have valid: "\<forall>d \<in> set (all_described g snap). Valid d" using refuses(1) by auto
    obtain nodeids no nc ns where rn: "reconcileNodes g b s (wanted_nodes g ids snap) (nodes t) = (nodeids, no, nc, ns)"
      by (metis prod_cases4)
    have nr: "nodes_reconciled g b s (wanted_nodes g ids snap) (nodes t) nodeids no nc ns"
      using g rn graph_okD(2,5) [OF t] wanted_nodes_distinct by (simp add: nodes_reconciled_def)
    note cat = Intern_catalog(1) [OF g graph_okD(1) [OF t] int]
    note named = id_in_named [OF g graph_okD(1) [OF t] int]
    have id: "id_in g ids d = id_in g ids d' \<longleftrightarrow> identity_of g d = identity_of g d'"
      if "d \<in> set (all_described g snap)" "d' \<in> set (all_described g snap)" for d d'
      using named_injective [OF cat named(1) [OF that(1)] named(1) [OF that(2)]] named(2) that by metis
    have found: "map_of nodeids (id_in g ids (asStored g snap d)) \<noteq> None \<longleftrightarrow> listed g snap d"
      if d: "asStored g snap d \<in> set (all_described g snap)" for d
    proof -
      have "map_of nodeids (id_in g ids (asStored g snap d)) \<noteq> None \<longleftrightarrow>
          id_in g ids (asStored g snap d) = id_in g ids (AsRoot (Root snap))
          \<or> (\<exists>d' \<in> set (Components snap). id_in g ids (asStored g snap d) = id_in g ids (asStored g snap d'))"
        unfolding listed_nodes [OF nr] by auto
      also have "\<dots> \<longleftrightarrow> listed g snap d"
        using id [OF d described_in(1)] id [OF d described_in(2)] by (auto simp: listed_def said_components_def)
      finally show ?thesis .
    qed
    obtain vo vc vs where rv: "reconcileImageVersions g b s (stated_images g snap ids nodeids) (stored ns) (versions t) = (vo, vc, vs)"
      by (metis prod_cases3)
    have ap: "(\<exists>e. ApplyWithin g b s snap t = Inl e) \<longleftrightarrow> (\<exists>e. wanted_edges g snap ids nodeids (Dependencies snap) [] = Inl e)"
      using int rn rv by (cases "wanted_edges g snap ids nodeids (Dependencies snap) []") (auto simp: ApplyWithin_def split: prod.splits)
    have err: "ApplyWithin g b s snap t = Inl e \<Longrightarrow> wanted_edges g snap ids nodeids (Dependencies snap) [] = Inl e" for e
      using int rn rv by (cases "wanted_edges g snap ids nodeids (Dependencies snap) []") (auto simp: ApplyWithin_def split: prod.splits)
    have "wanted_edges g snap ids nodeids deps acc \<noteq> Inl (CameBack m n)" for deps acc
      by (induction deps arbitrary: acc) (auto split: option.splits)
    then have "ApplyWithin g b s snap t \<noteq> Inl (CameBack m n)" using err by blast
    moreover have "(\<exists>e. wanted_edges g snap ids nodeids (Dependencies snap) [] = Inl e) \<longleftrightarrow>
        (\<exists>dep \<in> set (Dependencies snap). \<not> listed g snap (Parent dep) \<or> \<not> listed g snap (Child dep))"
      unfolding wanted_edges_refuses using found described_in(3,4) by (metis not_None_eq)
    ultimately show ?thesis using ap valid by blast
  qed
  from both show "(\<exists>e. ApplyWithin g b s snap t = Inl e) \<longleftrightarrow> (\<exists>d \<in> set (all_described g snap). \<not> Valid d)
      \<or> (\<exists>dep \<in> set (Dependencies snap). \<not> listed g snap (Parent dep) \<or> \<not> listed g snap (Child dep))" by blast
  show "ApplyWithin g b s snap t = Inl (CameBack m n) \<Longrightarrow> False" using both by blast
qed


subsection \<open>Columns that are filled in stay filled in\<close>

definition blank_pairs :: "(Described \<Rightarrow> string) \<Rightarrow> (string \<times> int) list \<Rightarrow> (string \<times> Described) list \<Rightarrow> (string \<times> int) list" where
  "blank_pairs said known described = concat (map (\<lambda>(identity, d).
     if trim_space (said d) = [] then [] else case map_of known identity of None \<Rightarrow> [] | Some i \<Rightarrow> [(trim_space (said d), i)]) described)"

lemma blank_values_grouping: "blank_values said known described = grouping (blank_pairs said known described) []"
proof -
  have "fold (\<lambda>(identity, d) m. let v = trim_space (said d) in
         if v = [] then m else case map_of known identity of None \<Rightarrow> m | Some i \<Rightarrow> append_at v i m) described m
      = grouping (blank_pairs said known described) m" for m
    by (induction described arbitrary: m) (auto simp: blank_pairs_def grouping_def Let_def split: option.split)
  then show ?thesis by (simp add: blank_values_def)
qed

lemma blank_pairs_mem: "(v, i) \<in> set (blank_pairs said known described) \<longleftrightarrow>
    (\<exists>identity d. (identity, d) \<in> set described \<and> v = trim_space (said d) \<and> v \<noteq> [] \<and> map_of known identity = Some i)"
  by (auto simp: blank_pairs_def split: option.splits if_splits) (force split: option.splits)+

definition fill_row :: "(Interned \<Rightarrow> string) \<Rightarrow> (string \<Rightarrow> Interned \<Rightarrow> Interned) \<Rightarrow> string \<times> int list \<Rightarrow> Interned \<Rightarrow> Interned" where
  "fill_row get put e r = (if c_ID r \<in> set (snd e) \<and> get r = [] then put (fst e) r else r)"

lemma fill_fold:
  assumes "column get put"
  shows "fillBlank get put said known described t
    = t\<lparr>stored := map (\<lambda>r. fold (fill_row get put) (blank_values said known described) r) (stored t)\<rparr>"
proof -
  have "fold (\<lambda>(v, ids). update_rows c_ID (\<lambda>r. if get r = [] then put v r else r) ids) bs t
      = t\<lparr>stored := map (\<lambda>r. fold (fill_row get put) bs r) (stored t)\<rparr>" for bs
    by (induction bs arbitrary: t) (auto simp: fill_one [OF assms] fill_row_def comp_def)
  then show ?thesis by (simp add: fillBlank_def)
qed

lemma fill_row_frame:
  assumes "column get put"
  shows "c_ID (fold (fill_row get put) bs r) = c_ID r" and "Identity (fold (fill_row get put) bs r) = Identity r"
  using assms by (induction bs arbitrary: r) (auto simp: fill_row_def column_def)

lemma fill_row_stays:
  assumes "column get put"
  shows "get r \<noteq> [] \<Longrightarrow> fold (fill_row get put) bs r = r"
  by (induction bs) (auto simp: fill_row_def)

lemma fill_row_fills:
  assumes c: "column get put"
  shows "(v, ids) \<in> set bs \<Longrightarrow> v \<noteq> [] \<Longrightarrow> c_ID r \<in> set ids \<Longrightarrow> get (fold (fill_row get put) bs r) \<noteq> []"
proof (induction bs arbitrary: r)
  case (Cons e bs)
  show ?case
  proof (cases "get (fill_row get put e r) = []")
    case True
    then have "e \<noteq> (v, ids)" using Cons.prems(2,3) c by (auto simp: fill_row_def column_def split: if_splits)
    moreover have "c_ID (fill_row get put e r) = c_ID r" using c by (simp add: fill_row_def column_def)
    ultimately show ?thesis using Cons by simp
  next
    case False
    then show ?thesis using fill_row_stays [OF c False, of bs] by simp
  qed
qed simp

lemma fill_ok:
  assumes c: "column get put" and t: "catalog_ok t"
  shows "catalog_ok (fillBlank get put said known vis t)"
proof -
  have "numbers c_ID (fillBlank get put said known vis t)"
    unfolding fill_fold [OF c] using t by (intro numbers_rows) (simp_all add: catalog_ok_def fill_row_frame [OF c])
  moreover have "distinct (map Identity (stored (fillBlank get put said known vis t)))"
    using t by (simp add: catalog_ok_def fill_frame(4) [OF c])
  ultimately show ?thesis by (simp add: catalog_ok_def)
qed

text \<open>Every description that states the column finds it stated.\<close>

definition stated_in :: "(Interned \<Rightarrow> string) \<Rightarrow> (Described \<Rightarrow> string) \<Rightarrow> (string \<times> Described) list \<Rightarrow> Interned table \<Rightarrow> bool" where
  "stated_in get said m t \<longleftrightarrow> (\<forall>(identity, d) \<in> set m. trim_space (said d) \<noteq> []
     \<longrightarrow> (\<forall>r \<in> set (stored t). Identity r = identity \<longrightarrow> get r \<noteq> []))"

lemma fill_nothing:
  assumes c: "column get put" and m: "stated_in get said m t" "set vis = set m"
    and known: "\<And>identity i. map_of known identity = Some i \<Longrightarrow> map_of (catalog_of t) identity = Some i"
    and t: "catalog_ok t"
  shows "fillBlank get put said known vis t = t"
proof -
  have "fold (fill_row get put) (blank_values said known vis) r = r" if r: "r \<in> set (stored t)" for r
  proof (cases "\<exists>e \<in> set (blank_values said known vis). c_ID r \<in> set (snd e)")
    case True
    then obtain v ids where "(v, ids) \<in> set (grouping (blank_pairs said known vis) [])" "c_ID r \<in> set ids"
      by (auto simp: blank_values_grouping)
    then have "(v, c_ID r) \<in> set (blank_pairs said known vis)" by (simp add: grouping_pairs)
    then obtain identity d where d: "(identity, d) \<in> set m" "trim_space (said d) \<noteq> []" "map_of known identity = Some (c_ID r)"
      using m(2) by (auto simp: blank_pairs_mem)
    from catalog_row [OF known [OF d(3)]] obtain r' where "r' \<in> set (stored t)" "c_ID r' = c_ID r" "Identity r' = identity" by blast
    then have "Identity r = identity" using unique_row [of c_ID "stored t" r' r] r t by (auto simp: catalog_ok_def numbers_def)
    then have "get r \<noteq> []" using m(1) d r by (auto simp: stated_in_def)
    then show ?thesis by (rule fill_row_stays [OF c])
  next
    case False
    then have "fold (fill_row get put) bs r = r" if "set bs \<subseteq> set (blank_values said known vis)" for bs
      using that by (induction bs) (auto simp: fill_row_def)
    then show ?thesis by blast
  qed
  then have "map (\<lambda>r. fold (fill_row get put) (blank_values said known vis) r) (stored t) = stored t" by (rule map_idI)
  then show ?thesis unfolding fill_fold [OF c] by simp
qed

lemma fill_states:
  assumes c: "column get put" and m: "set vis = set m"
    and known: "\<And>identity i. identity \<in> fst ` set m \<Longrightarrow> map_of (catalog_of t) identity = Some i \<Longrightarrow> map_of known identity = Some i"
    and t: "catalog_ok t"
  shows "stated_in get said m (fillBlank get put said known vis t)"
proof -
  have "get r' \<noteq> []" if d: "(identity, d) \<in> set m" and v: "trim_space (said d) \<noteq> []"
    and r': "r' \<in> set (stored (fillBlank get put said known vis t))" and i: "Identity r' = identity" for identity d r'
  proof -
  from r' obtain r where r: "r \<in> set (stored t)" "r' = fold (fill_row get put) (blank_values said known vis) r"
    by (auto simp: fill_fold [OF c])
  then have "Identity r = identity" using i fill_row_frame(2) [OF c] by simp
  then have "(identity, c_ID r) \<in> set (catalog_of t)" using r(1) by (auto simp: catalog_of_def)
  moreover have "distinct (map fst (catalog_of t))" using t catalog_of_keys by (simp add: catalog_ok_def)
  ultimately have "map_of (catalog_of t) identity = Some (c_ID r)" by simp
  moreover have "identity \<in> fst ` set m" using d by force
  ultimately have "map_of known identity = Some (c_ID r)" by (rule known [rotated])
  then have "(trim_space (said d), c_ID r) \<in> set (blank_pairs said known vis)" using d m v by (auto simp: blank_pairs_mem)
  from grouping_mem [OF this] obtain ids where "(trim_space (said d), ids) \<in> set (blank_values said known vis)" "c_ID r \<in> set ids"
    by (auto simp: blank_values_grouping)
  then show ?thesis unfolding r(2) using v by (intro fill_row_fills [OF c])
  qed
  then show ?thesis unfolding stated_in_def by blast
qed



subsection \<open>Interning again\<close>

text \<open>
  Two runs of the process read alike: the same case tables, the same hash, the same rewriting of an
  address, and the images visited in the same order. The clock and the order of every other range
  may differ.
\<close>

definition same_reading :: "graphing \<Rightarrow> graphing \<Rightarrow> bool" where
  "same_reading g g' \<longleftrightarrow> tables_of_case g' = tables_of_case g \<and> hash g' = hash g \<and> rewritten g' = rewritten g
     \<and> visit_images g' = visit_images g"

lemma same_readingD:
  assumes s: "same_reading g g'"
  shows "identity_of g' = identity_of g" "asStored g' = asStored g" "stated_of g' = stated_of g" "by_name g' = by_name g"
    "read_described g' ds m = read_described g ds m" "all_described g' = all_described g"
    "said_components g' = said_components g" "said_dependencies g' = said_dependencies g" "said_of g' = said_of g"
proof -
  show id: "identity_of g' = identity_of g" using s by (simp add: same_reading_def identity_of_def [abs_def])
  have eq: "tables_of_case g' = tables_of_case g" "rewritten g' = rewritten g" "visit_images g' = visit_images g"
    using s by (simp_all add: same_reading_def)
  have im: "imagesByName g' = imagesByName g" by (rule ext) (unfold imagesByName_def IsImage_def id eq, rule refl)
  show st: "asStored g' = asStored g" by (intro ext) (unfold asStored_def id im, rule refl)
  show so: "stated_of g' = stated_of g"
    by (rule ext) (unfold stated_of_def statedRepository_def WithoutCredential_def eq, rule refl)
  show "by_name g' = by_name g" by (intro ext) (unfold by_name_def id im, rule refl)
  show "read_described g' ds m = read_described g ds m" by (induction ds arbitrary: m) (simp_all add: id Let_def)
  show "all_described g' = all_described g" by (intro ext) (unfold all_described_def st, rule refl)
  show "said_components g' = said_components g" by (intro ext) (unfold said_components_def id st, rule refl)
  show "said_dependencies g' = said_dependencies g" by (intro ext) (unfold said_dependencies_def id st, rule refl)
  show "said_of g' = said_of g" by (intro ext) (unfold said_of_def id st so, rule refl)
qed

lemma filled_states:
  assumes g: "graphing_ok g" and m: "distinct (map fst m)" and t: "catalog_ok t"
  shows "stated_in c_Supplier d_Supplier m (filled_in g m t)" "stated_in c_License d_License m (filled_in g m t)"
proof -
  let ?known = "byIdentities t (map fst (visit_described g 0 m))"
  let ?s = "fillBlank c_Supplier (\<lambda>v r. r\<lparr>c_Supplier := v\<rparr>) d_Supplier ?known (visit_described g 2 m) t"
  note v = visits_described [OF g m]
  have known: "map_of ?known i = (if i \<in> fst ` set m then map_of (catalog_of t) i else None)" for i
  proof -
    have "set (map fst (visit_described g 0 m)) = fst ` set m" by (simp add: v(3))
    then show ?thesis using t by (simp only: byIdentities_map catalog_ok_def)
  qed
  have s: "catalog_ok ?s"
    using t by (rule fill_ok [OF supplier_column])
  have f: "filled_in g m t = fillBlank c_License (\<lambda>v r. r\<lparr>c_License := v\<rparr>) d_License ?known (visit_described g 3 m) ?s"
    by (simp add: filled_in_def Let_def)
  show "stated_in c_License d_License m (filled_in g m t)"
    unfolding f using s v(3) by (intro fill_states [OF license_column]) (simp_all add: known fill_frame [OF supplier_column])
  have sup: "stated_in c_Supplier d_Supplier m ?s"
    using t v(3) by (intro fill_states [OF supplier_column]) (simp_all add: known)
  have keep: "c_Supplier (fold (fill_row c_License (\<lambda>v r. r\<lparr>c_License := v\<rparr>)) bs r) = c_Supplier r" for bs r
    by (induction bs arbitrary: r) (auto simp: fill_row_def)
  show "stated_in c_Supplier d_Supplier m (filled_in g m t)"
    using sup unfolding f fill_fold [OF license_column] stated_in_def
    by (fastforce simp: keep fill_row_frame [OF license_column])
qed

lemma Intern_again:
  assumes g: "graphing_ok g" and g': "graphing_ok g'" and s: "same_reading g g'" and t: "catalog_ok t"
    and int: "Intern g ds t = Inr (ids, t')"
  obtains ids' where "Intern g' ds t' = Inr (ids', t')"
proof -
  let ?put = "\<lambda>i (r :: Interned). r\<lparr>c_ID := i\<rparr>"
  obtain m where read: "read_described g ds [] = Inr m"
    using int by (cases "read_described g ds []") (auto simp: Intern_def)
  then have read': "read_described g' ds [] = Inr m" using same_readingD(5) [OF s] by simp
  from read_described_keys [OF read] have m: "distinct (map fst m)" by simp
  have t': "t' = insert_rows ?put (missing_of g m t) (filled_in g m t)"
    using Intern_answers [OF g t read] int by auto
  have ok': "catalog_ok t'" by (rule Intern_catalog(1) [OF g t int])
  have numbered: "Identity ` set (numbering ?put n rs) = Identity ` set rs" for n and rs :: "Interned list"
  proof -
    have "map Identity (numbering ?put n rs) = map Identity rs" by (rule numbering_map) simp
    from arg_cong [OF this, of set] show ?thesis by simp
  qed
  have "Identity ` set (stored t') = Identity ` set (stored t) \<union> set (map Identity (missing_of g m t))"
    using image_of_map [OF filled_frame(4), of g m t] by (simp add: t' insert_rows_def numbered image_Un)
  then have "fst ` set m \<subseteq> Identity ` set (stored t')" unfolding missing_identities(2) [OF g m t] by blast
  then have none: "missing_of g' m t' = []"
    using missing_identities(2) [OF g' m ok'] by (metis Diff_eq_empty_iff map_is_Nil_conv set_empty)
  have new: "get r \<noteq> []" if "r \<in> set (numbering ?put n (missing_of g m t))" "(Identity r, d) \<in> set m" "trim_space (said d) \<noteq> []"
    and get: "\<And>e i. get (?put i (new_component g e)) = said (snd e)" for get said r d n
  proof -
    from numbering_from [OF that(1)] obtain i e where e: "r = ?put i (new_component g e)" "e \<in> set m"
      using visits_described(3) [OF g m] by (auto simp: missing_of_def)
    then have "(fst e, d) \<in> set m" using that(2) by simp
    then have "snd e = d" using e(2) m by (metis eq_key_imp_eq_value prod.collapse)
    then have "get r = said d" using get e(1) by simp
    then show ?thesis using that(3) by auto
  qed
  have sup: "stated_in c_Supplier d_Supplier m t'"
    using filled_states(1) [OF g m t] new [where get = c_Supplier and said = d_Supplier]
    unfolding stated_in_def t' insert_rows_def by (fastforce simp: new_component_def component_row_def split: prod.splits)
  have lic: "stated_in c_License d_License m t'"
    using filled_states(2) [OF g m t] new [where get = c_License and said = d_License]
    unfolding stated_in_def t' insert_rows_def by (fastforce simp: new_component_def component_row_def split: prod.splits)
  let ?known = "byIdentities t' (map fst (visit_described g' 0 m))"
  have known: "map_of ?known identity = Some i \<Longrightarrow> map_of (catalog_of t') identity = Some i" for identity i
    using ok' by (simp add: byIdentities_map catalog_ok_def split: if_splits)
  have "filled_in g' m t' = t'"
    using fill_nothing [OF supplier_column sup visits_described(3) [OF g' m] known ok']
      fill_nothing [OF license_column lic visits_described(3) [OF g' m] known ok']
    by (simp add: filled_in_def Let_def)
  then have "insert_rows ?put (missing_of g' m t') (filled_in g' m t') = t'" by (simp add: none insert_rows_def)
  then show ?thesis using Intern_answers [OF g' ok' read'] that by metis
qed


subsection \<open>The same snapshot again\<close>

lemma wanted_named:
  assumes r: "good_call g b s snap t c a t'" and x: "x \<in> component_ids (interned t')"
  shows "map_of (wanted_nodes g (gc_ids c) snap) x = said_of g snap (component_named (interned t') x)"
proof -
  have rt: "x = id_in g (gc_ids c) (AsRoot (Root snap)) \<longleftrightarrow> component_named (interned t') x = identity_of g (AsRoot (Root snap))"
    using id_in_iff [OF r described_in(1) x] by auto
  have fd: "find (\<lambda>d. id_in g (gc_ids c) (asStored g snap d) = x) (Components snap)
      = find (\<lambda>d. identity_of g (asStored g snap d) = component_named (interned t') x) (Components snap)"
    by (rule find_cong_set) (rule id_in_iff [OF r described_in(2) x])
  show ?thesis unfolding wanted_nodes_map said_of_def rt fd ..
qed

lemma node_saying_same: "node_saying (says_of n) n = n"
  by (cases n) (simp add: node_saying_def restate_def says_of_def)

definition nothing_changed :: Applied_graph where
  "nothing_changed = \<lparr>NodesOpened = 0, NodesClosed = 0, EdgesOpened = 0, EdgesClosed = 0, VersionsOpened = 0, VersionsClosed = 0\<rparr>"

lemma map_id_when: "(\<And>x. x \<in> set xs \<Longrightarrow> f x = x) \<Longrightarrow> map f xs = xs"
  by (rule map_idI)

lemma same_table: "stored t' = stored t \<Longrightarrow> next_id t' = next_id t \<Longrightarrow> (t' :: 'r table) = t"
  by (cases t; cases t') simp


lemma ApplyWithin_again:
  assumes r: "good_call g b s snap t c a t'" and ap: "ApplyWithin g b s snap t = Inr (a, t')"
    and g': "graphing_ok g'" and sr: "same_reading g g'"
  shows "ApplyWithin g' b s' snap t' = Inr (nothing_changed, t'\<lparr>last_scan_id := (last_scan_id t')(b := Some s')\<rparr>)"
proof -
  note ok = call_graph_ok [OF r] and same = same_readingD [OF sr]
  have "listed g' = listed g" by (intro ext) (unfold listed_def same, rule refl)
  then have "\<not> (\<exists>e. ApplyWithin g' b s' snap t' = Inl e)"
    using ApplyWithin_refuses(1) [OF good_callD(1,2) [OF r], of b s snap] ap
    unfolding ApplyWithin_refuses(1) [OF g' ok] same by simp
  then obtain a2 t2 where ap2: "ApplyWithin g' b s' snap t' = Inr (a2, t2)"
    by (cases "ApplyWithin g' b s' snap t'") auto
  obtain c2 where "applied_by g' b s' snap t' c2 a2 t2" using ApplyWithin_steps [OF g' ok ap2] .
  then have r2: "good_call g' b s' snap t' c2 a2 t2" using g' ok by (simp add: good_call_def)
  obtain ids' where "Intern g' (all_described g' snap) (interned t') = Inr (ids', interned t')"
    using Intern_again [OF good_callD(1) [OF r] g' sr graph_okD(1) [OF good_callD(2) [OF r]] good_callD(3) [OF r]]
    unfolding same .
  then have cat: "interned t2 = interned t'" using good_callD(3) [OF r2] by simp
  let ?w = "wanted_nodes g' (gc_ids c2) snap"
  have id: "id_in g' (gc_ids c2) d = id_in g (gc_ids c) d" if d: "d \<in> set (all_described g snap)" for d
  proof (rule named_injective [OF call_catalog(1) [OF r]])
    have d': "d \<in> set (all_described g' snap)" using d unfolding same .
    show "id_in g' (gc_ids c2) d \<in> component_ids (interned t')" using call_catalog(4) [OF r2 d'] by (simp add: cat)
    show "id_in g (gc_ids c) d \<in> component_ids (interned t')" by (rule call_catalog(4) [OF r d])
    show "component_named (interned t') (id_in g' (gc_ids c2) d) = component_named (interned t') (id_in g (gc_ids c) d)"
      using call_catalog(5) [OF r2 d'] call_catalog(5) [OF r d] by (simp add: cat same)
  qed

  text \<open>Nodes.\<close>
  have says: "map_of ?w (n_ComponentID n) = Some (says_of n)" if n: "n \<in> set (stored (nodes t'))" "node_open b n" for n
    using wanted_named [OF r2, of "n_ComponentID n"] graph_okD(8) [OF ok n(1)] call_says [OF r n] by (simp add: cat same)
  have after: "node_after b s' ?w n = n" if "n \<in> set (stored (nodes t'))" for n
    using says [OF that] by (cases "node_open b n") (simp_all add: node_after_def node_saying_same)
  have keys: "fst ` set ?w = fst ` set (wanted_nodes g (gc_ids c) snap)"
    unfolding wanted_nodes_keys same using id described_in(1,2) by (intro arg_cong2 [where f = insert] image_cong) auto
  have kept: "filter (kept_node ?w) (filter (node_open b) (stored (nodes t'))) = filter (node_open b) (stored (nodes t'))"
    using says by (intro filter_True) (auto simp: kept_node_def)
  have "set (map n_ComponentID (missing_nodes g' b s' ?w (nodes t'))) = {}"
    unfolding missing_components(1) [OF good_callD(4) [OF r2]] kept keys nodes_are_wanted [OF good_callD(4) [OF r]] by simp
  then have none: "missing_nodes g' b s' ?w (nodes t') = []" by (metis map_is_Nil_conv set_empty)
  note table = reconcileNodes_table [OF graph_okD(2) [OF ok] nodes_reconciledD(5) [OF good_callD(4) [OF r2]]]
  have nodes: "nodes t2 = nodes t'"
    using table(1,2) by (intro same_table) (simp_all add: none map_idI after)
  have "gone_nodes (planned b ?w (nodes t')) = []"
    using says by (auto simp: planned_def plan_fields empty_node_plan_def filter_empty_conv kept_node_def)
  then have counts: "NodesOpened a2 = 0" "NodesClosed a2 = 0" using table(3,4) none by simp_all

  text \<open>Versions.\<close>
  have nodeids: "map_of (gc_nodeids c2) = map_of (gc_nodeids c)"
  proof
    fix x
    have "\<And>i. map_of (gc_nodeids c2) x = Some i \<longleftrightarrow> map_of (gc_nodeids c) x = Some i"
      unfolding call_node [OF r] call_node [OF r2] nodes ..
    then show "map_of (gc_nodeids c2) x = map_of (gc_nodeids c) x" by (metis not_None_eq)
  qed
  have at: "image_node g' snap (gc_ids c2) (gc_nodeids c2) d = image_node g snap (gc_ids c) (gc_nodeids c) d"
    if "d \<in> set (Components snap)" for d
    unfolding image_node_def same nodeids id [OF described_in(2) [OF that]] ..
  have images: "stated_images g' snap (gc_ids c2) (gc_nodeids c2) = stated_images g snap (gc_ids c) (gc_nodeids c)"
    unfolding stated_images_fold
    by (rule fold_cong [OF refl refl]) (simp only: same at)
  let ?said = "stated_images g snap (gc_ids c) (gc_nodeids c)"
  note vr2 = call_versions [OF r2, unfolded images nodes]
  have still: "still_states ?said v" if "v \<in> set (stored (versions t'))" "version_open b (stored (nodes t')) v" for v
    using versions_left(1) [OF call_versions [OF r]] that still_states_what [OF stated_images_distinct] by auto
  have kept: "filter (still_states ?said) (filter (version_open b (stored (nodes t'))) (stored (versions t')))
      = filter (version_open b (stored (nodes t'))) (stored (versions t'))"
    using still by (intro filter_True) auto
  have "fst e \<in> iv_NodeID ` set (filter (version_open b (stored (nodes t'))) (stored (versions t')))" if "e \<in> set ?said" for e
  proof -
    from that obtain v where "v \<in> set (filter (version_open b (stored (nodes t'))) (stored (versions t')))" "e = version_what v"
      unfolding versions_left(1) [OF call_versions [OF r], symmetric] by blast
    then show ?thesis by (auto simp: version_what_def)
  qed
  moreover have "mset (visit_versions g' ?said) = mset ?said" using g' by (simp add: graphing_ok_def)
  ultimately have none_v: "missing_versions g' b s' ?said (stored (nodes t')) (versions t') = []"
    unfolding missing_versions_def kept by (auto simp: filter_empty_conv dest: mset_eq_setD)
  have after_v: "version_after b s' ?said (stored (nodes t')) v = v" if "v \<in> set (stored (versions t'))" for v
    using still [OF that] by (auto simp: version_after_def)
  note table_v = reconcileVersions_table [OF vr2]
  have versions: "versions t2 = versions t'"
    using table_v(1,2) by (intro same_table) (simp_all add: none_v map_idI after_v)
  have "filter (\<lambda>v. \<not> still_states ?said v) (filter (version_open b (stored (nodes t'))) (stored (versions t'))) = []"
    using still by (auto simp: filter_empty_conv)
  then have counts_v: "VersionsOpened a2 = 0" "VersionsClosed a2 = 0" using table_v(3,4) none_v by simp_all

  text \<open>Edges.\<close>
  have ids: "id_in g' (gc_ids c2) (asStored g' snap (Parent dep)) = id_in g (gc_ids c) (asStored g snap (Parent dep))"
    "id_in g' (gc_ids c2) (asStored g' snap (Child dep)) = id_in g (gc_ids c) (asStored g snap (Child dep))"
    if "dep \<in> set (Dependencies snap)" for dep
    using id described_in(3,4) [OF that] by (simp_all add: same)
  have "wanted_edges g' snap (gc_ids c2) (gc_nodeids c2) deps acc = wanted_edges g snap (gc_ids c) (gc_nodeids c) deps acc"
    if "set deps \<subseteq> set (Dependencies snap)" for deps acc
    using that by (induction deps arbitrary: acc) (auto simp: ids nodeids split: option.split)
  then have edges_eq: "gc_edges c2 = gc_edges c" using good_callD(6) [OF r] good_callD(6) [OF r2] by simp
  note er2 = good_callD(7) [OF r2, unfolded edges_eq]
  have key: "edge_key e \<in> set (gc_edges c)" if "e \<in> set (stored (edges t'))" "edge_open b e" for e
    using edges_left(1) [OF good_callD(7) [OF r]] that by auto
  have kept_e: "filter (\<lambda>e. edge_key e \<in> set (gc_edges c)) (filter (edge_open b) (stored (edges t'))) = filter (edge_open b) (stored (edges t'))"
    using key by (intro filter_True) auto
  have "mset (visit_edges g' (gc_edges c)) = mset (gc_edges c)" using g' by (simp add: graphing_ok_def)
  then have "set (visit_edges g' (gc_edges c)) = set (gc_edges c)" by (rule mset_eq_setD)
  then have none_e: "missing_edges g' b s' (gc_edges c) (edges t') = []"
    unfolding missing_edges_def kept_e edges_left(1) [OF good_callD(7) [OF r]] by (simp add: filter_empty_conv)
  have after_e: "edge_after b s' (gc_edges c) e = e" if "e \<in> set (stored (edges t'))" for e
    using key [OF that] by (auto simp: edge_after_def)
  note table_e = reconcileEdges_table [OF er2]
  have edges: "edges t2 = edges t'"
    using table_e(1,2) by (intro same_table) (simp_all add: none_e map_idI after_e)
  have "filter (\<lambda>e. edge_key e \<notin> set (gc_edges c)) (filter (edge_open b) (stored (edges t'))) = []"
    using key by (auto simp: filter_empty_conv)
  then have counts_e: "EdgesOpened a2 = 0" "EdgesClosed a2 = 0" using table_e(3,4) none_e by simp_all

  have "a2 = nothing_changed" using counts counts_v counts_e by (cases a2) (simp add: nothing_changed_def)
  moreover have "t2 = t'\<lparr>last_scan_id := (last_scan_id t')(b := Some s')\<rparr>"
    using nodes edges versions cat ApplyWithin_takes [OF ap2] by (cases t2; cases t') simp
  ultimately show ?thesis using ap2 by simp
qed

end
