(* ===== verification/Graph_Snapshot_Props.thy ===== *)
theory Graph_Snapshot_Props
  imports Graph_Again
begin

section \<open>What holds of the stored graph\<close>

subsection \<open>Two small builds\<close>

text \<open>
  A process that reads ASCII, ranges over its maps in the order they are held in, and stands the
  text to be hashed for its hash: what the witnesses compute with. A product holds a library and an
  image, then another library and the image rebuilt at another version.
\<close>

definition small_graphing :: graphing where
  "small_graphing = \<lparr>tables_of_case = ascii, hash = (\<lambda>s. s), rewritten = Some, seen_now = 7,
     visit_described = (\<lambda>n m. m), visit_images = (\<lambda>m. m), visit_nodes = (\<lambda>m. m), visit_versions = (\<lambda>m. m),
     visit_edges = (\<lambda>m. m)\<rparr>"

lemma small_graphing_ok: "graphing_ok small_graphing"
  by (simp add: graphing_ok_def small_graphing_def)

definition product_root :: Described where "product_root = nothing_described\<lparr>d_Name := ''p'', d_Version := ''1''\<rparr>"
definition lib_a :: Described where "lib_a = nothing_described\<lparr>d_Name := ''a'', d_Version := ''1''\<rparr>"
definition lib_b :: Described where "lib_b = nothing_described\<lparr>d_Name := ''b'', d_Version := ''2'', d_CPE := ''c''\<rparr>"
definition image_1 :: Described where "image_1 = nothing_described\<lparr>d_Name := ''i'', d_Version := ''n1'', d_Container := True\<rparr>"
definition image_2 :: Described where "image_2 = nothing_described\<lparr>d_Name := ''i'', d_Version := ''n2'', d_Container := True\<rparr>"

definition first_snapshot :: Snapshot where
  "first_snapshot = \<lparr>Components = [product_root, lib_a, image_1], Root = product_root,
     Dependencies = [\<lparr>Parent = product_root, Child = image_1, dp_Kind = []\<rparr>, \<lparr>Parent = image_1, Child = lib_a, dp_Kind = ''run''\<rparr>]\<rparr>"

definition second_snapshot :: Snapshot where
  "second_snapshot = \<lparr>Components = [product_root\<lparr>d_Version := ''2''\<rparr>, lib_b, image_2], Root = product_root\<lparr>d_Version := ''2''\<rparr>,
     Dependencies = [\<lparr>Parent = product_root\<lparr>d_Version := ''2''\<rparr>, Child = image_2, dp_Kind = []\<rparr>,
       \<lparr>Parent = image_2, Child = lib_b, dp_Kind = ''run''\<rparr>]\<rparr>"

text \<open>Neither is refused: every description has a name, and every dependency is between components listed.\<close>

lemma listed_component: "d \<in> set (Components snap) \<Longrightarrow> listed g snap d"
  by (simp add: listed_def said_components_def)

lemma not_refused:
  assumes "graphing_ok g" "graph_ok t" "list_all Valid (all_described g snap)"
    "\<forall>dep \<in> set (Dependencies snap). Parent dep \<in> set (Components snap) \<and> Child dep \<in> set (Components snap)"
  obtains a t' where "ApplyWithin g b s snap t = Inr (a, t')"
proof -
  have "\<not> (\<exists>e. ApplyWithin g b s snap t = Inl e)"
    unfolding ApplyWithin_refuses(1) [OF assms(1,2)]
    using assms(3,4) listed_component by (auto simp: list_all_iff)
  then show ?thesis using that by (cases "ApplyWithin g b s snap t") auto
qed

lemma small_snapshots_valid:
  "list_all Valid (all_described small_graphing first_snapshot)"
  "list_all Valid (all_described small_graphing second_snapshot)"
  by code_simp+

abbreviation small_history :: "graph_entry list" where
  "small_history \<equiv> [(small_graphing, 3, 2, second_snapshot), (small_graphing, 3, 1, first_snapshot)]"

lemma small_graphed:
  obtains t1 t a where "graphed [(small_graphing, 3, 1, first_snapshot)] t1"
    "ApplyWithin small_graphing 3 2 second_snapshot t1 = Inr (a, t)" "graphed small_history t"
proof -
  obtain a1 t1 where ap1: "ApplyWithin small_graphing 3 1 first_snapshot empty_graph = Inr (a1, t1)"
    by (rule not_refused [OF small_graphing_ok empty_in_order(1) small_snapshots_valid(1)]) (auto simp: first_snapshot_def)
  have g1: "graphed [(small_graphing, 3, 1, first_snapshot)] t1"
    by (rule graphed.another [OF graphed.nothing small_graphing_ok _ _ ap1]) (simp_all add: scans_of_def)
  then have "graph_ok t1" using graphed_invariant by blast
  then obtain a2 t where ap2: "ApplyWithin small_graphing 3 2 second_snapshot t1 = Inr (a2, t)"
    by (rule not_refused [OF small_graphing_ok _ small_snapshots_valid(2)]) (auto simp: second_snapshot_def)
  have "graphed small_history t"
    by (rule graphed.another [OF g1 small_graphing_ok _ _ ap2]) (simp_all add: scans_of_def)
  then show ?thesis using that g1 ap2 by blast
qed

text \<open>What the two say, as the identities of the small process spell it.\<close>

lemma said_components_list:
  "said_components g snap = insert (identity_of g (AsRoot (Root snap)))
     (set (map (identity_of g) (map (asStored g snap) (Components snap))))"
  by (simp add: said_components_def image_image)

lemma small_identities:
  "map (identity_of small_graphing) [lib_a, AsRoot (Root first_snapshot), AsRoot (Root second_snapshot)]
    = map (\<lambda>s. ''name'' @ [CHR 0x00, CHR ''1'', CHR 0x00] @ s) [''a1'', ''p'', ''p'']"
  "map (identity_of small_graphing) (map (asStored small_graphing first_snapshot) (Components first_snapshot))
    = map (\<lambda>s. ''name'' @ [CHR 0x00, CHR ''1'', CHR 0x00] @ s) [''p'', ''a1'', ''i'']"
  "map (identity_of small_graphing) (map (asStored small_graphing second_snapshot) (Components second_snapshot))
    = map (\<lambda>s. ''name'' @ [CHR 0x00, CHR ''1'', CHR 0x00] @ s) [''p'', ''b2'', ''i'']"
  by code_simp+

lemma small_said:
  "identity_of small_graphing lib_a \<in> said_components small_graphing first_snapshot"
  "identity_of small_graphing lib_a \<notin> said_components small_graphing second_snapshot"
  unfolding said_components_list small_identities(2,3) using small_identities(1) by simp_all


subsection \<open>An inventory read at a moment\<close>

text \<open>
  C15: Whatever a build has been told since, the components, the dependencies and the image versions
  read at the moment a scan was applied are those the scan described, no more and no fewer.
\<close>

theorem an_inventory_answers_as_its_scan_said:
  assumes "graphed h t" and "(g, b, s, snap) \<in> set h"
  shows "components_at t b (AtScan s) = said_components g snap
    \<and> dependencies_at t b (AtScan s) = said_dependencies g snap
    \<and> images_at t b (AtScan s) = said_images g snap"
  using graphed_invariant [OF assms(1)] assms(2) by (fastforce simp: answers_def)

lemma an_inventory_answers_as_its_scan_said_witness:
  "\<exists>t. graphed small_history t \<and> identity_of small_graphing lib_a \<in> components_at t 3 (AtScan 1)
    \<and> identity_of small_graphing lib_a \<notin> components_at t 3 (AtScan 2)"
proof -
  obtain t where t: "graphed small_history t" using small_graphed by blast
  have "components_at t 3 (AtScan 1) = said_components small_graphing first_snapshot"
    using an_inventory_answers_as_its_scan_said [OF t, of small_graphing 3 1 first_snapshot] by simp
  moreover have "components_at t 3 (AtScan 2) = said_components small_graphing second_snapshot"
    using an_inventory_answers_as_its_scan_said [OF t, of small_graphing 3 2 second_snapshot] by simp
  ultimately show ?thesis using t small_said by blast
qed

lemma latest_call:
  assumes "graphed ((g, b, s, snap) # h) t"
  obtains t0 c a where "graphed h t0" "ApplyWithin g b s snap t0 = Inr (a, t)" "good_call g b s snap t0 c a t"
proof -
  from assms obtain t0 a where t0: "graphed h t0" "graphing_ok g" "ApplyWithin g b s snap t0 = Inr (a, t)"
    by (auto elim: graphed_step)
  then have ok: "graph_ok t0" using graphed_invariant by blast
  obtain c where "applied_by g b s snap t0 c a t" using ApplyWithin_steps [OF t0(2) ok t0(3)] .
  then have "good_call g b s snap t0 c a t" using t0(2) ok by (simp add: good_call_def)
  with t0(1,3) show ?thesis by (rule that)
qed

text \<open>
  The rows a build holds in the four tables, and the rows that no longer stand in any of them.
\<close>

definition rows_of_build :: "graph_tables \<Rightarrow> int \<Rightarrow> int option \<times> Node list \<times> Edge list \<times> ImageVersion list" where
  "rows_of_build t x = (last_scan_id t x, filter (\<lambda>n. n_BuildID n = x) (stored (nodes t)),
     filter (\<lambda>e. e_BuildID e = x) (stored (edges t)), filter (\<lambda>v. iv_NodeID v \<in> build_nodes t x) (stored (versions t)))"

definition ended_rows :: "graph_tables \<Rightarrow> Node set \<times> Edge set \<times> ImageVersion set" where
  "ended_rows t = ({n \<in> set (stored (nodes t)). n_ClosedScanID n \<noteq> None}, {e \<in> set (stored (edges t)). e_ClosedScanID e \<noteq> None},
     {v \<in> set (stored (versions t)). iv_ClosedScanID v \<noteq> None})"

lemma filter_map_same:
  "(\<And>x. x \<in> set xs \<Longrightarrow> P (f x) = Q x) \<Longrightarrow> (\<And>x. x \<in> set xs \<Longrightarrow> Q x \<Longrightarrow> f x = x) \<Longrightarrow> filter P (map f xs) = filter Q xs"
  by (induction xs) auto

lemma call_tables:
  assumes r: "good_call g b s snap t c a t'"
  shows "stored (nodes t') = map (node_after b s (wanted_nodes g (gc_ids c) snap)) (stored (nodes t))
      @ numbering put_node (next_id (nodes t)) (missing_nodes g b s (wanted_nodes g (gc_ids c) snap) (nodes t))"
    and "stored (edges t') = map (edge_after b s (gc_edges c)) (stored (edges t))
      @ numbering put_edge (next_id (edges t)) (missing_edges g b s (gc_edges c) (edges t))"
    and "stored (versions t') = map (version_after b s (stated_images g snap (gc_ids c) (gc_nodeids c)) (stored (nodes t'))) (stored (versions t))
      @ numbering put_version (next_id (versions t))
          (missing_versions g b s (stated_images g snap (gc_ids c) (gc_nodeids c)) (stored (nodes t')) (versions t))"
  using reconcileNodes_table(1) [OF nodes_reconciledD(3) [OF good_callD(4) [OF r]] nodes_reconciledD(5) [OF good_callD(4) [OF r]]]
    reconcileEdges_table(1) [OF good_callD(7) [OF r]] reconcileVersions_table(1) [OF call_versions [OF r]] by blast+

text \<open>A scan writes no row of another build, and no row that has ended.\<close>

lemma call_elsewhere:
  assumes r: "good_call g b s snap t c a t'" and last: "last_scan_id t' = (last_scan_id t)(b := Some s)" and x: "x \<noteq> b"
  shows "rows_of_build t' x = rows_of_build t x"
proof -
  note t = good_callD(2) [OF r] and tab = call_tables [OF r] and at = call_builds [OF r]
  let ?said = "stated_images g snap (gc_ids c) (gc_nodeids c)"
  have none: "filter P (numbering put i new) = []" if "\<And>i v. v \<in> set new \<Longrightarrow> \<not> P (put i v)" for P and put :: "int \<Rightarrow> 'z \<Rightarrow> 'z" and i new
    using that by (auto simp: filter_empty_conv dest!: numbering_from)
  have "filter (\<lambda>n. n_BuildID n = x) (stored (nodes t')) = filter (\<lambda>n. n_BuildID n = x) (stored (nodes t))"
  proof -
    have "filter (\<lambda>n. n_BuildID n = x) (map (node_after b s (wanted_nodes g (gc_ids c) snap)) (stored (nodes t)))
        = filter (\<lambda>n. n_BuildID n = x) (stored (nodes t))"
      by (rule filter_map_same) (simp, use x in \<open>simp add: node_after_def node_open_def\<close>)
    then show ?thesis using at(2) x unfolding tab(1) filter_append by (subst none) auto
  qed
  moreover have "filter (\<lambda>e. e_BuildID e = x) (stored (edges t')) = filter (\<lambda>e. e_BuildID e = x) (stored (edges t))"
  proof -
    have "filter (\<lambda>e. e_BuildID e = x) (map (edge_after b s (gc_edges c)) (stored (edges t)))
        = filter (\<lambda>e. e_BuildID e = x) (stored (edges t))"
      by (rule filter_map_same) (simp, use x in \<open>simp add: edge_after_def edge_open_def\<close>)
    then show ?thesis using at(4) x unfolding tab(2) filter_append by (subst none) auto
  qed
  moreover have "filter (\<lambda>v. iv_NodeID v \<in> build_nodes t' x) (stored (versions t'))
      = filter (\<lambda>v. iv_NodeID v \<in> build_nodes t x) (stored (versions t))"
  proof -
    have apart: "i \<in> build_nodes t' x \<Longrightarrow> i \<notin> build_nodes t' b" for i
      using build_nodes_apart [OF call_graph_ok [OF r], of i x b] x by blast
    have same: "iv_NodeID v \<in> build_nodes t' x \<longleftrightarrow> iv_NodeID v \<in> build_nodes t x" if "v \<in> set (stored (versions t))" for v
      by (rule call_build_nodes [OF r graph_okD(11) [OF t that]])
    have stays: "version_after b s ?said (stored (nodes t')) v = v" if v: "v \<in> set (stored (versions t))" "iv_NodeID v \<in> build_nodes t x" for v
    proof -
      have "\<not> version_open b (stored (nodes t')) v"
        using apart same [OF v(1)] v(2) unfolding version_open_what by (simp add: version_what_def)
      then show ?thesis by (simp add: version_after_def)
    qed
    have "filter (\<lambda>v. iv_NodeID v \<in> build_nodes t' x) (map (version_after b s ?said (stored (nodes t'))) (stored (versions t)))
        = filter (\<lambda>v. iv_NodeID v \<in> build_nodes t x) (stored (versions t))"
      by (rule filter_map_same) (simp_all add: same stays)
    then show ?thesis using at(6) apart unfolding tab(3) filter_append by (subst none) auto
  qed
  moreover have "last_scan_id t' x = last_scan_id t x" using last x by simp
  ultimately show ?thesis by (simp add: rows_of_build_def)
qed

lemma call_ended:
  assumes r: "good_call g b s snap t c a t'"
  shows "fst (ended_rows t) \<subseteq> fst (ended_rows t')" "fst (snd (ended_rows t)) \<subseteq> fst (snd (ended_rows t'))"
    "snd (snd (ended_rows t)) \<subseteq> snd (snd (ended_rows t'))"
proof -
  note tab = call_tables [OF r]
  have "node_after b s w n = n" if "n_ClosedScanID n \<noteq> None" for w n
    using that by (auto simp: node_after_def node_open_def)
  then show "fst (ended_rows t) \<subseteq> fst (ended_rows t')"
    unfolding ended_rows_def tab(1) by (auto simp: image_iff) metis
  have "edge_after b s w n = n" if "e_ClosedScanID n \<noteq> None" for w n
    using that by (auto simp: edge_after_def edge_open_def)
  then show "fst (snd (ended_rows t)) \<subseteq> fst (snd (ended_rows t'))"
    unfolding ended_rows_def tab(2) by (auto simp: image_iff) metis
  have "version_after b s w ns n = n" if "iv_ClosedScanID n \<noteq> None" for w ns n
    using that by (auto simp: version_after_def version_open_def)
  then show "snd (snd (ended_rows t)) \<subseteq> snd (snd (ended_rows t'))"
    unfolding ended_rows_def tab(3) by (auto simp: image_iff) metis
qed

text \<open>What the last scan of a build said, whatever scans of other builds came after it.\<close>

abbreviation scan_of_another :: "int \<Rightarrow> graph_entry \<Rightarrow> bool" where
  "scan_of_another b e \<equiv> fst (snd e) \<noteq> b"

lemma open_in_build: "filter (node_open b) (stored (nodes t)) = filter (node_open b) (fst (snd (rows_of_build t b)))"
  by (simp add: rows_of_build_def) (rule filter_cong, simp, simp add: node_open_def)

lemma says_last:
  assumes "graphed (l @ (g, b, s, snap) # h) t" and "\<forall>e \<in> set l. scan_of_another b e"
  shows "components_at t b Now = said_components g snap \<and> dependencies_at t b Now = said_dependencies g snap
    \<and> images_at t b Now = said_images g snap
    \<and> (\<forall>n \<in> set (filter (node_open b) (stored (nodes t))).
         said_of g snap (component_named (interned t) (n_ComponentID n)) = Some (says_of n))"
  using assms
proof (induction l arbitrary: t)
  case Nil
  then have "graphed ((g, b, s, snap) # h) t" by simp
  from latest_call [OF this] obtain t0 c a where r: "good_call g b s snap t0 c a t" by blast
  show ?case
    using call_components [OF r] call_dependencies [OF r] call_images [OF r] call_says [OF r] by (simp add: Now_def)
next
  case (Cons e l)
  obtain g' b' s' snap' where e: "e = (g', b', s', snap')" by (cases e) auto
  then have "graphed ((g', b', s', snap') # l @ (g, b, s, snap) # h) t" and b': "b \<noteq> b'" using Cons.prems by auto
  from latest_call [OF this(1)] obtain t0 c a where t0: "graphed (l @ (g, b, s, snap) # h) t0"
    "ApplyWithin g' b' s' snap' t0 = Inr (a, t)" "good_call g' b' s' snap' t0 c a t" by blast
  have IH: "components_at t0 b Now = said_components g snap" "dependencies_at t0 b Now = said_dependencies g snap"
    "images_at t0 b Now = said_images g snap" "\<And>n. n \<in> set (filter (node_open b) (stored (nodes t0)))
      \<Longrightarrow> said_of g snap (component_named (interned t0) (n_ComponentID n)) = Some (says_of n)"
    using Cons.IH [OF t0(1)] Cons.prems(2) by simp_all
  have rows: "filter (node_open b) (stored (nodes t)) = filter (node_open b) (stored (nodes t0))"
    unfolding open_in_build call_elsewhere [OF t0(3) ApplyWithin_takes [OF t0(2)] b'] ..
  have named: "component_named (interned t) (n_ComponentID n) = component_named (interned t0) (n_ComponentID n)"
    if "n \<in> set (filter (node_open b) (stored (nodes t0)))" for n
    using call_catalog(3) [OF t0(3)] graph_okD(8) [OF good_callD(2) [OF t0(3)]] that by auto
  have "components_at t b Now = components_at t0 b Now" "dependencies_at t b Now = dependencies_at t0 b Now"
    "images_at t b Now = images_at t0 b Now"
    by (rule call_reads [OF t0(3)], use b' in simp)+
  then show ?case unfolding rows using IH named by simp
qed

text \<open>
  C16: Read as it stands now, a build holds what its last scan described, whatever other builds have been told
  since, and each component carries the root flag and the identifiers that scan stated: those of the first
  description of it, and nothing but the flag for the product itself.
\<close>

theorem a_build_states_what_its_last_scan_stated:
  assumes "graphed (l @ (g, b, s, snap) # h) t" and "\<forall>e \<in> set l. scan_of_another b e"
  shows "components_at t b Now = said_components g snap \<and> dependencies_at t b Now = said_dependencies g snap
    \<and> images_at t b Now = said_images g snap
    \<and> (\<forall>n \<in> set (filter (node_open b) (stored (nodes t))).
         said_of g snap (component_named (interned t) (n_ComponentID n)) = Some (says_of n))"
  using assms by (rule says_last)

lemma a_build_states_what_its_last_scan_stated_witness:
  "\<exists>t. graphed small_history t \<and> identity_of small_graphing lib_a \<notin> components_at t 3 Now"
proof -
  obtain t where t: "graphed small_history t" using small_graphed by blast
  show ?thesis using a_build_states_what_its_last_scan_stated [of "[]", unfolded append_Nil, OF t] small_said(2) t by auto
qed

text \<open>
  A node kept across a scan is rewritten with what the later scan states of it, so a moment between
  the two reads the component with the later identifiers.
\<close>

lemma an_earlier_moment_reads_the_latest_identifiers:
  assumes "graphed ((g, b, s, snap) # h) t" and "n \<in> set (stored (nodes t))" and "node_open b n" and "n_OpenedScanID n \<le> m"
  shows "Held (AtScan m) (n_OpenedScanID n) (n_ClosedScanID n)
    \<and> said_of g snap (component_named (interned t) (n_ComponentID n)) = Some (says_of n)"
proof -
  obtain t0 c a where r: "good_call g b s snap t0 c a t" using latest_call [OF assms(1)] by blast
  show ?thesis using call_says [OF r assms(2,3)] assms(3,4) by (simp add: Held_def AtScan_def node_open_def)
qed


subsection \<open>One row for one thing\<close>

lemma node_names_apart:
  assumes t: "graph_ok t" and m: "m \<in> set (filter (node_open b) (stored (nodes t)))" and n: "n \<in> set (filter (node_open b) (stored (nodes t)))"
    and eq: "component_named (interned t) (n_ComponentID m) = component_named (interned t) (n_ComponentID n)"
  shows "m = n"
proof -
  have "n_ComponentID m = n_ComponentID n"
    using named_injective [OF graph_okD(1) [OF t] graph_okD(8) [OF t, of m] graph_okD(8) [OF t, of n] eq] m n by auto
  then show ?thesis using unique_row [OF graph_okD(5) [OF t] m n] by blast
qed

lemma distinct_map_on: "distinct (map f xs) \<Longrightarrow> (\<And>x y. x \<in> set xs \<Longrightarrow> y \<in> set xs \<Longrightarrow> k x = k y \<Longrightarrow> f x = f y) \<Longrightarrow> distinct (map k xs)"
  unfolding distinct_map inj_on_def by metis

definition edge_named :: "graph_tables \<Rightarrow> Edge \<Rightarrow> string \<times> string \<times> string" where
  "edge_named t e = (node_named t (e_ParentID e), node_named t (e_ChildID e), e_Kind e)"

text \<open>
  C17: At no time does a build hold a component twice, a dependency of one scope twice, or an image
  at two versions, and an open dependency is between two components that are open in its build.
\<close>

theorem one_open_row_for_one_thing:
  assumes "graphed h t"
  shows "distinct (map (\<lambda>n. component_named (interned t) (n_ComponentID n)) (filter (node_open b) (stored (nodes t))))
    \<and> distinct (map (edge_named t) (filter (edge_open b) (stored (edges t))))
    \<and> distinct (map iv_NodeID (filter version_now (stored (versions t))))
    \<and> links_open t b"
proof -
  from graphed_invariant [OF assms] have t: "graph_ok t" and l: "links_open t b" by blast+
  have "distinct (map (\<lambda>n. component_named (interned t) (n_ComponentID n)) (filter (node_open b) (stored (nodes t))))"
    using graph_okD(5) [OF t] by (rule distinct_map_on) (use node_names_apart [OF t] in blast)
  moreover have "distinct (map (edge_named t) (filter (edge_open b) (stored (edges t))))"
  proof (rule distinct_map_on [OF graph_okD(6) [OF t]])
    fix e f assume e: "e \<in> set (filter (edge_open b) (stored (edges t)))" and f: "f \<in> set (filter (edge_open b) (stored (edges t)))"
      and eq: "edge_named t e = edge_named t f"
    have same: "i = j" if i: "i \<in> n_ID ` set (filter (node_open b) (stored (nodes t)))"
        and j: "j \<in> n_ID ` set (filter (node_open b) (stored (nodes t)))" and "node_named t i = node_named t j" for i j
    proof -
      from i j obtain m n where mn: "m \<in> set (filter (node_open b) (stored (nodes t)))" "n_ID m = i"
        "n \<in> set (filter (node_open b) (stored (nodes t)))" "n_ID n = j" by blast
      then have "component_named (interned t) (n_ComponentID m) = component_named (interned t) (n_ComponentID n)"
        using node_named_row [OF t, of m] node_named_row [OF t, of n] that(3) by auto
      then show ?thesis using node_names_apart [OF t mn(1,3)] mn by blast
    qed
    have ends: "e_ParentID x \<in> n_ID ` set (filter (node_open b) (stored (nodes t)))"
      "e_ChildID x \<in> n_ID ` set (filter (node_open b) (stored (nodes t)))" if "x \<in> set (filter (edge_open b) (stored (edges t)))" for x
      using l that unfolding links_open_def by simp_all
    have "e_ParentID e = e_ParentID f" using same [OF ends(1) [OF e] ends(1) [OF f]] eq by (simp add: edge_named_def)
    moreover have "e_ChildID e = e_ChildID f" using same [OF ends(2) [OF e] ends(2) [OF f]] eq by (simp add: edge_named_def)
    ultimately show "edge_key e = edge_key f" using eq by (simp add: edge_key_def edge_named_def)
  qed
  ultimately show ?thesis using graph_okD(7) [OF t] l by blast
qed

lemma one_open_row_for_one_thing_witness: "\<exists>t. graphed small_history t \<and> links_open t 3"
proof -
  obtain t where t: "graphed small_history t" using small_graphed by blast
  show ?thesis using one_open_row_for_one_thing [OF t, of 3] t by blast
qed

text \<open>
  C23: Every identifier a row holds is the identifier of a row there is: a node's component is in the
  catalog, where each identity has one row, both ends of a dependency are nodes of the dependency's
  own build, and an image version is some node's.
\<close>

theorem rows_refer_to_rows_there_are:
  assumes "graphed h t"
  shows "distinct (map Identity (stored (interned t)))
    \<and> n_ComponentID ` set (stored (nodes t)) \<subseteq> c_ID ` set (stored (interned t))
    \<and> (\<lambda>e. (e_BuildID e, e_ParentID e)) ` set (stored (edges t)) \<subseteq> (\<lambda>n. (n_BuildID n, n_ID n)) ` set (stored (nodes t))
    \<and> (\<lambda>e. (e_BuildID e, e_ChildID e)) ` set (stored (edges t)) \<subseteq> (\<lambda>n. (n_BuildID n, n_ID n)) ` set (stored (nodes t))
    \<and> iv_NodeID ` set (stored (versions t)) \<subseteq> n_ID ` set (stored (nodes t))"
proof -
  from graphed_invariant [OF assms] have t: "graph_ok t" by blast
  have node: "(x, i) \<in> (\<lambda>n. (n_BuildID n, n_ID n)) ` set (stored (nodes t))" if "i \<in> build_nodes t x" for x i
    using that by (auto simp: build_nodes_def)
  have "distinct (map Identity (stored (interned t)))" using graph_okD(1) [OF t] by (simp add: catalog_ok_def)
  moreover have "n_ComponentID ` set (stored (nodes t)) \<subseteq> c_ID ` set (stored (interned t))"
    using graph_okD(8) [OF t] unfolding component_ids_def by blast
  moreover have "(\<lambda>e. (e_BuildID e, e_ParentID e)) ` set (stored (edges t)) \<subseteq> (\<lambda>n. (n_BuildID n, n_ID n)) ` set (stored (nodes t))"
    using node graph_okD(9) [OF t] by blast
  moreover have "(\<lambda>e. (e_BuildID e, e_ChildID e)) ` set (stored (edges t)) \<subseteq> (\<lambda>n. (n_BuildID n, n_ID n)) ` set (stored (nodes t))"
    using node graph_okD(10) [OF t] by blast
  moreover have "iv_NodeID ` set (stored (versions t)) \<subseteq> n_ID ` set (stored (nodes t))" using graph_okD(11) [OF t] by blast
  ultimately show ?thesis by blast
qed

lemma rows_refer_to_rows_there_are_witness:
  "\<exists>t. graphed small_history t \<and> n_ComponentID ` set (stored (nodes t)) \<subseteq> c_ID ` set (stored (interned t))"
proof -
  obtain t where t: "graphed small_history t" using small_graphed by blast
  show ?thesis using rows_refer_to_rows_there_are [OF t, THEN conjunct2, THEN conjunct1] t by (intro exI conjI)
qed


subsection \<open>What a scan writes\<close>

text \<open>
  C18: A scan that describes what the last scan of its build described writes nothing but
  that it was the last: it opens nothing, closes nothing, and every table is the table it was,
  whatever the clock says and in whatever order the maps are ranged over.
\<close>

theorem a_snapshot_applied_again_writes_nothing:
  assumes "graphed ((g, b, s, snap) # h) t" and "graphing_ok g'" and "same_reading g g'"
  shows "ApplyWithin g' b s' snap t = Inr (nothing_changed, t\<lparr>last_scan_id := (last_scan_id t)(b := Some s')\<rparr>)"
proof -
  obtain t0 c a where "ApplyWithin g b s snap t0 = Inr (a, t)" "good_call g b s snap t0 c a t"
    using latest_call [OF assms(1)] by blast
  then show ?thesis using ApplyWithin_again assms(2,3) by blast
qed

lemma a_snapshot_applied_again_writes_nothing_witness:
  "\<exists>t. graphed small_history t \<and> ApplyWithin (small_graphing\<lparr>seen_now := 9\<rparr>) 3 4 second_snapshot t
    = Inr (nothing_changed, t\<lparr>last_scan_id := (last_scan_id t)(3 := Some 4)\<rparr>)"
proof -
  obtain t where t: "graphed small_history t" using small_graphed by blast
  have "graphing_ok (small_graphing\<lparr>seen_now := 9\<rparr>)" "same_reading small_graphing (small_graphing\<lparr>seen_now := 9\<rparr>)"
    by (simp_all add: graphing_ok_def same_reading_def small_graphing_def)
  from a_snapshot_applied_again_writes_nothing [OF t this] t show ?thesis by blast
qed

text \<open>
  C22: A snapshot is refused exactly where something it describes has no name, or one of its
  dependencies names what it does not list; the components it asks to be interned always come back.
\<close>

theorem a_snapshot_is_refused_for_two_reasons:
  assumes "graphed h t" and "graphing_ok g"
  shows "((\<exists>e. ApplyWithin g b s snap t = Inl e) \<longleftrightarrow>
      (\<exists>d \<in> set (all_described g snap). trim_space (d_Name d) = [])
      \<or> (\<exists>dep \<in> set (Dependencies snap). \<exists>d. (d = Parent dep \<or> d = Child dep)
           \<and> identity_of g (asStored g snap d) \<notin> said_components g snap))
    \<and> (\<forall>m n. ApplyWithin g b s snap t \<noteq> Inl (CameBack m n))"
proof -
  from graphed_invariant [OF assms(1)] have t: "graph_ok t" by blast
  show ?thesis
    using ApplyWithin_refuses [OF assms(2) t, of b s snap] unfolding Valid_def listed_def by blast
qed

lemma a_snapshot_is_refused_for_two_reasons_witness:
  "\<exists>e. ApplyWithin small_graphing 3 1 (first_snapshot\<lparr>Components := [nothing_described]\<rparr>) empty_graph = Inl e"
proof -
  let ?s = "first_snapshot\<lparr>Components := [nothing_described]\<rparr>"
  have "list_ex (\<lambda>d. trim_space (d_Name d) = []) (all_described small_graphing ?s)" by code_simp
  then show ?thesis
    using a_snapshot_is_refused_for_two_reasons [OF graphed.nothing small_graphing_ok, of 3 1 ?s] by (auto simp: list_ex_iff)
qed

text \<open>
  C19: Applying a scan to one build writes no row of another build, and no row of its own that had ended: the
  other builds' nodes, edges, image versions and last scan are the rows they were. At each of its own earlier moments
  it then reads the components, the dependencies and the image versions it read, each by its
  identity. What a row still open says of root and identifiers is rewritten where it stands, as the lemma above has
  it, and the catalog both share has its blanks filled.
\<close>

theorem a_scan_rewrites_no_history:
  assumes "graphed h t" and "graphing_ok g" and "ApplyWithin g b s snap t = Inr (a, t')"
  shows "(x \<noteq> b \<longrightarrow> rows_of_build t' x = rows_of_build t x)
    \<and> (x \<noteq> b \<or> 0 < m \<and> m < s \<longrightarrow> components_at t' x m = components_at t x m
        \<and> dependencies_at t' x m = dependencies_at t x m \<and> images_at t' x m = images_at t x m)
    \<and> fst (ended_rows t) \<subseteq> fst (ended_rows t') \<and> fst (snd (ended_rows t)) \<subseteq> fst (snd (ended_rows t'))
    \<and> snd (snd (ended_rows t)) \<subseteq> snd (snd (ended_rows t'))"
proof -
  from graphed_invariant [OF assms(1)] have t: "graph_ok t" by blast
  obtain c where "applied_by g b s snap t c a t'" using ApplyWithin_steps [OF assms(2) t assms(3)] .
  then have r: "good_call g b s snap t c a t'" using assms(2) t by (simp add: good_call_def)
  have "components_at t' x m = components_at t x m \<and> dependencies_at t' x m = dependencies_at t x m
      \<and> images_at t' x m = images_at t x m" if "x \<noteq> b \<or> 0 < m \<and> m < s"
  proof -
    have m: "x = b \<Longrightarrow> m \<noteq> 0 \<and> m < s" using that by auto
    show ?thesis using call_reads(1) [OF r m] call_reads(2) [OF r m] call_reads(3) [OF r m] by blast
  qed
  then show ?thesis using call_elsewhere [OF r ApplyWithin_takes [OF assms(3)]] call_ended [OF r] by blast
qed

lemma a_scan_rewrites_no_history_witness:
  "\<exists>t t' a. graphed [(small_graphing, 3, 1, first_snapshot)] t \<and> ApplyWithin small_graphing 3 2 second_snapshot t = Inr (a, t')
    \<and> components_at t' 3 1 = components_at t 3 1 \<and> rows_of_build t' 4 = rows_of_build t 4"
proof -
  obtain t1 t a where t: "graphed [(small_graphing, 3, 1, first_snapshot)] t1"
    "ApplyWithin small_graphing 3 2 second_snapshot t1 = Inr (a, t)" using small_graphed by blast
  note seen = a_scan_rewrites_no_history [OF t(1) small_graphing_ok t(2)]
  have "components_at t 3 1 = components_at t1 3 1" using seen [of 3 1] by simp
  moreover have "rows_of_build t 4 = rows_of_build t1 4" using seen [of 4 1] by simp
  ultimately show ?thesis using t by blast
qed

end
