(* ===== verification/Graph_Stated.thy ===== *)
theory Graph_Stated
  imports Graph_Snapshot_Props
begin

section \<open>What a build states of its components, and what others fill in\<close>

text \<open>
  What a scanner is given of a build (\<^verbatim>\<open>ComponentsAt\<close> of \<^verbatim>\<open>graph/snapshot.go\<close>): the identifiers the
  build stated, with what it left out taken from the other builds of its product
  (\<^verbatim>\<open>FillFrom\<close> and \<^verbatim>\<open>withQualifiersFrom\<close> of \<^verbatim>\<open>graph/component.go\<close>). Which builds those are is read from
  the catalog of products, and is an argument here.
\<close>

subsection \<open>Filling in\<close>

definition pair_key :: "letters \<Rightarrow> string \<Rightarrow> string" where
  "pair_key u pair = to_lower u (fst (before_byte CHR ''='' pair))"

text \<open>The offered qualifiers that are taken, in the order they are offered in.\<close>

fun taken :: "letters \<Rightarrow> string list \<Rightarrow> string list \<Rightarrow> string list" where
  "taken u [] have_keys = []"
| "taken u (pair # pairs) have_keys =
    (case cut_first CHR ''='' pair of
       None \<Rightarrow> taken u pairs have_keys
     | Some (key, v) \<Rightarrow>
         if key = [] \<or> v = [] \<or> to_lower u key \<in> set have_keys then taken u pairs have_keys
         else pair # taken u pairs (to_lower u key # have_keys))"

definition withQualifiersFrom :: "letters \<Rightarrow> string \<Rightarrow> string \<Rightarrow> string" where
  "withQualifiersFrom u purl other =
    (if trim_space purl = [] then purl
     else case cut_first CHR ''?'' (fst (before_byte CHR ''#'' other)) of
         None \<Rightarrow> purl
       | Some (_, offered) \<Rightarrow>
           if offered = [] then purl
           else let body = fst (before_byte CHR ''#'' purl);
                    (head, stated_pairs) = before_byte CHR ''?'' body;
                    pairs = filter (\<lambda>p. p \<noteq> []) (split_on CHR ''&'' stated_pairs);
                    added = taken u (split_on CHR ''&'' offered) (map (pair_key u) pairs)
             in if added = [] then purl
                else head @ ''?'' @ strings_join ''&'' (pairs @ added)
                  @ (case cut_first CHR ''#'' purl of None \<Rightarrow> [] | Some (_, subpath) \<Rightarrow> CHR ''#'' # subpath))"

definition blank_or :: "string \<Rightarrow> string \<Rightarrow> string" where
  "blank_or s other = (if s = [] then other else s)"

definition FillFrom :: "letters \<Rightarrow> Described \<Rightarrow> Described \<Rightarrow> Described" where
  "FillFrom u d other =
    (let d = d\<lparr>d_Purl := withQualifiersFrom u (d_Purl d) (d_Purl other)\<rparr>;
         d = d\<lparr>d_CPE := blank_or (d_CPE d) (d_CPE other)\<rparr>;
         d = d\<lparr>d_Version := blank_or (d_Version d) (d_Version other)\<rparr>;
         d = d\<lparr>d_License := blank_or (d_License d) (d_License other)\<rparr>;
         d = d\<lparr>d_Repository := blank_or (d_Repository d) (d_Repository other)\<rparr>;
         d = d\<lparr>d_Container := (d_Container d \<or> d_Container other)\<rparr>
     in if d_UpstreamName d = [] then d\<lparr>d_UpstreamName := d_UpstreamName other, d_UpstreamVersion := d_UpstreamVersion other\<rparr>
        else if d_UpstreamVersion d = [] \<and> d_UpstreamName d = d_UpstreamName other
             then d\<lparr>d_UpstreamVersion := d_UpstreamVersion other\<rparr>
        else d)"


subsection \<open>What a build states\<close>

text \<open>What a node states of its component, and what is read of it for the scanner.\<close>

definition node_states :: "Node \<Rightarrow> Described" where
  "node_states n = nothing_described\<lparr>d_Purl := n_Purl n, d_CPE := n_CPE n, d_UpstreamName := n_UpstreamName n,
     d_UpstreamVersion := n_UpstreamVersion n\<rparr>"

definition by_opening :: "Node list \<Rightarrow> Node list" where
  "by_opening ns = sort_key n_OpenedScanID (sort_key n_ID ns)"

definition states_something :: "Node \<Rightarrow> bool" where
  "states_something n \<longleftrightarrow> n_Purl n \<noteq> [] \<or> n_CPE n \<noteq> [] \<or> n_UpstreamName n \<noteq> []"

definition statedInProduct :: "graph_tables \<Rightarrow> int list \<Rightarrow> int list \<Rightarrow> (int \<times> Described list) list" where
  "statedInProduct t others componentIDs =
     fold (\<lambda>b out. fold (\<lambda>n. append_at (n_ComponentID n) (node_states n))
         (by_opening (filter (\<lambda>n. n_BuildID n \<in> set others \<and> n_ComponentID n \<in> set b \<and> states_something n) (stored (nodes t)))) out)
       (batches_of BatchSize componentIDs) []"

definition filled_from :: "letters \<Rightarrow> Described list \<Rightarrow> Described \<Rightarrow> Described" where
  "filled_from u others d = fold (\<lambda>other d. FillFrom u d other) others d"

definition Stated :: "letters \<Rightarrow> graph_tables \<Rightarrow> int list \<Rightarrow> int \<Rightarrow> int list \<Rightarrow> (int \<times> Described) list" where
  "Stated u t others build componentIDs =
    (let out = fold (\<lambda>b out. fold (\<lambda>n. AList.update (n_ComponentID n) (node_states n))
             (by_opening (filter (\<lambda>n. n_BuildID n = build \<and> n_ComponentID n \<in> set b) (stored (nodes t)))) out)
           (batches_of BatchSize componentIDs) [];
         other = statedInProduct t others (map fst out)
     in map (\<lambda>(i, said). (i, filled_from u (at_key other i) said)) out)"

definition component_row_of :: "graph_tables \<Rightarrow> Node \<Rightarrow> Interned list" where
  "component_row_of t n = filter (\<lambda>r. c_ID r = n_ComponentID n) (stored (interned t))"

definition held_row :: "graph_tables \<Rightarrow> int \<Rightarrow> Moment \<Rightarrow> Node list" where
  "held_row t build at = filter (\<lambda>n. n_BuildID n = build \<and> Held at (n_OpenedScanID n) (n_ClosedScanID n) \<and> \<not> n_IsRoot n) (stored (nodes t))"

definition ComponentsAt :: "letters \<Rightarrow> graph_tables \<Rightarrow> int list \<Rightarrow> int \<Rightarrow> Moment \<Rightarrow> Described list" where
  "ComponentsAt u t others build at =
    (let rows = concat (map (\<lambda>n. map (\<lambda>r. (n_ComponentID n,
              (node_states n)\<lparr>d_Name := c_Name r, d_Version := c_Version r\<rparr>)) (component_row_of t n)) (held_row t build at));
         other = statedInProduct t others (map fst rows)
     in map (\<lambda>(i, said). filled_from u (at_key other i) said) rows)"

definition CurrentComponents :: "letters \<Rightarrow> graph_tables \<Rightarrow> int list \<Rightarrow> int \<Rightarrow> Described list" where
  "CurrentComponents u t others build = ComponentsAt u t others build Now"


subsection \<open>Texts cut at a byte\<close>

text \<open>A byte that is part of no space is never trimmed past.\<close>

lemma begins_before: "c \<notin> set p \<Longrightarrow> begins p (x @ c # y) = begins p x"
  by (induction p x rule: begins.induct) auto

lemma find_cong_list: "(\<And>p. p \<in> set ps \<Longrightarrow> P p = Q p) \<Longrightarrow> find P ps = find Q ps"
  by (induction ps) auto

lemma begins_length: "begins p x \<Longrightarrow> length p \<le> length x"
  by (induction p x rule: begins.induct) auto

lemma strip_before:
  assumes "\<forall>p \<in> set ps. c \<notin> set p"
  shows "strip ps (x @ c # y) = strip ps x @ c # y"
  using assms
proof (induction ps x rule: strip.induct)
  case (1 ps x)
  have f: "find (\<lambda>p. p \<noteq> [] \<and> begins p (x @ c # y)) ps = find (\<lambda>p. p \<noteq> [] \<and> begins p x) ps"
    using "1.prems" begins_before by (intro find_cong_list) blast
  show ?case
  proof (cases "find (\<lambda>p. p \<noteq> [] \<and> begins p x) ps")
    case None
    then show ?thesis using f by (simp add: strip.simps [of ps x] strip.simps [of ps "x @ c # y"])
  next
    case (Some q)
    then have "begins q x" by (auto simp: find_Some_iff)
    then have "length q \<le> length x" by (rule begins_length)
    then show ?thesis using f Some "1.IH" [OF Some "1.prems"]
      by (simp add: strip.simps [of ps x] strip.simps [of ps "x @ c # y"])
  qed
qed

definition trim_left :: "string \<Rightarrow> string" where
  "trim_left s = strip space_runes s"

lemma trim_space_before:
  assumes "c \<in> set ''?#''"
  shows "trim_space (x @ c # y) = trim_left x @ c # rev (strip (map rev space_runes) (rev y))"
proof -
  have free: "\<forall>p \<in> set space_runes. c \<notin> set p" using assms by (auto simp: space_runes_def)
  then have rfree: "\<forall>p \<in> set (map rev space_runes). c \<notin> set p" by auto
  show ?thesis
    by (simp add: trim_space_def trim_left_def strip_before [OF free] strip_before [OF rfree])
qed

lemma trim_left_trimmed: "trim_space p = p \<Longrightarrow> trim_left p = p"
proof -
  assume p: "trim_space p = p"
  obtain a where a: "p = a @ strip space_runes p" using strip_suffix by blast
  obtain b where b: "rev (strip space_runes p) = b @ strip (map rev space_runes) (rev (strip space_runes p))" using strip_suffix by blast
  have "length p = length (trim_space p)" using p by simp
  also have "\<dots> \<le> length (strip space_runes p)" using arg_cong [OF b, of length] by (simp add: trim_space_def)
  finally have "length a = 0" using arg_cong [OF a, of length] by simp
  then show ?thesis using a by (simp add: trim_left_def)
qed

lemma canonical_cut:
  assumes c: "c \<in> set ''?#''" and x: "\<forall>c \<in> set ''?#''. c \<notin> set x" and c': "c' \<in> set ''?#''"
  shows "canonicalPurl u (x @ c # y) = canonicalPurl u (x @ c' # y')"
proof -
  have free: "\<forall>k \<in> set (trim_left x). k \<notin> set ''?#''"
  proof -
    obtain a where "x = a @ strip space_runes x" using strip_suffix by blast
    then have "set (trim_left x) \<subseteq> set x" unfolding trim_left_def by (metis Un_upper2 set_append)
    then show ?thesis using x by blast
  qed
  have "before_any ''?#'' (trim_left x @ k # z) = trim_left x" if "k \<in> set ''?#''" for k z
    using that free by (auto simp: before_any_def takeWhile_append2)
  then show ?thesis
    using c c' trim_space_before [OF c, of x y] trim_space_before [OF c', of x y'] by (simp add: canonicalPurl_def Let_def)
qed


text \<open>An identifier up to its qualifiers, and the qualifiers it states.\<close>

definition head_part :: "string \<Rightarrow> string" where
  "head_part p = fst (before_byte CHR ''?'' (fst (before_byte CHR ''#'' p)))"

definition subpath :: "string \<Rightarrow> string option" where
  "subpath p = map_option snd (cut_first CHR ''#'' p)"

definition qualifiers :: "string \<Rightarrow> string list" where
  "qualifiers p = filter (\<lambda>q. q \<noteq> []) (split_on CHR ''&'' (snd (before_byte CHR ''?'' (fst (before_byte CHR ''#'' p)))))"

lemma before_byte_free: "c \<notin> set (fst (before_byte c s))"
  by (auto simp: before_byte_def cut_first_None split: option.splits dest!: cut_first_Some)

lemma before_byte_sub: "set (fst (before_byte c s)) \<subseteq> set s" "set (snd (before_byte c s)) \<subseteq> set s"
  by (auto simp: before_byte_def split: option.splits dest!: cut_first_Some)

lemma before_byte_at: "c \<notin> set x \<Longrightarrow> before_byte c (x @ c # y) = (x, y)"
proof -
  assume "c \<notin> set x"
  then have "cut_first c (x @ c # y) = Some (x, y)" by (induction x) auto
  then show ?thesis by (simp add: before_byte_def)
qed

lemma before_byte_none: "c \<notin> set x \<Longrightarrow> before_byte c x = (x, [])"
  using cut_first_None [of c x] by (simp add: before_byte_def)

lemma head_free: "c \<in> set ''?#'' \<Longrightarrow> c \<notin> set (head_part p)"
  using before_byte_free [of "CHR ''?''" "fst (before_byte CHR ''#'' p)"] before_byte_free [of "CHR ''#''" p]
    before_byte_sub(1) [of "CHR ''?''" "fst (before_byte CHR ''#'' p)"]
  by (auto simp: head_part_def)

lemma head_shape:
  obtains (whole) "p = head_part p" | (cut) c y where "c \<in> set ''?#''" "p = head_part p @ c # y"
proof (cases "cut_first CHR ''#'' p")
  case None
  then have b: "fst (before_byte CHR ''#'' p) = p" by (simp add: before_byte_def)
  show ?thesis
  proof (cases "cut_first CHR ''?'' p")
    case None
    then show ?thesis using whole b by (simp add: head_part_def before_byte_def)
  next
    case (Some e)
    then show ?thesis using cut [of "CHR ''?''" "snd e"] b cut_first_Some [of "CHR ''?''" p "fst e" "snd e"]
      by (simp add: head_part_def before_byte_def)
  qed
next
  case (Some e)
  then have p: "p = fst e @ CHR ''#'' # snd e" using cut_first_Some [of "CHR ''#''" p "fst e" "snd e"] by simp
  have b: "fst (before_byte CHR ''#'' p) = fst e" using Some by (simp add: before_byte_def)
  show ?thesis
  proof (cases "cut_first CHR ''?'' (fst e)")
    case None
    then show ?thesis using cut [of "CHR ''#''" "snd e"] p b by (simp add: head_part_def before_byte_def)
  next
    case (Some f)
    then have "fst e = fst f @ CHR ''?'' # snd f" using cut_first_Some [of "CHR ''?''" "fst e" "fst f" "snd f"] by simp
    then show ?thesis using cut [of "CHR ''?''" "snd f @ CHR ''#'' # snd e"] Some p b by (simp add: head_part_def before_byte_def)
  qed
qed

lemma withQualifiersFrom_offered:
  assumes "cut_first CHR ''?'' (fst (before_byte CHR ''#'' other)) = Some (x, offered)" and "offered \<noteq> []" and "trim_space p \<noteq> []"
  shows "withQualifiersFrom u p other = (let added = taken u (split_on CHR ''&'' offered) (map (pair_key u) (qualifiers p)) in
    if added = [] then p
    else head_part p @ CHR ''?'' # strings_join ''&'' (qualifiers p @ added)
      @ (case subpath p of None \<Rightarrow> [] | Some end' \<Rightarrow> CHR ''#'' # end'))"
proof -
  have rest: "(case cut_first CHR ''#'' p of None \<Rightarrow> [] | Some (_, end') \<Rightarrow> CHR ''#'' # end')
      = (case subpath p of None \<Rightarrow> [] | Some end' \<Rightarrow> CHR ''#'' # end')"
    by (simp add: subpath_def split: option.split prod.split)
  show ?thesis
    unfolding rest [symmetric] using assms by (simp add: withQualifiersFrom_def head_part_def qualifiers_def Let_def split: prod.split)
qed

text \<open>
  Either nothing is taken and the identifier is returned as it was, or it is written again with the
  qualifiers that were taken after its own.
\<close>

lemma filled_shape:
  obtains (same) "withQualifiersFrom u p other = p"
  | (more) added rest where "withQualifiersFrom u p other = head_part p @ CHR ''?'' # strings_join ''&'' (qualifiers p @ added) @ rest"
      "rest = (case subpath p of None \<Rightarrow> [] | Some end' \<Rightarrow> CHR ''#'' # end')" "added \<noteq> []" "trim_space p \<noteq> []"
      "added = taken u (split_on CHR ''&'' (snd (before_byte CHR ''?'' (fst (before_byte CHR ''#'' other))))) (map (pair_key u) (qualifiers p))"
      "cut_first CHR ''?'' (fst (before_byte CHR ''#'' other)) \<noteq> None"
proof (cases "withQualifiersFrom u p other = p")
  case False
  then obtain x offered where o': "cut_first CHR ''?'' (fst (before_byte CHR ''#'' other)) = Some (x, offered)" "offered \<noteq> []" "trim_space p \<noteq> []"
    by (auto simp: withQualifiersFrom_def split: if_splits option.splits)
  let ?added = "taken u (split_on CHR ''&'' offered) (map (pair_key u) (qualifiers p))"
  let ?rest = "case subpath p of None \<Rightarrow> [] | Some end' \<Rightarrow> CHR ''#'' # end'"
  have w: "withQualifiersFrom u p other = (if ?added = [] then p else head_part p @ CHR ''?'' # strings_join ''&'' (qualifiers p @ ?added) @ ?rest)"
    unfolding withQualifiersFrom_offered [OF o'] Let_def ..
  then have "?added \<noteq> []" using False by auto
  then show ?thesis using w o' by (intro more [of ?added ?rest]) (auto simp: before_byte_def)
qed (rule same)

lemma taken_sub: "set (taken u ps ks) \<subseteq> {p \<in> set ps. \<exists>k v. cut_first CHR ''='' p = Some (k, v) \<and> k \<noteq> [] \<and> v \<noteq> []}"
  by (induction ps arbitrary: ks) (auto split: option.splits)

lemma taken_key: "cut_first CHR ''='' p = Some (k, v) \<Longrightarrow> pair_key u p = to_lower u k"
  by (simp add: pair_key_def before_byte_def)

lemma taken_new: "p \<in> set (taken u ps ks) \<Longrightarrow> pair_key u p \<notin> set ks"
proof (induction ps arbitrary: ks)
  case (Cons q ps)
  then show ?case by (auto simp: taken_key split: option.splits if_splits dest!: Cons.IH)
qed simp

lemma taken_all:
  "p \<in> set ps \<Longrightarrow> cut_first CHR ''='' p = Some (k, v) \<Longrightarrow> k \<noteq> [] \<Longrightarrow> v \<noteq> []
    \<Longrightarrow> to_lower u k \<in> set ks \<union> pair_key u ` set (taken u ps ks)"
proof (induction ps arbitrary: ks)
  case (Cons q ps)
  show ?case
  proof (cases "cut_first CHR ''='' q")
    case None
    then show ?thesis using Cons by auto
  next
    case (Some e)
    obtain l w where e: "e = (l, w)" by fastforce
    show ?thesis
    proof (cases "l = [] \<or> w = [] \<or> to_lower u l \<in> set ks")
      case True
      then show ?thesis using Cons Some e by auto
    next
      case False
      then have t: "taken u (q # ps) ks = q # taken u ps (to_lower u l # ks)" using Some e by simp
      show ?thesis
      proof (cases "p = q")
        case True
        then show ?thesis using Cons.prems(2) t by (simp add: taken_key)
      next
        case False
        then have "to_lower u k \<in> set (to_lower u l # ks) \<union> pair_key u ` set (taken u ps (to_lower u l # ks))"
          using Cons.IH [of "to_lower u l # ks"] Cons.prems False by auto
        then show ?thesis unfolding t using Some e by (auto simp: taken_key)
      qed
    qed
  qed
qed simp

lemma taken_distinct: "distinct (map (pair_key u) (taken u ps ks))"
proof (induction ps arbitrary: ks)
  case (Cons q ps)
  have "pair_key u q \<notin> pair_key u ` set (taken u ps (pair_key u q # ks))" using taken_new [of _ u ps "pair_key u q # ks"] by force
  then show ?case using Cons.IH by (auto simp: taken_key split: option.splits)
qed simp

lemma taken_nothing:
  "(\<And>p k v. p \<in> set ps \<Longrightarrow> cut_first CHR ''='' p = Some (k, v) \<Longrightarrow> k \<noteq> [] \<Longrightarrow> v \<noteq> [] \<Longrightarrow> to_lower u k \<in> set ks) \<Longrightarrow> taken u ps ks = []"
  by (induction ps) (auto split: option.splits)

lemma split_on_sub: "p \<in> set (split_on c s) \<Longrightarrow> set p \<subseteq> set s - {c}"
proof (induction s arbitrary: p)
  case (Cons x s)
  show ?case
  proof (cases "x = c")
    case True
    then show ?thesis using Cons by auto
  next
    case False
    obtain q qs where q: "split_on c s = q # qs" by (cases "split_on c s") auto
    then have "p = x # q \<or> p \<in> set qs" using Cons.prems False by auto
    then show ?thesis using Cons.IH [of q] Cons.IH [of p] q False by auto
  qed
qed simp

lemma join_set: "set (strings_join sep ps) \<subseteq> set sep \<union> \<Union> (set ` set ps)"
  by (induction sep ps rule: strings_join.induct) auto

text \<open>The qualifiers of what is written again.\<close>

lemma qualifiers_free: "q \<in> set (qualifiers p) \<Longrightarrow> q \<noteq> [] \<and> CHR ''&'' \<notin> set q \<and> CHR ''#'' \<notin> set q"
  using split_on_sub [of q "CHR ''&''" "snd (before_byte CHR ''?'' (fst (before_byte CHR ''#'' p)))"]
    before_byte_sub(2) [of "CHR ''?''" "fst (before_byte CHR ''#'' p)"] before_byte_free [of "CHR ''#''" p]
  by (auto simp: qualifiers_def)

lemma taken_free:
  assumes "q \<in> set (taken u (split_on CHR ''&'' (snd (before_byte CHR ''?'' (fst (before_byte CHR ''#'' other))))) ks)"
  shows "q \<in> set (qualifiers other)"
proof -
  have "q \<noteq> []" using taken_sub assms by force
  then show ?thesis using taken_sub [of u _ ks] assms by (auto simp: qualifiers_def)
qed

lemma written_parts:
  assumes free: "\<And>q. q \<in> set qs \<Longrightarrow> q \<noteq> [] \<and> CHR ''&'' \<notin> set q \<and> CHR ''#'' \<notin> set q" and qs: "qs \<noteq> []"
    and head: "\<And>c. c \<in> set ''?#'' \<Longrightarrow> c \<notin> set x" and rest: "rest = (case end of None \<Rightarrow> [] | Some r \<Rightarrow> CHR ''#'' # r)"
  shows "head_part (x @ CHR ''?'' # strings_join ''&'' qs @ rest) = x"
    and "qualifiers (x @ CHR ''?'' # strings_join ''&'' qs @ rest) = qs"
    and "subpath (x @ CHR ''?'' # strings_join ''&'' qs @ rest) = end"
proof -
  let ?b = "x @ CHR ''?'' # strings_join ''&'' qs"
  have "CHR ''#'' \<notin> set (strings_join ''&'' qs)" using join_set [of "''&''" qs] free by fastforce
  then have nohash: "CHR ''#'' \<notin> set ?b" using head by simp
  have cut: "cut_first CHR ''#'' (?b @ rest) = map_option (Pair ?b) end"
  proof (cases "end")
    case None
    then show ?thesis using cut_first_None [of "CHR ''#''" ?b] nohash rest by simp
  next
    case (Some r)
    have "CHR ''#'' \<notin> set y \<Longrightarrow> cut_first CHR ''#'' (y @ CHR ''#'' # r) = Some (y, r)" for y by (induction y) auto
    from this [OF nohash] show ?thesis using Some rest by simp
  qed
  show "subpath (x @ CHR ''?'' # strings_join ''&'' qs @ rest) = end"
    using cut by (cases "end") (simp_all add: subpath_def)
  have "fst (before_byte CHR ''#'' (?b @ rest)) = ?b"
    using cut rest by (cases "end") (simp_all add: before_byte_def)
  then have hash: "fst (before_byte CHR ''#'' (x @ CHR ''?'' # strings_join ''&'' qs @ rest)) = ?b" by simp
  have "CHR ''?'' \<notin> set x" using head by simp
  then have q: "before_byte CHR ''?'' ?b = (x, strings_join ''&'' qs)" by (rule before_byte_at)
  show "head_part (x @ CHR ''?'' # strings_join ''&'' qs @ rest) = x" unfolding head_part_def hash q by simp
  have "split_on CHR ''&'' (strings_join ''&'' qs) = qs"
    using qs free by (intro split_on_join) (auto simp: list_all_iff)
  then show "qualifiers (x @ CHR ''?'' # strings_join ''&'' qs @ rest) = qs"
    unfolding qualifiers_def hash q using free by simp
qed


subsection \<open>What filling in keeps\<close>

text \<open>An identifier nothing would be trimmed off before its qualifiers.\<close>

definition closed_text :: "string \<Rightarrow> bool" where
  "closed_text p \<longleftrightarrow> trim_space p = p \<or> CHR ''?'' \<in> set p \<or> CHR ''#'' \<in> set p"

lemma filled_canonical:
  assumes "closed_text p"
  shows "canonicalPurl u (withQualifiersFrom u p other) = canonicalPurl u p" and "closed_text (withQualifiersFrom u p other)"
proof -
  have "canonicalPurl u (withQualifiersFrom u p other) = canonicalPurl u p \<and> closed_text (withQualifiersFrom u p other)"
  proof (cases rule: filled_shape [of u p other])
    case same
    then show ?thesis using assms by simp
  next
    case (more added rest)
    have free: "\<forall>c \<in> set ''?#''. c \<notin> set (head_part p)" using head_free by blast
    have "canonicalPurl u (withQualifiersFrom u p other) = canonicalPurl u p"
    proof (cases rule: head_shape [of p])
      case whole
      have "CHR ''?'' \<notin> set (head_part p)" "CHR ''#'' \<notin> set (head_part p)" using free by simp_all
      then have "CHR ''?'' \<notin> set p" "CHR ''#'' \<notin> set p" unfolding whole [symmetric] .
      then have t: "trim_space p = p" using assms by (simp add: closed_text_def)
      have "before_any ''?#'' (p @ CHR ''?'' # z) = p" "before_any ''?#'' p = p" for z
        using \<open>CHR ''?'' \<notin> set p\<close> \<open>CHR ''#'' \<notin> set p\<close> by (induction p) (auto simp: before_any_def)
      then show ?thesis
        unfolding more(1) whole [symmetric] canonicalPurl_def
        using trim_space_before [of "CHR ''?''" p] trim_left_trimmed [OF t] t more(4) by (simp add: Let_def)
    next
      case (cut c y)
      have "canonicalPurl u (head_part p @ CHR ''?'' # strings_join ''&'' (qualifiers p @ added) @ rest) = canonicalPurl u (head_part p @ c # y)"
        using cut(1) free by (intro canonical_cut) simp_all
      then show ?thesis using more(1) cut(2) by simp
    qed
    then show ?thesis using more(1) by (simp add: closed_text_def)
  qed
  then show "canonicalPurl u (withQualifiersFrom u p other) = canonicalPurl u p" and "closed_text (withQualifiersFrom u p other)" by blast+
qed

text \<open>A qualifier with a key and a value, which is what may be taken.\<close>

definition says_a_value :: "string \<Rightarrow> bool" where
  "says_a_value q \<longleftrightarrow> (case cut_first CHR ''='' q of None \<Rightarrow> False | Some (k, v) \<Rightarrow> k \<noteq> [] \<and> v \<noteq> [])"

lemma filled_qualifiers:
  obtains added where "qualifiers (withQualifiersFrom u p other) = qualifiers p @ added"
    "set added \<subseteq> {q \<in> set (qualifiers other). says_a_value q}" "distinct (map (pair_key u) added)"
    "pair_key u ` set added \<inter> pair_key u ` set (qualifiers p) = {}"
    "trim_space p \<noteq> [] \<Longrightarrow> pair_key u ` {q \<in> set (qualifiers other). says_a_value q}
      \<subseteq> pair_key u ` set (qualifiers p) \<union> pair_key u ` set added"
    "head_part (withQualifiersFrom u p other) = head_part p" "subpath (withQualifiersFrom u p other) = subpath p"
proof -
  let ?f = "withQualifiersFrom u p other"
  let ?offered = "split_on CHR ''&'' (snd (before_byte CHR ''?'' (fst (before_byte CHR ''#'' other))))"
  let ?added = "taken u ?offered (map (pair_key u) (qualifiers p))"
  have sub: "set ?added \<subseteq> {q \<in> set (qualifiers other). says_a_value q}"
    using taken_free taken_sub [of u ?offered] by (fastforce simp: says_a_value_def)
  have new: "pair_key u ` set ?added \<inter> pair_key u ` set (qualifiers p) = {}"
    using taken_new by fastforce
  have all: "pair_key u ` {q \<in> set (qualifiers other). says_a_value q} \<subseteq> pair_key u ` set (qualifiers p) \<union> pair_key u ` set ?added"
  proof
    fix x assume "x \<in> pair_key u ` {q \<in> set (qualifiers other). says_a_value q}"
    then obtain q k v where q: "q \<in> set ?offered" "x = pair_key u q" "cut_first CHR ''='' q = Some (k, v)" "k \<noteq> []" "v \<noteq> []"
      by (auto simp: qualifiers_def says_a_value_def split: option.splits)
    from taken_all [OF q(1,3-5), of u "map (pair_key u) (qualifiers p)"]
    show "x \<in> pair_key u ` set (qualifiers p) \<union> pair_key u ` set ?added" using q(2) taken_key [OF q(3), of u] by auto
  qed
  show ?thesis
  proof (cases rule: filled_shape [of u p other])
    case same
    have "trim_space p \<noteq> [] \<Longrightarrow> ?added = []"
    proof (rule ccontr)
      assume p: "trim_space p \<noteq> []" and added: "?added \<noteq> []"
      then obtain q where "q \<in> set (qualifiers other)" using sub by (cases ?added) auto
      then have "snd (before_byte CHR ''?'' (fst (before_byte CHR ''#'' other))) \<noteq> []" by (auto simp: qualifiers_def)
      then obtain x offered where "cut_first CHR ''?'' (fst (before_byte CHR ''#'' other)) = Some (x, offered)" "offered \<noteq> []"
        by (auto simp: before_byte_def split: option.splits)
      note o' = this
      have off: "snd (before_byte CHR ''?'' (fst (before_byte CHR ''#'' other))) = offered" using o' by (simp add: before_byte_def)
      have f: "?f = head_part p @ CHR ''?'' # strings_join ''&'' (qualifiers p @ ?added)
          @ (case subpath p of None \<Rightarrow> [] | Some r \<Rightarrow> CHR ''#'' # r)"
        using withQualifiersFrom_offered [OF o' p, of u] added unfolding off Let_def by simp
      from written_parts(2) [OF _ _ _ refl, of "qualifiers p @ ?added" "head_part p" "subpath p"]
      have "qualifiers ?f = qualifiers p @ ?added" unfolding f using added sub qualifiers_free head_free by auto
      then show False using same added by simp
    qed
    then have none: "trim_space p \<noteq> [] \<Longrightarrow> pair_key u ` {q \<in> set (qualifiers other). says_a_value q} \<subseteq> pair_key u ` set (qualifiers p)"
      using all by simp
    show ?thesis by (rule that [of "[]"]) (use same none in simp_all)
  next
    case (more added rest)
    have added: "added = ?added" by (rule more(5))
    note parts = written_parts [OF _ _ _ more(2), of "qualifiers p @ added" "head_part p", folded more(1)]
    have free: "\<And>q. q \<in> set (qualifiers p @ added) \<Longrightarrow> q \<noteq> [] \<and> CHR ''&'' \<notin> set q \<and> CHR ''#'' \<notin> set q" "qualifiers p @ added \<noteq> []"
      using sub qualifiers_free more(3) unfolding added by auto
    show ?thesis
      using that [of added, OF _ sub [folded added] taken_distinct [of u ?offered "map (pair_key u) (qualifiers p)", folded added] new [folded added] all [folded added]]
        parts(1) [OF free] parts(2) [OF free] parts(3) [OF free] head_free by blast
  qed
qed

lemma filled_twice: "withQualifiersFrom u (withQualifiersFrom u p other) other = withQualifiersFrom u p other"
proof (cases rule: filled_shape [of u p other])
  case same
  then show ?thesis by simp
next
  case (more added rest)
  let ?f = "withQualifiersFrom u p other"
  let ?offered = "split_on CHR ''&'' (snd (before_byte CHR ''?'' (fst (before_byte CHR ''#'' other))))"
  have sub: "set added \<subseteq> set (qualifiers other)" using taken_free unfolding more(5) by blast
  have q: "qualifiers ?f = qualifiers p @ added"
    unfolding more(1) using more(3) sub qualifiers_free head_free by (intro written_parts(2) [OF _ _ _ more(2)]) auto
  have none: "taken u ?offered (map (pair_key u) (qualifiers ?f)) = []"
  proof (rule taken_nothing)
    fix r k v assume "r \<in> set ?offered" "cut_first CHR ''='' r = Some (k, v)" "k \<noteq> []" "v \<noteq> []"
    from taken_all [OF this, of u "map (pair_key u) (qualifiers p)"]
    show "to_lower u k \<in> set (map (pair_key u) (qualifiers ?f))" unfolding q more(5) [symmetric] by auto
  qed
  show ?thesis
  proof (cases rule: filled_shape [of u ?f other])
    case (more added' rest')
    then show ?thesis using none by simp
  qed
qed


lemma FillFrom_fields:
  "d_Purl (FillFrom u d other) = withQualifiersFrom u (d_Purl d) (d_Purl other)"
  "d_CPE (FillFrom u d other) = blank_or (d_CPE d) (d_CPE other)"
  "d_Name (FillFrom u d other) = d_Name d"
  "d_Version (FillFrom u d other) = blank_or (d_Version d) (d_Version other)"
  "d_License (FillFrom u d other) = blank_or (d_License d) (d_License other)"
  "d_Repository (FillFrom u d other) = blank_or (d_Repository d) (d_Repository other)"
  "d_Supplier (FillFrom u d other) = d_Supplier d"
  "d_UpstreamName (FillFrom u d other) = blank_or (d_UpstreamName d) (d_UpstreamName other)"
  by (simp_all add: FillFrom_def Let_def blank_or_def)

lemma blank_or_twice: "blank_or (blank_or s t) t = blank_or s t" "blank_or s t = s \<or> s = []"
  by (auto simp: blank_or_def)

lemma FillFrom_more:
  "d_UpstreamVersion (FillFrom u d other) =
     (if d_UpstreamName d = [] then d_UpstreamVersion other
      else if d_UpstreamVersion d = [] \<and> d_UpstreamName d = d_UpstreamName other then d_UpstreamVersion other
      else d_UpstreamVersion d)"
  "d_Container (FillFrom u d other) \<longleftrightarrow> d_Container d \<or> d_Container other"
  "Described.more (FillFrom u d other) = Described.more d"
  by (simp_all add: FillFrom_def Let_def)

lemma FillFrom_twice: "FillFrom u (FillFrom u d other) other = FillFrom u d other"
proof -
  let ?f = "FillFrom u d other"
  have "d_UpstreamVersion (FillFrom u ?f other) = d_UpstreamVersion ?f"
    unfolding FillFrom_more FillFrom_fields blank_or_def by simp
  then show ?thesis
    by (intro Described.equality) (simp_all only: FillFrom_fields filled_twice blank_or_twice(1) FillFrom_more(2,3) disj_assoc disj_absorb)
qed

lemma withQualifiersFrom_blank: "trim_space p = [] \<Longrightarrow> withQualifiersFrom u p other = p"
  by (simp add: withQualifiersFrom_def)


definition small_stated :: Described where
  "small_stated = nothing_described\<lparr>d_Purl := ''pkg:deb/a@1?arch=x#s'', d_Version := ''1''\<rparr>"

definition small_other :: Described where
  "small_other = nothing_described\<lparr>d_Purl := ''pkg:deb/a@1?Arch=y&distro=d'', d_CPE := ''c''\<rparr>"

lemma small_filled: "d_Purl (FillFrom ascii small_stated small_other) = ''pkg:deb/a@1?arch=x&distro=d#s''"
  by code_simp



subsection \<open>What the scanner is given\<close>

lemma filled_from_keeps:
  assumes "closed_text (d_Purl d)"
  shows "canonicalPurl u (d_Purl (filled_from u os d)) = canonicalPurl u (d_Purl d)"
    and "d_Name (filled_from u os d) = d_Name d"
    and "d_CPE (filled_from u os d) = d_CPE d \<or> d_CPE d = []"
    and "d_UpstreamName (filled_from u os d) = d_UpstreamName d \<or> d_UpstreamName d = []"
    and "\<exists>added. qualifiers (d_Purl (filled_from u os d)) = qualifiers (d_Purl d) @ added"
proof -
  have "canonicalPurl u (d_Purl (filled_from u os d)) = canonicalPurl u (d_Purl d) \<and> d_Name (filled_from u os d) = d_Name d
    \<and> (d_CPE (filled_from u os d) = d_CPE d \<or> d_CPE d = [])
    \<and> (d_UpstreamName (filled_from u os d) = d_UpstreamName d \<or> d_UpstreamName d = [])
    \<and> (\<exists>added. qualifiers (d_Purl (filled_from u os d)) = qualifiers (d_Purl d) @ added)"
    using assms
  proof (induction os arbitrary: d)
    case (Cons other os)
    let ?d = "FillFrom u d other"
    have step: "filled_from u (other # os) d = filled_from u os ?d" by (simp add: filled_from_def)
    have c: "closed_text (d_Purl ?d)" and p: "canonicalPurl u (d_Purl ?d) = canonicalPurl u (d_Purl d)"
      using filled_canonical [OF Cons.prems] by (simp_all add: FillFrom_fields)
    obtain added where "qualifiers (d_Purl ?d) = qualifiers (d_Purl d) @ added"
      unfolding FillFrom_fields by (rule filled_qualifiers)
    then show ?case using Cons.IH [OF c] p unfolding step by (auto simp: FillFrom_fields blank_or_def split: if_splits)
  qed (simp add: filled_from_def)
  then show "canonicalPurl u (d_Purl (filled_from u os d)) = canonicalPurl u (d_Purl d)"
    "d_Name (filled_from u os d) = d_Name d" "d_CPE (filled_from u os d) = d_CPE d \<or> d_CPE d = []"
    "d_UpstreamName (filled_from u os d) = d_UpstreamName d \<or> d_UpstreamName d = []"
    "\<exists>added. qualifiers (d_Purl (filled_from u os d)) = qualifiers (d_Purl d) @ added" by blast+
qed

lemma wanted_trimmed: "map_of (wanted_nodes g ids snap) x = Some says \<Longrightarrow> closed_text (said_purl says)"
  by (auto simp: wanted_nodes_map root_stated_def stated_of_def closed_text_def split: if_splits)

lemma graphed_trimmed: "graphed h t \<Longrightarrow> n \<in> set (stored (nodes t)) \<Longrightarrow> closed_text (n_Purl n)"
proof (induction arbitrary: n rule: graphed.induct)
  case nothing
  then show ?case by (simp add: empty_graph_def)
next
  case (another h t g s b snap a t')
  have t: "graph_ok t" using graphed_invariant [OF another.hyps(1)] by blast
  obtain c where "applied_by g b s snap t c a t'" using ApplyWithin_steps [OF another.hyps(2) t another.hyps(5)] .
  then have r: "good_call g b s snap t c a t'" using another.hyps(2) t by (simp add: good_call_def)
  let ?w = "wanted_nodes g (gc_ids c) snap"
  note nr = good_callD(4) [OF r]
  from another.prems reconcileNodes_table(1) [OF graph_okD(2) [OF t] nodes_reconciledD(5) [OF nr]]
  consider m where "m \<in> set (stored (nodes t))" "n = node_after b s ?w m"
    | "n \<in> set (numbering put_node (next_id (nodes t)) (missing_nodes g b s ?w (nodes t)))" by auto
  then show ?case
  proof cases
    case 1
    then show ?thesis using another.IH [of m] wanted_trimmed [of g "gc_ids c" snap "n_ComponentID m"]
      by (auto simp: node_after_def node_saying_def restate_def close_node_def split: option.splits)
  next
    case 2
    from numbering_from [OF 2] obtain i m where m: "m \<in> set (missing_nodes g b s ?w (nodes t))" "n = put_node i m" by auto
    then obtain e where e: "e \<in> set (visit_nodes g ?w)" "m = new_node b s e" by (auto simp: missing_nodes_def)
    then have "map_of ?w (fst e) = Some (snd e)"
      using visits_nodes(3) [OF another.hyps(2) wanted_nodes_distinct] wanted_nodes_distinct by simp
    then show ?thesis using wanted_trimmed e(2) m(2) by (auto simp: new_node_def put_node_def split: prod.splits)
  qed
qed

lemma one_catalog_row:
  assumes t: "graph_ok t" and n: "n \<in> set (stored (nodes t))"
  obtains r where "component_row_of t n = [r]" "r \<in> set (stored (interned t))" "Identity r = component_named (interned t) (n_ComponentID n)"
proof -
  from graph_okD(8) [OF t n] obtain r where r: "r \<in> set (stored (interned t))" "c_ID r = n_ComponentID n"
    by (auto simp: component_ids_def)
  have "filter (\<lambda>x. True \<and> c_ID x = c_ID r) (stored (interned t)) = (if True then [r] else [])"
    using graph_okD(1) [OF t] r(1) by (intro filter_one) (simp_all add: catalog_ok_def numbers_def)
  then have "component_row_of t n = [r]" using r(2) by (simp add: component_row_of_def)
  then show ?thesis using that r component_named_row [OF graph_okD(1) [OF t] r(1)] by simp
qed

lemma set_by_opening [simp]: "set (by_opening ns) = set ns"
  by (simp add: by_opening_def)

lemma by_opening_empty [simp]: "by_opening ns = [] \<longleftrightarrow> ns = []"
  by (metis set_by_opening set_empty)

lemma filter_by_opening: "filter P (by_opening ns) = by_opening (filter P ns)"
  by (simp add: by_opening_def filter_sort)

subsection \<open>Maps filled in batch by batch\<close>

lemma appended_at:
  "at_key (fold (\<lambda>n. append_at (k n) (f n)) ns out) i = at_key out i @ map f (filter (\<lambda>n. k n = i) ns)"
  by (induction ns arbitrary: out) (auto simp: at_key_append)

lemma in_batch: "filter (\<lambda>n. k n = i) (by_opening (filter (\<lambda>n. P n \<and> k n \<in> B) ns))
    = (if i \<in> B then by_opening (filter (\<lambda>n. P n \<and> k n = i) ns) else [])"
proof -
  have "filter (\<lambda>n. k n = i) (filter (\<lambda>n. P n \<and> k n \<in> B) ns) = (if i \<in> B then filter (\<lambda>n. P n \<and> k n = i) ns else [])"
    by (induction ns) auto
  then show ?thesis unfolding filter_by_opening by (simp split: if_splits)
qed

lemma statedInProduct_at:
  assumes "distinct ids"
  shows "at_key (statedInProduct t others ids) i = (if i \<in> set ids
    then map node_states (by_opening (filter (\<lambda>n. (n_BuildID n \<in> set others \<and> states_something n) \<and> n_ComponentID n = i) (stored (nodes t))))
    else [])"
proof -
  define rows where "rows b = by_opening (filter (\<lambda>n. (n_BuildID n \<in> set others \<and> states_something n) \<and> n_ComponentID n \<in> set b) (stored (nodes t)))"
    for b :: "int list"
  define its where "its = by_opening (filter (\<lambda>n. (n_BuildID n \<in> set others \<and> states_something n) \<and> n_ComponentID n = i) (stored (nodes t)))"
  have one: "filter (\<lambda>n. n_ComponentID n = i) (rows b) = (if i \<in> set b then its else [])" for b
    unfolding rows_def its_def by (rule in_batch)
  have all: "distinct (concat bs) \<Longrightarrow> at_key (fold (\<lambda>b out. fold (\<lambda>n. append_at (n_ComponentID n) (node_states n)) (rows b) out) bs out) i
      = at_key out i @ (if i \<in> set (concat bs) then map node_states its else [])" for bs out
    by (induction bs arbitrary: out) (auto simp: appended_at one)
  have c: "concat (batches_of BatchSize ids) = ids" by (rule concat_batches_of) (simp add: BatchSize_def)
  have "statedInProduct t others ids
      = fold (\<lambda>b out. fold (\<lambda>n. append_at (n_ComponentID n) (node_states n)) (rows b) out) (batches_of BatchSize ids) []"
    unfolding statedInProduct_def rows_def by (simp only: conj_ac)
  then show ?thesis using all [of "batches_of BatchSize ids" "[]"] assms unfolding c its_def [symmetric] by simp
qed

subsection \<open>The scanner's list\<close>

lemma held_now: "held_row t b Now = filter (\<lambda>n. \<not> n_IsRoot n) (filter (node_open b) (stored (nodes t)))"
  unfolding held_row_def filter_filter by (rule filter_cong) (auto simp: Held_def Now_def node_open_def)

lemma current_each:
  assumes t: "graph_ok t"
  shows "ComponentsAt u t others b m = map (\<lambda>n. filled_from u (at_key (statedInProduct t others (map n_ComponentID (held_row t b m))) (n_ComponentID n))
    ((node_states n)\<lparr>d_Name := c_Name (hd (component_row_of t n)), d_Version := c_Version (hd (component_row_of t n))\<rparr>)) (held_row t b m)"
proof -
  let ?said = "\<lambda>n. (node_states n)\<lparr>d_Name := c_Name (hd (component_row_of t n)), d_Version := c_Version (hd (component_row_of t n))\<rparr>"
  have one: "component_row_of t n = [hd (component_row_of t n)]" if n: "n \<in> set (held_row t b m)" for n
  proof -
    have "n \<in> set (stored (nodes t))" using n by (simp add: held_row_def)
    then obtain r where "component_row_of t n = [r]" by (rule one_catalog_row [OF t])
    then show ?thesis by simp
  qed
  have rows: "concat (map (\<lambda>n. map (\<lambda>r. (n_ComponentID n, (node_states n)\<lparr>d_Name := c_Name r, d_Version := c_Version r\<rparr>))
      (component_row_of t n)) ns) = map (\<lambda>n. (n_ComponentID n, ?said n)) ns" if "set ns \<subseteq> set (held_row t b m)" for ns
    using that
  proof (induction ns)
    case (Cons n ns)
    then have "map (\<lambda>r. (n_ComponentID n, (node_states n)\<lparr>d_Name := c_Name r, d_Version := c_Version r\<rparr>)) (component_row_of t n)
        = [(n_ComponentID n, ?said n)]" by (subst one) simp_all
    then show ?case using Cons by simp
  qed simp
  show ?thesis unfolding ComponentsAt_def rows [OF order_refl] by (simp add: comp_def)
qed

text \<open>What the other builds of the product state of a component, in the order their rows were opened in.\<close>

definition others_state :: "graph_tables \<Rightarrow> int list \<Rightarrow> string \<Rightarrow> Described list" where
  "others_state t others i = map node_states (by_opening (filter (\<lambda>n. n_BuildID n \<in> set others \<and> states_something n
     \<and> component_named (interned t) (n_ComponentID n) = i) (stored (nodes t))))"

text \<open>What a scan stated of a component, under the name and version its catalog row has.\<close>

definition stated_as :: "stated \<Rightarrow> Interned \<Rightarrow> Described" where
  "stated_as says r = nothing_described\<lparr>d_Purl := said_purl says, d_CPE := said_cpe says,
     d_UpstreamName := said_upstreamName says, d_UpstreamVersion := said_upstreamVersion says, d_Name := c_Name r, d_Version := c_Version r\<rparr>"

text \<open>
  What the scanner is given of one component of a snapshot: what the snapshot states of it, filled in from the
  other builds, which keeps the package, every qualifier and every identifier stated.
\<close>

definition given_as :: "letters \<Rightarrow> graph_tables \<Rightarrow> int list \<Rightarrow> graphing \<Rightarrow> Snapshot \<Rightarrow> Described \<Rightarrow> string \<Rightarrow> bool" where
  "given_as u t others g snap d i \<longleftrightarrow> (\<exists>says r. said_of g snap i = Some says \<and> r \<in> set (stored (interned t)) \<and> Identity r = i
     \<and> d = filled_from u (others_state t others i) (stated_as says r) \<and> d_Name d = c_Name r
     \<and> canonicalPurl u (d_Purl d) = canonicalPurl u (said_purl says)
     \<and> (\<exists>added. qualifiers (d_Purl d) = qualifiers (said_purl says) @ added)
     \<and> d_CPE d \<in> (if said_cpe says = [] then UNIV else {said_cpe says})
     \<and> d_UpstreamName d \<in> (if said_upstreamName says = [] then UNIV else {said_upstreamName says}))"

lemma given_each:
  assumes g: "graphed h t" and n: "n \<in> set (held_row t b Now)"
    and says: "said_of g snap (component_named (interned t) (n_ComponentID n)) = Some (says_of n)"
  shows "given_as u t others g snap (filled_from u (at_key (statedInProduct t others (map n_ComponentID (held_row t b Now))) (n_ComponentID n))
      ((node_states n)\<lparr>d_Name := c_Name (hd (component_row_of t n)), d_Version := c_Version (hd (component_row_of t n))\<rparr>))
    (component_named (interned t) (n_ComponentID n))"
proof -
  from graphed_invariant [OF g] have t: "graph_ok t" by blast
  let ?i = "component_named (interned t) (n_ComponentID n)"
  have stored: "n \<in> set (stored (nodes t))" using n by (simp add: held_row_def)
  obtain r where r: "component_row_of t n = [r]" "r \<in> set (stored (interned t))" "Identity r = ?i"
    by (rule one_catalog_row [OF t stored])
  have ids: "distinct (map n_ComponentID (held_row t b Now))"
    unfolding held_now using graph_okD(5) [OF t] by (rule distinct_map_filter)
  have "filter (\<lambda>m. (n_BuildID m \<in> set others \<and> states_something m) \<and> n_ComponentID m = n_ComponentID n) (stored (nodes t))
      = filter (\<lambda>m. n_BuildID m \<in> set others \<and> states_something m \<and> component_named (interned t) (n_ComponentID m) = ?i) (stored (nodes t))"
  proof (rule filter_cong [OF refl])
    fix m assume "m \<in> set (stored (nodes t))"
    then have "n_ComponentID m = n_ComponentID n \<longleftrightarrow> component_named (interned t) (n_ComponentID m) = ?i"
      using named_injective [OF graph_okD(1) [OF t] graph_okD(8) [OF t] graph_okD(8) [OF t stored]] by metis
    then show "((n_BuildID m \<in> set others \<and> states_something m) \<and> n_ComponentID m = n_ComponentID n)
        = (n_BuildID m \<in> set others \<and> states_something m \<and> component_named (interned t) (n_ComponentID m) = ?i)" by blast
  qed
  then have other: "at_key (statedInProduct t others (map n_ComponentID (held_row t b Now))) (n_ComponentID n) = others_state t others ?i"
    unfolding statedInProduct_at [OF ids] others_state_def using n by simp
  let ?said = "stated_as (says_of n) r"
  have said: "(node_states n)\<lparr>d_Name := c_Name r, d_Version := c_Version r\<rparr> = ?said"
    by (simp add: node_states_def stated_as_def says_of_def)
  have fields: "d_Purl ?said = said_purl (says_of n)" "d_CPE ?said = said_cpe (says_of n)" "d_Name ?said = c_Name r"
    "d_UpstreamName ?said = said_upstreamName (says_of n)" by (simp_all add: stated_as_def)
  have "closed_text (d_Purl ?said)" using graphed_trimmed [OF g stored] by (simp add: stated_as_def says_of_def)
  note keeps = filled_from_keeps [OF this, of u "others_state t others ?i", unfolded fields]
  show ?thesis
    unfolding given_as_def other r(1) list.sel said using says r(2,3) keeps
    by (intro exI [of _ "says_of n"] exI [of _ r]) auto
qed

text \<open>
  C21: The scanner is given, once each, every component of the last scan of a build but the product
  itself, and nothing else, whatever other builds have been told since: under the name its catalog row has, what
  that scan stated of it, filled in from the other builds of the product, which keeps the package, every
  qualifier and every identifier stated.
\<close>

theorem the_scanner_is_given_what_the_build_states:
  assumes "graphed (l @ (g, b, s, snap) # h) t" and "\<forall>e \<in> set l. scan_of_another b e"
  shows "\<exists>is. distinct is \<and> set is = said_components g snap - {identity_of g (AsRoot (Root snap))}
    \<and> list_all2 (given_as u t others g snap) (CurrentComponents u t others b) is"
proof (intro exI conjI)
  from graphed_invariant [OF assms(1)] have t: "graph_ok t" by blast
  note last = says_last [OF assms]
  let ?named = "\<lambda>n. component_named (interned t) (n_ComponentID n)"
  let ?is = "map ?named (held_row t b Now)"
  have root: "n_IsRoot n \<longleftrightarrow> ?named n = identity_of g (AsRoot (Root snap))" if "n \<in> set (filter (node_open b) (stored (nodes t)))" for n
  proof -
    have "said_of g snap (?named n) = Some (says_of n)" using last that by blast
    then show ?thesis by (auto simp: said_of_def root_stated_def stated_of_def says_of_def split: if_splits)
  qed
  have "distinct (map ?named (filter (node_open b) (stored (nodes t))))"
    using graph_okD(5) [OF t] by (rule distinct_map_on) (use node_names_apart [OF t] in blast)
  then show "distinct ?is" unfolding held_now by (rule distinct_map_filter)
  have "set ?is = ?named ` set (filter (node_open b) (stored (nodes t))) - {identity_of g (AsRoot (Root snap))}"
    unfolding held_now set_map using root by auto
  also have "?named ` set (filter (node_open b) (stored (nodes t))) = said_components g snap"
    using last now_components [of t b] by (simp add: Now_def image_image)
  finally show "set ?is = said_components g snap - {identity_of g (AsRoot (Root snap))}" .
  have "given_as u t others g snap (filled_from u (at_key (statedInProduct t others (map n_ComponentID (held_row t b Now))) (n_ComponentID n))
      ((node_states n)\<lparr>d_Name := c_Name (hd (component_row_of t n)), d_Version := c_Version (hd (component_row_of t n))\<rparr>)) (?named n)"
    if n: "n \<in> set (held_row t b Now)" for n
  proof (rule given_each [OF assms(1) n])
    have "n \<in> set (filter (node_open b) (stored (nodes t)))" using n by (simp add: held_now)
    then show "said_of g snap (?named n) = Some (says_of n)" using last by blast
  qed
  then show "list_all2 (given_as u t others g snap) (CurrentComponents u t others b) ?is"
    unfolding CurrentComponents_def current_each [OF t] by (simp add: list_all2_map1 list_all2_map2 list_all2_same)
qed

text \<open>Of the small builds: the library the second scan found is what a scanner is given.\<close>

lemma small_lib_stored:
  "map (identity_of small_graphing) [lib_b] = map (\<lambda>s. ''name'' @ [CHR 0x00, CHR ''1'', CHR 0x00] @ s) [''b2'']"
  "map d_CPE (map (asStored small_graphing second_snapshot) (Components second_snapshot)) = ['''', ''c'', '''']"
  "trim_space ''c'' = ''c''"
  by code_simp+

lemma small_lib_said:
  obtains says where "said_of small_graphing second_snapshot (identity_of small_graphing lib_b) = Some says"
    "\<not> isRoot says" "said_cpe says = ''c''" "identity_of small_graphing lib_b \<in> said_components small_graphing second_snapshot"
proof -
  obtain x y z where c: "Components second_snapshot = [x, y, z]" by (simp add: second_snapshot_def)
  let ?says = "stated_of small_graphing (asStored small_graphing second_snapshot y)"
  have "said_of small_graphing second_snapshot (identity_of small_graphing lib_b) = Some ?says"
    using small_identities(1,3) small_lib_stored(1) unfolding said_of_def c by simp
  moreover have "said_cpe ?says = ''c''" using small_lib_stored(2,3) unfolding c by (simp add: stated_of_def)
  moreover have "identity_of small_graphing lib_b \<in> said_components small_graphing second_snapshot"
    unfolding said_components_list small_identities(3) using small_lib_stored(1) by simp
  moreover have "\<not> isRoot ?says" by (simp add: stated_of_def)
  ultimately show ?thesis using that by blast
qed

lemma small_lib_held:
  assumes "graphed small_history t"
  shows "\<exists>n \<in> set (held_row t 3 Now). n_CPE n = ''c''"
proof -
  obtain t0 c a where r: "good_call small_graphing 3 2 second_snapshot t0 c a t" using latest_call [OF assms] by blast
  obtain says where says: "said_of small_graphing second_snapshot (identity_of small_graphing lib_b) = Some says"
    "\<not> isRoot says" "said_cpe says = ''c''" "identity_of small_graphing lib_b \<in> said_components small_graphing second_snapshot"
    by (rule small_lib_said)
  have "identity_of small_graphing lib_b \<in> components_at t 3 0" using call_components [OF r] says(4) by simp
  then obtain n where n: "n \<in> set (stored (nodes t))" "node_open 3 n"
      "component_named (interned t) (n_ComponentID n) = identity_of small_graphing lib_b"
    unfolding now_components by auto
  from call_says [OF r n(1,2)] n(3) have "says_of n = says" using says(1) by simp
  then have "\<not> n_IsRoot n" "n_CPE n = ''c''" using says(2,3) by (auto simp: says_of_def)
  then show ?thesis using n(1,2) by (auto simp: held_row_def Held_def Now_def node_open_def)
qed

lemma the_scanner_is_given_what_the_build_states_witness:
  "\<exists>t. graphed small_history t \<and> (\<exists>d \<in> set (CurrentComponents ascii t [] 3). d_CPE d = ''c'')"
proof -
  obtain t where t: "graphed small_history t" using small_graphed by blast
  obtain says where says: "said_of small_graphing second_snapshot (identity_of small_graphing lib_b) = Some says"
    "\<not> isRoot says" "said_cpe says = ''c''" "identity_of small_graphing lib_b \<in> said_components small_graphing second_snapshot"
    by (rule small_lib_said)
  then have apart: "identity_of small_graphing lib_b \<noteq> identity_of small_graphing (AsRoot (Root second_snapshot))"
    by (auto simp: said_of_def root_stated_def)
  obtain is' where "set is' = said_components small_graphing second_snapshot - {identity_of small_graphing (AsRoot (Root second_snapshot))}"
    "list_all2 (given_as ascii t [] small_graphing second_snapshot) (CurrentComponents ascii t [] 3) is'"
    using the_scanner_is_given_what_the_build_states [of "[]", unfolded append_Nil, OF t, where u = ascii and others = "[]"] by auto
  then obtain d where "d \<in> set (CurrentComponents ascii t [] 3)"
      "given_as ascii t [] small_graphing second_snapshot d (identity_of small_graphing lib_b)"
    using says(4) apart by (metis DiffI in_set_conv_nth list_all2_conv_all_nth singletonD)
  then have "d_CPE d = ''c''" using says(1,3) by (auto simp: given_as_def)
  then show ?thesis using t \<open>d \<in> set (CurrentComponents ascii t [] 3)\<close> by blast
qed

end
