(* ===== verification/Graph_Matched.thy ===== *)
theory Graph_Matched
  imports Graph_Stated
begin

section \<open>What a claim is matched against\<close>

text \<open>
  A claim is matched against what \<^verbatim>\<open>Stated\<close> of \<^verbatim>\<open>graph/snapshot.go\<close> reads of a build, which is the latest
  node of a component rather than the open one, and a scanner is given what \<^verbatim>\<open>CurrentComponents\<close> reads. The two
  say the same of every component a build holds. The code ranges over the answer in an order the language
  leaves open; what is proved is of each key of it.
\<close>

subsection \<open>The latest row of a component\<close>

text \<open>A row that is open was opened by a later scan than every other row of its component.\<close>

lemma open_node_latest:
  "graphed h t \<Longrightarrow> m \<in> set (stored (nodes t)) \<Longrightarrow> n \<in> set (stored (nodes t)) \<Longrightarrow> node_what m = node_what n
    \<Longrightarrow> n_ClosedScanID n = None \<Longrightarrow> n_ID m \<noteq> n_ID n \<Longrightarrow> n_OpenedScanID m < n_OpenedScanID n"
proof (induction arbitrary: m n rule: graphed.induct)
  case nothing
  then show ?case by (simp add: empty_graph_def)
next
  case (another h t g s b snap a t')
  from graphed_invariant [OF another.hyps(1)] have t: "graph_ok t" and rows: "rows_of h t" by blast+
  obtain c where "applied_by g b s snap t c a t'" using ApplyWithin_steps [OF another.hyps(2) t another.hyps(5)] .
  then have r: "good_call g b s snap t c a t'" using another.hyps(2) t by (simp add: good_call_def)
  have closed: "n_ClosedScanID m \<noteq> None"
  proof
    assume "n_ClosedScanID m = None"
    then have "m \<in> set (filter (node_open (n_BuildID n)) (stored (nodes t')))" "n \<in> set (filter (node_open (n_BuildID n)) (stored (nodes t')))"
      using another.prems by (auto simp: node_open_def node_what_def)
    then have "m = n"
      by (rule unique_row [OF graph_okD(5) [OF call_graph_ok [OF r]]]) (use another.prems(3) in \<open>simp add: node_what_def\<close>)
    then show False using another.prems(5) by simp
  qed
  note w = written_by_call(1) [OF r]
  from w another.prems(1) obtain m0 where m0: "m0 \<in> set (stored (nodes t))" "n_ID m = n_ID m0" "node_what m = node_what m0"
      "n_OpenedScanID m = n_OpenedScanID m0"
    using closed by (cases rule: node_rows.written_row) auto
  from w another.prems(2) show ?case
  proof (cases rule: node_rows.written_row)
    case (kept n0)
    then have "n_ClosedScanID n0 = None" using another.prems(4) by (auto split: if_splits)
    then show ?thesis using another.IH [of m0 n0] kept m0 another.prems(3,5) by simp
  next
    case (new i n0)
    then have "n_BuildID m0 = b" using call_builds(2) [OF r new(1)] another.prems(3) m0(3) by (simp add: node_what_def)
    then have "n_OpenedScanID m0 \<in> scans_of h b" using rows m0(1) by (auto simp: rows_of_def)
    then show ?thesis using another.hyps(4) m0(4) new(4) by simp
  qed
qed

lemma last_sorted: "x \<in> set xs \<Longrightarrow> f x \<le> f (last (sort_key f xs))"
proof -
  assume x: "x \<in> set xs"
  then have ne: "sort_key f xs \<noteq> []" by (metis empty_iff empty_set set_sort)
  have "sorted (map f (butlast (sort_key f xs) @ [last (sort_key f xs)]))"
    by (subst append_butlast_last_id [OF ne]) (rule sorted_sort_key)
  moreover have "x \<in> set (butlast (sort_key f xs) @ [last (sort_key f xs)])"
    by (subst append_butlast_last_id [OF ne]) (simp add: x)
  ultimately show ?thesis by (auto simp: sorted_append)
qed

lemma last_by_opening:
  assumes n: "n \<in> set ns" and later: "\<And>m. m \<in> set ns \<Longrightarrow> m \<noteq> n \<Longrightarrow> n_OpenedScanID m < n_OpenedScanID n"
  shows "last (by_opening ns) = n"
proof (rule ccontr)
  assume other: "last (by_opening ns) \<noteq> n"
  have "by_opening ns \<noteq> []" using n by auto
  then have "last (by_opening ns) \<in> set ns" using last_in_set set_by_opening by metis
  then have "n_OpenedScanID (last (by_opening ns)) < n_OpenedScanID n" using later other by blast
  moreover have "n_OpenedScanID n \<le> n_OpenedScanID (last (by_opening ns))"
    unfolding by_opening_def by (rule last_sorted) (use n in simp)
  ultimately show False by simp
qed


subsection \<open>The latest row of each component\<close>

text \<open>What is read of a build by component: the latest row, where there is one.\<close>

definition latest_stated :: "graph_tables \<Rightarrow> int \<Rightarrow> int list \<Rightarrow> (int \<times> Described) list" where
  "latest_stated t build ids = fold (\<lambda>b out. fold (\<lambda>n. AList.update (n_ComponentID n) (node_states n))
      (by_opening (filter (\<lambda>n. n_BuildID n = build \<and> n_ComponentID n \<in> set b) (stored (nodes t)))) out) (batches_of BatchSize ids) []"

definition rows_of_component :: "graph_tables \<Rightarrow> int \<Rightarrow> int \<Rightarrow> Node list" where
  "rows_of_component t build i = filter (\<lambda>n. n_BuildID n = build \<and> n_ComponentID n = i) (stored (nodes t))"

lemma updated_last:
  "map_of (fold (\<lambda>n. AList.update (k n) (f n)) ns out) i
    = (let rows = filter (\<lambda>n. k n = i) ns in if rows = [] then map_of out i else Some (f (last rows)))"
  by (induction ns arbitrary: out) (auto simp: map_of_update Let_def)

lemma latest_stated_map:
  "map_of (latest_stated t build ids) i = (if i \<in> set ids \<and> rows_of_component t build i \<noteq> []
    then Some (node_states (last (by_opening (rows_of_component t build i)))) else None)"
proof -
  let ?rows = "\<lambda>b. by_opening (filter (\<lambda>n. n_BuildID n = build \<and> n_ComponentID n \<in> set b) (stored (nodes t)))"
  have one: "filter (\<lambda>n. n_ComponentID n = i) (?rows b) = (if i \<in> set b then by_opening (rows_of_component t build i) else [])" for b
    unfolding rows_of_component_def by (rule in_batch)
  have all: "map_of (fold (\<lambda>b out. fold (\<lambda>n. AList.update (n_ComponentID n) (node_states n)) (?rows b) out) bs out) i
      = (if i \<in> set (concat bs) \<and> rows_of_component t build i \<noteq> []
         then Some (node_states (last (by_opening (rows_of_component t build i)))) else map_of out i)" for bs out
    by (induction bs arbitrary: out) (auto simp: updated_last one Let_def)
  have "concat (batches_of BatchSize ids) = ids" by (rule concat_batches_of) (simp add: BatchSize_def)
  then show ?thesis unfolding latest_stated_def all by simp
qed

lemma latest_stated_distinct: "distinct (map fst (latest_stated t build ids))"
proof -
  have one: "distinct (map fst out) \<Longrightarrow> distinct (map fst (fold (\<lambda>n. AList.update (n_ComponentID n) (node_states n)) ns out))" for ns out
    by (induction ns arbitrary: out) (auto simp: distinct_update)
  have "distinct (map fst out) \<Longrightarrow> distinct (map fst (fold (\<lambda>b out. fold (\<lambda>n. AList.update (n_ComponentID n) (node_states n)) (rows b) out) bs out))"
    for rows :: "int list \<Rightarrow> Node list" and bs and out :: "(int \<times> Described) list"
    by (induction bs arbitrary: out) (auto simp: one)
  then show ?thesis unfolding latest_stated_def by simp
qed

lemma map_of_each: "map_of (map (\<lambda>(i, x). (i, f i x)) ps) i = map_option (f i) (map_of ps i)"
  by (induction ps) auto

lemma Stated_map:
  "map_of (Stated u t others build ids) i
    = map_option (filled_from u (at_key (statedInProduct t others (map fst (latest_stated t build ids))) i))
        (map_of (latest_stated t build ids) i)"
proof -
  have "Stated u t others build ids = map (\<lambda>(i, said). (i, filled_from u
      (at_key (statedInProduct t others (map fst (latest_stated t build ids))) i) said)) (latest_stated t build ids)"
    by (simp add: Stated_def latest_stated_def Let_def)
  then show ?thesis by (simp add: map_of_each)
qed


subsection \<open>The name and the version\<close>

text \<open>A description without the name and the version, which are the catalog's and not what a build stated.\<close>

definition unnamed :: "Described \<Rightarrow> Described" where
  "unnamed d = d\<lparr>d_Name := [], d_Version := []\<rparr>"

lemma unnamed_fill: "d_Version other = [] \<Longrightarrow> unnamed (FillFrom u d other) = FillFrom u (unnamed d) other"
  by (rule Described.equality) (simp_all add: unnamed_def FillFrom_fields FillFrom_more blank_or_def)

lemma unnamed_filled:
  "(\<And>other. other \<in> set os \<Longrightarrow> d_Version other = []) \<Longrightarrow> unnamed (filled_from u os d) = filled_from u os (unnamed d)"
proof (induction os arbitrary: d)
  case (Cons other os)
  then show ?case using Cons.IH [of "FillFrom u d other"] by (simp add: filled_from_def unnamed_fill)
qed (simp add: filled_from_def)

lemma node_states_unversioned [simp]: "d_Version (node_states n) = []" "unnamed (node_states n) = node_states n"
  "unnamed ((node_states n)\<lparr>d_Name := x, d_Version := y\<rparr>) = node_states n"
  by (simp_all add: node_states_def unnamed_def nothing_described_def)


subsection \<open>The two readings agree\<close>

text \<open>
  C20: What a claim is matched against is what the scanner was given: asked for the components a
  build holds, the latest statement of each, filled in from the other builds, is the description the
  scanner got but for the name and version; and a component is absent exactly where it was not asked
  for or the build never held it.
\<close>

theorem a_claim_is_matched_against_what_was_scanned:
  assumes "graphed h t" and "n_ComponentID ` set (held_row t b Now) \<subseteq> set ids"
  shows "map (\<lambda>n. map_of (Stated u t others b ids) (n_ComponentID n)) (held_row t b Now)
      = map (\<lambda>d. Some (unnamed d)) (CurrentComponents u t others b)
    \<and> (map_of (Stated u t others b ids) i = None
        \<longleftrightarrow> i \<notin> set ids \<or> (b, i) \<notin> node_what ` set (stored (nodes t)))"
proof (intro conjI)
  from graphed_invariant [OF assms(1)] have t: "graph_ok t" by blast
  have ids: "distinct (map n_ComponentID (held_row t b Now))"
    unfolding held_now using graph_okD(5) [OF t] by (rule distinct_map_filter)
  have "map_of (Stated u t others b ids) (n_ComponentID n)
      = Some (unnamed (filled_from u (at_key (statedInProduct t others (map n_ComponentID (held_row t b Now))) (n_ComponentID n))
          ((node_states n)\<lparr>d_Name := x, d_Version := y\<rparr>)))" if n: "n \<in> set (held_row t b Now)" for n x y
  proof -
    let ?i = "n_ComponentID n"
    have mem: "n \<in> set (rows_of_component t b ?i)" and open_n: "n_ClosedScanID n = None"
      using n unfolding held_now by (simp_all add: rows_of_component_def node_open_def)
    have "last (by_opening (rows_of_component t b ?i)) = n"
    proof (rule last_by_opening [OF mem])
      fix m assume m: "m \<in> set (rows_of_component t b ?i)" "m \<noteq> n"
      have "distinct (map n_ID (stored (nodes t)))" using graph_okD(2) [OF t] by (simp add: numbers_def)
      then have "n_ID m \<noteq> n_ID n" using m mem unique_row [of n_ID "stored (nodes t)" m n] by (auto simp: rows_of_component_def)
      then show "n_OpenedScanID m < n_OpenedScanID n"
        using m mem open_n by (intro open_node_latest [OF assms(1)]) (auto simp: rows_of_component_def node_what_def)
    qed
    then have at: "map_of (latest_stated t b ids) ?i = Some (node_states n)"
      unfolding latest_stated_map using assms(2) n mem by auto
    then have "?i \<in> set (map fst (latest_stated t b ids))" by (metis map_of_eq_None_iff option.distinct(1) set_map)
    moreover have "?i \<in> set (map n_ComponentID (held_row t b Now))" using n by simp
    ultimately have other: "at_key (statedInProduct t others (map fst (latest_stated t b ids))) ?i
        = at_key (statedInProduct t others (map n_ComponentID (held_row t b Now))) ?i"
      by (simp only: statedInProduct_at [OF latest_stated_distinct] statedInProduct_at [OF ids] if_True)
    have "d_Version o' = []" if "o' \<in> set (at_key (statedInProduct t others (map n_ComponentID (held_row t b Now))) ?i)" for o'
      using that by (auto simp: statedInProduct_at [OF ids] split: if_splits)
    then show ?thesis unfolding Stated_map at other option.map(2) by (simp add: unnamed_filled)
  qed
  then show "map (\<lambda>n. map_of (Stated u t others b ids) (n_ComponentID n)) (held_row t b Now)
      = map (\<lambda>d. Some (unnamed d)) (CurrentComponents u t others b)"
    unfolding CurrentComponents_def current_each [OF t] by simp
  show "map_of (Stated u t others b ids) i = None \<longleftrightarrow> i \<notin> set ids \<or> (b, i) \<notin> node_what ` set (stored (nodes t))"
    unfolding Stated_map option.map_disc_iff latest_stated_map
    by (auto simp: rows_of_component_def node_what_def filter_empty_conv image_iff)
qed

lemma a_claim_is_matched_against_what_was_scanned_witness:
  "\<exists>t said. graphed small_history t \<and> CurrentComponents ascii t [3] 3 \<noteq> []
    \<and> map said (held_row t 3 Now) = map (\<lambda>d. Some (unnamed d)) (CurrentComponents ascii t [3] 3)"
proof -
  obtain t where t: "graphed small_history t" using small_graphed by blast
  let ?ids = "map n_ComponentID (held_row t 3 Now)"
  let ?said = "\<lambda>n. map_of (Stated ascii t [3] 3 ?ids) (n_ComponentID n)"
  have agree: "map ?said (held_row t 3 Now) = map (\<lambda>d. Some (unnamed d)) (CurrentComponents ascii t [3] 3)"
    using a_claim_is_matched_against_what_was_scanned [OF t, of 3 ?ids ascii "[3]" 0] by simp
  have "held_row t 3 Now \<noteq> []" using small_lib_held [OF t] by auto
  then have "CurrentComponents ascii t [3] 3 \<noteq> []" using agree by (metis list.map_disc_iff)
  then show ?thesis using t agree by blast
qed

end
