(* ===== verification/Spec2Isabelle.thy ===== *)
theory Spec2Isabelle
  imports Vercmp_Props Access Lease Triage_Again Triage_Merge_Props Finding_Apply_Small Graph_Matched
begin

text \<open>
  OpenPSIRT keeps, for the products somebody builds, which published issues are open in which build
  and what people decided about each. Scans file findings; people argue that a finding may be set
  aside or put off, a second person agrees, and everything anybody may read is narrowed to the
  products and visibilities they hold. This development models the parts of it that decide something:

  \<^item> version ordering (\<^verbatim>\<open>internal/vercmp\<close>), which says whether a build is past a fix;
  \<^item> access (\<^verbatim>\<open>internal/access\<close>), which says who may read, argue about and agree to what;
  \<^item> the queue of background jobs and its leases (\<^verbatim>\<open>internal/queue\<close>), on the transactions of
    \<^verbatim>\<open>internal/database\<close>;
  \<^item> triage decisions (\<^verbatim>\<open>internal/triage\<close>), with the incidents that stand beside them and what the
    merge of two issues does to both and to the rating claims (\<^verbatim>\<open>internal/finding/settle.go\<close>, \<^verbatim>\<open>merge.go\<close>);
  \<^item> findings (\<^verbatim>\<open>internal/finding\<close>): applying what a scan found to the rows a build holds, with
    everything that says where a finding stands, what argues it away, how it ranks and when it is due;
  \<^item> the dependency graph (\<^verbatim>\<open>internal/graph\<close>): storing what a scan says is in a build, and reading it
    as it stands or as it stood at a scan;
  \<^item> the cuts of bounded text (\<^verbatim>\<open>internal/bound\<close>) the others store.

  A scan's graph is stored first: its components are interned in the shared catalog, and the nodes,
  edges and image versions of its build are opened and closed by the difference. Its reports are then
  applied to the findings of that build: they are placed at every occurrence of the
  component (the graph's identifiers and edges), answered by the build's claims and the suppliers'
  statements, ranked and clocked, and compared with what is held open. Triage asks access who may act, holds each live row under a key that names a place, an issue and
  its versions, and reads from the findings, the settings and the incidents what it needs; a merge
  rewrites those keys. The queue, the leases and triage each run inside one transaction.

  \<^bold>\<open>Conventions.\<close> A Go value is a string of bytes (\<^typ>\<open>char list\<close>), an integer an \<^typ>\<open>int\<close>, except where
  its width matters (the 32-bit parts of a NuGet version; the durations of \<open>Triage_Deferral\<close>, signed 64-bit
  counts of nanoseconds whose differences saturate and whose sums go round), an enumeration over strings keeps its
  strings, a table is the list of its rows, oldest first, numbered from 1, as no modelled operation
  deletes a row. One transaction is one function from the tables to a refusal (\<^term>\<open>Inl\<close>) or to what it
  answers and the tables it leaves. What a transaction reads of other packages, and the clock, is the
  record \<open>env\<close>; the commits a database may lose are lists of fates. Fields of triage tables carry the
  alias their table has in the source's SQL (\<open>de_\<close>, \<open>cl_\<close>, \<open>da_\<close>).

  \<^bold>\<open>Theories.\<close>

  \<^item> \<open>Prelude\<close>: lists, cutting and joining texts, numerals, white space, orders and padded
    comparisons; the \<open>order_laws\<close>. \<open>Tables\<close>: Go maps of slices, and tables whose rows are numbered.
  \<^item> \<open>Vercmp_Base\<close> (\<^verbatim>\<open>vercmp.go\<close>: characters and runs of digits), \<open>Vercmp_Debian\<close>, \<open>Vercmp_Rpm\<close>,
    \<open>Vercmp_Apk\<close>, \<open>Vercmp_Semantic\<close>, \<open>Vercmp_Pypi\<close>, \<open>Vercmp_Nuget\<close>, \<open>Vercmp_Maven\<close>: one theory per scheme;
    each two-pointer walk is proved equal to a comparison of keys, from which its laws follow.
    \<open>Vercmp\<close> and \<open>Vercmp_Props\<close>: the questions asked over all schemes (\<open>Order\<close>, \<open>Reaches\<close>, \<open>Leads\<close>).
    Maven alone is not transitive over everything it accepts.
  \<^item> \<open>Bound\<close> (\<^verbatim>\<open>bound.go\<close>, \<^verbatim>\<open>text.go\<close>): cuts of UTF-8 by bytes and by characters.
  \<^item> \<open>Access\<close> (\<^verbatim>\<open>access.go\<close>, \<^verbatim>\<open>token.go\<close>): subjects, roles, visibilities, cases, tokens; the list of
    products and the condition a query is narrowed by are proved equal to the rule of one row.
  \<^item> \<open>Transactions\<close> (\<^verbatim>\<open>transaction.go\<close>), \<open>Queue\<close>, \<open>Queue_Props\<close>, \<open>Queue_Safety\<close> (\<^verbatim>\<open>queue.go\<close>,
    \<^verbatim>\<open>claim_locking.go\<close>): the job table, its step relation over any interleaving of workers whose
    clocks lag, and the invariant from which no job is held twice. \<open>Lease\<close> (\<^verbatim>\<open>lease.go\<close>,
    \<^verbatim>\<open>undertaker.go\<close>) is the same for leases.
  \<^item> \<open>Triage_Outcome\<close> (\<^verbatim>\<open>triage.go\<close>, \<^verbatim>\<open>scope.go\<close>, the proposals and keys of \<^verbatim>\<open>occurrence.go\<close>),
    \<open>Triage_Data\<close> (the tables), \<open>Triage_Deferral\<close> (\<^verbatim>\<open>threshold.go\<close>), \<open>Triage_Store\<close> (recording),
    \<open>Triage_Review\<close> (agreeing, splitting, sending back), \<open>Triage_Undo\<close> (\<^verbatim>\<open>approval.go\<close>, \<^verbatim>\<open>lapse.go\<close>,
    \<^verbatim>\<open>reaffirm.go\<close>), \<open>Triage_Bulk\<close> (\<^verbatim>\<open>bulk.go\<close>, \<^verbatim>\<open>reaffirm_many.go\<close>, \<^verbatim>\<open>ratedworse.go\<close>, \<^verbatim>\<open>carry.go\<close>),
    \<open>Triage_Narrowing\<close> (\<^verbatim>\<open>narrowing.go\<close>): the operations.
  \<^item> \<open>Triage_Safety\<close>, \<open>Triage_Invariant\<close>: the step relation over every act and the invariant
    \<open>triage_ok\<close> each keeps; \<open>Triage_Props\<close> draws the properties from it.
  \<^item> \<open>Triage_Writes\<close>: every act is a sequence of six elementary writes, so a law of the rows is
    proved for six writes rather than for eighteen acts.
  \<^item> \<open>Triage_Incident\<close> (\<^verbatim>\<open>incident.go\<close>), \<open>Triage_Standing\<close>, \<open>Triage_Desk\<close>: incidents beside decisions, the
    \<open>desk\<close> that holds both, and that nothing approved contradicts a standing incident. \<open>Triage_Again\<close> is
    the one history of a decision that this does not see: a row made again by itself records nothing it came from.
  \<^item> \<open>Triage_Settle\<close> (\<^verbatim>\<open>settle.go\<close>, \<^verbatim>\<open>merge.go\<close>), \<open>Triage_Merge\<close>, \<open>Triage_Stood\<close>, \<open>Triage_Merging\<close>,
    \<open>Triage_Merge_Props\<close>: what the merge of two issues leaves of decisions, rating claims and incidents. The locale
    \<open>ranked\<close> is the contract of "has more standing than", interpreted for all three; \<open>standing_rows\<close>
    extends it to a table of records that stand one to a product and issue, interpreted for rating claims and
    incidents, and proves once what settling leaves of such a table. The acts of people on rating claims are
    one step to any table that keeps the database's rules (\<open>claims_ok\<close>).
  \<^item> \<open>Graph_Purl\<close> (\<^verbatim>\<open>graph/component.go\<close>, \<^verbatim>\<open>sbom/suppression.go\<close>): package identifiers, their
    canonical form and parts, and what a target of a claim covers. \<open>Finding_Rank\<close> (\<^verbatim>\<open>rank.go\<close>,
    \<^verbatim>\<open>due.go\<close>, \<^verbatim>\<open>minimumseverity.go\<close>, \<^verbatim>\<open>rating.go\<close>): the packed rank, deadlines, the line.
    \<open>Finding_Place\<close> (\<^verbatim>\<open>occurrences.go\<close>, \<^verbatim>\<open>disclaim.go\<close>): where components sit, why one is gone, and the
    two walks that place a supplier's product, proved to say whether every route runs through it.
    \<open>Finding_Claims\<close> (\<^verbatim>\<open>claims.go\<close>, \<^verbatim>\<open>suppression.go\<close>, \<^verbatim>\<open>disclaim.go\<close>): which claim covers an
    occurrence and which statement answers it.
  \<^item> \<open>Finding_Apply\<close> (\<^verbatim>\<open>apply.go\<close>, \<^verbatim>\<open>held.go\<close>): the whole of applying a scan, from the reports to the
    statements in batches. \<open>Finding_Written\<close> reads statements row by row, \<open>Finding_Diff\<close> gives every
    held row its one fate whatever order a map is ranged over in, \<open>Finding_Rows\<close> and \<open>Finding_After\<close>
    compose the two into what each row becomes; \<open>Finding_Apply_Props\<close> and \<open>Finding_Again\<close> draw the
    properties, and \<open>Finding_Apply_Small\<close> applies them to a small scan.

  \<^item> \<open>Graph_Snapshot\<close> (\<^verbatim>\<open>graph/snapshot.go\<close>, \<^verbatim>\<open>reconcile.go\<close>, \<^verbatim>\<open>image.go\<close>, \<^verbatim>\<open>moment.go\<close>, the catalog of
    \<^verbatim>\<open>component.go\<close>): \<open>ApplyWithin\<close> on the four tables. \<open>Graph_Intern\<close> says what interning answers;
    \<open>Graph_Rows\<close> is the contract of a row held from one scan to another (the locale \<open>interval_rows\<close>,
    interpreted for nodes, edges and image versions); \<open>Graph_Reconcile\<close> and \<open>Graph_Links\<close> give each
    reconciliation as one pass over its table; \<open>Graph_Applied\<close> and \<open>Graph_Held\<close> state by identity
    what a snapshot says and prove that a call leaves the build holding it; \<open>Graph_History\<close> is the
    relation of scans applied one after another, \<open>Graph_Again\<close> refusals and repetition, and
    \<open>Graph_Snapshot_Props\<close> the properties, at two small builds. An earlier moment keeps its components,
    dependencies and versions by identity; the identifiers of a row still open are the latest stated. \<open>Graph_Stated\<close>
    is what a scanner is given of a build as it stands, with what the build left out filled in from the others of
    its product, stated against what its last scan said, and \<open>Graph_Matched\<close>
    proves that claims are matched against the same.

  \<^bold>\<open>Bounds and fuel.\<close> \<open>overMany\<close> follows a decision's history for the 64 steps of the source, and past
  them answers as the source does; \<open>await\<close> takes the list of clocks its loop reads, and is proved to
  end within it; the sweep of a build recurses on the rows not yet looked at; a walk of the graph on the components
  not yet seen; \<open>in_transaction\<close> makes
  the attempts the source makes. Every other recursion is structural or has a measure, so each
  function is total. A count of nanoseconds put off is exact up to 2^63, about 292 years, and the theorems of
  \<open>Triage_Deferral\<close> ask it; past that the sum goes round as the source's does, and a deferral may need nobody
  (\<open>Triage_Props\<close>).

  \<^bold>\<open>Not modelled.\<close> Input and output, HTTP and SQL as text: a statement is what it does to the rows.
  The queries that list decisions and the audit of them, and what the sweeps read of findings, which
  are arguments. The recording of rating claims, and the rating in force a merge leaves of them. The listings of findings, the sweeps that recompute ranks and deadlines, the
  listings and searches of the dependency graph, which builds a product has, scanning, advisories and the rest of the packages, which the manifest lists
  one by one. Unicode's case tables, SHA-256 and the rewriting of a
  parsed address are parameters (\<open>letters\<close>, \<open>digest\<close>, \<open>graphing\<close>), and so is the order in which Go ranges
  over a map (\<open>visits\<close>), which is only asked to visit every entry once. Row locks and isolation: a transaction is one
  step, and the retries after a lost commit are modelled for the queue alone.
\<close>

end
